(* ===== verification/ProtoPrelude.thy ===== *)
theory ProtoPrelude
  imports Main "HOL-Library.Word" "HOL-Library.Monad_Syntax" "HOL-Library.Sublist"
begin

text \<open>
  Shared vocabulary of the development: the machine types of the C++ code, the bounds of
  \<open>int\<close>, memory slices, guarded reads, and the generic lemmas on lists, options and words
  that the component theories use.

  Conventions. A C++ \<open>int\<close> is an \<open>int\<close> of HOL, and the theories prove that every value
  stays inside \<open>INT_MIN .. INT_MAX\<close> where the code relies on it (signed overflow is
  undefined in C++, so a model that wrapped would not be the program). An unsigned integer is a
  \<open>word\<close> of its width. A call that does not return normally (a failed
  \<open>GOOGLE_CHECK\<close> aborts the process, a read outside a buffer is undefined, a loop may not
  end) is \<open>None\<close>; theorems that a call returns are theorems that it is \<open>Some\<close>.
\<close>

section \<open>Machine types\<close>

type_synonym byte = "8 word"
type_synonym bytes = "byte list"
type_synonym uint32 = "32 word"
type_synonym uint64 = "64 word"

definition INT_MAX :: int where
  "INT_MAX = 2147483647"

definition INT_MIN :: int where
  "INT_MIN = - 2147483648"

definition is_int32 :: "int \<Rightarrow> bool" where
  "is_int32 x \<longleftrightarrow> INT_MIN \<le> x \<and> x \<le> INT_MAX"

named_theorems int_bounds \<open>the limits of the C++ int type\<close>

lemmas [int_bounds] = INT_MAX_def INT_MIN_def is_int32_def

text \<open>
  The value of an arithmetic expression of type \<open>int\<close>, none when it overflows; and the conversion
  of a \<open>size_t\<close> (or of an expression computed in it) to \<open>int\<close>, which keeps the low 32 bits.
\<close>

definition c_int :: "int \<Rightarrow> int option" where
  "c_int x = (if is_int32 x then Some x else None)"

definition to_int :: "int \<Rightarrow> int" where
  "to_int x = signed_take_bit 31 x"

lemma c_int_fits [simp]: "is_int32 x \<Longrightarrow> c_int x = Some x"
  by (simp add: c_int_def)

lemma c_int_eq_Some: "c_int x = Some y \<longleftrightarrow> is_int32 x \<and> y = x"
  by (auto simp: c_int_def)

lemma c_int_over: "INT_MAX < x \<Longrightarrow> c_int x = None"
  by (simp add: c_int_def is_int32_def)

lemma to_int_fits [simp]: "is_int32 x \<Longrightarrow> to_int x = x"
  unfolding to_int_def by (rule signed_take_bit_int_eq_self) (simp_all add: int_bounds)

lemma is_int32_nonneg: "0 \<le> x \<Longrightarrow> is_int32 x \<longleftrightarrow> x \<le> INT_MAX"
  by (simp add: int_bounds)

section \<open>Options as computations that may not return\<close>

lemma bind_eq_Some_iff [simp]:
  "Option.bind m f = Some y \<longleftrightarrow> (\<exists>x. m = Some x \<and> f x = Some y)"
  by (cases m) auto

section \<open>Memory slices\<close>

text \<open>The \<open>n\<close> bytes of \<open>data\<close> from offset \<open>pos\<close> on, both C++ \<open>int\<close>s.\<close>

definition mem_slice :: "'a list \<Rightarrow> int \<Rightarrow> int \<Rightarrow> 'a list" where
  "mem_slice data pos n = take (nat n) (drop (nat pos) data)"

lemma length_mem_slice:
  "0 \<le> pos \<Longrightarrow> 0 \<le> n \<Longrightarrow> pos + n \<le> int (length data) \<Longrightarrow> length (mem_slice data pos n) = nat n"
  by (simp add: mem_slice_def)

lemma mem_slice_drop:
  "0 \<le> pos \<Longrightarrow> 0 \<le> n \<Longrightarrow>
    drop (nat pos) data = mem_slice data pos n @ drop (nat (pos + n)) data"
  by (simp add: mem_slice_def nat_add_distrib add.commute flip: drop_drop)

lemma mem_slice_to_end [simp]:
  "0 \<le> pos \<Longrightarrow> mem_slice data pos (int (length data) - pos) = drop (nat pos) data"
  by (auto simp: mem_slice_def nat_diff_distrib' intro!: take_all)

lemma mem_slice_nonpos [simp]: "n \<le> 0 \<Longrightarrow> mem_slice data pos n = []"
  by (simp add: mem_slice_def)

lemma mem_slice_nonemptyD: "mem_slice data pos n \<noteq> [] \<Longrightarrow> 0 < n"
  by (rule ccontr) simp

text \<open>A read at an index: outside the buffer there is no value.\<close>

definition rd :: "'a list \<Rightarrow> nat \<Rightarrow> 'a option" where
  "rd xs i = (if i < length xs then Some (xs ! i) else None)"

lemma rd_Cons [simp]:
  "rd (x # xs) 0 = Some x" "rd (x # xs) (Suc i) = rd xs i" "rd [] i = None"
  by (auto simp: rd_def)

lemma rd_in_range: "i < length xs \<Longrightarrow> rd xs i = Some (xs ! i)"
  by (simp add: rd_def)

text \<open>Overwriting a region of a buffer: what stores through a pointer do.\<close>

definition overwrite :: "'a list \<Rightarrow> int \<Rightarrow> 'a list \<Rightarrow> 'a list" where
  "overwrite mem pos d = take (nat pos) mem @ d @ drop (nat pos + length d) mem"

lemma length_overwrite [simp]:
  "nat pos + length d \<le> length mem \<Longrightarrow> length (overwrite mem pos d) = length mem"
  by (simp add: overwrite_def)

lemma overwrite_Nil [simp]: "overwrite mem pos [] = mem"
  by (simp add: overwrite_def)

lemma store_nothing: "0 \<le> off \<Longrightarrow> off + int (length d) \<le> 0 \<Longrightarrow> d = []"
  by (cases d) auto

lemma take_overwrite:
  "k \<le> nat pos \<Longrightarrow> nat pos \<le> length mem \<Longrightarrow> take k (overwrite mem pos d) = take k mem"
  by (simp add: overwrite_def min_def)

lemma take_overwrite_all:
  "nat pos \<le> length mem \<Longrightarrow> n = nat pos + length d \<Longrightarrow>
    take n (overwrite mem pos d) = take (nat pos) mem @ d"
  by (simp add: overwrite_def)

end
