(* ===== verification/ZeroCopyStream.thy ===== *)
theory ZeroCopyStream
  imports ProtoPrelude
begin

text \<open>
  The stream interfaces of \<open>io/zero_copy_stream.h\<close> and the streams of
  \<open>io/zero_copy_stream_impl.cc\<close> that live in memory: \<open>ArrayInputStream\<close>,
  \<open>ArrayOutputStream\<close> and \<open>StringOutputStream\<close>. An abstract C++ class is a record of its
  virtual functions (its vtable) over a type of object states; the contract its header documents
  is a locale, interpreted here on each of the concrete streams.
\<close>

section \<open>The input interface\<close>

text \<open>
  \<open>Next\<close> returns the block of bytes \<open>*data\<close> points to (its length is \<open>*size\<close>), or
  \<open>None\<close> where the C++ returns false.
\<close>

record 's input_vt =
  in_next :: "'s \<Rightarrow> (bytes option \<times> 's) option"
  in_backup :: "int \<Rightarrow> 's \<Rightarrow> 's option"
  in_skip :: "int \<Rightarrow> 's \<Rightarrow> (bool \<times> 's) option"
  in_byte_count :: "'s \<Rightarrow> int"

text \<open>
  The contract. \<open>avail s\<close> are the bytes the stream has still to return, \<open>last s\<close> the
  bytes a client may still back up over, \<open>rank s\<close> decreases with every block (the header's
  ``repeatedly calling Next() eventually yields a buffer with non-zero size'').
\<close>

locale zero_copy_input =
  fixes vt :: "'s input_vt"
    and ok :: "'s \<Rightarrow> bool"
    and avail :: "'s \<Rightarrow> bytes"
    and last :: "'s \<Rightarrow> bytes"
    and rank :: "'s \<Rightarrow> nat"
  assumes next_returns: "ok s \<Longrightarrow> \<exists>r s'. in_next vt s = Some (r, s')"
    and next_block: "ok s \<Longrightarrow> in_next vt s = Some (Some b, s') \<Longrightarrow>
      ok s' \<and> avail s = b @ avail s' \<and> suffix b (last s') \<and> rank s' < rank s \<and>
      in_byte_count vt s' = in_byte_count vt s + int (length b)"
    and next_end: "ok s \<Longrightarrow> in_next vt s = Some (None, s') \<Longrightarrow>
      ok s' \<and> avail s = [] \<and> avail s' = [] \<and>
      in_byte_count vt s' = in_byte_count vt s"
    and block_size: "ok s \<Longrightarrow> in_next vt s = Some (Some b, s') \<Longrightarrow> int (length b) \<le> INT_MAX"
    and backup: "ok s \<Longrightarrow> last s \<noteq> [] \<Longrightarrow> 0 \<le> n \<Longrightarrow> n \<le> int (length (last s)) \<Longrightarrow>
      \<exists>s'. in_backup vt n s = Some s' \<and> ok s' \<and>
        avail s' = drop (length (last s) - nat n) (last s) @ avail s \<and>
        in_byte_count vt s' = in_byte_count vt s - n"

text \<open>The part of the contract about \<open>Skip\<close>, which not every stream keeps.\<close>

locale zero_copy_input_skip = zero_copy_input +
  assumes skip: "ok s \<Longrightarrow> 0 \<le> n \<Longrightarrow>
      \<exists>r s'. in_skip vt n s = Some (r, s') \<and> ok s' \<and>
        (0 < n \<longrightarrow> r = (n \<le> int (length (avail s)))) \<and>
        avail s' = drop (nat n) (avail s) \<and>
        in_byte_count vt s' = in_byte_count vt s + min n (int (length (avail s)))"

section \<open>The output interface\<close>

text \<open>
  \<open>Next\<close> gives the client a buffer of \<open>*size\<close> bytes; \<open>out_store off d\<close> is the
  client's stores of \<open>d\<close> at offset \<open>off\<close> from the \<open>*data\<close> of the last \<open>Next\<close>.
\<close>

record 's output_vt =
  out_next :: "'s \<Rightarrow> (int option \<times> 's) option"
  out_backup :: "int \<Rightarrow> 's \<Rightarrow> 's option"
  out_byte_count :: "'s \<Rightarrow> int"
  out_store :: "int \<Rightarrow> bytes \<Rightarrow> 's \<Rightarrow> 's"

text \<open>
  \<open>written s\<close> is all that would reach the output were no byte backed up, the client's buffer
  of \<open>lent s\<close> bytes at its end; \<open>rank s\<close> bounds the empty buffers a stream may return in a
  row. Up to \<open>budget\<close> bytes, \<open>Next\<close> returns (beyond, a stream may overflow an
  \<open>int\<close>).
\<close>

locale zero_copy_output =
  fixes vt :: "'s output_vt"
    and ok :: "'s \<Rightarrow> bool"
    and written :: "'s \<Rightarrow> bytes"
    and lent :: "'s \<Rightarrow> int"
    and rank :: "'s \<Rightarrow> nat"
    and budget :: int
  assumes next_returns: "ok s \<Longrightarrow> out_byte_count vt s \<le> budget \<Longrightarrow>
      \<exists>r s'. out_next vt s = Some (r, s')"
    and next_buffer: "ok s \<Longrightarrow> out_next vt s = Some (Some n, s') \<Longrightarrow>
      ok s' \<and> 0 \<le> n \<and> n \<le> INT_MAX \<and> lent s' = n \<and> (\<exists>junk. length junk = nat n \<and> written s' = written s @ junk) \<and>
      out_byte_count vt s' = out_byte_count vt s + n"
    and next_progress: "ok s \<Longrightarrow> out_next vt s = Some (Some 0, s') \<Longrightarrow> rank s' < rank s"
    and next_fail: "ok s \<Longrightarrow> out_next vt s = Some (None, s') \<Longrightarrow> ok s'"
    and lent_bounds: "ok s \<Longrightarrow> 0 \<le> lent s \<and> lent s \<le> int (length (written s))"
    and store: "ok s \<Longrightarrow> 0 \<le> off \<Longrightarrow> off + int (length d) \<le> lent s \<Longrightarrow>
      ok (out_store vt off d s) \<and> lent (out_store vt off d s) = lent s \<and>
      rank (out_store vt off d s) = rank s \<and>
      out_byte_count vt (out_store vt off d s) = out_byte_count vt s \<and>
      written (out_store vt off d s) =
        overwrite (written s) (int (length (written s)) - lent s + off) d"
    and backup: "ok s \<Longrightarrow> 0 < n \<Longrightarrow> n \<le> lent s \<Longrightarrow>
      \<exists>s'. out_backup vt n s = Some s' \<and> ok s' \<and>
        written s' = take (length (written s) - nat n) (written s) \<and>
        out_byte_count vt s' = out_byte_count vt s - n"


section \<open>ArrayInputStream\<close>

record array_input =
  ai_data :: bytes
  ai_size :: int
  ai_block_size :: int
  ai_position :: int
  ai_last_returned_size :: int

definition ArrayInputStream :: "bytes \<Rightarrow> int \<Rightarrow> int \<Rightarrow> array_input" where
  "ArrayInputStream data sz block_size =
     \<lparr>ai_data = data, ai_size = sz,
      ai_block_size = (if block_size > 0 then block_size else sz),
      ai_position = 0, ai_last_returned_size = 0\<rparr>"

definition ArrayInputStream_Next :: "array_input \<Rightarrow> (bytes option \<times> array_input) option" where
  "ArrayInputStream_Next s =
     (if ai_position s < ai_size s then
        let n = min (ai_block_size s) (ai_size s - ai_position s) in
        Some (Some (mem_slice (ai_data s) (ai_position s) n),
              s\<lparr>ai_last_returned_size := n, ai_position := ai_position s + n\<rparr>)
      else Some (None, s\<lparr>ai_last_returned_size := 0\<rparr>))"

definition ArrayInputStream_BackUp :: "int \<Rightarrow> array_input \<Rightarrow> array_input option" where
  "ArrayInputStream_BackUp count s =
     (if \<not> ai_last_returned_size s > 0 then None
      else if \<not> count \<le> ai_last_returned_size s then None
      else if \<not> count \<ge> 0 then None
      else Some (s\<lparr>ai_position := ai_position s - count, ai_last_returned_size := 0\<rparr>))"

definition ArrayInputStream_Skip :: "int \<Rightarrow> array_input \<Rightarrow> (bool \<times> array_input) option" where
  "ArrayInputStream_Skip count s =
     (if \<not> count \<ge> 0 then None
      else if count > ai_size s - ai_position s then
        Some (False, s\<lparr>ai_last_returned_size := 0, ai_position := ai_size s\<rparr>)
      else
        Some (True, s\<lparr>ai_last_returned_size := 0, ai_position := ai_position s + count\<rparr>))"

definition ArrayInputStream_ByteCount :: "array_input \<Rightarrow> int" where
  "ArrayInputStream_ByteCount s = ai_position s"

definition ArrayInput_vt :: "array_input input_vt" where
  "ArrayInput_vt =
     \<lparr>in_next = ArrayInputStream_Next, in_backup = ArrayInputStream_BackUp,
      in_skip = ArrayInputStream_Skip, in_byte_count = ArrayInputStream_ByteCount\<rparr>"

text \<open>
  The class invariant: the array is as long as the \<open>size\<close> passed in and blocks are not empty.
  Every access is inside the array, and no sum leaves the range of \<open>int\<close>.
\<close>

definition array_input_ok :: "array_input \<Rightarrow> bool" where
  "array_input_ok s \<longleftrightarrow>
     ai_size s = int (length (ai_data s)) \<and> ai_size s \<le> INT_MAX \<and>
     (0 < ai_size s \<longrightarrow> 0 < ai_block_size s) \<and>
     0 \<le> ai_position s \<and> ai_position s \<le> ai_size s \<and>
     0 \<le> ai_last_returned_size s \<and> ai_last_returned_size s \<le> ai_position s"

definition array_input_avail :: "array_input \<Rightarrow> bytes" where
  "array_input_avail s = drop (nat (ai_position s)) (ai_data s)"

definition array_input_last :: "array_input \<Rightarrow> bytes" where
  "array_input_last s =
     mem_slice (ai_data s) (ai_position s - ai_last_returned_size s) (ai_last_returned_size s)"

definition array_input_rank :: "array_input \<Rightarrow> nat" where
  "array_input_rank s = nat (ai_size s - ai_position s)"

lemma array_input_ok_init:
  "int (length data) \<le> INT_MAX \<Longrightarrow> array_input_ok (ArrayInputStream data (int (length data)) bs)"
  by (auto simp: array_input_ok_def ArrayInputStream_def)

lemma array_input_avail_init [simp]:
  "array_input_avail (ArrayInputStream data sz bs) = data"
  by (simp add: array_input_avail_def ArrayInputStream_def)

lemmas array_input_defs = array_input_ok_def array_input_avail_def array_input_last_def
  array_input_rank_def ArrayInput_vt_def ArrayInputStream_Next_def ArrayInputStream_BackUp_def
  ArrayInputStream_Skip_def ArrayInputStream_ByteCount_def

lemma mem_slice_suffix:
  "0 \<le> n \<Longrightarrow> n \<le> l \<Longrightarrow> l \<le> p \<Longrightarrow> p \<le> int (length d) \<Longrightarrow>
    drop (nat (p - n)) d = drop (nat l - nat n) (mem_slice d (p - l) l) @ drop (nat p) d"
proof -
  assume a: "0 \<le> n" "n \<le> l" "l \<le> p" "p \<le> int (length d)"
  have "drop (nat (p - n)) d = drop (nat l - nat n) (drop (nat (p - l)) d)"
    using a by (simp add: nat_diff_distrib)
  also have "drop (nat (p - l)) d = mem_slice d (p - l) l @ drop (nat p) d"
    using a mem_slice_drop [of "p - l" l d] by simp
  also have "drop (nat l - nat n) (mem_slice d (p - l) l @ drop (nat p) d) =
      drop (nat l - nat n) (mem_slice d (p - l) l) @ drop (nat p) d"
    using a by (simp add: length_mem_slice nat_diff_distrib)
  finally show ?thesis .
qed

interpretation ai: zero_copy_input_skip ArrayInput_vt array_input_ok array_input_avail
    array_input_last array_input_rank
proof (unfold_locales, goal_cases)
  case (1 s) then show ?case by (simp add: array_input_defs Let_def)
next
  case (2 s b s')
  then show ?case
    by (auto simp: array_input_defs Let_def length_mem_slice min_def split: if_splits
        intro!: mem_slice_drop)
next
  case (3 s s') then show ?case by (auto simp: array_input_defs Let_def split: if_splits)
next
  case (4 s b s')
  then show ?case by (auto simp: array_input_defs Let_def length_mem_slice min_def split: if_splits)
next
  case (5 s n)
  then show ?case
    by (auto simp: array_input_defs length_mem_slice mem_slice_suffix [symmetric]
        intro!: mem_slice_suffix dest: mem_slice_nonemptyD split: if_splits)
next
  case (6 s n)
  then show ?case
    by (auto simp: array_input_defs nat_add_distrib min_def add.commute)
qed


section \<open>ArrayOutputStream\<close>

record array_output =
  ao_data :: bytes
  ao_size :: int
  ao_block_size :: int
  ao_position :: int
  ao_last_returned_size :: int

definition ArrayOutputStream :: "bytes \<Rightarrow> int \<Rightarrow> int \<Rightarrow> array_output" where
  "ArrayOutputStream data sz block_size =
     \<lparr>ao_data = data, ao_size = sz,
      ao_block_size = (if block_size > 0 then block_size else sz),
      ao_position = 0, ao_last_returned_size = 0\<rparr>"

definition ArrayOutputStream_Next :: "array_output \<Rightarrow> (int option \<times> array_output) option" where
  "ArrayOutputStream_Next s =
     (if ao_position s < ao_size s then
        let n = min (ao_block_size s) (ao_size s - ao_position s) in
        Some (Some n, s\<lparr>ao_last_returned_size := n, ao_position := ao_position s + n\<rparr>)
      else Some (None, s\<lparr>ao_last_returned_size := 0\<rparr>))"

definition ArrayOutputStream_BackUp :: "int \<Rightarrow> array_output \<Rightarrow> array_output option" where
  "ArrayOutputStream_BackUp count s =
     (if \<not> ao_last_returned_size s > 0 then None
      else if \<not> count \<le> ao_last_returned_size s then None
      else if \<not> count \<ge> 0 then None
      else Some (s\<lparr>ao_position := ao_position s - count, ao_last_returned_size := 0\<rparr>))"

definition ArrayOutputStream_ByteCount :: "array_output \<Rightarrow> int" where
  "ArrayOutputStream_ByteCount s = ao_position s"

text \<open>The client's buffer is the array from the position before the last \<open>Next\<close> on.\<close>

definition ArrayOutputStream_store :: "int \<Rightarrow> bytes \<Rightarrow> array_output \<Rightarrow> array_output" where
  "ArrayOutputStream_store off d s =
     s\<lparr>ao_data := overwrite (ao_data s) (ao_position s - ao_last_returned_size s + off) d\<rparr>"

definition ArrayOutput_vt :: "array_output output_vt" where
  "ArrayOutput_vt =
     \<lparr>out_next = ArrayOutputStream_Next, out_backup = ArrayOutputStream_BackUp,
      out_byte_count = ArrayOutputStream_ByteCount, out_store = ArrayOutputStream_store\<rparr>"

definition array_output_ok :: "array_output \<Rightarrow> bool" where
  "array_output_ok s \<longleftrightarrow>
     ao_size s = int (length (ao_data s)) \<and> ao_size s \<le> INT_MAX \<and>
     (0 < ao_size s \<longrightarrow> 0 < ao_block_size s) \<and>
     0 \<le> ao_position s \<and> ao_position s \<le> ao_size s \<and>
     0 \<le> ao_last_returned_size s \<and> ao_last_returned_size s \<le> ao_position s"

definition array_output_written :: "array_output \<Rightarrow> bytes" where
  "array_output_written s = take (nat (ao_position s)) (ao_data s)"

definition array_output_rank :: "array_output \<Rightarrow> nat" where
  "array_output_rank s = 0"

lemma array_output_ok_init:
  "int (length data) \<le> INT_MAX \<Longrightarrow> array_output_ok (ArrayOutputStream data (int (length data)) bs)"
  by (auto simp: array_output_ok_def ArrayOutputStream_def)

lemma array_output_written_init [simp]:
  "array_output_written (ArrayOutputStream data sz bs) = []"
  by (simp add: array_output_written_def ArrayOutputStream_def)

lemmas array_output_defs = array_output_ok_def array_output_written_def array_output_rank_def
  ArrayOutput_vt_def ArrayOutputStream_Next_def ArrayOutputStream_BackUp_def
  ArrayOutputStream_ByteCount_def ArrayOutputStream_store_def

lemma take_overwrite_prefix:
  "0 \<le> p \<Longrightarrow> p + int (length d) \<le> q \<Longrightarrow> q \<le> int (length mem) \<Longrightarrow>
    take (nat q) (overwrite mem p d) = overwrite (take (nat q) mem) p d"
proof -
  assume a: "0 \<le> p" "p + int (length d) \<le> q" "q \<le> int (length mem)"
  then obtain i j where "p = int i" "q = int j" by (metis nonneg_int_cases of_nat_0_le_iff order_trans add_nonneg_nonneg)
  with a have "i + length d \<le> j" "j \<le> length mem" by auto
  moreover have "j \<le> i \<Longrightarrow> j = i \<and> d = []" using calculation by (cases d) auto
  ultimately show ?thesis using \<open>p = int i\<close> \<open>q = int j\<close>
    by (auto simp: overwrite_def min_def drop_take)
qed

lemma take_grow:
  "0 \<le> p \<Longrightarrow> 0 \<le> n \<Longrightarrow> p + n \<le> int (length d) \<Longrightarrow>
    \<exists>junk. length junk = nat n \<and> take (nat (p + n)) d = take (nat p) d @ junk"
  by (rule exI [of _ "mem_slice d p n"])
     (simp add: length_mem_slice mem_slice_def nat_add_distrib take_add)

lemma take_grow_all:
  "0 \<le> p \<Longrightarrow> p \<le> int (length d) \<Longrightarrow>
    \<exists>junk. length junk = nat (int (length d) - p) \<and> d = take (nat p) d @ junk"
  by (rule exI [of _ "drop (nat p) d"]) (simp add: nat_diff_distrib)

interpretation ao: zero_copy_output ArrayOutput_vt array_output_ok array_output_written
    ao_last_returned_size array_output_rank INT_MAX
proof (unfold_locales, goal_cases)
  case (1 s) then show ?case by (simp add: array_output_defs Let_def)
next
  case (2 s n s')
  then show ?case
    by (auto simp: array_output_defs Let_def min_def take_grow take_grow_all split: if_splits)
next
  case (3 s s') then show ?case by (auto simp: array_output_defs Let_def split: if_splits)
next
  case (4 s s') then show ?case by (auto simp: array_output_defs Let_def split: if_splits)
next
  case (5 s) then show ?case by (auto simp: array_output_defs)
next
  case (6 s off d)
  then have "nat (ao_position s - ao_last_returned_size s + off) + length d \<le> length (ao_data s)"
    unfolding array_output_ok_def by linarith
  moreover have "int (length (take (nat (ao_position s)) (ao_data s))) = ao_position s"
    using 6 by (auto simp: array_output_ok_def)
  ultimately show ?case using 6
    by (auto simp: array_output_defs take_overwrite_prefix simp del: length_take)
next
  case (7 s n)
  moreover from 7 have "length (take (nat (ao_position s)) (ao_data s)) = nat (ao_position s)"
    by (auto simp: array_output_ok_def)
  ultimately show ?case
    by (auto simp: array_output_defs min_def nat_diff_distrib simp del: length_take)
qed


section \<open>StringOutputStream\<close>

text \<open>
  The state is the \<open>std::string\<close> the stream appends to, with its capacity; libstdc++ grows a
  string to the larger of the size asked for and twice its capacity. \<open>so_last_data\<close> records
  where the \<open>*data\<close> of the last \<open>Next\<close> points, so that the client's stores have an address.
\<close>

record string_output =
  so_target :: bytes
  so_capacity :: int
  so_last_data :: int

definition kMinimumSize :: int where
  "kMinimumSize = 16"

definition string_resize :: "int \<Rightarrow> string_output \<Rightarrow> string_output" where
  "string_resize n s =
     s\<lparr>so_target := take (nat n) (so_target s) @ replicate (nat n - length (so_target s)) 0,
       so_capacity := (if n \<le> so_capacity s then so_capacity s else max n (2 * so_capacity s))\<rparr>"

definition StringOutputStream :: "bytes \<Rightarrow> int \<Rightarrow> string_output" where
  "StringOutputStream target cap =
     \<lparr>so_target = target, so_capacity = cap, so_last_data = int (length target)\<rparr>"

text \<open>\<open>None\<close> where \<open>old_size * 2\<close> overflows an \<open>int\<close>, which is undefined in C++.\<close>

definition StringOutputStream_Next :: "string_output \<Rightarrow> (int option \<times> string_output) option" where
  "StringOutputStream_Next s =
     (let old_size = int (length (so_target s)) in
      do {
        s' \<leftarrow> (if old_size < so_capacity s then Some (string_resize (so_capacity s) s)
              else if old_size * 2 > INT_MAX then None
              else Some (string_resize (max (old_size * 2) (kMinimumSize + 0)) s));
        Some (Some (int (length (so_target s')) - old_size), s'\<lparr>so_last_data := old_size\<rparr>)
      })"

definition StringOutputStream_BackUp :: "int \<Rightarrow> string_output \<Rightarrow> string_output option" where
  "StringOutputStream_BackUp count s =
     (if \<not> count \<ge> 0 then None
      else if \<not> count \<le> int (length (so_target s)) then None
      else let n = int (length (so_target s)) - count
           in Some ((string_resize n s)\<lparr>so_last_data := n\<rparr>))"

definition StringOutputStream_ByteCount :: "string_output \<Rightarrow> int" where
  "StringOutputStream_ByteCount s = int (length (so_target s))"

definition StringOutputStream_store :: "int \<Rightarrow> bytes \<Rightarrow> string_output \<Rightarrow> string_output" where
  "StringOutputStream_store off d s =
     s\<lparr>so_target := overwrite (so_target s) (so_last_data s + off) d\<rparr>"

definition StringOutput_vt :: "string_output output_vt" where
  "StringOutput_vt =
     \<lparr>out_next = StringOutputStream_Next, out_backup = StringOutputStream_BackUp,
      out_byte_count = StringOutputStream_ByteCount, out_store = StringOutputStream_store\<rparr>"

definition string_output_ok :: "string_output \<Rightarrow> bool" where
  "string_output_ok s \<longleftrightarrow>
     int (length (so_target s)) \<le> so_capacity s \<and> so_capacity s \<le> INT_MAX \<and>
     0 \<le> so_last_data s \<and> so_last_data s \<le> int (length (so_target s))"

definition string_output_lent :: "string_output \<Rightarrow> int" where
  "string_output_lent s = int (length (so_target s)) - so_last_data s"

definition string_output_rank :: "string_output \<Rightarrow> nat" where
  "string_output_rank s = 0"

lemma string_output_ok_init:
  "int (length target) \<le> cap \<Longrightarrow> cap \<le> INT_MAX \<Longrightarrow> string_output_ok (StringOutputStream target cap)"
  by (simp add: string_output_ok_def StringOutputStream_def)

lemma length_string_resize [simp]:
  "length (so_target (string_resize n s)) = nat n"
  by (simp add: string_resize_def min_def)

lemma string_resize_grow:
  "int (length (so_target s)) \<le> n \<Longrightarrow>
    so_target (string_resize n s) = so_target s @ replicate (nat n - length (so_target s)) 0"
  by (simp add: string_resize_def)

lemmas string_output_defs = string_output_ok_def string_output_lent_def string_output_rank_def
  StringOutput_vt_def StringOutputStream_Next_def StringOutputStream_BackUp_def
  StringOutputStream_ByteCount_def StringOutputStream_store_def kMinimumSize_def

lemma string_next_buffer:
  assumes "string_output_ok s" "StringOutputStream_Next s = Some (r, s')"
  shows "string_output_ok s' \<and> (\<exists>n junk. r = Some n \<and> 0 < n \<and> n \<le> INT_MAX \<and> length junk = nat n \<and>
    so_target s' = so_target s @ junk \<and> so_last_data s' = int (length (so_target s)))"
  using assms
  by (auto simp: string_output_defs Let_def string_resize_def INT_MAX_def split: if_splits)

interpretation so: zero_copy_output StringOutput_vt string_output_ok so_target
    string_output_lent string_output_rank "INT_MAX div 2"
proof (unfold_locales, goal_cases)
  case (1 s) then show ?case by (auto simp: string_output_defs Let_def int_bounds)
next
  case (2 s n s')
  then show ?case using string_next_buffer [of s "Some n" s']
    by (fastforce simp: StringOutput_vt_def string_output_lent_def StringOutputStream_ByteCount_def)
next
  case (3 s s')
  then show ?case using string_next_buffer [of s "Some 0" s'] by (auto simp: StringOutput_vt_def)
next
  case (4 s s')
  then show ?case using string_next_buffer [of s None s'] by (auto simp: StringOutput_vt_def)
next
  case (5 s) then show ?case by (auto simp: string_output_defs)
next
  case (6 s off d)
  then have "nat (so_last_data s + off) + length d \<le> length (so_target s)"
    unfolding string_output_ok_def string_output_lent_def by linarith
  with 6 show ?case by (auto simp: string_output_defs)
next
  case (7 s n)
  then have "nat (int (length (so_target s)) - n) = length (so_target s) - nat n"
    by (auto simp: string_output_defs)
  with 7 show ?case by (auto simp: string_output_defs Let_def string_resize_def)
qed

end
