(* ===== verification/CopyingStreams.thy ===== *)
theory CopyingStreams
  imports ZeroCopyStream
begin

text \<open>
  \<open>CopyingInputStream\<close>, its default \<open>Skip\<close>, the adaptor that turns a copying stream into a
  zero-copy one, and the copying streams over a \<open>std::istream\<close> and over a file descriptor
  (\<open>io/zero_copy_stream_impl.cc\<close>). The contract of a copying stream is the locale
  \<open>copying_input\<close>; the adaptor keeps the contract of \<open>zero_copy_input\<close> over every copying
  stream that keeps its own (a \<open>sublocale\<close>), and over the istream in particular.
\<close>

section \<open>The copying interface\<close>

text \<open>\<open>Read\<close> returns the bytes put in the buffer, or an error (its result \<open>-1\<close>).\<close>

datatype read_result = ReadError | ReadBytes bytes

record 'c copying_vt =
  cp_read :: "int \<Rightarrow> 'c \<Rightarrow> (read_result \<times> 'c) option"
  cp_skip :: "int \<Rightarrow> 'c \<Rightarrow> (int \<times> 'c) option"

text \<open>The default \<open>Skip\<close>: the loop reads into a scratch buffer of 4096 bytes.\<close>

partial_function (option) CopyingInputStream_Skip_loop ::
  "(int \<Rightarrow> 'c \<Rightarrow> (read_result \<times> 'c) option) \<Rightarrow> int \<Rightarrow> int \<Rightarrow> 'c \<Rightarrow> (int \<times> 'c) option" where
  "CopyingInputStream_Skip_loop Read count skipped c =
     (if skipped < count then do {
        (r, c') \<leftarrow> Read (min count 4096) c;
        (case r of
           ReadError \<Rightarrow> Some (skipped, c')
         | ReadBytes b \<Rightarrow>
             if b = [] then Some (skipped, c')
             else CopyingInputStream_Skip_loop Read count (skipped + int (length b)) c')
      }
      else Some (skipped, c))"

definition CopyingInputStream_Skip ::
  "(int \<Rightarrow> 'c \<Rightarrow> (read_result \<times> 'c) option) \<Rightarrow> int \<Rightarrow> 'c \<Rightarrow> (int \<times> 'c) option" where
  "CopyingInputStream_Skip Read count c = CopyingInputStream_Skip_loop Read count 0 c"

locale copying_input =
  fixes cvt :: "'c copying_vt"
    and cok :: "'c \<Rightarrow> bool"
    and cavail :: "'c \<Rightarrow> bytes"
  assumes read: "cok c \<Longrightarrow> 0 < n \<Longrightarrow> \<exists>r c'. cp_read cvt n c = Some (r, c') \<and> cok c' \<and>
      (case r of
         ReadError \<Rightarrow> cavail c = [] \<and> cavail c' = []
       | ReadBytes b \<Rightarrow> cavail c = b @ cavail c' \<and> int (length b) \<le> n \<and> (b = [] \<longrightarrow> cavail c = []))"

context copying_input
begin

text \<open>
  What the default \<open>Skip\<close> does over any copying stream: it consumes exactly the bytes it counts,
  at least \<open>count\<close> of them or all there are, but it may overshoot \<open>count\<close>.
\<close>

lemma default_skip_loop:
  assumes "cok c" "0 \<le> skipped" "0 < count"
  shows "\<exists>k c'. CopyingInputStream_Skip_loop (cp_read cvt) count skipped c = Some (skipped + int k, c') \<and>
    cok c' \<and> k \<le> length (cavail c) \<and> cavail c' = drop k (cavail c) \<and>
    (skipped + int k < count \<longrightarrow> k = length (cavail c)) \<and>
    (k = 0 \<or> skipped + int k < count + 4096)"
  using assms(1,2)
proof (induction "length (cavail c)" arbitrary: c skipped rule: less_induct)
  case less
  show ?case
  proof (cases "skipped < count")
    case False
    then show ?thesis using less.prems
      by (intro exI [of _ 0] exI [of _ c]) (simp add: CopyingInputStream_Skip_loop.simps [of _ count skipped c])
  next
    case True
    have n: "0 < min count 4096" using assms(3) by simp
    obtain r c1 where r: "cp_read cvt (min count 4096) c = Some (r, c1)" and c1: "cok c1"
      and res: "case r of ReadError \<Rightarrow> cavail c = [] \<and> cavail c1 = []
        | ReadBytes b \<Rightarrow> cavail c = b @ cavail c1 \<and> int (length b) \<le> min count 4096 \<and>
            (b = [] \<longrightarrow> cavail c = [])"
      using read [OF less.prems(1) n] by blast
    show ?thesis
    proof (cases "r = ReadError \<or> r = ReadBytes []")
      case True
      then show ?thesis using r res c1 \<open>skipped < count\<close>
        by (intro exI [of _ 0] exI [of _ c1])
           (auto simp: CopyingInputStream_Skip_loop.simps [of _ count skipped c])
    next
      case False
      then obtain b where b: "r = ReadBytes b" "b \<noteq> []" by (cases r) auto
      with res have ca: "cavail c = b @ cavail c1" and lb: "int (length b) \<le> min count 4096" by auto
      obtain k c' where k: "CopyingInputStream_Skip_loop (cp_read cvt) count
            (skipped + int (length b)) c1 = Some (skipped + int (length b) + int k, c')"
        "cok c'" "k \<le> length (cavail c1)" "cavail c' = drop k (cavail c1)"
        "skipped + int (length b) + int k < count \<longrightarrow> k = length (cavail c1)"
        "k = 0 \<or> skipped + int (length b) + int k < count + 4096"
        using less.hyps [of c1 "skipped + int (length b)"] ca b(2) c1 less.prems(2)
        by (auto simp: add.assoc)
      show ?thesis
        by (rule exI [of _ "length b + k"], rule exI [of _ c'])
           (use k b r ca lb True in \<open>auto simp: CopyingInputStream_Skip_loop.simps [of _ count skipped c]\<close>)
    qed
  qed
qed

lemma default_skip:
  assumes "cok c" "0 < count"
  shows "\<exists>k c'. CopyingInputStream_Skip (cp_read cvt) count c = Some (int k, c') \<and> cok c' \<and>
    k \<le> length (cavail c) \<and> cavail c' = drop k (cavail c) \<and>
    (int k < count \<longrightarrow> k = length (cavail c)) \<and> int k < count + 4096"
  using default_skip_loop [of c 0 count] assms unfolding CopyingInputStream_Skip_def by fastforce

end


section \<open>CopyingInputStreamAdaptor\<close>

definition kDefaultBlockSize :: int where
  "kDefaultBlockSize = 8192"

text \<open>
  \<open>ca_buffer\<close> is the owned array, \<open>None\<close> where the \<open>scoped_array\<close> is \<open>NULL\<close>. Ownership
  of the copying stream (its deletion) is not part of the state.
\<close>

record 'c copying_adaptor =
  ca_stream :: 'c
  ca_failed :: bool
  ca_position :: int
  ca_buffer :: "bytes option"
  ca_buffer_size :: int
  ca_buffer_used :: int
  ca_backup_bytes :: int

definition CopyingInputStreamAdaptor :: "'c \<Rightarrow> int \<Rightarrow> 'c copying_adaptor" where
  "CopyingInputStreamAdaptor copying_stream block_size =
     \<lparr>ca_stream = copying_stream, ca_failed = False, ca_position = 0, ca_buffer = None,
      ca_buffer_size = (if block_size > 0 then block_size else kDefaultBlockSize),
      ca_buffer_used = 0, ca_backup_bytes = 0\<rparr>"

text \<open>A fresh array has unspecified contents in C++; no operation returns them.\<close>

definition CopyingInputStreamAdaptor_AllocateBufferIfNeeded ::
  "'c copying_adaptor \<Rightarrow> 'c copying_adaptor" where
  "CopyingInputStreamAdaptor_AllocateBufferIfNeeded s =
     (if ca_buffer s = None then s\<lparr>ca_buffer := Some (replicate (nat (ca_buffer_size s)) 0)\<rparr> else s)"

definition CopyingInputStreamAdaptor_FreeBuffer ::
  "'c copying_adaptor \<Rightarrow> 'c copying_adaptor option" where
  "CopyingInputStreamAdaptor_FreeBuffer s =
     (if ca_backup_bytes s \<noteq> 0 then None else Some (s\<lparr>ca_buffer_used := 0, ca_buffer := None\<rparr>))"

definition CopyingInputStreamAdaptor_Next ::
  "'c copying_vt \<Rightarrow> 'c copying_adaptor \<Rightarrow> (bytes option \<times> 'c copying_adaptor) option" where
  "CopyingInputStreamAdaptor_Next cvt s0 =
     (if ca_failed s0 then Some (None, s0)
      else
        let s = CopyingInputStreamAdaptor_AllocateBufferIfNeeded s0;
            buffer = the (ca_buffer s) in
        if ca_backup_bytes s > 0 then
          Some (Some (mem_slice buffer (ca_buffer_used s - ca_backup_bytes s) (ca_backup_bytes s)),
                s\<lparr>ca_backup_bytes := 0\<rparr>)
        else do {
          (r, c) \<leftarrow> cp_read cvt (ca_buffer_size s) (ca_stream s);
          (case r of
             ReadError \<Rightarrow> do {
               s' \<leftarrow> CopyingInputStreamAdaptor_FreeBuffer
                       (s\<lparr>ca_stream := c, ca_buffer_used := - 1, ca_failed := True\<rparr>);
               Some (None, s')
             }
           | ReadBytes b \<Rightarrow>
               if b = [] then do {
                 s' \<leftarrow> CopyingInputStreamAdaptor_FreeBuffer (s\<lparr>ca_stream := c, ca_buffer_used := 0\<rparr>);
                 Some (None, s')
               }
               else Some (Some b,
                 s\<lparr>ca_stream := c, ca_buffer := Some (overwrite buffer 0 b),
                   ca_buffer_used := int (length b),
                   ca_position := ca_position s + int (length b)\<rparr>))
        })"

definition CopyingInputStreamAdaptor_BackUp ::
  "int \<Rightarrow> 'c copying_adaptor \<Rightarrow> 'c copying_adaptor option" where
  "CopyingInputStreamAdaptor_BackUp count s =
     (if \<not> (ca_backup_bytes s = 0 \<and> ca_buffer s \<noteq> None) then None
      else if \<not> count \<le> ca_buffer_used s then None
      else if \<not> count \<ge> 0 then None
      else Some (s\<lparr>ca_backup_bytes := count\<rparr>))"

definition CopyingInputStreamAdaptor_Skip ::
  "'c copying_vt \<Rightarrow> int \<Rightarrow> 'c copying_adaptor \<Rightarrow> (bool \<times> 'c copying_adaptor) option" where
  "CopyingInputStreamAdaptor_Skip cvt count s =
     (if \<not> count \<ge> 0 then None
      else if ca_failed s then Some (False, s)
      else if ca_backup_bytes s \<ge> count then
        Some (True, s\<lparr>ca_backup_bytes := ca_backup_bytes s - count\<rparr>)
      else do {
        let count' = count - ca_backup_bytes s;
        (skipped, c) \<leftarrow> cp_skip cvt count' (ca_stream s);
        Some (skipped = count',
              s\<lparr>ca_backup_bytes := 0, ca_stream := c, ca_position := ca_position s + skipped\<rparr>)
      })"

definition CopyingInputStreamAdaptor_ByteCount :: "'c copying_adaptor \<Rightarrow> int" where
  "CopyingInputStreamAdaptor_ByteCount s = ca_position s - ca_backup_bytes s"

definition CopyingInputAdaptor_vt :: "'c copying_vt \<Rightarrow> 'c copying_adaptor input_vt" where
  "CopyingInputAdaptor_vt cvt =
     \<lparr>in_next = CopyingInputStreamAdaptor_Next cvt, in_backup = CopyingInputStreamAdaptor_BackUp,
      in_skip = CopyingInputStreamAdaptor_Skip cvt,
      in_byte_count = CopyingInputStreamAdaptor_ByteCount\<rparr>"

text \<open>The class invariant, and what the adaptor has still to return.\<close>

definition copying_adaptor_ok ::
  "('c \<Rightarrow> bool) \<Rightarrow> ('c \<Rightarrow> bytes) \<Rightarrow> 'c copying_adaptor \<Rightarrow> bool" where
  "copying_adaptor_ok cok cavail s \<longleftrightarrow>
     cok (ca_stream s) \<and> 0 < ca_buffer_size s \<and> ca_buffer_size s \<le> INT_MAX \<and>
     0 \<le> ca_backup_bytes s \<and> ca_backup_bytes s \<le> ca_buffer_used s \<and>
     (case ca_buffer s of
        None \<Rightarrow> ca_buffer_used s = 0
      | Some b \<Rightarrow> int (length b) = ca_buffer_size s \<and> ca_buffer_used s \<le> ca_buffer_size s) \<and>
     (ca_failed s \<longrightarrow> ca_buffer s = None \<and> cavail (ca_stream s) = [])"

definition copying_adaptor_pending :: "'c copying_adaptor \<Rightarrow> bytes" where
  "copying_adaptor_pending s =
     (case ca_buffer s of None \<Rightarrow> []
      | Some b \<Rightarrow> mem_slice b (ca_buffer_used s - ca_backup_bytes s) (ca_backup_bytes s))"

definition copying_adaptor_avail :: "('c \<Rightarrow> bytes) \<Rightarrow> 'c copying_adaptor \<Rightarrow> bytes" where
  "copying_adaptor_avail cavail s = copying_adaptor_pending s @ cavail (ca_stream s)"

definition copying_adaptor_last :: "'c copying_adaptor \<Rightarrow> bytes" where
  "copying_adaptor_last s =
     (case ca_buffer s of None \<Rightarrow> []
      | Some b \<Rightarrow> if ca_backup_bytes s = 0 then take (nat (ca_buffer_used s)) b else [])"

definition copying_adaptor_rank :: "('c \<Rightarrow> bytes) \<Rightarrow> 'c copying_adaptor \<Rightarrow> nat" where
  "copying_adaptor_rank cavail s = length (copying_adaptor_avail cavail s)"

lemmas copying_adaptor_defs = copying_adaptor_ok_def copying_adaptor_pending_def
  copying_adaptor_avail_def copying_adaptor_last_def copying_adaptor_rank_def
  CopyingInputAdaptor_vt_def CopyingInputStreamAdaptor_Next_def CopyingInputStreamAdaptor_BackUp_def
  CopyingInputStreamAdaptor_ByteCount_def CopyingInputStreamAdaptor_FreeBuffer_def
  CopyingInputStreamAdaptor_AllocateBufferIfNeeded_def

lemma copying_adaptor_init:
  "cok c \<Longrightarrow> is_int32 bs \<Longrightarrow>
    copying_adaptor_ok cok cavail (CopyingInputStreamAdaptor c bs) \<and>
    copying_adaptor_avail cavail (CopyingInputStreamAdaptor c bs) = cavail c"
  by (auto simp: copying_adaptor_defs CopyingInputStreamAdaptor_def kDefaultBlockSize_def int_bounds)

lemma mem_slice_end_suffix:
  "0 \<le> n \<Longrightarrow> n \<le> u \<Longrightarrow> mem_slice b (u - n) n = drop (nat (u - n)) (take (nat u) b)"
  by (simp add: mem_slice_def drop_take nat_diff_distrib)

lemma mem_slice_shrink:
  assumes "0 \<le> n" "n \<le> k" "k \<le> u"
  shows "mem_slice b (u - (k - n)) (k - n) = drop (nat n) (mem_slice b (u - k) k)"
proof -
  from assms have "nat (u - (k - n)) = nat n + nat (u - k)" by linarith
  with assms show ?thesis by (simp add: mem_slice_end_suffix)
qed

context copying_input
begin

lemma adaptor_next_returns:
  assumes "copying_adaptor_ok cok cavail s"
  shows "\<exists>r s'. CopyingInputStreamAdaptor_Next cvt s = Some (r, s')"
proof -
  from assms have "cok (ca_stream s)" "0 < ca_buffer_size s" by (auto simp: copying_adaptor_ok_def)
  then obtain r c' where "cp_read cvt (ca_buffer_size s) (ca_stream s) = Some (r, c')"
    using read by blast
  then show ?thesis using assms
    by (cases r) (auto simp: copying_adaptor_defs Let_def)
qed

lemma adaptor_next_block:
  assumes ok: "copying_adaptor_ok cok cavail s"
    and next_: "CopyingInputStreamAdaptor_Next cvt s = Some (Some b, s')"
  shows "copying_adaptor_ok cok cavail s' \<and> int (length b) \<le> INT_MAX \<and> b \<noteq> [] \<and>
    copying_adaptor_avail cavail s = b @ copying_adaptor_avail cavail s' \<and>
    suffix b (copying_adaptor_last s') \<and>
    CopyingInputStreamAdaptor_ByteCount s' = CopyingInputStreamAdaptor_ByteCount s + int (length b)"
proof (cases "ca_backup_bytes s > 0")
  case True
  then obtain buf where buf: "ca_buffer s = Some buf" using ok
    by (auto simp: copying_adaptor_ok_def split: option.splits)
  with True ok next_ show ?thesis
    by (auto simp: copying_adaptor_defs Let_def length_mem_slice mem_slice_end_suffix suffix_drop
        split: if_splits)
next
  case False
  from ok have c: "cok (ca_stream s)" "0 < ca_buffer_size s" by (auto simp: copying_adaptor_ok_def)
  obtain r c' where r: "cp_read cvt (ca_buffer_size s) (ca_stream s) = Some (r, c')" "cok c'"
    "case r of ReadError \<Rightarrow> cavail (ca_stream s) = [] \<and> cavail c' = []
     | ReadBytes b \<Rightarrow> cavail (ca_stream s) = b @ cavail c' \<and> int (length b) \<le> ca_buffer_size s \<and>
            (b = [] \<longrightarrow> cavail (ca_stream s) = [])"
    using read [OF c] by blast
  with False ok next_ show ?thesis
    by (auto simp: copying_adaptor_defs Let_def take_overwrite_all overwrite_def
        split: if_splits read_result.splits option.splits)
qed

lemma adaptor_next_end:
  assumes ok: "copying_adaptor_ok cok cavail s"
    and next_: "CopyingInputStreamAdaptor_Next cvt s = Some (None, s')"
  shows "copying_adaptor_ok cok cavail s' \<and> copying_adaptor_avail cavail s = [] \<and>
    copying_adaptor_avail cavail s' = [] \<and>
    CopyingInputStreamAdaptor_ByteCount s' = CopyingInputStreamAdaptor_ByteCount s"
proof -
  from ok have c: "cok (ca_stream s)" "0 < ca_buffer_size s" by (auto simp: copying_adaptor_ok_def)
  from read [OF c] ok next_ show ?thesis
    by (auto simp: copying_adaptor_defs Let_def split: if_splits read_result.splits option.splits)
qed

lemma adaptor_backup:
  assumes "copying_adaptor_ok cok cavail s" "copying_adaptor_last s \<noteq> []" "0 \<le> n"
    "n \<le> int (length (copying_adaptor_last s))"
  shows "\<exists>s'. CopyingInputStreamAdaptor_BackUp n s = Some s' \<and> copying_adaptor_ok cok cavail s' \<and>
    copying_adaptor_avail cavail s' =
      drop (length (copying_adaptor_last s) - nat n) (copying_adaptor_last s) @
      copying_adaptor_avail cavail s \<and>
    CopyingInputStreamAdaptor_ByteCount s' = CopyingInputStreamAdaptor_ByteCount s - n"
proof -
  from assms obtain b where b: "ca_buffer s = Some b" "ca_backup_bytes s = 0"
    by (auto simp: copying_adaptor_last_def split: option.splits if_splits)
  moreover from this assms have "length (take (nat (ca_buffer_used s)) b) = nat (ca_buffer_used s)"
    by (auto simp: copying_adaptor_ok_def)
  ultimately show ?thesis using assms
    by (auto simp: copying_adaptor_defs mem_slice_end_suffix nat_diff_distrib simp del: length_take)
qed

end

sublocale copying_input \<subseteq> adaptor: zero_copy_input "CopyingInputAdaptor_vt cvt"
  "copying_adaptor_ok cok cavail" "copying_adaptor_avail cavail" copying_adaptor_last
  "copying_adaptor_rank cavail"
proof (unfold_locales, goal_cases)
  case (1 s) then show ?case using adaptor_next_returns by (simp add: CopyingInputAdaptor_vt_def)
next
  case (2 s b s') then show ?case using adaptor_next_block [of s b s']
    by (simp add: CopyingInputAdaptor_vt_def copying_adaptor_rank_def)
next
  case (3 s s') then show ?case using adaptor_next_end [of s s']
    by (simp add: CopyingInputAdaptor_vt_def)
next
  case (4 s b s') then show ?case using adaptor_next_block [of s b s']
    by (simp add: CopyingInputAdaptor_vt_def)
next
  case (5 s n) then show ?case using adaptor_backup [of s n]
    by (simp add: CopyingInputAdaptor_vt_def)
qed

text \<open>
  The adaptor's \<open>Skip\<close> is exact over a copying stream whose \<open>Skip\<close> does what the header
  promises: exactly \<open>count\<close> bytes unless the end is reached. The default one does not.
\<close>

context copying_input
begin

lemma adaptor_skip:
  assumes "copying_adaptor_ok cok cavail s" "0 \<le> n"
    and cskip: "\<And>c n. cok c \<Longrightarrow> 0 \<le> n \<Longrightarrow>
      \<exists>c'. cp_skip cvt n c = Some (min n (int (length (cavail c))), c') \<and> cok c' \<and>
        cavail c' = drop (nat n) (cavail c)"
  shows "\<exists>r s'. CopyingInputStreamAdaptor_Skip cvt n s = Some (r, s') \<and>
    copying_adaptor_ok cok cavail s' \<and>
    (0 < n \<longrightarrow> r = (n \<le> int (length (copying_adaptor_avail cavail s)))) \<and>
    copying_adaptor_avail cavail s' = drop (nat n) (copying_adaptor_avail cavail s) \<and>
    CopyingInputStreamAdaptor_ByteCount s' =
      CopyingInputStreamAdaptor_ByteCount s + min n (int (length (copying_adaptor_avail cavail s)))"
proof -
  have len: "int (length (copying_adaptor_pending s)) = ca_backup_bytes s"
    using assms by (auto simp: copying_adaptor_defs length_mem_slice split: option.splits)
  consider "ca_failed s" | "\<not> ca_failed s" "n \<le> ca_backup_bytes s"
    | "\<not> ca_failed s" "ca_backup_bytes s < n" by linarith
  then show ?thesis
  proof cases
    case 1
    with assms have "copying_adaptor_avail cavail s = []"
      by (simp add: copying_adaptor_ok_def copying_adaptor_avail_def copying_adaptor_pending_def)
    with 1 assms show ?thesis by (auto simp: CopyingInputStreamAdaptor_Skip_def)
  next
    case 2
    then have "copying_adaptor_pending (s\<lparr>ca_backup_bytes := ca_backup_bytes s - n\<rparr>) =
        drop (nat n) (copying_adaptor_pending s)"
      using assms by (auto simp: copying_adaptor_pending_def copying_adaptor_ok_def
          mem_slice_shrink split: option.splits)
    with 2 assms len show ?thesis
      by (auto simp: copying_adaptor_ok_def copying_adaptor_avail_def min_def
          CopyingInputStreamAdaptor_ByteCount_def CopyingInputStreamAdaptor_Skip_def split: option.splits)
  next
    case 3
    from assms have c: "cok (ca_stream s)" and b: "0 \<le> ca_backup_bytes s"
      by (auto simp: copying_adaptor_ok_def)
    obtain c' where c': "cp_skip cvt (n - ca_backup_bytes s) (ca_stream s) =
        Some (min (n - ca_backup_bytes s) (int (length (cavail (ca_stream s)))), c')" "cok c'"
        "cavail c' = drop (nat (n - ca_backup_bytes s)) (cavail (ca_stream s))"
      using cskip [OF c, of "n - ca_backup_bytes s"] 3 by auto
    define s' where "s' = s\<lparr>ca_backup_bytes := 0, ca_stream := c', ca_position := ca_position s +
      min (n - ca_backup_bytes s) (int (length (cavail (ca_stream s))))\<rparr>"
    let ?r = "min (n - ca_backup_bytes s) (int (length (cavail (ca_stream s)))) = n - ca_backup_bytes s"
    have "CopyingInputStreamAdaptor_Skip cvt n s = Some (?r, s')"
      using 3 b c' by (simp add: CopyingInputStreamAdaptor_Skip_def s'_def Let_def)
    moreover have "copying_adaptor_ok cok cavail s'"
      using assms 3 b c' by (auto simp: copying_adaptor_ok_def s'_def split: option.splits)
    moreover have n: "nat (n - ca_backup_bytes s) = nat n - length (copying_adaptor_pending s)"
        "length (copying_adaptor_pending s) \<le> nat n"
      using len 3 b by linarith+
    have "copying_adaptor_pending s' = []" "cavail (ca_stream s') = cavail c'"
      by (auto simp: copying_adaptor_pending_def s'_def split: option.splits)
    then have "copying_adaptor_avail cavail s' = drop (nat n) (copying_adaptor_avail cavail s)"
      using c' n by (simp add: copying_adaptor_avail_def)
    moreover have "?r = (n \<le> int (length (copying_adaptor_avail cavail s)))"
      using len by (auto simp: copying_adaptor_avail_def min_def)
    moreover have "CopyingInputStreamAdaptor_ByteCount s' = CopyingInputStreamAdaptor_ByteCount s +
        min n (int (length (copying_adaptor_avail cavail s)))"
      using len by (auto simp: CopyingInputStreamAdaptor_ByteCount_def copying_adaptor_avail_def
          s'_def min_def)
    ultimately show ?thesis by blast
  qed
qed

end

end
