(* ===== verification/FileStreams.thy ===== *)
theory FileStreams
  imports CopyingStreams
begin

text \<open>
  The copying streams of \<open>io/zero_copy_stream_impl.cc\<close> over a \<open>std::istream\<close>, a
  \<open>std::ostream\<close> and a POSIX file descriptor, and the output adaptor
  \<open>CopyingOutputStreamAdaptor\<close>. The operating system is a parameter (a record of the system
  calls the code makes); a \<open>std::istream\<close> is modelled as the C++ standard defines
  \<open>read\<close>, \<open>gcount\<close>, \<open>fail\<close> and \<open>eof\<close>, over a finite sequence of bytes.
\<close>

section \<open>Reading a std::istream\<close>

record istream =
  is_rest :: bytes
  is_eofbit :: bool
  is_failbit :: bool
  is_badbit :: bool
  is_gcount :: int

definition istream_good :: "istream \<Rightarrow> bool" where
  "istream_good s \<longleftrightarrow> \<not> is_eofbit s \<and> \<not> is_failbit s \<and> \<not> is_badbit s"

definition istream_read :: "int \<Rightarrow> istream \<Rightarrow> bytes \<times> istream" where
  "istream_read n s =
     (if \<not> istream_good s then ([], s\<lparr>is_failbit := True, is_gcount := 0\<rparr>)
      else
        let b = take (nat n) (is_rest s);
            short = int (length b) < n in
        (b, s\<lparr>is_rest := drop (nat n) (is_rest s), is_gcount := int (length b),
              is_eofbit := short, is_failbit := short\<rparr>))"

definition CopyingIstreamInputStream_Read ::
  "int \<Rightarrow> istream \<Rightarrow> (read_result \<times> istream) option" where
  "CopyingIstreamInputStream_Read n s =
     (let (b, s') = istream_read n s; result = is_gcount s' in
      if result = 0 \<and> (is_failbit s' \<or> is_badbit s') \<and> \<not> is_eofbit s'
      then Some (ReadError, s')
      else Some (ReadBytes b, s'))"

text \<open>The class inherits the default \<open>Skip\<close>.\<close>

definition Istream_vt :: "istream copying_vt" where
  "Istream_vt = \<lparr>cp_read = CopyingIstreamInputStream_Read,
                 cp_skip = CopyingInputStream_Skip CopyingIstreamInputStream_Read\<rparr>"

definition istream_avail :: "istream \<Rightarrow> bytes" where
  "istream_avail s = (if istream_good s then is_rest s else [])"

lemma istream_Read_good:
  "istream_good s \<Longrightarrow> 0 < n \<Longrightarrow> n \<le> int (length (is_rest s)) \<Longrightarrow>
    \<exists>s'. CopyingIstreamInputStream_Read n s = Some (ReadBytes (take (nat n) (is_rest s)), s') \<and>
      istream_good s' \<and> is_rest s' = drop (nat n) (is_rest s)"
  by (auto simp: CopyingIstreamInputStream_Read_def istream_read_def istream_good_def Let_def)

interpretation istr: copying_input Istream_vt "\<lambda>_. True" istream_avail
  by unfold_locales
     (auto simp: Istream_vt_def CopyingIstreamInputStream_Read_def istream_read_def istream_avail_def
        istream_good_def Let_def)

text \<open>
  \<open>IstreamInputStream\<close> is the adaptor over the istream: its virtual functions are those of
  \<open>impl_\<close>, a \<open>CopyingInputStreamAdaptor\<close>.
\<close>

definition IstreamInputStream :: "istream \<Rightarrow> int \<Rightarrow> istream copying_adaptor" where
  "IstreamInputStream input block_size = CopyingInputStreamAdaptor input block_size"

definition IstreamInputStream_Next ::
  "istream copying_adaptor \<Rightarrow> (bytes option \<times> istream copying_adaptor) option" where
  "IstreamInputStream_Next s = CopyingInputStreamAdaptor_Next Istream_vt s"

definition IstreamInputStream_BackUp ::
  "int \<Rightarrow> istream copying_adaptor \<Rightarrow> istream copying_adaptor option" where
  "IstreamInputStream_BackUp count s = CopyingInputStreamAdaptor_BackUp count s"

definition IstreamInputStream_Skip ::
  "int \<Rightarrow> istream copying_adaptor \<Rightarrow> (bool \<times> istream copying_adaptor) option" where
  "IstreamInputStream_Skip count s = CopyingInputStreamAdaptor_Skip Istream_vt count s"

definition IstreamInputStream_ByteCount :: "istream copying_adaptor \<Rightarrow> int" where
  "IstreamInputStream_ByteCount s = CopyingInputStreamAdaptor_ByteCount s"

definition IstreamInput_vt :: "istream copying_adaptor input_vt" where
  "IstreamInput_vt =
     \<lparr>in_next = IstreamInputStream_Next, in_backup = IstreamInputStream_BackUp,
      in_skip = IstreamInputStream_Skip, in_byte_count = IstreamInputStream_ByteCount\<rparr>"

lemma IstreamInput_vt_eq: "IstreamInput_vt = CopyingInputAdaptor_vt Istream_vt"
  by (simp add: IstreamInput_vt_def CopyingInputAdaptor_vt_def fun_eq_iff IstreamInputStream_Next_def
      IstreamInputStream_BackUp_def IstreamInputStream_Skip_def IstreamInputStream_ByteCount_def)

abbreviation istream_input_ok :: "istream copying_adaptor \<Rightarrow> bool" where
  "istream_input_ok \<equiv> copying_adaptor_ok (\<lambda>_. True) istream_avail"

abbreviation istream_input_avail :: "istream copying_adaptor \<Rightarrow> bytes" where
  "istream_input_avail \<equiv> copying_adaptor_avail istream_avail"

interpretation isin: zero_copy_input IstreamInput_vt istream_input_ok istream_input_avail
    copying_adaptor_last "copying_adaptor_rank istream_avail"
  unfolding IstreamInput_vt_eq by (rule istr.adaptor.zero_copy_input_axioms)

text \<open>
  Two full reads of the default \<open>Skip\<close>: between 4096 and 8192 bytes asked for, 8192 consumed.
\<close>

lemma istream_skip_two_reads:
  assumes "istream_good s" "4096 < count" "count < 8192" "8192 \<le> length (is_rest s)"
  shows "\<exists>s'. cp_skip Istream_vt count s = Some (8192, s') \<and>
    istream_good s' \<and> is_rest s' = drop 8192 (is_rest s)"
proof -
  have four: "min count 4096 = 4096" using assms by simp
  obtain s1 where s1: "CopyingIstreamInputStream_Read 4096 s = Some (ReadBytes (take 4096 (is_rest s)), s1)"
      "istream_good s1" "is_rest s1 = drop 4096 (is_rest s)"
    using istream_Read_good [of s 4096] assms by auto
  obtain s2 where s2: "CopyingIstreamInputStream_Read 4096 s1 = Some (ReadBytes (take 4096 (is_rest s1)), s2)"
      "istream_good s2" "is_rest s2 = drop 4096 (is_rest s1)"
    using istream_Read_good [of s1 4096] assms s1 by auto
  have ne: "take 4096 (is_rest s) \<noteq> []" "take 4096 (is_rest s1) \<noteq> []"
    using assms s1(3) by (auto simp: take_eq_Nil)
  have len: "length (take 4096 (is_rest s)) = 4096" "length (take 4096 (is_rest s1)) = 4096"
    using assms s1(3) by auto
  have "CopyingInputStream_Skip_loop CopyingIstreamInputStream_Read count 8192 s2 = Some (8192, s2)"
    using assms by (subst CopyingInputStream_Skip_loop.simps) simp
  then have "CopyingInputStream_Skip_loop CopyingIstreamInputStream_Read count 4096 s1 = Some (8192, s2)"
    using assms s2 ne len four by (subst CopyingInputStream_Skip_loop.simps) simp
  then have "CopyingInputStream_Skip_loop CopyingIstreamInputStream_Read count 0 s = Some (8192, s2)"
    using assms s1 ne len four by (subst CopyingInputStream_Skip_loop.simps) simp
  then show ?thesis using s1 s2
    by (auto simp: Istream_vt_def CopyingInputStream_Skip_def)
qed


section \<open>CopyingOutputStreamAdaptor\<close>

record 'c copying_out_vt =
  cw_write :: "bytes \<Rightarrow> 'c \<Rightarrow> (bool \<times> 'c) option"

text \<open>\<open>sink c\<close> are the bytes the copying stream has accepted.\<close>

locale copying_output =
  fixes wvt :: "'c copying_out_vt"
    and wok :: "'c \<Rightarrow> bool"
    and sink :: "'c \<Rightarrow> bytes"
  assumes cwrite: "wok c \<Longrightarrow> \<exists>r c'. cw_write wvt d c = Some (r, c') \<and> wok c' \<and>
      (r \<longrightarrow> sink c' = sink c @ d)"

text \<open>\<open>cd_last_data\<close> is where the \<open>*data\<close> of the last \<open>Next\<close> points into the buffer.\<close>

record 'c copying_out_adaptor =
  cd_stream :: 'c
  cd_failed :: bool
  cd_position :: int
  cd_buffer :: "bytes option"
  cd_buffer_size :: int
  cd_buffer_used :: int
  cd_last_data :: int

definition CopyingOutputStreamAdaptor :: "'c \<Rightarrow> int \<Rightarrow> 'c copying_out_adaptor" where
  "CopyingOutputStreamAdaptor copying_stream block_size =
     \<lparr>cd_stream = copying_stream, cd_failed = False, cd_position = 0, cd_buffer = None,
      cd_buffer_size = (if block_size > 0 then block_size else kDefaultBlockSize),
      cd_buffer_used = 0, cd_last_data = 0\<rparr>"

definition CopyingOutputStreamAdaptor_AllocateBufferIfNeeded ::
  "'c copying_out_adaptor \<Rightarrow> 'c copying_out_adaptor" where
  "CopyingOutputStreamAdaptor_AllocateBufferIfNeeded s =
     (if cd_buffer s = None then s\<lparr>cd_buffer := Some (replicate (nat (cd_buffer_size s)) 0)\<rparr> else s)"

definition CopyingOutputStreamAdaptor_FreeBuffer ::
  "'c copying_out_adaptor \<Rightarrow> 'c copying_out_adaptor" where
  "CopyingOutputStreamAdaptor_FreeBuffer s = s\<lparr>cd_buffer_used := 0, cd_buffer := None\<rparr>"

definition CopyingOutputStreamAdaptor_WriteBuffer ::
  "'c copying_out_vt \<Rightarrow> 'c copying_out_adaptor \<Rightarrow> (bool \<times> 'c copying_out_adaptor) option" where
  "CopyingOutputStreamAdaptor_WriteBuffer wvt s =
     (if cd_failed s then Some (False, s)
      else if cd_buffer_used s = 0 then Some (True, s)
      else do {
        buffer \<leftarrow> cd_buffer s;
        (r, c) \<leftarrow> cw_write wvt (take (nat (cd_buffer_used s)) buffer) (cd_stream s);
        (if r then
           Some (True, s\<lparr>cd_stream := c, cd_position := cd_position s + cd_buffer_used s,
                         cd_buffer_used := 0\<rparr>)
         else
           Some (False, CopyingOutputStreamAdaptor_FreeBuffer (s\<lparr>cd_stream := c, cd_failed := True\<rparr>)))
      })"

definition CopyingOutputStreamAdaptor_Flush ::
  "'c copying_out_vt \<Rightarrow> 'c copying_out_adaptor \<Rightarrow> (bool \<times> 'c copying_out_adaptor) option" where
  "CopyingOutputStreamAdaptor_Flush wvt s = CopyingOutputStreamAdaptor_WriteBuffer wvt s"

definition CopyingOutputStreamAdaptor_Next ::
  "'c copying_out_vt \<Rightarrow> 'c copying_out_adaptor \<Rightarrow> (int option \<times> 'c copying_out_adaptor) option" where
  "CopyingOutputStreamAdaptor_Next wvt s0 = do {
     (go, s1) \<leftarrow> (if cd_buffer_used s0 = cd_buffer_size s0
                   then CopyingOutputStreamAdaptor_WriteBuffer wvt s0 else Some (True, s0));
     (if \<not> go then Some (None, s1)
      else
        let s = CopyingOutputStreamAdaptor_AllocateBufferIfNeeded s1 in
        Some (Some (cd_buffer_size s - cd_buffer_used s),
              s\<lparr>cd_last_data := cd_buffer_used s, cd_buffer_used := cd_buffer_size s\<rparr>))
   }"

definition CopyingOutputStreamAdaptor_BackUp ::
  "int \<Rightarrow> 'c copying_out_adaptor \<Rightarrow> 'c copying_out_adaptor option" where
  "CopyingOutputStreamAdaptor_BackUp count s =
     (if \<not> count \<ge> 0 then None
      else if cd_buffer_used s \<noteq> cd_buffer_size s then None
      else if \<not> count \<le> cd_buffer_used s then None
      else Some (s\<lparr>cd_buffer_used := cd_buffer_used s - count\<rparr>))"

definition CopyingOutputStreamAdaptor_ByteCount :: "'c copying_out_adaptor \<Rightarrow> int" where
  "CopyingOutputStreamAdaptor_ByteCount s = cd_position s + cd_buffer_used s"

definition CopyingOutputStreamAdaptor_store ::
  "int \<Rightarrow> bytes \<Rightarrow> 'c copying_out_adaptor \<Rightarrow> 'c copying_out_adaptor" where
  "CopyingOutputStreamAdaptor_store off d s =
     s\<lparr>cd_buffer := map_option (\<lambda>b. overwrite b (cd_last_data s + off) d) (cd_buffer s)\<rparr>"

definition CopyingOutputAdaptor_vt :: "'c copying_out_vt \<Rightarrow> 'c copying_out_adaptor output_vt" where
  "CopyingOutputAdaptor_vt wvt =
     \<lparr>out_next = CopyingOutputStreamAdaptor_Next wvt, out_backup = CopyingOutputStreamAdaptor_BackUp,
      out_byte_count = CopyingOutputStreamAdaptor_ByteCount,
      out_store = CopyingOutputStreamAdaptor_store\<rparr>"

definition copying_out_ok :: "('c \<Rightarrow> bool) \<Rightarrow> 'c copying_out_adaptor \<Rightarrow> bool" where
  "copying_out_ok wok s \<longleftrightarrow>
     wok (cd_stream s) \<and> 0 < cd_buffer_size s \<and> cd_buffer_size s \<le> INT_MAX \<and>
     0 \<le> cd_buffer_used s \<and>
     (case cd_buffer s of
        None \<Rightarrow> cd_buffer_used s = 0
      | Some b \<Rightarrow> int (length b) = cd_buffer_size s \<and> cd_buffer_used s \<le> cd_buffer_size s) \<and>
     0 \<le> cd_last_data s \<and> cd_last_data s \<le> cd_buffer_size s"

definition copying_out_written :: "('c \<Rightarrow> bytes) \<Rightarrow> 'c copying_out_adaptor \<Rightarrow> bytes" where
  "copying_out_written sink s =
     sink (cd_stream s) @
     (case cd_buffer s of None \<Rightarrow> [] | Some b \<Rightarrow> take (nat (cd_buffer_used s)) b)"

definition copying_out_lent :: "'c copying_out_adaptor \<Rightarrow> int" where
  "copying_out_lent s =
     (if cd_buffer_used s = cd_buffer_size s then cd_buffer_size s - cd_last_data s else 0)"

definition copying_out_rank :: "'c copying_out_adaptor \<Rightarrow> nat" where
  "copying_out_rank s = 0"

lemmas copying_out_defs = copying_out_ok_def copying_out_written_def copying_out_lent_def
  copying_out_rank_def CopyingOutputAdaptor_vt_def CopyingOutputStreamAdaptor_Next_def
  CopyingOutputStreamAdaptor_BackUp_def CopyingOutputStreamAdaptor_ByteCount_def
  CopyingOutputStreamAdaptor_store_def CopyingOutputStreamAdaptor_FreeBuffer_def
  CopyingOutputStreamAdaptor_AllocateBufferIfNeeded_def

lemma copying_out_init:
  "wok c \<Longrightarrow> is_int32 bs \<Longrightarrow>
    copying_out_ok wok (CopyingOutputStreamAdaptor c bs) \<and>
    copying_out_written sink (CopyingOutputStreamAdaptor c bs) = sink c"
  by (auto simp: copying_out_ok_def copying_out_written_def CopyingOutputStreamAdaptor_def
      kDefaultBlockSize_def int_bounds)

lemma allocate_out_fields [simp]:
  "cd_buffer_size (CopyingOutputStreamAdaptor_AllocateBufferIfNeeded s) = cd_buffer_size s"
  "cd_buffer_used (CopyingOutputStreamAdaptor_AllocateBufferIfNeeded s) = cd_buffer_used s"
  by (simp_all add: CopyingOutputStreamAdaptor_AllocateBufferIfNeeded_def)

context copying_output
begin

text \<open>\<open>WriteBuffer\<close>: on success everything written is in the sink and the buffer is empty.\<close>

lemma write_buffer:
  assumes "copying_out_ok wok s"
  shows "\<exists>r s'. CopyingOutputStreamAdaptor_WriteBuffer wvt s = Some (r, s') \<and> copying_out_ok wok s' \<and>
    cd_buffer_size s' = cd_buffer_size s \<and>
    (r \<longrightarrow> copying_out_written sink s' = copying_out_written sink s \<and> cd_buffer_used s' = 0 \<and>
       cd_failed s' = cd_failed s \<and> sink (cd_stream s') = copying_out_written sink s \<and>
       CopyingOutputStreamAdaptor_ByteCount s' = CopyingOutputStreamAdaptor_ByteCount s)"
proof (cases "cd_failed s \<or> cd_buffer_used s = 0")
  case True
  with assms show ?thesis
    by (auto simp: CopyingOutputStreamAdaptor_WriteBuffer_def copying_out_written_def split: option.splits)
next
  case False
  with assms obtain b where b: "cd_buffer s = Some b" and w: "wok (cd_stream s)"
    by (auto simp: copying_out_ok_def split: option.splits)
  obtain r c' where r: "cw_write wvt (take (nat (cd_buffer_used s)) b) (cd_stream s) = Some (r, c')"
    "wok c'" "r \<longrightarrow> sink c' = sink (cd_stream s) @ take (nat (cd_buffer_used s)) b"
    using cwrite [OF w] by blast
  with False b assms show ?thesis
    by (cases r) (auto simp: CopyingOutputStreamAdaptor_WriteBuffer_def copying_out_defs)
qed

lemma out_next_returns:
  assumes "copying_out_ok wok s"
  shows "\<exists>r s'. CopyingOutputStreamAdaptor_Next wvt s = Some (r, s')"
proof -
  obtain r s' where "CopyingOutputStreamAdaptor_WriteBuffer wvt s = Some (r, s')"
    using write_buffer [OF assms] by blast
  then show ?thesis by (cases r) (auto simp: CopyingOutputStreamAdaptor_Next_def Let_def)
qed

lemma out_next_buffer:
  assumes ok: "copying_out_ok wok s"
    and next_: "CopyingOutputStreamAdaptor_Next wvt s = Some (Some n, s')"
  shows "copying_out_ok wok s' \<and> 0 < n \<and> n \<le> INT_MAX \<and> copying_out_lent s' = n \<and>
    (\<exists>junk. length junk = nat n \<and> copying_out_written sink s' = copying_out_written sink s @ junk) \<and>
    CopyingOutputStreamAdaptor_ByteCount s' = CopyingOutputStreamAdaptor_ByteCount s + n"
proof -
  obtain s1 where s1: "copying_out_ok wok s1" "cd_buffer_used s1 < cd_buffer_size s1"
    "copying_out_written sink s1 = copying_out_written sink s"
    "CopyingOutputStreamAdaptor_ByteCount s1 = CopyingOutputStreamAdaptor_ByteCount s"
    and n: "n = cd_buffer_size s1 - cd_buffer_used s1"
    and s': "s' = (CopyingOutputStreamAdaptor_AllocateBufferIfNeeded s1)
      \<lparr>cd_last_data := cd_buffer_used s1, cd_buffer_used := cd_buffer_size s1\<rparr>"
  proof (cases "cd_buffer_used s = cd_buffer_size s")
    case True
    obtain r s1 where w: "CopyingOutputStreamAdaptor_WriteBuffer wvt s = Some (r, s1)"
      "copying_out_ok wok s1" "cd_buffer_size s1 = cd_buffer_size s"
      "r \<longrightarrow> copying_out_written sink s1 = copying_out_written sink s \<and> cd_buffer_used s1 = 0 \<and>
       CopyingOutputStreamAdaptor_ByteCount s1 = CopyingOutputStreamAdaptor_ByteCount s"
      using write_buffer [OF ok] by blast
    with True next_ have r by (cases r) (auto simp: CopyingOutputStreamAdaptor_Next_def)
    moreover have "0 < cd_buffer_size s" using ok by (simp add: copying_out_ok_def)
    moreover from w True next_ \<open>r\<close>
    have "n = cd_buffer_size s1 - cd_buffer_used s1 \<and>
      s' = (CopyingOutputStreamAdaptor_AllocateBufferIfNeeded s1)
        \<lparr>cd_last_data := cd_buffer_used s1, cd_buffer_used := cd_buffer_size s1\<rparr>"
      by (auto simp: CopyingOutputStreamAdaptor_Next_def Let_def)
    ultimately show ?thesis using w by (intro that [of s1]) simp_all
  next
    case False
    with ok have "cd_buffer_used s < cd_buffer_size s"
      by (auto simp: copying_out_ok_def split: option.splits)
    moreover from False next_ have "n = cd_buffer_size s - cd_buffer_used s \<and>
      s' = (CopyingOutputStreamAdaptor_AllocateBufferIfNeeded s)
        \<lparr>cd_last_data := cd_buffer_used s, cd_buffer_used := cd_buffer_size s\<rparr>"
      by (auto simp: CopyingOutputStreamAdaptor_Next_def Let_def)
    ultimately show ?thesis using ok by (intro that [of s]) simp_all
  qed
  have "\<exists>junk. length junk = nat n \<and> copying_out_written sink s' = copying_out_written sink s1 @ junk"
  proof (cases "cd_buffer s1")
    case None
    then show ?thesis using s1(1,2) unfolding n s' by (auto simp: copying_out_defs)
  next
    case (Some a)
    then show ?thesis using s1(1,2) take_grow_all [of "cd_buffer_used s1" a] unfolding n s'
      by (auto simp: copying_out_defs)
  qed
  with s1 n s' show ?thesis by (auto simp: copying_out_defs split: option.splits)
qed

lemma out_next_fail:
  assumes ok: "copying_out_ok wok s"
    and next_: "CopyingOutputStreamAdaptor_Next wvt s = Some (None, s')"
  shows "copying_out_ok wok s'"
  using write_buffer [OF ok] next_
  by (auto simp: CopyingOutputStreamAdaptor_Next_def Let_def split: if_splits)

end


sublocale copying_output \<subseteq> oadaptor: zero_copy_output "CopyingOutputAdaptor_vt wvt"
  "copying_out_ok wok" "copying_out_written sink" copying_out_lent copying_out_rank INT_MAX
proof (unfold_locales, goal_cases)
  case (1 s) then show ?case using out_next_returns by (simp add: CopyingOutputAdaptor_vt_def)
next
  case (2 s n s') then show ?case using out_next_buffer [of s n s']
    by (simp add: CopyingOutputAdaptor_vt_def)
next
  case (3 s s') then show ?case using out_next_buffer [of s 0 s']
    by (simp add: CopyingOutputAdaptor_vt_def)
next
  case (4 s s') then show ?case using out_next_fail [of s s']
    by (simp add: CopyingOutputAdaptor_vt_def)
next
  case (5 s) then show ?case by (auto simp: copying_out_defs split: option.splits)
next
  case (6 s off d)
  show ?case
  proof (cases "cd_buffer s")
    case None
    with 6 have "d = []" by (intro store_nothing [of off]) (auto simp: copying_out_defs)
    with None 6 show ?thesis by (auto simp: copying_out_defs)
  next
    case (Some b)
    show ?thesis
    proof (cases "cd_buffer_used s = cd_buffer_size s")
      case True
      with 6 Some have "nat (cd_last_data s + off) + length d \<le> length b"
        unfolding copying_out_ok_def copying_out_lent_def by auto
      moreover have "nat (int (length (sink (cd_stream s))) + (cd_last_data s + off)) =
          length (sink (cd_stream s)) + nat (cd_last_data s + off)"
        using 6 by (auto simp: copying_out_ok_def)
      ultimately show ?thesis using 6 Some True
        by (auto simp: copying_out_defs overwrite_def algebra_simps)
    next
      case False
      with 6 have "d = []" by (intro store_nothing [of off]) (auto simp: copying_out_lent_def)
      with Some 6 show ?thesis by (auto simp: copying_out_defs)
    qed
  qed
next
  case (7 s n)
  then obtain b where b: "cd_buffer s = Some b" "cd_buffer_used s = cd_buffer_size s"
    and len: "int (length b) = cd_buffer_size s"
    by (auto simp: copying_out_defs split: option.splits if_splits)
  from len have l: "length b = nat (cd_buffer_size s)" by simp
  define s' where "s' = s\<lparr>cd_buffer_used := cd_buffer_used s - n\<rparr>"
  have n: "n \<le> cd_buffer_size s" using 7 by (auto simp: copying_out_defs b)
  then have "CopyingOutputStreamAdaptor_BackUp n s = Some s'"
    using 7 b by (simp add: CopyingOutputStreamAdaptor_BackUp_def s'_def)
  moreover have "copying_out_ok wok s'"
    using 7 n b by (auto simp: copying_out_ok_def s'_def)
  moreover have "copying_out_written sink s' =
      take (length (copying_out_written sink s) - nat n) (copying_out_written sink s)"
    using 7 n b l by (simp add: copying_out_written_def s'_def nat_diff_distrib)
  ultimately show ?case
    by (auto simp: CopyingOutputAdaptor_vt_def CopyingOutputStreamAdaptor_ByteCount_def s'_def)
qed


section \<open>Writing a std::ostream\<close>

text \<open>The stream buffer of the ostream accepts \<open>ot_room\<close> more bytes, then fails.\<close>

record ostream =
  ot_sink :: bytes
  ot_room :: nat
  ot_good :: bool

definition ostream_write :: "bytes \<Rightarrow> ostream \<Rightarrow> ostream" where
  "ostream_write d s =
     (if \<not> ot_good s then s
      else s\<lparr>ot_sink := ot_sink s @ take (ot_room s) d, ot_room := ot_room s - length d,
             ot_good := length d \<le> ot_room s\<rparr>)"

definition CopyingOstreamOutputStream_Write :: "bytes \<Rightarrow> ostream \<Rightarrow> (bool \<times> ostream) option" where
  "CopyingOstreamOutputStream_Write d s = (let s' = ostream_write d s in Some (ot_good s', s'))"

definition Ostream_vt :: "ostream copying_out_vt" where
  "Ostream_vt = \<lparr>cw_write = CopyingOstreamOutputStream_Write\<rparr>"

interpretation ostr: copying_output Ostream_vt "\<lambda>_. True" ot_sink
  by unfold_locales
     (auto simp: Ostream_vt_def CopyingOstreamOutputStream_Write_def ostream_write_def Let_def)

definition OstreamOutputStream_Next ::
  "ostream copying_out_adaptor \<Rightarrow> (int option \<times> ostream copying_out_adaptor) option" where
  "OstreamOutputStream_Next s = CopyingOutputStreamAdaptor_Next Ostream_vt s"

definition OstreamOutputStream_BackUp ::
  "int \<Rightarrow> ostream copying_out_adaptor \<Rightarrow> ostream copying_out_adaptor option" where
  "OstreamOutputStream_BackUp count s = CopyingOutputStreamAdaptor_BackUp count s"

definition OstreamOutputStream_ByteCount :: "ostream copying_out_adaptor \<Rightarrow> int" where
  "OstreamOutputStream_ByteCount s = CopyingOutputStreamAdaptor_ByteCount s"

definition OstreamOutputStream_destroy ::
  "ostream copying_out_adaptor \<Rightarrow> ostream copying_out_adaptor option" where
  "OstreamOutputStream_destroy s =
     map_option snd (CopyingOutputStreamAdaptor_Flush Ostream_vt s)"

definition OstreamOutput_vt :: "ostream copying_out_adaptor output_vt" where
  "OstreamOutput_vt =
     \<lparr>out_next = OstreamOutputStream_Next, out_backup = OstreamOutputStream_BackUp,
      out_byte_count = OstreamOutputStream_ByteCount,
      out_store = CopyingOutputStreamAdaptor_store\<rparr>"

lemma OstreamOutput_vt_eq: "OstreamOutput_vt = CopyingOutputAdaptor_vt Ostream_vt"
  by (simp add: OstreamOutput_vt_def CopyingOutputAdaptor_vt_def fun_eq_iff
      OstreamOutputStream_Next_def OstreamOutputStream_BackUp_def OstreamOutputStream_ByteCount_def)

abbreviation ostream_output_ok :: "ostream copying_out_adaptor \<Rightarrow> bool" where
  "ostream_output_ok \<equiv> copying_out_ok (\<lambda>_. True)"

abbreviation ostream_output_written :: "ostream copying_out_adaptor \<Rightarrow> bytes" where
  "ostream_output_written \<equiv> copying_out_written ot_sink"

interpretation osout: zero_copy_output OstreamOutput_vt ostream_output_ok ostream_output_written
    copying_out_lent copying_out_rank INT_MAX
  unfolding OstreamOutput_vt_eq by (rule ostr.oadaptor.zero_copy_output_axioms)

section \<open>Files\<close>

text \<open>
  The operating system: the system calls the code makes on a file descriptor. A call returns its
  result or the \<open>errno\<close> it set (\<open>Inl\<close>).
\<close>

record 'k posix =
  px_read :: "int \<Rightarrow> int \<Rightarrow> 'k \<Rightarrow> (int + bytes) \<times> 'k"
  px_write :: "int \<Rightarrow> bytes \<Rightarrow> 'k \<Rightarrow> (int + int) \<times> 'k"
  px_lseek_cur :: "int \<Rightarrow> int \<Rightarrow> 'k \<Rightarrow> bool \<times> 'k"
  px_close :: "int \<Rightarrow> 'k \<Rightarrow> (int + unit) \<times> 'k"

definition EINTR :: int where
  "EINTR = 4"

partial_function (option) close_no_eintr ::
  "'k posix \<Rightarrow> int \<Rightarrow> 'k \<Rightarrow> ((int + unit) \<times> 'k) option" where
  "close_no_eintr px fd k =
     (case px_close px fd k of
        (Inl e, k') \<Rightarrow> if e = EINTR then close_no_eintr px fd k' else Some (Inl e, k')
      | (Inr u, k') \<Rightarrow> Some (Inr u, k'))"

record 'k copying_file =
  cf_os :: 'k
  cf_file :: int
  cf_is_closed :: bool
  cf_errno :: int
  cf_previous_seek_failed :: bool

definition CopyingFileInputStream :: "int \<Rightarrow> 'k \<Rightarrow> 'k copying_file" where
  "CopyingFileInputStream file_descriptor k =
     \<lparr>cf_os = k, cf_file = file_descriptor, cf_is_closed = False, cf_errno = 0,
      cf_previous_seek_failed = False\<rparr>"

definition CopyingFileInputStream_Close ::
  "'k posix \<Rightarrow> 'k copying_file \<Rightarrow> (bool \<times> 'k copying_file) option" where
  "CopyingFileInputStream_Close px s =
     (if cf_is_closed s then None
      else do {
        (r, k) \<leftarrow> close_no_eintr px (cf_file s) (cf_os s);
        (case r of
           Inl e \<Rightarrow> Some (False, s\<lparr>cf_os := k, cf_is_closed := True, cf_errno := e\<rparr>)
         | Inr _ \<Rightarrow> Some (True, s\<lparr>cf_os := k, cf_is_closed := True\<rparr>))
      })"

partial_function (option) read_no_eintr ::
  "'k posix \<Rightarrow> int \<Rightarrow> int \<Rightarrow> 'k \<Rightarrow> ((int + bytes) \<times> 'k) option" where
  "read_no_eintr px fd n k =
     (case px_read px fd n k of
        (Inl e, k') \<Rightarrow> if e = EINTR then read_no_eintr px fd n k' else Some (Inl e, k')
      | (Inr b, k') \<Rightarrow> Some (Inr b, k'))"

definition CopyingFileInputStream_Read ::
  "'k posix \<Rightarrow> int \<Rightarrow> 'k copying_file \<Rightarrow> (read_result \<times> 'k copying_file) option" where
  "CopyingFileInputStream_Read px n s =
     (if cf_is_closed s then None
      else do {
        (r, k) \<leftarrow> read_no_eintr px (cf_file s) n (cf_os s);
        (case r of
           Inl e \<Rightarrow> Some (ReadError, s\<lparr>cf_os := k, cf_errno := e\<rparr>)
         | Inr b \<Rightarrow> Some (ReadBytes b, s\<lparr>cf_os := k\<rparr>))
      })"

definition CopyingFileInputStream_Skip ::
  "'k posix \<Rightarrow> int \<Rightarrow> 'k copying_file \<Rightarrow> (int \<times> 'k copying_file) option" where
  "CopyingFileInputStream_Skip px count s =
     (if cf_is_closed s then None
      else
        let (sought, k) = (if cf_previous_seek_failed s then (False, cf_os s)
                           else px_lseek_cur px (cf_file s) count (cf_os s)) in
        if sought then Some (count, s\<lparr>cf_os := k\<rparr>)
        else CopyingInputStream_Skip (CopyingFileInputStream_Read px) count
               (s\<lparr>cf_os := k, cf_previous_seek_failed := True\<rparr>))"

definition File_vt :: "'k posix \<Rightarrow> 'k copying_file copying_vt" where
  "File_vt px = \<lparr>cp_read = CopyingFileInputStream_Read px, cp_skip = CopyingFileInputStream_Skip px\<rparr>"

partial_function (option) write_no_eintr ::
  "'k posix \<Rightarrow> int \<Rightarrow> bytes \<Rightarrow> 'k \<Rightarrow> ((int + int) \<times> 'k) option" where
  "write_no_eintr px fd d k =
     (case px_write px fd d k of
        (Inl e, k') \<Rightarrow> if e = EINTR then write_no_eintr px fd d k' else Some (Inl e, k')
      | (Inr n, k') \<Rightarrow> Some (Inr n, k'))"

partial_function (option) CopyingFileOutputStream_Write_loop ::
  "'k posix \<Rightarrow> bytes \<Rightarrow> int \<Rightarrow> 'k copying_file \<Rightarrow> (bool \<times> 'k copying_file) option" where
  "CopyingFileOutputStream_Write_loop px buffer total_written s =
     (if total_written < int (length buffer) then do {
        (r, k) \<leftarrow> write_no_eintr px (cf_file s) (drop (nat total_written) buffer) (cf_os s);
        (case r of
           Inl e \<Rightarrow> Some (False, s\<lparr>cf_os := k, cf_errno := e\<rparr>)
         | Inr n \<Rightarrow>
             if n \<le> 0 then Some (False, s\<lparr>cf_os := k\<rparr>)
             else CopyingFileOutputStream_Write_loop px buffer (total_written + n) (s\<lparr>cf_os := k\<rparr>))
      }
      else Some (True, s))"

definition CopyingFileOutputStream_Write ::
  "'k posix \<Rightarrow> bytes \<Rightarrow> 'k copying_file \<Rightarrow> (bool \<times> 'k copying_file) option" where
  "CopyingFileOutputStream_Write px buffer s =
     (if cf_is_closed s then None else CopyingFileOutputStream_Write_loop px buffer 0 s)"

definition FileOut_vt :: "'k posix \<Rightarrow> 'k copying_file copying_out_vt" where
  "FileOut_vt px = \<lparr>cw_write = CopyingFileOutputStream_Write px\<rparr>"

definition CopyingFileOutputStream :: "int \<Rightarrow> 'k \<Rightarrow> 'k copying_file" where
  "CopyingFileOutputStream file_descriptor k =
     \<lparr>cf_os = k, cf_file = file_descriptor, cf_is_closed = False, cf_errno = 0,
      cf_previous_seek_failed = False\<rparr>"

definition CopyingFileOutputStream_Close ::
  "'k posix \<Rightarrow> 'k copying_file \<Rightarrow> (bool \<times> 'k copying_file) option" where
  "CopyingFileOutputStream_Close px s =
     (if cf_is_closed s then None
      else do {
        (r, k) \<leftarrow> close_no_eintr px (cf_file s) (cf_os s);
        (case r of
           Inl e \<Rightarrow> Some (False, s\<lparr>cf_os := k, cf_is_closed := True, cf_errno := e\<rparr>)
         | Inr _ \<Rightarrow> Some (True, s\<lparr>cf_os := k, cf_is_closed := True\<rparr>))
      })"

text \<open>
  \<open>FileInputStream\<close> and \<open>FileOutputStream\<close> are the adaptors over these; closing a file stream
  closes the descriptor, for output after the buffer is flushed.
\<close>

definition FileInputStream :: "int \<Rightarrow> int \<Rightarrow> 'k \<Rightarrow> 'k copying_file copying_adaptor" where
  "FileInputStream file_descriptor block_size k =
     CopyingInputStreamAdaptor (CopyingFileInputStream file_descriptor k) block_size"

definition FileInputStream_Close ::
  "'k posix \<Rightarrow> 'k copying_file copying_adaptor \<Rightarrow> (bool \<times> 'k copying_file copying_adaptor) option" where
  "FileInputStream_Close px s = do {
     (r, c) \<leftarrow> CopyingFileInputStream_Close px (ca_stream s);
     Some (r, s\<lparr>ca_stream := c\<rparr>)
   }"

definition FileInputStream_Next ::
  "'k posix \<Rightarrow> 'k copying_file copying_adaptor \<Rightarrow> (bytes option \<times> 'k copying_file copying_adaptor) option" where
  "FileInputStream_Next px s = CopyingInputStreamAdaptor_Next (File_vt px) s"

definition FileInputStream_BackUp ::
  "int \<Rightarrow> 'k copying_file copying_adaptor \<Rightarrow> 'k copying_file copying_adaptor option" where
  "FileInputStream_BackUp count s = CopyingInputStreamAdaptor_BackUp count s"

definition FileInputStream_Skip ::
  "'k posix \<Rightarrow> int \<Rightarrow> 'k copying_file copying_adaptor \<Rightarrow> (bool \<times> 'k copying_file copying_adaptor) option" where
  "FileInputStream_Skip px count s = CopyingInputStreamAdaptor_Skip (File_vt px) count s"

definition FileInputStream_ByteCount :: "'k copying_file copying_adaptor \<Rightarrow> int" where
  "FileInputStream_ByteCount s = CopyingInputStreamAdaptor_ByteCount s"

definition FileOutputStream :: "int \<Rightarrow> int \<Rightarrow> 'k \<Rightarrow> 'k copying_file copying_out_adaptor" where
  "FileOutputStream file_descriptor block_size k =
     CopyingOutputStreamAdaptor (CopyingFileOutputStream file_descriptor k) block_size"

definition FileOutputStream_Close ::
  "'k posix \<Rightarrow> 'k copying_file copying_out_adaptor \<Rightarrow> (bool \<times> 'k copying_file copying_out_adaptor) option" where
  "FileOutputStream_Close px s = do {
     (flush_succeeded, s1) \<leftarrow> CopyingOutputStreamAdaptor_Flush (FileOut_vt px) s;
     (closed, c) \<leftarrow> CopyingFileOutputStream_Close px (cd_stream s1);
     Some (closed \<and> flush_succeeded, s1\<lparr>cd_stream := c\<rparr>)
   }"

definition FileOutputStream_Next ::
  "'k posix \<Rightarrow> 'k copying_file copying_out_adaptor \<Rightarrow> (int option \<times> 'k copying_file copying_out_adaptor) option" where
  "FileOutputStream_Next px s = CopyingOutputStreamAdaptor_Next (FileOut_vt px) s"

definition FileOutputStream_BackUp ::
  "int \<Rightarrow> 'k copying_file copying_out_adaptor \<Rightarrow> 'k copying_file copying_out_adaptor option" where
  "FileOutputStream_BackUp count s = CopyingOutputStreamAdaptor_BackUp count s"

definition FileOutputStream_ByteCount :: "'k copying_file copying_out_adaptor \<Rightarrow> int" where
  "FileOutputStream_ByteCount s = CopyingOutputStreamAdaptor_ByteCount s"

text \<open>
  What the code relies on: an interrupted call has done nothing and calls are not interrupted for
  ever (\<open>patience\<close> bounds it), a write accepts a prefix of what it is given.
\<close>

definition posix_write_contract ::
  "'k posix \<Rightarrow> (int \<Rightarrow> 'k \<Rightarrow> bytes) \<Rightarrow> ('k \<Rightarrow> nat) \<Rightarrow> bool" where
  "posix_write_contract px file patience \<longleftrightarrow>
     (\<forall>fd d k e k'. px_write px fd d k = (Inl e, k') \<longrightarrow>
        file fd k' = file fd k \<and> (e = EINTR \<longrightarrow> patience k' < patience k)) \<and>
     (\<forall>fd d k n k'. px_write px fd d k = (Inr n, k') \<longrightarrow>
        0 \<le> n \<and> n \<le> int (length d) \<and> file fd k' = file fd k @ take (nat n) d)"

lemma write_no_eintr_returns:
  assumes "posix_write_contract px file patience"
  shows "\<exists>r k'. write_no_eintr px fd d k = Some (r, k') \<and>
    (case r of Inl e \<Rightarrow> e \<noteq> EINTR \<and> file fd k' = file fd k
     | Inr n \<Rightarrow> 0 \<le> n \<and> n \<le> int (length d) \<and> file fd k' = file fd k @ take (nat n) d)"
proof (induction "patience k" arbitrary: k rule: less_induct)
  case less
  obtain r k1 where r: "px_write px fd d k = (r, k1)" by fastforce
  show ?case
  proof (cases r)
    case (Inl e)
    with assms r have k1: "file fd k1 = file fd k" "e = EINTR \<longrightarrow> patience k1 < patience k"
      unfolding posix_write_contract_def by blast+
    with less.hyps [of k1] r Inl show ?thesis
      by (cases "e = EINTR") (auto simp: write_no_eintr.simps [of px fd d k] split: sum.splits)
  next
    case (Inr n)
    with assms r have "0 \<le> n \<and> n \<le> int (length d) \<and> file fd k1 = file fd k @ take (nat n) d"
      unfolding posix_write_contract_def by blast
    with r Inr show ?thesis by (auto simp: write_no_eintr.simps [of px fd d k])
  qed
qed

lemma file_write_loop:
  assumes "posix_write_contract px file patience" "0 \<le> t" "t \<le> int (length d)"
  shows "\<exists>ok s'. CopyingFileOutputStream_Write_loop px d t s = Some (ok, s') \<and>
    cf_file s' = cf_file s \<and> cf_is_closed s' = cf_is_closed s \<and>
    (\<exists>n. file (cf_file s) (cf_os s') = file (cf_file s) (cf_os s) @ take n (drop (nat t) d) \<and>
       (ok \<longrightarrow> n = length (drop (nat t) d)))"
  using assms(2,3)
proof (induction "nat (int (length d) - t)" arbitrary: t s rule: less_induct)
  case less
  show ?case
  proof (cases "t < int (length d)")
    case False
    then have "CopyingFileOutputStream_Write_loop px d t s = Some (True, s)"
      by (simp add: CopyingFileOutputStream_Write_loop.simps [of px d t s])
    with False less.prems show ?thesis by auto
  next
    case True
    obtain r k where w: "write_no_eintr px (cf_file s) (drop (nat t) d) (cf_os s) = Some (r, k)"
      and r: "case r of Inl e \<Rightarrow> e \<noteq> EINTR \<and> file (cf_file s) k = file (cf_file s) (cf_os s)
        | Inr n \<Rightarrow> 0 \<le> n \<and> n \<le> int (length (drop (nat t) d)) \<and>
            file (cf_file s) k = file (cf_file s) (cf_os s) @ take (nat n) (drop (nat t) d)"
      using write_no_eintr_returns [OF assms(1)] by meson
    show ?thesis
    proof (cases "\<exists>n>0. r = Inr n")
      case False
      with w r True show ?thesis
        by (cases r) (fastforce simp: CopyingFileOutputStream_Write_loop.simps [of px d t s])+
    next
      case n: True
      then obtain n where n: "r = Inr n" "0 < n" by blast
      with r True less.prems have len: "t + n \<le> int (length d)" by auto
      from less.hyps [of "t + n" "s\<lparr>cf_os := k\<rparr>"] n less.prems len
      obtain ok s' m where rec:
        "CopyingFileOutputStream_Write_loop px d (t + n) (s\<lparr>cf_os := k\<rparr>) = Some (ok, s')"
        "cf_file s' = cf_file s" "cf_is_closed s' = cf_is_closed s"
        "file (cf_file s) (cf_os s') = file (cf_file s) k @ take m (drop (nat (t + n)) d)"
        "ok \<longrightarrow> m = length (drop (nat (t + n)) d)" by auto
      have "take (nat n) (drop (nat t) d) @ take m (drop (nat (t + n)) d) =
          take (nat n + m) (drop (nat t) d)"
        using n less.prems by (simp add: take_add nat_add_distrib add.commute [of _ "nat t"])
      moreover have "ok \<longrightarrow> nat n + m = length (drop (nat t) d)"
        using rec(5) n less.prems len by auto
      ultimately show ?thesis using rec w n r True
        by (auto simp: CopyingFileOutputStream_Write_loop.simps [of px d t s])
    qed
  qed
qed

end
