(* ===== verification/CompositeStreams.thy ===== *)
theory CompositeStreams
  imports ZeroCopyStream
begin

text \<open>
  The streams built from other streams (\<open>io/zero_copy_stream_impl.cc\<close>):
  \<open>ConcatenatingInputStream\<close> and \<open>LimitingInputStream\<close>. Both keep the contract of
  \<open>zero_copy_input\<close> over any stream that keeps it; the interpretations give that for arrays,
  and for limits on concatenations of arrays.
\<close>

section \<open>ConcatenatingInputStream\<close>

record 's concat_input =
  cc_streams :: "'s list"
  cc_bytes_retired :: int

definition ConcatenatingInputStream :: "'s list \<Rightarrow> 's concat_input" where
  "ConcatenatingInputStream streams = \<lparr>cc_streams = streams, cc_bytes_retired = 0\<rparr>"

primrec ConcatenatingInputStream_Next_loop ::
  "'s input_vt \<Rightarrow> 's list \<Rightarrow> int \<Rightarrow> (bytes option \<times> 's concat_input) option" where
  "ConcatenatingInputStream_Next_loop vt [] retired =
     Some (None, \<lparr>cc_streams = [], cc_bytes_retired = retired\<rparr>)"
| "ConcatenatingInputStream_Next_loop vt (s # ss) retired = do {
     (r, s') \<leftarrow> in_next vt s;
     (case r of
        Some b \<Rightarrow> Some (Some b, \<lparr>cc_streams = s' # ss, cc_bytes_retired = retired\<rparr>)
      | None \<Rightarrow> ConcatenatingInputStream_Next_loop vt ss (retired + in_byte_count vt s'))
   }"

definition ConcatenatingInputStream_Next ::
  "'s input_vt \<Rightarrow> 's concat_input \<Rightarrow> (bytes option \<times> 's concat_input) option" where
  "ConcatenatingInputStream_Next vt c =
     ConcatenatingInputStream_Next_loop vt (cc_streams c) (cc_bytes_retired c)"

text \<open>\<open>GOOGLE_LOG(DFATAL)\<close> and \<open>GOOGLE_DCHECK\<close> end the process, as in a debug build.\<close>

definition ConcatenatingInputStream_BackUp ::
  "'s input_vt \<Rightarrow> int \<Rightarrow> 's concat_input \<Rightarrow> 's concat_input option" where
  "ConcatenatingInputStream_BackUp vt count c =
     (case cc_streams c of
        [] \<Rightarrow> None
      | s # ss \<Rightarrow> do { s' \<leftarrow> in_backup vt count s; Some (c\<lparr>cc_streams := s' # ss\<rparr>) })"

primrec ConcatenatingInputStream_Skip_loop ::
  "'s input_vt \<Rightarrow> 's list \<Rightarrow> int \<Rightarrow> int \<Rightarrow> (bool \<times> 's concat_input) option" where
  "ConcatenatingInputStream_Skip_loop vt [] count retired =
     Some (False, \<lparr>cc_streams = [], cc_bytes_retired = retired\<rparr>)"
| "ConcatenatingInputStream_Skip_loop vt (s # ss) count retired =
     (let target_byte_count = in_byte_count vt s + count in do {
       (r, s') \<leftarrow> in_skip vt count s;
       (if r then Some (True, \<lparr>cc_streams = s' # ss, cc_bytes_retired = retired\<rparr>)
        else
          let final_byte_count = in_byte_count vt s' in
          if \<not> final_byte_count < target_byte_count then None
          else ConcatenatingInputStream_Skip_loop vt ss (target_byte_count - final_byte_count)
                 (retired + final_byte_count))
     })"

definition ConcatenatingInputStream_Skip ::
  "'s input_vt \<Rightarrow> int \<Rightarrow> 's concat_input \<Rightarrow> (bool \<times> 's concat_input) option" where
  "ConcatenatingInputStream_Skip vt count c =
     ConcatenatingInputStream_Skip_loop vt (cc_streams c) count (cc_bytes_retired c)"

definition ConcatenatingInputStream_ByteCount :: "'s input_vt \<Rightarrow> 's concat_input \<Rightarrow> int" where
  "ConcatenatingInputStream_ByteCount vt c =
     (case cc_streams c of
        [] \<Rightarrow> cc_bytes_retired c
      | s # _ \<Rightarrow> cc_bytes_retired c + in_byte_count vt s)"

definition ConcatenatingInput_vt :: "'s input_vt \<Rightarrow> 's concat_input input_vt" where
  "ConcatenatingInput_vt vt =
     \<lparr>in_next = ConcatenatingInputStream_Next vt, in_backup = ConcatenatingInputStream_BackUp vt,
      in_skip = ConcatenatingInputStream_Skip vt,
      in_byte_count = ConcatenatingInputStream_ByteCount vt\<rparr>"

text \<open>
  The streams after the first must not have been read from before: \<open>ByteCount\<close> counts what
  they report.
\<close>

definition concat_input_ok :: "'s input_vt \<Rightarrow> ('s \<Rightarrow> bool) \<Rightarrow> 's concat_input \<Rightarrow> bool" where
  "concat_input_ok vt ok c \<longleftrightarrow>
     list_all ok (cc_streams c) \<and> list_all (\<lambda>s. in_byte_count vt s = 0) (tl (cc_streams c))"

definition concat_input_avail :: "('s \<Rightarrow> bytes) \<Rightarrow> 's concat_input \<Rightarrow> bytes" where
  "concat_input_avail avail c = concat (map avail (cc_streams c))"

definition concat_input_last :: "('s \<Rightarrow> bytes) \<Rightarrow> 's concat_input \<Rightarrow> bytes" where
  "concat_input_last lastb c = (case cc_streams c of [] \<Rightarrow> [] | s # _ \<Rightarrow> lastb s)"

definition concat_input_rank :: "('s \<Rightarrow> nat) \<Rightarrow> 's concat_input \<Rightarrow> nat" where
  "concat_input_rank rank c = sum_list (map rank (cc_streams c))"

lemmas concat_input_defs = concat_input_ok_def concat_input_avail_def concat_input_last_def
  concat_input_rank_def ConcatenatingInput_vt_def ConcatenatingInputStream_Next_def
  ConcatenatingInputStream_BackUp_def ConcatenatingInputStream_Skip_def
  ConcatenatingInputStream_ByteCount_def

context zero_copy_input
begin

lemma concat_next_loop:
  assumes "list_all ok ss" "list_all (\<lambda>s. in_byte_count vt s = 0) (tl ss)"
  shows "\<exists>r c'. ConcatenatingInputStream_Next_loop vt ss p = Some (r, c') \<and>
    concat_input_ok vt ok c' \<and>
    (case r of
       Some b \<Rightarrow> concat (map avail ss) = b @ concat_input_avail avail c' \<and>
         int (length b) \<le> INT_MAX \<and> suffix b (concat_input_last last c') \<and>
         concat_input_rank rank c' < sum_list (map rank ss) \<and>
         ConcatenatingInputStream_ByteCount vt c' =
           (if ss = [] then p else p + in_byte_count vt (hd ss)) + int (length b)
     | None \<Rightarrow> concat (map avail ss) = [] \<and> concat_input_avail avail c' = [] \<and>
         ConcatenatingInputStream_ByteCount vt c' =
           (if ss = [] then p else p + in_byte_count vt (hd ss)))"
  using assms
proof (induction ss arbitrary: p)
  case Nil
  then show ?case by (simp add: concat_input_defs)
next
  case (Cons s ss)
  from Cons.prems have s: "ok s" by simp
  obtain r s' where r: "in_next vt s = Some (r, s')" using next_returns [OF s] by blast
  show ?case
  proof (cases r)
    case (Some b)
    with next_block [OF s] block_size [OF s] r Cons.prems show ?thesis
      by (auto simp: concat_input_defs)
  next
    case None
    with next_end [OF s] r have e: "avail s = []" "in_byte_count vt s' = in_byte_count vt s" by auto
    have z: "ss \<noteq> [] \<Longrightarrow> in_byte_count vt (hd ss) = 0" "list_all (\<lambda>s. in_byte_count vt s = 0) (tl ss)"
      using Cons.prems(2) by (cases ss; simp)+
    have eq: "(if ss = [] then q else q + in_byte_count vt (hd ss)) = q" for q using z(1) by auto
    have ss: "list_all ok ss" using Cons.prems(1) by simp
    obtain r2 c2 where rec: "ConcatenatingInputStream_Next_loop vt ss (p + in_byte_count vt s') = Some (r2, c2)"
      "concat_input_ok vt ok c2"
      "case r2 of
       Some b \<Rightarrow> concat (map avail ss) = b @ concat_input_avail avail c2 \<and>
         int (length b) \<le> INT_MAX \<and> suffix b (concat_input_last last c2) \<and>
         concat_input_rank rank c2 < sum_list (map rank ss) \<and>
         ConcatenatingInputStream_ByteCount vt c2 = p + in_byte_count vt s' + int (length b)
     | None \<Rightarrow> concat (map avail ss) = [] \<and> concat_input_avail avail c2 = [] \<and>
         ConcatenatingInputStream_ByteCount vt c2 = p + in_byte_count vt s'"
      using Cons.IH [OF ss z(2), of "p + in_byte_count vt s'", unfolded eq] by blast
    with None r e show ?thesis by (cases r2) auto
  qed
qed

lemma concatenating:
  "zero_copy_input (ConcatenatingInput_vt vt) (concat_input_ok vt ok) (concat_input_avail avail)
    (concat_input_last last) (concat_input_rank rank)"
proof (unfold_locales, goal_cases)
  case (1 c)
  then show ?case using concat_next_loop [of "cc_streams c" "cc_bytes_retired c"]
    by (auto simp: ConcatenatingInput_vt_def ConcatenatingInputStream_Next_def concat_input_ok_def)
next
  case (2 c b c')
  then show ?case using concat_next_loop [of "cc_streams c" "cc_bytes_retired c"]
    by (cases "cc_streams c") (auto simp: concat_input_defs simp del: ConcatenatingInputStream_Next_loop.simps)
next
  case (3 c c')
  then show ?case using concat_next_loop [of "cc_streams c" "cc_bytes_retired c"]
    by (cases "cc_streams c") (auto simp: concat_input_defs simp del: ConcatenatingInputStream_Next_loop.simps)
next
  case (4 c b c')
  then show ?case using concat_next_loop [of "cc_streams c" "cc_bytes_retired c"]
    by (auto simp: ConcatenatingInput_vt_def ConcatenatingInputStream_Next_def concat_input_ok_def)
next
  case (5 c n)
  then obtain s ss where s: "cc_streams c = s # ss" "last s \<noteq> []" "n \<le> int (length (last s))" "ok s"
    by (auto simp: concat_input_last_def concat_input_ok_def split: list.splits)
  with 5 backup [of s n] show ?case by (auto simp: concat_input_defs)
qed

end


text \<open>
  \<open>Skip\<close> over the concatenation. A component whose \<open>Skip(0)\<close> reported failure would trip the
  \<open>GOOGLE_DCHECK\<close> (see \<open>zero_copy_input_skip\<close>), hence the extra law.
\<close>

locale zero_copy_input_skip0 = zero_copy_input_skip +
  assumes skip_zero: "ok s \<Longrightarrow> in_skip vt 0 s = Some (r, s') \<Longrightarrow> r"

context zero_copy_input_skip0
begin

lemma concat_skip_loop:
  assumes "list_all ok ss" "list_all (\<lambda>s. in_byte_count vt s = 0) (tl ss)" "0 \<le> n"
  shows "\<exists>r c'. ConcatenatingInputStream_Skip_loop vt ss n p = Some (r, c') \<and>
    concat_input_ok vt ok c' \<and>
    (0 < n \<longrightarrow> r = (n \<le> int (length (concat (map avail ss))))) \<and>
    concat_input_avail avail c' = drop (nat n) (concat (map avail ss)) \<and>
    ConcatenatingInputStream_ByteCount vt c' =
      (if ss = [] then p else p + in_byte_count vt (hd ss)) +
      min n (int (length (concat (map avail ss))))"
  using assms
proof (induction ss arbitrary: p n)
  case Nil
  then show ?case by (auto simp: concat_input_defs)
next
  case (Cons s ss)
  from Cons.prems have s: "ok s" and ss: "list_all ok ss" by simp_all
  obtain r s' where r: "in_skip vt n s = Some (r, s')" "ok s'"
    "0 < n \<longrightarrow> r = (n \<le> int (length (avail s)))" "avail s' = drop (nat n) (avail s)"
    "in_byte_count vt s' = in_byte_count vt s + min n (int (length (avail s)))"
    using skip [OF s Cons.prems(3)] by blast
  have zero: "n = 0 \<longrightarrow> r" using skip_zero [OF s] r(1) by auto
  show ?case
  proof (cases r)
    case True
    then have "n \<le> int (length (avail s))" using r(3) Cons.prems(3) by (cases "n = 0") auto
    with True r Cons.prems show ?thesis by (auto simp: concat_input_defs)
  next
    case False
    with zero have n: "0 < n" using Cons.prems(3) by (cases "n = 0") auto
    with False r(3) have short: "int (length (avail s)) < n" by simp
    with r(5) have bc: "in_byte_count vt s' = in_byte_count vt s + int (length (avail s))" by simp
    have z: "ss \<noteq> [] \<Longrightarrow> in_byte_count vt (hd ss) = 0" "list_all (\<lambda>s. in_byte_count vt s = 0) (tl ss)"
      using Cons.prems(2) by (cases ss; simp)+
    have eq: "(if ss = [] then q else q + in_byte_count vt (hd ss)) = q" for q using z(1) by auto
    let ?m = "n - int (length (avail s))"
    have m: "0 \<le> ?m" using short by simp
    obtain r2 c2 where rec: "ConcatenatingInputStream_Skip_loop vt ss ?m (p + in_byte_count vt s') = Some (r2, c2)"
      "concat_input_ok vt ok c2" "0 < ?m \<longrightarrow> r2 = (?m \<le> int (length (concat (map avail ss))))"
      "concat_input_avail avail c2 = drop (nat ?m) (concat (map avail ss))"
      "ConcatenatingInputStream_ByteCount vt c2 =
        p + in_byte_count vt s' + min ?m (int (length (concat (map avail ss))))"
      using Cons.IH [OF ss z(2) m, of "p + in_byte_count vt s'", unfolded eq] by blast
    have "ConcatenatingInputStream_Skip_loop vt (s # ss) n p = Some (r2, c2)"
      using False r(1) short rec(1) by (simp add: Let_def bc)
    moreover have "r2 = (n \<le> int (length (concat (map avail (s # ss)))))"
      using rec(3) short by auto
    moreover have "concat_input_avail avail c2 = drop (nat n) (concat (map avail (s # ss)))"
      using rec(4) short by (simp add: nat_diff_distrib)
    moreover have "ConcatenatingInputStream_ByteCount vt c2 = p + in_byte_count vt s +
        min n (int (length (concat (map avail (s # ss)))))"
      using rec(5) bc short by simp
    ultimately show ?thesis using rec(2) by simp
  qed
qed

lemma concatenating_skip:
  "zero_copy_input_skip (ConcatenatingInput_vt vt) (concat_input_ok vt ok) (concat_input_avail avail)
    (concat_input_last last) (concat_input_rank rank)"
proof (intro zero_copy_input_skip.intro zero_copy_input_skip_axioms.intro concatenating, goal_cases)
  case (1 c n)
  then show ?case
    using concat_skip_loop [of "cc_streams c" n "cc_bytes_retired c"]
    by (cases "cc_streams c")
       (auto simp: concat_input_defs simp del: ConcatenatingInputStream_Skip_loop.simps)
qed

end

interpretation ai0: zero_copy_input_skip0 ArrayInput_vt array_input_ok array_input_avail
    array_input_last array_input_rank
  by unfold_locales
     (auto simp: ArrayInput_vt_def ArrayInputStream_Skip_def array_input_ok_def split: if_splits)

text \<open>The concatenation of arrays, with the invariant written over the model.\<close>

abbreviation ArrayConcat_vt :: "array_input concat_input input_vt" where
  "ArrayConcat_vt \<equiv> ConcatenatingInput_vt ArrayInput_vt"

interpretation acat: zero_copy_input_skip ArrayConcat_vt "concat_input_ok ArrayInput_vt array_input_ok"
    "concat_input_avail array_input_avail" "concat_input_last array_input_last"
    "concat_input_rank array_input_rank"
  by (rule ai0.concatenating_skip)

section \<open>LimitingInputStream\<close>

text \<open>A negative limit records by how much the last block overshot it.\<close>

record 's limiting_input =
  lm_input :: 's
  lm_limit :: int

definition LimitingInputStream :: "'s \<Rightarrow> int \<Rightarrow> 's limiting_input" where
  "LimitingInputStream input limit = \<lparr>lm_input = input, lm_limit = limit\<rparr>"

definition LimitingInputStream_destroy :: "'s input_vt \<Rightarrow> 's limiting_input \<Rightarrow> 's option" where
  "LimitingInputStream_destroy vt c =
     (if lm_limit c < 0 then in_backup vt (- lm_limit c) (lm_input c) else Some (lm_input c))"

definition LimitingInputStream_Next ::
  "'s input_vt \<Rightarrow> 's limiting_input \<Rightarrow> (bytes option \<times> 's limiting_input) option" where
  "LimitingInputStream_Next vt c =
     (if lm_limit c < 0 then Some (None, c)
      else do {
        (r, s) \<leftarrow> in_next vt (lm_input c);
        (case r of
           None \<Rightarrow> Some (None, c\<lparr>lm_input := s\<rparr>)
         | Some b \<Rightarrow>
             let limit = lm_limit c - int (length b);
                 n = (if limit < 0 then int (length b) + limit else int (length b)) in
             Some (Some (take (nat n) b), c\<lparr>lm_input := s, lm_limit := limit\<rparr>))
      })"

definition LimitingInputStream_BackUp ::
  "'s input_vt \<Rightarrow> int \<Rightarrow> 's limiting_input \<Rightarrow> 's limiting_input option" where
  "LimitingInputStream_BackUp vt count c =
     (if lm_limit c < 0 then do {
        s \<leftarrow> in_backup vt (count - lm_limit c) (lm_input c);
        Some (c\<lparr>lm_input := s, lm_limit := count\<rparr>)
      }
      else do {
        s \<leftarrow> in_backup vt count (lm_input c);
        Some (c\<lparr>lm_input := s, lm_limit := lm_limit c + count\<rparr>)
      })"

definition LimitingInputStream_Skip ::
  "'s input_vt \<Rightarrow> int \<Rightarrow> 's limiting_input \<Rightarrow> (bool \<times> 's limiting_input) option" where
  "LimitingInputStream_Skip vt count c =
     (if count > lm_limit c then
        if lm_limit c < 0 then Some (False, c)
        else do {
          (_, s) \<leftarrow> in_skip vt (lm_limit c) (lm_input c);
          Some (False, c\<lparr>lm_input := s, lm_limit := 0\<rparr>)
        }
      else do {
        (r, s) \<leftarrow> in_skip vt count (lm_input c);
        (if \<not> r then Some (False, c\<lparr>lm_input := s\<rparr>)
         else Some (True, c\<lparr>lm_input := s, lm_limit := lm_limit c - count\<rparr>))
      })"

definition LimitingInputStream_ByteCount :: "'s input_vt \<Rightarrow> 's limiting_input \<Rightarrow> int" where
  "LimitingInputStream_ByteCount vt c =
     (if lm_limit c < 0 then in_byte_count vt (lm_input c) + lm_limit c
      else in_byte_count vt (lm_input c))"

definition LimitingInput_vt :: "'s input_vt \<Rightarrow> 's limiting_input input_vt" where
  "LimitingInput_vt vt =
     \<lparr>in_next = LimitingInputStream_Next vt, in_backup = LimitingInputStream_BackUp vt,
      in_skip = LimitingInputStream_Skip vt, in_byte_count = LimitingInputStream_ByteCount vt\<rparr>"

text \<open>An overshoot is within the block the underlying stream last returned.\<close>

definition limiting_ok :: "('s \<Rightarrow> bool) \<Rightarrow> ('s \<Rightarrow> bytes) \<Rightarrow> 's limiting_input \<Rightarrow> bool" where
  "limiting_ok ok lastb c \<longleftrightarrow>
     ok (lm_input c) \<and> - lm_limit c \<le> int (length (lastb (lm_input c)))"

definition limiting_avail :: "('s \<Rightarrow> bytes) \<Rightarrow> 's limiting_input \<Rightarrow> bytes" where
  "limiting_avail avail c = take (nat (lm_limit c)) (avail (lm_input c))"

definition limiting_last :: "('s \<Rightarrow> bytes) \<Rightarrow> 's limiting_input \<Rightarrow> bytes" where
  "limiting_last lastb c =
     (if lm_limit c < 0
      then take (length (lastb (lm_input c)) - nat (- lm_limit c)) (lastb (lm_input c))
      else lastb (lm_input c))"

definition limiting_rank :: "('s \<Rightarrow> nat) \<Rightarrow> 's limiting_input \<Rightarrow> nat" where
  "limiting_rank rank c = rank (lm_input c)"

lemmas limiting_defs = limiting_ok_def limiting_avail_def limiting_last_def limiting_rank_def
  LimitingInput_vt_def LimitingInputStream_ByteCount_def


context zero_copy_input
begin

lemma limiting_next_returns:
  assumes "limiting_ok ok last c"
  shows "\<exists>r c'. LimitingInputStream_Next vt c = Some (r, c')"
proof -
  from assms have "ok (lm_input c)" by (simp add: limiting_ok_def)
  then obtain r s where "in_next vt (lm_input c) = Some (r, s)"
    using next_returns by blast
  then show ?thesis by (cases r) (auto simp: LimitingInputStream_Next_def Let_def)
qed

lemma limiting_next_block:
  assumes ok: "limiting_ok ok last c"
    and next_: "LimitingInputStream_Next vt c = Some (Some b, c')"
  shows "limiting_ok ok last c' \<and> limiting_avail avail c = b @ limiting_avail avail c' \<and>
    suffix b (limiting_last last c') \<and> limiting_rank rank c' < limiting_rank rank c \<and>
    int (length b) \<le> INT_MAX \<and>
    LimitingInputStream_ByteCount vt c' = LimitingInputStream_ByteCount vt c + int (length b)"
proof -
  from next_ obtain b0 s where s: "in_next vt (lm_input c) = Some (Some b0, s)"
    and lim: "0 \<le> lm_limit c" and c': "c' = c\<lparr>lm_input := s, lm_limit := lm_limit c - int (length b0)\<rparr>"
    and b: "b = take (nat (if lm_limit c < int (length b0) then lm_limit c else int (length b0))) b0"
    by (auto simp: LimitingInputStream_Next_def Let_def split: if_splits option.splits)
  from ok have i: "ok (lm_input c)" by (simp add: limiting_ok_def)
  note nb = next_block [OF i s]
  from nb obtain p where p: "last s = p @ b0" by (auto simp: suffix_def)
  show ?thesis
  proof (cases "lm_limit c < int (length b0)")
    case True
    then have "length (last s) - nat (int (length b0) - lm_limit c) = length p + nat (lm_limit c)"
      using lim p by auto
    with True nb lim b c' p block_size [OF i s] show ?thesis
      by (auto simp: limiting_defs min_def suffix_def)
  next
    case False
    then have "nat (lm_limit c) - length b0 = nat (lm_limit c - int (length b0))" by simp
    with False nb lim b c' p block_size [OF i s] show ?thesis
      by (auto simp: limiting_defs)
  qed
qed

lemma limiting_next_end:
  assumes ok: "limiting_ok ok last c"
    and next_: "LimitingInputStream_Next vt c = Some (None, c')"
  shows "limiting_ok ok last c' \<and> limiting_avail avail c = [] \<and> limiting_avail avail c' = [] \<and>
    LimitingInputStream_ByteCount vt c' = LimitingInputStream_ByteCount vt c"
proof (cases "lm_limit c < 0")
  case True
  with ok next_ show ?thesis by (auto simp: LimitingInputStream_Next_def limiting_defs)
next
  case False
  with next_ obtain s where s: "in_next vt (lm_input c) = Some (None, s)" "c' = c\<lparr>lm_input := s\<rparr>"
    by (auto simp: LimitingInputStream_Next_def Let_def split: option.splits)
  from ok have "ok (lm_input c)" by (simp add: limiting_ok_def)
  from next_end [OF this s(1)] s(2) False show ?thesis by (auto simp: limiting_defs)
qed

lemma limiting_backup:
  assumes ok: "limiting_ok ok last c" and ne: "limiting_last last c \<noteq> []" and n: "0 \<le> n"
    "n \<le> int (length (limiting_last last c))"
  shows "\<exists>c'. LimitingInputStream_BackUp vt n c = Some c' \<and> limiting_ok ok last c' \<and>
    limiting_avail avail c' =
      drop (length (limiting_last last c) - nat n) (limiting_last last c) @ limiting_avail avail c \<and>
    LimitingInputStream_ByteCount vt c' = LimitingInputStream_ByteCount vt c - n"
proof (cases "lm_limit c < 0")
  case True
  let ?l = "last (lm_input c)" and ?o = "- lm_limit c"
  from True ok have o: "0 < ?o" "?o \<le> int (length ?l)" "ok (lm_input c)" by (auto simp: limiting_ok_def)
  with True n ne have m: "n + ?o \<le> int (length ?l)" "?l \<noteq> []"
    by (auto simp: limiting_last_def)
  have no: "0 \<le> n + ?o" using n(1) o(1) by simp
  from backup [OF o(3) m(2) no m(1)] obtain s where
    s: "in_backup vt (n - lm_limit c) (lm_input c) = Some s" "ok s"
    "avail s = drop (length ?l - nat (n + ?o)) ?l @ avail (lm_input c)"
    "in_byte_count vt s = in_byte_count vt (lm_input c) - (n + ?o)" by auto
  have "take (nat n) (avail s) =
      drop (length ?l - nat ?o - nat n) (take (length ?l - nat ?o) ?l)"
  proof -
    have "length ?l - nat ?o - nat n = length ?l - nat (n + ?o)" using n(1) o(1) by linarith
    moreover have "length (drop (length ?l - nat (n + ?o)) ?l) = nat n + nat ?o"
      using m n(1) o(1) by auto
    moreover have "length ?l - (nat ?o + (length ?l - nat (n - lm_limit c))) = nat n"
      using m(1) n(1) o(1) by linarith
    ultimately show ?thesis using s(3) n(1) o(1) by (simp add: drop_take)
  qed
  moreover have "length (take (length ?l - nat ?o) ?l) = length ?l - nat ?o" by simp
  ultimately show ?thesis using True s n
    by (simp add: LimitingInputStream_BackUp_def limiting_defs)
next
  case False
  with ok ne n have "ok (lm_input c)" "last (lm_input c) \<noteq> []" "n \<le> int (length (last (lm_input c)))"
    by (auto simp: limiting_defs)
  from backup [OF this(1,2) n(1) this(3)] obtain s where
    s: "in_backup vt n (lm_input c) = Some s" "ok s"
    "avail s = drop (length (last (lm_input c)) - nat n) (last (lm_input c)) @ avail (lm_input c)"
    "in_byte_count vt s = in_byte_count vt (lm_input c) - n" by blast
  have "length (drop (length (last (lm_input c)) - nat n) (last (lm_input c))) = nat n"
    using \<open>n \<le> int (length (last (lm_input c)))\<close> by simp
  then have "take (nat (lm_limit c + n)) (avail s) =
      drop (length (last (lm_input c)) - nat n) (last (lm_input c)) @ limiting_avail avail c"
    using False n(1) s(3) by (simp add: limiting_avail_def nat_add_distrib)
  with False s n show ?thesis
    by (auto simp: LimitingInputStream_BackUp_def limiting_defs)
qed

lemma limiting:
  "zero_copy_input (LimitingInput_vt vt) (limiting_ok ok last) (limiting_avail avail)
    (limiting_last last) (limiting_rank rank)"
proof (unfold_locales, goal_cases)
  case (1 c) then show ?case using limiting_next_returns by (simp add: LimitingInput_vt_def)
next
  case (2 c b c') then show ?case using limiting_next_block [of c b c']
    by (simp add: LimitingInput_vt_def)
next
  case (3 c c') then show ?case using limiting_next_end [of c c'] by (simp add: LimitingInput_vt_def)
next
  case (4 c b c') then show ?case using limiting_next_block [of c b c']
    by (simp add: LimitingInput_vt_def)
next
  case (5 c n) then show ?case using limiting_backup [of c n] by (simp add: LimitingInput_vt_def)
qed

text \<open>
  Destroying a limiting stream returns the bytes read past the limit: the underlying stream stands
  where the limited one stopped.
\<close>

lemma limiting_destroy:
  assumes ok: "limiting_ok ok last c"
  shows "\<exists>s. LimitingInputStream_destroy vt c = Some s \<and> ok s \<and>
    in_byte_count vt s = LimitingInputStream_ByteCount vt c \<and>
    avail s = (if lm_limit c < 0
      then drop (length (last (lm_input c)) - nat (- lm_limit c)) (last (lm_input c)) else []) @
      avail (lm_input c)"
proof (cases "lm_limit c < 0")
  case True
  with ok have o: "ok (lm_input c)" "last (lm_input c) \<noteq> []" "0 \<le> - lm_limit c"
    "- lm_limit c \<le> int (length (last (lm_input c)))" by (auto simp: limiting_ok_def)
  from backup [OF o] True show ?thesis
    by (auto simp: LimitingInputStream_destroy_def LimitingInputStream_ByteCount_def)
next
  case False
  with ok show ?thesis
    by (auto simp: LimitingInputStream_destroy_def LimitingInputStream_ByteCount_def limiting_ok_def)
qed

end


context zero_copy_input_skip
begin

lemma limiting_Skip_contract:
  assumes ok: "limiting_ok ok last c" and n: "0 \<le> n"
  shows "\<exists>r c'. LimitingInputStream_Skip vt n c = Some (r, c') \<and> limiting_ok ok last c' \<and>
    (0 < n \<longrightarrow> r = (n \<le> int (length (limiting_avail avail c)))) \<and>
    limiting_avail avail c' = drop (nat n) (limiting_avail avail c) \<and>
    LimitingInputStream_ByteCount vt c' =
      LimitingInputStream_ByteCount vt c + min n (int (length (limiting_avail avail c)))"
proof -
  from ok have i: "ok (lm_input c)" by (simp add: limiting_ok_def)
  consider "lm_limit c < 0" | "0 \<le> lm_limit c" "lm_limit c < n" | "0 \<le> lm_limit c" "n \<le> lm_limit c"
    by linarith
  then show ?thesis
  proof cases
    case 1
    with ok n show ?thesis by (auto simp: LimitingInputStream_Skip_def limiting_defs)
  next
    case 2
    obtain r s where s: "in_skip vt (lm_limit c) (lm_input c) = Some (r, s)" "ok s"
      "in_byte_count vt s = in_byte_count vt (lm_input c) + min (lm_limit c) (int (length (avail (lm_input c))))"
      using skip [OF i 2(1)] by blast
    with 2 show ?thesis
      by (auto simp: LimitingInputStream_Skip_def limiting_defs min_def)
  next
    case 3
    obtain r s where s: "in_skip vt n (lm_input c) = Some (r, s)" "ok s"
      "0 < n \<longrightarrow> r = (n \<le> int (length (avail (lm_input c))))" "avail s = drop (nat n) (avail (lm_input c))"
      "in_byte_count vt s = in_byte_count vt (lm_input c) + min n (int (length (avail (lm_input c))))"
      using skip [OF i n] by blast
    from 3 s ok n show ?thesis
      by (cases "n = 0"; cases r)
         (auto simp: LimitingInputStream_Skip_def limiting_defs drop_take nat_diff_distrib min_def)
  qed
qed

lemma limiting_skip:
  "zero_copy_input_skip (LimitingInput_vt vt) (limiting_ok ok last) (limiting_avail avail)
    (limiting_last last) (limiting_rank rank)"
  by (intro zero_copy_input_skip.intro zero_copy_input_skip_axioms.intro limiting)
     (use limiting_Skip_contract in \<open>simp add: LimitingInput_vt_def\<close>)

end

abbreviation ArrayLimit_vt :: "array_input limiting_input input_vt" where
  "ArrayLimit_vt \<equiv> LimitingInput_vt ArrayInput_vt"

interpretation alim: zero_copy_input_skip ArrayLimit_vt "limiting_ok array_input_ok array_input_last"
    "limiting_avail array_input_avail" "limiting_last array_input_last"
    "limiting_rank array_input_rank"
  by (rule ai.limiting_skip)

text \<open>A limit over a concatenation of arrays: the contracts compose.\<close>

interpretation aclim: zero_copy_input_skip "LimitingInput_vt ArrayConcat_vt"
    "limiting_ok (concat_input_ok ArrayInput_vt array_input_ok) (concat_input_last array_input_last)"
    "limiting_avail (concat_input_avail array_input_avail)"
    "limiting_last (concat_input_last array_input_last)"
    "limiting_rank (concat_input_rank array_input_rank)"
  by (rule acat.limiting_skip)

end
