(* ===== verification/StreamProperties.thy ===== *)
theory StreamProperties
  imports FileStreams CompositeStreams
begin

text \<open>
  What the zero-copy streams promise their clients, stated for the loop every client runs: call
  \<open>Next\<close> until it returns false.
\<close>

section \<open>Draining a stream\<close>

partial_function (option) drain :: "'s input_vt \<Rightarrow> bytes \<Rightarrow> 's \<Rightarrow> (bytes \<times> 's) option" where
  "drain vt acc s = do {
     (r, s') \<leftarrow> in_next vt s;
     (case r of None \<Rightarrow> Some (acc, s') | Some b \<Rightarrow> drain vt (acc @ b) s')
   }"

context zero_copy_input
begin

lemma drain_avail:
  "ok s \<Longrightarrow> \<exists>s'. drain vt acc s = Some (acc @ avail s, s') \<and> ok s' \<and> avail s' = [] \<and>
    in_byte_count vt s' = in_byte_count vt s + int (length (avail s))"
proof (induction "rank s" arbitrary: s acc rule: less_induct)
  case less
  obtain r s1 where n: "in_next vt s = Some (r, s1)" using next_returns [OF less.prems] by blast
  show ?case
  proof (cases r)
    case None
    then show ?thesis using n next_end [OF less.prems, of s1] by (subst drain.simps) auto
  next
    case (Some b)
    note b = next_block [OF less.prems, of b s1]
    from less.hyps [of s1 "acc @ b"] b n Some obtain s2 where
      "drain vt (acc @ b) s1 = Some (acc @ avail s, s2)" "ok s2" "avail s2 = []"
      "in_byte_count vt s2 = in_byte_count vt s1 + int (length (avail s1))" by auto
    then show ?thesis using b n Some by (subst drain.simps) auto
  qed
qed

end

text \<open>C18: \<open>LimitingInputStream\<close> over \<open>ConcatenatingInputStream\<close> over arrays, cut into blocks of
  any sizes: the client's loop receives the concatenation of the arrays up to the limit, no more and no
  less, and \<open>ByteCount\<close> counts it; after \<open>Skip(n)\<close> it receives the rest.\<close>

theorem composite_streams_deliver:
  fixes block_size :: int
  assumes small: "\<forall>d \<in> set datas. int (length d) \<le> INT_MAX" and n: "0 \<le> n" and limit: "0 \<le> limit"
  defines "s0 \<equiv> LimitingInputStream
      (ConcatenatingInputStream (map (\<lambda>d. ArrayInputStream d (int (length d)) block_size) datas)) limit"
    and "vt \<equiv> LimitingInput_vt ArrayConcat_vt"
  shows "\<exists>r s1 s2. in_skip vt n s0 = Some (r, s1) \<and>
    drain vt [] s1 = Some (drop (nat n) (take (nat limit) (concat datas)), s2) \<and>
    (0 < n \<longrightarrow> r = (n \<le> min limit (int (length (concat datas))))) \<and>
    in_byte_count vt s2 = min limit (int (length (concat datas)))"
proof -
  let ?ok = "limiting_ok (concat_input_ok ArrayInput_vt array_input_ok) (concat_input_last array_input_last)"
  let ?avail = "limiting_avail (concat_input_avail array_input_avail)"
  have ok: "?ok s0"
    using small limit array_input_ok_init
    by (cases datas) (auto simp: s0_def limiting_ok_def LimitingInputStream_def concat_input_ok_def
        ConcatenatingInputStream_def list_all_iff ArrayInput_vt_def ArrayInputStream_ByteCount_def
        ArrayInputStream_def)
  have avail: "?avail s0 = take (nat limit) (concat datas)"
    by (simp add: s0_def limiting_avail_def LimitingInputStream_def concat_input_avail_def
        ConcatenatingInputStream_def comp_def)
  have count: "in_byte_count vt s0 = 0"
    using limit by (cases datas) (auto simp: s0_def vt_def LimitingInput_vt_def LimitingInputStream_def
        LimitingInputStream_ByteCount_def ConcatenatingInput_vt_def ConcatenatingInputStream_ByteCount_def
        ConcatenatingInputStream_def ArrayInput_vt_def ArrayInputStream_ByteCount_def ArrayInputStream_def)
  obtain r s1 where 1: "in_skip vt n s0 = Some (r, s1)" "?ok s1"
    "0 < n \<longrightarrow> r = (n \<le> int (length (?avail s0)))" "?avail s1 = drop (nat n) (?avail s0)"
    "in_byte_count vt s1 = in_byte_count vt s0 + min n (int (length (?avail s0)))"
    using aclim.skip [OF ok n] unfolding vt_def by blast
  obtain s2 where 2: "drain vt [] s1 = Some (?avail s1, s2)"
    "in_byte_count vt s2 = in_byte_count vt s1 + int (length (?avail s1))"
    using aclim.drain_avail [OF 1(2), of "[]"] unfolding vt_def by auto
  have len: "int (length (?avail s0)) = min limit (int (length (concat datas)))"
    unfolding avail using limit by (simp add: min_def) linarith
  have "int (length (?avail s1)) = int (length (?avail s0)) - min n (int (length (?avail s0)))"
    unfolding 1(4) using n by (simp add: min_def)
  then have "in_byte_count vt s2 = min limit (int (length (concat datas)))"
    using 1(5) 2(2) by (simp only: count len)
  moreover have "drain vt [] s1 = Some (drop (nat n) (take (nat limit) (concat datas)), s2)"
    using 2(1) by (simp only: 1(4) avail)
  moreover have "0 < n \<longrightarrow> r = (n \<le> min limit (int (length (concat datas))))"
    using 1(3) by (simp only: len)
  ultimately show ?thesis using 1(1) by blast
qed

theorem composite_streams_deliver_witness:
  "\<exists>r s1 s2. in_skip (LimitingInput_vt ArrayConcat_vt) 2 (LimitingInputStream (ConcatenatingInputStream
      [ArrayInputStream [1, 2, 3] 3 2, ArrayInputStream [4, 5, 6] 3 2]) 5) = Some (r, s1) \<and> r \<and>
    drain (LimitingInput_vt ArrayConcat_vt) [] s1 = Some ([3, 4, 5], s2)"
proof -
  have small: "\<forall>d \<in> set [[1, 2, 3], [4, 5, 6 :: byte]]. int (length d) \<le> INT_MAX" by (simp add: INT_MAX_def)
  show ?thesis using composite_streams_deliver [OF small, of 2 5 2] by simp blast
qed

text \<open>C19: \<open>IstreamInputStream\<close>, which copies an istream block by block into its own buffer,
  delivers the bytes of the istream, whatever the block size (the default of 8192 where it is not
  positive).\<close>

theorem istream_delivers:
  assumes "istream_good is" "is_int32 block_size"
  shows "\<exists>s'. drain IstreamInput_vt [] (IstreamInputStream is block_size) = Some (is_rest is, s') \<and>
    in_byte_count IstreamInput_vt s' = int (length (is_rest is))"
proof -
  let ?s = "IstreamInputStream is block_size"
  have s: "istream_input_ok ?s" "istream_input_avail ?s = is_rest is"
    using copying_adaptor_init [where cok = "\<lambda>_. True" and c = "is" and bs = block_size and cavail = istream_avail]
      assms by (simp_all add: IstreamInputStream_def istream_avail_def)
  have "in_byte_count IstreamInput_vt ?s = 0"
    by (simp add: IstreamInput_vt_def IstreamInputStream_ByteCount_def CopyingInputStreamAdaptor_ByteCount_def
        IstreamInputStream_def CopyingInputStreamAdaptor_def)
  with isin.drain_avail [OF s(1), of "[]"] s(2) show ?thesis by auto
qed

definition sample_istream :: "bytes \<Rightarrow> istream" where
  "sample_istream d = \<lparr>is_rest = d, is_eofbit = False, is_failbit = False, is_badbit = False, is_gcount = 0\<rparr>"

theorem istream_delivers_witness:
  "\<exists>s'. drain IstreamInput_vt [] (IstreamInputStream (sample_istream [1, 2, 3]) 2) = Some ([1, 2, 3], s')"
  using istream_delivers [of "sample_istream [1, 2, 3]" 2]
  by (auto simp: sample_istream_def istream_good_def int_bounds)

text \<open>C20: The default \<open>Skip\<close> of \<open>CopyingInputStream\<close> reads a full scratch buffer whatever is
  left to skip: asked to skip between 4096 and 8192 bytes of a longer istream, \<open>IstreamInputStream\<close>
  consumes 8192 and reports failure, though the bytes asked for were there.\<close>

theorem istream_skip_overshoots:
  assumes "istream_good is" "4096 < count" "count < 8192" "8192 \<le> length (is_rest is)"
  shows "\<exists>s'. IstreamInputStream_Skip count (IstreamInputStream is block_size) = Some (False, s') \<and>
    is_rest (ca_stream s') = drop 8192 (is_rest is) \<and> IstreamInputStream_ByteCount s' = 8192"
proof -
  obtain is' where "cp_skip Istream_vt count is = Some (8192, is')" "is_rest is' = drop 8192 (is_rest is)"
    using istream_skip_two_reads [OF assms] by blast
  with assms show ?thesis
    by (auto simp: IstreamInputStream_Skip_def CopyingInputStreamAdaptor_Skip_def IstreamInputStream_def
        CopyingInputStreamAdaptor_def IstreamInputStream_ByteCount_def CopyingInputStreamAdaptor_ByteCount_def)
qed

theorem istream_skip_overshoots_witness:
  "\<exists>s'. IstreamInputStream_Skip 5000 (IstreamInputStream (sample_istream (replicate 9000 0)) 0) = Some (False, s') \<and>
    is_rest (ca_stream s') = replicate 808 0"
  using istream_skip_overshoots [of "sample_istream (replicate 9000 0)" 5000 0]
  by (auto simp: sample_istream_def istream_good_def)

text \<open>A file that can be sought is skipped past its end: the call succeeds whatever is left of the file.\<close>

lemma file_skip_past_end:
  assumes "px_lseek_cur px fd count k = (True, k')" "0 < count"
  shows "\<exists>s'. FileInputStream_Skip px count (FileInputStream fd block_size k) = Some (True, s') \<and>
    FileInputStream_ByteCount s' = count \<and> cf_os (ca_stream s') = k'"
  using assms
  by (auto simp: FileInputStream_Skip_def CopyingInputStreamAdaptor_Skip_def FileInputStream_def
      CopyingInputStreamAdaptor_def CopyingFileInputStream_def File_vt_def CopyingFileInputStream_Skip_def
      FileInputStream_ByteCount_def CopyingInputStreamAdaptor_ByteCount_def)

text \<open>C21: \<open>CopyingFileOutputStream::Write\<close> over a POSIX \<open>write\<close> that may be interrupted and may
  write less than it is asked to: the call returns, the file grows by a prefix of the buffer, and by
  all of it where the call returns true.\<close>

theorem file_write_complete:
  assumes px: "posix_write_contract px file patience" and s: "\<not> cf_is_closed s"
  shows "\<exists>r s' n. CopyingFileOutputStream_Write px d s = Some (r, s') \<and>
    file (cf_file s) (cf_os s') = file (cf_file s) (cf_os s) @ take n d \<and> (r \<longrightarrow> n = length d)"
  using file_write_loop [OF px, of 0 d s] s by (auto simp: CopyingFileOutputStream_Write_def)

text \<open>A system that writes two bytes at a time and interrupts every other call.\<close>

definition slow_write :: "int \<Rightarrow> bytes \<Rightarrow> bytes \<times> bool \<Rightarrow> (int + int) \<times> (bytes \<times> bool)" where
  "slow_write fd d k = (if snd k then (Inl EINTR, (fst k, False))
     else (Inr (min 2 (int (length d))), (fst k @ take 2 d, True)))"

definition slow_posix :: "(bytes \<times> bool) posix" where
  "slow_posix = \<lparr>px_read = (\<lambda>fd n k. (Inr [], k)), px_write = slow_write,
     px_lseek_cur = (\<lambda>fd n k. (False, k)), px_close = (\<lambda>fd k. (Inr (), k))\<rparr>"

theorem file_write_complete_witness:
  "posix_write_contract slow_posix (\<lambda>fd k. fst k) (\<lambda>k. if snd k then 1 else 0) \<and>
    (\<exists>r s' n. CopyingFileOutputStream_Write slow_posix [1, 2, 3] (CopyingFileOutputStream 3 ([], True)) =
      Some (r, s') \<and> fst (cf_os s') = take n [1, 2, 3])"
proof -
  have c: "posix_write_contract slow_posix (\<lambda>fd k. fst k) (\<lambda>k. if snd k then 1 else 0)"
    by (auto simp: posix_write_contract_def slow_posix_def slow_write_def min_def)
  moreover have "\<not> cf_is_closed (CopyingFileOutputStream 3 ([], True))" by (simp add: CopyingFileOutputStream_def)
  ultimately show ?thesis using file_write_complete [OF c, of "CopyingFileOutputStream 3 ([], True)" "[1, 2, 3]"]
    by (auto simp: CopyingFileOutputStream_def)
qed

end
