(* ===== verification/RepeatedFields.thy ===== *)
theory RepeatedFields
  imports ProtoPrelude "HOL-Library.Multiset"
begin

text \<open>
  \<open>RepeatedField\<close> and \<open>RepeatedPtrField\<close> (\<open>repeated_field.h\<close>,
  \<open>repeated_field.cc\<close>). An array is a list of optional values, \<open>None\<close> where the memory
  has not been written. The array in use is \<open>initial_space_\<close> where \<open>heap\<close> is
  \<open>None\<close>, as it is in the C++ where \<open>elements_ == initial_space_\<close>. An access past the
  size (a failed \<open>DCHECK\<close>) or to memory that was never written has no value, and neither has an
  operation whose computation of a size (\<open>total_size_ * 2\<close>, \<open>total_size_ + 1\<close>, the sum of two
  sizes) overflows.
\<close>

definition kInitialSize :: int where
  "kInitialSize = 4"

section \<open>RepeatedField\<close>

record 'a repeated_field =
  rf_initial :: "'a option list"
  rf_heap :: "'a option list option"
  rf_current_size :: int
  rf_total_size :: int

definition RepeatedField :: "'a repeated_field" where
  "RepeatedField = \<lparr>rf_initial = replicate (nat kInitialSize) None, rf_heap = None,
     rf_current_size = 0, rf_total_size = kInitialSize\<rparr>"

definition rf_elements :: "'a repeated_field \<Rightarrow> 'a option list" where
  "rf_elements r = (case rf_heap r of None \<Rightarrow> rf_initial r | Some a \<Rightarrow> a)"

definition rf_write :: "'a option list \<Rightarrow> 'a repeated_field \<Rightarrow> 'a repeated_field" where
  "rf_write a r = (case rf_heap r of None \<Rightarrow> r\<lparr>rf_initial := a\<rparr> | Some _ \<Rightarrow> r\<lparr>rf_heap := Some a\<rparr>)"

definition RepeatedField_size :: "'a repeated_field \<Rightarrow> int" where
  "RepeatedField_size r = rf_current_size r"

definition RepeatedField_Get :: "'a repeated_field \<Rightarrow> int \<Rightarrow> 'a option" where
  "RepeatedField_Get r index =
     (if \<not> index < RepeatedField_size r \<or> index < 0 then None
      else Option.bind (rd (rf_elements r) (nat index)) id)"

definition RepeatedField_Set :: "int \<Rightarrow> 'a \<Rightarrow> 'a repeated_field \<Rightarrow> 'a repeated_field option" where
  "RepeatedField_Set index v r =
     (if \<not> index < RepeatedField_size r \<or> index < 0 \<or> length (rf_elements r) \<le> nat index then None
      else Some (rf_write ((rf_elements r)[nat index := Some v]) r))"

definition RepeatedField_Reserve :: "int \<Rightarrow> 'a repeated_field \<Rightarrow> 'a repeated_field option" where
  "RepeatedField_Reserve new_size r =
     (if rf_total_size r \<ge> new_size then Some r
      else do {
        twice \<leftarrow> c_int (rf_total_size r * 2);
        let total = max twice new_size;
        Some (r\<lparr>rf_total_size := total,
          rf_heap := Some (take (nat (rf_current_size r)) (rf_elements r) @
            replicate (nat (total - rf_current_size r)) None)\<rparr>)
      })"

definition RepeatedField_Add :: "'a \<Rightarrow> 'a repeated_field \<Rightarrow> 'a repeated_field option" where
  "RepeatedField_Add v r = do {
     r' \<leftarrow> (if rf_current_size r = rf_total_size r
           then do { n \<leftarrow> c_int (rf_total_size r + 1); RepeatedField_Reserve n r } else Some r);
     (if nat (rf_current_size r') < length (rf_elements r')
      then Some ((rf_write ((rf_elements r')[nat (rf_current_size r') := Some v]) r')
             \<lparr>rf_current_size := rf_current_size r' + 1\<rparr>)
      else None)
   }"

definition RepeatedField_RemoveLast :: "'a repeated_field \<Rightarrow> 'a repeated_field option" where
  "RepeatedField_RemoveLast r =
     (if \<not> rf_current_size r > 0 then None
      else Some (r\<lparr>rf_current_size := rf_current_size r - 1\<rparr>))"

definition RepeatedField_Clear :: "'a repeated_field \<Rightarrow> 'a repeated_field" where
  "RepeatedField_Clear r = r\<lparr>rf_current_size := 0\<rparr>"

definition RepeatedField_MergeFrom ::
  "'a repeated_field \<Rightarrow> 'a repeated_field \<Rightarrow> 'a repeated_field option" where
  "RepeatedField_MergeFrom other r = do {
     n \<leftarrow> c_int (rf_current_size r + rf_current_size other);
     r' \<leftarrow> RepeatedField_Reserve n r;
     let src = take (nat (rf_current_size other)) (rf_elements other);
     (if nat (rf_current_size r') + length src \<le> length (rf_elements r')
      then Some ((rf_write (overwrite (rf_elements r') (rf_current_size r') src) r')
             \<lparr>rf_current_size := rf_current_size r' + rf_current_size other\<rparr>)
      else None)
   }"

text \<open>
  \<open>Swap\<close> exchanges the three members and the initial spaces; a pointer to the other object's
  initial space becomes one to the own, which is what \<open>rf_heap = None\<close> says.
\<close>

definition RepeatedField_Swap ::
  "'a repeated_field \<Rightarrow> 'a repeated_field \<Rightarrow> 'a repeated_field \<times> 'a repeated_field" where
  "RepeatedField_Swap this other =
     (\<lparr>rf_initial = rf_initial other, rf_heap = rf_heap other,
       rf_current_size = rf_current_size other, rf_total_size = rf_total_size other\<rparr>,
      \<lparr>rf_initial = rf_initial this, rf_heap = rf_heap this,
       rf_current_size = rf_current_size this, rf_total_size = rf_total_size this\<rparr>)"

text \<open>What a repeated field holds.\<close>

definition rf_ok :: "'a repeated_field \<Rightarrow> bool" where
  "rf_ok r \<longleftrightarrow> 0 \<le> rf_current_size r \<and> rf_current_size r \<le> rf_total_size r \<and>
     kInitialSize \<le> rf_total_size r \<and> rf_total_size r \<le> INT_MAX \<and>
     int (length (rf_elements r)) = rf_total_size r \<and>
     None \<notin> set (take (nat (rf_current_size r)) (rf_elements r))"

definition rf_list :: "'a repeated_field \<Rightarrow> 'a list" where
  "rf_list r = map the (take (nat (rf_current_size r)) (rf_elements r))"

section \<open>The interface clients use\<close>

text \<open>What both templates promise of their elements.\<close>

locale repeated =
  fixes ok :: "'r \<Rightarrow> bool"
    and elems :: "'r \<Rightarrow> 'a list"
    and size_of :: "'r \<Rightarrow> int"
    and get :: "'r \<Rightarrow> int \<Rightarrow> 'a option"
    and remove_last :: "'r \<Rightarrow> 'r option"
    and clear :: "'r \<Rightarrow> 'r"
  assumes size_elems: "ok r \<Longrightarrow> size_of r = int (length (elems r))"
    and get_elem: "ok r \<Longrightarrow> 0 \<le> i \<Longrightarrow> i < int (length (elems r)) \<Longrightarrow> get r i = Some (elems r ! nat i)"
    and get_outside: "ok r \<Longrightarrow> i < 0 \<or> int (length (elems r)) \<le> i \<Longrightarrow> get r i = None"
    and remove_last_elem: "ok r \<Longrightarrow> elems r \<noteq> [] \<Longrightarrow>
      \<exists>r'. remove_last r = Some r' \<and> ok r' \<and> elems r' = butlast (elems r)"
    and remove_last_empty: "ok r \<Longrightarrow> elems r = [] \<Longrightarrow> remove_last r = None"
    and clear_elems: "ok r \<Longrightarrow> ok (clear r) \<and> elems (clear r) = []"
begin

text \<open>The loop a client writes over a repeated field reads every element, in order.\<close>

primrec loop :: "nat \<Rightarrow> 'r \<Rightarrow> 'a list option" where
  "loop 0 r = Some []"
| "loop (Suc n) r = do { xs \<leftarrow> loop n r; x \<leftarrow> get r (int n); Some (xs @ [x]) }"

lemma loop_elems:
  assumes "ok r"
  shows "loop (nat (size_of r)) r = Some (elems r)"
proof -
  have "n \<le> length (elems r) \<Longrightarrow> loop n r = Some (take n (elems r))" for n
    by (induction n) (simp_all add: get_elem [OF assms] take_Suc_conv_app_nth)
  then show ?thesis by (simp add: size_elems [OF assms])
qed

primrec remove_n :: "nat \<Rightarrow> 'r \<Rightarrow> 'r option" where
  "remove_n 0 r = Some r"
| "remove_n (Suc n) r = Option.bind (remove_last r) (remove_n n)"

lemma remove_n_elems:
  "ok r \<Longrightarrow> n \<le> length (elems r) \<Longrightarrow>
    \<exists>r'. remove_n n r = Some r' \<and> ok r' \<and> elems r' = take (length (elems r) - n) (elems r)"
proof (induction n arbitrary: r)
  case (Suc n)
  then have "elems r \<noteq> []" by auto
  with remove_last_elem [OF Suc.prems(1)] obtain r1 where
    r1: "remove_last r = Some r1" "ok r1" "elems r1 = butlast (elems r)" by blast
  with Suc.IH [of r1] Suc.prems(2) show ?case by (auto simp: take_butlast)
qed simp

lemma clear_then_get: "ok r \<Longrightarrow> get (clear r) i = None"
  using clear_elems [of r] get_outside [of "clear r" i] by (cases "i < 0") auto

end

lemma rf_write_simps [simp]:
  "rf_elements (rf_write a r) = a" "rf_current_size (rf_write a r) = rf_current_size r"
  "rf_total_size (rf_write a r) = rf_total_size r"
  by (simp_all add: rf_write_def rf_elements_def split: option.splits)

lemma rf_elements_size [simp]:
  "rf_elements (r\<lparr>rf_current_size := n\<rparr>) = rf_elements r"
  by (simp add: rf_elements_def split: option.splits)

lemma rf_bounds:
  "rf_ok r \<Longrightarrow> 0 \<le> rf_current_size r \<and> nat (rf_current_size r) \<le> length (rf_elements r)"
  unfolding rf_ok_def by linarith

lemma rf_length: "rf_ok r \<Longrightarrow> int (length (rf_list r)) = rf_current_size r"
  using rf_bounds [of r] by (simp add: rf_list_def)

lemma rf_slots: "rf_ok r \<Longrightarrow> take (nat (rf_current_size r)) (rf_elements r) = map Some (rf_list r)"
  unfolding rf_ok_def rf_list_def
  by (simp add: comp_def) (rule map_idI [symmetric], metis option.collapse)

lemma rf_okI:
  assumes "0 \<le> rf_current_size r" "rf_current_size r \<le> rf_total_size r" "kInitialSize \<le> rf_total_size r"
    "rf_total_size r \<le> INT_MAX" "int (length (rf_elements r)) = rf_total_size r"
    "take (nat (rf_current_size r)) (rf_elements r) = map Some xs"
  shows "rf_ok r" and "rf_list r = xs"
  using assms by (auto simp: rf_ok_def rf_list_def comp_def)

lemma rf_init: "rf_ok RepeatedField" "rf_list RepeatedField = []"
  by (simp_all add: RepeatedField_def rf_ok_def rf_list_def rf_elements_def kInitialSize_def int_bounds)

interpretation rf: repeated rf_ok rf_list RepeatedField_size RepeatedField_Get
  RepeatedField_RemoveLast RepeatedField_Clear
proof
  fix r :: "'a repeated_field" and i
  assume ok: "rf_ok r"
  note len = rf_length [OF ok]
  show "RepeatedField_size r = int (length (rf_list r))"
    using len by (simp add: RepeatedField_size_def)
  show "RepeatedField_Get r i = Some (rf_list r ! nat i)" if "0 \<le> i" "i < int (length (rf_list r))"
  proof -
    have n: "nat i < nat (rf_current_size r)" using that len by simp
    have m: "nat i < length (rf_elements r)" using n rf_bounds [OF ok] by linarith
    have "rf_elements r ! nat i = take (nat (rf_current_size r)) (rf_elements r) ! nat i" using n by simp
    also have "\<dots> = Some (rf_list r ! nat i)" using that by (simp add: rf_slots [OF ok])
    finally show ?thesis
      using that len m by (simp add: RepeatedField_Get_def RepeatedField_size_def rd_def)
  qed
  show "RepeatedField_Get r i = None" if "i < 0 \<or> int (length (rf_list r)) \<le> i"
    using that len by (auto simp: RepeatedField_Get_def RepeatedField_size_def)
  show "\<exists>r'. RepeatedField_RemoveLast r = Some r' \<and> rf_ok r' \<and> rf_list r' = butlast (rf_list r)"
    if "rf_list r \<noteq> []"
  proof -
    have pos: "rf_current_size r > 0" using that len by (cases "rf_list r") auto
    let ?r = "r\<lparr>rf_current_size := rf_current_size r - 1\<rparr>"
    have "take (nat (rf_current_size r - 1)) (rf_elements r) =
        take (nat (rf_current_size r - 1)) (take (nat (rf_current_size r)) (rf_elements r))" by simp
    also have "\<dots> = map Some (butlast (rf_list r))"
      unfolding rf_slots [OF ok] using len
      by (simp add: butlast_conv_take take_map nat_minus_as_int)
    finally have e: "take (nat (rf_current_size ?r)) (rf_elements ?r) = map Some (butlast (rf_list r))"
      by simp
    have "rf_ok ?r" "rf_list ?r = butlast (rf_list r)"
      by (rule rf_okI [OF _ _ _ _ _ e]; use pos ok in \<open>simp add: rf_ok_def\<close>)+
    with pos show ?thesis by (simp add: RepeatedField_RemoveLast_def)
  qed
  show "RepeatedField_RemoveLast r = None" if "rf_list r = []"
    using that len by (simp add: RepeatedField_RemoveLast_def)
  show "rf_ok (RepeatedField_Clear r) \<and> rf_list (RepeatedField_Clear r) = []"
    using ok by (simp add: RepeatedField_Clear_def rf_ok_def rf_list_def)
qed

subsection \<open>Growing\<close>

text \<open>
  Growing is done for good as long as no size asked for is above \<open>2 ^ 30\<close>: the capacity that is
  doubled is then below it. Above, \<open>total_size_ * 2\<close> overflows.
\<close>

definition max_reserve :: int where
  "max_reserve = 2 ^ 30"

lemma rf_Reserve:
  assumes r: "rf_ok r" and n: "n \<le> max_reserve"
  obtains r' where "RepeatedField_Reserve n r = Some r'" "rf_ok r'" "rf_list r' = rf_list r"
    "rf_current_size r' = rf_current_size r" "n \<le> rf_total_size r'"
proof (cases "rf_total_size r \<ge> n")
  case True
  with that r show thesis by (simp add: RepeatedField_Reserve_def)
next
  case False
  let ?k = "nat (rf_current_size r)" and ?total = "max (rf_total_size r * 2) n"
  let ?r = "r\<lparr>rf_total_size := ?total,
    rf_heap := Some (take ?k (rf_elements r) @ replicate (nat (?total - rf_current_size r)) None)\<rparr>"
  have fits: "is_int32 (rf_total_size r * 2)" "?total \<le> INT_MAX"
    using False n r by (auto simp: rf_ok_def int_bounds max_reserve_def kInitialSize_def)
  have tot: "rf_current_size r \<le> ?total" "kInitialSize \<le> ?total"
    using False r by (auto simp: rf_ok_def kInitialSize_def)
  have el: "rf_elements ?r = take ?k (rf_elements r) @ replicate (nat (?total - rf_current_size r)) None"
    by (simp add: rf_elements_def)
  have slots: "take (nat (rf_current_size ?r)) (rf_elements ?r) = map Some (rf_list r)"
    using rf_bounds [OF r] by (simp add: el flip: rf_slots [OF r])
  have len: "int (length (rf_elements ?r)) = rf_total_size ?r"
    using rf_bounds [OF r] tot by (simp add: el)
  have "rf_ok ?r" "rf_list ?r = rf_list r"
    using rf_okI [OF _ _ _ _ len slots] rf_bounds [OF r] tot fits(2) by simp_all
  then show thesis
    using that [of ?r] False fits(1) by (simp add: RepeatedField_Reserve_def Let_def)
qed

lemma rf_Reserve_overflow:
  assumes "rf_total_size r < n" "INT_MAX < rf_total_size r * 2"
  shows "RepeatedField_Reserve n r = None"
  using assms by (simp add: RepeatedField_Reserve_def c_int_over)

text \<open>Stores at the end of the array, within its capacity.\<close>

lemma rf_append:
  assumes r: "rf_ok r" and fit: "rf_current_size r + int (length xs) \<le> rf_total_size r"
    and n: "n = rf_current_size r + int (length xs)"
  defines "r' \<equiv> (rf_write (overwrite (rf_elements r) (rf_current_size r) (map Some xs)) r)\<lparr>rf_current_size := n\<rparr>"
  shows "rf_ok r'" "rf_list r' = rf_list r @ xs"
proof -
  note b = rf_bounds [OF r]
  let ?k = "nat (rf_current_size r)"
  have len: "length (rf_elements r) = nat (rf_total_size r)" using r unfolding rf_ok_def by linarith
  have el: "rf_elements r' = take ?k (rf_elements r) @ map Some xs @ drop (?k + length xs) (rf_elements r)"
    by (simp add: r'_def overwrite_def)
  have slots: "take (nat (rf_current_size r')) (rf_elements r') = map Some (rf_list r @ xs)"
    using b unfolding el by (simp add: r'_def n nat_add_distrib rf_slots [OF r])
      (simp add: rf_length [OF r, symmetric])
  have "length (rf_elements r') = length (rf_elements r)"
    using b fit by (simp add: el len) linarith
  then show "rf_ok r'" "rf_list r' = rf_list r @ xs"
    using r fit n b by (intro rf_okI [OF _ _ _ _ _ slots]; simp add: r'_def rf_ok_def)+
qed

lemma rf_Add:
  assumes r: "rf_ok r" and small: "int (length (rf_list r)) < max_reserve"
  obtains r' where "RepeatedField_Add v r = Some r'" "rf_ok r'" "rf_list r' = rf_list r @ [v]"
proof -
  obtain r1 where r1: "(if rf_current_size r = rf_total_size r
      then do { n \<leftarrow> c_int (rf_total_size r + 1); RepeatedField_Reserve n r } else Some r) = Some r1"
    "rf_ok r1" "rf_list r1 = rf_list r" "rf_current_size r1 < rf_total_size r1"
  proof (cases "rf_current_size r = rf_total_size r")
    case True
    have n: "rf_total_size r + 1 \<le> max_reserve" using True small rf_length [OF r] by simp
    then have "is_int32 (rf_total_size r + 1)"
      using r by (simp add: rf_ok_def int_bounds max_reserve_def kInitialSize_def)
    then have "(if rf_current_size r = rf_total_size r
        then do { n \<leftarrow> c_int (rf_total_size r + 1); RepeatedField_Reserve n r } else Some r) =
        RepeatedField_Reserve (rf_total_size r + 1) r" using True by simp
    moreover obtain r1 where "RepeatedField_Reserve (rf_total_size r + 1) r = Some r1" "rf_ok r1"
      "rf_list r1 = rf_list r" "rf_current_size r1 = rf_current_size r" "rf_total_size r + 1 \<le> rf_total_size r1"
      by (rule rf_Reserve [OF r n])
    ultimately show thesis using True by (intro that [of r1]) simp_all
  next
    case False
    with r have "rf_current_size r < rf_total_size r" by (simp add: rf_ok_def)
    with False that r show thesis by simp
  qed
  have lt: "nat (rf_current_size r1) < length (rf_elements r1)"
    using r1(2,4) unfolding rf_ok_def by linarith
  have "overwrite (rf_elements r1) (rf_current_size r1) (map Some [v]) =
      (rf_elements r1)[nat (rf_current_size r1) := Some v]"
    using lt by (simp add: overwrite_def upd_conv_take_nth_drop)
  then have w: "RepeatedField_Add v r = Some ((rf_write (overwrite (rf_elements r1) (rf_current_size r1)
      (map Some [v])) r1)\<lparr>rf_current_size := rf_current_size r1 + 1\<rparr>)"
    unfolding RepeatedField_Add_def r1(1) using lt by simp
  have fit: "rf_current_size r1 + int (length [v]) \<le> rf_total_size r1"
    and n: "rf_current_size r1 + 1 = rf_current_size r1 + int (length [v])" using r1(4) by simp_all
  note a = rf_append [OF r1(2) fit n]
  show thesis by (rule that [OF w a(1)]) (simp only: a(2) r1(3))
qed

lemma rf_Set:
  assumes r: "rf_ok r" and i: "0 \<le> i" "i < int (length (rf_list r))"
  obtains r' where "RepeatedField_Set i v r = Some r'" "rf_ok r'" "rf_list r' = (rf_list r)[nat i := v]"
proof -
  note b = rf_bounds [OF r] and len = rf_length [OF r]
  define r' where "r' = rf_write ((rf_elements r)[nat i := Some v]) r"
  have m: "nat i < nat (rf_current_size r)" using i len by simp
  then have m2: "nat i < length (rf_elements r)" using b by linarith
  have "take (nat (rf_current_size r')) (rf_elements r') = map Some ((rf_list r)[nat i := v])"
    by (simp add: r'_def take_update_swap rf_slots [OF r] map_update)
  from rf_okI [OF _ _ _ _ _ this] r have "rf_ok r'" "rf_list r' = (rf_list r)[nat i := v]"
    by (simp_all add: r'_def rf_ok_def)
  with that [of r'] i len m2 show thesis
    by (simp add: RepeatedField_Set_def RepeatedField_size_def r'_def)
qed

lemma rf_MergeFrom:
  assumes r: "rf_ok r" and other: "rf_ok other"
    and small: "int (length (rf_list r @ rf_list other)) \<le> max_reserve"
  obtains r' where "RepeatedField_MergeFrom other r = Some r'" "rf_ok r'"
    "rf_list r' = rf_list r @ rf_list other"
proof -
  have n: "rf_current_size r + rf_current_size other \<le> max_reserve"
    using small rf_length [OF r] rf_length [OF other] by simp
  then have i: "is_int32 (rf_current_size r + rf_current_size other)"
    using rf_bounds [OF r] rf_bounds [OF other] by (simp add: int_bounds max_reserve_def)
  obtain r1 where r1: "RepeatedField_Reserve (rf_current_size r + rf_current_size other) r = Some r1"
    "rf_ok r1" "rf_list r1 = rf_list r" "rf_current_size r1 = rf_current_size r"
    "rf_current_size r + rf_current_size other \<le> rf_total_size r1"
    by (rule rf_Reserve [OF r n])
  have fit: "rf_current_size r1 + int (length (rf_list other)) \<le> rf_total_size r1"
    using r1(4,5) by (simp add: rf_length [OF other])
  then have "nat (rf_current_size r1) + length (rf_list other) \<le> length (rf_elements r1)"
    using r1(2) unfolding rf_ok_def by linarith
  then have w: "RepeatedField_MergeFrom other r = Some ((rf_write (overwrite (rf_elements r1)
      (rf_current_size r1) (map Some (rf_list other))) r1)
      \<lparr>rf_current_size := rf_current_size r1 + int (length (rf_list other))\<rparr>)"
    unfolding RepeatedField_MergeFrom_def rf_slots [OF other]
    by (simp add: i r1(1) rf_length [OF other])
  note a = rf_append [OF r1(2) fit refl]
  show thesis by (rule that [OF w a(1)]) (simp add: a(2) r1(3))
qed

lemma rf_Swap:
  assumes "rf_ok this" "rf_ok other" "RepeatedField_Swap this other = (a, b)"
  shows "rf_ok a" "rf_ok b" "rf_list a = rf_list other" "rf_list b = rf_list this"
proof -
  have "a = other" "b = this"
    using assms(3) by (cases this, cases other, simp add: RepeatedField_Swap_def)+
  with assms(1,2) show "rf_ok a" "rf_ok b" "rf_list a = rf_list other" "rf_list b = rf_list this"
    by simp_all
qed

section \<open>RepeatedPtrField\<close>

text \<open>
  The elements are owned objects: \<open>current\<close> of them in use, the rest of the \<open>allocated\<close> ones
  cleared and kept for reuse. \<open>new_element\<close> is \<open>NewElement\<close>, \<open>clr\<close> the element's
  \<open>Clear\<close>, \<open>mrg\<close> its \<open>MergeFrom\<close> (for \<open>string\<close>, \<open>clear\<close> and
  \<open>assign\<close>). Only the slots of the array are modelled, not where the array lies.
\<close>

record 'a repeated_ptr_field =
  rp_elements :: "'a option list"
  rp_current_size :: int
  rp_allocated_size :: int
  rp_total_size :: int

definition RepeatedPtrField :: "'a repeated_ptr_field" where
  "RepeatedPtrField = \<lparr>rp_elements = replicate (nat kInitialSize) None, rp_current_size = 0,
     rp_allocated_size = 0, rp_total_size = kInitialSize\<rparr>"

definition rp_slot :: "'a repeated_ptr_field \<Rightarrow> int \<Rightarrow> 'a option" where
  "rp_slot r i = (if i < 0 then None else Option.bind (rd (rp_elements r) (nat i)) id)"

definition rp_set :: "int \<Rightarrow> 'a \<Rightarrow> 'a repeated_ptr_field \<Rightarrow> 'a repeated_ptr_field" where
  "rp_set i x r = r\<lparr>rp_elements := (rp_elements r)[nat i := Some x]\<rparr>"

definition RepeatedPtrField_size :: "'a repeated_ptr_field \<Rightarrow> int" where
  "RepeatedPtrField_size r = rp_current_size r"

definition RepeatedPtrField_Get :: "'a repeated_ptr_field \<Rightarrow> int \<Rightarrow> 'a option" where
  "RepeatedPtrField_Get r index =
     (if \<not> index < RepeatedPtrField_size r then None else rp_slot r index)"

definition RepeatedPtrField_Reserve ::
  "int \<Rightarrow> 'a repeated_ptr_field \<Rightarrow> 'a repeated_ptr_field option" where
  "RepeatedPtrField_Reserve new_size r =
     (if rp_total_size r \<ge> new_size then Some r
      else do {
        twice \<leftarrow> c_int (rp_total_size r * 2);
        let total = max twice new_size;
        Some (r\<lparr>rp_total_size := total,
          rp_elements := take (nat (rp_allocated_size r)) (rp_elements r) @
            replicate (nat (total - rp_allocated_size r)) None\<rparr>)
      })"

text \<open>\<open>Add\<close> returns the pointer to the last element, whose object is the second component.\<close>

definition RepeatedPtrField_Add ::
  "'a \<Rightarrow> 'a repeated_ptr_field \<Rightarrow> ('a \<times> 'a repeated_ptr_field) option" where
  "RepeatedPtrField_Add new_element r =
     (if rp_current_size r < rp_allocated_size r then do {
        x \<leftarrow> rp_slot r (rp_current_size r);
        Some (x, r\<lparr>rp_current_size := rp_current_size r + 1\<rparr>)
      }
      else do {
        r1 \<leftarrow> (if rp_allocated_size r = rp_total_size r
              then do { n \<leftarrow> c_int (rp_total_size r + 1); RepeatedPtrField_Reserve n r } else Some r);
        Some (new_element,
          (rp_set (rp_current_size r1) new_element r1)
            \<lparr>rp_allocated_size := rp_allocated_size r1 + 1, rp_current_size := rp_current_size r1 + 1\<rparr>)
      })"

definition RepeatedPtrField_RemoveLast ::
  "('a \<Rightarrow> 'a) \<Rightarrow> 'a repeated_ptr_field \<Rightarrow> 'a repeated_ptr_field option" where
  "RepeatedPtrField_RemoveLast clr r =
     (if \<not> rp_current_size r > 0 then None
      else do {
        x \<leftarrow> rp_slot r (rp_current_size r - 1);
        Some ((rp_set (rp_current_size r - 1) (clr x) r)\<lparr>rp_current_size := rp_current_size r - 1\<rparr>)
      })"

definition RepeatedPtrField_Clear :: "('a \<Rightarrow> 'a) \<Rightarrow> 'a repeated_ptr_field \<Rightarrow> 'a repeated_ptr_field" where
  "RepeatedPtrField_Clear clr r =
     r\<lparr>rp_elements := map (map_option clr) (take (nat (rp_current_size r)) (rp_elements r)) @
         drop (nat (rp_current_size r)) (rp_elements r),
       rp_current_size := 0\<rparr>"

text \<open>\<open>MergeFrom\<close> of one element into the one \<open>Add\<close> returned, for each of the other field.\<close>

fun RepeatedPtrField_merge_loop ::
  "'a \<Rightarrow> ('a \<Rightarrow> 'a \<Rightarrow> 'a) \<Rightarrow> 'a option list \<Rightarrow> 'a repeated_ptr_field \<Rightarrow> 'a repeated_ptr_field option" where
  "RepeatedPtrField_merge_loop new_element mrg [] r = Some r"
| "RepeatedPtrField_merge_loop new_element mrg (y # ys) r = do {
     (x, r') \<leftarrow> RepeatedPtrField_Add new_element r;
     y' \<leftarrow> y;
     RepeatedPtrField_merge_loop new_element mrg ys (rp_set (rp_current_size r' - 1) (mrg y' x) r')
   }"

definition RepeatedPtrField_MergeFrom ::
  "'a \<Rightarrow> ('a \<Rightarrow> 'a \<Rightarrow> 'a) \<Rightarrow> 'a repeated_ptr_field \<Rightarrow> 'a repeated_ptr_field \<Rightarrow> 'a repeated_ptr_field option"
  where
  "RepeatedPtrField_MergeFrom new_element mrg other r = do {
     n \<leftarrow> c_int (rp_current_size r + rp_current_size other);
     r1 \<leftarrow> RepeatedPtrField_Reserve n r;
     RepeatedPtrField_merge_loop new_element mrg
       (map (RepeatedPtrField_Get other) [0 .. rp_current_size other - 1]) r1
   }"

definition RepeatedPtrField_AddAllocated ::
  "'a \<Rightarrow> 'a repeated_ptr_field \<Rightarrow> 'a repeated_ptr_field option" where
  "RepeatedPtrField_AddAllocated v r = do {
     r1 \<leftarrow> (if rp_allocated_size r = rp_total_size r
           then do { n \<leftarrow> c_int (rp_total_size r + 1); RepeatedPtrField_Reserve n r } else Some r);
     r2 \<leftarrow> (if rp_current_size r1 < rp_allocated_size r1
           then do { x \<leftarrow> rp_slot r1 (rp_current_size r1); Some (rp_set (rp_allocated_size r1) x r1) }
           else Some r1);
     Some ((rp_set (rp_current_size r2) v r2)
       \<lparr>rp_allocated_size := rp_allocated_size r2 + 1, rp_current_size := rp_current_size r2 + 1\<rparr>)
   }"

definition RepeatedPtrField_ReleaseLast ::
  "'a repeated_ptr_field \<Rightarrow> ('a \<times> 'a repeated_ptr_field) option" where
  "RepeatedPtrField_ReleaseLast r =
     (if \<not> rp_current_size r > 0 then None
      else do {
        x \<leftarrow> rp_slot r (rp_current_size r - 1);
        let r1 = r\<lparr>rp_current_size := rp_current_size r - 1,
                    rp_allocated_size := rp_allocated_size r - 1\<rparr>;
        (if rp_current_size r1 < rp_allocated_size r1
         then do { y \<leftarrow> rp_slot r1 (rp_allocated_size r1); Some (x, rp_set (rp_current_size r1) y r1) }
         else Some (x, r1))
      })"

definition RepeatedPtrField_ClearedCount :: "'a repeated_ptr_field \<Rightarrow> int" where
  "RepeatedPtrField_ClearedCount r = rp_allocated_size r - rp_current_size r"

definition RepeatedPtrField_AddCleared ::
  "'a \<Rightarrow> 'a repeated_ptr_field \<Rightarrow> 'a repeated_ptr_field option" where
  "RepeatedPtrField_AddCleared v r = do {
     r1 \<leftarrow> (if rp_allocated_size r = rp_total_size r
           then do { n \<leftarrow> c_int (rp_total_size r + 1); RepeatedPtrField_Reserve n r } else Some r);
     Some ((rp_set (rp_allocated_size r1) v r1)\<lparr>rp_allocated_size := rp_allocated_size r1 + 1\<rparr>)
   }"

definition RepeatedPtrField_ReleaseCleared ::
  "'a repeated_ptr_field \<Rightarrow> ('a \<times> 'a repeated_ptr_field) option" where
  "RepeatedPtrField_ReleaseCleared r =
     (if \<not> rp_allocated_size r > rp_current_size r then None
      else do {
        x \<leftarrow> rp_slot r (rp_allocated_size r - 1);
        Some (x, r\<lparr>rp_allocated_size := rp_allocated_size r - 1\<rparr>)
      })"

definition RepeatedPtrField_Swap ::
  "'a repeated_ptr_field \<Rightarrow> 'a repeated_ptr_field \<Rightarrow> 'a repeated_ptr_field \<times> 'a repeated_ptr_field" where
  "RepeatedPtrField_Swap this other =
     (\<lparr>rp_elements = rp_elements other, rp_current_size = rp_current_size other,
       rp_allocated_size = rp_allocated_size other, rp_total_size = rp_total_size other\<rparr>,
      \<lparr>rp_elements = rp_elements this, rp_current_size = rp_current_size this,
       rp_allocated_size = rp_allocated_size this, rp_total_size = rp_total_size this\<rparr>)"

text \<open>The elements in use and the cleared ones; the invariant relates them to the slots.\<close>

definition rp_holds :: "'a repeated_ptr_field \<Rightarrow> 'a list \<Rightarrow> 'a list \<Rightarrow> bool" where
  "rp_holds r xs cs \<longleftrightarrow>
     rp_current_size r = int (length xs) \<and> rp_allocated_size r = int (length xs + length cs) \<and>
     rp_total_size r = int (length (rp_elements r)) \<and> kInitialSize \<le> rp_total_size r \<and>
     rp_total_size r \<le> INT_MAX \<and> (\<exists>rest. rp_elements r = map Some (xs @ cs) @ rest)"

lemma rp_init: "rp_holds RepeatedPtrField [] []"
  by (simp add: rp_holds_def RepeatedPtrField_def kInitialSize_def int_bounds)

lemma rp_holds_slot:
  assumes "rp_holds r xs cs" "0 \<le> i" "i < int (length xs + length cs)"
  shows "rp_slot r i = Some ((xs @ cs) ! nat i)"
proof -
  obtain rest where e: "rp_elements r = map Some (xs @ cs) @ rest" using assms(1) by (auto simp: rp_holds_def)
  have "nat i < length (xs @ cs)" using assms(2,3) by simp
  then have "rp_elements r ! nat i = Some ((xs @ cs) ! nat i)" "nat i < length (rp_elements r)"
    using nth_append [of "map Some (xs @ cs)" rest "nat i"] unfolding e by (simp_all del: map_append)
  then show ?thesis using assms(2) by (simp add: rp_slot_def rd_def)
qed

lemma rp_Reserve:
  assumes r: "rp_holds r xs cs" and n: "n \<le> INT_MAX"
    and fit: "n \<le> rp_total_size r \<or> rp_total_size r * 2 \<le> INT_MAX"
  obtains r' where "RepeatedPtrField_Reserve n r = Some r'" "rp_holds r' xs cs" "n \<le> rp_total_size r'"
    "rp_total_size r \<le> rp_total_size r'"
proof (cases "rp_total_size r \<ge> n")
  case True
  with that r show thesis by (simp add: RepeatedPtrField_Reserve_def)
next
  case False
  obtain rest where e: "rp_elements r = map Some (xs @ cs) @ rest" using r by (auto simp: rp_holds_def)
  have i: "is_int32 (rp_total_size r * 2)"
    using False fit r by (auto simp: rp_holds_def int_bounds kInitialSize_def)
  let ?total = "max (rp_total_size r * 2) n"
  let ?r = "r\<lparr>rp_total_size := ?total, rp_elements := take (nat (rp_allocated_size r)) (rp_elements r) @
    replicate (nat (?total - rp_allocated_size r)) None\<rparr>"
  show thesis
  proof (rule that)
    show "RepeatedPtrField_Reserve n r = Some ?r"
      using False i by (simp add: RepeatedPtrField_Reserve_def Let_def)
    show "rp_holds ?r xs cs" using e r i n by (auto simp: rp_holds_def kInitialSize_def int_bounds)
    show "n \<le> rp_total_size ?r" "rp_total_size r \<le> rp_total_size ?r"
      using r by (simp_all add: rp_holds_def kInitialSize_def)
  qed
qed

text \<open>An array that is full and too large to be doubled: the operations that need room overflow.\<close>

definition rp_full :: "'a repeated_ptr_field \<Rightarrow> bool" where
  "rp_full r \<longleftrightarrow> rp_allocated_size r = rp_total_size r \<and> INT_MAX < rp_total_size r * 2"

lemma rp_Reserve_overflow:
  assumes "rp_total_size r < n" "INT_MAX < rp_total_size r * 2"
  shows "RepeatedPtrField_Reserve n r = None"
  using assms by (simp add: RepeatedPtrField_Reserve_def c_int_over)

lemma rp_no_room:
  assumes "rp_full r"
  shows "(if rp_allocated_size r = rp_total_size r
    then do { n \<leftarrow> c_int (rp_total_size r + 1); RepeatedPtrField_Reserve n r } else Some r) = None"
  using assms rp_Reserve_overflow [of r "rp_total_size r + 1"] by (simp add: rp_full_def c_int_def)

text \<open>Otherwise there is room for one more object, as three operations make it.\<close>

lemma rp_room:
  assumes r: "rp_holds r xs cs" and room: "\<not> rp_full r"
  obtains r1 y rest where "(if rp_allocated_size r = rp_total_size r
    then do { n \<leftarrow> c_int (rp_total_size r + 1); RepeatedPtrField_Reserve n r } else Some r) = Some r1"
    "rp_holds r1 xs cs" "rp_elements r1 = map Some (xs @ cs) @ y # rest"
    "rp_current_size r1 = int (length xs)" "rp_allocated_size r1 = int (length xs + length cs)"
    "rp_total_size r \<le> rp_total_size r1"
proof -
  obtain r1 where g: "(if rp_allocated_size r = rp_total_size r
    then do { n \<leftarrow> c_int (rp_total_size r + 1); RepeatedPtrField_Reserve n r } else Some r) = Some r1"
    and h: "rp_holds r1 xs cs" and mono: "rp_total_size r \<le> rp_total_size r1"
    and lt: "rp_allocated_size r1 < rp_total_size r1"
  proof (cases "rp_allocated_size r = rp_total_size r")
    case True
    with room r have "rp_total_size r * 2 \<le> INT_MAX" "is_int32 (rp_total_size r + 1)"
      by (simp_all add: rp_full_def rp_holds_def int_bounds kInitialSize_def)
    note fits = this
    then have n: "rp_total_size r + 1 \<le> INT_MAX" by (simp add: int_bounds)
    obtain r1 where r1: "RepeatedPtrField_Reserve (rp_total_size r + 1) r = Some r1" "rp_holds r1 xs cs"
      "rp_total_size r + 1 \<le> rp_total_size r1"
      by (rule rp_Reserve [OF r n disjI2 [OF fits(1)]])
    have "rp_allocated_size r1 < rp_total_size r1" using True r r1(2,3) by (simp add: rp_holds_def)
    then show thesis using True fits(2) r1 by (intro that [of r1]) simp_all
  next
    case False
    obtain q where "rp_elements r = map Some (xs @ cs) @ q" using r by (auto simp: rp_holds_def)
    with False r have "rp_allocated_size r < rp_total_size r" by (simp add: rp_holds_def)
    with False that [of r] r show thesis by simp
  qed
  obtain rest where e: "rp_elements r1 = map Some (xs @ cs) @ rest" using h by (auto simp: rp_holds_def)
  with h lt have "rest \<noteq> []" by (auto simp: rp_holds_def)
  then obtain y q where "rest = y # q" by (cases rest) auto
  with that [OF g h, of y q] h e mono show thesis by (simp add: rp_holds_def)
qed

lemma rp_Add:
  assumes r: "rp_holds r xs cs" and room: "cs = [] \<Longrightarrow> \<not> rp_full r"
  shows "\<exists>r'. RepeatedPtrField_Add n r = Some ((case cs of [] \<Rightarrow> n | c # _ \<Rightarrow> c), r') \<and>
    rp_holds r' (xs @ [case cs of [] \<Rightarrow> n | c # _ \<Rightarrow> c]) (tl cs) \<and> rp_total_size r \<le> rp_total_size r'"
proof (cases cs)
  case (Cons c cs')
  have "rp_slot r (rp_current_size r) = Some c"
    using rp_holds_slot [OF r, of "rp_current_size r"] r Cons by (simp add: rp_holds_def nth_append)
  then show ?thesis using r Cons
    by (auto simp: RepeatedPtrField_Add_def rp_holds_def)
next
  case Nil
  from r Nil have ge: "\<not> rp_current_size r < rp_allocated_size r" by (simp add: rp_holds_def)
  obtain r1 y rest where g: "(if rp_allocated_size r = rp_total_size r
    then do { n \<leftarrow> c_int (rp_total_size r + 1); RepeatedPtrField_Reserve n r } else Some r) = Some r1"
    and h: "rp_holds r1 xs cs" "rp_elements r1 = map Some (xs @ cs) @ y # rest"
    "rp_current_size r1 = int (length xs)" "rp_allocated_size r1 = int (length xs + length cs)"
    "rp_total_size r \<le> rp_total_size r1"
    by (rule rp_room [OF r room [OF Nil]])
  define r' where "r' = (rp_set (rp_current_size r1) n r1)
    \<lparr>rp_allocated_size := rp_allocated_size r1 + 1, rp_current_size := rp_current_size r1 + 1\<rparr>"
  have "rp_holds r' (xs @ [n]) []"
    using h Nil by (auto simp: rp_holds_def r'_def rp_set_def list_update_append)
  moreover have "rp_total_size r' = rp_total_size r1" by (simp add: r'_def rp_set_def)
  moreover have "RepeatedPtrField_Add n r = Some (n, r')"
    using ge by (simp add: RepeatedPtrField_Add_def g r'_def)
  ultimately show ?thesis using Nil h(5) by auto
qed

lemma rp_RemoveLast:
  assumes "rp_holds r (xs @ [x]) cs"
  shows "\<exists>r'. RepeatedPtrField_RemoveLast clr r = Some r' \<and> rp_holds r' xs (clr x # cs)"
proof -
  obtain rest where e: "rp_elements r = map Some ((xs @ [x]) @ cs) @ rest"
    using assms by (auto simp: rp_holds_def)
  have "rp_slot r (rp_current_size r - 1) = Some x"
    using rp_holds_slot [OF assms, of "rp_current_size r - 1"] assms by (simp add: rp_holds_def nth_append)
  with assms e show ?thesis
    by (auto simp: RepeatedPtrField_RemoveLast_def rp_holds_def rp_set_def list_update_append)
qed

lemma rp_Clear: "rp_holds r xs cs \<Longrightarrow> rp_holds (RepeatedPtrField_Clear clr r) [] (map clr xs @ cs)"
  by (auto simp: rp_holds_def RepeatedPtrField_Clear_def)

text \<open>Ownership passes in and out; the pool of cleared objects may be reordered, and loses none.\<close>

lemma rp_AddAllocated:
  assumes r: "rp_holds r xs cs" and room: "\<not> rp_full r"
  shows "\<exists>r' cs'. RepeatedPtrField_AddAllocated v r = Some r' \<and> rp_holds r' (xs @ [v]) cs' \<and>
    mset cs' = mset cs"
proof -
  obtain r1 y rest where g: "(if rp_allocated_size r = rp_total_size r
    then do { n \<leftarrow> c_int (rp_total_size r + 1); RepeatedPtrField_Reserve n r } else Some r) = Some r1"
    and h: "rp_holds r1 xs cs" "rp_elements r1 = map Some (xs @ cs) @ y # rest"
    "rp_current_size r1 = int (length xs)" "rp_allocated_size r1 = int (length xs + length cs)"
    by (rule rp_room [OF r room])
  show ?thesis
  proof (cases cs)
    case Nil
    with h show ?thesis
      by (auto simp: RepeatedPtrField_AddAllocated_def g rp_holds_def rp_set_def
          list_update_append intro!: exI [of _ "[]"])
  next
    case (Cons c cs')
    have s: "rp_slot r1 (int (length xs)) = Some c"
      using rp_holds_slot [OF h(1), of "int (length xs)"] Cons by (simp add: nth_append)
    have n: "nat (int (length xs + length cs)) = length xs + Suc (length cs')" using Cons by simp
    from s h Cons n show ?thesis
      by (auto simp: RepeatedPtrField_AddAllocated_def g rp_holds_def rp_set_def
          list_update_append nat_add_distrib intro!: exI [of _ "cs' @ [c]"])
  qed
qed

lemma rp_AddAllocated_full: "rp_full r \<Longrightarrow> RepeatedPtrField_AddAllocated v r = None"
  unfolding RepeatedPtrField_AddAllocated_def by (simp only: rp_no_room) simp

lemma rp_ReleaseLast:
  assumes r: "rp_holds r (xs @ [x]) cs"
  shows "\<exists>r' cs'. RepeatedPtrField_ReleaseLast r = Some (x, r') \<and> rp_holds r' xs cs' \<and> mset cs' = mset cs"
proof -
  obtain rest where e: "rp_elements r = map Some ((xs @ [x]) @ cs) @ rest"
    using r by (auto simp: rp_holds_def)
  have s: "rp_slot r (rp_current_size r - 1) = Some x"
    using rp_holds_slot [OF r, of "rp_current_size r - 1"] r by (simp add: rp_holds_def nth_append)
  show ?thesis
  proof (cases cs rule: rev_cases)
    case Nil
    with r e s show ?thesis
      by (auto simp: RepeatedPtrField_ReleaseLast_def Let_def rp_holds_def intro!: exI [of _ "[]"])
  next
    case (snoc cs' c)
    let ?r1 = "r\<lparr>rp_current_size := rp_current_size r - 1, rp_allocated_size := rp_allocated_size r - 1\<rparr>"
    have "rp_slot r (rp_allocated_size r - 1) = Some c"
      using rp_holds_slot [OF r, of "rp_allocated_size r - 1"] r snoc
      by (simp add: rp_holds_def nth_append nat_add_distrib)
    then have s2: "rp_slot ?r1 (rp_allocated_size ?r1) = Some c" by (auto simp: rp_slot_def split: if_splits)
    define r' where "r' = rp_set (rp_current_size ?r1) c ?r1"
    have "RepeatedPtrField_ReleaseLast r = Some (x, r')"
      using r s s2 snoc by (simp add: RepeatedPtrField_ReleaseLast_def Let_def rp_holds_def r'_def)
    moreover have "rp_holds r' xs (c # cs')"
      using r e snoc by (auto simp: rp_holds_def r'_def rp_set_def list_update_append)
    ultimately show ?thesis using snoc by (intro exI [of _ r'] exI [of _ "c # cs'"]) simp
  qed
qed

lemma rp_AddCleared:
  assumes r: "rp_holds r xs cs" and room: "\<not> rp_full r"
  shows "\<exists>r'. RepeatedPtrField_AddCleared v r = Some r' \<and> rp_holds r' xs (cs @ [v])"
proof -
  obtain r1 y rest where g: "(if rp_allocated_size r = rp_total_size r
    then do { n \<leftarrow> c_int (rp_total_size r + 1); RepeatedPtrField_Reserve n r } else Some r) = Some r1"
    and h: "rp_holds r1 xs cs" "rp_elements r1 = map Some (xs @ cs) @ y # rest"
    "rp_current_size r1 = int (length xs)" "rp_allocated_size r1 = int (length xs + length cs)"
    by (rule rp_room [OF r room])
  from h show ?thesis
    by (auto simp: RepeatedPtrField_AddCleared_def g rp_holds_def rp_set_def
        list_update_append nat_add_distrib)
qed

lemma rp_ReleaseCleared:
  assumes r: "rp_holds r xs (cs @ [c])"
  shows "\<exists>r'. RepeatedPtrField_ReleaseCleared r = Some (c, r') \<and> rp_holds r' xs cs"
proof -
  have "rp_slot r (rp_allocated_size r - 1) = Some c"
    using rp_holds_slot [OF r, of "rp_allocated_size r - 1"] r
    by (simp add: rp_holds_def nth_append nat_add_distrib)
  with r show ?thesis by (auto simp: RepeatedPtrField_ReleaseCleared_def rp_holds_def)
qed

text \<open>Merging appends, into objects taken from the pool first.\<close>

definition rp_taken :: "'a \<Rightarrow> 'a list \<Rightarrow> nat \<Rightarrow> 'a list" where
  "rp_taken n cs k = take k cs @ replicate (k - length cs) n"

lemma rp_set_last:
  assumes "rp_holds r (xs @ [x]) cs"
  shows "rp_holds (rp_set (rp_current_size r - 1) y r) (xs @ [y]) cs"
  using assms by (auto simp: rp_holds_def rp_set_def list_update_append)

lemma rp_merge_loop:
  assumes "rp_holds r xs cs" "int (length xs + length ys) \<le> rp_total_size r"
  shows "\<exists>r'. RepeatedPtrField_merge_loop n mrg (map Some ys) r = Some r' \<and>
    rp_holds r' (xs @ map2 mrg ys (rp_taken n cs (length ys))) (drop (length ys) cs)"
  using assms
proof (induction ys arbitrary: r xs cs)
  case Nil
  then show ?case by (simp add: rp_taken_def)
next
  case (Cons y ys)
  define x where "x = (case cs of [] \<Rightarrow> n | c # _ \<Rightarrow> c)"
  have "\<not> rp_full r" if "cs = []"
    using Cons.prems that by (simp add: rp_full_def rp_holds_def)
  from rp_Add [OF Cons.prems(1) this, of n] obtain r1 where
    r1: "RepeatedPtrField_Add n r = Some (x, r1)" "rp_holds r1 (xs @ [x]) (tl cs)"
      "rp_total_size r \<le> rp_total_size r1"
    by (auto simp: x_def)
  have "int (length (xs @ [mrg y x]) + length ys) \<le> rp_total_size (rp_set (rp_current_size r1 - 1) (mrg y x) r1)"
    using Cons.prems(2) r1(3) by (simp add: rp_set_def)
  from Cons.IH [OF rp_set_last [OF r1(2), of "mrg y x"] this] obtain r' where
    r': "RepeatedPtrField_merge_loop n mrg (map Some ys) (rp_set (rp_current_size r1 - 1) (mrg y x) r1) = Some r'"
    "rp_holds r' ((xs @ [mrg y x]) @ map2 mrg ys (rp_taken n (tl cs) (length ys))) (drop (length ys) (tl cs))"
    by blast
  have "rp_taken n cs (length (y # ys)) = x # rp_taken n (tl cs) (length ys)"
    by (cases cs) (simp_all add: rp_taken_def x_def)
  with r1(1) r' show ?case by (auto simp: drop_Suc)
qed

definition rp_ok :: "'a repeated_ptr_field \<Rightarrow> bool" where
  "rp_ok r \<longleftrightarrow> (\<exists>xs cs. rp_holds r xs cs)"

definition rp_list :: "'a repeated_ptr_field \<Rightarrow> 'a list" where
  "rp_list r = map the (take (nat (rp_current_size r)) (rp_elements r))"

lemma rp_holds_list: "rp_holds r xs cs \<Longrightarrow> rp_list r = xs"
  by (auto simp: rp_holds_def rp_list_def comp_def)

lemma rp_holds_get:
  assumes "rp_holds r xs cs" "0 \<le> i" "i < int (length xs)"
  shows "RepeatedPtrField_Get r i = Some (xs ! nat i)"
proof -
  have "nat i < length xs" using assms(2,3) by linarith
  with rp_holds_slot [OF assms(1,2)] assms show ?thesis
  by (simp add: RepeatedPtrField_Get_def RepeatedPtrField_size_def rp_holds_def nth_append)
qed

lemma rp_MergeFrom:
  assumes r: "rp_holds r xs cs" and other: "rp_holds other ys ds"
    and n: "int (length xs + length ys) \<le> INT_MAX"
    and fit: "int (length xs + length ys) \<le> rp_total_size r \<or> rp_total_size r * 2 \<le> INT_MAX"
  shows "\<exists>r'. RepeatedPtrField_MergeFrom new_element mrg other r = Some r' \<and>
    rp_holds r' (xs @ map2 mrg ys (rp_taken new_element cs (length ys))) (drop (length ys) cs)"
proof -
  have sizes: "rp_current_size r + rp_current_size other = int (length xs + length ys)"
    using r other by (simp add: rp_holds_def)
  have i: "is_int32 (int (length xs + length ys))" using n by (simp add: int_bounds)
  obtain r1 where r1: "RepeatedPtrField_Reserve (int (length xs + length ys)) r = Some r1" "rp_holds r1 xs cs"
    "int (length xs + length ys) \<le> rp_total_size r1"
    by (rule rp_Reserve [OF r n fit])
  have "map (RepeatedPtrField_Get other) [0 .. rp_current_size other - 1] = map Some ys"
    by (rule nth_equalityI) (use other in \<open>simp_all add: rp_holds_get [OF other] rp_holds_def\<close>)
  then show ?thesis
    using rp_merge_loop [OF r1(2,3), of new_element mrg] r1(1) i
    by (simp only: RepeatedPtrField_MergeFrom_def sizes c_int_fits) simp
qed

lemma rp_holds_fits: "rp_holds r xs cs \<Longrightarrow> int (length xs) \<le> INT_MAX"
  by (auto simp: rp_holds_def)

lemma rp_MergeFrom_overflow:
  assumes r: "rp_holds r xs cs" and other: "rp_holds other ys ds"
    and over: "rp_total_size r < int (length xs + length ys)" "INT_MAX < rp_total_size r * 2"
  shows "RepeatedPtrField_MergeFrom new_element mrg other r = None"
proof -
  have "rp_current_size r + rp_current_size other = int (length xs + length ys)"
    using r other by (simp add: rp_holds_def)
  then show ?thesis
    using rp_Reserve_overflow [OF over] by (simp add: RepeatedPtrField_MergeFrom_def c_int_def)
qed

text \<open>Where merging into an object of the pool is the same as merging into a new one.\<close>

lemma rp_taken_blank:
  assumes blank: "\<And>y c. c \<in> set (n # cs) \<Longrightarrow> mrg y c = y"
  shows "map2 mrg ys (rp_taken n cs (length ys)) = ys"
proof (rule nth_equalityI)
  show l: "length (map2 mrg ys (rp_taken n cs (length ys))) = length ys" by (simp add: rp_taken_def)
  fix i assume "i < length (map2 mrg ys (rp_taken n cs (length ys)))"
  then have i: "i < length ys" using l by simp
  have len: "length (rp_taken n cs (length ys)) = length ys" by (simp add: rp_taken_def)
  have "set (rp_taken n cs (length ys)) \<subseteq> set (n # cs)"
    using set_take_subset [of "length ys" cs] by (auto simp: rp_taken_def)
  then have "rp_taken n cs (length ys) ! i \<in> set (n # cs)" using i len nth_mem by (metis subsetD)
  then show "map2 mrg ys (rp_taken n cs (length ys)) ! i = ys ! i" using i len blank by simp
qed

interpretation rp: repeated rp_ok rp_list RepeatedPtrField_size RepeatedPtrField_Get
  "RepeatedPtrField_RemoveLast clr" "RepeatedPtrField_Clear clr" for clr
proof
  fix r :: "'a repeated_ptr_field" and i
  assume "rp_ok r"
  then obtain xs cs where h: "rp_holds r xs cs" by (auto simp: rp_ok_def)
  note l = rp_holds_list [OF h]
  show "RepeatedPtrField_size r = int (length (rp_list r))"
    using h by (simp add: RepeatedPtrField_size_def rp_holds_def l)
  show "RepeatedPtrField_Get r i = Some (rp_list r ! nat i)" if "0 \<le> i" "i < int (length (rp_list r))"
    using rp_holds_get [OF h] that by (simp add: l)
  show "RepeatedPtrField_Get r i = None" if "i < 0 \<or> int (length (rp_list r)) \<le> i"
    using that h by (auto simp: RepeatedPtrField_Get_def RepeatedPtrField_size_def rp_holds_def l rp_slot_def)
  show "\<exists>r'. RepeatedPtrField_RemoveLast clr r = Some r' \<and> rp_ok r' \<and> rp_list r' = butlast (rp_list r)"
    if ne: "rp_list r \<noteq> []"
  proof -
    obtain ys y where "xs = ys @ [y]" using ne l by (metis rev_exhaust)
    with rp_RemoveLast [of r ys y cs clr] h show ?thesis
      by (auto simp: l rp_ok_def dest: rp_holds_list)
  qed
  show "RepeatedPtrField_RemoveLast clr r = None" if "rp_list r = []"
    using that h by (simp add: RepeatedPtrField_RemoveLast_def rp_holds_def l)
  show "rp_ok (RepeatedPtrField_Clear clr r) \<and> rp_list (RepeatedPtrField_Clear clr r) = []"
    using rp_Clear [OF h, of clr] by (auto simp: rp_ok_def dest: rp_holds_list)
qed

end
