(* ===== verification/UnknownFieldSets.thy ===== *)
theory UnknownFieldSets
  imports ProtoPrelude
begin

text \<open>
  \<open>UnknownFieldSet\<close> and \<open>UnknownField\<close> (\<open>unknown_field_set.cc\<close>,
  \<open>unknown_field_set.h\<close>). The objects of a set are owned by its map \<open>fields_\<close>; a pointer of
  \<open>active_fields_\<close> is the number it points to. A repeated member is the list of its elements,
  as \<open>RepeatedFields\<close> justifies up to \<open>2 ^ 30\<close> elements, where its sizes cannot overflow; of \<open>group_\<close>, whose cleared elements are objects that are used
  again, the pool is kept as well (a cleared string is empty).
\<close>

datatype unknown_field =
  UnknownField (uf_number: int) (uf_index: int) (uf_varint: "uint64 list") (uf_fixed32: "uint32 list")
    (uf_fixed64: "uint64 list") (uf_length_delimited: "bytes list")
    (uf_group: "unknown_field_set list") (uf_group_cleared: "unknown_field_set list")
and unknown_field_set =
  NoInternal
| Internal (ufs_fields: "(int \<times> unknown_field) list") (ufs_active: "int list")

definition kMaxInactiveFields :: nat where
  "kMaxInactiveFields = 100"

section \<open>Accessors of a field\<close>

definition UnknownField_new :: "int \<Rightarrow> unknown_field" where
  "UnknownField_new number = UnknownField number (- 1) [] [] [] [] [] []"

fun UnknownField_set_index :: "int \<Rightarrow> unknown_field \<Rightarrow> unknown_field" where
  "UnknownField_set_index j (UnknownField n i v f32 f64 ld g gc) = UnknownField n j v f32 f64 ld g gc"

fun UnknownField_add_varint :: "uint64 \<Rightarrow> unknown_field \<Rightarrow> unknown_field" where
  "UnknownField_add_varint x (UnknownField n i v f32 f64 ld g gc) =
     UnknownField n i (v @ [x]) f32 f64 ld g gc"

fun UnknownField_add_fixed32 :: "uint32 \<Rightarrow> unknown_field \<Rightarrow> unknown_field" where
  "UnknownField_add_fixed32 x (UnknownField n i v f32 f64 ld g gc) =
     UnknownField n i v (f32 @ [x]) f64 ld g gc"

fun UnknownField_add_fixed64 :: "uint64 \<Rightarrow> unknown_field \<Rightarrow> unknown_field" where
  "UnknownField_add_fixed64 x (UnknownField n i v f32 f64 ld g gc) =
     UnknownField n i v f32 (f64 @ [x]) ld g gc"

fun UnknownField_add_length_delimited :: "bytes \<Rightarrow> unknown_field \<Rightarrow> unknown_field" where
  "UnknownField_add_length_delimited x (UnknownField n i v f32 f64 ld g gc) =
     UnknownField n i v f32 f64 (ld @ [x]) g gc"

text \<open>\<open>add_group\<close> takes a cleared object where there is one.\<close>

fun UnknownField_add_group :: "unknown_field \<Rightarrow> unknown_field_set \<times> unknown_field" where
  "UnknownField_add_group (UnknownField n i v f32 f64 ld g []) =
     (NoInternal, UnknownField n i v f32 f64 ld (g @ [NoInternal]) [])"
| "UnknownField_add_group (UnknownField n i v f32 f64 ld g (x # gc)) =
     (x, UnknownField n i v f32 f64 ld (g @ [x]) gc)"

text \<open>What a caller did through the pointer \<open>add_group\<close> returned.\<close>

fun uf_set_last_group :: "unknown_field_set \<Rightarrow> unknown_field \<Rightarrow> unknown_field" where
  "uf_set_last_group x (UnknownField n i v f32 f64 ld g gc) =
     UnknownField n i v f32 f64 ld (butlast g @ [x]) gc"

fun UnknownField_clear_varint :: "unknown_field \<Rightarrow> unknown_field" where
  "UnknownField_clear_varint (UnknownField n i v f32 f64 ld g gc) = UnknownField n i [] f32 f64 ld g gc"

fun UnknownField_clear_fixed32 :: "unknown_field \<Rightarrow> unknown_field" where
  "UnknownField_clear_fixed32 (UnknownField n i v f32 f64 ld g gc) = UnknownField n i [] f32 f64 ld g gc"

fun UnknownField_clear_fixed64 :: "unknown_field \<Rightarrow> unknown_field" where
  "UnknownField_clear_fixed64 (UnknownField n i v f32 f64 ld g gc) = UnknownField n i [] f32 f64 ld g gc"

fun UnknownField_clear_length_delimited :: "unknown_field \<Rightarrow> unknown_field" where
  "UnknownField_clear_length_delimited (UnknownField n i v f32 f64 ld g gc) =
     UnknownField n i v f32 f64 [] g gc"

text \<open>\<open>group_.Clear()\<close>, given the elements after their own \<open>Clear\<close>.\<close>

fun UnknownField_clear_group :: "unknown_field_set list \<Rightarrow> unknown_field \<Rightarrow> unknown_field" where
  "UnknownField_clear_group cleared (UnknownField n i v f32 f64 ld g gc) =
     UnknownField n i v f32 f64 ld [] (cleared @ gc)"

section \<open>Sizes for the recursions\<close>

lemma size_uf_group: "g \<in> set (uf_group f) \<Longrightarrow> size g < size f"
  by (cases f) (auto dest: size_list_estimation' [where f = size, OF _ order.refl])

lemma size_ufs_field: "(k, f) \<in> set fs \<Longrightarrow> size f < size (Internal fs act)"
  by (auto dest!: size_list_estimation' [where f = "size_prod (\<lambda>x. 0) size", OF _ order.refl])

text \<open>\<open>field(0), \<dots>, field(field_count() - 1)\<close>.\<close>

fun ufs_field_list :: "unknown_field_set \<Rightarrow> unknown_field list" where
  "ufs_field_list NoInternal = []"
| "ufs_field_list (Internal fs act) = List.map_filter (map_of fs) act"

lemma size_ufs_field_list: "f \<in> set (ufs_field_list s) \<Longrightarrow> size f < size s"
proof (cases s)
  case (Internal fs act)
  assume "f \<in> set (ufs_field_list s)"
  then obtain k where "map_of fs k = Some f" by (auto simp: Internal map_filter_def)
  then show ?thesis unfolding Internal by (intro size_ufs_field map_of_SomeD)
qed simp

section \<open>Operations on sets\<close>

function UnknownField_Clear :: "unknown_field \<Rightarrow> unknown_field"
  and UnknownFieldSet_Clear :: "unknown_field_set \<Rightarrow> unknown_field_set" where
  "UnknownField_Clear f =
     UnknownField_clear_group (map UnknownFieldSet_Clear (uf_group f))
       (UnknownField_clear_length_delimited
         (UnknownField_clear_fixed64 (UnknownField_clear_fixed32 (UnknownField_clear_varint f))))"
| "UnknownFieldSet_Clear NoInternal = NoInternal"
| "UnknownFieldSet_Clear (Internal fs act) =
     (if length fs > kMaxInactiveFields then Internal [] []
      else Internal
        (map (\<lambda>(k, f). (k, if k \<in> set act then UnknownField_set_index (- 1) (UnknownField_Clear f) else f)) fs)
        [])"
  by pat_completeness auto
termination
  by (relation "measure (\<lambda>x. case x of Inl f \<Rightarrow> size f | Inr s \<Rightarrow> size s)")
    (auto dest: size_uf_group size_ufs_field)

declare UnknownField_Clear.simps [simp del] UnknownFieldSet_Clear.simps [simp del]

definition UnknownFieldSet_empty :: "unknown_field_set \<Rightarrow> bool" where
  "UnknownFieldSet_empty s = (case s of NoInternal \<Rightarrow> True | Internal fs act \<Rightarrow> act = [])"

definition UnknownFieldSet_field_count :: "unknown_field_set \<Rightarrow> int" where
  "UnknownFieldSet_field_count s = (case s of NoInternal \<Rightarrow> 0 | Internal fs act \<Rightarrow> int (length act))"

definition UnknownFieldSet_field :: "int \<Rightarrow> unknown_field_set \<Rightarrow> unknown_field option" where
  "UnknownFieldSet_field i s =
     (case s of NoInternal \<Rightarrow> None
      | Internal fs act \<Rightarrow> if i < 0 then None else Option.bind (rd act (nat i)) (map_of fs))"

definition UnknownFieldSet_FindFieldByNumber :: "int \<Rightarrow> unknown_field_set \<Rightarrow> unknown_field option" where
  "UnknownFieldSet_FindFieldByNumber number s =
     (case s of NoInternal \<Rightarrow> None
      | Internal fs act \<Rightarrow>
          (case map_of fs number of None \<Rightarrow> None | Some f \<Rightarrow> if uf_index f \<noteq> - 1 then Some f else None))"

text \<open>A pointer to the field \<open>number\<close> of a set, dereferenced and written through.\<close>

fun alist_update :: "int \<Rightarrow> unknown_field \<Rightarrow> (int \<times> unknown_field) list \<Rightarrow> (int \<times> unknown_field) list" where
  "alist_update k f [] = [(k, f)]"
| "alist_update k f ((j, g) # fs) = (if j = k then (k, f) # fs else (j, g) # alist_update k f fs)"

fun ufs_modify :: "int \<Rightarrow> (unknown_field \<Rightarrow> unknown_field) \<Rightarrow> unknown_field_set \<Rightarrow> unknown_field_set" where
  "ufs_modify number upd NoInternal = NoInternal"
| "ufs_modify number upd (Internal fs act) =
     (case map_of fs number of None \<Rightarrow> Internal fs act
      | Some f \<Rightarrow> Internal (alist_update number (upd f) fs) act)"

fun ufs_get :: "int \<Rightarrow> unknown_field_set \<Rightarrow> unknown_field option" where
  "ufs_get number NoInternal = None"
| "ufs_get number (Internal fs act) = map_of fs number"

text \<open>\<open>AddField\<close> returns the pointer \<open>number\<close> of the set it leaves.\<close>

definition UnknownFieldSet_AddField :: "int \<Rightarrow> unknown_field_set \<Rightarrow> unknown_field_set" where
  "UnknownFieldSet_AddField number s =
     (let (fs, act) = (case s of NoInternal \<Rightarrow> ([], []) | Internal fs act \<Rightarrow> (fs, act));
          fs1 = (if map_of fs number = None then alist_update number (UnknownField_new number) fs else fs) in
      case map_of fs1 number of
        None \<Rightarrow> Internal fs1 act
      | Some f \<Rightarrow>
          if uf_index f = - 1
          then Internal (alist_update number (UnknownField_set_index (int (length act)) f) fs1) (act @ [number])
          else Internal fs1 act)"

text \<open>\<open>MergeFrom\<close>: of the groups, each is merged into a new (or cleared) object.\<close>

fun uf_merge_groups ::
  "unknown_field_set list \<Rightarrow> (unknown_field_set \<Rightarrow> unknown_field_set) list \<Rightarrow>
    unknown_field_set list \<times> unknown_field_set list" where
  "uf_merge_groups gc [] = ([], gc)"
| "uf_merge_groups [] (m # ms) = (let (xs, gc) = uf_merge_groups [] ms in (m NoInternal # xs, gc))"
| "uf_merge_groups (c # cs) (m # ms) = (let (xs, gc) = uf_merge_groups cs ms in (m c # xs, gc))"

function UnknownField_MergeFrom :: "unknown_field \<Rightarrow> unknown_field \<Rightarrow> unknown_field"
  and UnknownFieldSet_MergeFrom :: "unknown_field_set \<Rightarrow> unknown_field_set \<Rightarrow> unknown_field_set" where
  "UnknownField_MergeFrom other (UnknownField n i v f32 f64 ld g gc) =
     (let (merged, gc') = uf_merge_groups gc (map UnknownFieldSet_MergeFrom (uf_group other)) in
      UnknownField n i (v @ uf_varint other) (f32 @ uf_fixed32 other) (f64 @ uf_fixed64 other)
        (ld @ uf_length_delimited other) (g @ merged) gc')"
| "UnknownFieldSet_MergeFrom other s =
     fold (\<lambda>f s. ufs_modify (uf_number f) (UnknownField_MergeFrom f)
       (UnknownFieldSet_AddField (uf_number f) s)) (ufs_field_list other) s"
  by pat_completeness auto
termination
  by (relation "measure (\<lambda>x. case x of Inl (f, _) \<Rightarrow> size f | Inr (s, _) \<Rightarrow> size s)")
    (auto dest: size_uf_group size_ufs_field_list)

declare UnknownField_MergeFrom.simps [simp del] UnknownFieldSet_MergeFrom.simps [simp del]

section \<open>Invariant\<close>

text \<open>
  Every object is filed under its number, every active pointer is to an object of the set, and
  \<open>index_\<close> is the place of the object among the active ones, or -1.
\<close>

definition ufs_shape :: "(int \<times> unknown_field) list \<Rightarrow> int list \<Rightarrow> bool" where
  "ufs_shape fs act \<longleftrightarrow>
     distinct (map fst fs) \<and> distinct act \<and> set act \<subseteq> fst ` set fs \<and>
     (\<forall>(k, f) \<in> set fs. uf_number f = k \<and> (k \<notin> set act \<longrightarrow> uf_index f = - 1)) \<and>
     (\<forall>i < length act. uf_index (the (map_of fs (act ! i))) = int i)"

lemma size_uf_group_cleared: "g \<in> set (uf_group_cleared f) \<Longrightarrow> size g < size f"
  by (cases f) (auto dest: size_list_estimation' [where f = size, OF _ order.refl])

function uf_ok :: "unknown_field \<Rightarrow> bool" and ufs_ok :: "unknown_field_set \<Rightarrow> bool" where
  "uf_ok f \<longleftrightarrow> (\<forall>g \<in> set (uf_group f). ufs_ok g) \<and> (\<forall>g \<in> set (uf_group_cleared f). ufs_ok g)"
| "ufs_ok NoInternal \<longleftrightarrow> True"
| "ufs_ok (Internal fs act) \<longleftrightarrow> ufs_shape fs act \<and> (\<forall>(k, f) \<in> set fs. uf_ok f)"
  by pat_completeness auto

termination
  by (relation "measure (\<lambda>x. case x of Inl f \<Rightarrow> size f | Inr s \<Rightarrow> size s)")
    (auto dest: size_uf_group size_ufs_field size_uf_group_cleared)

declare uf_ok.simps [simp del]

lemma map_of_alist_update [simp]: "map_of (alist_update k f fs) = (map_of fs)(k \<mapsto> f)"
  by (induction k f fs rule: alist_update.induct) auto

lemma fst_alist_update [simp]: "fst ` set (alist_update k f fs) = insert k (fst ` set fs)"
  by (induction k f fs rule: alist_update.induct) auto

lemma distinct_alist_update:
  "distinct (map fst fs) \<Longrightarrow> distinct (map fst (alist_update k f fs))"
proof (induction k f fs rule: alist_update.induct)
  case (2 k f j g fs)
  have "fst ` set (alist_update k f fs) = insert k (fst ` set fs)" by simp
  with 2 show ?case by auto
qed simp

text \<open>The invariant in terms of look-ups.\<close>

lemma ufs_shape_lookup:
  "ufs_shape fs act \<longleftrightarrow>
     distinct (map fst fs) \<and> distinct act \<and> set act \<subseteq> dom (map_of fs) \<and>
     (\<forall>k f. map_of fs k = Some f \<longrightarrow> uf_number f = k \<and> (k \<notin> set act \<longrightarrow> uf_index f = - 1)) \<and>
     (\<forall>i < length act. uf_index (the (map_of fs (act ! i))) = int i)"
  unfolding ufs_shape_def by (auto simp: dom_map_of_conv_image_fst)

lemma ufs_ok_lookup:
  "ufs_ok (Internal fs act) \<longleftrightarrow> ufs_shape fs act \<and> (\<forall>k f. map_of fs k = Some f \<longrightarrow> uf_ok f)"
  unfolding ufs_ok.simps ufs_shape_def by auto

lemma ufs_shape_index:
  assumes "ufs_shape fs act" "map_of fs k = Some f"
  shows "uf_index f \<noteq> - 1 \<longleftrightarrow> k \<in> set act"
proof (cases "k \<in> set act")
  case True
  then obtain i where "i < length act" "act ! i = k" by (auto simp: in_set_conv_nth)
  with assms True show ?thesis by (auto simp: ufs_shape_lookup)
qed (use assms in \<open>auto simp: ufs_shape_lookup\<close>)

lemma uf_set_index_simps [simp]:
  "uf_number (UnknownField_set_index i f) = uf_number f" "uf_index (UnknownField_set_index i f) = i"
  "uf_varint (UnknownField_set_index i f) = uf_varint f" "uf_fixed32 (UnknownField_set_index i f) = uf_fixed32 f"
  "uf_fixed64 (UnknownField_set_index i f) = uf_fixed64 f"
  "uf_length_delimited (UnknownField_set_index i f) = uf_length_delimited f"
  "uf_group (UnknownField_set_index i f) = uf_group f"
  "uf_group_cleared (UnknownField_set_index i f) = uf_group_cleared f"
  "uf_ok (UnknownField_set_index i f) = uf_ok f"
  by (cases f; simp add: uf_ok.simps)+

lemma uf_new_simps [simp]:
  "uf_number (UnknownField_new n) = n" "uf_index (UnknownField_new n) = - 1" "uf_ok (UnknownField_new n)"
  "uf_group (UnknownField_new n) = []" "uf_group_cleared (UnknownField_new n) = []"
  by (simp_all add: UnknownField_new_def uf_ok.simps)

lemma ufs_shape_update:
  assumes sh: "ufs_shape fs act" and n: "n \<notin> set act" and f: "uf_number f = n"
  shows "uf_index f = - 1 \<Longrightarrow> ufs_shape (alist_update n f fs) act"
    and "uf_index f = int (length act) \<Longrightarrow> ufs_shape (alist_update n f fs) (act @ [n])"
proof -
  have other: "act ! i \<noteq> n" if "i < length act" for i using n that by auto
  show "uf_index f = - 1 \<Longrightarrow> ufs_shape (alist_update n f fs) act"
    using sh f other unfolding ufs_shape_lookup
    by (auto simp: distinct_alist_update simp del: map_of_eq_Some_iff split: if_splits)
  show "uf_index f = int (length act) \<Longrightarrow> ufs_shape (alist_update n f fs) (act @ [n])"
    using sh f n other unfolding ufs_shape_lookup
    by (auto simp: distinct_alist_update nth_append less_Suc_eq simp del: map_of_eq_Some_iff
        split: if_splits)
qed

lemma in_map_filter: "g \<in> set (List.map_filter m xs) \<longleftrightarrow> (\<exists>k \<in> set xs. m k = Some g)"
  by (induction xs) (auto simp: map_filter_simps split: option.splits)

lemma map_filter_eq: "\<forall>k \<in> set xs. m k = m' k \<Longrightarrow> List.map_filter m xs = List.map_filter m' xs"
  by (induction xs) (simp_all add: map_filter_simps split: option.splits)

lemma ufs_active_numbers:
  assumes sh: "ufs_shape fs act"
  shows "map uf_number (ufs_field_list (Internal fs act)) = act"
proof -
  have n: "\<exists>f. map_of fs k = Some f \<and> uf_number f = k" if "k \<in> set act" for k
    using that sh unfolding ufs_shape_lookup by blast
  have "map uf_number (List.map_filter (map_of fs) act) = act"
    using n
  proof (induction act)
    case (Cons a act)
    from Cons.prems [of a] obtain f where "map_of fs a = Some f" "uf_number f = a" by auto
    with Cons show ?case by (simp add: map_filter_simps)
  qed (simp add: map_filter_simps)
  then show ?thesis by simp
qed

lemma ufs_active_iff:
  "ufs_shape fs act \<Longrightarrow> n \<in> uf_number ` set (ufs_field_list (Internal fs act)) \<longleftrightarrow> n \<in> set act"
  using ufs_active_numbers [of fs act] by (metis list.set_map)

text \<open>The object \<open>AddField\<close> returns, before it is activated.\<close>

definition ufs_object :: "int \<Rightarrow> unknown_field_set \<Rightarrow> unknown_field" where
  "ufs_object n s = (case ufs_get n s of None \<Rightarrow> UnknownField_new n | Some f \<Rightarrow> f)"

lemma AddField_shape:
  assumes "ufs_ok s"
  obtains fs act f where "UnknownFieldSet_AddField n s = Internal fs act" "ufs_ok (Internal fs act)"
    "map_of fs n = Some f" "n \<in> set act" "f = UnknownField_set_index (uf_index f) (ufs_object n s)"
    "\<And>k. k \<noteq> n \<Longrightarrow> map_of fs k = ufs_get k s"
    "n \<notin> uf_number ` set (ufs_field_list s) \<Longrightarrow>
      ufs_field_list (Internal fs act) = ufs_field_list s @ [f]"
    "n \<in> uf_number ` set (ufs_field_list s) \<Longrightarrow> Internal fs act = s"
proof -
  define fs0 act0 where "fs0 = (case s of NoInternal \<Rightarrow> [] | Internal fs act \<Rightarrow> fs)"
    and "act0 = (case s of NoInternal \<Rightarrow> [] | Internal fs act \<Rightarrow> act)"
  have s0: "ufs_ok (Internal fs0 act0)" "ufs_get k s = map_of fs0 k"
    "ufs_field_list s = ufs_field_list (Internal fs0 act0)" "act0 \<noteq> [] \<Longrightarrow> s = Internal fs0 act0" for k
    using assms by (cases s; auto simp: fs0_def act0_def ufs_shape_def)+
  have sh: "ufs_shape fs0 act0" using s0(1) by simp
  define fs1 where "fs1 = (if map_of fs0 n = None then alist_update n (UnknownField_new n) fs0 else fs0)"
  define f0 where "f0 = ufs_object n s"
  have m1: "map_of fs1 = (map_of fs0)(n \<mapsto> f0)"
    by (auto simp: fs1_def f0_def ufs_object_def s0(2) split: option.splits)
  have sh1: "ufs_shape fs1 act0"
  proof (cases "map_of fs0 n")
    case None
    then have "n \<notin> set act0" using sh by (auto simp: ufs_shape_lookup)
    with None ufs_shape_update(1) [OF sh this, of "UnknownField_new n"] show ?thesis by (simp add: fs1_def)
  qed (simp add: fs1_def sh)
  have ok1: "ufs_ok (Internal fs1 act0)"
    using s0(1) sh1
    by (auto simp: ufs_ok_lookup fs1_def simp del: ufs_ok.simps map_of_eq_Some_iff split: if_splits)
  have "map_of fs1 n = Some f0" by (simp add: m1)
  then have f0: "uf_number f0 = n" "uf_ok f0" "uf_index f0 \<noteq> - 1 \<longleftrightarrow> n \<in> set act0"
    using ok1 ufs_shape_index [OF sh1, of n f0] unfolding ufs_ok_lookup ufs_shape_lookup by blast+
  have add: "UnknownFieldSet_AddField n s = (if uf_index f0 = - 1
      then Internal (alist_update n (UnknownField_set_index (int (length act0)) f0) fs1) (act0 @ [n])
      else Internal fs1 act0)"
  proof -
    have "(case s of NoInternal \<Rightarrow> ([], []) | Internal fs act \<Rightarrow> (fs, act)) = (fs0, act0)"
      by (cases s) (simp_all add: fs0_def act0_def)
    then show ?thesis
      unfolding UnknownFieldSet_AddField_def Let_def by (simp add: fs1_def [symmetric] m1)
  qed
  have act_in: "n \<in> uf_number ` set (ufs_field_list s) \<longleftrightarrow> n \<in> set act0"
    using ufs_active_iff [OF sh] by (simp add: s0(3) del: ufs_field_list.simps)
  show thesis
  proof (cases "n \<in> set act0")
    case True
    then have eq: "fs1 = fs0" using sh by (auto simp: fs1_def ufs_shape_lookup)
    have "s = Internal fs0 act0" using True by (intro s0(4)) auto
    moreover have "f0 = UnknownField_set_index (uf_index f0) (ufs_object n s)"
      unfolding f0_def by (cases "ufs_object n s") simp
    moreover have "map_of fs0 n = Some f0" using m1 eq by (metis fun_upd_same)
    ultimately show thesis
      using True f0 add eq ok1 act_in by (intro that [of fs0 act0 f0]) simp_all
  next
    case False
    define f where "f = UnknownField_set_index (int (length act0)) f0"
    define fs where "fs = alist_update n f fs1"
    have m: "map_of fs = (map_of fs0)(n \<mapsto> f)" by (simp add: fs_def m1)
    have sh2: "ufs_shape fs (act0 @ [n])"
      using ufs_shape_update(2) [OF sh1 False, of f] f0(1) by (simp add: fs_def f_def)
    have ok: "ufs_ok (Internal fs (act0 @ [n]))"
    proof -
      have old: "((map_of fs0)(n \<mapsto> f0)) k = Some g \<Longrightarrow> uf_ok g" for k g
        using ok1 unfolding ufs_ok_lookup m1 by blast
      have "uf_ok g" if "map_of fs k = Some g" for k g
      proof (cases "k = n")
        case True
        with that f0(2) show ?thesis by (auto simp: m f_def)
      next
        case False
        with that old [of k g] show ?thesis by (simp add: m)
      qed
      with sh2 show ?thesis unfolding ufs_ok_lookup by blast
    qed
    have "List.map_filter (map_of fs) act0 = List.map_filter (map_of fs0) act0"
      using False by (intro map_filter_eq) (auto simp: m)
    then have "ufs_field_list (Internal fs (act0 @ [n])) = ufs_field_list s @ [f]"
      using s0(3) by (simp add: map_filter_def m)
    moreover have "f = UnknownField_set_index (uf_index f) (ufs_object n s)"
      by (cases f0) (simp add: f_def f0_def [symmetric])
    ultimately show thesis
      using add f0 False ok m s0(2) act_in
      by (intro that [of fs "act0 @ [n]" f]) (simp_all add: f_def [symmetric] fs_def [symmetric])
  qed
qed

lemma ufs_modify_ok:
  assumes s: "ufs_ok s" and u: "\<And>f. ufs_get n s = Some f \<Longrightarrow>
    uf_number (upd f) = uf_number f \<and> uf_index (upd f) = uf_index f \<and> uf_ok (upd f)"
  shows "ufs_ok (ufs_modify n upd s)"
    and "ufs_field_list (ufs_modify n upd s) =
      map (\<lambda>f. if uf_number f = n then upd f else f) (ufs_field_list s)"
proof -
  have "ufs_ok (ufs_modify n upd s) \<and> ufs_field_list (ufs_modify n upd s) =
      map (\<lambda>f. if uf_number f = n then upd f else f) (ufs_field_list s)"
  proof (cases s)
    case (Internal fs act)
    have sh: "ufs_shape fs act" using s Internal by simp
    show ?thesis
    proof (cases "map_of fs n")
      case None
      have "uf_number f \<noteq> n" if "f \<in> set (ufs_field_list s)" for f
        using that None sh
        by (auto simp: Internal map_filter_def ufs_shape_lookup simp del: map_of_eq_Some_iff)
      then have "map (\<lambda>f. if uf_number f = n then upd f else f) (ufs_field_list s) = ufs_field_list s"
        by (intro map_idI) auto
      with None s show ?thesis by (simp add: Internal)
    next
      case (Some f)
      with u have f: "uf_number (upd f) = n" "uf_index (upd f) = uf_index f" "uf_ok (upd f)"
        using sh by (auto simp: Internal ufs_shape_lookup simp del: map_of_eq_Some_iff)
      have "ufs_shape (alist_update n (upd f) fs) act"
        using sh f Some unfolding ufs_shape_lookup
        by (auto simp: distinct_alist_update simp del: map_of_eq_Some_iff split: if_splits)
      then have "ufs_ok (ufs_modify n upd s)"
        using s f Some by (auto simp: Internal ufs_ok_lookup simp del: ufs_ok.simps map_of_eq_Some_iff)
      moreover have nf: "uf_number f = n" using f(1) u Some by (simp add: Internal)
      moreover have "(if uf_number g = n then upd g else g) = the (((map_of fs)(n \<mapsto> upd f)) k)"
        if "map_of fs k = Some g" for k g
        using that Some sh by (auto simp: ufs_shape_lookup simp del: map_of_eq_Some_iff)
      then have "List.map_filter ((map_of fs)(n \<mapsto> upd f)) act =
          map (\<lambda>f. if uf_number f = n then upd f else f) (List.map_filter (map_of fs) act)"
        using Some nf
        by (induction act) (auto simp: map_filter_simps simp del: map_of_eq_Some_iff split: option.splits)
      ultimately show ?thesis using Some by (simp add: Internal)
    qed
  qed simp
  then show "ufs_ok (ufs_modify n upd s)" "ufs_field_list (ufs_modify n upd s) =
      map (\<lambda>f. if uf_number f = n then upd f else f) (ufs_field_list s)" by simp_all
qed

lemma ufs_field_list_numbers:
  assumes "ufs_ok s"
  shows "distinct (map uf_number (ufs_field_list s))"
    and "f \<in> set (ufs_field_list s) \<Longrightarrow> ufs_get (uf_number f) s = Some f \<and> uf_ok f"
proof -
  show "distinct (map uf_number (ufs_field_list s))"
    using assms by (cases s) (simp_all add: ufs_active_numbers ufs_shape_def del: ufs_field_list.simps(2))
  assume "f \<in> set (ufs_field_list s)"
  then obtain fs act k where s: "s = Internal fs act" "map_of fs k = Some f"
    by (cases s) (auto simp: map_filter_def simp del: map_of_eq_Some_iff)
  then have "uf_number f = k" "uf_ok f"
    using assms unfolding s(1) ufs_ok_lookup ufs_shape_lookup by blast+
  with s show "ufs_get (uf_number f) s = Some f \<and> uf_ok f" by simp
qed

section \<open>What a set holds\<close>

datatype unknown_value =
  UnknownValue (uv_number: int) (uv_varint: "uint64 list") (uv_fixed32: "uint32 list")
    (uv_fixed64: "uint64 list") (uv_length_delimited: "bytes list") (uv_group: "unknown_value list list")

function uf_value :: "unknown_field \<Rightarrow> unknown_value" and ufs_value :: "unknown_field_set \<Rightarrow> unknown_value list"
  where
  "uf_value f = UnknownValue (uf_number f) (uf_varint f) (uf_fixed32 f) (uf_fixed64 f)
     (uf_length_delimited f) (map ufs_value (uf_group f))"
| "ufs_value s = map uf_value (ufs_field_list s)"
  by pat_completeness auto
termination
  by (relation "measure (\<lambda>x. case x of Inl f \<Rightarrow> size f | Inr s \<Rightarrow> size s)")
    (auto dest: size_uf_group size_ufs_field_list)

declare uf_value.simps [simp del] ufs_value.simps [simp del]

text \<open>Objects that are kept for reuse hold nothing: what \<open>Clear\<close> is for.\<close>

definition uf_blank :: "unknown_field \<Rightarrow> bool" where
  "uf_blank f \<longleftrightarrow> uf_varint f = [] \<and> uf_fixed32 f = [] \<and> uf_fixed64 f = [] \<and>
     uf_length_delimited f = [] \<and> uf_group f = []"

function uf_clean :: "unknown_field \<Rightarrow> bool" and ufs_clean :: "unknown_field_set \<Rightarrow> bool" where
  "uf_clean f \<longleftrightarrow> (\<forall>g \<in> set (uf_group f). ufs_clean g) \<and>
     (\<forall>g \<in> set (uf_group_cleared f). ufs_clean g \<and> ufs_field_list g = [])"
| "ufs_clean NoInternal \<longleftrightarrow> True"
| "ufs_clean (Internal fs act) \<longleftrightarrow>
     (\<forall>(k, f) \<in> set fs. uf_clean f \<and> (k \<notin> set act \<longrightarrow> uf_blank f))"
  by pat_completeness auto
termination
  by (relation "measure (\<lambda>x. case x of Inl f \<Rightarrow> size f | Inr s \<Rightarrow> size s)")
    (auto dest: size_uf_group size_ufs_field size_uf_group_cleared)

declare uf_clean.simps [simp del]

text \<open>The abstract operation: the entry of a number, new at the end where there is none.\<close>

definition uv_update ::
  "int \<Rightarrow> (unknown_value \<Rightarrow> unknown_value) \<Rightarrow> unknown_value list \<Rightarrow> unknown_value list" where
  "uv_update n upd vs =
     (if n \<in> uv_number ` set vs then map (\<lambda>v. if uv_number v = n then upd v else v) vs
      else vs @ [upd (UnknownValue n [] [] [] [] [])])"

lemma uv_number_value [simp]: "uv_number (uf_value f) = uf_number f"
  by (simp add: uf_value.simps)

lemma ufs_clean_lookup:
  "ufs_ok (Internal fs act) \<Longrightarrow> ufs_clean (Internal fs act) \<longleftrightarrow>
     (\<forall>k f. map_of fs k = Some f \<longrightarrow> uf_clean f \<and> (k \<notin> set act \<longrightarrow> uf_blank f))"
  by (auto simp: ufs_shape_def)

lemma uf_blank_value: "uf_blank f \<Longrightarrow> uf_value f = UnknownValue (uf_number f) [] [] [] [] []"
  by (simp add: uf_blank_def uf_value.simps)

lemma uf_set_index_clean [simp]:
  "uf_clean (UnknownField_set_index i f) = uf_clean f" "uf_value (UnknownField_set_index i f) = uf_value f"
  by (simp_all add: uf_clean.simps uf_value.simps)

lemma ufs_clean_modify:
  assumes s: "ufs_ok s" "ufs_clean s" and u: "\<And>f. ufs_get n s = Some f \<Longrightarrow>
      uf_number (upd f) = uf_number f \<and> uf_index (upd f) = uf_index f \<and> uf_ok (upd f) \<and> uf_clean (upd f)"
    and n: "n \<in> uf_number ` set (ufs_field_list s)"
  shows "ufs_clean (ufs_modify n upd s)"
proof (cases s)
  case (Internal fs act)
  have ok: "ufs_ok (ufs_modify n upd s)" using ufs_modify_ok [OF s(1), of n upd] u by blast
  have sh: "ufs_shape fs act" using s(1) Internal by simp
  obtain f where f: "map_of fs n = Some f" and act: "n \<in> set act"
    using n sh by (auto simp: Internal map_filter_def ufs_shape_lookup simp del: map_of_eq_Some_iff)
  have eq: "ufs_modify n upd s = Internal (alist_update n (upd f) fs) act" using f by (simp add: Internal)
  have "uf_clean (upd f)" using u f by (simp add: Internal)
  then show ?thesis
    using s(2) act unfolding eq ufs_clean_lookup [OF ok [unfolded eq]]
    by (simp add: Internal ufs_clean_lookup [OF s(1) [unfolded Internal]] del: map_of_eq_Some_iff ufs_clean.simps)
qed simp

lemma AddField_clean:
  assumes s: "ufs_ok s" "ufs_clean s"
  obtains f where "ufs_ok (UnknownFieldSet_AddField n s)" "ufs_clean (UnknownFieldSet_AddField n s)"
    and "ufs_get n (UnknownFieldSet_AddField n s) = Some f" "uf_number f = n" "uf_clean f" "uf_ok f"
    and "n \<in> uf_number ` set (ufs_field_list (UnknownFieldSet_AddField n s))"
    and "ufs_value (UnknownFieldSet_AddField n s) = uv_update n id (ufs_value s)"
proof -
  obtain fs act f where a: "UnknownFieldSet_AddField n s = Internal fs act" "ufs_ok (Internal fs act)"
    "map_of fs n = Some f" "n \<in> set act" "f = UnknownField_set_index (uf_index f) (ufs_object n s)"
    "\<And>k. k \<noteq> n \<Longrightarrow> map_of fs k = ufs_get k s"
    "n \<notin> uf_number ` set (ufs_field_list s) \<Longrightarrow> ufs_field_list (Internal fs act) = ufs_field_list s @ [f]"
    "n \<in> uf_number ` set (ufs_field_list s) \<Longrightarrow> Internal fs act = s"
    using AddField_shape [OF s(1)] by metis
  have nf: "uf_number f = n" "uf_ok f"
    using a(2,3) by (auto simp: ufs_ok_lookup ufs_shape_lookup simp del: ufs_ok.simps map_of_eq_Some_iff)
  have inl: "n \<in> uf_number ` set (ufs_field_list (Internal fs act))"
    using a(7,8) nf by (cases "n \<in> uf_number ` set (ufs_field_list s)") auto
  show thesis
  proof (cases "n \<in> uf_number ` set (ufs_field_list s)")
    case True
    note eq = a(8) [OF True]
    have "uf_clean f"
      using s a(3) eq ufs_clean_lookup [OF a(2)] by (auto simp del: map_of_eq_Some_iff ufs_clean.simps)
    moreover have "uv_update n id (ufs_value s) = ufs_value s"
      using True by (auto simp: uv_update_def ufs_value.simps image_image intro!: map_idI)
    moreover have "ufs_get n s = Some f" unfolding eq [symmetric] by (simp add: a(3))
    ultimately show thesis
      using a(1) s nf True eq by (intro that [of f]) simp_all
  next
    case False
    have obj: "uf_clean (ufs_object n s) \<and> uf_blank (ufs_object n s)"
    proof (cases "ufs_get n s")
      case None
      then show ?thesis by (simp add: ufs_object_def uf_clean.simps uf_blank_def UnknownField_new_def)
    next
      case (Some g)
      then obtain fs0 act0 where s0: "s = Internal fs0 act0" "map_of fs0 n = Some g" by (cases s) auto
      have "n \<notin> set act0"
        using False s(1) ufs_active_iff [of fs0 act0 n] by (simp add: s0(1) del: ufs_field_list.simps)
      with s s0 Some show ?thesis
        using ufs_clean_lookup [of fs0 act0] by (simp add: ufs_object_def del: map_of_eq_Some_iff ufs_clean.simps)
    qed
    then have f: "uf_clean f" "uf_value f = UnknownValue n [] [] [] [] []"
      using a(5) nf uf_blank_value [of "ufs_object n s"]
      by (metis uf_set_index_clean(1), metis uf_set_index_clean(2) uf_set_index_simps(1))
    have "ufs_clean (Internal fs act)"
    proof -
      have "uf_clean g \<and> (k \<notin> set act \<longrightarrow> uf_blank g)" if g: "map_of fs k = Some g" for k g
      proof (cases "k = n")
        case True
        with g a(3,4) f show ?thesis by simp
      next
        case kn: False
        with g a(6) obtain fs0 act0 where s0: "s = Internal fs0 act0" "map_of fs0 k = Some g" by (cases s) auto
        have "k \<in> set act0 \<Longrightarrow> k \<in> set act"
        proof -
          assume "k \<in> set act0"
          then have "g \<in> set (ufs_field_list s)"
            using s0 by (auto simp: in_map_filter simp del: map_of_eq_Some_iff)
          then have "g \<in> set (ufs_field_list (Internal fs act))" using a(7) False by simp
          then obtain j where "j \<in> set act" "map_of fs j = Some g"
            by (auto simp: in_map_filter simp del: map_of_eq_Some_iff)
          moreover have "j = k"
            using a(2) g \<open>map_of fs j = Some g\<close> unfolding ufs_ok_lookup ufs_shape_lookup by metis
          ultimately show "k \<in> set act" by simp
        qed
        with s s0 show ?thesis
          using ufs_clean_lookup [of fs0 act0] by (auto simp del: map_of_eq_Some_iff ufs_clean.simps)
      qed
      then show ?thesis using ufs_clean_lookup [OF a(2)] by blast
    qed
    moreover have "ufs_value (Internal fs act) = uv_update n id (ufs_value s)"
      using False a(7) f(2) by (simp add: uv_update_def ufs_value.simps image_image)
    ultimately show thesis using a f nf inl by (intro that [of f]) simp_all
  qed
qed

lemma uv_update_id: "uv_update n upd (uv_update n id vs) = uv_update n upd vs"
proof (cases "n \<in> uv_number ` set vs")
  case True
  then have "map (\<lambda>v. if uv_number v = n then id v else v) vs = vs" by (intro map_idI) auto
  with True show ?thesis by (simp add: uv_update_def)
next
  case False
  then have "map (\<lambda>v. if uv_number v = n then upd v else v) vs = vs" by (intro map_idI) auto
  with False show ?thesis by (simp add: uv_update_def)
qed

text \<open>\<open>AddField(number)->\<dots>\<close>: the refinement of the abstract operation.\<close>

lemma AddField_modify:
  assumes s: "ufs_ok s" "ufs_clean s" and u: "\<And>f. uf_ok f \<Longrightarrow> uf_clean f \<Longrightarrow> uf_number f = n \<Longrightarrow>
      uf_number (upd f) = uf_number f \<and> uf_index (upd f) = uf_index f \<and> uf_ok (upd f) \<and>
      uf_clean (upd f) \<and> uf_value (upd f) = updv (uf_value f)"
  shows "ufs_ok (ufs_modify n upd (UnknownFieldSet_AddField n s))"
    and "ufs_clean (ufs_modify n upd (UnknownFieldSet_AddField n s))"
    and "ufs_value (ufs_modify n upd (UnknownFieldSet_AddField n s)) = uv_update n updv (ufs_value s)"
proof -
  let ?a = "UnknownFieldSet_AddField n s"
  obtain f where a: "ufs_ok ?a" "ufs_clean ?a" "ufs_get n ?a = Some f" "uf_number f = n" "uf_clean f" "uf_ok f"
    "n \<in> uf_number ` set (ufs_field_list ?a)" "ufs_value ?a = uv_update n id (ufs_value s)"
    using AddField_clean [OF s] by metis
  have uf: "\<And>g. ufs_get n ?a = Some g \<Longrightarrow> uf_number (upd g) = uf_number g \<and> uf_index (upd g) = uf_index g \<and>
      uf_ok (upd g) \<and> uf_clean (upd g) \<and> uf_value (upd g) = updv (uf_value g)"
    using a u by auto
  note m = ufs_modify_ok [OF a(1), of n upd]
  show "ufs_ok (ufs_modify n upd ?a)" using m(1) uf by blast
  show "ufs_clean (ufs_modify n upd ?a)" using ufs_clean_modify [OF a(1,2) _ a(7), of upd] uf by blast
  have "ufs_value (ufs_modify n upd ?a) = map (\<lambda>g. if uf_number g = n then updv (uf_value g) else uf_value g) (ufs_field_list ?a)"
    using m(2) uf ufs_field_list_numbers(2) [OF a(1)] by (auto simp: ufs_value.simps)
  also have "\<dots> = uv_update n updv (ufs_value ?a)"
    using a(7) by (auto simp: uv_update_def ufs_value.simps image_image)
  finally show "ufs_value (ufs_modify n upd ?a) = uv_update n updv (ufs_value s)"
    by (simp add: a(8) uv_update_id)
qed

section \<open>Adding values\<close>

lemma uf_add_values:
  assumes "uf_ok f" "uf_clean f"
  shows "uf_number (UnknownField_add_varint x f) = uf_number f \<and>
      uf_index (UnknownField_add_varint x f) = uf_index f \<and> uf_ok (UnknownField_add_varint x f) \<and>
      uf_clean (UnknownField_add_varint x f) \<and> uf_value (UnknownField_add_varint x f) =
        UnknownValue (uf_number f) (uf_varint f @ [x]) (uf_fixed32 f) (uf_fixed64 f)
          (uf_length_delimited f) (map ufs_value (uf_group f))"
    and "uf_number (UnknownField_add_fixed32 y f) = uf_number f \<and>
      uf_index (UnknownField_add_fixed32 y f) = uf_index f \<and> uf_ok (UnknownField_add_fixed32 y f) \<and>
      uf_clean (UnknownField_add_fixed32 y f) \<and> uf_value (UnknownField_add_fixed32 y f) =
        UnknownValue (uf_number f) (uf_varint f) (uf_fixed32 f @ [y]) (uf_fixed64 f)
          (uf_length_delimited f) (map ufs_value (uf_group f))"
    and "uf_number (UnknownField_add_fixed64 x f) = uf_number f \<and>
      uf_index (UnknownField_add_fixed64 x f) = uf_index f \<and> uf_ok (UnknownField_add_fixed64 x f) \<and>
      uf_clean (UnknownField_add_fixed64 x f) \<and> uf_value (UnknownField_add_fixed64 x f) =
        UnknownValue (uf_number f) (uf_varint f) (uf_fixed32 f) (uf_fixed64 f @ [x])
          (uf_length_delimited f) (map ufs_value (uf_group f))"
    and "uf_number (UnknownField_add_length_delimited d f) = uf_number f \<and>
      uf_index (UnknownField_add_length_delimited d f) = uf_index f \<and>
      uf_ok (UnknownField_add_length_delimited d f) \<and>
      uf_clean (UnknownField_add_length_delimited d f) \<and> uf_value (UnknownField_add_length_delimited d f) =
        UnknownValue (uf_number f) (uf_varint f) (uf_fixed32 f) (uf_fixed64 f)
          (uf_length_delimited f @ [d]) (map ufs_value (uf_group f))"
  using assms by (cases f; simp add: uf_ok.simps uf_clean.simps uf_value.simps)+

text \<open>A group that was added and then filled.\<close>

lemma uf_add_group:
  assumes "uf_ok f" "uf_clean f" "UnknownField_add_group f = (g0, f')"
  shows "ufs_ok g0" "ufs_clean g0" "ufs_value g0 = []"
    and "ufs_ok g \<Longrightarrow> ufs_clean g \<Longrightarrow>
      uf_number (uf_set_last_group g f') = uf_number f \<and> uf_index (uf_set_last_group g f') = uf_index f \<and>
      uf_ok (uf_set_last_group g f') \<and> uf_clean (uf_set_last_group g f') \<and>
      uf_value (uf_set_last_group g f') =
        UnknownValue (uf_number f) (uf_varint f) (uf_fixed32 f) (uf_fixed64 f)
          (uf_length_delimited f) (map ufs_value (uf_group f) @ [ufs_value g])"
  using assms
  by (cases f rule: UnknownField_add_group.cases;
      auto simp: uf_ok.simps uf_clean.simps uf_value.simps ufs_value.simps)+

section \<open>Clear\<close>

lemma UnknownField_Clear_simps [simp]:
  "uf_number (UnknownField_Clear f) = uf_number f" "uf_varint (UnknownField_Clear f) = []"
  "uf_fixed32 (UnknownField_Clear f) = uf_fixed32 f" "uf_fixed64 (UnknownField_Clear f) = uf_fixed64 f"
  "uf_length_delimited (UnknownField_Clear f) = []" "uf_group (UnknownField_Clear f) = []"
  "uf_group_cleared (UnknownField_Clear f) = map UnknownFieldSet_Clear (uf_group f) @ uf_group_cleared f"
  by (cases f; simp add: UnknownField_Clear.simps)+

lemma Clear_lookup:
  "map_of (map (\<lambda>(k, f). (k, if k \<in> set act then UnknownField_set_index (- 1) (UnknownField_Clear f) else f)) fs) k =
     map_option (\<lambda>f. if k \<in> set act then UnknownField_set_index (- 1) (UnknownField_Clear f) else f) (map_of fs k)"
  by (induction fs) auto

lemma Clear_ok:
  "uf_ok f \<Longrightarrow> uf_ok (UnknownField_Clear f)"
  "ufs_ok s \<Longrightarrow> ufs_ok (UnknownFieldSet_Clear s) \<and> ufs_field_list (UnknownFieldSet_Clear s) = []"
proof (induction f and s rule: UnknownField_Clear_UnknownFieldSet_Clear.induct)
  case (1 f)
  then show ?case by (auto simp: uf_ok.simps [of "UnknownField_Clear f"] uf_ok.simps [of f])
next
  case 2
  show ?case by (simp add: UnknownFieldSet_Clear.simps)
next
  case (3 fs act)
  show ?case
  proof (cases "length fs > kMaxInactiveFields")
    case True
    then show ?thesis by (simp add: UnknownFieldSet_Clear.simps ufs_shape_def map_filter_simps)
  next
    case False
    let ?h = "\<lambda>(k, f). (k, if k \<in> set act then UnknownField_set_index (- 1) (UnknownField_Clear f) else f)"
    have keys: "map fst (map ?h fs) = map fst fs" by (induction fs) auto
    have "ufs_shape (map ?h fs) []"
      using "3.prems" unfolding ufs_ok.simps ufs_shape_def keys by (auto split: if_splits)
    moreover have "\<forall>(k, f) \<in> set (map ?h fs). uf_ok f"
      using "3.IH" [OF False] "3.prems" by (fastforce split: if_splits)
    ultimately show ?thesis using False by (simp add: UnknownFieldSet_Clear.simps map_filter_simps)
  qed
qed

text \<open>
  \<open>clear_fixed32\<close> and \<open>clear_fixed64\<close> clear \<open>varint_\<close>: an object keeps its fixed
  values, and \<open>AddField\<close> brings them back.
\<close>

lemma Clear_keeps_fixed:
  assumes "\<not> length fs > kMaxInactiveFields" "map_of fs n = Some f" "n \<in> set act" "distinct (map fst fs)"
  shows "\<exists>g. ufs_get n (UnknownFieldSet_AddField n (UnknownFieldSet_Clear (Internal fs act))) = Some g \<and>
    uf_fixed32 g = uf_fixed32 f \<and> uf_fixed64 g = uf_fixed64 f \<and> uf_varint g = [] \<and>
    uf_length_delimited g = [] \<and> uf_group g = []"
  using assms
  by (simp add: UnknownFieldSet_Clear.simps UnknownFieldSet_AddField_def Clear_lookup Let_def
      del: map_of_eq_Some_iff)

text \<open>Without fixed values, \<open>Clear\<close> leaves only blank objects.\<close>

function uf_no_fixed :: "unknown_field \<Rightarrow> bool" and ufs_no_fixed :: "unknown_field_set \<Rightarrow> bool" where
  "uf_no_fixed f \<longleftrightarrow> uf_fixed32 f = [] \<and> uf_fixed64 f = [] \<and> (\<forall>g \<in> set (uf_group f). ufs_no_fixed g)"
| "ufs_no_fixed NoInternal \<longleftrightarrow> True"
| "ufs_no_fixed (Internal fs act) \<longleftrightarrow> (\<forall>(k, f) \<in> set fs. k \<in> set act \<longrightarrow> uf_no_fixed f)"
  by pat_completeness auto
termination
  by (relation "measure (\<lambda>x. case x of Inl f \<Rightarrow> size f | Inr s \<Rightarrow> size s)")
    (auto dest: size_uf_group size_ufs_field)

declare uf_no_fixed.simps [simp del]

lemma Clear_clean:
  "uf_ok f \<Longrightarrow> uf_clean f \<Longrightarrow> uf_no_fixed f \<Longrightarrow> uf_clean (UnknownField_Clear f) \<and> uf_blank (UnknownField_Clear f)"
  "ufs_ok s \<Longrightarrow> ufs_clean s \<Longrightarrow> ufs_no_fixed s \<Longrightarrow> ufs_clean (UnknownFieldSet_Clear s)"
proof (induction f and s rule: UnknownField_Clear_UnknownFieldSet_Clear.induct)
  case (1 f)
  have "ufs_field_list (UnknownFieldSet_Clear g) = []" if "g \<in> set (uf_group f)" for g
    using that "1.prems"(1) Clear_ok(2) [of g] by (simp add: uf_ok.simps)
  with 1 show ?case
    by (auto simp: uf_clean.simps [of "UnknownField_Clear f"] uf_clean.simps [of f] uf_blank_def
        uf_no_fixed.simps [of f] uf_ok.simps [of f])
next
  case 2
  show ?case by (simp add: UnknownFieldSet_Clear.simps)
next
  case (3 fs act)
  show ?case
  proof (cases "length fs > kMaxInactiveFields")
    case False
    have "uf_clean (if k \<in> set act then UnknownField_set_index (- 1) (UnknownField_Clear f) else f) \<and>
      uf_blank (if k \<in> set act then UnknownField_set_index (- 1) (UnknownField_Clear f) else f)"
      if "(k, f) \<in> set fs" for k f
      using "3.IH" [OF False that] "3.prems" that by (fastforce simp: uf_blank_def)
    with False show ?thesis by (fastforce simp: UnknownFieldSet_Clear.simps)
  qed (simp add: UnknownFieldSet_Clear.simps)
qed

end
