(* ===== verification/Varint.thy ===== *)
theory Varint
  imports ProtoPrelude
begin

text \<open>
  The varint format, as a specification for the readers and writers of
  \<open>io/coded_stream.cc\<close>: seven bits a byte, least significant group first, the high bit set on
  every byte but the last, ten bytes at most. The operations of the C++ are in
  \<open>CodedInput\<close> and \<open>CodedOutput\<close>; this theory holds what they are compared with, and the
  facts on words both sides use.
\<close>

unbundle bit_operations_syntax

section \<open>Bits of a byte\<close>

definition continues :: "byte \<Rightarrow> bool" where
  "continues b \<longleftrightarrow> b AND 0x80 \<noteq> 0"

lemma and_7F_mod: "unat ((b :: byte) AND 0x7F) = unat b mod 128"
proof -
  have "b AND 0x7F = take_bit 7 b"
    by (simp add: take_bit_eq_mask mask_eq_exp_minus_1)
  then show ?thesis by (simp add: take_bit_eq_mod unat_mod_distrib)
qed

lemma continues_iff: "continues b \<longleftrightarrow> 128 \<le> unat b"
proof -
  have "b AND 0x80 = 0 \<longleftrightarrow> \<not> bit b 7"
    using and_exp_eq_0_iff_not_bit [of b 7] by simp
  also have "bit b 7 \<longleftrightarrow> bit (unat b) 7"
    by (simp add: bit_unsigned_iff)
  also have "bit (unat b) 7 \<longleftrightarrow> 128 \<le> unat b"
  proof -
    have "unat b < 256" using unsigned_less [of b, where ?'a = nat] by simp
    then have "unat b div 128 = (if 128 \<le> unat b then 1 else 0)"
      by (auto intro: div_nat_eqI)
    then show ?thesis by (simp add: bit_iff_odd)
  qed
  finally show ?thesis by (auto simp: continues_def)
qed


lemma more_not_less: "\<not> continues b \<longleftrightarrow> b < 0x80"
  by (auto simp: continues_iff word_less_nat_alt)

lemma and_7F_small: "\<not> continues b \<Longrightarrow> b AND 0x7F = b"
  by (simp add: word_unat_eq_iff and_7F_mod continues_iff)

section \<open>Decoding\<close>

text \<open>The first varint of \<open>bs\<close>, if it ends within \<open>n\<close> bytes, and what follows it.\<close>

fun varint_split :: "nat \<Rightarrow> bytes \<Rightarrow> (bytes \<times> bytes) option" where
  "varint_split 0 bs = None"
| "varint_split (Suc n) [] = None"
| "varint_split (Suc n) (b # bs) =
     (if continues b then map_option (\<lambda>(v, r). (b # v, r)) (varint_split n bs) else Some ([b], bs))"

fun varint_nat :: "bytes \<Rightarrow> nat" where
  "varint_nat [] = 0"
| "varint_nat (b # bs) = unat (b AND 0x7F) + 128 * varint_nat bs"

definition parse_varint :: "bytes \<Rightarrow> (nat \<times> bytes) option" where
  "parse_varint bs = map_option (\<lambda>(v, r). (varint_nat v, r)) (varint_split 10 bs)"

lemma varint_split_append:
  "varint_split n bs = Some (v, r) \<Longrightarrow> bs = v @ r \<and> v \<noteq> [] \<and> length v \<le> n"
  by (induction n bs arbitrary: v rule: varint_split.induct) (auto split: if_splits)

lemma varint_split_more:
  "varint_split n bs = Some (v, r) \<Longrightarrow> varint_split n (bs @ x) = Some (v, r @ x)"
  by (induction n bs arbitrary: v rule: varint_split.induct) (auto split: if_splits)

lemma varint_split_mono:
  "varint_split n bs = Some (v, r) \<Longrightarrow> n \<le> m \<Longrightarrow> varint_split m bs = Some (v, r)"
proof (induction n bs arbitrary: v m rule: varint_split.induct)
  case (3 n b bs)
  from "3.prems"(2) obtain k where m: "m = Suc k" "n \<le> k" by (cases m) auto
  show ?case
  proof (cases "continues b")
    case True
    with "3.prems"(1) obtain w where "varint_split n bs = Some (w, r)" "v = b # w" by auto
    with "3.IH" [OF True this(1) m(2)] True m show ?thesis by simp
  next
    case False
    with "3.prems"(1) m show ?thesis by simp
  qed
qed simp_all

lemma varint_nat_bound: "varint_nat v < 128 ^ length v"
proof (induction v)
  case (Cons b v)
  have "unat (b AND 0x7F) < 128" by (simp add: and_7F_mod)
  with Cons show ?case by simp
qed simp

text \<open>A last byte without the continuation bit ends some varint of the block.\<close>

lemma varint_split_terminated:
  "bs \<noteq> [] \<Longrightarrow> \<not> continues (last bs) \<Longrightarrow> length bs \<le> n \<Longrightarrow> \<exists>v r. varint_split n bs = Some (v, r)"
proof (induction n bs rule: varint_split.induct)
  case (3 n b bs)
  then show ?case by (cases bs) auto
qed simp_all

section \<open>Encoding\<close>

fun varint_bytes :: "nat \<Rightarrow> bytes" where
  "varint_bytes n =
     (if n < 128 then [of_nat n] else of_nat (n mod 128 + 128) # varint_bytes (n div 128))"

declare varint_bytes.simps [simp del]

lemma varint_bytes_nonempty [simp]: "varint_bytes n \<noteq> []"
  by (subst varint_bytes.simps) simp

lemma unat_byte: "n < 256 \<Longrightarrow> unat (of_nat n :: byte) = n"
  by (simp add: unat_of_nat)

lemma length_varint_bytes: "n < 128 ^ k \<Longrightarrow> 0 < k \<Longrightarrow> length (varint_bytes n) \<le> k"
proof (induction n arbitrary: k rule: varint_bytes.induct)
  case (1 n)
  show ?case
  proof (cases "n < 128")
    case True
    with "1.prems" show ?thesis by (subst varint_bytes.simps) simp
  next
    case False
    from "1.prems" obtain j where j: "k = Suc j" by (cases k) auto
    with False "1.prems" have k: "k = Suc j" "0 < j" by (cases j; auto)+
    with "1.prems" have "n div 128 < 128 ^ j" by (simp add: less_mult_imp_div_less mult.commute)
    from "1.IH" [OF False this k(2)] False k show ?thesis by (subst varint_bytes.simps) simp
  qed
qed

lemma length_varint_bytes_ge: "128 ^ k \<le> n \<Longrightarrow> k < length (varint_bytes n)"
proof (induction n arbitrary: k rule: varint_bytes.induct)
  case (1 n)
  show ?case
  proof (cases k)
    case 0
    then show ?thesis by (simp add: gr0_conv_Suc length_greater_0_conv [unfolded gr0_conv_Suc])
  next
    case (Suc j)
    moreover have "(1::nat) \<le> 128 ^ j" by simp
    ultimately have big: "\<not> n < 128" using "1.prems" by (simp only: power_Suc)
    from Suc "1.prems" have "128 ^ j \<le> n div 128"
      by (simp add: less_eq_div_iff_mult_less_eq mult.commute)
    from "1.IH" [OF big this] big Suc show ?thesis by (subst varint_bytes.simps) simp
  qed
qed

lemma varint_split_bytes:
  "length (varint_bytes n) \<le> k \<Longrightarrow> varint_split k (varint_bytes n @ r) = Some (varint_bytes n, r)"
proof (induction n arbitrary: k rule: varint_bytes.induct)
  case (1 n)
  from "1.prems" obtain j where k: "k = Suc j" by (cases k) auto
  show ?case
  proof (cases "n < 128")
    case True
    with k show ?thesis by (simp add: continues_iff unat_byte varint_bytes.simps [of n])
  next
    case False
    have "n mod 128 < 128" by simp
    then have m: "continues (of_nat (n mod 128 + 128))" by (simp only: continues_iff unat_byte)
    from "1.prems" False k have "length (varint_bytes (n div 128)) \<le> j"
      by (simp add: varint_bytes.simps [of n])
    from "1.IH" [OF False this] False k m show ?thesis
      by (simp add: varint_bytes.simps [of n])
  qed
qed

lemma varint_nat_bytes [simp]: "varint_nat (varint_bytes n) = n"
proof (induction n rule: varint_bytes.induct)
  case (1 n)
  show ?case
  proof (cases "n < 128")
    case True
    then show ?thesis by (subst varint_bytes.simps) (simp add: and_7F_mod unat_byte)
  next
    case False
    have "unat (of_nat (n mod 128 + 128) :: byte) = n mod 128 + 128"
      by (rule unat_byte) (use mod_less_divisor [of 128 n] in linarith)
    then have "unat ((of_nat (n mod 128 + 128) :: byte) AND 0x7F) = n mod 128"
      by (simp only: and_7F_mod) simp
    with "1.IH" [OF False] False show ?thesis by (subst varint_bytes.simps) simp
  qed
qed

lemma parse_varint_bytes:
  assumes "n < 2 ^ 64"
  shows "parse_varint (varint_bytes n @ r) = Some (n, r)"
proof -
  have "n < 128 ^ 10" using assms by simp
  then have "length (varint_bytes n) \<le> 10" by (rule length_varint_bytes) simp
  then show ?thesis by (simp add: parse_varint_def varint_split_bytes)
qed

section \<open>Words from disjoint pieces\<close>

lemma or_push_bit_add:
  fixes x y :: "'a::len word"
  assumes "unat x < 2 ^ n"
  shows "x OR push_bit n y = x + push_bit n y"
proof -
  have x: "x = take_bit n x"
    using assms by (simp add: word_unat_eq_iff unsigned_take_bit_eq take_bit_nat_eq_self)
  have b: "bit x i \<Longrightarrow> i < n" for i
    by (subst (asm) x) (simp add: bit_take_bit_iff)
  then have "x AND push_bit n y = 0"
    by (intro bit_word_eqI) (auto simp: bit_and_iff bit_push_bit_iff dest: b)
  then show ?thesis by (simp add: disjunctive_add_eq_or)
qed

lemma of_nat_or_push_bit:
  assumes "a < 2 ^ n"
  shows "(of_nat a :: 'a::len word) OR push_bit n (of_nat b) = of_nat (a + 2 ^ n * b)"
proof -
  have "unat (of_nat a :: 'a word) \<le> a" by (simp add: unat_of_nat)
  with assms have "unat (of_nat a :: 'a word) < 2 ^ n" by linarith
  from or_push_bit_add [OF this, of "of_nat b"] show ?thesis
    by (simp add: push_bit_eq_mult mult.commute)
qed

lemma ucast_of_nat_unat: "(ucast (w :: 'b::len word) :: 'a::len word) = of_nat (unat w)"
  by simp

lemma unat_byte_less [simp]: "unat (b :: byte) < 256"
  using unsigned_less [of b, where ?'a = nat] by simp

lemma unat_ucast_byte [simp]: "unat (ucast (b :: byte) :: uint32) = unat b"
proof -
  have "unat b < 2 ^ 32" using unat_byte_less [of b] by (rule order.strict_trans) simp
  then show ?thesis by (simp add: unsigned_ucast_eq take_bit_nat_eq_self)
qed

text \<open>A value with its continuation bit, narrowed to a byte.\<close>

lemma of_nat_or_80: "(of_nat n :: byte) OR 0x80 = of_nat (n mod 128 + 128)"
proof -
  have "n mod 128 < 2 ^ 7" by simp
  from of_nat_or_push_bit [OF this, of 1, where ?'a = 8]
  have "(of_nat (n mod 128 + 128) :: byte) = of_nat (n mod 128) OR 0x80" by simp
  also have "\<dots> = of_nat n OR 0x80"
  proof (rule bit_word_eqI)
    fix i :: nat assume i: "i < LENGTH(8)"
    have "bit (0x80 :: byte) 7" by (simp add: bit_numeral_rec)
    moreover have "n mod 128 = take_bit 7 n" by (simp add: take_bit_eq_mod)
    ultimately show "bit ((of_nat (n mod 128) :: byte) OR 0x80) i = bit ((of_nat n :: byte) OR 0x80) i"
      using i by (cases "i = 7") (auto simp: bit_or_iff bit_of_nat_iff bit_take_bit_iff)
  qed
  finally show ?thesis by simp
qed

lemma ucast_or_80:
  "(ucast ((x :: uint32) OR 0x80) :: byte) = of_nat (unat x mod 128 + 128)"
  "(ucast ((y :: uint64) OR 0x80) :: byte) = of_nat (unat y mod 128 + 128)"
proof -
  have "(ucast (x OR 0x80) :: byte) = ucast x OR 0x80" by (simp add: unsigned_or_eq)
  then show "(ucast (x OR 0x80) :: byte) = of_nat (unat x mod 128 + 128)"
    using of_nat_or_80 [of "unat x"] by (simp only: ucast_of_nat_unat [of x])
  have "(ucast (y OR 0x80) :: byte) = ucast y OR 0x80" by (simp add: unsigned_or_eq)
  then show "(ucast (y OR 0x80) :: byte) = of_nat (unat y mod 128 + 128)"
    using of_nat_or_80 [of "unat y"] by (simp only: ucast_of_nat_unat [of y])
qed

lemma unat_drop_bit_div: "unat (drop_bit k (w :: 'a::len word)) = unat w div 2 ^ k"
  using drop_bit_eq_div [of k "unat w"] by (simp only: unat_drop_bit_eq)

lemma ucast_drop_7: "(ucast (drop_bit 7 (x :: 'a::len word)) :: byte) = of_nat (unat x div 128)"
proof -
  have "unat (drop_bit 7 x) = unat x div 128" using unat_drop_bit_div [of 7 x] by simp
  then show ?thesis by (simp only: ucast_of_nat_unat)
qed

section \<open>Little-endian integers\<close>

fun le_nat :: "bytes \<Rightarrow> nat" where
  "le_nat [] = 0"
| "le_nat (b # bs) = unat b + 256 * le_nat bs"

primrec le_bytes :: "nat \<Rightarrow> nat \<Rightarrow> bytes" where
  "le_bytes 0 n = []"
| "le_bytes (Suc k) n = of_nat n # le_bytes k (n div 256)"

lemma length_le_bytes [simp]: "length (le_bytes k n) = k"
  by (induction k arbitrary: n) simp_all

lemma le_nat_bytes: "n < 256 ^ k \<Longrightarrow> le_nat (le_bytes k n) = n"
proof (induction k arbitrary: n)
  case (Suc k)
  from Suc.prems have "n div 256 < 256 ^ k" by (simp add: less_mult_imp_div_less mult.commute)
  with Suc.IH [of "n div 256"] show ?case by (simp add: unat_of_nat)
qed simp

lemma le_nat_bound: "le_nat bs < 256 ^ length bs"
proof (induction bs)
  case (Cons b bs)
  have "unat b < 256" by (rule unat_byte_less)
  moreover have "256 * le_nat bs + 256 \<le> 256 * 256 ^ length bs" using Cons by simp
  ultimately show ?case by (simp del: unat_byte_less)
qed simp

lemma le_nat_append: "le_nat (xs @ ys) = le_nat xs + 256 ^ length xs * le_nat ys"
  by (induction xs) (simp_all add: algebra_simps)

end
