(* ===== verification/WireTags.thy ===== *)
theory WireTags
  imports Varint
begin

text \<open>
  Tags and the ZigZag transform (\<open>wire_format.h\<close>, inline part; the table of wire types of
  \<open>wire_format.cc\<close>). An \<open>int32\<close> whose bits are shifted is a \<open>32 word\<close> read by
  \<open>sint\<close>.
\<close>

unbundle bit_operations_syntax

section \<open>Wire types\<close>

text \<open>An enumerator, or a value no enumerator has, which \<open>static_cast\<close> may produce.\<close>

datatype wire_type =
  WIRETYPE_VARINT
| WIRETYPE_FIXED64
| WIRETYPE_LENGTH_DELIMITED
| WIRETYPE_START_GROUP
| WIRETYPE_END_GROUP
| WIRETYPE_FIXED32
| WIRETYPE_OTHER uint32

fun wire_type_value :: "wire_type \<Rightarrow> uint32" where
  "wire_type_value WIRETYPE_VARINT = 0"
| "wire_type_value WIRETYPE_FIXED64 = 1"
| "wire_type_value WIRETYPE_LENGTH_DELIMITED = 2"
| "wire_type_value WIRETYPE_START_GROUP = 3"
| "wire_type_value WIRETYPE_END_GROUP = 4"
| "wire_type_value WIRETYPE_FIXED32 = 5"
| "wire_type_value (WIRETYPE_OTHER n) = n"

definition to_wire_type :: "uint32 \<Rightarrow> wire_type" where
  "to_wire_type n =
     (if n = 0 then WIRETYPE_VARINT else if n = 1 then WIRETYPE_FIXED64
      else if n = 2 then WIRETYPE_LENGTH_DELIMITED else if n = 3 then WIRETYPE_START_GROUP
      else if n = 4 then WIRETYPE_END_GROUP else if n = 5 then WIRETYPE_FIXED32
      else WIRETYPE_OTHER n)"

definition kTagTypeBits :: nat where
  "kTagTypeBits = 3"

definition kTagTypeMask :: uint32 where
  "kTagTypeMask = push_bit kTagTypeBits 1 - 1"

definition MakeTag :: "int \<Rightarrow> wire_type \<Rightarrow> uint32" where
  "MakeTag field_number t = push_bit kTagTypeBits (of_int field_number) OR wire_type_value t"

definition GetTagWireType :: "uint32 \<Rightarrow> wire_type" where
  "GetTagWireType tag = to_wire_type (tag AND kTagTypeMask)"

definition GetTagFieldNumber :: "uint32 \<Rightarrow> int" where
  "GetTagFieldNumber tag = uint (drop_bit kTagTypeBits tag)"

text \<open>The field types in the order of \<open>FieldDescriptor::Type\<close>, and their wire types.\<close>

datatype field_type =
  TYPE_DOUBLE | TYPE_FLOAT | TYPE_INT64 | TYPE_UINT64 | TYPE_INT32 | TYPE_FIXED64 | TYPE_FIXED32
| TYPE_BOOL | TYPE_STRING | TYPE_GROUP | TYPE_MESSAGE | TYPE_BYTES | TYPE_UINT32 | TYPE_ENUM
| TYPE_SFIXED32 | TYPE_SFIXED64 | TYPE_SINT32 | TYPE_SINT64

fun kWireTypeForFieldType :: "field_type \<Rightarrow> wire_type" where
  "kWireTypeForFieldType TYPE_DOUBLE = WIRETYPE_FIXED64"
| "kWireTypeForFieldType TYPE_FLOAT = WIRETYPE_FIXED32"
| "kWireTypeForFieldType TYPE_INT64 = WIRETYPE_VARINT"
| "kWireTypeForFieldType TYPE_UINT64 = WIRETYPE_VARINT"
| "kWireTypeForFieldType TYPE_INT32 = WIRETYPE_VARINT"
| "kWireTypeForFieldType TYPE_FIXED64 = WIRETYPE_FIXED64"
| "kWireTypeForFieldType TYPE_FIXED32 = WIRETYPE_FIXED32"
| "kWireTypeForFieldType TYPE_BOOL = WIRETYPE_VARINT"
| "kWireTypeForFieldType TYPE_STRING = WIRETYPE_LENGTH_DELIMITED"
| "kWireTypeForFieldType TYPE_GROUP = WIRETYPE_START_GROUP"
| "kWireTypeForFieldType TYPE_MESSAGE = WIRETYPE_LENGTH_DELIMITED"
| "kWireTypeForFieldType TYPE_BYTES = WIRETYPE_LENGTH_DELIMITED"
| "kWireTypeForFieldType TYPE_UINT32 = WIRETYPE_VARINT"
| "kWireTypeForFieldType TYPE_ENUM = WIRETYPE_VARINT"
| "kWireTypeForFieldType TYPE_SFIXED32 = WIRETYPE_FIXED32"
| "kWireTypeForFieldType TYPE_SFIXED64 = WIRETYPE_FIXED64"
| "kWireTypeForFieldType TYPE_SINT32 = WIRETYPE_VARINT"
| "kWireTypeForFieldType TYPE_SINT64 = WIRETYPE_VARINT"

section \<open>ZigZag\<close>

definition ZigZagEncode32 :: "32 word \<Rightarrow> uint32" where
  "ZigZagEncode32 n = push_bit 1 n XOR signed_drop_bit 31 n"

definition ZigZagDecode32 :: "uint32 \<Rightarrow> 32 word" where
  "ZigZagDecode32 n = drop_bit 1 n XOR (- (n AND 1))"

definition ZigZagEncode64 :: "64 word \<Rightarrow> uint64" where
  "ZigZagEncode64 n = push_bit 1 n XOR signed_drop_bit 63 n"

definition ZigZagDecode64 :: "uint64 \<Rightarrow> 64 word" where
  "ZigZagDecode64 n = drop_bit 1 n XOR (- (n AND 1))"

section \<open>Tags round trip\<close>

lemma tag_mask [simp]: "kTagTypeMask = 7"
  by (simp add: kTagTypeMask_def kTagTypeBits_def)

lemma wire_type_round_trip:
  "wire_type_value (to_wire_type n) = n"
  "\<forall>m. t \<noteq> WIRETYPE_OTHER m \<Longrightarrow> to_wire_type (wire_type_value t) = t"
  by (simp add: to_wire_type_def, cases t) (simp_all add: to_wire_type_def)

lemma unat_tag_type: "unat (tag AND 7) = unat tag mod 8" for tag :: uint32
proof -
  have "tag AND 7 = take_bit 3 tag" by (simp add: take_bit_eq_mask mask_eq_exp_minus_1)
  then show ?thesis by (simp add: take_bit_eq_mod unat_mod_distrib)
qed

lemma unat_MakeTag:
  assumes "0 \<le> n" "n < 2 ^ 29" and t: "wire_type_value t < 8"
  shows "unat (MakeTag n t) = 8 * nat n + unat (wire_type_value t)"
proof -
  have lt: "unat (wire_type_value t) < 8" using t by (simp add: word_less_nat_alt)
  have "MakeTag n t = of_nat (unat (wire_type_value t)) OR push_bit 3 (of_nat (nat n))"
    using assms(1) by (simp add: MakeTag_def kTagTypeBits_def or.commute)
  also have "\<dots> = of_nat (unat (wire_type_value t) + 2 ^ 3 * nat n)"
    using lt by (intro of_nat_or_push_bit) simp
  finally have "unat (MakeTag n t) = (unat (wire_type_value t) + 2 ^ 3 * nat n) mod 2 ^ 32"
    by (simp only: unat_of_nat) simp
  moreover have "nat n < 536870912" using assms(1,2) by simp
  then have "unat (wire_type_value t) + 2 ^ 3 * nat n < 2 ^ 32" using lt by simp
  ultimately show ?thesis by simp
qed

lemma MakeTag_split:
  assumes "0 \<le> n" "n < 2 ^ 29" "\<forall>m. t \<noteq> WIRETYPE_OTHER m"
  shows "GetTagFieldNumber (MakeTag n t) = n" "GetTagWireType (MakeTag n t) = t"
proof -
  have lt: "wire_type_value t < 8" using assms(3) by (cases t) simp_all
  note u = unat_MakeTag [OF assms(1,2) lt]
  have l: "unat (wire_type_value t) < 8" using lt by (simp add: word_less_nat_alt)
  have "unat (drop_bit 3 (MakeTag n t)) = nat n"
    using l unat_drop_bit_div [of 3 "MakeTag n t"] by (simp only: u) simp
  then show "GetTagFieldNumber (MakeTag n t) = n"
    using assms(1) by (simp add: GetTagFieldNumber_def kTagTypeBits_def uint_nat)
  have "unat (MakeTag n t AND 7) = unat (wire_type_value t)" using l by (simp add: unat_tag_type u)
  then have "MakeTag n t AND 7 = wire_type_value t" by (simp add: word_unat_eq_iff)
  then show "GetTagWireType (MakeTag n t) = t"
    using assms(3) by (simp add: GetTagWireType_def wire_type_round_trip)
qed

lemma MakeTag_of_tag: "MakeTag (GetTagFieldNumber tag) (GetTagWireType tag) = tag"
proof -
  have "push_bit 3 (drop_bit 3 tag) OR (tag AND 7) = tag"
  proof (rule bit_word_eqI)
    fix i :: nat assume "i < LENGTH(32)"
    moreover have "bit (7 :: uint32) i \<longleftrightarrow> i < 3"
      using bit_mask_iff [of 3 i, where ?'a = uint32] \<open>i < LENGTH(32)\<close> by (simp add: mask_eq_exp_minus_1)
    ultimately show "bit (push_bit 3 (drop_bit 3 tag) OR (tag AND 7)) i = bit tag i"
      by (cases "i < 3") (simp_all add: bit_or_iff bit_and_iff bit_push_bit_iff bit_drop_bit_eq)
  qed
  then show ?thesis
    by (simp add: MakeTag_def GetTagFieldNumber_def GetTagWireType_def wire_type_round_trip kTagTypeBits_def)
qed

lemma GetTagFieldNumber_bounds: "0 \<le> GetTagFieldNumber tag \<and> GetTagFieldNumber tag < 2 ^ 29"
proof -
  have "unat tag < 2 ^ 32" using unsigned_less [of tag, where ?'a = nat] by simp
  then have "unat tag div 2 ^ 3 < 2 ^ 29" by (simp add: less_mult_imp_div_less)
  then have "unat (drop_bit 3 tag) < 2 ^ 29" by (simp only: unat_drop_bit_div)
  then have "int (unat (drop_bit 3 tag)) < int (2 ^ 29)" by (simp only: of_nat_less_iff)
  then have "uint (drop_bit 3 tag) < 2 ^ 29" by (simp only: uint_nat of_nat_power of_nat_numeral)
  then show ?thesis unfolding GetTagFieldNumber_def kTagTypeBits_def by simp
qed

section \<open>ZigZag is a bijection that keeps small values small\<close>

lemma zigzag_bits:
  "i < 32 \<Longrightarrow> bit (ZigZagEncode32 n) i = (if i = 0 then bit n 31 else bit n (i - 1) \<noteq> bit n 31)"
  "i < 64 \<Longrightarrow> bit (ZigZagEncode64 m) i = (if i = 0 then bit m 63 else bit m (i - 1) \<noteq> bit m 63)"
  unfolding ZigZagEncode32_def ZigZagEncode64_def bit_xor_iff bit_push_bit_iff bit_signed_drop_bit_iff
  by (auto dest: bit_imp_le_length)

lemma bit_minus_one_and: "i < LENGTH('a) \<Longrightarrow> bit (- (n AND 1)) i = bit n 0" for n :: "'a::len word"
  by (cases "even n") (simp_all add: and_one_eq mod_2_eq_odd bit_0)

lemma unzigzag_bits:
  "i < 32 \<Longrightarrow> bit (ZigZagDecode32 n) i = (bit n (i + 1) \<noteq> bit n 0)"
  "i < 64 \<Longrightarrow> bit (ZigZagDecode64 m) i = (bit m (i + 1) \<noteq> bit m 0)"
  unfolding ZigZagDecode32_def ZigZagDecode64_def bit_xor_iff bit_drop_bit_eq
  by (simp_all add: bit_minus_one_and comp_def)

lemma zigzag32_round_trip:
  "ZigZagDecode32 (ZigZagEncode32 n) = n" "ZigZagEncode32 (ZigZagDecode32 n) = n"
proof -
  show "ZigZagDecode32 (ZigZagEncode32 n) = n"
  proof (rule bit_word_eqI)
    fix i assume "i < LENGTH(32)"
    then show "bit (ZigZagDecode32 (ZigZagEncode32 n)) i = bit n i"
      by (cases "i = 31") (auto simp: unzigzag_bits zigzag_bits dest: bit_imp_le_length)
  qed
  show "ZigZagEncode32 (ZigZagDecode32 n) = n"
  proof (rule bit_word_eqI)
    fix i assume "i < LENGTH(32)"
    then show "bit (ZigZagEncode32 (ZigZagDecode32 n)) i = bit n i"
      by (auto simp: unzigzag_bits zigzag_bits dest: bit_imp_le_length)
  qed
qed

lemma zigzag64_round_trip:
  "ZigZagDecode64 (ZigZagEncode64 n) = n" "ZigZagEncode64 (ZigZagDecode64 n) = n"
proof -
  show "ZigZagDecode64 (ZigZagEncode64 n) = n"
  proof (rule bit_word_eqI)
    fix i assume "i < LENGTH(64)"
    then show "bit (ZigZagDecode64 (ZigZagEncode64 n)) i = bit n i"
      by (cases "i = 63") (auto simp: unzigzag_bits zigzag_bits dest: bit_imp_le_length)
  qed
  show "ZigZagEncode64 (ZigZagDecode64 n) = n"
  proof (rule bit_word_eqI)
    fix i assume "i < LENGTH(64)"
    then show "bit (ZigZagEncode64 (ZigZagDecode64 n)) i = bit n i"
      by (auto simp: unzigzag_bits zigzag_bits dest: bit_imp_le_length)
  qed
qed

lemma signed_drop_bit_sign:
  "signed_drop_bit 31 (n :: 32 word) = (if bit n 31 then - 1 else 0)"
proof (rule bit_word_eqI)
  fix i assume "i < LENGTH(32)"
  then show "bit (signed_drop_bit 31 n) i = bit (if bit n 31 then - 1 else 0 :: 32 word) i"
    by (cases i) (auto simp: bit_signed_drop_bit_iff dest: bit_imp_le_length)
qed

lemma zigzag32_value:
  "uint (ZigZagEncode32 n) = (if 0 \<le> sint n then 2 * sint n else - 2 * sint n - 1)"
proof -
  have r: "- (2 ^ 31) \<le> sint n" "sint n < 2 ^ 31"
    using sint_greater_eq [of n] sint_less [of n] by simp_all
  have sgn: "bit n 31 \<longleftrightarrow> sint n < 0" using bit_last_iff [of n] by simp
  have n: "push_bit 1 n = word_of_int (2 * sint n)"
    by (simp add: push_bit_eq_mult mult.commute)
  show ?thesis
  proof (cases "0 \<le> sint n")
    case True
    then have "ZigZagEncode32 n = word_of_int (2 * sint n)"
      using sgn unfolding ZigZagEncode32_def signed_drop_bit_sign n by simp
    then have "uint (ZigZagEncode32 n) = 2 * sint n mod 2 ^ LENGTH(32)" by (simp only: uint_word_of_int)
    also have "\<dots> = 2 * sint n" using True r by (intro mod_pos_pos_trivial) simp_all
    finally show ?thesis using True by simp
  next
    case False
    then have "ZigZagEncode32 n = NOT (word_of_int (2 * sint n))"
      using sgn unfolding ZigZagEncode32_def signed_drop_bit_sign n by simp
    also have "\<dots> = word_of_int (- 2 * sint n - 1)" by (simp add: not_eq_complement)
    finally have "uint (ZigZagEncode32 n) = (- 2 * sint n - 1) mod 2 ^ LENGTH(32)"
      by (simp only: uint_word_of_int)
    also have "\<dots> = - 2 * sint n - 1" using False r by (intro mod_pos_pos_trivial) simp_all
    finally show ?thesis using False by simp
  qed
qed

end
