(* ===== verification/FieldProperties.thy ===== *)
theory FieldProperties
  imports RepeatedFields UnknownFieldSets WireTags
begin

text \<open>
  What the containers of \<open>repeated_field.h\<close> and \<open>unknown_field_set.cc\<close> promise, against lists,
  and the round trips of tags and of the ZigZag transform.
\<close>

section \<open>RepeatedField against lists\<close>

text \<open>The operations a client runs, on the container and on the list it stands for.\<close>

datatype 'a repeated_op =
  OpAdd 'a | OpSet int 'a | OpRemoveLast | OpClear | OpReserve int | OpMergeFrom "'a repeated_field"
  | OpSwap "'a repeated_field"

fun field_step :: "'a repeated_op \<Rightarrow> 'a repeated_field \<Rightarrow> 'a repeated_field option" where
  "field_step (OpAdd v) r = RepeatedField_Add v r"
| "field_step (OpSet i v) r = RepeatedField_Set i v r"
| "field_step OpRemoveLast r = RepeatedField_RemoveLast r"
| "field_step OpClear r = Some (RepeatedField_Clear r)"
| "field_step (OpReserve n) r = RepeatedField_Reserve n r"
| "field_step (OpMergeFrom other) r = RepeatedField_MergeFrom other r"
| "field_step (OpSwap other) r = Some (fst (RepeatedField_Swap r other))"

fun list_step :: "'a repeated_op \<Rightarrow> 'a list \<Rightarrow> 'a list option" where
  "list_step (OpAdd v) xs = Some (xs @ [v])"
| "list_step (OpSet i v) xs = (if 0 \<le> i \<and> i < int (length xs) then Some (xs[nat i := v]) else None)"
| "list_step OpRemoveLast xs = (if xs = [] then None else Some (butlast xs))"
| "list_step OpClear xs = Some []"
| "list_step (OpReserve n) xs = Some xs"
| "list_step (OpMergeFrom other) xs = Some (xs @ rf_list other)"
| "list_step (OpSwap other) xs = Some (rf_list other)"

fun run :: "('op \<Rightarrow> 's \<Rightarrow> 's option) \<Rightarrow> 'op list \<Rightarrow> 's \<Rightarrow> 's option" where
  "run step [] s = Some s"
| "run step (op # ops) s = Option.bind (step op s) (run step ops)"

definition op_ok :: "'a repeated_op \<Rightarrow> bool" where
  "op_ok op = (case op of OpMergeFrom other \<Rightarrow> rf_ok other | OpSwap other \<Rightarrow> rf_ok other
     | OpReserve n \<Rightarrow> n \<le> max_reserve | _ \<Rightarrow> True)"

text \<open>No list on the way is longer than \<open>2 ^ 30\<close> elements.\<close>

fun lengths_ok :: "'a repeated_op list \<Rightarrow> 'a list \<Rightarrow> bool" where
  "lengths_ok [] xs = True"
| "lengths_ok (op # ops) xs = (case list_step op xs of None \<Rightarrow> True
     | Some ys \<Rightarrow> int (length ys) \<le> max_reserve \<and> lengths_ok ops ys)"

lemma field_step_refines:
  assumes r: "rf_ok r" and op: "op_ok op" and small: "\<And>xs. list_step op (rf_list r) = Some xs \<Longrightarrow> int (length xs) \<le> max_reserve"
  shows "case list_step op (rf_list r) of None \<Rightarrow> field_step op r = None
    | Some xs \<Rightarrow> \<exists>r'. field_step op r = Some r' \<and> rf_ok r' \<and> rf_list r' = xs"
proof (cases op)
  case (OpAdd v)
  then have "int (length (rf_list r)) < max_reserve" using small by simp
  from rf_Add [OF r this, of v] OpAdd show ?thesis by auto
next
  case (OpSet i v)
  show ?thesis
  proof (cases "0 \<le> i \<and> i < int (length (rf_list r))")
    case True
    then have "0 \<le> i" "i < int (length (rf_list r))" by simp_all
    from rf_Set [OF r this] obtain r' where "RepeatedField_Set i v r = Some r'" "rf_ok r'"
      "rf_list r' = (rf_list r)[nat i := v]" by blast
    with OpSet True show ?thesis by simp
  next
    case False
    then have "\<not> i < RepeatedField_size r \<or> i < 0" using rf.size_elems [OF r] by auto
    with False OpSet show ?thesis by (auto simp: RepeatedField_Set_def)
  qed
next
  case OpRemoveLast
  then show ?thesis using rf.remove_last_elem [OF r] rf.remove_last_empty [OF r] by auto
next
  case OpClear
  then show ?thesis using rf.clear_elems [OF r] by auto
next
  case (OpReserve n)
  then have "n \<le> max_reserve" using op by (simp add: op_ok_def)
  from rf_Reserve [OF r this] OpReserve show ?thesis by auto
next
  case (OpMergeFrom other)
  then have other: "rf_ok other" using op by (simp add: op_ok_def)
  have "int (length (rf_list r @ rf_list other)) \<le> max_reserve" using small OpMergeFrom by simp
  from rf_MergeFrom [OF r other this] OpMergeFrom show ?thesis by auto
next
  case (OpSwap other)
  then have other: "rf_ok other" using op by (simp add: op_ok_def)
  obtain a b where ab: "RepeatedField_Swap r other = (a, b)" by fastforce
  from rf_Swap(1,3) [OF r other ab] OpSwap show ?thesis by (simp add: ab)
qed

text \<open>C22: \<open>RepeatedField\<close> implements a list, as long as its \<open>int\<close> sizes do not overflow: whatever
  operations are run on a new one (\<open>Add\<close>, \<open>Set\<close>, \<open>RemoveLast\<close>, \<open>Clear\<close>, \<open>Reserve\<close>,
  \<open>MergeFrom\<close> and \<open>Swap\<close> with other well-formed fields), if no list on the way is longer than
  \<open>2 ^ 30\<close> elements and no \<open>Reserve\<close> asks for more, no computation of a size overflows, the
  container aborts exactly where the operation makes no sense of the list (removing from an empty
  list, setting out of range), and otherwise it holds the list, through every growth of its array.\<close>

theorem repeated_field_is_list:
  assumes "\<forall>op \<in> set ops. op_ok op" "lengths_ok ops []"
  shows "case run list_step ops [] of None \<Rightarrow> run field_step ops RepeatedField = None
    | Some xs \<Rightarrow> \<exists>r. run field_step ops RepeatedField = Some r \<and> rf_ok r \<and>
        RepeatedField_size r = int (length xs) \<and>
        (\<forall>i. RepeatedField_Get r i = (if 0 \<le> i \<and> i < int (length xs) then Some (xs ! nat i) else None))"
proof -
  have "case run list_step ops (rf_list r) of None \<Rightarrow> run field_step ops r = None
    | Some xs \<Rightarrow> \<exists>r'. run field_step ops r = Some r' \<and> rf_ok r' \<and> rf_list r' = xs"
    if "rf_ok r" "lengths_ok ops (rf_list r)" for r
    using that assms(1)
  proof (induction ops arbitrary: r)
    case (Cons op ops)
    have op: "op_ok op" and small: "\<And>xs. list_step op (rf_list r) = Some xs \<Longrightarrow> int (length xs) \<le> max_reserve"
      using Cons.prems(2,3) by simp_all
    note s = field_step_refines [OF Cons.prems(1) op small]
    show ?case
    proof (cases "list_step op (rf_list r)")
      case (Some xs)
      with s obtain r' where r': "field_step op r = Some r'" "rf_ok r'" "rf_list r' = xs" by auto
      from Cons.prems(2) Some r'(3) have l: "lengths_ok ops (rf_list r')" by simp
      from Cons.IH [OF r'(2) l] Cons.prems(3) show ?thesis by (auto simp: Some r'(1,3) split: option.split)
    qed (use s in simp)
  qed simp
  from this [OF rf_init(1)] assms(2) show ?thesis
    by (auto simp: rf_init(2) rf.size_elems rf.get_elem rf.get_outside split: option.splits)
qed

theorem repeated_field_is_list_witness:
  "\<exists>r. run field_step [OpAdd 1, OpAdd 2, OpReserve 9, OpRemoveLast, OpAdd (3 :: int), OpSet 0 7] RepeatedField =
      Some r \<and> RepeatedField_Get r 0 = Some 7 \<and> RepeatedField_Get r 1 = Some 3"
  using repeated_field_is_list [of "[OpAdd 1, OpAdd 2, OpReserve 9, OpRemoveLast, OpAdd 3, OpSet 0 (7 :: int)]"]
  by (auto simp: op_ok_def max_reserve_def)

text \<open>C23: Ownership passes through \<open>AddAllocated\<close> and \<open>ReleaseLast\<close> of a \<open>RepeatedPtrField\<close>:
  the object handed in is the one handed back, the elements are as before, and no object of the pool
  of cleared ones is lost or doubled, though the pool may be reordered. Only on an array that is full
  and has more than \<open>INT_MAX / 2\<close> slots, the size to grow to overflows.\<close>

theorem AddAllocated_ReleaseLast:
  assumes "rp_holds r xs cs"
  shows "if rp_full r then RepeatedPtrField_AddAllocated v r = None
    else \<exists>r1 r2 cs'. RepeatedPtrField_AddAllocated v r = Some r1 \<and> RepeatedPtrField_size r1 = RepeatedPtrField_size r + 1 \<and>
      RepeatedPtrField_ReleaseLast r1 = Some (v, r2) \<and> rp_holds r2 xs cs' \<and> mset cs' = mset cs"
proof (cases "rp_full r")
  case False
  obtain r1 cs1 where 1: "RepeatedPtrField_AddAllocated v r = Some r1" "rp_holds r1 (xs @ [v]) cs1" "mset cs1 = mset cs"
    using rp_AddAllocated [OF assms False] by blast
  obtain r2 cs2 where "RepeatedPtrField_ReleaseLast r1 = Some (v, r2)" "rp_holds r2 xs cs2" "mset cs2 = mset cs1"
    using rp_ReleaseLast [OF 1(2)] by blast
  moreover have "RepeatedPtrField_size r1 = RepeatedPtrField_size r + 1"
    using 1(2) assms by (simp add: RepeatedPtrField_size_def rp_holds_def)
  ultimately show ?thesis using 1 False by auto
qed (simp add: rp_AddAllocated_full)

lemma new_not_full: "\<not> rp_full RepeatedPtrField"
  by (simp add: rp_full_def RepeatedPtrField_def kInitialSize_def)

theorem AddAllocated_ReleaseLast_witness:
  "\<exists>r r1 r2. RepeatedPtrField_AddCleared 9 RepeatedPtrField = Some r \<and>
    RepeatedPtrField_AddAllocated (5 :: int) r = Some r1 \<and>
    RepeatedPtrField_ReleaseLast r1 = Some (5, r2) \<and> rp_holds r2 [] [9]"
proof -
  obtain r where r: "RepeatedPtrField_AddCleared (9 :: int) RepeatedPtrField = Some r" "rp_holds r [] [9]"
    using rp_AddCleared [OF rp_init new_not_full, of "9 :: int"] by auto
  have "\<not> rp_full r" using r(1)
    by (auto simp: RepeatedPtrField_AddCleared_def RepeatedPtrField_def rp_full_def rp_set_def kInitialSize_def)
  with AddAllocated_ReleaseLast [OF r(2), of 5] r(1) show ?thesis by auto
qed

text \<open>C24: Merging into a \<open>RepeatedPtrField\<close> that was cleared uses its old objects again and
  still holds just the merged elements, provided clearing an object makes merging into it the same as
  merging into a new one. Only when it must grow and has more than \<open>INT_MAX / 2\<close> slots, the size to
  grow to overflows.\<close>

theorem Clear_MergeFrom_reuses:
  assumes r: "rp_holds r xs cs" and other: "rp_holds other ys ds"
    and blank: "\<And>y c. c \<in> set (new_element # map clr xs @ cs) \<Longrightarrow> mrg y c = y"
  shows "if rp_total_size r < int (length ys) \<and> INT_MAX < rp_total_size r * 2
    then RepeatedPtrField_MergeFrom new_element mrg other (RepeatedPtrField_Clear clr r) = None
    else \<exists>r'. RepeatedPtrField_MergeFrom new_element mrg other (RepeatedPtrField_Clear clr r) = Some r' \<and>
      rp_holds r' ys (drop (length ys) (map clr xs @ cs))"
proof -
  have total: "rp_total_size (RepeatedPtrField_Clear clr r) = rp_total_size r"
    by (simp add: RepeatedPtrField_Clear_def)
  have n: "int (length ([] :: 'a list) + length ys) \<le> INT_MAX" using rp_holds_fits [OF other] by simp
  show ?thesis
  proof (cases "rp_total_size r < int (length ys) \<and> INT_MAX < rp_total_size r * 2")
    case True
    then show ?thesis
      using rp_MergeFrom_overflow [OF rp_Clear [OF r, of clr] other] by (simp add: total)
  next
    case False
    then have "int (length ([] :: 'a list) + length ys) \<le> rp_total_size (RepeatedPtrField_Clear clr r) \<or>
        rp_total_size (RepeatedPtrField_Clear clr r) * 2 \<le> INT_MAX" by (auto simp: total)
    from rp_MergeFrom [OF rp_Clear [OF r, of clr] other n this, of new_element mrg]
    show ?thesis using False rp_taken_blank [of new_element "map clr xs @ cs" mrg ys] blank by auto
  qed
qed

theorem Clear_MergeFrom_reuses_witness:
  "\<exists>r r'. RepeatedPtrField_Add [] RepeatedPtrField = Some ([], r) \<and>
    RepeatedPtrField_MergeFrom [] (\<lambda>y x. x @ y) (rp_set 0 [1] r) (RepeatedPtrField_Clear (\<lambda>x. []) r) = Some r' \<and>
    rp_holds r' [[1 :: int]] []"
proof -
  obtain r where r: "RepeatedPtrField_Add [] RepeatedPtrField = Some ([] :: int list, r)" "rp_holds r [[]] []"
    using rp_Add [OF rp_init new_not_full, of "[] :: int list"] by auto
  have "rp_holds (rp_set 0 [1] r) [[1]] []"
    using rp_set_last [of r "[]" "[]" "[]" "[1]"] r(2) by (simp add: rp_holds_def)
  moreover have "1 \<le> rp_total_size r" using r(2) by (simp add: rp_holds_def kInitialSize_def)
  ultimately show ?thesis using r
    using Clear_MergeFrom_reuses [OF r(2), of "rp_set 0 [1] r" "[[1]]" "[]" "[]" "\<lambda>x. []" "\<lambda>y x. x @ y"] by auto
qed

section \<open>Unknown field sets\<close>

lemma find_iff_active:
  assumes "ufs_ok s"
  shows "UnknownFieldSet_FindFieldByNumber n s =
    (if n \<in> uf_number ` set (ufs_field_list s) then ufs_get n s else None)"
proof (cases s)
  case (Internal fs act)
  have sh: "ufs_shape fs act" using assms Internal by simp
  show ?thesis
  proof (cases "map_of fs n")
    case (Some f)
    from ufs_shape_index [OF sh Some] ufs_active_iff [OF sh, of n] Some show ?thesis
      by (simp add: Internal UnknownFieldSet_FindFieldByNumber_def del: ufs_field_list.simps)
  qed (simp add: Internal UnknownFieldSet_FindFieldByNumber_def)
qed (simp add: UnknownFieldSet_FindFieldByNumber_def)

lemma field_count_list:
  "ufs_ok s \<Longrightarrow> UnknownFieldSet_field_count s = int (length (ufs_field_list s))"
proof (cases s)
  case (Internal fs act)
  assume "ufs_ok s"
  then have "map uf_number (ufs_field_list (Internal fs act)) = act"
    by (intro ufs_active_numbers) (simp add: Internal)
  then have "length (ufs_field_list (Internal fs act)) = length act" by (metis length_map)
  then show ?thesis by (simp add: Internal UnknownFieldSet_field_count_def del: ufs_field_list.simps)
qed (simp add: UnknownFieldSet_field_count_def)

text \<open>C25: \<open>AddField\<close> keeps the invariant of the set and adds the field once: afterwards the number
  is found, every other number is found as before, the count has grown by one exactly where the
  number was not found before, and asking again changes nothing.\<close>

theorem AddField_adds_once:
  fixes n :: int
  assumes s: "ufs_ok s"
  defines "s' \<equiv> UnknownFieldSet_AddField n s"
  shows "ufs_ok s' \<and> (\<exists>f. UnknownFieldSet_FindFieldByNumber n s' = Some f \<and> uf_number f = n) \<and>
    (\<forall>k. k \<noteq> n \<longrightarrow> UnknownFieldSet_FindFieldByNumber k s' = UnknownFieldSet_FindFieldByNumber k s) \<and>
    UnknownFieldSet_field_count s' = UnknownFieldSet_field_count s +
      (if UnknownFieldSet_FindFieldByNumber n s = None then 1 else 0) \<and>
    UnknownFieldSet_AddField n s' = s'"
proof -
  obtain fs act f where a: "s' = Internal fs act" "ufs_ok (Internal fs act)" "map_of fs n = Some f" "n \<in> set act"
    "\<And>k. k \<noteq> n \<Longrightarrow> map_of fs k = ufs_get k s"
    "n \<notin> uf_number ` set (ufs_field_list s) \<Longrightarrow> ufs_field_list (Internal fs act) = ufs_field_list s @ [f]"
    "n \<in> uf_number ` set (ufs_field_list s) \<Longrightarrow> Internal fs act = s"
    using AddField_shape [OF s, of n] unfolding s'_def by metis
  have sh: "ufs_shape fs act" using a(2) by simp
  have nf: "uf_number f = n" using a(3) sh by (auto simp: ufs_shape_lookup simp del: map_of_eq_Some_iff)
  have active: "n \<in> uf_number ` set (ufs_field_list s')"
    using ufs_active_iff [OF sh] a(4) by (simp add: a(1) del: ufs_field_list.simps)
  have ok: "ufs_ok s'" using a(1,2) by simp
  have none: "UnknownFieldSet_FindFieldByNumber n s = None \<longleftrightarrow> n \<notin> uf_number ` set (ufs_field_list s)"
  proof -
    have "ufs_get n s \<noteq> None" if "n \<in> uf_number ` set (ufs_field_list s)"
      using that ufs_field_list_numbers(2) [OF s] by auto
    then show ?thesis by (simp add: find_iff_active [OF s])
  qed
  have numbers: "k \<in> uf_number ` set (ufs_field_list s') \<longleftrightarrow> k \<in> uf_number ` set (ufs_field_list s)" if "k \<noteq> n" for k
    using a(1,6,7) nf that by (cases "n \<in> uf_number ` set (ufs_field_list s)") auto
  have "UnknownFieldSet_FindFieldByNumber n s' = Some f"
    unfolding find_iff_active [OF ok] using active a(1,3) by (simp del: ufs_field_list.simps)
  moreover have "UnknownFieldSet_FindFieldByNumber k s' = UnknownFieldSet_FindFieldByNumber k s" if "k \<noteq> n" for k
    unfolding find_iff_active [OF ok] find_iff_active [OF s]
    using numbers [OF that] a(1,5) that by (simp del: ufs_field_list.simps)
  moreover have "UnknownFieldSet_field_count s' = UnknownFieldSet_field_count s +
      (if UnknownFieldSet_FindFieldByNumber n s = None then 1 else 0)"
    unfolding field_count_list [OF ok] field_count_list [OF s] none
    using a(1,6,7) by (auto simp del: ufs_field_list.simps)
  moreover have "UnknownFieldSet_AddField n s' = s'"
  proof -
    obtain fs2 act2 where "UnknownFieldSet_AddField n s' = Internal fs2 act2"
      "n \<in> uf_number ` set (ufs_field_list s') \<Longrightarrow> Internal fs2 act2 = s'"
      using AddField_shape [OF ok, of n] by metis
    with active show ?thesis by simp
  qed
  ultimately show ?thesis using ok nf by blast
qed

theorem AddField_adds_once_witness:
  "UnknownFieldSet_field_count (UnknownFieldSet_AddField 7 (UnknownFieldSet_AddField 3 NoInternal)) = 2"
proof -
  have "ufs_ok (UnknownFieldSet_AddField 3 NoInternal)" "UnknownFieldSet_field_count (UnknownFieldSet_AddField 3 NoInternal) = 1"
    "UnknownFieldSet_FindFieldByNumber 7 (UnknownFieldSet_AddField 3 NoInternal) = None"
    using AddField_adds_once [of NoInternal 3]
    by (auto simp: UnknownFieldSet_field_count_def UnknownFieldSet_FindFieldByNumber_def)
  then show ?thesis using AddField_adds_once [of "UnknownFieldSet_AddField 3 NoInternal" 7] by simp
qed

text \<open>C26: \<open>Clear\<close> does not clear: \<open>clear_fixed32\<close> and \<open>clear_fixed64\<close> clear the varints, so a field
  added again after \<open>Clear\<close> has its old fixed32 and fixed64 values, and only those. The set has at
  most 100 fields (\<open>kMaxInactiveFields\<close>), active or not: of a larger one, \<open>Clear\<close> deletes the objects.\<close>

theorem Clear_resurrects_fixed:
  assumes s: "ufs_ok (Internal fs act)" and small: "length fs \<le> kMaxInactiveFields"
    and f: "UnknownFieldSet_FindFieldByNumber n (Internal fs act) = Some f"
  shows "UnknownFieldSet_field_count (UnknownFieldSet_Clear (Internal fs act)) = 0 \<and>
    (\<exists>g. UnknownFieldSet_FindFieldByNumber n
        (UnknownFieldSet_AddField n (UnknownFieldSet_Clear (Internal fs act))) = Some g \<and>
      uf_fixed32 g = uf_fixed32 f \<and> uf_fixed64 g = uf_fixed64 f \<and> uf_varint g = [] \<and>
      uf_length_delimited g = [] \<and> uf_group g = [])"
proof -
  have sh: "ufs_shape fs act" using s by simp
  have m: "map_of fs n = Some f" "n \<in> set act"
    using f ufs_shape_index [OF sh]
    by (auto simp: UnknownFieldSet_FindFieldByNumber_def simp del: map_of_eq_Some_iff split: option.splits if_splits)
  have ok: "ufs_ok (UnknownFieldSet_Clear (Internal fs act))" using Clear_ok(2) [OF s] by blast
  obtain g where g: "ufs_get n (UnknownFieldSet_AddField n (UnknownFieldSet_Clear (Internal fs act))) = Some g"
    "uf_fixed32 g = uf_fixed32 f" "uf_fixed64 g = uf_fixed64 f" "uf_varint g = []" "uf_length_delimited g = []" "uf_group g = []"
    using Clear_keeps_fixed [of fs n f act] small m sh by (auto simp: ufs_shape_def not_less simp del: map_of_eq_Some_iff)
  have ok2: "ufs_ok (UnknownFieldSet_AddField n (UnknownFieldSet_Clear (Internal fs act)))"
    and active: "n \<in> uf_number ` set (ufs_field_list (UnknownFieldSet_AddField n (UnknownFieldSet_Clear (Internal fs act))))"
  proof -
    obtain fs2 act2 f2 where "UnknownFieldSet_AddField n (UnknownFieldSet_Clear (Internal fs act)) = Internal fs2 act2"
      "ufs_ok (Internal fs2 act2)" "n \<in> set act2"
      by (rule AddField_shape [OF ok, of n])
    then show "ufs_ok (UnknownFieldSet_AddField n (UnknownFieldSet_Clear (Internal fs act)))"
      "n \<in> uf_number ` set (ufs_field_list (UnknownFieldSet_AddField n (UnknownFieldSet_Clear (Internal fs act))))"
      using ufs_active_iff [of fs2 act2 n] by (simp_all del: ufs_field_list.simps)
  qed
  have "UnknownFieldSet_field_count (UnknownFieldSet_Clear (Internal fs act)) = 0"
    using Clear_ok(2) [OF s] by (simp add: field_count_list [OF ok])
  with g active show ?thesis by (simp add: find_iff_active [OF ok2] del: ufs_field_list.simps)
qed

theorem Clear_resurrects_fixed_witness:
  "\<exists>g. UnknownFieldSet_FindFieldByNumber 1 (UnknownFieldSet_AddField 1
      (UnknownFieldSet_Clear (Internal [(1, UnknownField 1 0 [5] [6] [] [] [] [])] [1]))) = Some g \<and>
    uf_fixed32 g = [6] \<and> uf_varint g = []"
  using Clear_resurrects_fixed [of "[(1, UnknownField 1 0 [5] [6] [] [] [] [])]" "[1]" 1 "UnknownField 1 0 [5] [6] [] [] [] []"]
  by (simp add: ufs_shape_def uf_ok.simps [of "UnknownField a b c d e f g h" for a b c d e f g h] kMaxInactiveFields_def
      UnknownFieldSet_FindFieldByNumber_def) blast

text \<open>Where the set holds no fixed32 and no fixed64 value at any depth, \<open>Clear\<close> is right: the set
  is empty, keeps its invariant, and adding any field to it gives a field without values.\<close>

lemma Clear_without_fixed:
  assumes s: "ufs_ok s" "ufs_clean s" "ufs_no_fixed s"
  shows "UnknownFieldSet_empty (UnknownFieldSet_Clear s) \<and> ufs_ok (UnknownFieldSet_Clear s) \<and>
    ufs_value (UnknownFieldSet_AddField n (UnknownFieldSet_Clear s)) = [UnknownValue n [] [] [] [] []]"
proof -
  have c: "ufs_ok (UnknownFieldSet_Clear s)" "ufs_field_list (UnknownFieldSet_Clear s) = []"
    using Clear_ok(2) [OF s(1)] by auto
  then have "UnknownFieldSet_field_count (UnknownFieldSet_Clear s) = 0" by (simp add: field_count_list)
  then have e: "UnknownFieldSet_empty (UnknownFieldSet_Clear s)"
    by (auto simp: UnknownFieldSet_empty_def UnknownFieldSet_field_count_def split: unknown_field_set.splits)
  have "ufs_value (UnknownFieldSet_AddField n (UnknownFieldSet_Clear s)) = uv_update n id (ufs_value (UnknownFieldSet_Clear s))"
    by (rule AddField_clean [OF c(1) Clear_clean(2) [OF s], of n])
  then show ?thesis using c e by (simp add: ufs_value.simps [of "UnknownFieldSet_Clear s"] uv_update_def)
qed

lemma Clear_without_fixed_witness:
  "ufs_value (UnknownFieldSet_AddField 1 (UnknownFieldSet_Clear
      (Internal [(1, UnknownField 1 0 [5] [] [] [[7]] [] [])] [1]))) = [UnknownValue 1 [] [] [] [] []]"
  using Clear_without_fixed [of "Internal [(1, UnknownField 1 0 [5] [] [] [[7]] [] [])] [1]" 1]
  by (simp add: ufs_shape_def uf_ok.simps [of "UnknownField a b c d e f g h" for a b c d e f g h]
      uf_clean.simps [of "UnknownField a b c d e f g h" for a b c d e f g h]
      uf_no_fixed.simps [of "UnknownField a b c d e f g h" for a b c d e f g h])

section \<open>Tags and ZigZag\<close>

text \<open>A tag holds the field number and the wire type it was made of, and is not 0, the value
  that \<open>ReadTag\<close> reserves for the end; every tag is made of its parts.\<close>

lemma tag_round_trip:
  assumes "1 \<le> n" "n < 2 ^ 29"
  shows "GetTagFieldNumber (MakeTag n (kWireTypeForFieldType t)) = n \<and>
    GetTagWireType (MakeTag n (kWireTypeForFieldType t)) = kWireTypeForFieldType t \<and>
    MakeTag n (kWireTypeForFieldType t) \<noteq> 0 \<and>
    MakeTag (GetTagFieldNumber tag) (GetTagWireType tag) = tag"
proof -
  have w: "\<forall>m. kWireTypeForFieldType t \<noteq> WIRETYPE_OTHER m" by (cases t) simp_all
  have "wire_type_value (kWireTypeForFieldType t) < 8" by (cases t) simp_all
  with assms have "unat (MakeTag n (kWireTypeForFieldType t)) \<noteq> 0" by (simp add: unat_MakeTag)
  then have "MakeTag n (kWireTypeForFieldType t) \<noteq> 0" by (metis unsigned_0)
  then show ?thesis using MakeTag_split [OF _ assms(2) w] assms(1) MakeTag_of_tag by simp
qed

lemma tag_round_trip_witness:
  "GetTagFieldNumber (MakeTag 536870911 WIRETYPE_FIXED32) = 536870911"
  using tag_round_trip [of 536870911 TYPE_FLOAT 0] by simp

text \<open>The ZigZag transform maps signed to unsigned integers one to one, values of small
  magnitude of either sign to small values: 0, -1, 1, -2 to 0, 1, 2, 3.\<close>

lemma zigzag_bijective:
  "ZigZagDecode32 (ZigZagEncode32 n) = n \<and> ZigZagEncode32 (ZigZagDecode32 m) = m \<and>
   ZigZagDecode64 (ZigZagEncode64 i) = i \<and> ZigZagEncode64 (ZigZagDecode64 j) = j \<and>
   uint (ZigZagEncode32 n) = (if 0 \<le> sint n then 2 * sint n else - 2 * sint n - 1)"
  by (simp add: zigzag32_round_trip zigzag64_round_trip zigzag32_value)

end
