(* ===== verification/CodedInput.thy ===== *)
theory CodedInput
  imports ZeroCopyStream Varint
begin

text \<open>
  \<open>CodedInputStream\<close> (\<open>io/coded_stream.cc\<close>, \<open>io/coded_stream.h\<close>) over any
  \<open>ZeroCopyInputStream\<close>: the vtable of the stream is an argument of the operations. The state
  holds the fields of the class; \<open>ci_buffer\<close> is the memory from the pointer \<open>buffer_\<close> to the
  end of the block \<open>Next\<close> returned (\<open>[]\<close> where \<open>buffer_\<close> is \<open>NULL\<close>), of which
  \<open>buffer_size_\<close> bytes may be read. What is logged is not part of the model.
\<close>

unbundle bit_operations_syntax

section \<open>State\<close>

record 's coded_input =
  ci_input :: 's
  ci_buffer :: bytes
  ci_buffer_size :: int
  ci_total_bytes_read :: int
  ci_overflow_bytes :: int
  ci_last_tag :: uint32
  ci_legitimate_message_end :: bool
  ci_aliasing_enabled :: bool
  ci_current_limit :: int
  ci_buffer_size_after_limit :: int
  ci_total_bytes_limit :: int
  ci_total_bytes_warning_threshold :: int
  ci_recursion_depth :: int
  ci_recursion_limit :: int

definition kDefaultTotalBytesLimit :: int where
  "kDefaultTotalBytesLimit = 64 * 2 ^ 20"

definition kDefaultTotalBytesWarningThreshold :: int where
  "kDefaultTotalBytesWarningThreshold = 32 * 2 ^ 20"

definition kDefaultRecursionLimit :: int where
  "kDefaultRecursionLimit = 64"

definition kMaxVarintBytes :: nat where
  "kMaxVarintBytes = 10"

definition kMaxVarint32Bytes :: nat where
  "kMaxVarint32Bytes = 5"

definition CodedInputStream :: "'s \<Rightarrow> 's coded_input" where
  "CodedInputStream input =
     \<lparr>ci_input = input, ci_buffer = [], ci_buffer_size = 0, ci_total_bytes_read = 0,
      ci_overflow_bytes = 0, ci_last_tag = 0, ci_legitimate_message_end = False,
      ci_aliasing_enabled = False, ci_current_limit = INT_MAX, ci_buffer_size_after_limit = 0,
      ci_total_bytes_limit = kDefaultTotalBytesLimit,
      ci_total_bytes_warning_threshold = kDefaultTotalBytesWarningThreshold,
      ci_recursion_depth = 0, ci_recursion_limit = kDefaultRecursionLimit\<rparr>"

definition CodedInputStream_destroy :: "'s input_vt \<Rightarrow> 's coded_input \<Rightarrow> 's option" where
  "CodedInputStream_destroy vt c =
     (let backup_bytes = ci_buffer_size c + ci_buffer_size_after_limit c + ci_overflow_bytes c in
      if backup_bytes > 0 then in_backup vt backup_bytes (ci_input c) else Some (ci_input c))"

section \<open>Limits\<close>

definition CodedInputStream_RecomputeBufferLimits :: "'s coded_input \<Rightarrow> 's coded_input" where
  "CodedInputStream_RecomputeBufferLimits c =
     (let buffer_size = ci_buffer_size c + ci_buffer_size_after_limit c;
          closest_limit = min (ci_current_limit c) (ci_total_bytes_limit c) in
      if closest_limit < ci_total_bytes_read c then
        let after = ci_total_bytes_read c - closest_limit in
        c\<lparr>ci_buffer_size := buffer_size - after, ci_buffer_size_after_limit := after\<rparr>
      else c\<lparr>ci_buffer_size := buffer_size, ci_buffer_size_after_limit := 0\<rparr>)"

text \<open>The position relative to the beginning of the stream: \<open>current_position\<close> in the code.\<close>

definition ci_position :: "'s coded_input \<Rightarrow> int" where
  "ci_position c = ci_total_bytes_read c - (ci_buffer_size c + ci_buffer_size_after_limit c)"

definition CodedInputStream_PushLimit :: "int \<Rightarrow> 's coded_input \<Rightarrow> int \<times> 's coded_input" where
  "CodedInputStream_PushLimit byte_limit c =
     (let current_position = ci_position c;
          old_limit = ci_current_limit c;
          new_limit = (if byte_limit \<ge> 0 \<and> byte_limit \<le> INT_MAX - current_position
                       then current_position + byte_limit else INT_MAX) in
      (old_limit,
       CodedInputStream_RecomputeBufferLimits (c\<lparr>ci_current_limit := min new_limit old_limit\<rparr>)))"

definition CodedInputStream_PopLimit :: "int \<Rightarrow> 's coded_input \<Rightarrow> 's coded_input" where
  "CodedInputStream_PopLimit limit c =
     (CodedInputStream_RecomputeBufferLimits (c\<lparr>ci_current_limit := limit\<rparr>))
       \<lparr>ci_legitimate_message_end := False\<rparr>"

definition CodedInputStream_BytesUntilLimit :: "'s coded_input \<Rightarrow> int" where
  "CodedInputStream_BytesUntilLimit c =
     (if ci_current_limit c = INT_MAX then - 1 else ci_current_limit c - ci_position c)"

definition CodedInputStream_SetTotalBytesLimit ::
  "int \<Rightarrow> int \<Rightarrow> 's coded_input \<Rightarrow> 's coded_input" where
  "CodedInputStream_SetTotalBytesLimit total_bytes_limit warning_threshold c =
     CodedInputStream_RecomputeBufferLimits
       (c\<lparr>ci_total_bytes_limit := max (ci_position c) total_bytes_limit,
         ci_total_bytes_warning_threshold := warning_threshold\<rparr>)"

definition CodedInputStream_SetRecursionLimit :: "int \<Rightarrow> 's coded_input \<Rightarrow> 's coded_input" where
  "CodedInputStream_SetRecursionLimit limit c = c\<lparr>ci_recursion_limit := limit\<rparr>"

definition CodedInputStream_IncrementRecursionDepth ::
  "'s coded_input \<Rightarrow> bool \<times> 's coded_input" where
  "CodedInputStream_IncrementRecursionDepth c =
     (let c' = c\<lparr>ci_recursion_depth := ci_recursion_depth c + 1\<rparr>
      in (ci_recursion_depth c' \<le> ci_recursion_limit c', c'))"

definition CodedInputStream_DecrementRecursionDepth :: "'s coded_input \<Rightarrow> 's coded_input" where
  "CodedInputStream_DecrementRecursionDepth c =
     (if ci_recursion_depth c > 0 then c\<lparr>ci_recursion_depth := ci_recursion_depth c - 1\<rparr> else c)"

section \<open>Raw reads\<close>

definition ci_Advance :: "int \<Rightarrow> 's coded_input \<Rightarrow> 's coded_input" where
  "ci_Advance amount c =
     c\<lparr>ci_buffer := drop (nat amount) (ci_buffer c), ci_buffer_size := ci_buffer_size c - amount\<rparr>"

text \<open>The bytes that may be read without a \<open>Refresh\<close>.\<close>

definition ci_readable :: "'s coded_input \<Rightarrow> bytes" where
  "ci_readable c = take (nat (ci_buffer_size c)) (ci_buffer c)"

definition ci_Refresh :: "'s input_vt \<Rightarrow> 's coded_input \<Rightarrow> (bool \<times> 's coded_input) option" where
  "ci_Refresh vt c0 =
     (if ci_buffer_size_after_limit c0 > 0 \<or> ci_overflow_bytes c0 > 0 then
        Some (False, c0\<lparr>ci_buffer := drop (nat (ci_buffer_size c0)) (ci_buffer c0), ci_buffer_size := 0\<rparr>)
      else
        let c = (if ci_total_bytes_warning_threshold c0 \<ge> 0 \<and>
                    ci_total_bytes_read c0 \<ge> ci_total_bytes_warning_threshold c0
                 then c0\<lparr>ci_total_bytes_warning_threshold := - 1\<rparr> else c0) in
        do {
          (r, s) \<leftarrow> in_next vt (ci_input c);
          (case r of
             Some b \<Rightarrow>
               let n = int (length b);
                   c1 = (if ci_total_bytes_read c \<le> INT_MAX - n then
                           c\<lparr>ci_input := s, ci_buffer := b, ci_buffer_size := n,
                             ci_total_bytes_read := ci_total_bytes_read c + n\<rparr>
                         else
                           let overflow = ci_total_bytes_read c - (INT_MAX - n) in
                           c\<lparr>ci_input := s, ci_buffer := b, ci_overflow_bytes := overflow,
                             ci_buffer_size := n - overflow, ci_total_bytes_read := INT_MAX\<rparr>) in
               Some (True, CodedInputStream_RecomputeBufferLimits c1)
           | None \<Rightarrow>
               Some (False, c\<lparr>ci_input := s, ci_buffer := [], ci_buffer_size := 0\<rparr>))
        })"

definition CodedInputStream_Skip ::
  "'s input_vt \<Rightarrow> int \<Rightarrow> 's coded_input \<Rightarrow> (bool \<times> 's coded_input) option" where
  "CodedInputStream_Skip vt count c =
     (if count < 0 then Some (False, c)
      else if count \<le> ci_buffer_size c then Some (True, ci_Advance count c)
      else if ci_buffer_size_after_limit c > 0 then Some (False, ci_Advance (ci_buffer_size c) c)
      else
        let count' = count - ci_buffer_size c;
            c' = c\<lparr>ci_buffer := [], ci_buffer_size := 0\<rparr>;
            closest_limit = min (ci_current_limit c) (ci_total_bytes_limit c);
            bytes_until_limit = closest_limit - ci_total_bytes_read c in
        if bytes_until_limit < count' then do {
          (_, s) \<leftarrow> in_skip vt bytes_until_limit (ci_input c');
          Some (False, c'\<lparr>ci_input := s, ci_total_bytes_read := closest_limit\<rparr>)
        }
        else do {
          (r, s) \<leftarrow> in_skip vt count' (ci_input c');
          Some (r, c'\<lparr>ci_input := s, ci_total_bytes_read := ci_total_bytes_read c + count'\<rparr>)
        })"

text \<open>\<open>ReadRaw\<close> returns what it stored in \<open>buffer\<close>, also where it fails.\<close>

partial_function (option) CodedInputStream_ReadRaw_loop ::
  "'s input_vt \<Rightarrow> bytes \<Rightarrow> int \<Rightarrow> 's coded_input \<Rightarrow> ((bool \<times> bytes) \<times> 's coded_input) option" where
  "CodedInputStream_ReadRaw_loop vt buffer sz c =
     (if ci_buffer_size c < sz then do {
        (ok, c') \<leftarrow> ci_Refresh vt c;
        (if \<not> ok then Some ((False, buffer @ ci_readable c), c')
         else CodedInputStream_ReadRaw_loop vt (buffer @ ci_readable c) (sz - ci_buffer_size c) c')
      }
      else Some ((True, buffer @ take (nat sz) (ci_buffer c)), ci_Advance sz c))"

definition CodedInputStream_ReadRaw ::
  "'s input_vt \<Rightarrow> int \<Rightarrow> 's coded_input \<Rightarrow> ((bool \<times> bytes) \<times> 's coded_input) option" where
  "CodedInputStream_ReadRaw vt sz c = CodedInputStream_ReadRaw_loop vt [] sz c"

text \<open>\<open>buffer\<close> is the string passed in; the result holds the string left in it.\<close>

definition CodedInputStream_ReadString ::
  "'s input_vt \<Rightarrow> bytes \<Rightarrow> int \<Rightarrow> 's coded_input \<Rightarrow> ((bool \<times> bytes) \<times> 's coded_input) option" where
  "CodedInputStream_ReadString vt buffer sz c =
     (if sz < 0 then Some ((False, buffer), c)
      else if sz < ci_buffer_size c then
        Some ((True, take (nat sz) (ci_buffer c)), ci_Advance sz c)
      else CodedInputStream_ReadRaw_loop vt [] sz c)"

section \<open>Fixed-width integers\<close>

definition le32 :: "bytes \<Rightarrow> nat \<Rightarrow> uint32 option" where
  "le32 p i = do {
     b0 \<leftarrow> rd p i; b1 \<leftarrow> rd p (i + 1); b2 \<leftarrow> rd p (i + 2); b3 \<leftarrow> rd p (i + 3);
     Some (ucast b0 OR push_bit 8 (ucast b1) OR push_bit 16 (ucast b2) OR push_bit 24 (ucast b3))
   }"

definition CodedInputStream_ReadLittleEndian32 ::
  "'s input_vt \<Rightarrow> 's coded_input \<Rightarrow> (uint32 option \<times> 's coded_input) option" where
  "CodedInputStream_ReadLittleEndian32 vt c =
     (if ci_buffer_size c \<ge> 4 then do {
        v \<leftarrow> le32 (ci_readable c) 0;
        Some (Some v, ci_Advance 4 c)
      }
      else do {
        ((ok, bs), c') \<leftarrow> CodedInputStream_ReadRaw vt 4 c;
        (if \<not> ok then Some (None, c') else do { v \<leftarrow> le32 bs 0; Some (Some v, c') })
      })"

definition le64 :: "bytes \<Rightarrow> uint64 option" where
  "le64 p = do {
     part0 \<leftarrow> le32 p 0;
     part1 \<leftarrow> le32 p 4;
     Some (ucast part0 OR push_bit 32 (ucast part1))
   }"

definition CodedInputStream_ReadLittleEndian64 ::
  "'s input_vt \<Rightarrow> 's coded_input \<Rightarrow> (uint64 option \<times> 's coded_input) option" where
  "CodedInputStream_ReadLittleEndian64 vt c =
     (if ci_buffer_size c \<ge> 8 then do {
        v \<leftarrow> le64 (ci_readable c);
        Some (Some v, ci_Advance 8 c)
      }
      else do {
        ((ok, bs), c') \<leftarrow> CodedInputStream_ReadRaw vt 8 c;
        (if \<not> ok then Some (None, c') else do { v \<leftarrow> le64 bs; Some (Some v, c') })
      })"

section \<open>Varints\<close>

text \<open>A byte read through \<open>ptr\<close> into the \<open>uint32 b\<close>.\<close>

definition rdb :: "bytes \<Rightarrow> nat \<Rightarrow> uint32 option" where
  "rdb p i = map_option ucast (rd p i)"

text \<open>
  The fast path of \<open>ReadVarint64\<close>: the number of bytes read and the value, or \<open>None\<close> where ten
  bytes do not end the varint. The three parts are those of the code.
\<close>

definition varint64_parts :: "uint32 \<Rightarrow> uint32 \<Rightarrow> uint32 \<Rightarrow> uint64" where
  "varint64_parts part0 part1 part2 =
     ucast part0 OR push_bit 28 (ucast part1) OR push_bit 56 (ucast part2)"

definition varint64_fast :: "bytes \<Rightarrow> (nat \<times> uint64) option option" where
  "varint64_fast p =
     (let finish = (\<lambda>n part0 part1 part2. Some (Some (n, varint64_parts part0 part1 part2))) in
      do { b \<leftarrow> rdb p 0; let part0 = b AND 0x7F; if b AND 0x80 = 0 then finish 1 part0 0 0 else
      do { b \<leftarrow> rdb p 1; let part0 = part0 OR push_bit 7 (b AND 0x7F); if b AND 0x80 = 0 then finish 2 part0 0 0 else
      do { b \<leftarrow> rdb p 2; let part0 = part0 OR push_bit 14 (b AND 0x7F); if b AND 0x80 = 0 then finish 3 part0 0 0 else
      do { b \<leftarrow> rdb p 3; let part0 = part0 OR push_bit 21 (b AND 0x7F); if b AND 0x80 = 0 then finish 4 part0 0 0 else
      do { b \<leftarrow> rdb p 4; let part1 = b AND 0x7F; if b AND 0x80 = 0 then finish 5 part0 part1 0 else
      do { b \<leftarrow> rdb p 5; let part1 = part1 OR push_bit 7 (b AND 0x7F); if b AND 0x80 = 0 then finish 6 part0 part1 0 else
      do { b \<leftarrow> rdb p 6; let part1 = part1 OR push_bit 14 (b AND 0x7F); if b AND 0x80 = 0 then finish 7 part0 part1 0 else
      do { b \<leftarrow> rdb p 7; let part1 = part1 OR push_bit 21 (b AND 0x7F); if b AND 0x80 = 0 then finish 8 part0 part1 0 else
      do { b \<leftarrow> rdb p 8; let part2 = b AND 0x7F; if b AND 0x80 = 0 then finish 9 part0 part1 part2 else
      do { b \<leftarrow> rdb p 9; let part2 = part2 OR push_bit 7 (b AND 0x7F); if b AND 0x80 = 0 then finish 10 part0 part1 part2 else
      Some None }}}}}}}}}})"

text \<open>The bytes past the fifth of a 32-bit read are discarded.\<close>

primrec varint32_discard :: "nat \<Rightarrow> bytes \<Rightarrow> nat \<Rightarrow> nat option option" where
  "varint32_discard 0 p i = Some None"
| "varint32_discard (Suc k) p i =
     do { b \<leftarrow> rdb p i; if b AND 0x80 = 0 then Some (Some (i + 1)) else varint32_discard k p (i + 1) }"

definition varint32_fast :: "bytes \<Rightarrow> (nat \<times> uint32) option option" where
  "varint32_fast p =
     (let finish = (\<lambda>n result. Some (Some (n, result))) in
      do { b \<leftarrow> rdb p 0; let result = b AND 0x7F; if b AND 0x80 = 0 then finish 1 result else
      do { b \<leftarrow> rdb p 1; let result = result OR push_bit 7 (b AND 0x7F); if b AND 0x80 = 0 then finish 2 result else
      do { b \<leftarrow> rdb p 2; let result = result OR push_bit 14 (b AND 0x7F); if b AND 0x80 = 0 then finish 3 result else
      do { b \<leftarrow> rdb p 3; let result = result OR push_bit 21 (b AND 0x7F); if b AND 0x80 = 0 then finish 4 result else
      do { b \<leftarrow> rdb p 4; let result = result OR push_bit 28 b; if b AND 0x80 = 0 then finish 5 result else
      do { r \<leftarrow> varint32_discard (kMaxVarintBytes - kMaxVarint32Bytes) p 5;
           (case r of None \<Rightarrow> Some None | Some n \<Rightarrow> finish n result) }}}}}})"

text \<open>The test that lets a read take its fast path.\<close>

definition varint_fast_ok :: "'s coded_input \<Rightarrow> bool" where
  "varint_fast_ok c \<longleftrightarrow>
     ci_buffer_size c \<ge> int kMaxVarintBytes \<or>
     (ci_buffer_size c \<noteq> 0 \<and> ci_buffer c ! nat (ci_buffer_size c - 1) AND 0x80 = 0)"

partial_function (option) refresh_while_empty ::
  "'s input_vt \<Rightarrow> 's coded_input \<Rightarrow> (bool \<times> 's coded_input) option" where
  "refresh_while_empty vt c =
     (if ci_buffer_size c = 0 then do {
        (ok, c') \<leftarrow> ci_Refresh vt c;
        (if \<not> ok then Some (False, c') else refresh_while_empty vt c')
      }
      else Some (True, c))"

partial_function (option) varint64_slow ::
  "'s input_vt \<Rightarrow> uint64 \<Rightarrow> nat \<Rightarrow> 's coded_input \<Rightarrow> (uint64 option \<times> 's coded_input) option" where
  "varint64_slow vt result count c =
     (if count = kMaxVarintBytes then Some (None, c)
      else do {
        (ok, c1) \<leftarrow> refresh_while_empty vt c;
        (if \<not> ok then Some (None, c1)
         else do {
           b \<leftarrow> rdb (ci_readable c1) 0;
           let result' = result OR push_bit (7 * count) (ucast (b AND 0x7F));
           let c2 = ci_Advance 1 c1;
           (if b AND 0x80 \<noteq> 0 then varint64_slow vt result' (count + 1) c2
            else Some (Some result', c2))
         })
      })"

definition CodedInputStream_ReadVarint64 ::
  "'s input_vt \<Rightarrow> 's coded_input \<Rightarrow> (uint64 option \<times> 's coded_input) option" where
  "CodedInputStream_ReadVarint64 vt c =
     (if varint_fast_ok c then do {
        r \<leftarrow> varint64_fast (ci_readable c);
        (case r of None \<Rightarrow> Some (None, c)
         | Some (n, v) \<Rightarrow> Some (Some v, ci_Advance (int n) c))
      }
      else varint64_slow vt 0 0 c)"

text \<open>
  The loop at the head of the slow path of \<open>ReadVarint32Fallback\<close>, which recognises the end of a
  message: the result is whether a byte is in the buffer.
\<close>

partial_function (option) refresh_or_message_end ::
  "'s input_vt \<Rightarrow> 's coded_input \<Rightarrow> (bool \<times> 's coded_input) option" where
  "refresh_or_message_end vt c =
     (if ci_buffer_size c = 0 then
        if ci_buffer_size_after_limit c > 0 \<and>
           ci_total_bytes_read c - ci_buffer_size_after_limit c < ci_total_bytes_limit c
        then Some (False, c\<lparr>ci_legitimate_message_end := True\<rparr>)
        else do {
          (ok, c') \<leftarrow> ci_Refresh vt c;
          (if \<not> ok then
             let current_position = ci_total_bytes_read c' - ci_buffer_size_after_limit c' in
             Some (False, c'\<lparr>ci_legitimate_message_end :=
               (if current_position \<ge> ci_total_bytes_limit c'
                then ci_current_limit c' = ci_total_bytes_limit c' else True)\<rparr>)
           else refresh_or_message_end vt c')
        }
      else Some (True, c))"

definition CodedInputStream_ReadVarint32Fallback ::
  "'s input_vt \<Rightarrow> 's coded_input \<Rightarrow> (uint32 option \<times> 's coded_input) option" where
  "CodedInputStream_ReadVarint32Fallback vt c =
     (if varint_fast_ok c then do {
        r \<leftarrow> varint32_fast (ci_readable c);
        (case r of None \<Rightarrow> Some (None, c)
         | Some (n, v) \<Rightarrow> Some (Some v, ci_Advance (int n) c))
      }
      else do {
        (ok, c1) \<leftarrow> refresh_or_message_end vt c;
        (if \<not> ok then Some (None, c1)
         else do {
           (r, c2) \<leftarrow> CodedInputStream_ReadVarint64 vt c1;
           Some (map_option ucast r, c2)
         })
      })"

definition CodedInputStream_ReadVarint32 ::
  "'s input_vt \<Rightarrow> 's coded_input \<Rightarrow> (uint32 option \<times> 's coded_input) option" where
  "CodedInputStream_ReadVarint32 vt c =
     (if ci_buffer_size c \<noteq> 0 \<and> ci_buffer c ! 0 < 0x80
      then Some (Some (ucast (ci_buffer c ! 0)), ci_Advance 1 c)
      else CodedInputStream_ReadVarint32Fallback vt c)"

section \<open>Tags\<close>

definition CodedInputStream_ReadTag ::
  "'s input_vt \<Rightarrow> 's coded_input \<Rightarrow> (uint32 \<times> 's coded_input) option" where
  "CodedInputStream_ReadTag vt c =
     (if ci_buffer_size c \<noteq> 0 \<and> ci_buffer c ! 0 < 0x80 then
        let tag = ucast (ci_buffer c ! 0) in Some (tag, ci_Advance 1 (c\<lparr>ci_last_tag := tag\<rparr>))
      else if ci_buffer_size c \<ge> 2 \<and> ci_buffer c ! 1 < 0x80 then
        let tag = (ucast (ci_buffer c ! 0) AND 0x7F) + push_bit 7 (ucast (ci_buffer c ! 1))
        in Some (tag, ci_Advance 2 (c\<lparr>ci_last_tag := tag\<rparr>))
      else do {
        (r, c') \<leftarrow> CodedInputStream_ReadVarint32Fallback vt c;
        (case r of
           Some tag \<Rightarrow> Some (tag, c'\<lparr>ci_last_tag := tag\<rparr>)
         | None \<Rightarrow> Some (0, c'\<lparr>ci_last_tag := 0\<rparr>))
      })"

definition CodedInputStream_LastTagWas :: "uint32 \<Rightarrow> 's coded_input \<Rightarrow> bool" where
  "CodedInputStream_LastTagWas expected c = (ci_last_tag c = expected)"

definition CodedInputStream_ConsumedEntireMessage :: "'s coded_input \<Rightarrow> bool" where
  "CodedInputStream_ConsumedEntireMessage c = ci_legitimate_message_end c"

definition CodedInputStream_ExpectTag :: "uint32 \<Rightarrow> 's coded_input \<Rightarrow> bool \<times> 's coded_input" where
  "CodedInputStream_ExpectTag expected c =
     (if expected < 0x80 then
        if ci_buffer_size c \<noteq> 0 \<and> ucast (ci_buffer c ! 0) = expected
        then (True, ci_Advance 1 c) else (False, c)
      else if expected < 0x4000 then
        if ci_buffer_size c \<ge> 2 \<and> ci_buffer c ! 0 = ucast (expected OR 0x80) \<and>
           ci_buffer c ! 1 = ucast (drop_bit 7 expected)
        then (True, ci_Advance 2 c) else (False, c)
      else (False, c))"

definition CodedInputStream_ExpectAtEnd :: "'s coded_input \<Rightarrow> bool \<times> 's coded_input" where
  "CodedInputStream_ExpectAtEnd c =
     (if ci_buffer_size c = 0 \<and> ci_buffer_size_after_limit c \<noteq> 0
      then (True, c\<lparr>ci_last_tag := 0, ci_legitimate_message_end := True\<rparr>)
      else (False, c))"

end
