(* ===== verification/CodedReads.thy ===== *)
theory CodedReads
  imports CodedInput
begin

text \<open>
  What \<open>CodedInputStream\<close> guarantees over a stream that keeps the contract of
  \<open>ZeroCopyInputStream\<close>: the invariant of its state, the bytes it has still to deliver, and
  for every operation that it returns, keeps the invariant and reads a prefix of these bytes.
\<close>

unbundle bit_operations_syntax

section \<open>Invariant and abstraction\<close>

definition ci_closest :: "'s coded_input \<Rightarrow> int" where
  "ci_closest c = min (ci_current_limit c) (ci_total_bytes_limit c)"

text \<open>The bytes after the position of the reader, and those of them before the closest limit.\<close>

definition ci_pending :: "('s \<Rightarrow> bytes) \<Rightarrow> 's coded_input \<Rightarrow> bytes" where
  "ci_pending avail c = ci_buffer c @ avail (ci_input c)"

definition ci_unread :: "('s \<Rightarrow> bytes) \<Rightarrow> 's coded_input \<Rightarrow> bytes" where
  "ci_unread avail c = take (nat (ci_closest c - ci_position c)) (ci_pending avail c)"

text \<open>The invariant, less what \<open>RecomputeBufferLimits\<close> establishes.\<close>

definition ci_pre :: "('s \<Rightarrow> bool) \<Rightarrow> ('s \<Rightarrow> bytes) \<Rightarrow> 's coded_input \<Rightarrow> bool" where
  "ci_pre ok lastb c \<longleftrightarrow>
     ok (ci_input c) \<and> suffix (ci_buffer c) (lastb (ci_input c)) \<and>
     0 \<le> ci_buffer_size c + ci_buffer_size_after_limit c \<and> 0 \<le> ci_overflow_bytes c \<and>
     (if ci_buffer c = [] then ci_buffer_size c + ci_buffer_size_after_limit c = 0
      else int (length (ci_buffer c)) =
        ci_buffer_size c + ci_buffer_size_after_limit c + ci_overflow_bytes c) \<and>
     0 \<le> ci_position c \<and> ci_position c \<le> ci_closest c \<and>
     ci_total_bytes_read c \<le> INT_MAX \<and>
     ci_current_limit c \<le> INT_MAX \<and> ci_total_bytes_limit c \<le> INT_MAX \<and>
     (0 < ci_overflow_bytes c \<longrightarrow> ci_total_bytes_read c = INT_MAX)"

definition ci_ok :: "('s \<Rightarrow> bool) \<Rightarrow> ('s \<Rightarrow> bytes) \<Rightarrow> 's coded_input \<Rightarrow> bool" where
  "ci_ok ok lastb c \<longleftrightarrow>
     ci_pre ok lastb c \<and>
     ci_buffer_size_after_limit c = max 0 (ci_total_bytes_read c - ci_closest c)"

text \<open>What reading leaves alone.\<close>

definition ci_frame :: "'s coded_input \<Rightarrow> 's coded_input \<Rightarrow> bool" where
  "ci_frame c c' \<longleftrightarrow>
     ci_current_limit c' = ci_current_limit c \<and> ci_total_bytes_limit c' = ci_total_bytes_limit c \<and>
     ci_recursion_depth c' = ci_recursion_depth c \<and> ci_recursion_limit c' = ci_recursion_limit c"

text \<open>The reader moves over \<open>k\<close> bytes.\<close>

definition ci_moves :: "('s \<Rightarrow> bytes) \<Rightarrow> nat \<Rightarrow> 's coded_input \<Rightarrow> 's coded_input \<Rightarrow> bool" where
  "ci_moves avail k c c' \<longleftrightarrow>
     ci_frame c c' \<and> ci_pending avail c' = drop k (ci_pending avail c) \<and>
     ci_position c' = ci_position c + int k"

lemma ci_frame_refl [simp]: "ci_frame c c" by (simp add: ci_frame_def)

lemma ci_frame_trans: "ci_frame a b \<Longrightarrow> ci_frame b c \<Longrightarrow> ci_frame a c"
  by (simp add: ci_frame_def)

lemma ci_frame_closest: "ci_frame c c' \<Longrightarrow> ci_closest c' = ci_closest c"
  by (simp add: ci_frame_def ci_closest_def)

lemma ci_moves_0 [simp]: "ci_moves avail 0 c c" by (simp add: ci_moves_def)

lemma ci_moves_trans:
  "ci_moves avail j a b \<Longrightarrow> ci_moves avail k b c \<Longrightarrow> ci_moves avail (j + k) a c"
  by (auto simp: ci_moves_def add.commute intro: ci_frame_trans)

lemma ci_moves_unread: "ci_moves avail k c c' \<Longrightarrow> ci_unread avail c' = drop k (ci_unread avail c)"
proof -
  assume m: "ci_moves avail k c c'"
  then have "ci_closest c' - ci_position c' = ci_closest c - ci_position c - int k"
    using ci_frame_closest [of c c'] by (simp add: ci_moves_def)
  then have "nat (ci_closest c' - ci_position c') = nat (ci_closest c - ci_position c) - k"
    by linarith
  with m show ?thesis by (simp add: ci_moves_def ci_unread_def drop_take)
qed

text \<open>Fields the position and the bytes do not depend on.\<close>

lemma ci_fields [simp]:
  "ci_pre ok lastb (c\<lparr>ci_last_tag := t\<rparr>) = ci_pre ok lastb c"
  "ci_ok ok lastb (c\<lparr>ci_last_tag := t\<rparr>) = ci_ok ok lastb c"
  "ci_pending avail (c\<lparr>ci_last_tag := t\<rparr>) = ci_pending avail c"
  "ci_unread avail (c\<lparr>ci_last_tag := t\<rparr>) = ci_unread avail c"
  "ci_moves avail k c0 (c\<lparr>ci_last_tag := t\<rparr>) = ci_moves avail k c0 c"
  "ci_moves avail k (c\<lparr>ci_last_tag := t\<rparr>) c1 = ci_moves avail k c c1"
  "ci_pre ok lastb (c\<lparr>ci_legitimate_message_end := e\<rparr>) = ci_pre ok lastb c"
  "ci_ok ok lastb (c\<lparr>ci_legitimate_message_end := e\<rparr>) = ci_ok ok lastb c"
  "ci_pending avail (c\<lparr>ci_legitimate_message_end := e\<rparr>) = ci_pending avail c"
  "ci_unread avail (c\<lparr>ci_legitimate_message_end := e\<rparr>) = ci_unread avail c"
  "ci_moves avail k c0 (c\<lparr>ci_legitimate_message_end := e\<rparr>) = ci_moves avail k c0 c"
  "ci_moves avail k (c\<lparr>ci_legitimate_message_end := e\<rparr>) c1 = ci_moves avail k c c1"
  by (simp_all add: ci_pre_def ci_ok_def ci_pending_def ci_unread_def ci_moves_def ci_frame_def
      ci_position_def ci_closest_def)

lemma ci_okD:
  assumes "ci_ok ok lastb c"
  shows ci_ok_pre: "ci_pre ok lastb c"
    and ci_ok_input: "ok (ci_input c)"
    and ci_ok_size: "0 \<le> ci_buffer_size c" "ci_buffer_size c \<le> int (length (ci_buffer c))"
    and ci_ok_after: "0 \<le> ci_buffer_size_after_limit c"
    and ci_ok_overflow: "0 \<le> ci_overflow_bytes c"
    and ci_ok_position: "0 \<le> ci_position c" "ci_position c \<le> ci_closest c"
    and ci_ok_total: "ci_total_bytes_read c \<le> INT_MAX" "ci_closest c \<le> INT_MAX"
  using assms
  by (auto simp: ci_ok_def ci_pre_def ci_position_def ci_closest_def max_def min_def
      split: if_splits)

section \<open>Limits\<close>

lemma ci_RecomputeBufferLimits:
  assumes "ci_pre ok lastb c"
  shows "ci_ok ok lastb (CodedInputStream_RecomputeBufferLimits c)"
    and "ci_moves avail 0 c (CodedInputStream_RecomputeBufferLimits c)"
proof -
  let ?c = "CodedInputStream_RecomputeBufferLimits c"
  have same: "ci_input ?c = ci_input c" "ci_buffer ?c = ci_buffer c"
    "ci_total_bytes_read ?c = ci_total_bytes_read c" "ci_overflow_bytes ?c = ci_overflow_bytes c"
    "ci_frame c ?c"
    and sum: "ci_buffer_size ?c + ci_buffer_size_after_limit ?c =
      ci_buffer_size c + ci_buffer_size_after_limit c"
    and after: "ci_buffer_size_after_limit ?c = max 0 (ci_total_bytes_read c - ci_closest c)"
    by (auto simp: CodedInputStream_RecomputeBufferLimits_def Let_def ci_frame_def ci_closest_def)
  have lims: "ci_current_limit ?c = ci_current_limit c"
    "ci_total_bytes_limit ?c = ci_total_bytes_limit c" "ci_closest ?c = ci_closest c"
    using same(5) ci_frame_closest [of c ?c] by (auto simp: ci_frame_def)
  have pos: "ci_position ?c = ci_position c" using sum same by (simp add: ci_position_def)
  from assms have "ci_pre ok lastb ?c"
    unfolding ci_pre_def same lims pos sum by simp
  with after lims same show "ci_ok ok lastb ?c" by (simp add: ci_ok_def)
  show "ci_moves avail 0 c ?c"
    using same pos by (simp add: ci_moves_def ci_pending_def)
qed

lemma ci_init:
  assumes "ok s"
  shows "ci_ok ok lastb (CodedInputStream s)"
    and "ci_unread avail (CodedInputStream s) = take (nat kDefaultTotalBytesLimit) (avail s)"
  using assms
  by (simp_all add: CodedInputStream_def ci_ok_def ci_pre_def ci_closest_def ci_position_def
      ci_unread_def ci_pending_def kDefaultTotalBytesLimit_def INT_MAX_def)

lemma ci_PushLimit:
  assumes c: "ci_ok ok lastb c" and n: "0 \<le> n" "is_int32 n"
    and p: "CodedInputStream_PushLimit n c = (old, c')"
  shows "old = ci_current_limit c" "ci_ok ok lastb c'"
    and "ci_unread avail c' = take (nat n) (ci_unread avail c)"
    and "ci_pending avail c' = ci_pending avail c" "ci_position c' = ci_position c"
    and "ci_total_bytes_limit c' = ci_total_bytes_limit c"
proof -
  define pos where "pos = ci_position c"
  define new where "new = min (if n \<le> INT_MAX - pos then pos + n else INT_MAX) (ci_current_limit c)"
  define d where "d = c\<lparr>ci_current_limit := new\<rparr>"
  note b = ci_okD [OF c]
  have c': "c' = CodedInputStream_RecomputeBufferLimits d" and old: "old = ci_current_limit c"
    using p n by (auto simp: CodedInputStream_PushLimit_def Let_def d_def new_def pos_def)
  then show "old = ci_current_limit c" by simp
  have dpos: "ci_position d = pos" by (simp add: d_def pos_def ci_position_def)
  have dclosest: "ci_closest d = min new (ci_total_bytes_limit c)" by (simp add: d_def ci_closest_def)
  have lim: "ci_current_limit c \<le> INT_MAX" using c by (simp add: ci_ok_def ci_pre_def)
  have "pos \<le> new" "new \<le> INT_MAX" "pos \<le> ci_total_bytes_limit c"
    using b(7,8) n lim by (auto simp: new_def pos_def ci_closest_def)
  with ci_ok_pre [OF c] have pre: "ci_pre ok lastb d"
    unfolding ci_pre_def dpos dclosest by (simp add: d_def pos_def)
  note r = ci_RecomputeBufferLimits(1) [OF pre, folded c']
    ci_RecomputeBufferLimits(2) [OF pre, of avail, folded c']
  show "ci_ok ok lastb c'" by (rule r)
  show pend: "ci_pending avail c' = ci_pending avail c" "ci_position c' = ci_position c"
    using r(2) dpos by (simp_all add: ci_moves_def d_def ci_pending_def pos_def)
  show "ci_total_bytes_limit c' = ci_total_bytes_limit c"
    using r(2) by (simp add: ci_moves_def ci_frame_def d_def)
  have "ci_unread avail c' = ci_unread avail d" using ci_moves_unread [OF r(2)] by simp
  also have "\<dots> = take (nat (min new (ci_total_bytes_limit c) - pos)) (ci_pending avail c)"
    by (simp add: ci_unread_def dclosest dpos) (simp add: d_def ci_pending_def)
  also have "min new (ci_total_bytes_limit c) - pos = min n (ci_closest c - pos)"
    using b(7,9,10) lim by (auto simp: new_def pos_def ci_closest_def min_def)
  also have "nat (min n (ci_closest c - pos)) = min (nat n) (nat (ci_closest c - pos))" by linarith
  finally show "ci_unread avail c' = take (nat n) (ci_unread avail c)"
    by (simp add: ci_unread_def pos_def)
qed

lemma ci_PopLimit:
  assumes c: "ci_ok ok lastb c" and n: "ci_position c \<le> limit" "limit \<le> INT_MAX"
  shows "ci_ok ok lastb (CodedInputStream_PopLimit limit c)" (is "ci_ok ok lastb ?c")
    and "ci_unread avail (CodedInputStream_PopLimit limit c) =
      take (nat (min limit (ci_total_bytes_limit c) - ci_position c)) (ci_pending avail c)"
    and "ci_current_limit (CodedInputStream_PopLimit limit c) = limit"
    and "ci_position (CodedInputStream_PopLimit limit c) = ci_position c"
proof -
  define d where "d = c\<lparr>ci_current_limit := limit\<rparr>"
  have dpos: "ci_position d = ci_position c" by (simp add: d_def ci_position_def)
  have dclosest: "ci_closest d = min limit (ci_total_bytes_limit c)"
    by (simp add: d_def ci_closest_def)
  have "ci_position c \<le> ci_total_bytes_limit c" using ci_ok_position [OF c] by (simp add: ci_closest_def)
  with ci_ok_pre [OF c] n have pre: "ci_pre ok lastb d"
    unfolding ci_pre_def dpos dclosest by (simp add: d_def)
  note r = ci_RecomputeBufferLimits(1) [OF pre] ci_RecomputeBufferLimits(2) [OF pre, of avail]
  have c': "?c = (CodedInputStream_RecomputeBufferLimits d)\<lparr>ci_legitimate_message_end := False\<rparr>"
    by (simp add: CodedInputStream_PopLimit_def d_def)
  show "ci_ok ok lastb ?c" using r(1) by (simp add: c')
  have m: "ci_moves avail 0 d ?c" using r(2) by (simp add: c')
  then show "ci_current_limit ?c = limit" "ci_position ?c = ci_position c"
    by (simp_all add: ci_moves_def ci_frame_def d_def [symmetric] dpos) (simp add: d_def)
  from ci_moves_unread [OF m]
  show "ci_unread avail ?c =
      take (nat (min limit (ci_total_bytes_limit c) - ci_position c)) (ci_pending avail c)"
    by (simp add: ci_unread_def dclosest dpos) (simp add: d_def ci_pending_def)
qed

text \<open>A limit popped after \<open>k\<close> bytes were read under it: the outer view is as if there had been none.\<close>

lemma ci_Push_Pop:
  assumes c: "ci_ok ok lastb c" and n: "0 \<le> n" "is_int32 n"
    and p: "CodedInputStream_PushLimit n c = (old, c1)"
    and c2: "ci_ok ok lastb c2" and m: "ci_moves avail k c1 c2" and k: "int k \<le> n" 
  shows "ci_ok ok lastb (CodedInputStream_PopLimit old c2)"
    and "ci_unread avail (CodedInputStream_PopLimit old c2) = drop k (ci_unread avail c)"
proof -
  note q = ci_PushLimit [OF c n p]
  have tot: "ci_total_bytes_limit c2 = ci_total_bytes_limit c"
    using m q(6) by (simp add: ci_moves_def ci_frame_def)
  have cur: "ci_current_limit c2 \<le> ci_current_limit c"
  proof -
    have "ci_current_limit c1 \<le> ci_current_limit c"
      using p by (auto simp: CodedInputStream_PushLimit_def CodedInputStream_RecomputeBufferLimits_def
          Let_def split: if_splits)
    then show ?thesis using m by (simp add: ci_moves_def ci_frame_def)
  qed
  have pos: "ci_position c2 = ci_position c + int k" using m q(5) by (simp add: ci_moves_def)
  have le: "ci_position c2 \<le> old"
    using ci_ok_position [OF c2] cur q(1) by (simp add: ci_closest_def)
  have old: "old \<le> INT_MAX" using c q(1) by (simp add: ci_ok_def ci_pre_def)
  note r = ci_PopLimit [OF c2 le old]
  show "ci_ok ok lastb (CodedInputStream_PopLimit old c2)" by (rule r)
  have pend: "ci_pending avail c2 = drop k (ci_pending avail c)"
    using m q(4) by (simp add: ci_moves_def)
  have "nat (min old (ci_total_bytes_limit c2) - ci_position c2) =
      nat (ci_closest c - ci_position c) - k"
    by (simp add: q(1) tot pos ci_closest_def)
  then show "ci_unread avail (CodedInputStream_PopLimit old c2) = drop k (ci_unread avail c)"
    by (subst r(2)) (simp add: pend ci_unread_def drop_take)
qed

lemma ci_BytesUntilLimit:
  assumes "ci_ok ok lastb c"
  shows "CodedInputStream_BytesUntilLimit c =
    (if ci_current_limit c = INT_MAX then - 1 else ci_current_limit c - ci_position c)"
    and "CodedInputStream_BytesUntilLimit c \<ge> - 1"
  using ci_ok_position [OF assms]
  by (auto simp: CodedInputStream_BytesUntilLimit_def ci_closest_def)

lemma ci_SetTotalBytesLimit:
  assumes c: "ci_ok ok lastb c" and n: "n \<le> INT_MAX"
  shows "ci_ok ok lastb (CodedInputStream_SetTotalBytesLimit n w c)"
    and "ci_unread avail (CodedInputStream_SetTotalBytesLimit n w c) =
      take (nat (min (ci_current_limit c) (max (ci_position c) n) - ci_position c)) (ci_pending avail c)"
proof -
  define d where "d = c\<lparr>ci_total_bytes_limit := max (ci_position c) n,
    ci_total_bytes_warning_threshold := w\<rparr>"
  have dpos: "ci_position d = ci_position c" by (simp add: d_def ci_position_def)
  have dclosest: "ci_closest d = min (ci_current_limit c) (max (ci_position c) n)"
    by (simp add: d_def ci_closest_def)
  have lim: "ci_position c \<le> ci_current_limit c" "ci_position c \<le> INT_MAX"
    using ci_okD [OF c] by (auto simp: ci_closest_def)
  with ci_ok_pre [OF c] n have pre: "ci_pre ok lastb d"
    unfolding ci_pre_def dpos dclosest by (simp add: d_def)
  have eq: "CodedInputStream_SetTotalBytesLimit n w c = CodedInputStream_RecomputeBufferLimits d"
    by (simp add: CodedInputStream_SetTotalBytesLimit_def d_def)
  note r = ci_RecomputeBufferLimits(1) [OF pre] ci_RecomputeBufferLimits(2) [OF pre, of avail]
  show "ci_ok ok lastb (CodedInputStream_SetTotalBytesLimit n w c)" using r(1) by (simp add: eq)
  show "ci_unread avail (CodedInputStream_SetTotalBytesLimit n w c) =
      take (nat (min (ci_current_limit c) (max (ci_position c) n) - ci_position c)) (ci_pending avail c)"
    using ci_moves_unread [OF r(2)]
    by (simp add: eq ci_unread_def dclosest dpos) (simp add: d_def ci_pending_def)
qed

section \<open>Refresh and raw reads\<close>

lemma ci_readable_pending:
  assumes c: "ci_ok ok lastb c"
  shows "length (ci_readable c) = nat (ci_buffer_size c)"
    and "ci_readable c = take (nat (ci_buffer_size c)) (ci_unread avail c)"
    and "ci_buffer_size c \<le> ci_closest c - ci_position c"
proof -
  note b = ci_okD [OF c]
  show len: "length (ci_readable c) = nat (ci_buffer_size c)"
    using b(4) by (simp add: ci_readable_def)
  show le: "ci_buffer_size c \<le> ci_closest c - ci_position c"
    using c by (simp add: ci_ok_def ci_position_def)
  then show "ci_readable c = take (nat (ci_buffer_size c)) (ci_unread avail c)"
    using b(4) by (simp add: ci_readable_def ci_unread_def ci_pending_def min_def)
qed

lemma ci_Advance:
  assumes c: "ci_ok ok lastb c" and n: "0 \<le> n" "n \<le> ci_buffer_size c"
  shows "ci_ok ok lastb (ci_Advance n c)" (is "ci_ok ok lastb ?c")
    and "ci_moves avail (nat n) c (ci_Advance n c)"
    and "take (nat n) (ci_buffer c) = take (nat n) (ci_unread avail c)"
    and "int (length (ci_unread avail c)) \<ge> n"
proof -
  note b = ci_okD [OF c]
  have pos: "ci_position ?c = ci_position c + n" and cl: "ci_closest ?c = ci_closest c"
    by (simp_all add: ci_Advance_def ci_position_def ci_closest_def)
  have sz: "n \<le> ci_closest c - ci_position c" using ci_readable_pending(3) [OF c] n by simp
  have suf: "suffix (ci_buffer ?c) (ci_buffer c)" by (simp add: ci_Advance_def suffix_drop)
  show "ci_ok ok lastb ?c"
  proof -
    have "suffix (ci_buffer ?c) (lastb (ci_input c))"
      using suf c by (auto simp: ci_ok_def ci_pre_def intro: suffix_order.trans)
    moreover have "if ci_buffer ?c = [] then ci_buffer_size ?c + ci_buffer_size_after_limit ?c = 0
      else int (length (ci_buffer ?c)) =
        ci_buffer_size ?c + ci_buffer_size_after_limit ?c + ci_overflow_bytes ?c"
      using c n b(4-6) by (auto simp: ci_Advance_def ci_ok_def ci_pre_def split: if_splits)
    moreover have "0 \<le> ci_buffer_size ?c + ci_buffer_size_after_limit ?c"
      using n b(5) by (simp add: ci_Advance_def)
    ultimately show ?thesis
      using c n sz b(5,7) unfolding ci_ok_def ci_pre_def pos cl by (simp add: ci_Advance_def)
  qed
  have pend: "take (nat n) (ci_pending avail c) = take (nat n) (ci_buffer c)"
    "ci_pending avail ?c = drop (nat n) (ci_pending avail c)"
    using n b(4) by (simp_all add: ci_pending_def ci_Advance_def)
  show "ci_moves avail (nat n) c ?c"
    using n pos pend(2) by (simp add: ci_moves_def ci_frame_def) (simp add: ci_Advance_def)
  show "take (nat n) (ci_buffer c) = take (nat n) (ci_unread avail c)"
    using sz pend(1) by (simp add: ci_unread_def min_def)
  show "int (length (ci_unread avail c)) \<ge> n"
    using sz n b(4) by (simp add: ci_unread_def ci_pending_def)
qed

context zero_copy_input
begin

lemma refresh:
  assumes c: "ci_ok ok last c"
  obtains r c' where "ci_Refresh vt c = Some (r, c')" and "ci_ok ok last c'"
    and "ci_moves avail (nat (ci_buffer_size c)) c c'"
    and "r \<Longrightarrow> rank (ci_input c') < rank (ci_input c)"
    and "\<not> r \<Longrightarrow> ci_buffer_size c' = 0 \<and> ci_unread avail c' = []"
    and "ci_last_tag c' = ci_last_tag c"
proof -
  note b = ci_okD [OF c]
  show thesis
  proof (cases "ci_buffer_size_after_limit c > 0 \<or> ci_overflow_bytes c > 0")
    case True
    let ?c = "ci_Advance (ci_buffer_size c) c"
    have eq: "ci_Refresh vt c = Some (False, ?c)"
      using True by (simp add: ci_Refresh_def ci_Advance_def)
    note a = ci_Advance [OF c b(3) order.refl]
    have "ci_position ?c = ci_closest c"
      using True c by (auto simp: ci_Advance_def ci_position_def ci_ok_def ci_pre_def ci_closest_def)
    then have "ci_unread avail ?c = []"
      by (simp add: ci_unread_def ci_Advance_def ci_closest_def)
    then show thesis by (intro that [OF eq a(1) a(2)]) (simp_all add: ci_Advance_def)
  next
    case False
    then have z: "ci_buffer_size_after_limit c = 0" "ci_overflow_bytes c = 0"
      using b(5,6) by auto
    have len: "int (length (ci_buffer c)) = ci_buffer_size c"
      using c z by (auto simp: ci_ok_def ci_pre_def split: if_splits)
    define w where "w = (if ci_total_bytes_warning_threshold c \<ge> 0 \<and>
        ci_total_bytes_read c \<ge> ci_total_bytes_warning_threshold c
      then c\<lparr>ci_total_bytes_warning_threshold := - 1\<rparr> else c)"
    have w: "ci_input w = ci_input c" "ci_total_bytes_read w = ci_total_bytes_read c"
      "ci_buffer_size_after_limit w = 0" "ci_overflow_bytes w = 0"
      "ci_current_limit w = ci_current_limit c" "ci_total_bytes_limit w = ci_total_bytes_limit c"
      "ci_recursion_depth w = ci_recursion_depth c" "ci_recursion_limit w = ci_recursion_limit c"
      "ci_last_tag w = ci_last_tag c"
      using z by (auto simp: w_def)
    have pos: "ci_position c = ci_total_bytes_read c - ci_buffer_size c"
      using z by (simp add: ci_position_def)
    have cl: "ci_total_bytes_read c \<le> ci_closest c" using c z by (simp add: ci_ok_def max_def split: if_splits)
    obtain r s where next': "in_next vt (ci_input c) = Some (r, s)"
      using next_returns [OF b(2)] by auto
    show thesis
    proof (cases r)
      case None
      note e = next_end [OF b(2) next' [unfolded None]]
      define c' where "c' = w\<lparr>ci_input := s, ci_buffer := [], ci_buffer_size := 0\<rparr>"
      have eq: "ci_Refresh vt c = Some (False, c')"
        using False next' None by (simp add: ci_Refresh_def w_def [symmetric] w c'_def)
      have pos': "ci_position c' = ci_total_bytes_read c" and cl': "ci_closest c' = ci_closest c"
        by (simp_all add: c'_def ci_position_def ci_closest_def w)
      have ok': "ci_ok ok last c'"
        using e c cl b(3,7) pos unfolding ci_ok_def ci_pre_def pos' cl' by (simp add: c'_def w)
      have pend: "ci_pending avail c' = []" using e by (simp add: c'_def ci_pending_def)
      have m: "ci_moves avail (nat (ci_buffer_size c)) c c'"
        using e len b(3) pos pos' by (simp add: ci_moves_def ci_pending_def ci_frame_def) (simp add: c'_def w)
      show thesis
        using pend by (intro that [OF eq ok' m]) (simp_all add: ci_unread_def c'_def w)
    next
      case (Some d)
      note e = next_block [OF b(2) next' [unfolded Some]]
      have dn: "int (length d) \<le> INT_MAX" by (rule block_size [OF b(2) next' [unfolded Some]])
      define n where "n = int (length d)"
      define over where "over = max 0 (ci_total_bytes_read c - (INT_MAX - n))"
      define c1 where "c1 = w\<lparr>ci_input := s, ci_buffer := d, ci_buffer_size := n - over,
        ci_total_bytes_read := ci_total_bytes_read c + n - over, ci_overflow_bytes := over\<rparr>"
      have eq: "ci_Refresh vt c = Some (True, CodedInputStream_RecomputeBufferLimits c1)"
        using False next' Some
        by (auto simp: ci_Refresh_def w_def [symmetric] w c1_def over_def n_def Let_def max_def
            intro!: arg_cong [where f = CodedInputStream_RecomputeBufferLimits])
      have ov: "0 \<le> over" "over \<le> n" "0 < over \<Longrightarrow> ci_total_bytes_read c + n - over = INT_MAX"
        "ci_total_bytes_read c + n - over \<le> INT_MAX"
        using b(9) by (auto simp: over_def n_def)
      have ov0: "d = [] \<Longrightarrow> over = 0" using ov(1,2) n_def by simp
      have pos1: "ci_position c1 = ci_total_bytes_read c" and cl1: "ci_closest c1 = ci_closest c"
        by (simp_all add: c1_def ci_position_def ci_closest_def w)
      have "ci_pre ok last c1"
        using e c cl b(3,7) pos ov ov0 n_def
        unfolding ci_pre_def ci_ok_def pos1 cl1 by (simp add: c1_def w)
      note r = ci_RecomputeBufferLimits(1) [OF this] ci_RecomputeBufferLimits(2) [OF this, of avail]
      have m: "ci_moves avail (nat (ci_buffer_size c)) c c1"
        using e len b(3) pos pos1
        by (simp add: ci_moves_def ci_pending_def ci_frame_def) (simp add: c1_def w)
      from ci_moves_trans [OF this r(2)]
      have m': "ci_moves avail (nat (ci_buffer_size c)) c (CodedInputStream_RecomputeBufferLimits c1)"
        by simp
      have "ci_input (CodedInputStream_RecomputeBufferLimits c1) = s"
        "ci_last_tag (CodedInputStream_RecomputeBufferLimits c1) = ci_last_tag c"
        by (simp_all add: CodedInputStream_RecomputeBufferLimits_def Let_def c1_def w)
      then show thesis using e by (intro that [OF eq r(1) m']) simp_all
    qed
  qed
qed

end

section \<open>Fixed-width integers\<close>

lemma le32_of_nat:
  assumes "length p \<ge> i + 4"
  shows "le32 p i = Some (of_nat (le_nat (take 4 (drop i p))))"
proof -
  let ?b = "\<lambda>j. unat (p ! (i + j))"
  have bytes: "take 4 (drop i p) = [p ! i, p ! (i + 1), p ! (i + 2), p ! (i + 3)]"
    using assms by (auto intro!: nth_equalityI simp: nth_Cons' less_Suc_eq numeral_eq_Suc)
  have lt: "?b j < 256" for j by simp
  have "(of_nat (?b 0) :: uint32) OR push_bit 8 (of_nat (?b 1)) = of_nat (?b 0 + 2 ^ 8 * ?b 1)"
    using lt [of 0] by (intro of_nat_or_push_bit) simp
  moreover have "(of_nat (?b 0 + 2 ^ 8 * ?b 1) :: uint32) OR push_bit 16 (of_nat (?b 2)) =
      of_nat (?b 0 + 2 ^ 8 * ?b 1 + 2 ^ 16 * ?b 2)"
    using lt [of 0] lt [of 1] by (intro of_nat_or_push_bit) (simp del: unat_byte_less)
  moreover have "(of_nat (?b 0 + 2 ^ 8 * ?b 1 + 2 ^ 16 * ?b 2) :: uint32) OR push_bit 24 (of_nat (?b 3)) =
      of_nat (?b 0 + 2 ^ 8 * ?b 1 + 2 ^ 16 * ?b 2 + 2 ^ 24 * ?b 3)"
    using lt [of 0] lt [of 1] lt [of 2] by (intro of_nat_or_push_bit) (simp del: unat_byte_less)
  ultimately have "ucast (p ! i) OR push_bit 8 (ucast (p ! (i + 1))) OR push_bit 16 (ucast (p ! (i + 2))) OR
      push_bit 24 (ucast (p ! (i + 3))) =
      (of_nat (?b 0 + 2 ^ 8 * ?b 1 + 2 ^ 16 * ?b 2 + 2 ^ 24 * ?b 3) :: uint32)"
    by (simp only: ucast_of_nat_unat add_0_right or.assoc [symmetric])
  then show ?thesis using assms
    by (simp only: le32_def rd_in_range bytes) (simp add: rd_in_range algebra_simps del: ucast_of_nat_unat of_nat_unat)
qed

lemma le64_of_nat:
  assumes "length p \<ge> 8"
  shows "le64 p = Some (of_nat (le_nat (take 8 p)))"
proof -
  let ?a = "le_nat (take 4 p)" and ?b = "le_nat (take 4 (drop 4 p))"
  have a: "?a < 2 ^ 32" and b: "?b < 2 ^ 32"
    using le_nat_bound [of "take 4 p"] le_nat_bound [of "take 4 (drop 4 p)"] assms
    by (simp_all add: min_absorb2)
  have u: "unat (of_nat ?a :: uint32) = ?a" "unat (of_nat ?b :: uint32) = ?b"
    using a b by (simp_all add: unat_of_nat)
  have "(of_nat ?a :: uint64) OR push_bit 32 (of_nat ?b) = of_nat (?a + 2 ^ 32 * ?b)"
    using a by (rule of_nat_or_push_bit)
  moreover have "take 8 p = take 4 p @ take 4 (drop 4 p)"
    using take_add [of 4 4 p] by simp
  ultimately show ?thesis
    using assms by (simp add: le64_def le32_of_nat ucast_of_nat_unat u le_nat_append min_def
        del: of_nat_unat)
qed

context zero_copy_input
begin

lemma read_raw_loop:
  assumes "ci_ok ok last c" and "0 \<le> sz"
  shows "\<exists>r bs c'. CodedInputStream_ReadRaw_loop vt buffer sz c = Some ((r, buffer @ bs), c') \<and>
    ci_ok ok last c' \<and> bs = take (nat sz) (ci_unread avail c) \<and>
    r = (sz \<le> int (length (ci_unread avail c))) \<and> ci_moves avail (length bs) c c' \<and>
    ci_last_tag c' = ci_last_tag c"
  using assms
proof (induction "rank (ci_input c)" arbitrary: c buffer sz rule: less_induct)
  case less
  note b = ci_okD [OF less.prems(1)] and rb = ci_readable_pending [OF less.prems(1)]
  show ?case
  proof (cases "ci_buffer_size c < sz")
    case False
    then have sz: "sz \<le> ci_buffer_size c" by simp
    note a = ci_Advance [OF less.prems(1) less.prems(2) sz]
    from False have "CodedInputStream_ReadRaw_loop vt buffer sz c =
        Some ((True, buffer @ take (nat sz) (ci_unread avail c)), ci_Advance sz c)"
      by (subst CodedInputStream_ReadRaw_loop.simps) (simp add: a(3) [of avail])
    moreover have "length (take (nat sz) (ci_unread avail c)) = nat sz"
      using a(4) [of avail] by simp
    ultimately show ?thesis
      using a(1,2,4) by (intro exI [of _ True]) (auto simp: ci_Advance_def)
  next
    case True
    obtain r c1 where rf: "ci_Refresh vt c = Some (r, c1)" "ci_ok ok last c1"
      "ci_moves avail (nat (ci_buffer_size c)) c c1"
      "r \<Longrightarrow> rank (ci_input c1) < rank (ci_input c)"
      "\<not> r \<Longrightarrow> ci_buffer_size c1 = 0 \<and> ci_unread avail c1 = []" "ci_last_tag c1 = ci_last_tag c"
      using refresh [OF less.prems(1)] by metis
    let ?n = "nat (ci_buffer_size c)"
    have u: "ci_unread avail c = ci_readable c @ ci_unread avail c1"
      using ci_moves_unread [OF rf(3)] rb(2) [of avail] by (metis append_take_drop_id)
    show ?thesis
    proof (cases r)
      case False
      then have "CodedInputStream_ReadRaw_loop vt buffer sz c =
          Some ((False, buffer @ ci_readable c), c1)"
        using True rf(1) by (subst CodedInputStream_ReadRaw_loop.simps) simp
      moreover have "ci_unread avail c = ci_readable c" using u rf(5) False by simp
      ultimately show ?thesis
        using rf(2,3,6) rb(1) b(3) True by (intro exI [of _ False]) simp
    next
      case r: True
      have "0 \<le> sz - ci_buffer_size c" using True by simp
      from less.hyps [OF rf(4) [OF r] rf(2) this, of "buffer @ ci_readable c"]
      obtain r' bs c' where l: "CodedInputStream_ReadRaw_loop vt (buffer @ ci_readable c)
            (sz - ci_buffer_size c) c1 = Some ((r', buffer @ ci_readable c @ bs), c')"
        "ci_ok ok last c'" "bs = take (nat (sz - ci_buffer_size c)) (ci_unread avail c1)"
        "r' = (sz - ci_buffer_size c \<le> int (length (ci_unread avail c1)))"
        "ci_moves avail (length bs) c1 c'" "ci_last_tag c' = ci_last_tag c1" by auto
      have "CodedInputStream_ReadRaw_loop vt buffer sz c =
          Some ((r', buffer @ (ci_readable c @ bs)), c')"
        using True rf(1) r l(1) by (subst CodedInputStream_ReadRaw_loop.simps) simp
      moreover have "ci_readable c @ bs = take (nat sz) (ci_unread avail c)"
        using True b(3) rb(1) by (simp add: u l(3) nat_diff_distrib)
      moreover have "r' = (sz \<le> int (length (ci_unread avail c)))"
        using b(3) rb(1) by (auto simp: u l(4))
      moreover have "ci_moves avail (length (ci_readable c @ bs)) c c'"
        using ci_moves_trans [OF rf(3) l(5)] rb(1) by simp
      ultimately show ?thesis using l(2,6) rf(6)
        by (intro exI [of _ r'] exI [of _ "ci_readable c @ bs"] exI [of _ c']) simp
    qed
  qed
qed

lemma read_raw:
  assumes "ci_ok ok last c" and "0 \<le> sz"
  obtains c' where "CodedInputStream_ReadRaw vt sz c =
      Some ((sz \<le> int (length (ci_unread avail c)), take (nat sz) (ci_unread avail c)), c')"
    and "ci_ok ok last c'"
    and "ci_moves avail (min (nat sz) (length (ci_unread avail c))) c c'"
    and "ci_last_tag c' = ci_last_tag c"
  using read_raw_loop [OF assms, of "[]"] by (auto simp: CodedInputStream_ReadRaw_def min.commute)

lemma read_string:
  assumes c: "ci_ok ok last c" and sz: "0 \<le> sz"
  obtains c' where "CodedInputStream_ReadString vt buffer sz c =
      Some ((sz \<le> int (length (ci_unread avail c)), take (nat sz) (ci_unread avail c)), c')"
    and "ci_ok ok last c'"
    and "ci_moves avail (min (nat sz) (length (ci_unread avail c))) c c'"
    and "ci_last_tag c' = ci_last_tag c"
proof (cases "sz < ci_buffer_size c")
  case False
  then show thesis using that sz read_raw_loop [OF c sz, of "[]"]
    by (auto simp: CodedInputStream_ReadString_def min.commute)
next
  case True
  then have le: "sz \<le> ci_buffer_size c" by simp
  note a = ci_Advance [OF c sz le]
  show thesis
  proof (rule that)
    show "CodedInputStream_ReadString vt buffer sz c =
        Some ((sz \<le> int (length (ci_unread avail c)), take (nat sz) (ci_unread avail c)), ci_Advance sz c)"
      using True sz a(3,4) [of avail] by (simp add: CodedInputStream_ReadString_def)
    show "ci_moves avail (min (nat sz) (length (ci_unread avail c))) c (ci_Advance sz c)"
    proof -
      have "min (nat sz) (length (ci_unread avail c)) = nat sz" using a(4) [of avail] by linarith
      then show ?thesis using a(2) [of avail] by simp
    qed
  qed (simp_all add: a(1), simp add: ci_Advance_def)
qed

lemma read_string_negative:
  "sz < 0 \<Longrightarrow> CodedInputStream_ReadString vt buffer sz c = Some ((False, buffer), c)"
  by (simp add: CodedInputStream_ReadString_def)

text \<open>Both widths, on the fast and the slow path.\<close>

lemma read_le32:
  assumes c: "ci_ok ok last c"
  obtains c' where "CodedInputStream_ReadLittleEndian32 vt c =
      Some (if 4 \<le> length (ci_unread avail c) then Some (of_nat (le_nat (take 4 (ci_unread avail c))))
        else None, c')"
    and "ci_ok ok last c'" and "ci_moves avail (min 4 (length (ci_unread avail c))) c c'"
    and "ci_last_tag c' = ci_last_tag c"
proof (cases "ci_buffer_size c \<ge> 4")
  case True
  note a = ci_Advance(1) [OF c _ True, simplified] ci_Advance(2-4) [OF c _ True, of avail, simplified]
  have p: "take 4 (ci_readable c) = take 4 (ci_unread avail c)"
    using True a(3) by (simp add: ci_readable_def min_absorb1)
  have "length (ci_readable c) \<ge> 0 + 4" using True ci_readable_pending(1) [OF c] by simp
  from le32_of_nat [OF this] p True a
  have "CodedInputStream_ReadLittleEndian32 vt c =
      Some (Some (of_nat (le_nat (take 4 (ci_unread avail c)))), ci_Advance 4 c)"
    by (simp add: CodedInputStream_ReadLittleEndian32_def)
  then show thesis using a by (intro that [of "ci_Advance 4 c"]) (simp_all add: ci_Advance_def)
next
  case False
  obtain c' where r: "CodedInputStream_ReadRaw vt 4 c =
      Some ((4 \<le> int (length (ci_unread avail c)), take 4 (ci_unread avail c)), c')"
    "ci_ok ok last c'" "ci_moves avail (min 4 (length (ci_unread avail c))) c c'"
    "ci_last_tag c' = ci_last_tag c"
    using read_raw [OF c, of 4] by auto
  have "CodedInputStream_ReadLittleEndian32 vt c =
      Some (if 4 \<le> length (ci_unread avail c) then Some (of_nat (le_nat (take 4 (ci_unread avail c))))
        else None, c')"
    using False r(1) by (auto simp: CodedInputStream_ReadLittleEndian32_def le32_of_nat)
  from that [OF this r(2-4)] show thesis .
qed

lemma read_le64:
  assumes c: "ci_ok ok last c"
  obtains c' where "CodedInputStream_ReadLittleEndian64 vt c =
      Some (if 8 \<le> length (ci_unread avail c) then Some (of_nat (le_nat (take 8 (ci_unread avail c))))
        else None, c')"
    and "ci_ok ok last c'" and "ci_moves avail (min 8 (length (ci_unread avail c))) c c'"
    and "ci_last_tag c' = ci_last_tag c"
proof (cases "ci_buffer_size c \<ge> 8")
  case True
  note a = ci_Advance(1) [OF c _ True, simplified] ci_Advance(2-4) [OF c _ True, of avail, simplified]
  have p: "take 8 (ci_readable c) = take 8 (ci_unread avail c)"
    using True a(3) by (simp add: ci_readable_def min_absorb1)
  have "length (ci_readable c) \<ge> 8" using True ci_readable_pending(1) [OF c] by simp
  from le64_of_nat [OF this] p True a
  have "CodedInputStream_ReadLittleEndian64 vt c =
      Some (Some (of_nat (le_nat (take 8 (ci_unread avail c)))), ci_Advance 8 c)"
    by (simp add: CodedInputStream_ReadLittleEndian64_def)
  then show thesis using a by (intro that [of "ci_Advance 8 c"]) (simp_all add: ci_Advance_def)
next
  case False
  obtain c' where r: "CodedInputStream_ReadRaw vt 8 c =
      Some ((8 \<le> int (length (ci_unread avail c)), take 8 (ci_unread avail c)), c')"
    "ci_ok ok last c'" "ci_moves avail (min 8 (length (ci_unread avail c))) c c'"
    "ci_last_tag c' = ci_last_tag c"
    using read_raw [OF c, of 8] by auto
  have "CodedInputStream_ReadLittleEndian64 vt c =
      Some (if 8 \<le> length (ci_unread avail c) then Some (of_nat (le_nat (take 8 (ci_unread avail c))))
        else None, c')"
    using False r(1) by (auto simp: CodedInputStream_ReadLittleEndian64_def le64_of_nat)
  from that [OF this r(2-4)] show thesis .
qed

end


end
