(* ===== verification/CodedVarints.thy ===== *)
theory CodedVarints
  imports CodedReads
begin

text \<open>
  Reading varints and tags: the unrolled decoders of \<open>CodedInputStream\<close> and the loops behind them
  read what the format of \<open>Varint\<close> says, over any stream that keeps its contract; \<open>Skip\<close> and
  the destructor, which backs the stream up.
\<close>

unbundle bit_operations_syntax

section \<open>The unrolled decoders\<close>

definition low7 :: "byte \<Rightarrow> nat" where
  "low7 b = unat b mod 128"

lemma low7_less: "low7 b < 128" by (simp add: low7_def)

lemma ucast_and_7F: "(ucast (b :: byte) :: uint32) AND 0x7F = of_nat (low7 b)"
proof -
  have "(ucast b :: uint32) AND 0x7F = ucast (b AND 0x7F)"
    by (simp add: unsigned_and_eq)
  also have "\<dots> = of_nat (low7 b)" by (simp only: ucast_of_nat_unat and_7F_mod low7_def)
  finally show ?thesis .
qed

lemma ucast_and_80: "((ucast (b :: byte) :: uint32) AND 0x80 = 0) = (\<not> continues b)"
  using and_exp_eq_0_iff_not_bit [of "ucast b :: uint32" 7] and_exp_eq_0_iff_not_bit [of b 7]
  by (simp add: continues_def bit_unsigned_iff)

lemma rdb_Cons:
  "rdb (b # p) 0 = Some (ucast b)" "rdb (b # p) (Suc i) = rdb p i"
  "rdb (b # p) (numeral k) = rdb p (pred_numeral k)" "rdb (b # p) 1 = rdb p 0"
  by (simp_all add: rdb_def numeral_eq_Suc)

lemma varint_split_shape:
  "varint_split n bs = Some (v, r) \<Longrightarrow>
    bs = v @ r \<and> v \<noteq> [] \<and> length v \<le> n \<and> list_all continues (butlast v) \<and> \<not> continues (last v)"
  by (induction n bs arbitrary: v rule: varint_split.induct) (auto split: if_splits)

lemma varint_split_None_shape:
  "varint_split n bs = None \<Longrightarrow> n \<le> length bs \<Longrightarrow> list_all continues (take n bs)"
  by (induction n bs rule: varint_split.induct) (auto split: if_splits)

lemma varint64_parts_of_nat:
  assumes "a < 2 ^ 28" "b < 2 ^ 28" "c < 2 ^ 32"
  shows "varint64_parts (of_nat a) (of_nat b) (of_nat c) = of_nat (a + 2 ^ 28 * b + 2 ^ 56 * c)"
proof -
  have u: "unat (of_nat a :: uint32) = a" "unat (of_nat b :: uint32) = b" "unat (of_nat c :: uint32) = c"
    using assms by (simp_all add: unat_of_nat)
  have "(of_nat a :: uint64) OR push_bit 28 (of_nat b) = of_nat (a + 2 ^ 28 * b)"
    using assms(1) by (rule of_nat_or_push_bit)
  moreover have "(of_nat (a + 2 ^ 28 * b) :: uint64) OR push_bit 56 (of_nat c) =
      of_nat (a + 2 ^ 28 * b + 2 ^ 56 * c)"
    using assms by (intro of_nat_or_push_bit) simp
  ultimately show ?thesis
    by (simp only: varint64_parts_def ucast_of_nat_unat u or.assoc [symmetric])
qed

lemma or_7: "x < 128 \<Longrightarrow> (of_nat x :: uint32) OR push_bit 7 (of_nat y) = of_nat (x + 128 * y)"
  using of_nat_or_push_bit [of x 7 y, where ?'a = 32] by simp
lemma or_14: "x < 16384 \<Longrightarrow> (of_nat x :: uint32) OR push_bit 14 (of_nat y) = of_nat (x + 16384 * y)"
  using of_nat_or_push_bit [of x 14 y, where ?'a = 32] by simp
lemma or_21: "x < 2097152 \<Longrightarrow> (of_nat x :: uint32) OR push_bit 21 (of_nat y) = of_nat (x + 2097152 * y)"
  using of_nat_or_push_bit [of x 21 y, where ?'a = 32] by simp

lemma varint64_parts_4:
  assumes "a < 2 ^ 28" 
  shows "varint64_parts (of_nat a) 0 0 = of_nat a"
  using varint64_parts_of_nat [of a 0 0] assms by simp
lemma varint64_parts_8:
  assumes "a < 2 ^ 28"  "b < 2 ^ 28"
  shows "varint64_parts (of_nat a) (of_nat b) 0 = of_nat (a + 2 ^ 28 * b)"
  using varint64_parts_of_nat [of a b 0] assms by simp

lemma varint_nat_Cons: "varint_nat (b # v) = low7 b + 128 * varint_nat v"
  by (simp add: and_7F_mod low7_def)

lemmas varint_fast_simps = rdb_Cons ucast_and_7F ucast_and_80 Let_def or_7 or_14 or_21
  varint64_parts_4 varint64_parts_8 varint64_parts_of_nat varint_nat_Cons

lemma varint64_fast_ends:
  assumes "v \<noteq> []" "length v \<le> 10" "list_all continues (butlast v)" "\<not> continues (last v)"
  shows "varint64_fast (v @ r) = Some (Some (length v, of_nat (varint_nat v)))"
proof -
  define f where "f = nth v"
  define n where "n = length v"
  have "v = map f [0..<n]" unfolding f_def n_def by (rule map_nth [symmetric])
  then have "v = take n (map f [0..<10])" using assms(2) by (simp add: take_map n_def)
  then have v: "v = take n [f 0, f 1, f 2, f 3, f 4, f 5, f 6, f 7, f 8, f 9]"
    by (simp add: upt_rec numeral_eq_Suc)
  have "n = 10 \<or> n = 9 \<or> n = 8 \<or> n = 7 \<or> n = 6 \<or> n = 5 \<or> n = 4 \<or> n = 3 \<or> n = 2 \<or> n = 1"
    using assms(1,2) unfolding n_def by (cases v) (auto simp: le_Suc_eq numeral_eq_Suc)
  then show ?thesis
    using assms(3,4) low7_less [of "f 0"] low7_less [of "f 1"] low7_less [of "f 2"] low7_less [of "f 3"]
      low7_less [of "f 4"] low7_less [of "f 5"] low7_less [of "f 6"] low7_less [of "f 7"]
      low7_less [of "f 8"] low7_less [of "f 9"]
    unfolding v
    by (elim disjE; simp add: varint64_fast_def varint_fast_simps add.assoc
        del: push_bit_and varint_nat.simps(2) of_nat_add of_nat_mult of_nat_numeral)
qed

lemma varint64_fast_endless:
  assumes "length v = 10" "list_all continues v"
  shows "varint64_fast (v @ r) = Some None"
proof -
  obtain b0 b1 b2 b3 b4 b5 b6 b7 b8 b9 where "v = [b0, b1, b2, b3, b4, b5, b6, b7, b8, b9]"
    using assms(1) by (auto simp: length_Suc_conv numeral_eq_Suc)
  with assms(2) show ?thesis
    by (simp add: varint64_fast_def rdb_Cons ucast_and_80 Let_def del: push_bit_and)
qed

lemma or_28:
  assumes "x < 268435456"
  shows "(of_nat x :: uint32) OR push_bit 28 (ucast (b :: byte)) = of_nat (x + 268435456 * low7 b)"
proof -
  have "unat b = low7 b + 128 * (unat b div 128)" by (simp add: low7_def)
  then have "x + 268435456 * unat b = x + 268435456 * low7 b + 2 ^ 35 * (unat b div 128)" by simp
  moreover have "(of_nat (2 ^ 35 * n) :: uint32) = 0" for n
    by (simp add: word_unat_eq_iff unat_of_nat mod_eq_0_iff_dvd del: of_nat_mult)
  ultimately have "(of_nat (x + 268435456 * unat b) :: uint32) = of_nat (x + 268435456 * low7 b)"
    by (simp only: of_nat_add add_0_right)
  with of_nat_or_push_bit [of x 28 "unat b", where ?'a = 32] assms show ?thesis by simp
qed

lemma of_nat32_drop: "(of_nat (x + 34359738368 * y) :: uint32) = of_nat x"
proof -
  have "(of_nat (34359738368 * y) :: uint32) = 0"
    by (simp add: word_unat_eq_iff unat_of_nat mod_eq_0_iff_dvd del: of_nat_mult)
  then show ?thesis by (simp only: of_nat_add add_0_right)
qed

lemma varint32_discard_ends:
  assumes "u \<noteq> []" "length u \<le> k" "list_all continues (butlast u)" "\<not> continues (last u)"
  shows "varint32_discard k (w @ u @ r) (length w) = Some (Some (length w + length u))"
  using assms
proof (induction k arbitrary: w u)
  case (Suc k)
  from Suc.prems(1) obtain b u' where u: "u = b # u'" by (cases u) auto
  have b: "rdb (w @ u @ r) (length w) = Some (ucast b)" by (simp add: u rdb_def rd_def)
  show ?case
  proof (cases "u' = []")
    case True
    with Suc.prems u b show ?thesis by (simp add: ucast_and_80)
  next
    case False
    with Suc.IH [of u' "w @ [b]"] Suc.prems u b show ?thesis by (simp add: ucast_and_80)
  qed
qed simp

lemma varint32_discard_endless:
  "length u = k \<Longrightarrow> list_all continues u \<Longrightarrow> varint32_discard k (w @ u @ r) (length w) = Some None"
proof (induction k arbitrary: w u)
  case (Suc k)
  then obtain b u' where u: "u = b # u'" by (cases u) auto
  have "rdb (w @ u @ r) (length w) = Some (ucast b)" by (simp add: u rdb_def rd_def)
  with Suc.IH [of u' "w @ [b]"] Suc.prems u show ?case by (simp add: ucast_and_80)
qed simp


lemma varint32_fast_ends:
  assumes "v \<noteq> []" "length v \<le> 10" "list_all continues (butlast v)" "\<not> continues (last v)"
  shows "varint32_fast (v @ r) = Some (Some (length v, of_nat (varint_nat v)))"
proof (cases "length v \<le> 5")
  case True
  define f where "f = nth v"
  define n where "n = length v"
  have "v = map f [0..<n]" unfolding f_def n_def by (rule map_nth [symmetric])
  then have "v = take n (map f [0..<5])" using True by (simp add: take_map n_def)
  then have v: "v = take n [f 0, f 1, f 2, f 3, f 4]" by (simp add: upt_rec numeral_eq_Suc)
  have "n = 5 \<or> n = 4 \<or> n = 3 \<or> n = 2 \<or> n = 1"
    using assms(1) True unfolding n_def by (cases v) (auto simp: le_Suc_eq numeral_eq_Suc)
  then show ?thesis
    using assms(3,4) low7_less [of "f 0"] low7_less [of "f 1"] low7_less [of "f 2"] low7_less [of "f 3"]
      low7_less [of "f 4"]
    unfolding v
    by (elim disjE; simp add: varint32_fast_def varint_fast_simps or_28 add.assoc
        del: push_bit_and varint_nat.simps(2) of_nat_add of_nat_mult of_nat_numeral)
next
  case False
  define f where "f = nth v"
  define u where "u = drop 5 v"
  have "take 5 v = map f [0..<5]"
    using False by (intro nth_equalityI) (auto simp: f_def)
  then have "take 5 v = [f 0, f 1, f 2, f 3, f 4]" by (simp add: upt_rec numeral_eq_Suc)
  then have v: "v = [f 0, f 1, f 2, f 3, f 4] @ u" by (metis append_take_drop_id u_def)
  have un: "u \<noteq> []" "length u \<le> 5" using False assms(2) by (simp_all add: u_def)
  have "butlast v = [f 0, f 1, f 2, f 3, f 4] @ butlast u" "last v = last u"
    using un(1) by (subst v, simp add: butlast_append)+
  with assms(3,4) have c: "continues (f 0)" "continues (f 1)" "continues (f 2)" "continues (f 3)" "continues (f 4)"
    and u: "list_all continues (butlast u)" "\<not> continues (last u)" by simp_all
  have d: "varint32_discard 5 (f 0 # f 1 # f 2 # f 3 # f 4 # u @ r) 5 = Some (Some (5 + length u))"
    using varint32_discard_ends [OF un u, of "[f 0, f 1, f 2, f 3, f 4]"] by (simp add: eval_nat_numeral)
  have val: "(of_nat (varint_nat v) :: uint32) = of_nat (low7 (f 0) + 128 * low7 (f 1) +
      16384 * low7 (f 2) + 2097152 * low7 (f 3) + 268435456 * low7 (f 4))"
  proof -
    have "varint_nat v = low7 (f 0) + 128 * low7 (f 1) + 16384 * low7 (f 2) + 2097152 * low7 (f 3) +
        268435456 * low7 (f 4) + 34359738368 * varint_nat u"
      by (subst v) (simp add: varint_nat_Cons del: varint_nat.simps(2))
    then show ?thesis by (simp only: of_nat32_drop)
  qed
  have "varint32_fast (f 0 # f 1 # f 2 # f 3 # f 4 # u @ r) = Some (Some (5 + length u,
      of_nat (low7 (f 0) + 128 * low7 (f 1) + 16384 * low7 (f 2) + 2097152 * low7 (f 3) +
        268435456 * low7 (f 4))))"
    using c d low7_less [of "f 0"] low7_less [of "f 1"] low7_less [of "f 2"] low7_less [of "f 3"]
      low7_less [of "f 4"]
    by (simp add: varint32_fast_def varint_fast_simps or_28 kMaxVarintBytes_def kMaxVarint32Bytes_def
        del: push_bit_and varint_nat.simps(2) of_nat_add of_nat_mult of_nat_numeral)
  moreover have "v @ r = f 0 # f 1 # f 2 # f 3 # f 4 # u @ r" "length v = 5 + length u"
    by (subst v, simp)+
  ultimately show ?thesis by (simp only: val)
qed

lemma varint32_fast_endless:
  assumes "length v = 10" "list_all continues v"
  shows "varint32_fast (v @ r) = Some None"
proof -
  obtain b0 b1 b2 b3 b4 u where v: "v = [b0, b1, b2, b3, b4] @ u" "length u = 5"
    using assms(1) by (auto simp: length_Suc_conv numeral_eq_Suc)
  then have "varint32_discard 5 (b0 # b1 # b2 # b3 # b4 # u @ r) 5 = Some None"
    using varint32_discard_endless [of u 5 "[b0, b1, b2, b3, b4]" r] assms(2)
    by (simp add: eval_nat_numeral)
  with v assms(2) show ?thesis
    by (simp add: varint32_fast_def rdb_Cons ucast_and_80 Let_def kMaxVarintBytes_def
        kMaxVarint32Bytes_def del: push_bit_and)
qed

text \<open>What the test for the fast path gives.\<close>

lemma varint_fast_ok_cases:
  assumes c: "ci_ok ok lastb c" and f: "varint_fast_ok c"
  obtains v r where "varint_split 10 (ci_readable c) = Some (v, r)"
  | v r where "ci_readable c = v @ r" "length v = 10" "list_all continues v"
proof -
  note len = ci_readable_pending(1) [OF c] and b = ci_okD [OF c]
  show thesis
  proof (cases "varint_split 10 (ci_readable c)")
    case None
    have "10 \<le> length (ci_readable c)"
    proof (rule ccontr)
      assume short: "\<not> ?thesis"
      with f len b(3) have n: "ci_buffer_size c > 0"
        and e: "ci_buffer c ! nat (ci_buffer_size c - 1) AND 0x80 = 0"
        by (auto simp: varint_fast_ok_def kMaxVarintBytes_def)
      have ne: "ci_readable c \<noteq> []" using n len by auto
      have "last (ci_readable c) = ci_buffer c ! nat (ci_buffer_size c - 1)"
        using n b(4) len ne by (simp add: last_conv_nth ci_readable_def nat_diff_distrib)
      with e have "\<not> continues (last (ci_readable c))" by (simp add: continues_def)
      with varint_split_terminated [OF ne this, of 10] short None show False by auto
    qed
    with varint_split_None_shape [OF None this] show thesis
      by (intro that(2) [of "take 10 (ci_readable c)" "drop 10 (ci_readable c)"]) auto
  next
    case (Some vr)
    then show thesis using that(1) by (cases vr) simp
  qed
qed

lemma varint_split_endless:
  "length v = n \<Longrightarrow> list_all continues v \<Longrightarrow> varint_split n (v @ r) = None"
  by (induction n arbitrary: v) (auto simp: length_Suc_conv)

text \<open>The fast paths, on what is unread.\<close>

lemma varint_fast_paths:
  assumes c: "ci_ok ok lastb c" and f: "varint_fast_ok c"
  shows "varint64_fast (ci_readable c) = Some (map_option (\<lambda>(v, r). (length v, of_nat (varint_nat v)))
      (varint_split 10 (ci_unread avail c)))"
    and "varint32_fast (ci_readable c) = Some (map_option (\<lambda>(v, r). (length v, of_nat (varint_nat v)))
      (varint_split 10 (ci_unread avail c)))"
    and "varint_split 10 (ci_unread avail c) = Some (v', r') \<Longrightarrow> int (length v') \<le> ci_buffer_size c"
proof -
  define u where "u = drop (nat (ci_buffer_size c)) (ci_unread avail c)"
  have app: "ci_unread avail c = ci_readable c @ u"
    unfolding u_def by (metis ci_readable_pending(2) [OF c] append_take_drop_id)
  note len = ci_readable_pending(1) [OF c]
  have "varint64_fast (ci_readable c) = Some (map_option (\<lambda>(v, r). (length v, of_nat (varint_nat v)))
      (varint_split 10 (ci_unread avail c))) \<and>
    varint32_fast (ci_readable c) = Some (map_option (\<lambda>(v, r). (length v, of_nat (varint_nat v)))
      (varint_split 10 (ci_unread avail c))) \<and>
    (varint_split 10 (ci_unread avail c) = Some (v', r') \<longrightarrow> int (length v') \<le> ci_buffer_size c)"
  proof (rule varint_fast_ok_cases [OF c f])
    fix v r assume s: "varint_split 10 (ci_readable c) = Some (v, r)"
    note sh = varint_split_shape [OF s]
    have "varint_split 10 (ci_unread avail c) = Some (v, r @ u)"
      unfolding app by (rule varint_split_more [OF s])
    moreover have "int (length v) \<le> ci_buffer_size c"
      using sh len by (metis length_append le_add1 nat_le_iff of_nat_le_iff le_nat_iff ci_okD(3) [OF c])
    ultimately show ?thesis
      using sh varint64_fast_ends [of v r] varint32_fast_ends [of v r] by auto
  next
    fix v r assume s: "ci_readable c = v @ r" "length v = 10" "list_all continues v"
    then have "varint_split 10 (ci_unread avail c) = None"
      by (simp add: app varint_split_endless)
    with s show ?thesis using varint64_fast_endless [of v r] varint32_fast_endless [of v r] by simp
  qed
  then show "varint64_fast (ci_readable c) = Some (map_option (\<lambda>(v, r). (length v, of_nat (varint_nat v)))
      (varint_split 10 (ci_unread avail c)))"
    "varint32_fast (ci_readable c) = Some (map_option (\<lambda>(v, r). (length v, of_nat (varint_nat v)))
      (varint_split 10 (ci_unread avail c)))"
    "varint_split 10 (ci_unread avail c) = Some (v', r') \<Longrightarrow> int (length v') \<le> ci_buffer_size c"
    by simp_all
qed

section \<open>Reading varints\<close>

context zero_copy_input
begin

lemma refresh_while_empty_spec:
  assumes "ci_ok ok last c"
  shows "\<exists>c'. refresh_while_empty vt c = Some (ci_unread avail c \<noteq> [], c') \<and> ci_ok ok last c' \<and>
    ci_moves avail 0 c c' \<and> (ci_unread avail c \<noteq> [] \<longrightarrow> 0 < ci_buffer_size c') \<and>
    ci_last_tag c' = ci_last_tag c"
  using assms
proof (induction "rank (ci_input c)" arbitrary: c rule: less_induct)
  case less
  note b = ci_okD [OF less.prems]
  show ?case
  proof (cases "ci_buffer_size c = 0")
    case False
    then have n: "0 < ci_buffer_size c" using b(3) by simp
    then have "ci_unread avail c \<noteq> []"
      using ci_Advance(4) [OF less.prems b(3) order.refl, of avail] by auto
    with False n less.prems show ?thesis by (subst refresh_while_empty.simps) simp
  next
    case True
    obtain r c1 where rf: "ci_Refresh vt c = Some (r, c1)" "ci_ok ok last c1"
      "ci_moves avail (nat (ci_buffer_size c)) c c1"
      "r \<Longrightarrow> rank (ci_input c1) < rank (ci_input c)"
      "\<not> r \<Longrightarrow> ci_buffer_size c1 = 0 \<and> ci_unread avail c1 = []" "ci_last_tag c1 = ci_last_tag c"
      using refresh [OF less.prems] by metis
    have m: "ci_moves avail 0 c c1" using rf(3) True by simp
    have u: "ci_unread avail c1 = ci_unread avail c" using ci_moves_unread [OF m] by simp
    show ?thesis
    proof (cases r)
      case False
      with True rf m u show ?thesis by (subst refresh_while_empty.simps) simp
    next
      case r: True
      from less.hyps [OF rf(4) [OF r] rf(2)] obtain c' where
        l: "refresh_while_empty vt c1 = Some (ci_unread avail c1 \<noteq> [], c')" "ci_ok ok last c'"
        "ci_moves avail 0 c1 c'" "ci_unread avail c1 \<noteq> [] \<longrightarrow> 0 < ci_buffer_size c'"
        "ci_last_tag c' = ci_last_tag c1" by auto
      have "ci_moves avail 0 c c'" using ci_moves_trans [OF m l(3)] by simp
      then show ?thesis
        using True rf(1,6) r l u by (subst refresh_while_empty.simps) simp
    qed
  qed
qed

text \<open>What a reader of varints leaves: the position after the varint, or somewhere in the malformed one.\<close>

definition varint_read :: "'s coded_input \<Rightarrow> 's coded_input \<Rightarrow> bool" where
  "varint_read c c' \<longleftrightarrow> ci_ok ok last c' \<and> ci_last_tag c' = ci_last_tag c \<and>
     (case varint_split 10 (ci_unread avail c) of
        None \<Rightarrow> \<exists>k. k \<le> length (ci_unread avail c) \<and> ci_moves avail k c c'
      | Some (v, r) \<Rightarrow> ci_moves avail (length v) c c')"

lemma varint64_slow_spec:
  assumes "ci_ok ok last c" and "n + count = 10" and "acc < 2 ^ (7 * count)"
  shows "\<exists>c'. varint64_slow vt (of_nat acc) count c =
      Some (map_option (\<lambda>(v, r). of_nat (acc + 2 ^ (7 * count) * varint_nat v))
        (varint_split n (ci_unread avail c)), c') \<and>
    ci_ok ok last c' \<and> ci_last_tag c' = ci_last_tag c \<and>
    (case varint_split n (ci_unread avail c) of
        None \<Rightarrow> \<exists>k. k \<le> length (ci_unread avail c) \<and> ci_moves avail k c c'
      | Some (v, r) \<Rightarrow> ci_moves avail (length v) c c')"
  using assms
proof (induction n arbitrary: c count acc)
  case 0
  then show ?case
    by (subst varint64_slow.simps) (auto simp: kMaxVarintBytes_def intro!: exI [of _ "0::nat"])
next
  case (Suc n)
  have ne: "count \<noteq> kMaxVarintBytes" using Suc.prems(2) by (simp add: kMaxVarintBytes_def)
  obtain c1 where w: "refresh_while_empty vt c = Some (ci_unread avail c \<noteq> [], c1)" "ci_ok ok last c1"
    "ci_moves avail 0 c c1" "ci_unread avail c \<noteq> [] \<longrightarrow> 0 < ci_buffer_size c1"
    "ci_last_tag c1 = ci_last_tag c"
    using refresh_while_empty_spec [OF Suc.prems(1)] by auto
  have u1: "ci_unread avail c1 = ci_unread avail c" using ci_moves_unread [OF w(3)] by simp
  show ?case
  proof (cases "ci_unread avail c")
    case Nil
    with w ne show ?thesis
      by (subst varint64_slow.simps) (auto intro!: exI [of _ "0::nat"])
  next
    case (Cons b bs)
    with w(4) have sz: "1 \<le> ci_buffer_size c1" by simp
    note a = ci_Advance(1) [OF w(2) _ sz, simplified] ci_Advance(2) [OF w(2) _ sz, of avail, simplified]
    have m: "ci_moves avail 1 c (ci_Advance 1 c1)" using ci_moves_trans [OF w(3) a(2)] by simp
    have u2: "ci_unread avail (ci_Advance 1 c1) = bs" using ci_moves_unread [OF m] Cons by simp
    have tag: "ci_last_tag (ci_Advance 1 c1) = ci_last_tag c" using w(5) by (simp add: ci_Advance_def)
    have "ci_readable c1 = take (nat (ci_buffer_size c1)) (b # bs)"
      using ci_readable_pending(2) [OF w(2), of avail] u1 Cons by simp
    then have rd0: "rdb (ci_readable c1) 0 = Some (ucast b)"
      using sz by (cases "nat (ci_buffer_size c1)") (simp_all add: rdb_Cons)
    define acc' where "acc' = acc + 2 ^ (7 * count) * low7 b"
    have val: "(of_nat acc :: uint64) OR push_bit (7 * count) (ucast ((ucast b :: uint32) AND 0x7F)) = of_nat acc'"
    proof -
      have "unat (of_nat (low7 b) :: uint32) = low7 b"
        using low7_less [of b] by (simp add: unat_of_nat)
      then show ?thesis
        unfolding ucast_and_7F acc'_def using of_nat_or_push_bit [OF Suc.prems(3), of "low7 b"]
        by (simp add: ucast_of_nat_unat del: of_nat_unat)
    qed
    have bound: "acc' < 2 ^ (7 * (count + 1))"
    proof -
      have "2 ^ (7 * count) * low7 b \<le> 2 ^ (7 * count) * 127"
        using low7_less [of b] by (intro mult_le_mono2) simp
      moreover have "(2 :: nat) ^ (7 * (count + 1)) = 128 * 2 ^ (7 * count)" by (simp add: power_add)
      ultimately show ?thesis using Suc.prems(3) unfolding acc'_def by linarith
    qed
    show ?thesis
    proof (cases "continues b")
      case False
      have "varint64_slow vt (of_nat acc) count c = Some (Some (of_nat acc'), ci_Advance 1 c1)"
        using ne w(1) Cons rd0 val False
        by (subst varint64_slow.simps) (simp add: ucast_and_80 del: ucast_of_nat_unat push_bit_and)
      with a(1) m tag Cons False show ?thesis by (simp add: acc'_def varint_nat_Cons del: varint_nat.simps(2))
    next
      case True
      have step: "varint64_slow vt (of_nat acc) count c =
          varint64_slow vt (of_nat acc') (count + 1) (ci_Advance 1 c1)"
        using ne w(1) Cons rd0 val True
        by (subst varint64_slow.simps) (simp add: ucast_and_80 del: ucast_of_nat_unat push_bit_and)
      have "n + (count + 1) = 10" using Suc.prems(2) by simp
      from Suc.IH [OF a(1) this bound] obtain c' where
        l: "varint64_slow vt (of_nat acc') (count + 1) (ci_Advance 1 c1) =
            Some (map_option (\<lambda>(v, r). of_nat (acc' + 2 ^ (7 * (count + 1)) * varint_nat v))
              (varint_split n bs), c')" "ci_ok ok last c'" "ci_last_tag c' = ci_last_tag c"
        "case varint_split n bs of None \<Rightarrow> \<exists>k. k \<le> length bs \<and> ci_moves avail k (ci_Advance 1 c1) c'
          | Some (v, r) \<Rightarrow> ci_moves avail (length v) (ci_Advance 1 c1) c'"
        unfolding u2 tag by blast
      show ?thesis
      proof (cases "varint_split n bs")
        case None
        with l(4) obtain k where k: "k \<le> length bs" "ci_moves avail k (ci_Advance 1 c1) c'" by auto
        from ci_moves_trans [OF m k(2)] k(1) l None Cons True show ?thesis
          by (simp add: step) (metis Suc_le_mono)
      next
        case (Some vr)
        then obtain v r where s: "varint_split n bs = Some (v, r)" by (cases vr) simp
        with l(4) have "ci_moves avail (length v) (ci_Advance 1 c1) c'" by simp
        from ci_moves_trans [OF m this] l s Cons True show ?thesis
          by (simp add: step acc'_def varint_nat_Cons power_add algebra_simps
              del: varint_nat.simps(2) of_nat_add of_nat_mult of_nat_numeral of_nat_power)
      qed
    qed
  qed
qed

lemma read_varint64:
  assumes c: "ci_ok ok last c"
  obtains c' where "CodedInputStream_ReadVarint64 vt c =
      Some (map_option (\<lambda>(v, r). of_nat (varint_nat v)) (varint_split 10 (ci_unread avail c)), c')"
    and "varint_read c c'"
proof (cases "varint_fast_ok c")
  case False
  with varint64_slow_spec [OF c, of 10 0 0] that show thesis
    by (auto simp: CodedInputStream_ReadVarint64_def varint_read_def)
next
  case True
  note f = varint_fast_paths [OF c True, of avail]
  show thesis
  proof (cases "varint_split 10 (ci_unread avail c)")
    case None
    with True f(1) c show thesis
      by (intro that [of c])
        (auto simp: CodedInputStream_ReadVarint64_def varint_read_def intro!: exI [of _ "0::nat"])
  next
    case (Some vr)
    then obtain v r where s: "varint_split 10 (ci_unread avail c) = Some (v, r)" by (cases vr) simp
    note a = ci_Advance(1) [OF c _ f(3) [OF s]] ci_Advance(2) [OF c _ f(3) [OF s], of avail]
    from True f(1) s a show thesis
      by (intro that [of "ci_Advance (int (length v)) c"])
        (auto simp: CodedInputStream_ReadVarint64_def varint_read_def ci_Advance_def)
  qed
qed

text \<open>
  The end of a message: the flag \<open>ConsumedEntireMessage\<close> reads is set where the bytes end at a pushed
  limit or at the end of the stream, not where they end at the total limit.
\<close>

lemma refresh_or_message_end_spec:
  assumes "ci_ok ok last c"
  shows "\<exists>c'. refresh_or_message_end vt c = Some (ci_unread avail c \<noteq> [], c') \<and> ci_ok ok last c' \<and>
    ci_moves avail 0 c c' \<and> ci_last_tag c' = ci_last_tag c \<and>
    (ci_unread avail c = [] \<longrightarrow> ci_legitimate_message_end c' =
      (ci_position c < ci_total_bytes_limit c \<or> ci_current_limit c = ci_total_bytes_limit c))"
  using assms
proof (induction "rank (ci_input c)" arbitrary: c rule: less_induct)
  case less
  note b = ci_okD [OF less.prems]
  show ?case
  proof (cases "ci_buffer_size c = 0")
    case False
    then have n: "0 < ci_buffer_size c" using b(3) by simp
    then have "ci_unread avail c \<noteq> []"
      using ci_Advance(4) [OF less.prems b(3) order.refl, of avail] by auto
    with False n less.prems show ?thesis by (subst refresh_or_message_end.simps) simp
  next
    case z: True
    have pos: "ci_position c = ci_total_bytes_read c - ci_buffer_size_after_limit c"
      using z by (simp add: ci_position_def)
    show ?thesis
    proof (cases "ci_buffer_size_after_limit c > 0 \<and> ci_position c < ci_total_bytes_limit c")
      case True
      have "ci_position c = ci_closest c"
        using True less.prems pos by (auto simp: ci_ok_def max_def split: if_splits)
      then have "ci_unread avail c = []" by (simp add: ci_unread_def)
      with z True pos less.prems show ?thesis
        by (subst refresh_or_message_end.simps) simp
    next
      case False
      obtain r c1 where rf: "ci_Refresh vt c = Some (r, c1)" "ci_ok ok last c1"
        "ci_moves avail (nat (ci_buffer_size c)) c c1"
        "r \<Longrightarrow> rank (ci_input c1) < rank (ci_input c)"
        "\<not> r \<Longrightarrow> ci_buffer_size c1 = 0 \<and> ci_unread avail c1 = []" "ci_last_tag c1 = ci_last_tag c"
        using refresh [OF less.prems] by metis
      have m: "ci_moves avail 0 c c1" using rf(3) z by simp
      have u: "ci_unread avail c1 = ci_unread avail c" using ci_moves_unread [OF m] by simp
      have lims: "ci_current_limit c1 = ci_current_limit c"
        "ci_total_bytes_limit c1 = ci_total_bytes_limit c" "ci_position c1 = ci_position c"
        using m by (simp_all add: ci_moves_def ci_frame_def)
      show ?thesis
      proof (cases r)
        case r: False
        with rf(5) have z1: "ci_buffer_size c1 = 0" "ci_unread avail c1 = []" by auto
        then have p1: "ci_total_bytes_read c1 - ci_buffer_size_after_limit c1 = ci_position c"
          using lims by (simp add: ci_position_def)
        show ?thesis
          using z False pos rf(1,2,6) r m u z1 p1 lims
          by (subst refresh_or_message_end.simps) auto
      next
        case r: True
        from less.hyps [OF rf(4) [OF r] rf(2)] obtain c' where
          l: "refresh_or_message_end vt c1 = Some (ci_unread avail c1 \<noteq> [], c')" "ci_ok ok last c'"
          "ci_moves avail 0 c1 c'" "ci_last_tag c' = ci_last_tag c1"
          "ci_unread avail c1 = [] \<longrightarrow> ci_legitimate_message_end c' =
            (ci_position c1 < ci_total_bytes_limit c1 \<or> ci_current_limit c1 = ci_total_bytes_limit c1)"
          by blast
        have "ci_moves avail 0 c c'" using ci_moves_trans [OF m l(3)] by simp
        then show ?thesis
          using z False pos rf(1,6) r l u lims by (subst refresh_or_message_end.simps) auto
      qed
    qed
  qed
qed

lemma read_varint32_fallback:
  assumes c: "ci_ok ok last c"
  obtains c' where "CodedInputStream_ReadVarint32Fallback vt c =
      Some (map_option (\<lambda>(v, r). of_nat (varint_nat v)) (varint_split 10 (ci_unread avail c)), c')"
    and "varint_read c c'"
    and "ci_unread avail c = [] \<Longrightarrow> ci_legitimate_message_end c' =
      (ci_position c < ci_total_bytes_limit c \<or> ci_current_limit c = ci_total_bytes_limit c)"
proof (cases "varint_fast_ok c")
  case True
  note f = varint_fast_paths [OF c True, of avail]
  have ne: "ci_unread avail c \<noteq> []"
  proof
    assume "ci_unread avail c = []"
    then have "nat (ci_buffer_size c) = 0"
      using ci_readable_pending(1) [OF c] ci_readable_pending(2) [OF c, of avail] by simp
    with True ci_okD(3) [OF c] show False by (auto simp: varint_fast_ok_def kMaxVarintBytes_def)
  qed
  show thesis
  proof (cases "varint_split 10 (ci_unread avail c)")
    case None
    with True f(2) c ne show thesis
      by (intro that [of c])
        (auto simp: CodedInputStream_ReadVarint32Fallback_def varint_read_def intro!: exI [of _ "0::nat"])
  next
    case (Some vr)
    then obtain v r where s: "varint_split 10 (ci_unread avail c) = Some (v, r)" by (cases vr) simp
    note a = ci_Advance(1) [OF c _ f(3) [OF s]] ci_Advance(2) [OF c _ f(3) [OF s], of avail]
    from True f(2) s a ne show thesis
      by (intro that [of "ci_Advance (int (length v)) c"])
        (auto simp: CodedInputStream_ReadVarint32Fallback_def varint_read_def ci_Advance_def)
  qed
next
  case False
  obtain c1 where w: "refresh_or_message_end vt c = Some (ci_unread avail c \<noteq> [], c1)" "ci_ok ok last c1"
    "ci_moves avail 0 c c1" "ci_last_tag c1 = ci_last_tag c"
    "ci_unread avail c = [] \<longrightarrow> ci_legitimate_message_end c1 =
      (ci_position c < ci_total_bytes_limit c \<or> ci_current_limit c = ci_total_bytes_limit c)"
    using refresh_or_message_end_spec [OF c] by blast
  have u1: "ci_unread avail c1 = ci_unread avail c" using ci_moves_unread [OF w(3)] by simp
  show thesis
  proof (cases "ci_unread avail c = []")
    case True
    with False w show thesis
      by (intro that [of c1])
        (auto simp: CodedInputStream_ReadVarint32Fallback_def varint_read_def numeral_eq_Suc
          intro!: exI [of _ "0::nat"])
  next
    case ne: False
    obtain c' where r: "CodedInputStream_ReadVarint64 vt c1 =
        Some (map_option (\<lambda>(v, r). of_nat (varint_nat v)) (varint_split 10 (ci_unread avail c1)), c')"
      "varint_read c1 c'" using read_varint64 [OF w(2)] by blast
    have "(\<lambda>x. ucast x :: uint32) \<circ> (\<lambda>(v, r). of_nat (varint_nat v) :: uint64) =
        (\<lambda>(v :: bytes, r :: bytes). of_nat (varint_nat v))"
      by (auto simp: unsigned_of_nat word_of_nat_eq_iff)
      then have "CodedInputStream_ReadVarint32Fallback vt c =
        Some (map_option (\<lambda>(v, r). of_nat (varint_nat v)) (varint_split 10 (ci_unread avail c)), c')"
      using False ne w(1) r(1)
      by (simp add: CodedInputStream_ReadVarint32Fallback_def u1 option.map_comp)
    moreover have "varint_read c c'"
      using r(2) w(4) ci_moves_trans [OF w(3)]
      unfolding varint_read_def u1 by (fastforce split: option.splits)
    ultimately show thesis using ne by (intro that) auto
  qed
qed

text \<open>A one-byte varint in the buffer, which the inlined readers take at once.\<close>

lemma single_byte:
  assumes c: "ci_ok ok last c" and b: "ci_buffer_size c \<noteq> 0" "ci_buffer c ! 0 < 0x80"
  shows "varint_split 10 (ci_unread avail c) = Some ([ci_buffer c ! 0], tl (ci_unread avail c))"
    and "ci_unread avail c \<noteq> []"
    and "ci_ok ok last (ci_Advance 1 c)" and "ci_moves avail 1 c (ci_Advance 1 c)"
proof -
  have n: "1 \<le> ci_buffer_size c" using b(1) ci_okD(3) [OF c] by simp
  note a = ci_Advance(1) [OF c _ n, simplified] ci_Advance(2-4) [OF c _ n, of avail, simplified]
  show ok': "ci_ok ok last (ci_Advance 1 c)" and "ci_moves avail 1 c (ci_Advance 1 c)"
    using a(1,2) by simp_all
  obtain x xs where u: "ci_unread avail c = x # xs"
    using a(4) by (cases "ci_unread avail c") auto
  moreover have "ci_buffer c ! 0 = x"
  proof -
    have "ci_buffer c \<noteq> []" using n ci_okD(4) [OF c] by (cases "ci_buffer c") auto
    with a(3) u show ?thesis by (cases "ci_buffer c") auto
  qed
  ultimately show "varint_split 10 (ci_unread avail c) = Some ([ci_buffer c ! 0], tl (ci_unread avail c))"
    using b(2) more_not_less [of x] by (simp add: numeral_eq_Suc)
  show "ci_unread avail c \<noteq> []" using u by simp
qed

lemma read_varint32:
  assumes c: "ci_ok ok last c"
  obtains c' where "CodedInputStream_ReadVarint32 vt c =
      Some (map_option (\<lambda>(v, r). of_nat (varint_nat v)) (varint_split 10 (ci_unread avail c)), c')"
    and "varint_read c c'"
    and "ci_unread avail c = [] \<Longrightarrow> ci_legitimate_message_end c' =
      (ci_position c < ci_total_bytes_limit c \<or> ci_current_limit c = ci_total_bytes_limit c)"
proof (cases "ci_buffer_size c \<noteq> 0 \<and> ci_buffer c ! 0 < 0x80")
  case False
  with read_varint32_fallback [OF c] that show thesis
    by (auto simp: CodedInputStream_ReadVarint32_def)
next
  case True
  note s = single_byte [OF c conjunct1 [OF True] conjunct2 [OF True]]
  have "varint_nat [ci_buffer c ! 0] = unat (ci_buffer c ! 0)"
    using True by (simp add: and_7F_small more_not_less)
  with True s show thesis
    by (intro that [of "ci_Advance 1 c"])
      (auto simp: CodedInputStream_ReadVarint32_def varint_read_def ci_Advance_def)
qed

section \<open>Tags\<close>

lemma two_bytes:
  assumes c: "ci_ok ok last c" and n: "2 \<le> ci_buffer_size c"
  obtains b0 b1 xs where "ci_unread avail c = b0 # b1 # xs" "ci_buffer c ! 0 = b0" "ci_buffer c ! 1 = b1"
    and "ci_ok ok last (ci_Advance 2 c)" and "ci_moves avail 2 c (ci_Advance 2 c)"
proof -
  note a = ci_Advance(1) [OF c _ n, simplified] ci_Advance(2-4) [OF c _ n, of avail, simplified]
  have len: "2 \<le> length (ci_buffer c)" using n ci_okD(4) [OF c] by simp
  then obtain b0 b1 ys where b: "ci_buffer c = b0 # b1 # ys"
    by (cases "ci_buffer c"; cases "tl (ci_buffer c)") auto
  moreover obtain xs where "ci_unread avail c = b0 # b1 # xs"
    using a(3,4) b by (cases "ci_unread avail c"; cases "tl (ci_unread avail c)") (auto simp: numeral_2_eq_2)
  ultimately show thesis using that a(1,2) by simp
qed

lemma read_tag:
  assumes c: "ci_ok ok last c"
  obtains c' where "CodedInputStream_ReadTag vt c =
      Some (case varint_split 10 (ci_unread avail c) of None \<Rightarrow> 0 | Some (v, r) \<Rightarrow> of_nat (varint_nat v), c')"
    and "varint_read c (c'\<lparr>ci_last_tag := ci_last_tag c\<rparr>)"
    and "ci_last_tag c' =
      (case varint_split 10 (ci_unread avail c) of None \<Rightarrow> 0 | Some (v, r) \<Rightarrow> of_nat (varint_nat v))"
    and "ci_unread avail c = [] \<Longrightarrow> ci_legitimate_message_end c' =
      (ci_position c < ci_total_bytes_limit c \<or> ci_current_limit c = ci_total_bytes_limit c)"
proof -
  consider (one) "ci_buffer_size c \<noteq> 0 \<and> ci_buffer c ! 0 < 0x80"
    | (two) "\<not> (ci_buffer_size c \<noteq> 0 \<and> ci_buffer c ! 0 < 0x80)"
        "ci_buffer_size c \<ge> 2 \<and> ci_buffer c ! 1 < 0x80"
    | (more) "\<not> (ci_buffer_size c \<noteq> 0 \<and> ci_buffer c ! 0 < 0x80)"
        "\<not> (ci_buffer_size c \<ge> 2 \<and> ci_buffer c ! 1 < 0x80)" by blast
  then show thesis
  proof cases
    case one
    note s = single_byte [OF c conjunct1 [OF one] conjunct2 [OF one]]
    let ?t = "ucast (ci_buffer c ! 0) :: uint32"
    have "varint_nat [ci_buffer c ! 0] = unat (ci_buffer c ! 0)"
      using one by (simp add: and_7F_small more_not_less)
    with one s show thesis
      by (intro that [of "ci_Advance 1 (c\<lparr>ci_last_tag := ?t\<rparr>)"])
        (auto simp: CodedInputStream_ReadTag_def varint_read_def ci_Advance_def Let_def)
  next
    case two
    obtain b0 b1 xs where s: "ci_unread avail c = b0 # b1 # xs" "ci_buffer c ! 0 = b0" "ci_buffer c ! 1 = b1"
      "ci_ok ok last (ci_Advance 2 c)" "ci_moves avail 2 c (ci_Advance 2 c)"
      using two_bytes [OF c conjunct1 [OF two(2)]] by metis
    let ?t = "(ucast b0 AND 0x7F) + push_bit 7 (ucast b1) :: uint32"
    have cont: "continues b0" "\<not> continues b1" using two s(2,3) more_not_less by auto
    have "low7 b1 = unat b1" using cont(2) by (simp add: low7_def continues_iff)
    then have "?t = of_nat (varint_nat [b0, b1])"
      by (simp add: ucast_and_7F varint_nat_Cons push_bit_eq_mult mult.commute del: varint_nat.simps(2) push_bit_and)
    moreover have "varint_split 10 (ci_unread avail c) = Some ([b0, b1], xs)"
      using cont by (simp add: s(1) numeral_eq_Suc)
    moreover have "CodedInputStream_ReadTag vt c = Some (?t, ci_Advance 2 (c\<lparr>ci_last_tag := ?t\<rparr>))"
      using two s(2,3) by (auto simp: CodedInputStream_ReadTag_def Let_def)
    ultimately show thesis using s
      by (intro that [of "ci_Advance 2 (c\<lparr>ci_last_tag := ?t\<rparr>)"])
        (simp_all add: varint_read_def ci_Advance_def numeral_2_eq_2)
  next
    case more
    obtain c' where f: "CodedInputStream_ReadVarint32Fallback vt c =
        Some (map_option (\<lambda>(v, r). of_nat (varint_nat v)) (varint_split 10 (ci_unread avail c)), c')"
      "varint_read c c'"
      "ci_unread avail c = [] \<Longrightarrow> ci_legitimate_message_end c' =
        (ci_position c < ci_total_bytes_limit c \<or> ci_current_limit c = ci_total_bytes_limit c)"
      using read_varint32_fallback [OF c] by blast
    define t where "t = (case varint_split 10 (ci_unread avail c) of
      None \<Rightarrow> 0 :: uint32 | Some (v, r) \<Rightarrow> of_nat (varint_nat v))"
    have "CodedInputStream_ReadTag vt c = Some (t, c'\<lparr>ci_last_tag := t\<rparr>)"
      unfolding CodedInputStream_ReadTag_def if_not_P [OF more(1)] if_not_P [OF more(2)] f(1) t_def
      by (auto split: option.splits)
    moreover have "varint_read c (c'\<lparr>ci_last_tag := ci_last_tag c\<rparr>)"
      using f(2) by (auto simp: varint_read_def split: option.splits)
    ultimately show thesis using f(3)
      by (intro that [of "c'\<lparr>ci_last_tag := t\<rparr>"]) (simp_all add: t_def)
  qed
qed

lemma expect_tag:
  assumes c: "ci_ok ok last c" and e: "CodedInputStream_ExpectTag expected c = (r, c')"
  shows "\<not> r \<Longrightarrow> c' = c"
    and "r \<Longrightarrow> ci_ok ok last c' \<and>
      ci_unread avail c = varint_bytes (unat expected) @ ci_unread avail c' \<and>
      ci_moves avail (length (varint_bytes (unat expected))) c c' \<and> ci_last_tag c' = ci_last_tag c"
proof -
  show "\<not> r \<Longrightarrow> c' = c" using e by (auto simp: CodedInputStream_ExpectTag_def split: if_splits)
  assume r
  then consider (one) "expected < 0x80" "ci_buffer_size c \<noteq> 0" "ucast (ci_buffer c ! 0) = expected"
      "c' = ci_Advance 1 c"
    | (two) "\<not> expected < 0x80" "expected < 0x4000" "ci_buffer_size c \<ge> 2"
      "ci_buffer c ! 0 = ucast (expected OR 0x80)" "ci_buffer c ! 1 = ucast (drop_bit 7 expected)"
      "c' = ci_Advance 2 c"
    using e by (auto simp: CodedInputStream_ExpectTag_def split: if_splits)
  then show "ci_ok ok last c' \<and>
      ci_unread avail c = varint_bytes (unat expected) @ ci_unread avail c' \<and>
      ci_moves avail (length (varint_bytes (unat expected))) c c' \<and> ci_last_tag c' = ci_last_tag c"
  proof cases
    case one
    have x: "unat (ci_buffer c ! 0) = unat expected"
      using one(3) by (metis unat_ucast_byte)
    then have "unat (ci_buffer c ! 0) < 0x80" using one(1) by (simp add: word_less_nat_alt)
    then have lt: "ci_buffer c ! 0 < 0x80" by (simp add: word_less_nat_alt)
    note s = single_byte [OF c one(2) lt]
    have "varint_bytes (unat expected) = [ci_buffer c ! 0]"
      using x one(1) by (subst varint_bytes.simps) (simp flip: x add: word_less_nat_alt lt)
    with s one(4) ci_moves_unread [OF s(4)] varint_split_append [OF s(1)] show ?thesis
      by (simp add: drop_Suc) (simp add: ci_Advance_def)
  next
    case two
    obtain b0 b1 xs where s: "ci_unread avail c = b0 # b1 # xs" "ci_buffer c ! 0 = b0" "ci_buffer c ! 1 = b1"
      "ci_ok ok last (ci_Advance 2 c)" "ci_moves avail 2 c (ci_Advance 2 c)"
      using two_bytes [OF c two(3)] by metis
    define n where "n = unat expected"
    have n: "128 \<le> n" "n < 16384"
      using two(1,2) by (simp_all add: n_def word_less_nat_alt word_le_nat_alt not_less)
    have "varint_bytes n = [of_nat (n mod 128 + 128), of_nat (n div 128)]"
      using n by (subst varint_bytes.simps, subst varint_bytes.simps) (simp add: div_less_iff_less_mult)
    moreover have "b0 = of_nat (n mod 128 + 128)"
      using two(4) s(2) by (simp add: n_def ucast_or_80)
    moreover have "b1 = of_nat (n div 128)"
      using two(5) s(3) by (simp add: n_def ucast_drop_7)
    ultimately have "varint_bytes n = [b0, b1]" by simp
    with s two(6) ci_moves_unread [OF s(5)] show ?thesis
      by (simp add: n_def [symmetric] numeral_2_eq_2) (simp add: ci_Advance_def)
  qed
qed

lemma expect_at_end:
  assumes c: "ci_ok ok last c" and e: "CodedInputStream_ExpectAtEnd c = (r, c')"
  shows "r \<Longrightarrow> ci_unread avail c = [] \<and> ci_legitimate_message_end c' \<and> ci_last_tag c' = 0"
    and "\<not> r \<Longrightarrow> c' = c" and "ci_ok ok last c'" and "ci_moves avail 0 c c'"
proof -
  show "\<not> r \<Longrightarrow> c' = c" "ci_ok ok last c'" "ci_moves avail 0 c c'"
    using c e by (auto simp: CodedInputStream_ExpectAtEnd_def split: if_splits)
  assume r
  with e have z: "ci_buffer_size c = 0" "ci_buffer_size_after_limit c \<noteq> 0"
    "c' = c\<lparr>ci_last_tag := 0, ci_legitimate_message_end := True\<rparr>"
    by (auto simp: CodedInputStream_ExpectAtEnd_def split: if_splits)
  have "ci_position c = ci_closest c"
    using c z by (auto simp: ci_ok_def ci_position_def max_def split: if_splits)
  with z show "ci_unread avail c = [] \<and> ci_legitimate_message_end c' \<and> ci_last_tag c' = 0"
    by (simp add: ci_unread_def)
qed

section \<open>The destructor\<close>

lemma coded_destroy:
  assumes c: "ci_ok ok last c" and o: "ci_overflow_bytes c = 0"
  obtains s where "CodedInputStream_destroy vt c = Some s" "ok s" "avail s = ci_pending avail c"
proof -
  define n where "n = ci_buffer_size c + ci_buffer_size_after_limit c + ci_overflow_bytes c"
  note b = ci_okD [OF c]
  have n: "n = int (length (ci_buffer c))"
    using c o by (auto simp: n_def ci_ok_def ci_pre_def split: if_splits)
  have suf: "suffix (ci_buffer c) (last (ci_input c))" using c by (simp add: ci_ok_def ci_pre_def)
  show thesis
  proof (cases "ci_buffer c = []")
    case True
    then show thesis using that [of "ci_input c"] n b(2)
      by (simp add: CodedInputStream_destroy_def n_def [symmetric] ci_pending_def)
  next
    case False
    with suf have "last (ci_input c) \<noteq> []" by auto
    moreover have le: "length (ci_buffer c) \<le> length (last (ci_input c))"
      using suf by (rule suffix_length_le)
    ultimately obtain s where s: "in_backup vt n (ci_input c) = Some s" "ok s"
      "avail s = drop (length (last (ci_input c)) - nat n) (last (ci_input c)) @ avail (ci_input c)"
      using backup [OF b(2), of n] n by auto
    have "drop (length (last (ci_input c)) - nat n) (last (ci_input c)) = ci_buffer c"
      using suf n by (auto simp: suffix_def)
    with s False n show thesis
      by (intro that [of s]) (simp_all add: CodedInputStream_destroy_def n_def [symmetric] ci_pending_def)
  qed
qed

end

section \<open>Skip\<close>

context zero_copy_input_skip
begin

lemma coded_skip:
  assumes c: "ci_ok ok last c" and n: "0 \<le> n" "n \<le> INT_MAX"
  obtains c' where "CodedInputStream_Skip vt n c = Some (n \<le> int (length (ci_unread avail c)), c')"
    and "ci_ok ok last c'" and "ci_frame c c'"
    and "ci_unread avail c' = drop (nat n) (ci_unread avail c)"
    and "n \<le> int (length (ci_unread avail c)) \<Longrightarrow> ci_moves avail (nat n) c c'"
proof -
  note b = ci_okD [OF c]
  consider (buffered) "n \<le> ci_buffer_size c"
    | (limit) "\<not> n \<le> ci_buffer_size c" "ci_buffer_size_after_limit c > 0"
    | (input) "\<not> n \<le> ci_buffer_size c" "ci_buffer_size_after_limit c = 0"
    using b(5) by linarith
  then show thesis
  proof cases
    case buffered
    note a = ci_Advance(1) [OF c n(1) buffered] ci_Advance(2-4) [OF c n(1) buffered, of avail]
    show thesis
    proof (rule that)
      show "CodedInputStream_Skip vt n c = Some (n \<le> int (length (ci_unread avail c)), ci_Advance n c)"
        using n buffered a(4) by (simp add: CodedInputStream_Skip_def)
    qed (use a ci_moves_unread [OF a(2)] in \<open>auto simp: ci_moves_def\<close>)
  next
    case limit
    let ?c = "ci_Advance (ci_buffer_size c) c"
    note a = ci_Advance(1) [OF c b(3) order.refl] ci_Advance(2-4) [OF c b(3) order.refl, of avail]
    have sz: "ci_closest c - ci_position c = ci_buffer_size c"
      using c limit by (auto simp: ci_ok_def ci_position_def max_def split: if_splits)
    then have len: "int (length (ci_unread avail c)) = ci_buffer_size c"
      using a(4) b(3) by (simp add: ci_unread_def)
    show thesis
    proof (rule that)
      show "CodedInputStream_Skip vt n c = Some (n \<le> int (length (ci_unread avail c)), ?c)"
        using n limit len by (simp add: CodedInputStream_Skip_def)
      show "ci_unread avail ?c = drop (nat n) (ci_unread avail c)"
        using ci_moves_unread [OF a(2)] len limit(1) by simp
    qed (use a limit len in \<open>auto simp: ci_moves_def\<close>)
  next
    case input
    define k where "k = n - ci_buffer_size c"
    define c0 where "c0 = c\<lparr>ci_buffer := [], ci_buffer_size := 0\<rparr>"
    define room where "room = ci_closest c - ci_total_bytes_read c"
    have room: "0 \<le> room" using c input by (simp add: room_def ci_ok_def max_def split: if_splits)
    have pos: "ci_position c = ci_total_bytes_read c - ci_buffer_size c"
      using input by (simp add: ci_position_def)
    have k: "0 < k" using input by (simp add: k_def)
    define m where "m = min k room"
    have m: "0 \<le> m" "m \<le> room" using k room by (auto simp: m_def)
    obtain r s where sk: "in_skip vt m (ci_input c) = Some (r, s)" "ok s"
      "0 < m \<longrightarrow> r = (m \<le> int (length (avail (ci_input c))))" "avail s = drop (nat m) (avail (ci_input c))"
      using skip [OF b(2) m(1)] by blast
    define c' where "c' = c0\<lparr>ci_input := s, ci_total_bytes_read := ci_total_bytes_read c + m\<rparr>"
    have eq: "CodedInputStream_Skip vt n c = Some (if room < k then False else r, c')"
    proof (cases "room < k")
      case True
      then have "m = room" by (simp add: m_def)
      with True n input sk(1) show ?thesis
        by (simp add: CodedInputStream_Skip_def Let_def c'_def c0_def)
          (simp add: room_def k_def ci_closest_def)
    next
      case False
      then have "m = k" by (simp add: m_def)
      with False n input sk(1) show ?thesis
        by (simp add: CodedInputStream_Skip_def Let_def c'_def c0_def)
          (simp add: room_def k_def ci_closest_def)
    qed
    have fr: "ci_frame c c'" by (simp add: ci_frame_def c'_def c0_def)
    have pos': "ci_position c' = ci_total_bytes_read c + m" and cl: "ci_closest c' = ci_closest c"
      using input by (simp_all add: c'_def c0_def ci_position_def ci_closest_def)
    have ov: "0 < ci_overflow_bytes c \<Longrightarrow> m = 0"
      using c b(9,10) room k by (auto simp: m_def room_def ci_ok_def ci_pre_def)
    have "ci_ok ok last c'"
    proof -
      have "ci_total_bytes_read c + m \<le> ci_closest c" using m(2) by (simp add: room_def)
      with c input b(3,6,7,10) sk(2) ov m(1) pos show ?thesis
        unfolding ci_ok_def ci_pre_def pos' cl by (auto simp: c'_def c0_def)
    qed
    note facts = eq this fr
    have len0: "ci_overflow_bytes c = 0 \<Longrightarrow> int (length (ci_buffer c)) = ci_buffer_size c"
      using c input by (auto simp: ci_ok_def ci_pre_def split: if_splits)
    have un: "ci_unread avail c = take (nat (ci_buffer_size c + room)) (ci_pending avail c)"
      by (simp add: ci_unread_def pos room_def algebra_simps)
    have un': "ci_unread avail c' = take (nat (room - m)) (drop (nat m) (avail (ci_input c)))"
      using sk(4) by (simp add: ci_unread_def pos' cl room_def ci_pending_def algebra_simps)
        (simp add: c'_def c0_def)
    show thesis
    proof (cases "ci_overflow_bytes c = 0")
      case False
      then have z: "m = 0" "room = 0" using ov b(6) k by (auto simp: m_def)
      have "int (length (ci_unread avail c)) = ci_buffer_size c"
        using un z b(3,4) by (simp add: ci_pending_def)
      with z k facts un' show thesis by (intro that [of c']) (auto simp: k_def)
    next
      case True
      note len = len0 [OF True]
      then have nsz: "nat (ci_buffer_size c) = length (ci_buffer c)" by simp
      have lu: "length (ci_unread avail c) =
          nat (ci_buffer_size c) + min (nat room) (length (avail (ci_input c)))"
        using un b(3) room by (simp add: ci_pending_def nat_add_distrib nsz min.commute)
      have du: "drop (nat n) (ci_unread avail c) = drop (nat k) (take (nat room) (avail (ci_input c)))"
      proof -
        have "length (ci_buffer c) \<le> nat n" using k len by (simp add: k_def)
        then show ?thesis using un b(3) room k
          by (simp add: ci_pending_def nat_add_distrib k_def nat_diff_distrib nsz)
      qed
      show thesis
      proof (rule that [of c'])
        show "CodedInputStream_Skip vt n c = Some (n \<le> int (length (ci_unread avail c)), c')"
          unfolding eq lu using sk(3) k b(3) room by (auto simp: m_def k_def)
        show "ci_unread avail c' = drop (nat n) (ci_unread avail c)"
          unfolding du un' using k room by (auto simp: m_def min_def drop_take nat_diff_distrib)
        assume "n \<le> int (length (ci_unread avail c))"
        then have "k \<le> room" unfolding lu using b(3) room by (simp add: k_def)
        then have mk: "m = k" by (simp add: m_def)
        have "ci_pending avail c' = drop (nat n) (ci_pending avail c)"
          using sk(4) len b(3) k by (simp add: ci_pending_def c'_def c0_def mk k_def nat_diff_distrib nsz)
        then show "ci_moves avail (nat n) c c'"
          using fr n by (simp add: ci_moves_def pos' pos mk k_def)
      qed (rule facts)+
    qed
  qed
qed

lemma coded_skip_negative: "n < 0 \<Longrightarrow> CodedInputStream_Skip vt n c = Some (False, c)"
  by (simp add: CodedInputStream_Skip_def)

end

end
