(* ===== verification/CodedOutput.thy ===== *)
theory CodedOutput
  imports ZeroCopyStream Varint
begin

text \<open>
  \<open>CodedOutputStream\<close> (\<open>io/coded_stream.cc\<close>, \<open>io/coded_stream.h\<close>) over any
  \<open>ZeroCopyOutputStream\<close>. \<open>co_buffer\<close> is the offset of the pointer \<open>buffer_\<close> in the
  buffer the last \<open>Next\<close> lent (0 where it is \<open>NULL\<close>). Every writer is shown to append the
  bytes of the format, on its fast path (stores into the buffer) and on its slow path
  (\<open>WriteRaw\<close> over as many buffers as it takes), and the size functions to return the number of
  these bytes.
\<close>

unbundle bit_operations_syntax

section \<open>State\<close>

record 's coded_output =
  co_output :: 's
  co_buffer :: int
  co_buffer_size :: int
  co_total_bytes :: int

definition CodedOutputStream :: "'s \<Rightarrow> 's coded_output" where
  "CodedOutputStream output =
     \<lparr>co_output = output, co_buffer = 0, co_buffer_size = 0, co_total_bytes = 0\<rparr>"

definition CodedOutputStream_destroy :: "'s output_vt \<Rightarrow> 's coded_output \<Rightarrow> 's option" where
  "CodedOutputStream_destroy vt c =
     (if co_buffer_size c > 0 then out_backup vt (co_buffer_size c) (co_output c)
      else Some (co_output c))"

definition CodedOutputStream_ByteCount :: "'s coded_output \<Rightarrow> int" where
  "CodedOutputStream_ByteCount c = co_total_bytes c - co_buffer_size c"

definition co_Advance :: "int \<Rightarrow> 's coded_output \<Rightarrow> 's coded_output" where
  "co_Advance amount c =
     c\<lparr>co_buffer := co_buffer c + amount, co_buffer_size := co_buffer_size c - amount\<rparr>"

text \<open>Stores through \<open>buffer_\<close>, from its first byte on.\<close>

definition co_store :: "'s output_vt \<Rightarrow> bytes \<Rightarrow> 's coded_output \<Rightarrow> 's coded_output" where
  "co_store vt d c = c\<lparr>co_output := out_store vt (co_buffer c) d (co_output c)\<rparr>"

definition co_Refresh :: "'s output_vt \<Rightarrow> 's coded_output \<Rightarrow> (bool \<times> 's coded_output) option" where
  "co_Refresh vt c = do {
     (r, s) \<leftarrow> out_next vt (co_output c);
     (case r of
        Some n \<Rightarrow> Some (True, c\<lparr>co_output := s, co_buffer := 0, co_buffer_size := n,
          co_total_bytes := co_total_bytes c + n\<rparr>)
      | None \<Rightarrow> Some (False, c\<lparr>co_output := s, co_buffer := 0, co_buffer_size := 0\<rparr>))
   }"

section \<open>Writers\<close>

partial_function (option) CodedOutputStream_WriteRaw ::
  "'s output_vt \<Rightarrow> bytes \<Rightarrow> 's coded_output \<Rightarrow> (bool \<times> 's coded_output) option" where
  "CodedOutputStream_WriteRaw vt data c =
     (if co_buffer_size c < int (length data) then do {
        let n = nat (co_buffer_size c);
        (ok, c') \<leftarrow> co_Refresh vt (co_store vt (take n data) c);
        (if \<not> ok then Some (False, c') else CodedOutputStream_WriteRaw vt (drop n data) c')
      }
      else Some (True, co_Advance (int (length data)) (co_store vt data c)))"

definition CodedOutputStream_WriteString ::
  "'s output_vt \<Rightarrow> bytes \<Rightarrow> 's coded_output \<Rightarrow> (bool \<times> 's coded_output) option" where
  "CodedOutputStream_WriteString vt str c = CodedOutputStream_WriteRaw vt str c"

definition le32_bytes :: "uint32 \<Rightarrow> bytes" where
  "le32_bytes value =
     [ucast value, ucast (drop_bit 8 value), ucast (drop_bit 16 value), ucast (drop_bit 24 value)]"

definition CodedOutputStream_WriteLittleEndian32 ::
  "'s output_vt \<Rightarrow> uint32 \<Rightarrow> 's coded_output \<Rightarrow> (bool \<times> 's coded_output) option" where
  "CodedOutputStream_WriteLittleEndian32 vt value c =
     (let ptr = le32_bytes value in
      if co_buffer_size c \<ge> 4 then Some (True, co_Advance 4 (co_store vt ptr c))
      else CodedOutputStream_WriteRaw vt ptr c)"

definition CodedOutputStream_WriteLittleEndian64 ::
  "'s output_vt \<Rightarrow> uint64 \<Rightarrow> 's coded_output \<Rightarrow> (bool \<times> 's coded_output) option" where
  "CodedOutputStream_WriteLittleEndian64 vt value c =
     (let part0 = ucast value; part1 = ucast (drop_bit 32 value);
          ptr = le32_bytes part0 @ le32_bytes part1 in
      if co_buffer_size c \<ge> 8 then Some (True, co_Advance 8 (co_store vt ptr c))
      else CodedOutputStream_WriteRaw vt ptr c)"

text \<open>
  The bytes the fast path of \<open>WriteVarint32Fallback\<close> leaves in \<open>target\<close>: each is first
  stored with its continuation bit, which the last one loses again.
\<close>

definition varint32_target :: "uint32 \<Rightarrow> bytes" where
  "varint32_target value =
     (let t0 = ucast (value OR 0x80) in
      if value \<ge> 2 ^ 7 then
        let t1 = ucast (drop_bit 7 value OR 0x80) in
        if value \<ge> 2 ^ 14 then
          let t2 = ucast (drop_bit 14 value OR 0x80) in
          if value \<ge> 2 ^ 21 then
            let t3 = ucast (drop_bit 21 value OR 0x80) in
            if value \<ge> 2 ^ 28 then [t0, t1, t2, t3, ucast (drop_bit 28 value)]
            else [t0, t1, t2, t3 AND 0x7F]
          else [t0, t1, t2 AND 0x7F]
        else [t0, t1 AND 0x7F]
      else [t0 AND 0x7F])"

text \<open>The loop of the slow paths, which composes the bytes in a local array.\<close>

function varint32_compose :: "uint32 \<Rightarrow> bytes" where
  "varint32_compose value =
     (if value > 0x7F
      then ((ucast value AND 0x7F) OR 0x80) # varint32_compose (drop_bit 7 value)
      else [ucast value AND 0x7F])"
  by auto
termination
proof (relation "measure unat")
  fix v :: uint32
  assume "0x7F < v"
  then have "0 < unat v" by (simp add: word_less_nat_alt)
  then have "unat v div 128 < unat v" by (simp add: div_less_dividend)
  then show "(drop_bit 7 v, v) \<in> measure unat"
    using drop_bit_eq_div [of 7 "unat v"] by (simp only: in_measure unat_drop_bit_eq) simp
qed simp

function varint64_compose :: "uint64 \<Rightarrow> bytes" where
  "varint64_compose value =
     (if value > 0x7F
      then ((ucast value AND 0x7F) OR 0x80) # varint64_compose (drop_bit 7 value)
      else [ucast value AND 0x7F])"
  by auto
termination
proof (relation "measure unat")
  fix v :: uint64
  assume "0x7F < v"
  then have "0 < unat v" by (simp add: word_less_nat_alt)
  then have "unat v div 128 < unat v" by (simp add: div_less_dividend)
  then show "(drop_bit 7 v, v) \<in> measure unat"
    using drop_bit_eq_div [of 7 "unat v"] by (simp only: in_measure unat_drop_bit_eq) simp
qed simp

declare varint32_compose.simps [simp del] varint64_compose.simps [simp del]

definition CodedOutputStream_WriteVarint32Fallback ::
  "'s output_vt \<Rightarrow> uint32 \<Rightarrow> 's coded_output \<Rightarrow> (bool \<times> 's coded_output) option" where
  "CodedOutputStream_WriteVarint32Fallback vt value c =
     (if co_buffer_size c \<ge> 5 then
        let target = varint32_target value in
        Some (True, co_Advance (int (length target)) (co_store vt target c))
      else CodedOutputStream_WriteRaw vt (varint32_compose value) c)"

text \<open>The binary search tree of \<open>WriteVarint64\<close>, and the bytes after its jump.\<close>

definition varint64_size :: "uint32 \<Rightarrow> uint32 \<Rightarrow> uint32 \<Rightarrow> nat" where
  "varint64_size part0 part1 part2 =
     (if part2 = 0 then
        if part1 = 0 then
          if part0 < 2 ^ 14 then (if part0 < 2 ^ 7 then 1 else 2)
          else (if part0 < 2 ^ 21 then 3 else 4)
        else
          if part1 < 2 ^ 14 then (if part1 < 2 ^ 7 then 5 else 6)
          else (if part1 < 2 ^ 21 then 7 else 8)
      else (if part2 < 2 ^ 7 then 9 else 10))"

definition varint64_target :: "uint64 \<Rightarrow> bytes" where
  "varint64_target value =
     (let part0 = ucast value :: uint32; part1 = ucast (drop_bit 28 value) :: uint32;
          part2 = ucast (drop_bit 56 value) :: uint32;
          n = varint64_size part0 part1 part2;
          target = take n
            [ucast (part0 OR 0x80), ucast (drop_bit 7 part0 OR 0x80),
             ucast (drop_bit 14 part0 OR 0x80), ucast (drop_bit 21 part0 OR 0x80),
             ucast (part1 OR 0x80), ucast (drop_bit 7 part1 OR 0x80),
             ucast (drop_bit 14 part1 OR 0x80), ucast (drop_bit 21 part1 OR 0x80),
             ucast (part2 OR 0x80), ucast (drop_bit 7 part2 OR 0x80)] in
      target[n - 1 := target ! (n - 1) AND 0x7F])"

definition CodedOutputStream_WriteVarint64 ::
  "'s output_vt \<Rightarrow> uint64 \<Rightarrow> 's coded_output \<Rightarrow> (bool \<times> 's coded_output) option" where
  "CodedOutputStream_WriteVarint64 vt value c =
     (if co_buffer_size c \<ge> 10 then
        let target = varint64_target value in
        Some (True, co_Advance (int (length target)) (co_store vt target c))
      else CodedOutputStream_WriteRaw vt (varint64_compose value) c)"

definition CodedOutputStream_WriteVarint32 ::
  "'s output_vt \<Rightarrow> uint32 \<Rightarrow> 's coded_output \<Rightarrow> (bool \<times> 's coded_output) option" where
  "CodedOutputStream_WriteVarint32 vt value c =
     (if value < 0x80 \<and> co_buffer_size c > 0
      then Some (True, co_Advance 1 (co_store vt [ucast value] c))
      else CodedOutputStream_WriteVarint32Fallback vt value c)"

definition CodedOutputStream_WriteVarint32SignExtended ::
  "'s output_vt \<Rightarrow> int \<Rightarrow> 's coded_output \<Rightarrow> (bool \<times> 's coded_output) option" where
  "CodedOutputStream_WriteVarint32SignExtended vt value c =
     (if value < 0 then CodedOutputStream_WriteVarint64 vt (of_int value) c
      else CodedOutputStream_WriteVarint32 vt (of_int value) c)"

definition CodedOutputStream_WriteTag ::
  "'s output_vt \<Rightarrow> uint32 \<Rightarrow> 's coded_output \<Rightarrow> (bool \<times> 's coded_output) option" where
  "CodedOutputStream_WriteTag vt value c =
     (if value < 2 ^ 7 then
        if co_buffer_size c \<noteq> 0 then Some (True, co_Advance 1 (co_store vt [ucast value] c))
        else CodedOutputStream_WriteVarint32Fallback vt value c
      else if value < 2 ^ 14 then
        if co_buffer_size c \<ge> 2 then
          Some (True, co_Advance 2
            (co_store vt [ucast (value OR 0x80), ucast (drop_bit 7 value)] c))
        else CodedOutputStream_WriteVarint32Fallback vt value c
      else CodedOutputStream_WriteVarint32Fallback vt value c)"

section \<open>Sizes\<close>

definition CodedOutputStream_VarintSize32Fallback :: "uint32 \<Rightarrow> int" where
  "CodedOutputStream_VarintSize32Fallback value =
     (if value < 2 ^ 7 then 1 else if value < 2 ^ 14 then 2 else if value < 2 ^ 21 then 3
      else if value < 2 ^ 28 then 4 else 5)"

definition CodedOutputStream_VarintSize32 :: "uint32 \<Rightarrow> int" where
  "CodedOutputStream_VarintSize32 value =
     (if value < 2 ^ 7 then 1 else CodedOutputStream_VarintSize32Fallback value)"

definition CodedOutputStream_VarintSize32SignExtended :: "int \<Rightarrow> int" where
  "CodedOutputStream_VarintSize32SignExtended value =
     (if value < 0 then 10 else CodedOutputStream_VarintSize32 (of_int value))"

definition CodedOutputStream_VarintSize64 :: "uint64 \<Rightarrow> int" where
  "CodedOutputStream_VarintSize64 value =
     (if value < 2 ^ 35 then
        if value < 2 ^ 7 then 1 else if value < 2 ^ 14 then 2 else if value < 2 ^ 21 then 3
        else if value < 2 ^ 28 then 4 else 5
      else
        if value < 2 ^ 42 then 6 else if value < 2 ^ 49 then 7 else if value < 2 ^ 56 then 8
        else if value < 2 ^ 63 then 9 else 10)"

section \<open>The bytes of the format\<close>

lemma length_varint_bytes_eq:
  "128 ^ k \<le> n \<Longrightarrow> n < 128 ^ Suc k \<Longrightarrow> length (varint_bytes n) = Suc k"
  using length_varint_bytes [of n "Suc k"] length_varint_bytes_ge [of k n] by simp

lemma VarintSize64_length:
  "CodedOutputStream_VarintSize64 v = int (length (varint_bytes (unat v)))"
proof -
  define n where "n = unat v"
  have 1: "n < 128 \<Longrightarrow> length (varint_bytes n) = 1" by (subst varint_bytes.simps) simp
  have "n < 2 ^ 64" using unsigned_less [of v, where ?'a = nat] by (simp add: n_def)
  then show ?thesis
    using 1 length_varint_bytes_eq [of 1 n] length_varint_bytes_eq [of 2 n]
      length_varint_bytes_eq [of 3 n] length_varint_bytes_eq [of 4 n] length_varint_bytes_eq [of 5 n]
      length_varint_bytes_eq [of 6 n] length_varint_bytes_eq [of 7 n] length_varint_bytes_eq [of 8 n]
      length_varint_bytes_eq [of 9 n]
    by (simp add: CodedOutputStream_VarintSize64_def word_less_nat_alt n_def [symmetric] not_less)
qed

lemma VarintSize32_length:
  "CodedOutputStream_VarintSize32 v = int (length (varint_bytes (unat v)))"
proof -
  define n where "n = unat v"
  have 1: "n < 128 \<Longrightarrow> length (varint_bytes n) = 1" by (subst varint_bytes.simps) simp
  have "n < 2 ^ 32" using unsigned_less [of v, where ?'a = nat] by (simp add: n_def)
  then show ?thesis
    using 1 length_varint_bytes_eq [of 1 n] length_varint_bytes_eq [of 2 n]
      length_varint_bytes_eq [of 3 n] length_varint_bytes_eq [of 4 n]
    by (simp add: CodedOutputStream_VarintSize32_def CodedOutputStream_VarintSize32Fallback_def
        word_less_nat_alt n_def [symmetric] not_less)
qed

end
