(* ===== verification/CodedWrites.thy ===== *)
theory CodedWrites
  imports CodedOutput
begin

text \<open>
  What \<open>CodedOutputStream\<close> guarantees: each unrolled or hand-tuned encoder produces the bytes of the
  format, and over a stream that keeps the contract of \<open>ZeroCopyOutputStream\<close> every writer
  returns and, where it returns true, has appended exactly these bytes.
\<close>

unbundle bit_operations_syntax

section \<open>The encoders\<close>

lemma varint_bytes_cases:
  "n < 128 \<Longrightarrow> varint_bytes n = [of_nat n]"
  "128 \<le> n \<Longrightarrow> varint_bytes n = of_nat (n mod 128 + 128) # varint_bytes (n div 128)"
  by (subst varint_bytes.simps, simp)+

text \<open>The groups of a number, each with its continuation bit.\<close>

definition varint_group :: "nat \<Rightarrow> nat \<Rightarrow> byte" where
  "varint_group n i = of_nat (n div 128 ^ i mod 128 + 128)"

lemma varint_bytes_groups:
  "(k = 0 \<or> 128 ^ k \<le> n) \<Longrightarrow> n < 128 ^ Suc k \<Longrightarrow>
    varint_bytes n = map (varint_group n) [0..<k] @ [of_nat (n div 128 ^ k)]"
proof (induction k arbitrary: n)
  case 0
  then show ?case by (simp add: varint_bytes_cases)
next
  case (Suc k)
  have "128 * 1 \<le> 128 * (128 ^ k :: nat)" by (intro mult_le_mono2) simp
  moreover have "128 * 128 ^ k \<le> n" using Suc.prems(1) by simp
  ultimately have big: "128 \<le> n" by linarith
  have "128 ^ k \<le> n div 128" "n div 128 < 128 ^ Suc k"
    using Suc.prems by (simp_all add: less_eq_div_iff_mult_less_eq mult.commute less_mult_imp_div_less)
  then have "varint_bytes (n div 128) = map (varint_group (n div 128)) [0..<k] @ [of_nat (n div 128 div 128 ^ k)]"
    using Suc.IH [of "n div 128"] by simp
  moreover have "varint_group (n div 128) i = varint_group n (Suc i)" for i
    by (simp add: varint_group_def div_mult2_eq)
  ultimately show ?case
    using big by (simp add: varint_bytes_cases(2) upt_conv_Cons varint_group_def [of n 0] div_mult2_eq
        map_Suc_upt [symmetric] o_def del: upt_Suc)
qed

lemma of_nat_and_7F: "(of_nat n :: byte) AND 0x7F = of_nat (n mod 128)"
proof -
  have "n mod 256 mod 128 = n mod 128" by (simp add: mod_mod_cancel)
  moreover have "unat (of_nat (n mod 128) :: byte) = n mod 128" by (simp add: unat_of_nat)
  ultimately show ?thesis by (simp add: word_unat_eq_iff and_7F_mod unat_of_nat)
qed

lemma varint_target_groups:
  assumes "k = 0 \<or> 128 ^ k \<le> n" "n < 128 ^ Suc k" "k < m"
  shows "(take (Suc k) (map (varint_group n) [0..<m]))[k := varint_group n k AND 0x7F] = varint_bytes n"
proof -
  have "varint_group n k AND 0x7F = of_nat ((n div 128 ^ k mod 128 + 128) mod 128)"
    unfolding varint_group_def by (rule of_nat_and_7F)
  also have "(n div 128 ^ k mod 128 + 128) mod 128 = n div 128 ^ k"
    using assms(2) by (simp add: less_mult_imp_div_less)
  finally have "varint_group n k AND 0x7F = of_nat (n div 128 ^ k)" .
  moreover have "take (Suc k) (map (varint_group n) [0..<m]) = map (varint_group n) [0..<k] @ [varint_group n k]"
    using assms(3) by (simp add: take_map)
  ultimately show ?thesis
    using varint_bytes_groups [OF assms(1,2)] by (simp add: list_update_append)
qed

lemma ucast_and_or: "((ucast (v :: 'a::len word) :: byte) AND 0x7F) OR 0x80 = of_nat (unat v mod 128 + 128)"
  by (simp only: ucast_of_nat_unat [of v] of_nat_and_7F of_nat_or_80 mod_mod_trivial)

lemma ucast_and_7F_byte: "(ucast (v :: 'a::len word) :: byte) AND 0x7F = of_nat (unat v mod 128)"
  by (simp only: ucast_of_nat_unat [of v] of_nat_and_7F)

lemma varint32_compose_bytes: "varint32_compose v = varint_bytes (unat v)"
proof (induction v rule: varint32_compose.induct)
  case (1 v)
  have d: "unat (drop_bit 7 v) = unat v div 128"
    using drop_bit_eq_div [of 7 "unat v"] by (simp only: unat_drop_bit_eq) simp
  show ?case
  proof (cases "0x7F < v")
    case True
    then have "128 \<le> unat v" by (simp add: word_less_nat_alt)
    with True "1.IH" [OF True] d show ?thesis
      by (subst varint32_compose.simps) (simp add: varint_bytes_cases(2) ucast_and_or)
  next
    case False
    then have "unat v < 128" by (simp add: word_less_nat_alt)
    with False show ?thesis
      by (subst varint32_compose.simps) (simp add: varint_bytes_cases(1) ucast_and_7F_byte)
  qed
qed

lemma varint64_compose_bytes: "varint64_compose v = varint_bytes (unat v)"
proof (induction v rule: varint64_compose.induct)
  case (1 v)
  have d: "unat (drop_bit 7 v) = unat v div 128"
    using drop_bit_eq_div [of 7 "unat v"] by (simp only: unat_drop_bit_eq) simp
  show ?case
  proof (cases "0x7F < v")
    case True
    then have "128 \<le> unat v" by (simp add: word_less_nat_alt)
    with True "1.IH" [OF True] d show ?thesis
      by (subst varint64_compose.simps) (simp add: varint_bytes_cases(2) ucast_and_or)
  next
    case False
    then have "unat v < 128" by (simp add: word_less_nat_alt)
    with False show ?thesis
      by (subst varint64_compose.simps) (simp add: varint_bytes_cases(1) ucast_and_7F_byte)
  qed
qed

text \<open>A byte of \<open>target\<close>, taken from one of the 32-bit parts.\<close>

lemma group_of_32: "ucast (drop_bit k (w :: uint32) OR 0x80) = (of_nat (unat w div 2 ^ k mod 128 + 128) :: byte)"
  using ucast_or_80(1) [of "drop_bit k w"] by (simp only: unat_drop_bit_div)

lemma mod_div_mod: "(n mod (a * (m * b))) div a mod m = n div a mod (m :: nat)"
proof -
  have "(n mod (a * (m * b))) div a = n div a mod (m * b)"
    by (cases "a = 0") (simp_all add: mod_mult2_eq)
  then show ?thesis by (simp add: mod_mult2_eq)
qed

lemma varint32_target_bytes: "varint32_target v = varint_bytes (unat v)"
proof -
  define n where "n = unat v"
  have n: "n < 2 ^ 32" using unsigned_less [of v, where ?'a = nat] by (simp add: n_def)
  have g: "ucast (v OR 0x80) = varint_group n 0" "ucast (drop_bit 7 v OR 0x80) = varint_group n 1"
    "ucast (drop_bit 14 v OR 0x80) = varint_group n 2" "ucast (drop_bit 21 v OR 0x80) = varint_group n 3"
    using ucast_or_80(1) [of v] group_of_32 [of 7 v] group_of_32 [of 14 v] group_of_32 [of 21 v]
    by (simp_all only: varint_group_def n_def [symmetric]) simp_all
  have g4: "ucast (drop_bit 28 v) = (of_nat (n div 128 ^ 4) :: byte)"
    using ucast_of_nat_unat [of "drop_bit 28 v", where ?'a = 8] by (simp only: unat_drop_bit_div n_def) simp
  have lt: "128 \<le> v \<longleftrightarrow> 128 \<le> n" "16384 \<le> v \<longleftrightarrow> 16384 \<le> n"
    "2097152 \<le> v \<longleftrightarrow> 2097152 \<le> n" "268435456 \<le> v \<longleftrightarrow> 268435456 \<le> n"
    by (simp_all add: word_le_nat_alt n_def)
  note target = varint32_target_def Let_def g g4 lt
  consider "n < 128" | "128 \<le> n" "n < 16384" | "16384 \<le> n" "n < 2097152"
    | "2097152 \<le> n" "n < 268435456" | "268435456 \<le> n" by linarith
  then have "varint32_target v = varint_bytes n"
  proof cases
    case 1 with varint_target_groups [of 0 n 1] show ?thesis by (simp add: target)
  next
    case 2 with varint_target_groups [of 1 n 2] show ?thesis by (simp add: target upt_rec)
  next
    case 3 with varint_target_groups [of 2 n 3] show ?thesis by (simp add: target upt_rec numeral_3_eq_3)
  next
    case 4 with varint_target_groups [of 3 n 4] show ?thesis by (simp add: target upt_rec numeral_2_eq_2)
  next
    case 5
    moreover have "n < 34359738368" using n by simp
    ultimately show ?thesis using varint_bytes_groups [of 4 n]
      by (simp add: target upt_rec numeral_2_eq_2 numeral_3_eq_3)
  qed
  then show ?thesis by (simp add: n_def)
qed


lemma part_group:
  assumes p: "unat (p :: uint32) = n div 2 ^ s mod 2 ^ 32" and k: "k \<le> 25" and i: "7 * i = s + k"
  shows "ucast (drop_bit k p OR 0x80) = varint_group n i"
proof -
  have e: "(2 :: nat) ^ 32 = 2 ^ k * (128 * 2 ^ (25 - k))"
  proof -
    have "(2 :: nat) ^ 32 = 2 ^ (k + (7 + (25 - k)))" using k by simp
    then show ?thesis by (simp only: power_add) simp
  qed
  then have "unat p div 2 ^ k mod 128 = n div 2 ^ s div 2 ^ k mod 128"
    by (simp only: p e mod_div_mod [where m = 128])
  also have "n div 2 ^ s div 2 ^ k = n div 128 ^ i"
    using power_mult [of "2 :: nat" 7 i] by (simp add: div_mult2_eq [symmetric] power_add [symmetric] i)
  finally show ?thesis by (simp only: group_of_32 varint_group_def)
qed

lemma varint64_parts_unat:
  fixes v :: uint64
  shows "unat (ucast v :: uint32) = unat v div 2 ^ 0 mod 2 ^ 32"
    and "unat (ucast (drop_bit 28 v) :: uint32) = unat v div 2 ^ 28 mod 2 ^ 32"
    and "unat (ucast (drop_bit 56 v) :: uint32) = unat v div 2 ^ 56 mod 2 ^ 32"
  unfolding unsigned_ucast_eq unat_drop_bit_div by (simp_all add: take_bit_eq_mod)

lemma varint64_target_groups:
  fixes v :: uint64
  defines "n \<equiv> unat v" and "p0 \<equiv> (ucast v :: uint32)" and "p1 \<equiv> (ucast (drop_bit 28 v) :: uint32)"
    and "p2 \<equiv> (ucast (drop_bit 56 v) :: uint32)"
  shows "[ucast (p0 OR 0x80), ucast (drop_bit 7 p0 OR 0x80), ucast (drop_bit 14 p0 OR 0x80),
      ucast (drop_bit 21 p0 OR 0x80), ucast (p1 OR 0x80), ucast (drop_bit 7 p1 OR 0x80),
      ucast (drop_bit 14 p1 OR 0x80), ucast (drop_bit 21 p1 OR 0x80), ucast (p2 OR 0x80),
      ucast (drop_bit 7 p2 OR 0x80)] = map (varint_group n) [0..<10]"
proof -
  note u = varint64_parts_unat [of v, folded n_def p0_def p1_def p2_def]
  have "[0..<10] = [0, 1, 2, 3, 4, 5, 6, 7, 8, 9]" by (simp add: upt_rec numeral_eq_Suc)
  moreover have "ucast (p0 OR 0x80) = varint_group n 0" using part_group [OF u(1), of 0 0] by simp
  moreover have "ucast (p1 OR 0x80) = varint_group n 4" using part_group [OF u(2), of 0 4] by simp
  moreover have "ucast (p2 OR 0x80) = varint_group n 8" using part_group [OF u(3), of 0 8] by simp
  moreover note part_group [OF u(1), of 7 1] part_group [OF u(1), of 14 2] part_group [OF u(1), of 21 3]
    part_group [OF u(2), of 7 5] part_group [OF u(2), of 14 6] part_group [OF u(2), of 21 7]
    part_group [OF u(3), of 7 9]
  ultimately show ?thesis by simp
qed

text \<open>The search tree finds the number of groups.\<close>

lemma varint64_size_groups:
  assumes u: "unat p0 = n div 2 ^ 0 mod 2 ^ 32" "unat p1 = n div 2 ^ 28 mod 2 ^ 32" "unat p2 = n div 2 ^ 56"
    and n: "n < 2 ^ 64"
  shows "\<exists>k. varint64_size p0 p1 p2 = Suc k \<and> (k = 0 \<or> 128 ^ k \<le> n) \<and> n < 128 ^ Suc k \<and> k < 10"
proof -
  note size = varint64_size_def word_less_nat_alt unat_eq_zero [symmetric]
  consider "n < 2 ^ 28" | "2 ^ 28 \<le> n" "n < 2 ^ 56" | "2 ^ 56 \<le> n" by linarith
  then show ?thesis
  proof cases
    case 1
    then have "unat p0 = n" "p1 = 0" "p2 = 0"
      using u by (simp_all add: unat_eq_zero [symmetric])
    with 1 have "varint64_size p0 p1 p2 = (if n < 128 then 1 else if n < 16384 then 2 else
        if n < 2097152 then 3 else 4)" by (simp add: size)
    moreover have "n < 128 \<or> 128 \<le> n \<and> n < 16384 \<or> 16384 \<le> n \<and> n < 2097152 \<or> 2097152 \<le> n \<and> n < 268435456"
      using 1 by simp linarith
    ultimately show ?thesis
      using exI [where x = 0] by (elim disjE; intro exI [of _ "varint64_size p0 p1 p2 - 1"]; simp)
  next
    case 2
    then have d: "unat p1 = n div 2 ^ 28" "p2 = 0" "p1 \<noteq> 0"
      using u less_mult_imp_div_less [of n "2 ^ 28" "2 ^ 28"] by (simp_all add: unat_eq_zero [symmetric] div_eq_0_iff)
    then have "varint64_size p0 p1 p2 = (if n < 2 ^ 35 then 5 else if n < 2 ^ 42 then 6 else
        if n < 2 ^ 49 then 7 else 8)" using 2
      by (simp add: size div_less_iff_less_mult)
    moreover have "n < 2 ^ 35 \<or> 2 ^ 35 \<le> n \<and> n < 2 ^ 42 \<or> 2 ^ 42 \<le> n \<and> n < 2 ^ 49 \<or> 2 ^ 49 \<le> n"
      by linarith
    ultimately show ?thesis
      using 2 by (elim disjE; intro exI [of _ "varint64_size p0 p1 p2 - 1"]; simp)
  next
    case 3
    then have "p2 \<noteq> 0" using u by (simp add: unat_eq_zero [symmetric] div_eq_0_iff)
    then have "varint64_size p0 p1 p2 = (if n < 2 ^ 63 then 9 else 10)" 
      using u(3) by (simp add: size div_less_iff_less_mult)
    then show ?thesis
      using 3 n by (intro exI [of _ "varint64_size p0 p1 p2 - 1"]) simp
  qed
qed

lemma varint64_target_bytes: "varint64_target v = varint_bytes (unat v)"
proof -
  define n where "n = unat v"
  define p0 p1 p2 where p: "p0 = (ucast v :: uint32)" "p1 = (ucast (drop_bit 28 v) :: uint32)"
    "p2 = (ucast (drop_bit 56 v) :: uint32)"
  have n: "n < 2 ^ 64" using unsigned_less [of v, where ?'a = nat] by (simp add: n_def)
  note u = varint64_parts_unat [of v, folded n_def p]
  have u2: "unat p2 = n div 2 ^ 56"
  proof -
    have "n div 2 ^ 56 < 2 ^ 8" using n by (simp add: less_mult_imp_div_less)
    then show ?thesis using u(3) by simp
  qed
  obtain k where k: "varint64_size p0 p1 p2 = Suc k" "k = 0 \<or> 128 ^ k \<le> n" "n < 128 ^ Suc k" "k < 10"
    using varint64_size_groups [OF u(1,2) u2 n] by blast
  have "varint64_target v = (take (Suc k) (map (varint_group n) [0..<10]))[k := varint_group n k AND 0x7F]"
    using k(1,4) unfolding varint64_target_def Let_def p [symmetric]
    by (simp add: varint64_target_groups [of v, folded n_def p] nth_map del: upt_Suc)
  also have "\<dots> = varint_bytes n" using k(2-4) by (rule varint_target_groups)
  finally show ?thesis by (simp add: n_def)
qed


lemma le_bytes_4:
  "le_bytes 4 n = [of_nat n, of_nat (n div 2 ^ 8), of_nat (n div 2 ^ 16), of_nat (n div 2 ^ 24)]"
proof -
  have "le_bytes (Suc (Suc (Suc (Suc 0)))) n =
      [of_nat n, of_nat (n div 2 ^ 8), of_nat (n div 2 ^ 16), of_nat (n div 2 ^ 24)]"
    by (simp add: div_mult2_eq [symmetric])
  moreover have "Suc (Suc (Suc (Suc 0))) = 4" by simp
  ultimately show ?thesis by (simp only:)
qed

lemma le_bytes_add: "le_bytes (j + k) n = le_bytes j n @ le_bytes k (n div 256 ^ j)"
  by (induction j arbitrary: n) (simp_all add: div_mult2_eq)

lemma le32_bytes_le: "le32_bytes v = le_bytes 4 (unat v)"
  unfolding le32_bytes_def le_bytes_4 ucast_of_nat_unat unat_drop_bit_div ..

lemma le64_bytes_le:
  "le32_bytes (ucast (v :: uint64)) @ le32_bytes (ucast (drop_bit 32 v)) = le_bytes 8 (unat v)"
proof -
  define n where "n = unat v"
  have u: "unat (ucast v :: uint32) = n mod 2 ^ 32"
    "unat (ucast (drop_bit 32 v) :: uint32) = n div 2 ^ 32 mod 2 ^ 32"
    unfolding unsigned_ucast_eq unat_drop_bit_div n_def by (simp_all add: take_bit_eq_mod)
  have b: "(of_nat x :: byte) = of_nat y" if "x mod 256 = y mod 256" for x y
    using that by (simp add: word_unat_eq_iff unat_of_nat)
  have four: "le_bytes 4 (m mod 2 ^ 32) = le_bytes 4 m" for m
  proof -
    have "m mod 2 ^ 32 mod 256 = m mod 256" "m mod 2 ^ 32 div 2 ^ 8 mod 256 = m div 2 ^ 8 mod 256"
      "m mod 2 ^ 32 div 2 ^ 16 mod 256 = m div 2 ^ 16 mod 256"
      "m mod 2 ^ 32 div 2 ^ 24 mod 256 = m div 2 ^ 24 mod 256"
      using mod_div_mod [of m 1 256 "2 ^ 24"] mod_div_mod [of m "2 ^ 8" 256 "2 ^ 16"]
        mod_div_mod [of m "2 ^ 16" 256 "2 ^ 8"] mod_div_mod [of m "2 ^ 24" 256 1] by simp_all
    then show ?thesis unfolding le_bytes_4 by (intro arg_cong2 [where f = Cons] b refl) 
  qed
  have "le_bytes (4 + 4) n = le_bytes 4 n @ le_bytes 4 (n div 256 ^ 4)" by (rule le_bytes_add)
  moreover have "n div 256 ^ 4 = n div 2 ^ 32" by simp
  ultimately have "le_bytes 8 n = le_bytes 4 n @ le_bytes 4 (n div 2 ^ 32)" by simp
  then show ?thesis by (simp only: le32_bytes_le u four n_def [symmetric])
qed

section \<open>Writing\<close>

text \<open>
  The invariant, where \<open>base\<close> is the byte count of the stream when the writer was constructed,
  and what has been written: all but the unused end of the buffer.
\<close>

definition co_ok :: "'s output_vt \<Rightarrow> ('s \<Rightarrow> bool) \<Rightarrow> ('s \<Rightarrow> int) \<Rightarrow> int \<Rightarrow> 's coded_output \<Rightarrow> bool" where
  "co_ok vt ok lent base c \<longleftrightarrow>
     ok (co_output c) \<and> 0 \<le> co_buffer c \<and> 0 \<le> co_buffer_size c \<and>
     co_buffer c + co_buffer_size c \<le> lent (co_output c) \<and>
     (0 < co_buffer_size c \<longrightarrow> co_buffer c + co_buffer_size c = lent (co_output c)) \<and>
     co_total_bytes c = out_byte_count vt (co_output c) - base"

definition co_written :: "('s \<Rightarrow> bytes) \<Rightarrow> 's coded_output \<Rightarrow> bytes" where
  "co_written written c =
     take (length (written (co_output c)) - nat (co_buffer_size c)) (written (co_output c))"

text \<open>A successful write of \<open>d\<close>.\<close>

definition co_wrote ::
  "'s output_vt \<Rightarrow> ('s \<Rightarrow> bool) \<Rightarrow> ('s \<Rightarrow> bytes) \<Rightarrow> ('s \<Rightarrow> int) \<Rightarrow> int \<Rightarrow> bytes \<Rightarrow>
    's coded_output \<Rightarrow> 's coded_output \<Rightarrow> bool" where
  "co_wrote vt ok written lent base d c c' \<longleftrightarrow>
     co_ok vt ok lent base c' \<and> co_written written c' = co_written written c @ d \<and>
     CodedOutputStream_ByteCount c' = CodedOutputStream_ByteCount c + int (length d)"

context zero_copy_output
begin

lemma co_init: "ok s \<Longrightarrow> co_ok vt ok lent (out_byte_count vt s) (CodedOutputStream s)"
  using lent_bounds [of s] by (simp add: co_ok_def CodedOutputStream_def)

lemma co_put:
  assumes c: "co_ok vt ok lent base c" and d: "int (length d) \<le> co_buffer_size c"
  shows "co_wrote vt ok written lent base d c (co_Advance (int (length d)) (co_store vt d c))"
    and "rank (co_output (co_store vt d c)) = rank (co_output c)"
    and "out_byte_count vt (co_output (co_store vt d c)) = out_byte_count vt (co_output c)"
proof -
  let ?s = "co_output c" and ?t = "out_store vt (co_buffer c) d (co_output c)"
  let ?W = "written ?s"
  have ok: "ok ?s" and off: "0 \<le> co_buffer c" "co_buffer c + int (length d) \<le> lent ?s"
    using c d by (auto simp: co_ok_def)
  note st = store [OF ok off] and lb = lent_bounds [OF ok]
  show "rank (co_output (co_store vt d c)) = rank ?s"
    "out_byte_count vt (co_output (co_store vt d c)) = out_byte_count vt ?s"
    using st by (simp_all add: co_store_def)
  have w: "written ?t = take (length ?W - nat (co_buffer_size c)) ?W @ d @
      drop (length ?W - nat (co_buffer_size c) + length d) ?W"
  proof (cases "d = []")
    case True
    then show ?thesis using st by simp
  next
    case False
    then have "0 < co_buffer_size c" using d by (cases d) auto
    then have "lent ?s = co_buffer c + co_buffer_size c" using c by (simp add: co_ok_def)
    then have "nat (int (length ?W) - lent ?s + co_buffer c) = length ?W - nat (co_buffer_size c)"
      using lb off by linarith
    then show ?thesis using st by (simp add: overwrite_def)
  qed
  have len: "nat (co_buffer_size c) \<le> length ?W" using c lb unfolding co_ok_def by linarith
  let ?a = "length ?W - nat (co_buffer_size c)"
  have "length (written ?t) = length ?W" using d len by (simp add: w)
  then have "length (written ?t) - nat (co_buffer_size c - int (length d)) = ?a + length d"
    using d len by (simp add: nat_diff_distrib)
  then have "take (length (written ?t) - nat (co_buffer_size c - int (length d))) (written ?t) = take ?a ?W @ d"
    using d len by (simp add: w)
  then show "co_wrote vt ok written lent base d c (co_Advance (int (length d)) (co_store vt d c))"
    using c d st
    by (simp add: co_wrote_def co_ok_def co_written_def co_Advance_def co_store_def
        CodedOutputStream_ByteCount_def)
qed

lemma co_wrote_trans:
  "co_wrote vt ok written lent base d a b \<Longrightarrow> co_wrote vt ok written lent base e b c \<Longrightarrow>
    co_wrote vt ok written lent base (d @ e) a c"
  by (simp add: co_wrote_def)

lemma co_refresh:
  assumes c: "co_ok vt ok lent base c" and z: "co_buffer_size c = 0"
    and b: "out_byte_count vt (co_output c) \<le> budget"
  obtains c' where "co_Refresh vt c = Some (True, c')" "co_wrote vt ok written lent base [] c c'"
      "out_byte_count vt (co_output c') - co_buffer_size c' = out_byte_count vt (co_output c)"
      "co_buffer_size c' = 0 \<Longrightarrow> rank (co_output c') < rank (co_output c)"
  | c' where "co_Refresh vt c = Some (False, c')" "ok (co_output c')"
proof -
  have ok: "ok (co_output c)" using c by (simp add: co_ok_def)
  obtain r s where n: "out_next vt (co_output c) = Some (r, s)" using next_returns [OF ok b] by auto
  show thesis
  proof (cases r)
    case None
    with n next_fail [OF ok] show thesis
      by (intro that(2) [of "c\<lparr>co_output := s, co_buffer := 0, co_buffer_size := 0\<rparr>"])
        (simp_all add: co_Refresh_def)
  next
    case (Some k)
    note e = next_buffer [OF ok n [unfolded Some]]
    define c' where "c' = c\<lparr>co_output := s, co_buffer := 0, co_buffer_size := k,
      co_total_bytes := co_total_bytes c + k\<rparr>"
    obtain junk where j: "length junk = nat k" "written s = written (co_output c) @ junk"
      using e by auto
    have "co_wrote vt ok written lent base [] c c'"
      using c e j z
      by (simp add: co_wrote_def co_ok_def co_written_def c'_def CodedOutputStream_ByteCount_def)
    moreover have "co_buffer_size c' = 0 \<Longrightarrow> rank (co_output c') < rank (co_output c)"
      using next_progress [OF ok] n Some by (simp add: c'_def)
    moreover have "out_byte_count vt (co_output c') - co_buffer_size c' = out_byte_count vt (co_output c)"
      using e by (simp add: c'_def)
    ultimately show thesis
      using n Some by (intro that(1) [of c']) (simp_all add: co_Refresh_def c'_def)
  qed
qed

text \<open>What is left of the budget for this writer.\<close>

definition co_fits :: "'s coded_output \<Rightarrow> nat \<Rightarrow> bool" where
  "co_fits c n \<longleftrightarrow> out_byte_count vt (co_output c) - co_buffer_size c + int n \<le> budget"

lemma write_raw:
  assumes "co_ok vt ok lent base c" and "co_fits c (length d)"
  shows "\<exists>r c'. CodedOutputStream_WriteRaw vt d c = Some (r, c') \<and> ok (co_output c') \<and>
    (r \<longrightarrow> co_wrote vt ok written lent base d c c')"
  using assms
proof (induction "(2 * length d + (if co_buffer_size c = 0 then 1 else 0), rank (co_output c))"
    arbitrary: c d rule: wf_induct_rule [OF wf_lex_prod [OF wf_less_than wf_less_than]])
  case less: 1
  show ?case
  proof (cases "co_buffer_size c < int (length d)")
    case False
    then have "int (length d) \<le> co_buffer_size c" by simp
    from co_put(1) [OF less.prems(1) this] False show ?thesis
      by (subst CodedOutputStream_WriteRaw.simps) (auto simp: co_wrote_def co_ok_def)
  next
    case True
    define n where "n = nat (co_buffer_size c)"
    have n: "int n = co_buffer_size c" "n < length d"
      using less.prems(1) True by (auto simp: n_def co_ok_def)
    then have "int (length (take n d)) \<le> co_buffer_size c" by simp
    note p = co_put [OF less.prems(1) this]
    let ?c1 = "co_Advance (int n) (co_store vt (take n d) c)"
    have len: "length (take n d) = n" using n by simp
    have w1: "co_wrote vt ok written lent base (take n d) c ?c1" using p(1) n by (simp add: len)
    have z1: "co_buffer_size ?c1 = 0" using n by (simp add: co_Advance_def co_store_def)
    have b1: "out_byte_count vt (co_output ?c1) \<le> budget"
      using less.prems(2) p(3) n by (simp add: co_fits_def co_Advance_def)
    have rf: "co_Refresh vt (co_store vt (take n d) c) = co_Refresh vt ?c1"
      by (simp add: co_Refresh_def co_Advance_def cong: option.case_cong)
    have ok1: "co_ok vt ok lent base ?c1" using w1 by (simp add: co_wrote_def)
    from co_refresh [OF ok1 z1 b1] show ?thesis
    proof cases
      case (2 c')
      with True show ?thesis
        by (subst CodedOutputStream_WriteRaw.simps) (simp add: n_def [symmetric] rf exI [of _ False])
    next
      case (1 c2)
      have w2: "co_wrote vt ok written lent base (take n d) c c2"
        using co_wrote_trans [OF w1 1(2)] by simp
      have ok2: "co_ok vt ok lent base c2" using w2 by (simp add: co_wrote_def)
      have fits: "co_fits c2 (length (drop n d))"
        using less.prems(2) 1(3) n p(3) by (simp add: co_fits_def co_Advance_def)
      have rk: "co_buffer_size c2 = 0 \<Longrightarrow> rank (co_output c2) < rank (co_output c)"
        using 1(4) p(2) by (simp add: co_Advance_def)
      have dec: "((2 * length (drop n d) + (if co_buffer_size c2 = 0 then 1 else 0), rank (co_output c2)),
          2 * length d + (if co_buffer_size c = 0 then 1 else 0), rank (co_output c))
          \<in> less_than <*lex*> less_than"
        using n rk by (cases "n = 0") auto
      from less.hyps [OF dec ok2 fits] obtain r c' where
        l: "CodedOutputStream_WriteRaw vt (drop n d) c2 = Some (r, c')" "ok (co_output c')"
        "r \<longrightarrow> co_wrote vt ok written lent base (drop n d) c2 c'" by blast
      have "CodedOutputStream_WriteRaw vt d c = Some (r, c')"
        using True 1(1) l(1) by (subst CodedOutputStream_WriteRaw.simps) (simp add: n_def [symmetric] rf)
      moreover have "r \<longrightarrow> co_wrote vt ok written lent base d c c'"
        using l(3) co_wrote_trans [OF w2, of "drop n d" c'] by simp
      ultimately show ?thesis using l(2) by blast
    qed
  qed
qed

text \<open>The writers: each returns, and where it returns true it has appended its bytes.\<close>

definition writes :: "int \<Rightarrow> bytes \<Rightarrow> 's coded_output \<Rightarrow> (bool \<times> 's coded_output) option \<Rightarrow> bool" where
  "writes base d c res \<longleftrightarrow> (\<exists>r c'. res = Some (r, c') \<and> ok (co_output c') \<and>
     (r \<longrightarrow> co_wrote vt ok written lent base d c c'))"

lemma writes_raw:
  "co_ok vt ok lent base c \<Longrightarrow> co_fits c (length d) \<Longrightarrow>
    writes base d c (CodedOutputStream_WriteRaw vt d c)"
  unfolding writes_def by (rule write_raw)

lemma writes_put:
  "co_ok vt ok lent base c \<Longrightarrow> int (length d) \<le> co_buffer_size c \<Longrightarrow> n = int (length d) \<Longrightarrow>
    writes base d c (Some (True, co_Advance n (co_store vt d c)))"
  using co_put(1) [of base c d] by (auto simp: writes_def co_wrote_def co_ok_def)

lemma write_le32:
  assumes c: "co_ok vt ok lent base c" and f: "co_fits c 4"
  shows "writes base (le_bytes 4 (unat v)) c (CodedOutputStream_WriteLittleEndian32 vt v c)"
  using writes_put [OF c, of "le_bytes 4 (unat v)"] writes_raw [OF c, of "le_bytes 4 (unat v)"] f
  by (simp add: CodedOutputStream_WriteLittleEndian32_def le32_bytes_le Let_def)

lemma write_le64:
  assumes c: "co_ok vt ok lent base c" and f: "co_fits c 8"
  shows "writes base (le_bytes 8 (unat v)) c (CodedOutputStream_WriteLittleEndian64 vt v c)"
  using writes_put [OF c, of "le_bytes 8 (unat v)"] writes_raw [OF c, of "le_bytes 8 (unat v)"] f
  by (simp add: CodedOutputStream_WriteLittleEndian64_def le64_bytes_le Let_def)

lemma varint32_length: "length (varint_bytes (unat (v :: uint32))) \<le> 5"
proof (rule length_varint_bytes)
  show "unat v < 128 ^ 5" using unsigned_less [of v, where ?'a = nat] by simp
qed simp

lemma varint64_length: "length (varint_bytes (unat (v :: uint64))) \<le> 10"
proof (rule length_varint_bytes)
  show "unat v < 128 ^ 10" using unsigned_less [of v, where ?'a = nat] by simp
qed simp

lemma write_varint32_fallback:
  assumes c: "co_ok vt ok lent base c" and f: "co_fits c (length (varint_bytes (unat v)))"
  shows "writes base (varint_bytes (unat v)) c (CodedOutputStream_WriteVarint32Fallback vt v c)"
  using writes_put [OF c, of "varint_bytes (unat v)"] writes_raw [OF c f] varint32_length [of v]
  by (simp add: CodedOutputStream_WriteVarint32Fallback_def varint32_target_bytes varint32_compose_bytes
      Let_def)

lemma write_varint64:
  assumes c: "co_ok vt ok lent base c" and f: "co_fits c (length (varint_bytes (unat v)))"
  shows "writes base (varint_bytes (unat v)) c (CodedOutputStream_WriteVarint64 vt v c)"
  using writes_put [OF c, of "varint_bytes (unat v)"] writes_raw [OF c f] varint64_length [of v]
  by (simp add: CodedOutputStream_WriteVarint64_def varint64_target_bytes varint64_compose_bytes Let_def)

lemma varint_one_byte: "v < 0x80 \<Longrightarrow> varint_bytes (unat (v :: uint32)) = [ucast v]"
  unfolding ucast_of_nat_unat by (rule varint_bytes_cases(1)) (simp add: word_less_nat_alt)

lemma varint_two_bytes:
  assumes "\<not> v < 0x80" "v < 0x4000"
  shows "varint_bytes (unat (v :: uint32)) = [ucast (v OR 0x80), ucast (drop_bit 7 v)]"
proof -
  have n: "128 \<le> unat v" "unat v < 16384"
    using assms by (simp_all add: word_less_nat_alt not_less word_le_nat_alt)
  then have "unat v div 128 < 128" by (simp add: div_less_iff_less_mult)
  with n show ?thesis
    by (simp only: varint_bytes_cases ucast_or_80 ucast_drop_7)
qed

lemma write_varint32:
  assumes c: "co_ok vt ok lent base c" and f: "co_fits c (length (varint_bytes (unat v)))"
  shows "writes base (varint_bytes (unat v)) c (CodedOutputStream_WriteVarint32 vt v c)"
  using writes_put [OF c, of "varint_bytes (unat v)" 1] write_varint32_fallback [OF c f]
    varint_one_byte [of v]
  by (auto simp: CodedOutputStream_WriteVarint32_def)

lemma write_tag:
  assumes c: "co_ok vt ok lent base c" and f: "co_fits c (length (varint_bytes (unat v)))"
  shows "writes base (varint_bytes (unat v)) c (CodedOutputStream_WriteTag vt v c)"
proof -
  have "0 \<le> co_buffer_size c" using c by (simp add: co_ok_def)
  then show ?thesis
    using writes_put [OF c, of "varint_bytes (unat v)" 1] writes_put [OF c, of "varint_bytes (unat v)" 2]
      write_varint32_fallback [OF c f] varint_one_byte [of v] varint_two_bytes [of v]
    by (auto simp: CodedOutputStream_WriteTag_def)
qed

text \<open>A signed 32-bit value is written as the varint of its 64-bit two's complement.\<close>

lemma write_varint32_sign_extended:
  assumes c: "co_ok vt ok lent base c" and v: "is_int32 v"
    and f: "co_fits c (length (varint_bytes (nat (v mod 2 ^ 64))))"
  shows "writes base (varint_bytes (nat (v mod 2 ^ 64))) c
    (CodedOutputStream_WriteVarint32SignExtended vt v c)"
proof -
  have 64: "unat (of_int v :: uint64) = nat (v mod 2 ^ 64)"
    by (simp add: unsigned_of_int take_bit_eq_mod)
  have 32: "unat (of_int v :: uint32) = nat (v mod 2 ^ 64)" if "0 \<le> v"
    using that v by (simp add: unsigned_of_int take_bit_eq_mod int_bounds)
  show ?thesis
  proof (cases "v < 0")
    case True
    with write_varint64 [OF c, of "of_int v", unfolded 64, OF f] show ?thesis
      by (simp add: CodedOutputStream_WriteVarint32SignExtended_def)
  next
    case False
    then have "unat (of_int v :: uint32) = nat (v mod 2 ^ 64)" by (intro 32) simp
    with write_varint32 [OF c, of "of_int v", unfolded this, OF f] False show ?thesis
      by (simp add: CodedOutputStream_WriteVarint32SignExtended_def)
  qed
qed

text \<open>The destructor returns the unused end of the buffer.\<close>

lemma co_destroy:
  assumes c: "co_ok vt ok lent base c"
  obtains s where "CodedOutputStream_destroy vt c = Some s" "ok s"
    and "0 < co_buffer_size c \<Longrightarrow> written s = co_written written c"
    and "co_buffer_size c = 0 \<Longrightarrow> s = co_output c"
    and "out_byte_count vt s = base + CodedOutputStream_ByteCount c"
proof (cases "co_buffer_size c > 0")
  case False
  with c that [of "co_output c"] show thesis
    by (simp add: CodedOutputStream_destroy_def co_ok_def CodedOutputStream_ByteCount_def)
next
  case True
  then have "co_buffer_size c \<le> lent (co_output c)" using c by (simp add: co_ok_def)
  with backup [of "co_output c" "co_buffer_size c"] True c
  obtain s where "out_backup vt (co_buffer_size c) (co_output c) = Some s" "ok s"
    "written s = take (length (written (co_output c)) - nat (co_buffer_size c)) (written (co_output c))"
    "out_byte_count vt s = out_byte_count vt (co_output c) - co_buffer_size c"
    by (auto simp: co_ok_def)
  with True c that [of s] show thesis
    by (simp add: CodedOutputStream_destroy_def co_written_def co_ok_def CodedOutputStream_ByteCount_def)
qed

lemma co_destroy_written:
  assumes c: "co_ok vt ok lent base c"
  obtains s where "CodedOutputStream_destroy vt c = Some s" "ok s" "written s = co_written written c"
    and "out_byte_count vt s = base + CodedOutputStream_ByteCount c"
proof -
  obtain s where "CodedOutputStream_destroy vt c = Some s" "ok s"
    "0 < co_buffer_size c \<Longrightarrow> written s = co_written written c" "co_buffer_size c = 0 \<Longrightarrow> s = co_output c"
    "out_byte_count vt s = base + CodedOutputStream_ByteCount c"
    using co_destroy [OF c] by metis
  then show thesis using c that [of s]
    by (cases "co_buffer_size c = 0") (auto simp: co_ok_def co_written_def)
qed

end

section \<open>Sizes of signed values\<close>

lemma VarintSize32SignExtended_length:
  assumes "is_int32 v"
  shows "CodedOutputStream_VarintSize32SignExtended v = int (length (varint_bytes (nat (v mod 2 ^ 64))))"
proof (cases "v < 0")
  case True
  have "v mod 2 ^ 64 = (v + 2 ^ 64) mod 2 ^ 64" by simp
  also have "\<dots> = v + 2 ^ 64"
    using True assms by (intro mod_pos_pos_trivial) (simp_all add: int_bounds)
  finally have "nat (v mod 2 ^ 64) = nat (v + 2 ^ 64)" by (simp only:)
  moreover have "128 ^ 9 \<le> nat (v + 2 ^ 64)" "nat (v + 2 ^ 64) < 128 ^ Suc 9"
    using True assms by (simp_all add: int_bounds)
  then have "length (varint_bytes (nat (v + 2 ^ 64))) = 10" using length_varint_bytes_eq [of 9] by simp
  ultimately show ?thesis using True by (simp add: CodedOutputStream_VarintSize32SignExtended_def)
next
  case False
  then have "unat (of_int v :: uint32) = nat (v mod 2 ^ 64)"
    using assms by (simp add: unsigned_of_int take_bit_eq_mod int_bounds)
  then show ?thesis using False
    by (simp add: CodedOutputStream_VarintSize32SignExtended_def VarintSize32_length)
qed

end
