(* ===== verification/WireFormat.thy ===== *)
theory WireFormat
  imports CodedVarints CodedWrites UnknownFieldSets WireTags
begin

text \<open>
  Skipping, serializing and measuring unknown fields (\<open>wire_format.cc\<close>). A pointer to an
  \<open>UnknownFieldSet\<close> that may be \<open>NULL\<close> is an optional set, passed in and returned as the
  call leaves it.
\<close>

unbundle bit_operations_syntax

section \<open>Skipping\<close>

type_synonym 's skip_result = "((bool \<times> unknown_field_set option) \<times> 's coded_input) option"

text \<open>\<open>field->add_\<dots>\<close>, where \<open>field\<close> is not \<open>NULL\<close>.\<close>

definition on_field ::
  "int \<Rightarrow> (unknown_field \<Rightarrow> unknown_field) \<Rightarrow> unknown_field_set option \<Rightarrow> unknown_field_set option" where
  "on_field number upd = map_option (ufs_modify number upd)"

text \<open>
  \<open>(field == NULL) ? NULL : field->add_group()\<close>: the set the new pointer points to, and
  the sets after the call.
\<close>

definition field_add_group ::
  "int \<Rightarrow> unknown_field_set option \<Rightarrow> unknown_field_set option \<times> unknown_field_set option" where
  "field_add_group number u =
     (map_option (fst \<circ> UnknownField_add_group) (Option.bind u (ufs_get number)),
      on_field number (snd \<circ> UnknownField_add_group) u)"

text \<open>
  \<open>SkipField\<close> and \<open>SkipMessage\<close> call each other: the former takes the latter as an
  argument, and is what the source has once the latter is defined.
\<close>

definition SkipField_with ::
  "'s input_vt \<Rightarrow> ('s coded_input \<Rightarrow> unknown_field_set option \<Rightarrow> 's skip_result) \<Rightarrow> uint32 \<Rightarrow>
    's coded_input \<Rightarrow> unknown_field_set option \<Rightarrow> 's skip_result" where
  "SkipField_with vt skip_message tag input unknown_fields =
     (let number = GetTagFieldNumber tag;
          u = map_option (UnknownFieldSet_AddField number) unknown_fields in
      case GetTagWireType tag of
        WIRETYPE_VARINT \<Rightarrow> do {
          (r, c) \<leftarrow> CodedInputStream_ReadVarint64 vt input;
          (case r of None \<Rightarrow> Some ((False, u), c)
           | Some v \<Rightarrow> Some ((True, on_field number (UnknownField_add_varint v) u), c))
        }
      | WIRETYPE_FIXED64 \<Rightarrow> do {
          (r, c) \<leftarrow> CodedInputStream_ReadLittleEndian64 vt input;
          (case r of None \<Rightarrow> Some ((False, u), c)
           | Some v \<Rightarrow> Some ((True, on_field number (UnknownField_add_fixed64 v) u), c))
        }
      | WIRETYPE_LENGTH_DELIMITED \<Rightarrow> do {
          (r, c) \<leftarrow> CodedInputStream_ReadVarint32 vt input;
          (case r of None \<Rightarrow> Some ((False, u), c)
           | Some len \<Rightarrow>
               (case u of
                  None \<Rightarrow> do {
                    (ok, c') \<leftarrow> CodedInputStream_Skip vt (sint len) c;
                    Some ((ok, u), c')
                  }
                | Some s \<Rightarrow> do {
                    ((ok, str), c') \<leftarrow> CodedInputStream_ReadString vt [] (sint len) c;
                    Some ((True, on_field number (UnknownField_add_length_delimited str) u), c')
                  }))
        }
      | WIRETYPE_START_GROUP \<Rightarrow>
          (let (deeper, c) = CodedInputStream_IncrementRecursionDepth input in
           if \<not> deeper then Some ((False, u), c)
           else
             let (g, u1) = field_add_group number u in do {
               ((ok, g'), c1) \<leftarrow> skip_message c g;
               let u' = (case g' of None \<Rightarrow> u1 | Some g' \<Rightarrow> on_field number (uf_set_last_group g') u1);
               (if \<not> ok then Some ((False, u'), c1)
                else
                  let c2 = CodedInputStream_DecrementRecursionDepth c1 in
                  Some ((CodedInputStream_LastTagWas (MakeTag number WIRETYPE_END_GROUP) c2, u'), c2))
             })
      | WIRETYPE_END_GROUP \<Rightarrow> Some ((False, u), input)
      | WIRETYPE_FIXED32 \<Rightarrow> do {
          (r, c) \<leftarrow> CodedInputStream_ReadLittleEndian32 vt input;
          (case r of None \<Rightarrow> Some ((False, u), c)
           | Some v \<Rightarrow> Some ((True, on_field number (UnknownField_add_fixed32 v) u), c))
        }
      | WIRETYPE_OTHER n \<Rightarrow> Some ((False, u), input))"

lemma SkipField_with_mono [partial_function_mono]:
  assumes "\<And>c u. mono_option (\<lambda>f. sm f c u)"
  shows "mono_option (\<lambda>f. SkipField_with vt (sm f) tag input u)"
proof -
  have m: "mono_option (\<lambda>f. Option.bind (sm f c u) k)" for c u k
    by (rule bind_mono [OF assms]) (rule option.const_mono)
  obtain g u1 where g: "field_add_group (GetTagFieldNumber tag)
      (map_option (UnknownFieldSet_AddField (GetTagFieldNumber tag)) u) = (g, u1)" by fastforce
  obtain d c where d: "CodedInputStream_IncrementRecursionDepth input = (d, c)" by fastforce
  show ?thesis
    unfolding SkipField_with_def Let_def g d
    by (cases "GetTagWireType tag"; cases d; simp add: option.const_mono m)
qed

partial_function (option) SkipMessage ::
  "'s input_vt \<Rightarrow> 's coded_input \<Rightarrow> unknown_field_set option \<Rightarrow> 's skip_result" where
  "SkipMessage vt input unknown_fields = do {
     (tag, c) \<leftarrow> CodedInputStream_ReadTag vt input;
     (if tag = 0 then Some ((True, unknown_fields), c)
      else if GetTagWireType tag = WIRETYPE_END_GROUP then Some ((True, unknown_fields), c)
      else do {
        ((ok, u), c') \<leftarrow> SkipField_with vt (SkipMessage vt) tag c unknown_fields;
        (if \<not> ok then Some ((False, u), c') else SkipMessage vt c' u)
      })
   }"

definition SkipField ::
  "'s input_vt \<Rightarrow> uint32 \<Rightarrow> 's coded_input \<Rightarrow> unknown_field_set option \<Rightarrow> 's skip_result" where
  "SkipField vt tag input unknown_fields = SkipField_with vt (SkipMessage vt) tag input unknown_fields"

section \<open>Serializing\<close>

text \<open>A run of \<open>DO(\<dots>)\<close>: the first write that returns false ends it.\<close>

fun co_seq ::
  "('s coded_output \<Rightarrow> (bool \<times> 's coded_output) option) list \<Rightarrow> 's coded_output \<Rightarrow>
    (bool \<times> 's coded_output) option" where
  "co_seq [] c = Some (True, c)"
| "co_seq (w # ws) c = do { (ok, c') \<leftarrow> w c; (if ok then co_seq ws c' else Some (False, c')) }"

function SerializeUnknownField ::
  "'s output_vt \<Rightarrow> unknown_field \<Rightarrow> ('s coded_output \<Rightarrow> (bool \<times> 's coded_output) option) list"
and SerializeUnknownFields ::
  "'s output_vt \<Rightarrow> unknown_field_set \<Rightarrow> 's coded_output \<Rightarrow> (bool \<times> 's coded_output) option" where
  "SerializeUnknownField vt field =
     (let tag = (\<lambda>t. CodedOutputStream_WriteVarint32 vt (MakeTag (uf_number field) t)) in
      concat (map (\<lambda>v. [tag WIRETYPE_VARINT, CodedOutputStream_WriteVarint64 vt v]) (uf_varint field)) @
      concat (map (\<lambda>v. [tag WIRETYPE_FIXED32, CodedOutputStream_WriteLittleEndian32 vt v])
        (uf_fixed32 field)) @
      concat (map (\<lambda>v. [tag WIRETYPE_FIXED64, CodedOutputStream_WriteLittleEndian64 vt v])
        (uf_fixed64 field)) @
      concat (map (\<lambda>d. [tag WIRETYPE_LENGTH_DELIMITED,
          CodedOutputStream_WriteVarint32 vt (of_nat (length d)), CodedOutputStream_WriteString vt d])
        (uf_length_delimited field)) @
      concat (map (\<lambda>g. [tag WIRETYPE_START_GROUP, SerializeUnknownFields vt g, tag WIRETYPE_END_GROUP])
        (uf_group field)))"
| "SerializeUnknownFields vt unknown_fields =
     co_seq (concat (map (SerializeUnknownField vt) (ufs_field_list unknown_fields)))"
  by pat_completeness auto
termination
  by (relation "measure (\<lambda>x. case x of Inl (vt, f) \<Rightarrow> size f | Inr (vt, s) \<Rightarrow> size s)")
    (auto dest: size_uf_group size_ufs_field_list)

declare SerializeUnknownField.simps [simp del] SerializeUnknownFields.simps [simp del]

section \<open>Sizes\<close>

function ComputeUnknownFieldSize :: "unknown_field \<Rightarrow> int"
and ComputeUnknownFieldsSize :: "unknown_field_set \<Rightarrow> int" where
  "ComputeUnknownFieldSize field =
     (let tag = (\<lambda>t. CodedOutputStream_VarintSize32 (MakeTag (uf_number field) t)) in
      sum_list (map (\<lambda>v. tag WIRETYPE_VARINT + CodedOutputStream_VarintSize64 v) (uf_varint field)) +
      sum_list (map (\<lambda>v. tag WIRETYPE_FIXED32 + 4) (uf_fixed32 field)) +
      sum_list (map (\<lambda>v. tag WIRETYPE_FIXED64 + 8) (uf_fixed64 field)) +
      sum_list (map (\<lambda>d. tag WIRETYPE_LENGTH_DELIMITED +
          CodedOutputStream_VarintSize32 (of_nat (length d)) + int (length d)) (uf_length_delimited field)) +
      sum_list (map (\<lambda>g. tag WIRETYPE_START_GROUP + ComputeUnknownFieldsSize g + tag WIRETYPE_END_GROUP)
        (uf_group field)))"
| "ComputeUnknownFieldsSize unknown_fields =
     sum_list (map ComputeUnknownFieldSize (ufs_field_list unknown_fields))"
  by pat_completeness auto
termination
  by (relation "measure (\<lambda>x. case x of Inl f \<Rightarrow> size f | Inr s \<Rightarrow> size s)")
    (auto dest: size_uf_group size_ufs_field_list)

declare ComputeUnknownFieldSize.simps [simp del] ComputeUnknownFieldsSize.simps [simp del]

section \<open>Message sets\<close>

definition kMessageSetItemStartTag :: uint32 where
  "kMessageSetItemStartTag = MakeTag 1 WIRETYPE_START_GROUP"

definition kMessageSetItemEndTag :: uint32 where
  "kMessageSetItemEndTag = MakeTag 1 WIRETYPE_END_GROUP"

definition kMessageSetTypeIdTag :: uint32 where
  "kMessageSetTypeIdTag = MakeTag 2 WIRETYPE_VARINT"

definition kMessageSetMessageTag :: uint32 where
  "kMessageSetMessageTag = MakeTag 3 WIRETYPE_LENGTH_DELIMITED"

definition kMessageSetItemTagsSize :: int where
  "kMessageSetItemTagsSize =
     CodedOutputStream_VarintSize32 kMessageSetItemStartTag +
     CodedOutputStream_VarintSize32 kMessageSetItemEndTag +
     CodedOutputStream_VarintSize32 kMessageSetTypeIdTag +
     CodedOutputStream_VarintSize32 kMessageSetMessageTag"

definition SerializeUnknownMessageSetItems ::
  "'s output_vt \<Rightarrow> unknown_field_set \<Rightarrow> 's coded_output \<Rightarrow> (bool \<times> 's coded_output) option" where
  "SerializeUnknownMessageSetItems vt unknown_fields =
     co_seq (concat (map (\<lambda>field. concat (map (\<lambda>data.
         [CodedOutputStream_WriteVarint32 vt kMessageSetItemStartTag,
          CodedOutputStream_WriteVarint32 vt kMessageSetTypeIdTag,
          CodedOutputStream_WriteVarint32 vt (of_int (uf_number field)),
          CodedOutputStream_WriteVarint32 vt kMessageSetMessageTag,
          CodedOutputStream_WriteVarint32 vt (of_nat (length data)),
          CodedOutputStream_WriteString vt data,
          CodedOutputStream_WriteVarint32 vt kMessageSetItemEndTag]) (uf_length_delimited field)))
       (ufs_field_list unknown_fields)))"

definition ComputeUnknownMessageSetItemsSize :: "unknown_field_set \<Rightarrow> int" where
  "ComputeUnknownMessageSetItemsSize unknown_fields =
     sum_list (map (\<lambda>field. sum_list (map (\<lambda>data.
         kMessageSetItemTagsSize + CodedOutputStream_VarintSize32 (of_int (uf_number field)) +
         CodedOutputStream_VarintSize32 (of_nat (length data)) + int (length data))
         (uf_length_delimited field)))
       (ufs_field_list unknown_fields))"

end
