(* ===== verification/WireItems.thy ===== *)
theory WireItems
  imports WireFormat
begin

text \<open>
  The grammar of a message on the wire, as the specification \<open>SkipMessage\<close> and
  \<open>SerializeUnknownFields\<close> of \<open>wire_format.cc\<close> are proved against: a message is a
  sequence of items, an item a tag and a value, and the value of a group is a message. The first part
  relates what a set of unknown fields writes, and the size it announces, to its items; the second
  part shows that reading items adds them, in order, to a set.
\<close>

section \<open>Items\<close>

datatype wire_item =
  WVarint int uint64
| WFixed32 int uint32
| WFixed64 int uint64
| WBytes int bytes
| WGroup int "wire_item list"

definition tag_bytes :: "int \<Rightarrow> wire_type \<Rightarrow> bytes" where
  "tag_bytes n t = varint_bytes (unat (MakeTag n t))"

fun item_bytes :: "wire_item \<Rightarrow> bytes" where
  "item_bytes (WVarint n v) = tag_bytes n WIRETYPE_VARINT @ varint_bytes (unat v)"
| "item_bytes (WFixed32 n v) = tag_bytes n WIRETYPE_FIXED32 @ le_bytes 4 (unat v)"
| "item_bytes (WFixed64 n v) = tag_bytes n WIRETYPE_FIXED64 @ le_bytes 8 (unat v)"
| "item_bytes (WBytes n d) = tag_bytes n WIRETYPE_LENGTH_DELIMITED @
     varint_bytes (unat (of_nat (length d) :: uint32)) @ d"
| "item_bytes (WGroup n items) = tag_bytes n WIRETYPE_START_GROUP @ concat (map item_bytes items) @
     tag_bytes n WIRETYPE_END_GROUP"

abbreviation items_bytes :: "wire_item list \<Rightarrow> bytes" where
  "items_bytes items \<equiv> concat (map item_bytes items)"

text \<open>What a set of unknown fields writes, in the order of the code.\<close>

function uf_items :: "unknown_field \<Rightarrow> wire_item list"
  and ufs_items :: "unknown_field_set \<Rightarrow> wire_item list" where
  "uf_items f =
     map (WVarint (uf_number f)) (uf_varint f) @ map (WFixed32 (uf_number f)) (uf_fixed32 f) @
     map (WFixed64 (uf_number f)) (uf_fixed64 f) @ map (WBytes (uf_number f)) (uf_length_delimited f) @
     map (\<lambda>g. WGroup (uf_number f) (ufs_items g)) (uf_group f)"
| "ufs_items s = concat (map uf_items (ufs_field_list s))"
  by pat_completeness auto
termination
  by (relation "measure (\<lambda>x. case x of Inl f \<Rightarrow> size f | Inr s \<Rightarrow> size s)")
    (auto dest: size_uf_group size_ufs_field_list)

declare uf_items.simps [simp del] ufs_items.simps [simp del]
declare SerializeUnknownField.simps [simp del] SerializeUnknownFields.simps [simp del]
declare ComputeUnknownFieldSize.simps [simp del] ComputeUnknownFieldsSize.simps [simp del]

section \<open>Sizes\<close>

lemma length_concat_int: "int (length (concat xss)) = sum_list (map (\<lambda>xs. int (length xs)) xss)"
  by (induction xss) simp_all

lemma items_bytes_concat: "items_bytes (concat xss) = concat (map (\<lambda>xs. items_bytes xs) xss)"
  by (induction xss) simp_all

lemma computed_size:
  "ComputeUnknownFieldSize f = int (length (items_bytes (uf_items f)))"
  "ComputeUnknownFieldsSize s = int (length (items_bytes (ufs_items s)))"
proof (induction f and s rule: ComputeUnknownFieldSize_ComputeUnknownFieldsSize.induct)
  case (1 f)
  have g: "sum_list (map (\<lambda>g. tag_size + ComputeUnknownFieldsSize g + end_size) (uf_group f)) =
      sum_list (map (\<lambda>g. tag_size + int (length (items_bytes (ufs_items g))) + end_size) (uf_group f))"
    for tag_size end_size
    using 1 by (intro arg_cong [of _ _ sum_list] map_cong) simp_all
  show ?case
    unfolding ComputeUnknownFieldSize.simps uf_items.simps Let_def g
    by (simp add: tag_bytes_def VarintSize64_length VarintSize32_length length_concat_int comp_def add.assoc)
next
  case (2 s)
  then show ?case
    unfolding ComputeUnknownFieldsSize.simps ufs_items.simps items_bytes_concat
    by (simp add: length_concat_int comp_def cong: map_cong)
qed

section \<open>Writing\<close>

lemma co_seq_append: "co_seq (vs @ ws) c = co_seq (co_seq vs # ws) c"
proof (induction vs arbitrary: c)
  case (Cons v vs)
  then show ?case by (cases "v c") auto
qed simp

context zero_copy_output
begin

text \<open>A writer of \<open>d\<close>, in any state of the stream with room for it.\<close>

definition emits :: "('s coded_output \<Rightarrow> (bool \<times> 's coded_output) option) \<Rightarrow> bytes \<Rightarrow> bool" where
  "emits w d \<longleftrightarrow> (\<forall>base c. co_ok vt ok lent base c \<longrightarrow> co_fits c (length d) \<longrightarrow> writes base d c (w c))"

lemma emits_writers:
  "emits (CodedOutputStream_WriteVarint32 vt v) (varint_bytes (unat v))"
  "emits (CodedOutputStream_WriteVarint64 vt x) (varint_bytes (unat x))"
  "emits (CodedOutputStream_WriteLittleEndian32 vt v) (le_bytes 4 (unat v))"
  "emits (CodedOutputStream_WriteLittleEndian64 vt x) (le_bytes 8 (unat x))"
  "emits (CodedOutputStream_WriteString vt d) d"
  by (simp_all add: emits_def write_varint32 write_varint64 write_le32 write_le64 writes_raw
      CodedOutputStream_WriteString_def)

lemma emits_Nil: "emits (co_seq []) []"
  unfolding emits_def writes_def co_wrote_def by (auto simp: co_ok_def)

lemma co_fits_wrote:
  assumes "co_ok vt ok lent base c" "co_wrote vt ok written lent base d c c'" "co_fits c (length d + n)"
  shows "co_fits c' n"
  using assms by (auto simp: co_fits_def co_wrote_def co_ok_def CodedOutputStream_ByteCount_def)

lemma emits_Cons:
  assumes w: "emits w d" and ws: "emits (co_seq ws) e"
  shows "emits (co_seq (w # ws)) (d @ e)"
  unfolding emits_def
proof (intro allI impI)
  fix base c
  assume c: "co_ok vt ok lent base c" and f: "co_fits c (length (d @ e))"
  have "co_fits c (length d)" using f by (simp add: co_fits_def)
  with w c obtain r c1 where 1: "w c = Some (r, c1)" "ok (co_output c1)"
    "r \<Longrightarrow> co_wrote vt ok written lent base d c c1"
    unfolding emits_def writes_def by blast
  show "writes base (d @ e) c (co_seq (w # ws) c)"
  proof (cases r)
    case True
    note wr = 1(3) [OF True]
    have "co_fits c1 (length e)" using co_fits_wrote [OF c wr] f by simp
    moreover have "co_ok vt ok lent base c1" using wr by (simp add: co_wrote_def)
    ultimately obtain r2 c2 where 2: "co_seq ws c1 = Some (r2, c2)" "ok (co_output c2)"
      "r2 \<Longrightarrow> co_wrote vt ok written lent base e c1 c2"
      using ws unfolding emits_def writes_def by blast
    then show ?thesis
      using 1(1) True co_wrote_trans [OF wr 2(3)] by (auto simp: writes_def)
  qed (use 1 in \<open>auto simp: writes_def\<close>)
qed

lemma emits_append:
  "emits (co_seq vs) d \<Longrightarrow> emits (co_seq ws) e \<Longrightarrow> emits (co_seq (vs @ ws)) (d @ e)"
  using emits_Cons [of "co_seq vs" d ws e] by (simp add: emits_def co_seq_append)

lemma emits_concat:
  "(\<And>x. x \<in> set xs \<Longrightarrow> emits (co_seq (f x)) (g x)) \<Longrightarrow>
    emits (co_seq (concat (map f xs))) (concat (map g xs))"
  by (induction xs) (simp_all add: emits_Nil emits_append)

lemmas emits_rules = emits_writers emits_Nil emits_Cons emits_append emits_concat

lemma emits_tag: "emits (CodedOutputStream_WriteVarint32 vt (MakeTag n t)) (tag_bytes n t)"
  by (simp add: tag_bytes_def emits_writers)

text \<open>\<open>SerializeUnknownFields\<close> writes the items of the set.\<close>

lemma serialize_emits:
  "emits (co_seq (SerializeUnknownField vt f)) (items_bytes (uf_items f))"
  "emits (SerializeUnknownFields vt s) (items_bytes (ufs_items s))"
proof (induction f and s rule: ComputeUnknownFieldSize_ComputeUnknownFieldsSize.induct)
  case (1 f)
  have two: "emits (co_seq [CodedOutputStream_WriteVarint32 vt (MakeTag n t), w]) (tag_bytes n t @ d)"
    if "emits w d" for n t w d
    using emits_Cons [OF emits_tag emits_Cons [OF that emits_Nil], of n t] by simp
  have three: "emits (co_seq [CodedOutputStream_WriteVarint32 vt (MakeTag n t), w, w']) (tag_bytes n t @ d @ d')"
    if "emits w d" "emits w' d'" for n t w w' d d'
    using emits_Cons [OF emits_tag emits_Cons [OF that(1) emits_Cons [OF that(2) emits_Nil]], of n t] by simp
  show ?case
    unfolding SerializeUnknownField.simps uf_items.simps Let_def map_append concat_append map_map comp_def
      item_bytes.simps
    by (intro emits_append emits_concat two three emits_writers emits_tag 1) simp_all
next
  case (2 s)
  then show ?case
    unfolding SerializeUnknownFields.simps ufs_items.simps items_bytes_concat map_map comp_def
    by (intro emits_concat)
qed

end

text \<open>Over a stream whose \<open>Next\<close> never returns false no writer does.\<close>

definition never_false :: "('s \<Rightarrow> (bool \<times> 's) option) \<Rightarrow> bool" where
  "never_false w \<longleftrightarrow> (\<forall>c c'. w c \<noteq> Some (False, c'))"

lemma never_falseI: "(\<And>c c'. w c = Some (False, c') \<Longrightarrow> False) \<Longrightarrow> never_false w"
  by (auto simp: never_false_def)

lemma refresh_never_false:
  "(\<And>s s'. out_next vt s \<noteq> Some (None, s')) \<Longrightarrow> co_Refresh vt c \<noteq> Some (False, c')"
  by (auto simp: co_Refresh_def split: option.splits)

lemma WriteRaw_true:
  assumes "CodedOutputStream_WriteRaw vt d c = Some r"
  shows "(\<forall>s s'. out_next vt s \<noteq> Some (None, s')) \<longrightarrow> fst r"
proof (rule CodedOutputStream_WriteRaw.raw_induct [OF _ assms], intro impI)
  fix f vt d c r
  assume IH: "\<And>vt d c r. f vt d c = Some r \<Longrightarrow> (\<forall>s s'. out_next vt s \<noteq> Some (None, s')) \<longrightarrow> fst r"
    and body: "(if co_buffer_size c < int (length d) then let n = nat (co_buffer_size c)
        in Option.bind (co_Refresh vt (co_store vt (take n d) c))
          (\<lambda>(ok, c'). if \<not> ok then Some (False, c') else f vt (drop n d) c')
      else Some (True, co_Advance (int (length d)) (co_store vt d c))) = Some r"
    and next_: "\<forall>s s'. out_next vt s \<noteq> Some (None, s')"
  show "fst (r :: bool \<times> _)"
  proof (cases "co_buffer_size c < int (length d)")
    case True
    with body obtain ok c' where
      r: "co_Refresh vt (co_store vt (take (nat (co_buffer_size c)) d) c) = Some (ok, c')"
      "(if \<not> ok then Some (False, c') else f vt (drop (nat (co_buffer_size c)) d) c') = Some r"
      by (auto simp: Let_def)
    with refresh_never_false [of vt] next_ have "ok" by (cases ok) auto
    with r(2) IH next_ show ?thesis by simp
  qed (use body in auto)
qed

lemma WriteRaw_never_false:
  assumes "\<And>s s'. out_next vt s \<noteq> Some (None, s')"
  shows "never_false (CodedOutputStream_WriteRaw vt d)"
  using assms by (fastforce simp: never_false_def dest: WriteRaw_true)

lemma writers_never_false:
  assumes next_: "\<And>s s'. out_next vt s \<noteq> Some (None, s')"
  shows "never_false (CodedOutputStream_WriteVarint32 vt v)"
    and "never_false (CodedOutputStream_WriteVarint64 vt x)"
    and "never_false (CodedOutputStream_WriteLittleEndian32 vt v)"
    and "never_false (CodedOutputStream_WriteLittleEndian64 vt x)"
    and "never_false (CodedOutputStream_WriteString vt d)"
    and "never_false (CodedOutputStream_WriteTag vt v)"
  using WriteRaw_never_false [OF next_]
  by (auto simp: never_false_def CodedOutputStream_WriteVarint32_def CodedOutputStream_WriteVarint32Fallback_def
      CodedOutputStream_WriteVarint64_def CodedOutputStream_WriteLittleEndian32_def
      CodedOutputStream_WriteLittleEndian64_def CodedOutputStream_WriteString_def
      CodedOutputStream_WriteTag_def Let_def split: if_splits)

lemma co_seq_never_false: "(\<And>w. w \<in> set ws \<Longrightarrow> never_false w) \<Longrightarrow> never_false (co_seq ws)"
proof (induction ws)
  case (Cons w ws)
  then have "never_false w" "never_false (co_seq ws)" by simp_all
  then show ?case unfolding never_false_def by (auto split: if_splits)
qed (simp add: never_false_def)

lemma serialize_never_false:
  assumes next_: "\<And>s s'. out_next vt s \<noteq> Some (None, s')"
  shows "w \<in> set (SerializeUnknownField vt f) \<Longrightarrow> never_false w"
    and "never_false (SerializeUnknownFields vt s)"
proof (induction f and s arbitrary: w rule: ComputeUnknownFieldSize_ComputeUnknownFieldsSize.induct)
  case (1 f)
  then show ?case
    using writers_never_false [OF next_] by (auto simp: SerializeUnknownField.simps Let_def split: if_splits)
next
  case (2 s)
  then show ?case by (auto simp: SerializeUnknownFields.simps intro!: co_seq_never_false)
qed

end
