(* ===== verification/WireSkip.thy ===== *)
theory WireSkip
  imports WireItems
begin

text \<open>
  \<open>SkipField\<close> and \<open>SkipMessage\<close> of \<open>wire_format.cc\<close> over any input stream that keeps the
  contract of \<open>ZeroCopyInputStream\<close>: they return whatever the bytes are, and on the bytes of a
  sequence of items they add exactly those items to the set.
\<close>

section \<open>Reading what was written\<close>

lemma ci_depth_fields [simp]:
  "ci_ok ok lastb (c\<lparr>ci_recursion_depth := d\<rparr>) = ci_ok ok lastb c"
  "ci_unread avail (c\<lparr>ci_recursion_depth := d\<rparr>) = ci_unread avail c"
  by (simp_all add: ci_ok_def ci_pre_def ci_unread_def ci_pending_def ci_closest_def ci_position_def)

lemma varint_bytes_split:
  "n < 2 ^ 64 \<Longrightarrow> varint_split 10 (varint_bytes n @ r) = Some (varint_bytes n, r)"
  using length_varint_bytes [of n 10] by (intro varint_split_bytes) simp

context zero_copy_input
begin

text \<open>The reader has moved to where \<open>rest\<close> is left.\<close>

definition at_rest :: "bytes \<Rightarrow> 's coded_input \<Rightarrow> 's coded_input \<Rightarrow> bool" where
  "at_rest rest c c' \<longleftrightarrow> ci_ok ok last c' \<and> ci_unread avail c' = rest \<and>
     (\<exists>k \<le> length (ci_unread avail c). ci_moves avail k c c')"

lemma at_restD:
  assumes "at_rest rest c c'"
  shows "ci_ok ok last c'" "ci_unread avail c' = rest" "ci_recursion_depth c' = ci_recursion_depth c"
    "ci_recursion_limit c' = ci_recursion_limit c"
  using assms by (auto simp: at_rest_def ci_moves_def ci_frame_def)

lemma moves_at_rest:
  "ci_ok ok last c' \<Longrightarrow> ci_moves avail k c c' \<Longrightarrow> ci_unread avail c = d @ rest \<Longrightarrow> k = length d \<Longrightarrow>
    at_rest rest c c'"
  by (auto simp: at_rest_def ci_moves_unread intro!: exI [of _ "length d"])

lemma at_rest_trans:
  assumes "at_rest r a b" "at_rest s b c"
  shows "at_rest s a c"
proof -
  obtain j k where "j \<le> length (ci_unread avail a)" "ci_moves avail j a b"
    "k \<le> length (ci_unread avail b)" "ci_moves avail k b c"
    using assms by (auto simp: at_rest_def)
  then have "j + k \<le> length (ci_unread avail a)" "ci_moves avail (j + k) a c"
    by (auto simp: ci_moves_unread intro: ci_moves_trans)
  with assms(2) show ?thesis by (auto simp: at_rest_def)
qed

text \<open>A deeper reader, back where it was.\<close>

lemma at_rest_deeper:
  assumes "at_rest rest (c\<lparr>ci_recursion_depth := ci_recursion_depth c + 1\<rparr>) d"
  shows "at_rest rest c (d\<lparr>ci_recursion_depth := ci_recursion_depth d - 1\<rparr>)"
  using assms
  by (auto simp: at_rest_def ci_moves_def ci_frame_def ci_pending_def ci_position_def)

lemma varint_read_at_rest:
  assumes "varint_read c c'" "ci_unread avail c = varint_bytes n @ rest" "n < 2 ^ 64"
  shows "at_rest rest c c'"
  using assms by (auto simp: varint_read_def varint_bytes_split intro: moves_at_rest)

lemma uint64_bound: "unat (v :: uint64) < 2 ^ 64" "unat (w :: uint32) < 2 ^ 64"
  using unsigned_less [of v, where ?'a = nat] unsigned_less [of w, where ?'a = nat] by simp_all

lemma reads_back:
  assumes c: "ci_ok ok last c"
  shows "ci_unread avail c = varint_bytes (unat v) @ rest \<Longrightarrow>
      \<exists>c'. CodedInputStream_ReadVarint64 vt c = Some (Some v, c') \<and> at_rest rest c c'"
    and "ci_unread avail c = varint_bytes (unat w) @ rest \<Longrightarrow>
      \<exists>c'. CodedInputStream_ReadVarint32 vt c = Some (Some w, c') \<and> at_rest rest c c'"
    and "ci_unread avail c = le_bytes 4 (unat w) @ rest \<Longrightarrow>
      \<exists>c'. CodedInputStream_ReadLittleEndian32 vt c = Some (Some w, c') \<and> at_rest rest c c'"
    and "ci_unread avail c = le_bytes 8 (unat v) @ rest \<Longrightarrow>
      \<exists>c'. CodedInputStream_ReadLittleEndian64 vt c = Some (Some v, c') \<and> at_rest rest c c'"
    and "ci_unread avail c = d @ rest \<Longrightarrow> n = int (length d) \<Longrightarrow>
      \<exists>c'. CodedInputStream_ReadString vt buffer n c = Some ((True, d), c') \<and> at_rest rest c c'"
    and "ci_unread avail c = varint_bytes (unat tag) @ rest \<Longrightarrow>
      \<exists>c'. CodedInputStream_ReadTag vt c = Some (tag, c') \<and> at_rest rest c c' \<and> ci_last_tag c' = tag"
proof -
  assume u: "ci_unread avail c = varint_bytes (unat v) @ rest"
  obtain c' where "CodedInputStream_ReadVarint64 vt c =
      Some (map_option (\<lambda>(v, r). of_nat (varint_nat v)) (varint_split 10 (ci_unread avail c)), c')"
    "varint_read c c'" by (rule read_varint64 [OF c])
  then show "\<exists>c'. CodedInputStream_ReadVarint64 vt c = Some (Some v, c') \<and> at_rest rest c c'"
    using varint_read_at_rest [OF _ u] uint64_bound by (auto simp: u varint_bytes_split)
next
  assume u: "ci_unread avail c = varint_bytes (unat w) @ rest"
  obtain c' where "CodedInputStream_ReadVarint32 vt c =
      Some (map_option (\<lambda>(v, r). of_nat (varint_nat v)) (varint_split 10 (ci_unread avail c)), c')"
    "varint_read c c'" by (rule read_varint32 [OF c])
  then show "\<exists>c'. CodedInputStream_ReadVarint32 vt c = Some (Some w, c') \<and> at_rest rest c c'"
    using varint_read_at_rest [OF _ u] uint64_bound by (auto simp: u varint_bytes_split)
next
  assume u: "ci_unread avail c = le_bytes 4 (unat w) @ rest"
  have "le_nat (le_bytes 4 (unat w)) = unat w"
    using unsigned_less [of w, where ?'a = nat] by (intro le_nat_bytes) simp
  moreover obtain c' where "CodedInputStream_ReadLittleEndian32 vt c =
      Some (if 4 \<le> length (ci_unread avail c) then Some (of_nat (le_nat (take 4 (ci_unread avail c)))) else None, c')"
    "ci_ok ok last c'" "ci_moves avail (min 4 (length (ci_unread avail c))) c c'"
    by (rule read_le32 [OF c])
  ultimately show "\<exists>c'. CodedInputStream_ReadLittleEndian32 vt c = Some (Some w, c') \<and> at_rest rest c c'"
    using moves_at_rest [OF _ _ u] by (simp add: u)
next
  assume u: "ci_unread avail c = le_bytes 8 (unat v) @ rest"
  have "le_nat (le_bytes 8 (unat v)) = unat v"
    using unsigned_less [of v, where ?'a = nat] by (intro le_nat_bytes) simp
  moreover obtain c' where "CodedInputStream_ReadLittleEndian64 vt c =
      Some (if 8 \<le> length (ci_unread avail c) then Some (of_nat (le_nat (take 8 (ci_unread avail c)))) else None, c')"
    "ci_ok ok last c'" "ci_moves avail (min 8 (length (ci_unread avail c))) c c'"
    by (rule read_le64 [OF c])
  ultimately show "\<exists>c'. CodedInputStream_ReadLittleEndian64 vt c = Some (Some v, c') \<and> at_rest rest c c'"
    using moves_at_rest [OF _ _ u] by (simp add: u)
next
  assume u: "ci_unread avail c = d @ rest" and n: "n = int (length d)"
  obtain c' where "CodedInputStream_ReadString vt buffer n c =
      Some ((n \<le> int (length (ci_unread avail c)), take (nat n) (ci_unread avail c)), c')"
    "ci_ok ok last c'" "ci_moves avail (min (nat n) (length (ci_unread avail c))) c c'"
    by (rule read_string [OF c, of n buffer]) (simp add: n)
  then show "\<exists>c'. CodedInputStream_ReadString vt buffer n c = Some ((True, d), c') \<and> at_rest rest c c'"
    using moves_at_rest [OF _ _ u] by (simp add: u n)
next
  assume u: "ci_unread avail c = varint_bytes (unat tag) @ rest"
  obtain c' where "CodedInputStream_ReadTag vt c =
      Some (case varint_split 10 (ci_unread avail c) of None \<Rightarrow> 0 | Some (v, r) \<Rightarrow> of_nat (varint_nat v), c')"
    and v: "varint_read c (c'\<lparr>ci_last_tag := ci_last_tag c\<rparr>)"
    and "ci_last_tag c' =
      (case varint_split 10 (ci_unread avail c) of None \<Rightarrow> 0 | Some (v, r) \<Rightarrow> of_nat (varint_nat v))"
    by (rule read_tag [OF c]) blast
  moreover have "at_rest rest c c'"
    using varint_read_at_rest [OF v u] uint64_bound by (simp add: at_rest_def)
  ultimately show "\<exists>c'. CodedInputStream_ReadTag vt c = Some (tag, c') \<and> at_rest rest c c' \<and> ci_last_tag c' = tag"
    using uint64_bound(2) [of tag] by (simp add: u varint_bytes_split)
qed

end

section \<open>SkipMessage returns\<close>

context zero_copy_input_skip
begin

text \<open>A reader further on, or at the same place.\<close>

definition onward :: "'a coded_input \<Rightarrow> 'a coded_input \<Rightarrow> bool" where
  "onward c c' \<longleftrightarrow> ci_ok ok last c' \<and> length (ci_unread avail c') \<le> length (ci_unread avail c)"

definition skipped :: "'a coded_input \<Rightarrow> 'a skip_result \<Rightarrow> bool" where
  "skipped c res \<longleftrightarrow> (\<exists>r u c'. res = Some ((r, u), c') \<and> onward c c')"

lemma skipped_Some [simp]: "skipped c (Some ((r, u), c')) = onward c c'"
  by (simp add: skipped_def)

lemma onward_trans: "onward a b \<Longrightarrow> onward b c \<Longrightarrow> onward a c"
  by (auto simp: onward_def)

lemma skipped_later: "onward c c1 \<Longrightarrow> skipped c1 res \<Longrightarrow> skipped c res"
  by (cases res) (auto simp: skipped_def intro: onward_trans)

lemma moves_onward: "ci_ok ok last c' \<Longrightarrow> ci_moves avail k c c' \<Longrightarrow> onward c c'"
  by (simp add: onward_def ci_moves_unread)

lemma varint_read_onward: "varint_read c c' \<Longrightarrow> onward c c'"
  by (auto simp: varint_read_def intro: moves_onward split: option.splits)

lemma varint_read_shorter:
  assumes "varint_read c c'" "varint_split 10 (ci_unread avail c) \<noteq> None"
  shows "length (ci_unread avail c') < length (ci_unread avail c)"
proof -
  obtain v r where v: "varint_split 10 (ci_unread avail c) = Some (v, r)" using assms(2) by auto
  with assms(1) have "ci_moves avail (length v) c c'" by (simp add: varint_read_def)
  then show ?thesis using varint_split_append [OF v] by (auto simp: ci_moves_unread)
qed

lemma reads_onward:
  assumes c: "ci_ok ok last c"
  obtains r1 c1 r2 c2 r3 c3 r4 c4 where
    "CodedInputStream_ReadVarint64 vt c = Some (r1, c1)" "onward c c1"
    "CodedInputStream_ReadVarint32 vt c = Some (r2, c2)" "onward c c2"
    "CodedInputStream_ReadLittleEndian32 vt c = Some (r3, c3)" "onward c c3"
    "CodedInputStream_ReadLittleEndian64 vt c = Some (r4, c4)" "onward c c4"
proof -
  obtain r1 c1 where 1: "CodedInputStream_ReadVarint64 vt c = Some (r1, c1)" "onward c c1"
    by (rule read_varint64 [OF c]) (blast dest: varint_read_onward)
  obtain r2 c2 where 2: "CodedInputStream_ReadVarint32 vt c = Some (r2, c2)" "onward c c2"
    by (rule read_varint32 [OF c]) (blast dest: varint_read_onward)
  obtain r3 c3 where 3: "CodedInputStream_ReadLittleEndian32 vt c = Some (r3, c3)" "onward c c3"
    by (rule read_le32 [OF c]) (blast intro: moves_onward)
  obtain r4 c4 where "CodedInputStream_ReadLittleEndian64 vt c = Some (r4, c4)" "onward c c4"
    by (rule read_le64 [OF c]) (blast intro: moves_onward)
  with 1 2 3 that show thesis by blast
qed

lemma lengths_onward:
  assumes c: "ci_ok ok last c"
  obtains r1 c1 r2 d c2 where
    "CodedInputStream_Skip vt (sint (n :: uint32)) c = Some (r1, c1)" "onward c c1"
    "CodedInputStream_ReadString vt buffer (sint n) c = Some ((r2, d), c2)" "onward c c2"
proof (cases "sint n < 0")
  case True
  then show thesis using that [of False c False buffer c] c
    by (simp add: coded_skip_negative read_string_negative onward_def)
next
  case False
  then have n: "0 \<le> sint n" by simp
  have m: "sint n \<le> INT_MAX" using sint_lt [of n] by (simp add: INT_MAX_def)
  obtain c1 where 1: "CodedInputStream_Skip vt (sint n) c = Some (sint n \<le> int (length (ci_unread avail c)), c1)"
    "ci_ok ok last c1" "ci_unread avail c1 = drop (nat (sint n)) (ci_unread avail c)"
    by (rule coded_skip [OF c n m])
  moreover obtain c2 where "CodedInputStream_ReadString vt buffer (sint n) c =
      Some ((sint n \<le> int (length (ci_unread avail c)), take (nat (sint n)) (ci_unread avail c)), c2)"
    "ci_ok ok last c2" "ci_moves avail (min (nat (sint n)) (length (ci_unread avail c))) c c2"
    by (rule read_string [OF c n])
  ultimately show thesis using that moves_onward by (simp add: onward_def)
qed

lemma skip_field_returns:
  assumes c: "ci_ok ok last c" and sm: "\<And>c' u. onward c c' \<Longrightarrow> skipped c' (sm c' u)"
  shows "skipped c (SkipField_with vt sm tag c u)"
proof -
  obtain r1 c1 r2 c2 r3 c3 r4 c4 where r:
    "CodedInputStream_ReadVarint64 vt c = Some (r1, c1)" "onward c c1"
    "CodedInputStream_ReadVarint32 vt c = Some (r2, c2)" "onward c c2"
    "CodedInputStream_ReadLittleEndian32 vt c = Some (r3, c3)" "onward c c3"
    "CodedInputStream_ReadLittleEndian64 vt c = Some (r4, c4)" "onward c c4" by (rule reads_onward [OF c])
  have refl: "onward c c" using c by (simp add: onward_def)
  show ?thesis
  proof (cases "GetTagWireType tag")
    case WIRETYPE_LENGTH_DELIMITED
    show ?thesis
    proof (cases r2)
      case (Some n)
      have c2: "ci_ok ok last c2" using r(4) by (simp add: onward_def)
      obtain s1 d1 s2 d d2 where
        "CodedInputStream_Skip vt (sint n) c2 = Some (s1, d1)" "onward c2 d1"
        "CodedInputStream_ReadString vt [] (sint n) c2 = Some ((s2, d), d2)" "onward c2 d2"
        by (rule lengths_onward [OF c2])
      then show ?thesis
        using WIRETYPE_LENGTH_DELIMITED r(3) Some onward_trans [OF r(4), of d1] onward_trans [OF r(4), of d2]
        by (cases u) (simp_all add: SkipField_with_def Let_def)
    qed (use WIRETYPE_LENGTH_DELIMITED r(3,4) in \<open>simp add: SkipField_with_def\<close>)
  next
    case WIRETYPE_START_GROUP
    let ?deep = "c\<lparr>ci_recursion_depth := ci_recursion_depth c + 1\<rparr>"
    have deep: "onward c ?deep" using c by (simp add: onward_def)
    obtain g u1 where g: "field_add_group (GetTagFieldNumber tag)
        (map_option (UnknownFieldSet_AddField (GetTagFieldNumber tag)) u) = (g, u1)" by fastforce
    obtain s g' d where "sm ?deep g = Some ((s, g'), d)" "onward ?deep d"
      using sm [OF deep, of g] by (auto simp: skipped_def)
    then show ?thesis
      using WIRETYPE_START_GROUP deep refl
      by (auto simp: SkipField_with_def skipped_def g CodedInputStream_IncrementRecursionDepth_def
          CodedInputStream_DecrementRecursionDepth_def onward_def Let_def)
  next
    case WIRETYPE_VARINT
    with r(1,2) show ?thesis by (cases r1) (simp_all add: SkipField_with_def Let_def)
  next
    case WIRETYPE_FIXED64
    with r(7,8) show ?thesis by (cases r4) (simp_all add: SkipField_with_def Let_def)
  next
    case WIRETYPE_FIXED32
    with r(5,6) show ?thesis by (cases r3) (simp_all add: SkipField_with_def Let_def)
  qed (use refl in \<open>simp_all add: SkipField_with_def Let_def\<close>)
qed

text \<open>\<open>SkipMessage\<close> returns on every input: each round consumes the bytes of a tag.\<close>

lemma skip_message_returns:
  "ci_ok ok last c \<Longrightarrow> skipped c (SkipMessage vt c u)"
proof (induction "length (ci_unread avail c)" arbitrary: c u rule: less_induct)
  case less
  obtain c1 where tag: "CodedInputStream_ReadTag vt c =
      Some (case varint_split 10 (ci_unread avail c) of None \<Rightarrow> 0 | Some (v, r) \<Rightarrow> of_nat (varint_nat v), c1)"
    (is "_ = Some (?tag, c1)")
    and v: "varint_read c (c1\<lparr>ci_last_tag := ci_last_tag c\<rparr>)"
    by (rule read_tag [OF less.prems]) blast
  have c1: "onward c c1" using varint_read_onward [OF v] by (simp add: onward_def)
  show ?case
  proof (cases "?tag = 0 \<or> GetTagWireType ?tag = WIRETYPE_END_GROUP")
    case True
    with tag c1 show ?thesis by (subst SkipMessage.simps) (auto simp: skipped_def)
  next
    case False
    then have "varint_split 10 (ci_unread avail c) \<noteq> None"
      by (cases "varint_split 10 (ci_unread avail c)") simp_all
    then have shorter: "length (ci_unread avail c1) < length (ci_unread avail c)"
      using varint_read_shorter [OF v] by simp
    have IH: "skipped c' (SkipMessage vt c' u)" if "onward c1 c'" for c' u
      using that less.hyps [of c'] shorter by (simp add: onward_def)
    have "skipped c1 (SkipField_with vt (SkipMessage vt) ?tag c1 u)"
      using c1 IH by (intro skip_field_returns) (simp add: onward_def)
    then obtain r u' c2 where f: "SkipField_with vt (SkipMessage vt) ?tag c1 u = Some ((r, u'), c2)" "onward c1 c2"
      unfolding skipped_def by blast
    have "skipped c (SkipMessage vt c2 u')"
      by (rule skipped_later [OF onward_trans [OF c1 f(2)] IH [OF f(2)]])
    then show ?thesis
      using False tag f onward_trans [OF c1 f(2)] by (subst SkipMessage.simps) simp
  qed
qed

end

section \<open>What items add to a set\<close>

fun uv_add_varint :: "uint64 \<Rightarrow> unknown_value \<Rightarrow> unknown_value" where
  "uv_add_varint x (UnknownValue n v a b d g) = UnknownValue n (v @ [x]) a b d g"

fun uv_add_fixed32 :: "uint32 \<Rightarrow> unknown_value \<Rightarrow> unknown_value" where
  "uv_add_fixed32 x (UnknownValue n v a b d g) = UnknownValue n v (a @ [x]) b d g"

fun uv_add_fixed64 :: "uint64 \<Rightarrow> unknown_value \<Rightarrow> unknown_value" where
  "uv_add_fixed64 x (UnknownValue n v a b d g) = UnknownValue n v a (b @ [x]) d g"

fun uv_add_bytes :: "bytes \<Rightarrow> unknown_value \<Rightarrow> unknown_value" where
  "uv_add_bytes x (UnknownValue n v a b d g) = UnknownValue n v a b (d @ [x]) g"

fun uv_add_group :: "unknown_value list \<Rightarrow> unknown_value \<Rightarrow> unknown_value" where
  "uv_add_group x (UnknownValue n v a b d g) = UnknownValue n v a b d (g @ [x])"

fun add_item :: "wire_item \<Rightarrow> unknown_value list \<Rightarrow> unknown_value list" where
  "add_item (WVarint n v) = uv_update n (uv_add_varint v)"
| "add_item (WFixed32 n v) = uv_update n (uv_add_fixed32 v)"
| "add_item (WFixed64 n v) = uv_update n (uv_add_fixed64 v)"
| "add_item (WBytes n d) = uv_update n (uv_add_bytes d)"
| "add_item (WGroup n items) = uv_update n (uv_add_group (fold add_item items []))"

fun item_number :: "wire_item \<Rightarrow> int" where
  "item_number (WVarint n v) = n"
| "item_number (WFixed32 n v) = n"
| "item_number (WFixed64 n v) = n"
| "item_number (WBytes n d) = n"
| "item_number (WGroup n items) = n"

text \<open>Field numbers and lengths in range, and groups nested at most \<open>k\<close> deep.\<close>

definition valid_number :: "int \<Rightarrow> bool" where
  "valid_number n \<longleftrightarrow> 1 \<le> n \<and> n < 2 ^ 29"

fun item_ok :: "nat \<Rightarrow> wire_item \<Rightarrow> bool" where
  "item_ok k (WVarint n v) = valid_number n"
| "item_ok k (WFixed32 n v) = valid_number n"
| "item_ok k (WFixed64 n v) = valid_number n"
| "item_ok k (WBytes n d) = (valid_number n \<and> int (length d) \<le> INT_MAX)"
| "item_ok 0 (WGroup n items) = False"
| "item_ok (Suc k) (WGroup n items) = (valid_number n \<and> (\<forall>i \<in> set items. item_ok k i))"

lemma valid_tag:
  assumes "valid_number n" "\<forall>m. t \<noteq> WIRETYPE_OTHER m"
  shows "GetTagFieldNumber (MakeTag n t) = n" "GetTagWireType (MakeTag n t) = t" "MakeTag n t \<noteq> 0"
proof -
  have n: "0 \<le> n" "n < 2 ^ 29" using assms(1) by (auto simp: valid_number_def)
  show "GetTagFieldNumber (MakeTag n t) = n" "GetTagWireType (MakeTag n t) = t"
    using MakeTag_split [OF n assms(2)] by blast+
  have "wire_type_value t < 8" using assms(2) by (cases t) simp_all
  from unat_MakeTag [OF n this] have "unat (MakeTag n t) \<noteq> 0"
    using assms(1) by (simp add: valid_number_def)
  then show "MakeTag n t \<noteq> 0" by (metis unsigned_0)
qed

lemma add_refinements:
  assumes "uf_ok f" "uf_clean f"
  shows "uf_value (UnknownField_add_varint x f) = uv_add_varint x (uf_value f)"
    and "uf_value (UnknownField_add_fixed32 y f) = uv_add_fixed32 y (uf_value f)"
    and "uf_value (UnknownField_add_fixed64 x f) = uv_add_fixed64 x (uf_value f)"
    and "uf_value (UnknownField_add_length_delimited d f) = uv_add_bytes d (uf_value f)"
  using uf_add_values(1) [OF assms, of x] uf_add_values(2) [OF assms, of y]
    uf_add_values(3) [OF assms, of x] uf_add_values(4) [OF assms, of d]
  by (simp_all add: uf_value.simps [of f])

lemma add_group_number: "uf_number (snd (UnknownField_add_group f)) = uf_number f"
  by (cases f rule: UnknownField_add_group.cases) simp_all

lemma ufs_modify_modify:
  assumes "\<And>f. ufs_get n s = Some f \<Longrightarrow> uf_number (upd f) = uf_number f"
  shows "ufs_modify n upd2 (ufs_modify n upd s) = ufs_modify n (upd2 \<circ> upd) s"
proof (cases s)
  case (Internal fs act)
  have "alist_update n b (alist_update n a fs) = alist_update n b fs" for a b
    by (induction n b fs rule: alist_update.induct) auto
  then show ?thesis by (simp add: Internal split: option.split)
qed simp

section \<open>Reading items\<close>

context zero_copy_input_skip
begin

lemma message_step:
  assumes "CodedInputStream_ReadTag vt c = Some (MakeTag n t, c1)"
    and "valid_number n" "\<forall>m. t \<noteq> WIRETYPE_OTHER m" "t \<noteq> WIRETYPE_END_GROUP"
    and "SkipField_with vt (SkipMessage vt) (MakeTag n t) c1 u = Some ((True, u'), c2)"
  shows "SkipMessage vt c u = SkipMessage vt c2 u'"
  using assms valid_tag [OF assms(2,3)] by (subst SkipMessage.simps) simp

lemma message_end_group:
  assumes c: "ci_ok ok last c" and u: "ci_unread avail c = tag_bytes n WIRETYPE_END_GROUP @ rest"
    and n: "valid_number n"
  obtains c' where "SkipMessage vt c u = Some ((True, u), c')" "at_rest rest c c'"
    "ci_last_tag c' = MakeTag n WIRETYPE_END_GROUP"
proof -
  obtain c' where tag: "CodedInputStream_ReadTag vt c = Some (MakeTag n WIRETYPE_END_GROUP, c')" "at_rest rest c c'"
    "ci_last_tag c' = MakeTag n WIRETYPE_END_GROUP"
    using reads_back(6) [OF c u [unfolded tag_bytes_def]] by blast
  moreover have "SkipMessage vt c u = Some ((True, u), c')"
    using tag(1) valid_tag [OF n, of WIRETYPE_END_GROUP] by (subst SkipMessage.simps) simp
  ultimately show thesis using that by blast
qed

lemma message_end:
  assumes c: "ci_ok ok last c" and u: "ci_unread avail c = []"
  obtains c' where "SkipMessage vt c s = Some ((True, s), c')" "ci_ok ok last c'" "ci_unread avail c' = []"
proof -
  obtain c1 where tag: "CodedInputStream_ReadTag vt c = Some (0, c1)"
    and v: "varint_read c (c1\<lparr>ci_last_tag := ci_last_tag c\<rparr>)"
    by (rule read_tag [OF c]) (simp add: u numeral_eq_Suc)
  have "ci_ok ok last c1" "ci_unread avail c1 = []"
    using varint_read_onward [OF v] by (simp_all add: onward_def u)
  moreover have "SkipMessage vt c s = Some ((True, s), c1)" using tag by (subst SkipMessage.simps) simp
  ultimately show thesis using that by blast
qed

text \<open>An item that is read: its tag, and then its value by \<open>SkipField\<close>.\<close>

definition item_read ::
  "'a coded_input \<Rightarrow> unknown_field_set \<Rightarrow> wire_item \<Rightarrow> bytes \<Rightarrow> 'a coded_input \<Rightarrow> unknown_field_set \<Rightarrow> bool" where
  "item_read c s i rest c' s' \<longleftrightarrow>
     (\<exists>t c1. CodedInputStream_ReadTag vt c = Some (MakeTag (item_number i) t, c1) \<and> valid_number (item_number i) \<and>
       (\<forall>m. t \<noteq> WIRETYPE_OTHER m) \<and> t \<noteq> WIRETYPE_END_GROUP \<and>
       SkipField vt (MakeTag (item_number i) t) c1 (Some s) = Some ((True, Some s'), c')) \<and>
     at_rest rest c c' \<and> ufs_ok s' \<and> ufs_clean s' \<and> ufs_value s' = add_item i (ufs_value s)"

lemma item_read_step:
  assumes "item_read c s i rest c' s'"
  shows "SkipMessage vt c (Some s) = SkipMessage vt c' (Some s')" "at_rest rest c c'" "ufs_ok s'" "ufs_clean s'"
    "ufs_value s' = add_item i (ufs_value s)"
proof -
  obtain t c1 where "CodedInputStream_ReadTag vt c = Some (MakeTag (item_number i) t, c1)" "valid_number (item_number i)"
    "\<forall>m. t \<noteq> WIRETYPE_OTHER m" "t \<noteq> WIRETYPE_END_GROUP"
    "SkipField vt (MakeTag (item_number i) t) c1 (Some s) = Some ((True, Some s'), c')"
    using assms by (auto simp: item_read_def)
  then show "SkipMessage vt c (Some s) = SkipMessage vt c' (Some s')"
    using message_step by (simp add: SkipField_def)
qed (use assms in \<open>simp_all add: item_read_def\<close>)

text \<open>The simple items: a tag, then a value some reader reads.\<close>

lemma skip_simple_item:
  assumes c: "ci_ok ok last c" and u: "ci_unread avail c = item_bytes i @ rest" and i: "item_ok k i"
    and s: "ufs_ok s" "ufs_clean s" and ng: "\<And>n items. i \<noteq> WGroup n items"
  shows "\<exists>c' s'. item_read c s i rest c' s'"
proof -
  have step: "\<exists>c' s'. item_read c s i rest c' s'"
    if b: "item_bytes i = tag_bytes n t @ d" "item_number i = n" "add_item i = uv_update n updv" and n: "valid_number n"
      and t: "\<forall>m. t \<noteq> WIRETYPE_OTHER m" "t \<noteq> WIRETYPE_END_GROUP"
      and upd: "\<And>f. uf_ok f \<Longrightarrow> uf_clean f \<Longrightarrow> uf_number (upd f) = uf_number f \<and>
        uf_index (upd f) = uf_index f \<and> uf_ok (upd f) \<and> uf_clean (upd f) \<and> uf_value (upd f) = updv (uf_value f)"
      and f: "\<And>c1. ci_ok ok last c1 \<Longrightarrow> ci_unread avail c1 = d @ rest \<Longrightarrow>
        \<exists>c2. SkipField_with vt (SkipMessage vt) (MakeTag n t) c1 (Some s) =
          Some ((True, Some (ufs_modify n upd (UnknownFieldSet_AddField n s))), c2) \<and> at_rest rest c1 c2"
    for n t d upd updv
  proof -
    obtain c1 where c1: "CodedInputStream_ReadTag vt c = Some (MakeTag n t, c1)" "at_rest (d @ rest) c c1"
      using reads_back(6) [OF c, of "MakeTag n t" "d @ rest"] u by (auto simp: b tag_bytes_def)
    obtain c2 where c2: "SkipField_with vt (SkipMessage vt) (MakeTag n t) c1 (Some s) =
        Some ((True, Some (ufs_modify n upd (UnknownFieldSet_AddField n s))), c2)" "at_rest rest c1 c2"
      using f [of c1] c1(2) by (auto simp: at_rest_def)
    note m = AddField_modify [OF s, of n upd updv]
    have "item_read c s i rest c2 (ufs_modify n upd (UnknownFieldSet_AddField n s))"
      unfolding item_read_def b(2,3)
      using c1(1) n t c2(1) at_rest_trans [OF c1(2) c2(2)] m upd by (simp add: SkipField_def) blast
    then show ?thesis by blast
  qed
  show ?thesis
  proof (cases i)
    case (WVarint n v)
    have n: "valid_number n" using i WVarint by simp
    show ?thesis
    proof (rule step [of n WIRETYPE_VARINT "varint_bytes (unat v)" "uv_add_varint v" "UnknownField_add_varint v"])
      fix c1 assume "ci_ok ok last c1" "ci_unread avail c1 = varint_bytes (unat v) @ rest"
      from reads_back(1) [OF this] show "\<exists>c2. SkipField_with vt (SkipMessage vt) (MakeTag n WIRETYPE_VARINT) c1 (Some s) =
          Some ((True, Some (ufs_modify n (UnknownField_add_varint v) (UnknownFieldSet_AddField n s))), c2) \<and>
          at_rest rest c1 c2"
        by (auto simp: SkipField_with_def valid_tag [OF n] on_field_def)
    qed (use n WVarint uf_add_values add_refinements in auto)
  next
    case (WFixed32 n v)
    have n: "valid_number n" using i WFixed32 by simp
    show ?thesis
    proof (rule step [of n WIRETYPE_FIXED32 "le_bytes 4 (unat v)" "uv_add_fixed32 v" "UnknownField_add_fixed32 v"])
      fix c1 assume "ci_ok ok last c1" "ci_unread avail c1 = le_bytes 4 (unat v) @ rest"
      from reads_back(3) [OF this] show "\<exists>c2. SkipField_with vt (SkipMessage vt) (MakeTag n WIRETYPE_FIXED32) c1 (Some s) =
          Some ((True, Some (ufs_modify n (UnknownField_add_fixed32 v) (UnknownFieldSet_AddField n s))), c2) \<and>
          at_rest rest c1 c2"
        by (auto simp: SkipField_with_def valid_tag [OF n] on_field_def)
    qed (use n WFixed32 uf_add_values add_refinements in auto)
  next
    case (WFixed64 n v)
    have n: "valid_number n" using i WFixed64 by simp
    show ?thesis
    proof (rule step [of n WIRETYPE_FIXED64 "le_bytes 8 (unat v)" "uv_add_fixed64 v" "UnknownField_add_fixed64 v"])
      fix c1 assume "ci_ok ok last c1" "ci_unread avail c1 = le_bytes 8 (unat v) @ rest"
      from reads_back(4) [OF this] show "\<exists>c2. SkipField_with vt (SkipMessage vt) (MakeTag n WIRETYPE_FIXED64) c1 (Some s) =
          Some ((True, Some (ufs_modify n (UnknownField_add_fixed64 v) (UnknownFieldSet_AddField n s))), c2) \<and>
          at_rest rest c1 c2"
        by (auto simp: SkipField_with_def valid_tag [OF n] on_field_def)
    qed (use n WFixed64 uf_add_values add_refinements in auto)
  next
    case (WBytes n d)
    have n: "valid_number n" and len: "int (length d) \<le> INT_MAX" using i WBytes by simp_all
    let ?len = "of_nat (length d) :: uint32"
    have sl: "sint ?len = int (length d)"
      using len by (simp add: INT_MAX_def signed_of_nat signed_take_bit_int_eq_self)
    show ?thesis
    proof (rule step [of n WIRETYPE_LENGTH_DELIMITED "varint_bytes (unat ?len) @ d" "uv_add_bytes d" "UnknownField_add_length_delimited d"])
      fix c1 assume c1: "ci_ok ok last c1" "ci_unread avail c1 = (varint_bytes (unat ?len) @ d) @ rest"
      from reads_back(2) [OF c1(1), of ?len "d @ rest"] c1(2) obtain c2 where
        2: "CodedInputStream_ReadVarint32 vt c1 = Some (Some ?len, c2)" "at_rest (d @ rest) c1 c2" by auto
      then have c2: "ci_ok ok last c2" "ci_unread avail c2 = d @ rest" by (simp_all add: at_rest_def)
      from reads_back(5) [OF c2 refl] obtain c3 where
        "CodedInputStream_ReadString vt [] (int (length d)) c2 = Some ((True, d), c3)" "at_rest rest c2 c3" by blast
      with 2 show "\<exists>c2. SkipField_with vt (SkipMessage vt) (MakeTag n WIRETYPE_LENGTH_DELIMITED) c1 (Some s) =
          Some ((True, Some (ufs_modify n (UnknownField_add_length_delimited d) (UnknownFieldSet_AddField n s))), c2) \<and>
          at_rest rest c1 c2"
        by (auto simp: SkipField_with_def valid_tag [OF n] on_field_def sl intro: at_rest_trans)
    qed (use n WBytes uf_add_values add_refinements in auto)
  qed (use ng in simp)
qed

text \<open>A group, given what reading its items does.\<close>

lemma skip_group_item:
  assumes c: "ci_ok ok last c" and u: "ci_unread avail c = item_bytes (WGroup n items) @ rest"
    and n: "valid_number n" and s: "ufs_ok s" "ufs_clean s"
    and depth: "0 \<le> ci_recursion_depth c" "ci_recursion_depth c < ci_recursion_limit c"
    and inner: "\<And>c1 g. ci_ok ok last c1 \<Longrightarrow> ci_recursion_depth c1 = ci_recursion_depth c + 1 \<Longrightarrow>
      ci_recursion_limit c1 = ci_recursion_limit c \<Longrightarrow>
      ci_unread avail c1 = items_bytes items @ tag_bytes n WIRETYPE_END_GROUP @ rest \<Longrightarrow> ufs_ok g \<Longrightarrow>
      ufs_clean g \<Longrightarrow> \<exists>c' g'. SkipMessage vt c1 (Some g) = SkipMessage vt c' (Some g') \<and>
        at_rest (tag_bytes n WIRETYPE_END_GROUP @ rest) c1 c' \<and> ufs_ok g' \<and> ufs_clean g' \<and>
        ufs_value g' = fold add_item items (ufs_value g)"
  shows "\<exists>c' s'. item_read c s (WGroup n items) rest c' s'"
proof -
  let ?tag = "MakeTag n WIRETYPE_START_GROUP" and ?a = "UnknownFieldSet_AddField n s"
  note tags = valid_tag [OF n, of WIRETYPE_START_GROUP, simplified] valid_tag [OF n, of WIRETYPE_END_GROUP, simplified]
  obtain c1 where c1: "CodedInputStream_ReadTag vt c = Some (?tag, c1)"
    "at_rest (items_bytes items @ tag_bytes n WIRETYPE_END_GROUP @ rest) c c1"
    using reads_back(6) [OF c, of ?tag "items_bytes items @ tag_bytes n WIRETYPE_END_GROUP @ rest"] u
    by (auto simp: tag_bytes_def)
  let ?deep = "c1\<lparr>ci_recursion_depth := ci_recursion_depth c1 + 1\<rparr>"
  have f: "ci_recursion_depth c1 = ci_recursion_depth c" "ci_recursion_limit c1 = ci_recursion_limit c"
    using at_restD [OF c1(2)] by simp_all
  obtain f0 where a: "ufs_ok ?a" "ufs_clean ?a" "ufs_get n ?a = Some f0" "uf_ok f0" "uf_clean f0"
    by (rule AddField_clean [OF s])
  obtain g0 f1 where g0: "UnknownField_add_group f0 = (g0, f1)" by fastforce
  note ag = uf_add_group [OF a(4,5) g0]
  have deep: "ci_ok ok last ?deep" "ci_recursion_depth ?deep = ci_recursion_depth c + 1"
    "ci_recursion_limit ?deep = ci_recursion_limit c"
    "ci_unread avail ?deep = items_bytes items @ tag_bytes n WIRETYPE_END_GROUP @ rest"
    using at_restD [OF c1(2)] f by simp_all
  obtain d g1 where d: "SkipMessage vt ?deep (Some g0) = SkipMessage vt d (Some g1)"
    "at_rest (tag_bytes n WIRETYPE_END_GROUP @ rest) ?deep d" "ufs_ok g1" "ufs_clean g1"
    "ufs_value g1 = fold add_item items []"
    using inner [OF deep ag(1,2)] unfolding ag(3) by blast
  have "ci_ok ok last d" "ci_unread avail d = tag_bytes n WIRETYPE_END_GROUP @ rest"
    using d(2) by (simp_all add: at_rest_def)
  from message_end_group [OF this n] obtain e where e: "SkipMessage vt d (Some g1) = Some ((True, Some g1), e)"
    "at_rest rest d e" "ci_last_tag e = MakeTag n WIRETYPE_END_GROUP" by blast
  have ed: "ci_recursion_depth e = ci_recursion_depth c + 1"
    using at_restD [OF d(2)] at_restD [OF e(2)] f by simp
  define upd where "upd = uf_set_last_group g1 \<circ> (snd \<circ> UnknownField_add_group)"
  have upd: "uf_number (upd h) = uf_number h \<and> uf_index (upd h) = uf_index h \<and> uf_ok (upd h) \<and> uf_clean (upd h) \<and>
      uf_value (upd h) = uv_add_group (fold add_item items []) (uf_value h)" if "uf_ok h" "uf_clean h" for h
    using uf_add_group(4) [OF that, of "fst (UnknownField_add_group h)" "snd (UnknownField_add_group h)" g1] d(3-5)
    by (simp add: upd_def uf_value.simps [of h])
  have mm: "ufs_modify n (uf_set_last_group g1) (ufs_modify n (snd \<circ> UnknownField_add_group) ?a) = ufs_modify n upd ?a"
    unfolding upd_def
    by (rule ufs_modify_modify) (simp add: add_group_number)
  define c2 where "c2 = e\<lparr>ci_recursion_depth := ci_recursion_depth e - 1\<rparr>"
  have c2: "at_rest rest c1 c2"
    unfolding c2_def by (rule at_rest_deeper [OF at_rest_trans [OF d(2) e(2)]])
  have "SkipField_with vt (SkipMessage vt) ?tag c1 (Some s) = Some ((True, Some (ufs_modify n upd ?a)), c2)"
    using d(1) e(1,3) ed depth f g0 a(3)
    by (simp add: SkipField_with_def tags CodedInputStream_IncrementRecursionDepth_def
        CodedInputStream_DecrementRecursionDepth_def CodedInputStream_LastTagWas_def field_add_group_def on_field_def
        mm c2_def)
  then have "item_read c s (WGroup n items) rest c2 (ufs_modify n upd ?a)"
    unfolding item_read_def item_number.simps add_item.simps
    using c1(1) n at_rest_trans [OF c1(2) c2] AddField_modify [OF s, of n upd "uv_add_group (fold add_item items [])"] upd
    by (simp add: SkipField_def) blast
  then show ?thesis by blast
qed

lemma skip_items_chain:
  assumes one: "\<And>c s i rest. ci_ok ok last c \<Longrightarrow> ci_unread avail c = item_bytes i @ rest \<Longrightarrow> i \<in> set items \<Longrightarrow>
      ufs_ok s \<Longrightarrow> ufs_clean s \<Longrightarrow> 0 \<le> ci_recursion_depth c \<Longrightarrow>
      ci_recursion_depth c + int k \<le> ci_recursion_limit c \<Longrightarrow>
      \<exists>c' s'. SkipMessage vt c (Some s) = SkipMessage vt c' (Some s') \<and> at_rest rest c c' \<and>
        ufs_ok s' \<and> ufs_clean s' \<and> ufs_value s' = add_item i (ufs_value s)"
    and "ci_ok ok last c" "ci_unread avail c = items_bytes items @ rest" "ufs_ok s" "ufs_clean s"
      "0 \<le> ci_recursion_depth c" "ci_recursion_depth c + int k \<le> ci_recursion_limit c"
  shows "\<exists>c' s'. SkipMessage vt c (Some s) = SkipMessage vt c' (Some s') \<and> at_rest rest c c' \<and>
    ufs_ok s' \<and> ufs_clean s' \<and> ufs_value s' = fold add_item items (ufs_value s)"
  using assms
proof (induction items arbitrary: c s)
  case Nil
  then have "at_rest rest c c" by (auto simp: at_rest_def intro: exI [of _ 0])
  with Nil show ?case by auto
next
  case (Cons i items)
  have "ci_unread avail c = item_bytes i @ items_bytes items @ rest" using Cons.prems(3) by simp
  from Cons.prems(1) [OF Cons.prems(2) this _ Cons.prems(4-7)] obtain c1 s1 where
    1: "SkipMessage vt c (Some s) = SkipMessage vt c1 (Some s1)"
      "at_rest (items_bytes items @ rest) c c1" "ufs_ok s1" "ufs_clean s1" "ufs_value s1 = add_item i (ufs_value s)"
    by auto
  have "ci_ok ok last c1" "ci_unread avail c1 = items_bytes items @ rest" "0 \<le> ci_recursion_depth c1"
    "ci_recursion_depth c1 + int k \<le> ci_recursion_limit c1"
    using at_restD [OF 1(2)] Cons.prems(6,7) by simp_all
  from Cons.IH [OF Cons.prems(1) this(1,2) 1(3,4) this(3,4)] obtain c2 s2 where
    "SkipMessage vt c1 (Some s1) = SkipMessage vt c2 (Some s2)" "at_rest rest c1 c2" "ufs_ok s2" "ufs_clean s2"
    "ufs_value s2 = fold add_item items (ufs_value s1)" by auto
  with 1 have "SkipMessage vt c (Some s) = SkipMessage vt c2 (Some s2) \<and> at_rest rest c c2 \<and> ufs_ok s2 \<and>
      ufs_clean s2 \<and> ufs_value s2 = fold add_item (i # items) (ufs_value s)"
    by (auto intro: at_rest_trans)
  then show ?case by blast
qed

lemma skip_items:
  assumes "ci_ok ok last c" "ci_unread avail c = items_bytes items @ rest" "ufs_ok s" "ufs_clean s"
    and "0 \<le> ci_recursion_depth c" "ci_recursion_depth c + int k \<le> ci_recursion_limit c"
    and "\<forall>i \<in> set items. item_ok k i"
  shows "\<exists>c' s'. SkipMessage vt c (Some s) = SkipMessage vt c' (Some s') \<and> at_rest rest c c' \<and>
    ufs_ok s' \<and> ufs_clean s' \<and> ufs_value s' = fold add_item items (ufs_value s)"
  using assms
proof (induction k arbitrary: items c s rest)
  case (0 items c s rest)
  show ?case
  proof (rule skip_items_chain [OF _ 0(1-6)])
    fix c s i rest
    assume i: "ci_ok ok last c" "ci_unread avail c = item_bytes i @ rest" "i \<in> set items" "ufs_ok s" "ufs_clean s"
    then have "item_ok 0 i" using 0(7) by blast
    then show "\<exists>c' s'. SkipMessage vt c (Some s) = SkipMessage vt c' (Some s') \<and> at_rest rest c c' \<and>
        ufs_ok s' \<and> ufs_clean s' \<and> ufs_value s' = add_item i (ufs_value s)"
      using skip_simple_item [OF i(1,2) _ i(4,5), of 0] item_read_step
      by (metis item_ok.simps(5))
  qed
next
  case (Suc k items c s rest)
  show ?case
  proof (rule skip_items_chain [OF _ Suc.prems(1-6)])
    fix c s i rest
    assume i: "ci_ok ok last c" "ci_unread avail c = item_bytes i @ rest" "i \<in> set items" "ufs_ok s" "ufs_clean s"
      and depth: "0 \<le> ci_recursion_depth c" "ci_recursion_depth c + int (Suc k) \<le> ci_recursion_limit c"
    have ok: "item_ok (Suc k) i" using Suc.prems(7) i(3) by blast
    have "\<exists>c' s'. item_read c s i rest c' s'"
    proof (cases "\<exists>n is. i = WGroup n is")
      case True
      then obtain n "is" where g: "i = WGroup n is" by blast
      then have "valid_number n" "\<forall>i \<in> set is. item_ok k i" using ok by simp_all
      then show ?thesis
        unfolding g using i(2) depth unfolding g
        by (intro skip_group_item [OF i(1) _ _ i(4,5)] Suc.IH) simp_all
    next
      case False
      then show ?thesis by (intro skip_simple_item [OF i(1,2) ok i(4,5)]) blast
    qed
    then obtain c' s' where "item_read c s i rest c' s'" by blast
    from item_read_step [OF this] show "\<exists>c' s'. SkipMessage vt c (Some s) = SkipMessage vt c' (Some s') \<and>
        at_rest rest c c' \<and> ufs_ok s' \<and> ufs_clean s' \<and> ufs_value s' = add_item i (ufs_value s)"
      by blast
  qed
qed

text \<open>Any item.\<close>

lemma read_item:
  assumes c: "ci_ok ok last c" "ci_unread avail c = item_bytes i @ rest" and s: "ufs_ok s" "ufs_clean s"
    and depth: "0 \<le> ci_recursion_depth c" "ci_recursion_depth c + int k \<le> ci_recursion_limit c"
    and i: "item_ok k i"
  obtains c' s' where "item_read c s i rest c' s'"
proof (cases "\<exists>n is. i = WGroup n is")
  case True
  then obtain n "is" j where g: "i = WGroup n is" "k = Suc j" using i by (cases k) auto
  then have "valid_number n" "\<forall>i \<in> set is. item_ok j i" using i by simp_all
  then have "\<exists>c' s'. item_read c s i rest c' s'"
    unfolding g using c(2) depth unfolding g
    by (intro skip_group_item [OF c(1) _ _ s] skip_items) simp_all
  with that show thesis by blast
next
  case False
  then show thesis using skip_simple_item [OF c i s] that by blast
qed

end

end
