(* ===== verification/CodedProperties.thy ===== *)
theory CodedProperties
  imports CodedVarints CodedWrites
begin

text \<open>
  What \<open>CodedInputStream\<close> and \<open>CodedOutputStream\<close> promise, stated for a reader over an
  \<open>ArrayInputStream\<close> in any state its operations reach, and for a writer over a
  \<open>StringOutputStream\<close>. Each property is the instance of a lemma that \<open>CodedReads\<close>,
  \<open>CodedVarints\<close> or \<open>CodedWrites\<close> proves for every stream that keeps the contract of
  \<open>ZeroCopyStream\<close>.
\<close>

section \<open>Readers over an array\<close>

abbreviation reader_ok :: "array_input coded_input \<Rightarrow> bool" where
  "reader_ok \<equiv> ci_ok array_input_ok array_input_last"

abbreviation unread :: "array_input coded_input \<Rightarrow> bytes" where
  "unread \<equiv> ci_unread array_input_avail"

definition array_reader :: "bytes \<Rightarrow> int \<Rightarrow> array_input coded_input" where
  "array_reader data block_size =
     CodedInputStream (ArrayInputStream data (int (length data)) block_size)"

lemma array_reader_start:
  assumes "int (length data) \<le> kDefaultTotalBytesLimit"
  shows "reader_ok (array_reader data bs)" and "unread (array_reader data bs) = data"
proof -
  have "array_input_ok (ArrayInputStream data (int (length data)) bs)"
    using assms by (intro array_input_ok_init) (simp add: kDefaultTotalBytesLimit_def INT_MAX_def)
  then show "reader_ok (array_reader data bs)" and "unread (array_reader data bs) = data"
    using assms by (simp_all add: array_reader_def ci_init)
qed

lemmas array_reader_facts = array_reader_start kDefaultTotalBytesLimit_def

lemma varint_readD:
  "ai.varint_read c c' \<Longrightarrow> reader_ok c'"
  "ai.varint_read c c' \<Longrightarrow> varint_split 10 (unread c) = Some (v, r) \<Longrightarrow> unread c' = r"
proof -
  assume r: "ai.varint_read c c'"
  then show "reader_ok c'" by (simp add: ai.varint_read_def)
  assume s: "varint_split 10 (unread c) = Some (v, r)"
  with r have "ci_moves array_input_avail (length v) c c'" by (simp add: ai.varint_read_def)
  then show "unread c' = r" using varint_split_append [OF s] by (simp add: ci_moves_unread)
qed

lemma parse_varint_split:
  "parse_varint bs = Some (n, r) \<Longrightarrow> \<exists>v. varint_split 10 bs = Some (v, r) \<and> varint_nat v = n"
  "parse_varint bs = None \<Longrightarrow> varint_split 10 bs = None"
  by (auto simp: parse_varint_def)

lemma varint_split_numeral:
  "varint_split (numeral k) (b # bs) =
     (if continues b then map_option (\<lambda>(v, r). (b # v, r)) (varint_split (pred_numeral k) bs)
      else Some ([b], bs))"
  "varint_split (numeral k) [] = None"
  by (simp_all add: numeral_eq_Suc)

lemmas parse_varint_eval = parse_varint_def varint_split_numeral continues_iff and_7F_mod

text \<open>C6: \<open>ReadVarint64\<close>, through its unrolled fast path or through its byte-wise slow path with
  its refreshes, returns what the varint format says of the bytes before the closest limit: the
  value modulo 2 to the 64 and the reader just after it, or false where the bytes end or ten of them
  do not end the varint. In every case it returns and the reader keeps its invariant.\<close>

theorem ReadVarint64_parses:
  assumes "reader_ok c"
  shows "\<exists>c'. CodedInputStream_ReadVarint64 ArrayInput_vt c =
      Some (map_option (\<lambda>(n, rest). of_nat n) (parse_varint (unread c)), c') \<and> reader_ok c' \<and>
    (\<forall>n rest. parse_varint (unread c) = Some (n, rest) \<longrightarrow> unread c' = rest)"
proof -
  obtain c' where c': "CodedInputStream_ReadVarint64 ArrayInput_vt c =
      Some (map_option (\<lambda>(v, r). of_nat (varint_nat v)) (varint_split 10 (unread c)), c')"
    and v: "ai.varint_read c c'" by (rule ai.read_varint64 [OF assms])
  show ?thesis
    using c' varint_readD [OF v] by (cases "varint_split 10 (unread c)") (auto simp: parse_varint_def)
qed

theorem ReadVarint64_parses_witness:
  "\<exists>c'. CodedInputStream_ReadVarint64 ArrayInput_vt (array_reader [0xAC, 0x02, 0x07] 1) =
      Some (Some 300, c') \<and> unread c' = [0x07]"
proof -
  have "parse_varint [0xAC, 0x02, 0x07] = Some (300, [0x07])"
    by (simp add: parse_varint_eval)
  with ReadVarint64_parses [of "array_reader [0xAC, 0x02, 0x07] 1"] show ?thesis
    by (simp add: array_reader_facts) blast
qed

text \<open>C7: \<open>ReadVarint32\<close> reads the same varints as \<open>ReadVarint64\<close>, ten-byte ones included, and
  keeps the low 32 bits of the value.\<close>

theorem ReadVarint32_parses:
  assumes "reader_ok c"
  shows "\<exists>c'. CodedInputStream_ReadVarint32 ArrayInput_vt c =
      Some (map_option (\<lambda>(n, rest). of_nat n) (parse_varint (unread c)), c') \<and> reader_ok c' \<and>
    (\<forall>n rest. parse_varint (unread c) = Some (n, rest) \<longrightarrow> unread c' = rest)"
proof -
  obtain c' where c': "CodedInputStream_ReadVarint32 ArrayInput_vt c =
      Some (map_option (\<lambda>(v, r). of_nat (varint_nat v)) (varint_split 10 (unread c)), c')"
    and v: "ai.varint_read c c'" by (rule ai.read_varint32 [OF assms])
  show ?thesis
    using c' varint_readD [OF v] by (cases "varint_split 10 (unread c)") (auto simp: parse_varint_def)
qed

theorem ReadVarint32_parses_witness:
  "\<exists>c'. CodedInputStream_ReadVarint32 ArrayInput_vt
      (array_reader [0x81, 0x80, 0x80, 0x80, 0x90, 0x01, 0x05] 3) = Some (Some 1, c') \<and> unread c' = [0x05]"
proof -
  let ?c = "array_reader [0x81, 0x80, 0x80, 0x80, 0x90, 0x01, 0x05] 3"
  have u: "reader_ok ?c" "unread ?c = [0x81, 0x80, 0x80, 0x80, 0x90, 0x01, 0x05]"
    by (simp_all add: array_reader_facts)
  have p: "parse_varint [0x81, 0x80, 0x80, 0x80, 0x90, 0x01, 0x05] = Some (38654705665, [0x05])"
    by (simp add: parse_varint_eval)
  have "(38654705665 :: uint32) = 1" by simp
  with ReadVarint32_parses [OF u(1), unfolded u(2) p] show ?thesis by auto
qed

text \<open>C8: \<open>ReadTag\<close> returns and records the tag, or records 0 where the bytes do not begin with a
  varint. Where it is called at the closest limit or at the end of the stream,
  \<open>ConsumedEntireMessage\<close> then tells the end of the message from the total byte limit.\<close>

theorem ReadTag_records:
  assumes "reader_ok c"
  shows "\<exists>tag c'. CodedInputStream_ReadTag ArrayInput_vt c = Some (tag, c') \<and> reader_ok c' \<and>
    CodedInputStream_LastTagWas tag c' \<and>
    (case parse_varint (unread c) of None \<Rightarrow> tag = 0 | Some (n, rest) \<Rightarrow> tag = of_nat n \<and> unread c' = rest) \<and>
    (unread c = [] \<longrightarrow> CodedInputStream_ConsumedEntireMessage c' =
      (ci_position c < ci_total_bytes_limit c \<or> ci_current_limit c = ci_total_bytes_limit c))"
proof -
  obtain c' where c': "CodedInputStream_ReadTag ArrayInput_vt c =
      Some (case varint_split 10 (unread c) of None \<Rightarrow> 0 | Some (v, r) \<Rightarrow> of_nat (varint_nat v), c')"
    and v: "ai.varint_read c (c'\<lparr>ci_last_tag := ci_last_tag c\<rparr>)"
    and t: "ci_last_tag c' =
      (case varint_split 10 (unread c) of None \<Rightarrow> 0 | Some (v, r) \<Rightarrow> of_nat (varint_nat v))"
    and e: "unread c = [] \<Longrightarrow> ci_legitimate_message_end c' =
      (ci_position c < ci_total_bytes_limit c \<or> ci_current_limit c = ci_total_bytes_limit c)"
    by (rule ai.read_tag [OF assms]) blast
  show ?thesis
    using c' t e varint_readD [OF v]
    by (cases "varint_split 10 (unread c)")
       (auto simp: parse_varint_def CodedInputStream_LastTagWas_def CodedInputStream_ConsumedEntireMessage_def)
qed

theorem ReadTag_records_witness:
  "\<exists>c'. CodedInputStream_ReadTag ArrayInput_vt (array_reader [] 0) = Some (0, c') \<and>
    CodedInputStream_ConsumedEntireMessage c'"
proof -
  have "parse_varint [] = None" by (simp add: parse_varint_eval)
  moreover have "ci_position (array_reader [] 0) < ci_total_bytes_limit (array_reader [] 0)"
    by (simp add: array_reader_def CodedInputStream_def ci_position_def kDefaultTotalBytesLimit_def)
  ultimately show ?thesis
    using ReadTag_records [of "array_reader [] 0"] by (simp add: array_reader_facts) blast
qed

text \<open>C9: \<open>ExpectTag\<close> is an optimisation of \<open>ReadTag\<close>: where it answers true, \<open>ReadTag\<close> would have
  returned that very tag and left the reader at the same place; where it answers false it has not
  moved.\<close>

theorem ExpectTag_is_ReadTag:
  assumes "reader_ok c" and "CodedInputStream_ExpectTag expected c = (r, c1)"
  shows "if r then reader_ok c1 \<and> (\<exists>c2. CodedInputStream_ReadTag ArrayInput_vt c = Some (expected, c2) \<and>
      unread c2 = unread c1) else c1 = c"
proof (cases r)
  case True
  with ai.expect_tag(2) [OF assms] have c1: "reader_ok c1"
    and u: "unread c = varint_bytes (unat expected) @ unread c1" by auto
  have "length (varint_bytes (unat expected)) \<le> 10" using so.varint32_length [of expected] by linarith
  with u have s: "varint_split 10 (unread c) = Some (varint_bytes (unat expected), unread c1)"
    by (simp add: varint_split_bytes)
  obtain c2 where "CodedInputStream_ReadTag ArrayInput_vt c =
      Some (case varint_split 10 (unread c) of None \<Rightarrow> 0 | Some (v, r) \<Rightarrow> of_nat (varint_nat v), c2)"
    and "ai.varint_read c (c2\<lparr>ci_last_tag := ci_last_tag c\<rparr>)"
    by (rule ai.read_tag [OF assms(1)]) blast
  then show ?thesis using True s c1 varint_readD(2) [OF _ s, of "c2\<lparr>ci_last_tag := ci_last_tag c\<rparr>"] by simp
next
  case False
  then show ?thesis using ai.expect_tag(1) [OF assms] by simp
qed

theorem ExpectTag_is_ReadTag_witness:
  "\<exists>c c1 c2. ci_Refresh ArrayInput_vt (array_reader [0x08, 0x01] 0) = Some (True, c) \<and>
    CodedInputStream_ExpectTag 8 c = (True, c1) \<and> CodedInputStream_ReadTag ArrayInput_vt c = Some (8, c2) \<and>
    unread c2 = unread c1"
proof -
  have "reader_ok (array_reader [0x08, 0x01] 0)" by (simp add: array_reader_facts)
  then obtain r c where c: "ci_Refresh ArrayInput_vt (array_reader [0x08, 0x01] 0) = Some (r, c)" "reader_ok c"
    by (rule ai.refresh)
  obtain e c1 where e: "CodedInputStream_ExpectTag 8 c = (e, c1)" by fastforce
  have "(case ci_Refresh ArrayInput_vt (array_reader [0x08, 0x01] 0) of Some (r, c) \<Rightarrow>
      r \<and> fst (CodedInputStream_ExpectTag 8 c))" by code_simp
  with c e have "r" "e" by auto
  with ExpectTag_is_ReadTag [OF c(2) e] c e show ?thesis by auto
qed

lemma move_end:
  "ci_moves avail (min k (length (ci_unread avail c))) c c' \<Longrightarrow>
    ci_unread avail c' = drop k (ci_unread avail c)"
  by (cases "k \<le> length (ci_unread avail c)") (auto simp: ci_moves_unread)

text \<open>C10: A limit confines a read and goes away: after \<open>PushLimit(n)\<close>, \<open>ReadString(m)\<close> delivers
  what lies before the limit and succeeds only if all \<open>m\<close> bytes do; \<open>PopLimit\<close> with the value
  \<open>PushLimit\<close> returned then gives back the reader of before, advanced by exactly the bytes read.\<close>

theorem limits_nest:
  assumes c: "reader_ok c" and n: "0 \<le> n" "is_int32 n" and m: "0 \<le> m"
    and push: "CodedInputStream_PushLimit n c = (old, c1)"
  shows "\<exists>c2. CodedInputStream_ReadString ArrayInput_vt buffer m c1 =
      Some ((m \<le> min n (int (length (unread c))), take (nat (min m n)) (unread c)), c2) \<and>
    reader_ok (CodedInputStream_PopLimit old c2) \<and>
    unread (CodedInputStream_PopLimit old c2) = drop (nat (min m n)) (unread c) \<and>
    ci_current_limit (CodedInputStream_PopLimit old c2) = ci_current_limit c"
proof -
  note p = ci_PushLimit [OF c n push]
  have u: "unread c1 = take (nat n) (unread c)" by (rule p(3))
  obtain c2 where r: "CodedInputStream_ReadString ArrayInput_vt buffer m c1 =
      Some ((m \<le> int (length (unread c1)), take (nat m) (unread c1)), c2)"
    and c2: "reader_ok c2"
    and mv: "ci_moves array_input_avail (min (nat m) (length (unread c1))) c1 c2"
    by (rule ai.read_string [OF p(2) m])
  let ?k = "min (nat m) (length (unread c1))"
  have k: "int ?k \<le> n" using n by (simp add: u)
  note pp = ci_Push_Pop [OF c n push c2 mv k]
  have "drop ?k (unread c) = drop (nat (min m n)) (unread c)"
    using m n by (auto simp: u min_def)
  moreover have "ci_current_limit (CodedInputStream_PopLimit old c2) = ci_current_limit c"
    using p(1) by (simp add: CodedInputStream_PopLimit_def CodedInputStream_RecomputeBufferLimits_def Let_def)
  moreover have "(m \<le> int (length (unread c1))) = (m \<le> min n (int (length (unread c))))"
    using m n by (auto simp: u min_def)
  moreover have "take (nat m) (unread c1) = take (nat (min m n)) (unread c)"
    using m n by (auto simp: u min_def)
  ultimately show ?thesis using r pp by simp
qed

theorem limits_nest_witness:
  "\<exists>old c1 c2. CodedInputStream_PushLimit 2 (array_reader [1, 2, 3, 4] 3) = (old, c1) \<and>
    CodedInputStream_ReadString ArrayInput_vt [] 3 c1 = Some ((False, [1, 2]), c2) \<and>
    unread (CodedInputStream_PopLimit old c2) = [3, 4]"
proof -
  obtain old c1 where p: "CodedInputStream_PushLimit 2 (array_reader [1, 2, 3, 4] 3) = (old, c1)"
    by fastforce
  have u: "reader_ok (array_reader [1, 2, 3, 4] 3)" "unread (array_reader [1, 2, 3, 4] 3) = [1, 2, 3, 4]"
    by (simp_all add: array_reader_facts)
  have "\<exists>c2. CodedInputStream_ReadString ArrayInput_vt [] 3 c1 = Some ((False, [1, 2]), c2) \<and>
      unread (CodedInputStream_PopLimit old c2) = [3, 4]"
    using limits_nest [OF u(1) _ _ _ p, of 3 "[]"] u(2) by (auto simp: int_bounds)
  with p show ?thesis by blast
qed

text \<open>C11: Over an \<open>ArrayInputStream\<close>, \<open>Skip(n)\<close> is \<open>ReadString(n)\<close> without the string: both
  succeed for the same \<open>n\<close> and leave the same bytes to be read, although \<open>Skip\<close> passes the bytes
  it has not buffered on to the array stream. (Not so over every stream: the \<open>Skip\<close> of an
  \<open>IstreamInputStream\<close> can overshoot and fail where a read succeeds.)\<close>

theorem Skip_is_ReadString:
  assumes c: "reader_ok c" and n: "0 \<le> n" "n \<le> INT_MAX"
  shows "\<exists>r c1 c2. CodedInputStream_Skip ArrayInput_vt n c = Some (r, c1) \<and>
    CodedInputStream_ReadString ArrayInput_vt buffer n c = Some ((r, take (nat n) (unread c)), c2) \<and>
    reader_ok c1 \<and> reader_ok c2 \<and> unread c1 = drop (nat n) (unread c) \<and> unread c2 = unread c1 \<and>
    r = (n \<le> int (length (unread c)))"
proof -
  obtain c1 where s: "CodedInputStream_Skip ArrayInput_vt n c = Some (n \<le> int (length (unread c)), c1)"
    "reader_ok c1" "unread c1 = drop (nat n) (unread c)" by (rule ai.coded_skip [OF c n])
  obtain c2 where "CodedInputStream_ReadString ArrayInput_vt buffer n c =
      Some ((n \<le> int (length (unread c)), take (nat n) (unread c)), c2)" "reader_ok c2"
    "ci_moves array_input_avail (min (nat n) (length (unread c))) c c2"
    by (rule ai.read_string [OF c n(1)])
  with s show ?thesis by (auto dest: move_end)
qed

theorem Skip_is_ReadString_witness:
  "\<exists>c1. CodedInputStream_Skip ArrayInput_vt 5 (array_reader [1, 2, 3] 2) = Some (False, c1) \<and> unread c1 = []"
proof -
  have u: "reader_ok (array_reader [1, 2, 3] 2)" "unread (array_reader [1, 2, 3] 2) = [1, 2, 3]"
    by (simp_all add: array_reader_facts)
  show ?thesis using Skip_is_ReadString [OF u(1), of 5 "[]"] u(2) by (auto simp: int_bounds)
qed

end
