(* ===== verification/WireProperties.thy ===== *)
theory WireProperties
  imports WireSkip CodedProperties
begin

text \<open>
  Writers into a string and the unknown fields of \<open>wire_format.cc\<close>: what is written to a
  \<open>StringOutputStream\<close> and read back from an \<open>ArrayInputStream\<close>.
\<close>

section \<open>Writers into a string\<close>

lemma string_next_never_false: "out_next StringOutput_vt s \<noteq> Some (None, s')"
  using string_next_buffer [of s None s'] by (auto simp: StringOutput_vt_def StringOutputStream_Next_def Let_def)

definition string_writer :: "bytes \<Rightarrow> int \<Rightarrow> string_output coded_output" where
  "string_writer target cap = CodedOutputStream (StringOutputStream target cap)"

lemma string_write:
  assumes w: "so.emits w d" "never_false w"
    and t: "int (length target) \<le> cap" "cap \<le> INT_MAX" "int (length target) + int (length d) \<le> INT_MAX div 2"
  obtains out t where "w (string_writer target cap) = Some (True, out)"
    "CodedOutputStream_destroy StringOutput_vt out = Some t" "so_target t = target @ d"
    "CodedOutputStream_ByteCount out = int (length d)"
proof -
  let ?c = "string_writer target cap" and ?b = "out_byte_count StringOutput_vt (StringOutputStream target cap)"
  have "string_output_ok (StringOutputStream target cap)" by (rule string_output_ok_init [OF t(1,2)])
  then have c: "co_ok StringOutput_vt string_output_ok string_output_lent ?b ?c"
    unfolding string_writer_def by (rule so.co_init)
  have f: "so.co_fits ?c (length d)"
    using t(3) unfolding so.co_fits_def
    by (simp add: string_writer_def CodedOutputStream_def StringOutput_vt_def
        StringOutputStream_ByteCount_def StringOutputStream_def)
  obtain r out where r: "w ?c = Some (r, out)"
    "r \<Longrightarrow> co_wrote StringOutput_vt string_output_ok so_target string_output_lent ?b d ?c out"
    using w(1) c f unfolding so.emits_def so.writes_def by blast
  have "r" using w(2) r(1) by (cases r) (auto simp: never_false_def)
  from r(2) [OF this] have o: "co_ok StringOutput_vt string_output_ok string_output_lent ?b out"
    "co_written so_target out = co_written so_target ?c @ d"
    "CodedOutputStream_ByteCount out = CodedOutputStream_ByteCount ?c + int (length d)"
    by (simp_all add: co_wrote_def)
  obtain t where "CodedOutputStream_destroy StringOutput_vt out = Some t" "so_target t = co_written so_target out"
    by (rule so.co_destroy_written [OF o(1)])
  moreover have "co_written so_target ?c = target" "CodedOutputStream_ByteCount ?c = 0"
    by (simp_all add: co_written_def string_writer_def CodedOutputStream_def StringOutputStream_def
        CodedOutputStream_ByteCount_def)
  ultimately show thesis using r(1) \<open>r\<close> o that by simp
qed

lemma string_write_varints:
  shows "never_false (CodedOutputStream_WriteVarint32 StringOutput_vt v)"
    and "never_false (CodedOutputStream_WriteVarint64 StringOutput_vt x)"
    and "never_false (CodedOutputStream_WriteLittleEndian32 StringOutput_vt v)"
    and "never_false (CodedOutputStream_WriteLittleEndian64 StringOutput_vt x)"
    and "never_false (CodedOutputStream_WriteString StringOutput_vt d)"
    and "never_false (CodedOutputStream_WriteTag StringOutput_vt v)"
    and "never_false (SerializeUnknownFields StringOutput_vt s)"
  by (intro writers_never_false serialize_never_false string_next_never_false)+

text \<open>C12: What \<open>WriteVarint64\<close> stores, through its unrolled writer or composed in a local array, is
  read back by \<open>ReadVarint64\<close>, and takes the \<open>VarintSize64\<close> bytes announced.\<close>

theorem varint64_round_trip:
  assumes "int (length target) \<le> cap" "cap \<le> INT_MAX" "int (length target) \<le> 2 ^ 24"
  shows "\<exists>out t c. CodedOutputStream_WriteVarint64 StringOutput_vt v (string_writer target cap) = Some (True, out) \<and>
    CodedOutputStream_destroy StringOutput_vt out = Some t \<and> take (length target) (so_target t) = target \<and>
    int (length (so_target t)) = int (length target) + CodedOutputStream_VarintSize64 v \<and>
    CodedInputStream_ReadVarint64 ArrayInput_vt (array_reader (drop (length target) (so_target t)) block_size) =
      Some (Some v, c) \<and> unread c = []"
proof -
  have l: "length (varint_bytes (unat v)) \<le> 10" by (rule so.varint64_length)
  have b: "int (length target) + int (length (varint_bytes (unat v))) \<le> INT_MAX div 2"
    using assms(3) l by (simp add: INT_MAX_def)
  obtain out t where o: "CodedOutputStream_WriteVarint64 StringOutput_vt v (string_writer target cap) = Some (True, out)"
    "CodedOutputStream_destroy StringOutput_vt out = Some t" "so_target t = target @ varint_bytes (unat v)"
    by (rule string_write [OF so.emits_writers(2) string_write_varints(2) assms(1,2) b])
  have u: "reader_ok (array_reader (varint_bytes (unat v)) block_size)"
    "unread (array_reader (varint_bytes (unat v)) block_size) = varint_bytes (unat v) @ []"
    using l by (simp_all add: array_reader_start kDefaultTotalBytesLimit_def)
  from ai.reads_back(1) [OF u] o show ?thesis
    by (auto simp: ai.at_rest_def VarintSize64_length)
qed

theorem varint64_round_trip_witness:
  "\<exists>out t. CodedOutputStream_WriteVarint64 StringOutput_vt 300 (string_writer [1] 1) = Some (True, out) \<and>
    CodedOutputStream_destroy StringOutput_vt out = Some t \<and> length (so_target t) = 3"
proof -
  have "CodedOutputStream_VarintSize64 300 = 2" by (simp add: CodedOutputStream_VarintSize64_def)
  then show ?thesis using varint64_round_trip [of "[1]" 1 300 0] by (auto simp: INT_MAX_def)
qed

section \<open>The items of a set hold its values\<close>

text \<open>No field of the set is there without a value.\<close>

function uf_full :: "unknown_field \<Rightarrow> bool" and ufs_full :: "unknown_field_set \<Rightarrow> bool" where
  "uf_full f \<longleftrightarrow> uf_items f \<noteq> [] \<and> (\<forall>g \<in> set (uf_group f). ufs_full g)"
| "ufs_full s \<longleftrightarrow> (\<forall>f \<in> set (ufs_field_list s). uf_full f)"
  by pat_completeness auto
termination
  by (relation "measure (\<lambda>x. case x of Inl f \<Rightarrow> size f | Inr s \<Rightarrow> size s)")
    (auto dest: size_uf_group size_ufs_field_list)

declare uf_full.simps [simp del] ufs_full.simps [simp del]

fun item_update :: "wire_item \<Rightarrow> unknown_value \<Rightarrow> unknown_value" where
  "item_update (WVarint n v) = uv_add_varint v"
| "item_update (WFixed32 n v) = uv_add_fixed32 v"
| "item_update (WFixed64 n v) = uv_add_fixed64 v"
| "item_update (WBytes n d) = uv_add_bytes d"
| "item_update (WGroup n items) = uv_add_group (fold add_item items [])"

lemma add_item_update: "add_item i = uv_update (item_number i) (item_update i)"
  by (cases i) simp_all

lemma item_update_number [simp]: "uv_number (item_update i v) = uv_number v"
  by (cases i; cases v) simp_all

lemma fold_update_present:
  "n \<notin> uv_number ` set vs \<Longrightarrow> uv_number v = n \<Longrightarrow> \<forall>i \<in> set items. item_number i = n \<Longrightarrow>
    fold add_item items (vs @ [v]) = vs @ [fold item_update items v]"
proof (induction items arbitrary: v)
  case (Cons i items)
  have "map (\<lambda>v. if uv_number v = n then item_update i v else v) vs = vs"
    using Cons.prems(1) by (intro map_idI) auto
  then have "add_item i (vs @ [v]) = vs @ [item_update i v]"
    using Cons.prems by (simp add: add_item_update uv_update_def)
  with Cons show ?case by simp
qed simp

lemma fold_update_new:
  assumes "n \<notin> uv_number ` set vs" "\<forall>i \<in> set items. item_number i = n" "items \<noteq> []"
  shows "fold add_item items vs = vs @ [fold item_update items (UnknownValue n [] [] [] [] [])]"
proof -
  obtain i is' where i: "items = i # is'" using assms(3) by (cases items) auto
  with assms have "add_item i vs = vs @ [item_update i (UnknownValue n [] [] [] [] [])]"
    by (simp add: add_item_update uv_update_def)
  then show ?thesis using assms i by (simp add: fold_update_present)
qed

lemma fold_adds:
  "fold item_update (map (WVarint n) xs) (UnknownValue m v a b d g) = UnknownValue m (v @ xs) a b d g"
  "fold item_update (map (WFixed32 n) ys) (UnknownValue m v a b d g) = UnknownValue m v (a @ ys) b d g"
  "fold item_update (map (WFixed64 n) xs) (UnknownValue m v a b d g) = UnknownValue m v a (b @ xs) d g"
  "fold item_update (map (WBytes n) ds) (UnknownValue m v a b d g) = UnknownValue m v a b (d @ ds) g"
  "fold item_update (map (\<lambda>h. WGroup n (f h)) hs) (UnknownValue m v a b d g) =
    UnknownValue m v a b d (g @ map (\<lambda>h. fold add_item (f h) []) hs)"
proof -
  show "fold item_update (map (WVarint n) xs) (UnknownValue m v a b d g) = UnknownValue m (v @ xs) a b d g"
    by (induction xs arbitrary: v) simp_all
  show "fold item_update (map (WFixed32 n) ys) (UnknownValue m v a b d g) = UnknownValue m v (a @ ys) b d g"
    by (induction ys arbitrary: a) simp_all
  show "fold item_update (map (WFixed64 n) xs) (UnknownValue m v a b d g) = UnknownValue m v a (b @ xs) d g"
    by (induction xs arbitrary: b) simp_all
  show "fold item_update (map (WBytes n) ds) (UnknownValue m v a b d g) = UnknownValue m v a b (d @ ds) g"
    by (induction ds arbitrary: d) simp_all
  show "fold item_update (map (\<lambda>h. WGroup n (f h)) hs) (UnknownValue m v a b d g) =
      UnknownValue m v a b d (g @ map (\<lambda>h. fold add_item (f h) []) hs)"
    by (induction hs arbitrary: g) simp_all
qed

lemma items_value:
  "uf_ok f \<Longrightarrow> uf_full f \<Longrightarrow> uf_number f \<notin> uv_number ` set vs \<Longrightarrow>
    fold add_item (uf_items f) vs = vs @ [uf_value f]"
  "ufs_ok s \<Longrightarrow> ufs_full s \<Longrightarrow> fold add_item (ufs_items s) [] = ufs_value s"
proof (induction f and s arbitrary: vs rule: ComputeUnknownFieldSize_ComputeUnknownFieldsSize.induct)
  case (1 f)
  have "map (\<lambda>g. fold add_item (ufs_items g) []) (uf_group f) = map ufs_value (uf_group f)"
    using 1 by (simp add: uf_full.simps [of f] uf_ok.simps [of f])
  then have "fold item_update (uf_items f) (UnknownValue (uf_number f) [] [] [] [] []) = uf_value f"
    by (simp add: uf_items.simps uf_value.simps fold_adds)
  moreover have "\<forall>i \<in> set (uf_items f). item_number i = uf_number f" by (auto simp: uf_items.simps)
  ultimately show ?case
    using fold_update_new [OF "1.prems"(3)] "1.prems"(2) by (simp add: uf_full.simps [of f])
next
  case (2 s)
  have fields: "\<And>f vs. f \<in> set (ufs_field_list s) \<Longrightarrow> uf_number f \<notin> uv_number ` set vs \<Longrightarrow>
      fold add_item (uf_items f) vs = vs @ [uf_value f]"
    using "2.IH" ufs_field_list_numbers(2) [OF "2.prems"(1)] "2.prems"(2) by (simp add: ufs_full.simps [of s])
  have "set fs \<subseteq> set (ufs_field_list s) \<Longrightarrow> distinct (map uf_number fs) \<Longrightarrow>
      uf_number ` set fs \<inter> uv_number ` set vs = {} \<Longrightarrow>
      fold add_item (concat (map uf_items fs)) vs = vs @ map uf_value fs" for fs vs
  proof (induction fs arbitrary: vs)
    case (Cons f fs)
    then have "fold add_item (uf_items f) vs = vs @ [uf_value f]" using fields by simp
    moreover have "uf_number ` set fs \<inter> uv_number ` set (vs @ [uf_value f]) = {}" using Cons.prems by auto
    ultimately show ?case using Cons by simp
  qed simp
  from this [of "ufs_field_list s" "[]"] ufs_field_list_numbers(1) [OF "2.prems"(1)]
  show ?case by (simp add: ufs_items.simps ufs_value.simps)
qed

section \<open>Unknown fields\<close>

lemma serialize_to_string:
  assumes "ComputeUnknownFieldsSize s \<le> INT_MAX div 2"
  obtains out t where "SerializeUnknownFields StringOutput_vt s (string_writer [] 0) = Some (True, out)"
    "CodedOutputStream_destroy StringOutput_vt out = Some t" "so_target t = items_bytes (ufs_items s)"
    "CodedOutputStream_ByteCount out = ComputeUnknownFieldsSize s"
  by (rule string_write [OF so.serialize_emits(2) string_write_varints(7), of "[]" 0 s])
    (use assms computed_size(2) [of s] in \<open>simp_all add: INT_MAX_def\<close>)

text \<open>C13: Serializing a set of unknown fields and skipping over the result into an empty set gives
  back the set: the same fields in the same order with the same values of every wire type, groups
  included. The set must not hold a field without values (nothing is written for it), its numbers must
  be field numbers, its strings no longer than an \<open>int\<close>, its groups nested no deeper than the
  reader's recursion limit, and its size below the reader's total byte limit.\<close>

theorem unknown_fields_round_trip:
  assumes s: "ufs_ok s" "ufs_full s" and items: "\<forall>i \<in> set (ufs_items s). item_ok 64 i"
    and small: "ComputeUnknownFieldsSize s \<le> kDefaultTotalBytesLimit"
  shows "\<exists>out t s' c. SerializeUnknownFields StringOutput_vt s (string_writer [] 0) = Some (True, out) \<and>
    CodedOutputStream_destroy StringOutput_vt out = Some t \<and>
    SkipMessage ArrayInput_vt (array_reader (so_target t) block_size) (Some NoInternal) =
      Some ((True, Some s'), c) \<and> ufs_ok s' \<and> ufs_value s' = ufs_value s \<and> unread c = []"
proof -
  have half: "ComputeUnknownFieldsSize s \<le> INT_MAX div 2"
    using small by (simp add: kDefaultTotalBytesLimit_def INT_MAX_def)
  obtain out t where o: "SerializeUnknownFields StringOutput_vt s (string_writer [] 0) = Some (True, out)"
    "CodedOutputStream_destroy StringOutput_vt out = Some t" "so_target t = items_bytes (ufs_items s)"
    by (rule serialize_to_string [OF half])
  let ?c = "array_reader (so_target t) block_size"
  have c: "reader_ok ?c" "unread ?c = items_bytes (ufs_items s) @ []"
    using small computed_size(2) [of s] by (simp_all add: o(3) array_reader_start)
  have d: "0 \<le> ci_recursion_depth ?c" "ci_recursion_depth ?c + int 64 \<le> ci_recursion_limit ?c"
    by (simp_all add: array_reader_def CodedInputStream_def kDefaultRecursionLimit_def)
  obtain c1 s1 where 1: "SkipMessage ArrayInput_vt ?c (Some NoInternal) = SkipMessage ArrayInput_vt c1 (Some s1)"
    "ai.at_rest [] ?c c1" "ufs_ok s1" "ufs_value s1 = fold add_item (ufs_items s) (ufs_value NoInternal)"
    using ai.skip_items [OF c _ _ d items, of NoInternal] by auto
  then have "reader_ok c1" "unread c1 = []" by (simp_all add: ai.at_rest_def)
  then obtain c2 where "SkipMessage ArrayInput_vt c1 (Some s1) = Some ((True, Some s1), c2)" "unread c2 = []"
    by (rule ai.message_end) blast
  moreover have "ufs_value s1 = ufs_value s"
    using 1(4) items_value(2) [OF s] by (simp add: ufs_value.simps [of NoInternal])
  ultimately show ?thesis using o(1,2) 1(1,3) by auto
qed

definition sample_set :: unknown_field_set where
  "sample_set = Internal [(2, UnknownField 2 0 [300] [] [] [[1, 2]] [] [])] [2]"

lemma sample_items: "ufs_items sample_set = [WVarint 2 300, WBytes 2 [1, 2]]"
  by (simp add: sample_set_def ufs_items.simps uf_items.simps map_filter_def)

lemma sample_ok: "ufs_ok sample_set" "ufs_full sample_set" "ComputeUnknownFieldsSize sample_set = 7"
proof -
  show "ufs_ok sample_set" by (simp add: sample_set_def ufs_shape_def uf_ok.simps)
  show "ufs_full sample_set"
    unfolding sample_set_def ufs_full.simps [of "Internal fs act" for fs act]
    by (simp add: map_filter_def uf_items.simps uf_full.simps [of "UnknownField a b c d e f g h" for a b c d e f g h])
  show "ComputeUnknownFieldsSize sample_set = 7"
    by (simp add: computed_size sample_items tag_bytes_def) code_simp
qed

theorem unknown_fields_round_trip_witness:
  "\<exists>out t s' c. SerializeUnknownFields StringOutput_vt sample_set (string_writer [] 0) = Some (True, out) \<and>
    CodedOutputStream_destroy StringOutput_vt out = Some t \<and>
    SkipMessage ArrayInput_vt (array_reader (so_target t) 3) (Some NoInternal) = Some ((True, Some s'), c) \<and>
    ufs_value s' = [UnknownValue 2 [300] [] [] [[1, 2]] []]"
proof -
  have v: "ufs_value sample_set = [UnknownValue 2 [300] [] [] [[1, 2]] []]"
    by (simp add: sample_set_def ufs_value.simps uf_value.simps map_filter_def)
  have "\<forall>i \<in> set (ufs_items sample_set). item_ok 64 i"
    by (simp add: sample_items valid_number_def INT_MAX_def)
  moreover have "ComputeUnknownFieldsSize sample_set \<le> kDefaultTotalBytesLimit"
    by (simp add: sample_ok(3) kDefaultTotalBytesLimit_def)
  ultimately show ?thesis
    using unknown_fields_round_trip [OF sample_ok(1,2), of 3] unfolding v by blast
qed

text \<open>C14: \<open>ComputeUnknownFieldsSize\<close> is the number of bytes \<open>SerializeUnknownFields\<close> writes,
  whatever the set holds, and the write never fails.\<close>

theorem serialized_size:
  assumes "ComputeUnknownFieldsSize s \<le> INT_MAX div 2"
  shows "\<exists>out t. SerializeUnknownFields StringOutput_vt s (string_writer [] 0) = Some (True, out) \<and>
    CodedOutputStream_destroy StringOutput_vt out = Some t \<and>
    int (length (so_target t)) = ComputeUnknownFieldsSize s \<and>
    CodedOutputStream_ByteCount out = ComputeUnknownFieldsSize s"
  by (rule serialize_to_string [OF assms]) (use computed_size(2) [of s] in auto)

theorem serialized_size_witness:
  "\<exists>out t. SerializeUnknownFields StringOutput_vt sample_set (string_writer [] 0) = Some (True, out) \<and>
    CodedOutputStream_destroy StringOutput_vt out = Some t \<and> length (so_target t) = 7"
  using serialized_size [of sample_set] sample_ok(3) by (auto simp: INT_MAX_def)

text \<open>C15: \<open>SkipMessage\<close> terminates on every input, well formed or not, with or without a set to
  keep the fields in: it returns, and leaves a usable reader that is no further back.\<close>

theorem SkipMessage_returns:
  assumes "reader_ok c"
  shows "\<exists>r u' c'. SkipMessage ArrayInput_vt c u = Some ((r, u'), c') \<and> reader_ok c' \<and>
    length (unread c') \<le> length (unread c)"
  using ai.skip_message_returns [OF assms, of u] by (auto simp: ai.skipped_def ai.onward_def)

theorem SkipMessage_returns_witness:
  "\<exists>r c'. SkipMessage ArrayInput_vt (array_reader [0x0B, 0x13, 0xFF] 2) None = Some (r, c') \<and> reader_ok c'"
  using SkipMessage_returns [of "array_reader [0x0B, 0x13, 0xFF] 2" None] by (auto simp: array_reader_facts)

text \<open>C16: \<open>SkipMessage\<close> implements the grammar: over the bytes of any well-formed sequence of
  items, whoever wrote them and in whatever order of field numbers, it succeeds and the set it is given
  then holds what it held before with the items added one after the other. The groups of the items are
  nested no deeper than what is left of the reader's recursion limit. The set is well-formed and the
  field objects it keeps for reuse hold nothing (\<open>ufs_clean\<close>), as in a set that was never cleared; in
  one that was, a field that is added again can also bring back old fixed32 and fixed64 values, which
  \<open>Clear\<close> fails to remove. The set that results has both properties again. The reader is over an
  array.\<close>

theorem SkipMessage_adds_items:
  assumes c: "reader_ok c" "unread c = items_bytes items" and items: "\<forall>i \<in> set items. item_ok k i"
    and depth: "0 \<le> ci_recursion_depth c" "ci_recursion_depth c + int k \<le> ci_recursion_limit c"
    and s: "ufs_ok s" "ufs_clean s"
  shows "\<exists>s' c'. SkipMessage ArrayInput_vt c (Some s) = Some ((True, Some s'), c') \<and> reader_ok c' \<and>
    unread c' = [] \<and> ufs_ok s' \<and> ufs_clean s' \<and> ufs_value s' = fold add_item items (ufs_value s)"
proof -
  have u: "unread c = items_bytes items @ []" using c(2) by simp
  obtain c1 s1 where 1: "SkipMessage ArrayInput_vt c (Some s) = SkipMessage ArrayInput_vt c1 (Some s1)"
    "ai.at_rest [] c c1" "ufs_ok s1" "ufs_clean s1" "ufs_value s1 = fold add_item items (ufs_value s)"
    using ai.skip_items [OF c(1) u s depth items] by auto
  then have "reader_ok c1" "unread c1 = []" by (simp_all add: ai.at_rest_def)
  then obtain c2 where "SkipMessage ArrayInput_vt c1 (Some s1) = Some ((True, Some s1), c2)" "reader_ok c2" "unread c2 = []"
    by (rule ai.message_end)
  with 1 show ?thesis by auto
qed

theorem SkipMessage_adds_items_witness:
  "\<exists>s' c'. SkipMessage ArrayInput_vt (array_reader [0x13, 0x08, 0x05, 0x14, 0x10, 0x07] 4) (Some NoInternal) =
      Some ((True, Some s'), c') \<and>
    ufs_value s' = [UnknownValue 2 [7] [] [] [] [[UnknownValue 1 [5] [] [] [] []]]]"
proof -
  let ?items = "[WGroup 2 [WVarint 1 5], WVarint 2 7]"
  have b: "items_bytes ?items = [0x13, 0x08, 0x05, 0x14, 0x10, 0x07]"
    by (simp add: tag_bytes_def) code_simp
  have v: "fold add_item ?items (ufs_value NoInternal) =
      [UnknownValue 2 [7] [] [] [] [[UnknownValue 1 [5] [] [] [] []]]]"
    by (simp add: ufs_value.simps [of NoInternal] uv_update_def)
  have ok: "\<forall>i \<in> set ?items. item_ok (Suc 0) i" by (simp add: valid_number_def)
  have c: "reader_ok (array_reader [0x13, 0x08, 0x05, 0x14, 0x10, 0x07] 4)"
    "unread (array_reader [0x13, 0x08, 0x05, 0x14, 0x10, 0x07] 4) = items_bytes ?items"
    unfolding b by (simp_all add: array_reader_facts)
  have "0 \<le> ci_recursion_depth (array_reader [0x13, 0x08, 0x05, 0x14, 0x10, 0x07] 4)"
    "ci_recursion_depth (array_reader [0x13, 0x08, 0x05, 0x14, 0x10, 0x07] 4) + int (Suc 0) \<le>
      ci_recursion_limit (array_reader [0x13, 0x08, 0x05, 0x14, 0x10, 0x07] 4)"
    by (simp_all add: array_reader_def CodedInputStream_def kDefaultRecursionLimit_def)
  from SkipMessage_adds_items [OF c ok this, of NoInternal] show ?thesis unfolding v by auto
qed

text \<open>C17: A length-delimited field cut short by the end of the input is an error when its data
  is discarded but not when it is kept: \<open>SkipField\<close> ignores what \<open>ReadString\<close> returns, so with
  a set to fill it reports success and adds the bytes that were left.\<close>

theorem SkipField_truncated:
  assumes c: "reader_ok c" "unread c = varint_bytes (unat (len :: uint32)) @ d"
    and n: "valid_number n" and len: "int (length d) < sint len"
  shows "\<exists>c1 c2. SkipField ArrayInput_vt (MakeTag n WIRETYPE_LENGTH_DELIMITED) c None = Some ((False, None), c1) \<and>
    SkipField ArrayInput_vt (MakeTag n WIRETYPE_LENGTH_DELIMITED) c (Some s) = Some ((True, Some
      (ufs_modify n (UnknownField_add_length_delimited d) (UnknownFieldSet_AddField n s))), c2) \<and> unread c2 = []"
proof -
  note tags = valid_tag [OF n, of WIRETYPE_LENGTH_DELIMITED, simplified]
  obtain c1 where 1: "CodedInputStream_ReadVarint32 ArrayInput_vt c = Some (Some len, c1)" "ai.at_rest d c c1"
    using ai.reads_back(2) [OF c] by blast
  then have c1: "reader_ok c1" "unread c1 = d" by (simp_all add: ai.at_rest_def)
  have l: "0 \<le> sint len" using len by linarith
  have m: "sint len \<le> INT_MAX" using sint_lt [of len] by (simp add: INT_MAX_def)
  obtain c2 where 2: "CodedInputStream_Skip ArrayInput_vt (sint len) c1 = Some (False, c2)"
    using ai.coded_skip [OF c1(1) l m] len c1(2) by (metis not_le)
  obtain c3 where 3: "CodedInputStream_ReadString ArrayInput_vt [] (sint len) c1 = Some ((False, d), c3)"
    "unread c3 = []"
  proof -
    obtain c3 where r: "CodedInputStream_ReadString ArrayInput_vt [] (sint len) c1 =
        Some ((sint len \<le> int (length (unread c1)), take (nat (sint len)) (unread c1)), c3)"
      and mv: "ci_moves array_input_avail (min (nat (sint len)) (length (unread c1))) c1 c3"
      by (rule ai.read_string [OF c1(1) l])
    have "unread c3 = []" using len c1(2) by (simp add: move_end [OF mv])
    with that r len c1(2) show thesis by simp
  qed
  show ?thesis
    using 1 2 3 by (simp add: SkipField_def SkipField_with_def tags on_field_def)
qed

theorem SkipField_truncated_witness:
  "\<exists>c1 c2. SkipField ArrayInput_vt 0x12 (array_reader [0x05, 0x41] 0) None = Some ((False, None), c1) \<and>
    SkipField ArrayInput_vt 0x12 (array_reader [0x05, 0x41] 0) (Some NoInternal) = Some ((True, Some
      (ufs_modify 2 (UnknownField_add_length_delimited [0x41]) (UnknownFieldSet_AddField 2 NoInternal))), c2)"
proof -
  have t: "MakeTag 2 WIRETYPE_LENGTH_DELIMITED = 0x12" by code_simp
  have b: "varint_bytes (unat (5 :: uint32)) @ [0x41] = [0x05, 0x41]" by (simp add: varint_bytes.simps [of 5])
  have c: "reader_ok (array_reader [0x05, 0x41] 0)" "unread (array_reader [0x05, 0x41] 0) = varint_bytes (unat (5 :: uint32)) @ [0x41]"
    unfolding b by (simp_all add: array_reader_facts)
  show ?thesis
    using SkipField_truncated [OF c, of 2 NoInternal] unfolding t by (auto simp: valid_number_def)
qed

end
