(* ===== verification/ByteChars.thy ===== *)
theory ByteChars
  imports ProtoPrelude
begin

text \<open>
  Characters and C strings. The character of a \<open>std::string\<close> is a byte; a C++ character literal
  is written \<open>asc CHR ''a''\<close>. A \<open>const char*\<close> that the code reads up to its terminating
  \<open>NUL\<close> is the list of the bytes before it; \<open>c_str\<close> is what such a reader sees of a
  \<open>std::string\<close>. The type \<open>char\<close> is signed, as on the platforms the build files name, so
  that a byte of 128 and above compares below \<open>' '\<close>. Stores through a \<open>char*\<close> go
  through \<open>store_at\<close>, which has no value when a byte falls outside the buffer.
\<close>

definition asc :: "char \<Rightarrow> byte" where
  "asc c = of_char c"

lemma asc_Char [simp]:
  "asc (Char b0 b1 b2 b3 b4 b5 b6 b7) = horner_sum of_bool 2 [b0, b1, b2, b3, b4, b5, b6, b7]"
  by (simp add: asc_def)

abbreviation (input) cstring :: "string \<Rightarrow> bytes" where
  "cstring s \<equiv> List.map asc s"

definition c_str :: "bytes \<Rightarrow> bytes" where
  "c_str s = takeWhile (\<lambda>c. c \<noteq> 0) s"

lemma c_str_id: "0 \<notin> set s \<Longrightarrow> c_str s = s"
  by (auto simp: c_str_def takeWhile_eq_all_conv)

lemma c_str_no_nul [simp]: "0 \<notin> set (c_str s)"
  by (auto simp: c_str_def dest: set_takeWhileD)

section \<open>Character classes\<close>

text \<open>\<open>between lo hi c\<close> is the test \<open>lo <= c && c <= hi\<close> on two non-negative literals.\<close>

definition between :: "char \<Rightarrow> char \<Rightarrow> byte \<Rightarrow> bool" where
  "between lo hi c \<longleftrightarrow> asc lo \<le> c \<and> c \<le> asc hi"

definition ascii_isdigit :: "byte \<Rightarrow> bool" where
  "ascii_isdigit c \<longleftrightarrow> between CHR ''0'' CHR ''9'' c"

definition ascii_isalnum :: "byte \<Rightarrow> bool" where
  "ascii_isalnum c \<longleftrightarrow> between CHR ''a'' CHR ''z'' c \<or> between CHR ''A'' CHR ''Z'' c \<or>
    between CHR ''0'' CHR ''9'' c"

definition isxdigit :: "byte \<Rightarrow> bool" where
  "isxdigit c \<longleftrightarrow> between CHR ''0'' CHR ''9'' c \<or> between CHR ''a'' CHR ''f'' c \<or>
    between CHR ''A'' CHR ''F'' c"

definition isprint :: "byte \<Rightarrow> bool" where
  "isprint c \<longleftrightarrow> 0x20 \<le> c \<and> c \<le> 0x7E"

definition IS_OCTAL_DIGIT :: "byte \<Rightarrow> bool" where
  "IS_OCTAL_DIGIT c \<longleftrightarrow> between CHR ''0'' CHR ''7'' c"

named_theorems char_classes \<open>membership of a byte in a character class\<close>

lemmas [char_classes] = between_def ascii_isdigit_def ascii_isalnum_def isxdigit_def isprint_def
  IS_OCTAL_DIGIT_def

text \<open>A fact about all bytes is a fact about 256 numerals.\<close>

lemma all_bytes:
  assumes "\<And>n. n < 256 \<Longrightarrow> P (word_of_nat n)"
  shows "P (c :: byte)"
  using assms [of "unat c"] unsigned_less [of c] by simp

section \<open>Stores through a character pointer\<close>

definition store_at :: "bytes \<Rightarrow> int \<Rightarrow> bytes \<Rightarrow> bytes option" where
  "store_at mem p d =
    (if 0 \<le> p \<and> p + int (length d) \<le> int (length mem) then Some (overwrite mem p d) else None)"

lemma store_at_Some_iff:
  "store_at mem p d = Some mem' \<longleftrightarrow>
    0 \<le> p \<and> p + int (length d) \<le> int (length mem) \<and> mem' = overwrite mem p d"
  by (auto simp: store_at_def)

lemma store_at_length: "store_at mem p d = Some mem' \<Longrightarrow> length mem' = length mem"
  by (auto simp: store_at_Some_iff nat_le_iff intro!: length_overwrite)

lemma overwrite_append:
  assumes "0 \<le> p" "nat p + length a + length b \<le> length mem"
  shows "overwrite (overwrite mem p a) (p + int (length a)) b = overwrite mem p (a @ b)"
proof -
  have "nat (p + int (length a)) = nat p + length a" using assms by simp
  moreover have "length mem \<le> nat p \<Longrightarrow> a = []" using assms by (cases a) auto
  ultimately show ?thesis using assms
    by (auto simp: overwrite_def min_def add_ac)
qed

text \<open>Two stores, one right after the other, are one store of both.\<close>

lemma store_at_append:
  assumes "store_at mem p a = Some mem'" "q = p + int (length a)"
  shows "store_at mem' q b = store_at mem p (a @ b)"
proof -
  have "0 \<le> p" using assms(1) by (simp add: store_at_Some_iff)
  then show ?thesis
    using assms store_at_length [OF assms(1)] overwrite_append [of p a b mem]
    by (auto simp: store_at_def)
qed

text \<open>The C string that starts at an index of a buffer.\<close>

definition text_at :: "bytes \<Rightarrow> int \<Rightarrow> bytes" where
  "text_at mem p = c_str (drop (nat p) mem)"

lemma text_at_overwrite:
  assumes "0 \<le> p" "p + int (length t) < int (length mem)" "0 \<notin> set t"
  shows "text_at (overwrite mem p (t @ [0])) p = t"
proof -
  have "length (take (nat p) mem) = nat p" using assms by simp
  then have "drop (nat p) (overwrite mem p (t @ [0])) = (t @ [0]) @ drop (nat p + length (t @ [0])) mem"
    unfolding overwrite_def by simp
  then have "text_at (overwrite mem p (t @ [0])) p
      = takeWhile (\<lambda>c. c \<noteq> 0) (t @ 0 # drop (nat p + Suc (length t)) mem)"
    by (simp add: text_at_def c_str_def)
  also have "\<dots> = t" using assms(3) by (subst takeWhile_append2) auto
  finally show ?thesis .
qed

end
