(* ===== verification/EscapeText.thy ===== *)
theory EscapeText
  imports ByteChars Varint
begin

text \<open>
  C-style escaping and unescaping (\<open>stubs/strutil.cc\<close>): \<open>UnescapeCEscapeSequences\<close>,
  \<open>UnescapeCEscapeString\<close>, \<open>CEscapeInternal\<close>, \<open>CEscapeString\<close> and
  \<open>CEscape\<close>. The unescaper reads a C string and is a recursion on the bytes not yet read; its
  error messages are compiled out in the source. The escaper writes into a caller's buffer, so a
  store outside the buffer is a result of the model (\<open>None\<close>).
\<close>

unbundle bit_operations_syntax

section \<open>Unescaping\<close>

definition hex_digit_to_int :: "byte \<Rightarrow> uint32" where
  "hex_digit_to_int c =
    (let x = (ucast c :: uint32);
         x = (if x > ucast (asc CHR ''9'') then x + 9 else x)
     in x AND 0xf)"

text \<open>The \<open>while (isxdigit(p[1]))\<close> loop: the value so far, and what is left to read.\<close>

fun hex_run :: "uint32 \<Rightarrow> bytes \<Rightarrow> uint32 \<times> bytes" where
  "hex_run ch [] = (ch, [])"
| "hex_run ch (c # cs) =
    (if isxdigit c then hex_run (push_bit 4 ch + hex_digit_to_int c) cs else (ch, c # cs))"

text \<open>An optional further octal digit, done twice by the source.\<close>

definition octal_digit :: "byte \<times> bytes \<Rightarrow> byte \<times> bytes" where
  "octal_digit s = (case s of (ch, cs) \<Rightarrow>
    (case cs of
       [] \<Rightarrow> (ch, cs)
     | c # cs' \<Rightarrow> if IS_OCTAL_DIGIT c then (ch * 8 + c - asc CHR ''0'', cs') else (ch, cs)))"

text \<open>The one-letter escapes of the \<open>switch\<close>.\<close>

definition letter_escape :: "byte \<Rightarrow> byte option" where
  "letter_escape e =
    (if e = asc CHR ''a'' then Some 7
     else if e = asc CHR ''b'' then Some 8
     else if e = asc CHR ''f'' then Some 12
     else if e = asc CHR ''n'' then Some 10
     else if e = asc CHR ''r'' then Some 13
     else if e = asc CHR ''t'' then Some 9
     else if e = asc CHR ''v'' then Some 11
     else if e = asc CHR 0x5C then Some (asc CHR 0x5C)
     else if e = asc CHR ''?'' then Some (asc CHR ''?'')
     else if e = asc CHR 0x27 then Some (asc CHR 0x27)
     else if e = asc CHR 0x22 then Some (asc CHR 0x22)
     else None)"

text \<open>The hexadecimal escape: a byte only when a digit follows.\<close>

definition unescape_hex :: "bytes \<Rightarrow> bytes \<times> bytes" where
  "unescape_hex cs =
    (case cs of
       [] \<Rightarrow> ([], cs)
     | c # _ \<Rightarrow>
         if \<not> isxdigit c then ([], cs)
         else (case hex_run 0 cs of (ch, cs') \<Rightarrow> ([ucast ch], cs')))"

text \<open>The \<open>switch\<close> on the byte \<open>e\<close> after a backslash: what is written, and what is left.\<close>

definition unescape_one :: "byte \<Rightarrow> bytes \<Rightarrow> bytes \<times> bytes" where
  "unescape_one e cs =
    (case letter_escape e of
       Some c \<Rightarrow> ([c], cs)
     | None \<Rightarrow>
         if IS_OCTAL_DIGIT e then
           (case octal_digit (octal_digit (e - asc CHR ''0'', cs)) of (ch, cs') \<Rightarrow> ([ch], cs'))
         else if e = asc CHR ''x'' \<or> e = asc CHR ''X'' then unescape_hex cs
         else ([], cs))"

lemma length_hex_run: "length (snd (hex_run ch cs)) \<le> length cs"
  by (induction ch cs rule: hex_run.induct) auto

lemma length_octal_digit: "length (snd (octal_digit s)) \<le> length (snd s)"
  by (auto simp: octal_digit_def split: prod.splits list.splits)

lemma length_unescape_hex: "length (snd (unescape_hex cs)) \<le> length cs"
  using length_hex_run [of 0 cs] by (auto simp: unescape_hex_def split: list.split prod.split)

lemma length_unescape_one: "length (snd (unescape_one e cs)) \<le> length cs"
  using length_unescape_hex [of cs] length_octal_digit [of "(e - asc CHR ''0'', cs)"]
    length_octal_digit [of "octal_digit (e - asc CHR ''0'', cs)"]
  by (auto simp: unescape_one_def split: prod.split option.split)

function UnescapeCEscapeSequences :: "bytes \<Rightarrow> bytes" where
  "UnescapeCEscapeSequences [] = []"
| "UnescapeCEscapeSequences (c # cs) =
    (if c \<noteq> asc CHR 0x5C then c # UnescapeCEscapeSequences cs
     else (case cs of
             [] \<Rightarrow> []
           | e # cs' \<Rightarrow>
               fst (unescape_one e cs') @ UnescapeCEscapeSequences (snd (unescape_one e cs'))))"
  by pat_completeness auto

termination
  by (relation "measure length") (auto simp: less_Suc_eq_le intro: le_SucI length_unescape_one)

text \<open>The copy into a string: the unescaped bytes and their number.\<close>

definition UnescapeCEscapeString :: "bytes \<Rightarrow> bytes" where
  "UnescapeCEscapeString src = UnescapeCEscapeSequences (c_str src)"

definition UnescapeCEscapeString_to :: "bytes \<Rightarrow> int \<times> bytes" where
  "UnescapeCEscapeString_to src =
    (let unescaped = UnescapeCEscapeSequences (c_str src) in (int (length unescaped), unescaped))"

section \<open>Escaping\<close>

definition octal_escape :: "byte \<Rightarrow> bytes" where
  "octal_escape c =
    [asc CHR 0x5C, asc CHR ''0'' + drop_bit 6 c, asc CHR ''0'' + (drop_bit 3 c AND 7),
     asc CHR ''0'' + (c AND 7)]"

definition hex_digit :: "byte \<Rightarrow> byte" where
  "hex_digit x = (if x < 10 then asc CHR ''0'' + x else asc CHR ''a'' + (x - 10))"

definition hex_escape :: "byte \<Rightarrow> bytes" where
  "hex_escape c = [asc CHR 0x5C, asc CHR ''x'', hex_digit (drop_bit 4 c), hex_digit (c AND 15)]"

text \<open>
  The two-letter escapes of the \<open>switch\<close>, tried before the default case. The \<open>sprintf\<close> of
  the default case writes the four letters and a \<open>NUL\<close>.
\<close>

definition short_escape :: "byte \<Rightarrow> byte option" where
  "short_escape c =
    (if c = 10 then Some (asc CHR ''n'')
     else if c = 13 then Some (asc CHR ''r'')
     else if c = 9 then Some (asc CHR ''t'')
     else if c = asc CHR 0x22 then Some (asc CHR 0x22)
     else if c = asc CHR 0x27 then Some (asc CHR 0x27)
     else if c = asc CHR 0x5C then Some (asc CHR 0x5C)
     else None)"

fun CEscape_loop :: "bytes \<Rightarrow> int \<Rightarrow> bool \<Rightarrow> bytes \<Rightarrow> int \<Rightarrow> bool \<Rightarrow> (int \<times> bytes) option" where
  "CEscape_loop [] dest_len use_hex dest used last_hex_escape =
    (if dest_len - used < 1 then Some (-1, dest)
     else map_option (\<lambda>dest'. (used, dest')) (store_at dest used [0]))"
| "CEscape_loop (c # src) dest_len use_hex dest used last_hex_escape =
    (if dest_len - used < 2 then Some (-1, dest)
     else
       (case short_escape c of
          Some e \<Rightarrow>
            Option.bind (store_at dest used [asc CHR 0x5C, e])
              (\<lambda>dest'. CEscape_loop src dest_len use_hex dest' (used + 2) False)
        | None \<Rightarrow>
            if \<not> isprint c \<or> last_hex_escape \<and> isxdigit c then
              if dest_len - used < 4 then Some (-1, dest)
              else
                Option.bind (store_at dest used
                    ((if use_hex then hex_escape c else octal_escape c) @ [0]))
                  (\<lambda>dest'. CEscape_loop src dest_len use_hex dest' (used + 4) use_hex)
            else
              Option.bind (store_at dest used [c])
                (\<lambda>dest'. CEscape_loop src dest_len use_hex dest' (used + 1) False)))"

definition CEscapeInternal :: "bytes \<Rightarrow> bytes \<Rightarrow> int \<Rightarrow> bool \<Rightarrow> (int \<times> bytes) option" where
  "CEscapeInternal src dest dest_len use_hex = CEscape_loop src dest_len use_hex dest 0 False"

definition CEscapeString :: "bytes \<Rightarrow> bytes \<Rightarrow> int \<Rightarrow> (int \<times> bytes) option" where
  "CEscapeString src dest dest_len = CEscapeInternal src dest dest_len False"

text \<open>
  \<open>heap\<close> is what \<open>new char[n]\<close> returns: \<open>n\<close> bytes of any content. The size of the
  buffer and the length passed on are converted from \<open>size_t\<close> to \<open>int\<close>; an array of negative
  size is not allocated.
\<close>

definition CEscape :: "(nat \<Rightarrow> bytes) \<Rightarrow> bytes \<Rightarrow> bytes option" where
  "CEscape heap src =
    (let dest_length = to_int (int (length src) * 4 + 1); src_len = to_int (int (length src)) in
     if dest_length < 0 then None
     else
       Option.bind (CEscapeInternal (mem_slice src 0 src_len) (heap (nat dest_length)) dest_length False)
         (\<lambda>(len, dest). if len \<ge> 0 then Some (take (nat len) dest) else None))"

section \<open>The text the escaper writes\<close>

fun escaped :: "bool \<Rightarrow> bool \<Rightarrow> bytes \<Rightarrow> bytes" where
  "escaped use_hex after_hex [] = []"
| "escaped use_hex after_hex (c # src) =
    (case short_escape c of
       Some e \<Rightarrow> asc CHR 0x5C # e # escaped use_hex False src
     | None \<Rightarrow>
         if \<not> isprint c \<or> after_hex \<and> isxdigit c then
           (if use_hex then hex_escape c else octal_escape c) @ escaped use_hex use_hex src
         else c # escaped use_hex False src)"

lemma length_escapes [simp]:
  "length (hex_escape c) = 4" "length (octal_escape c) = 4"
  "length (if use_hex then hex_escape c else octal_escape c) = 4"
  by (simp_all add: hex_escape_def octal_escape_def)

lemma length_escaped: "length (escaped use_hex after_hex src) \<le> 4 * length src"
proof (induction src arbitrary: after_hex)
  case (Cons c src)
  show ?case using Cons.IH [of False] Cons.IH [of use_hex] by (auto split: option.split)
qed simp

text \<open>
  A store that keeps a prefix of what it writes: the bytes before the new position are those
  before the old one and the prefix.
\<close>

lemma store_at_extends:
  assumes "0 \<le> p" "p + int (length (d @ e)) \<le> int (length mem)"
  shows "\<exists>mem'. store_at mem p (d @ e) = Some mem' \<and> length mem' = length mem \<and>
    take (nat (p + int (length d))) mem' = take (nat p) mem @ d"
proof -
  have "nat (p + int (length d)) = nat p + length d" "nat p \<le> length mem"
    using assms by auto
  moreover from this have "take (nat p + length d) (overwrite mem p (d @ e)) = take (nat p) mem @ d"
    by (simp add: overwrite_def)
  moreover have "nat p + length (d @ e) \<le> length mem" using assms by auto
  ultimately show ?thesis
    using assms by (simp add: store_at_def del: length_append)
qed

text \<open>The outcome of a loop that has written \<open>t\<close> from the position \<open>used\<close> on.\<close>

definition wrote :: "bytes \<Rightarrow> int \<Rightarrow> bytes \<Rightarrow> (int \<times> bytes) option \<Rightarrow> bool" where
  "wrote dest used t r \<longleftrightarrow>
    (\<exists>dest'. r = Some (used + int (length t), dest') \<and> length dest' = length dest \<and>
      take (nat (used + int (length t))) dest' = take (nat used) dest @ t)"

lemma wrote_step:
  assumes "0 \<le> used" "used + int (length (d @ e)) \<le> int (length dest)"
    "\<And>dest1. length dest1 = length dest \<Longrightarrow> wrote dest1 (used + int (length d)) t (k dest1)"
  shows "wrote dest used (d @ t) (Option.bind (store_at dest used (d @ e)) k)"
proof -
  obtain dest1 where d1: "store_at dest used (d @ e) = Some dest1" "length dest1 = length dest"
    "take (nat (used + int (length d))) dest1 = take (nat used) dest @ d"
    using store_at_extends [OF assms(1,2)] by auto
  then show ?thesis using assms(3) [OF d1(2)] by (simp add: wrote_def add.assoc)
qed

text \<open>With room for the text and its \<open>NUL\<close>, the loop writes exactly the text.\<close>

lemma CEscape_loop_fits:
  assumes "0 \<le> used" "dest_len = int (length dest)"
    "used + int (length (escaped use_hex after_hex src)) + 1 \<le> dest_len"
  shows "wrote dest used (escaped use_hex after_hex src)
    (CEscape_loop src dest_len use_hex dest used after_hex)"
  using assms
proof (induction src arbitrary: dest used after_hex)
  case Nil
  then show ?case using store_at_extends [of used "[]" "[0]" dest] by (auto simp: wrote_def)
next
  case (Cons c src)
  show ?case
  proof (cases "short_escape c")
    case (Some e)
    have "wrote dest used ([asc CHR 0x5C, e] @ escaped use_hex False src)
      (Option.bind (store_at dest used ([asc CHR 0x5C, e] @ []))
        (\<lambda>dest'. CEscape_loop src dest_len use_hex dest' (used + 2) False))"
    proof (rule wrote_step)
      fix dest1 :: bytes assume "length dest1 = length dest"
      then show "wrote dest1 (used + int (length [asc CHR 0x5C, e])) (escaped use_hex False src)
          (CEscape_loop src dest_len use_hex dest1 (used + 2) False)"
        using Cons.IH [of "used + 2" dest1 False] Cons.prems Some by simp
    qed (use Cons.prems Some in auto)
    then show ?thesis using Cons.prems Some by simp
  next
    case None
    show ?thesis
    proof (cases "\<not> isprint c \<or> after_hex \<and> isxdigit c")
      case True
      let ?t = "if use_hex then hex_escape c else octal_escape c"
      have esc: "escaped use_hex after_hex (c # src) = ?t @ escaped use_hex use_hex src"
        by (simp only: escaped.simps None True option.case if_True)
      have room: "used + int (length (escaped use_hex use_hex src)) + 5 \<le> dest_len"
        using Cons.prems(3) unfolding esc by simp
      then have loop: "CEscape_loop (c # src) dest_len use_hex dest used after_hex =
          Option.bind (store_at dest used (?t @ [0]))
            (\<lambda>dest'. CEscape_loop src dest_len use_hex dest' (used + 4) use_hex)"
        by (simp only: CEscape_loop.simps None True option.case if_True) simp
      show ?thesis unfolding esc loop
      proof (rule wrote_step)
        fix dest1 :: bytes assume "length dest1 = length dest"
        then show "wrote dest1 (used + int (length ?t)) (escaped use_hex use_hex src)
            (CEscape_loop src dest_len use_hex dest1 (used + 4) use_hex)"
          using Cons.IH [of "used + 4" dest1 use_hex] Cons.prems(1,2) room by simp
      qed (use Cons.prems(1,2) room in simp_all)
    next
      case False
      have esc: "escaped use_hex after_hex (c # src) = [c] @ escaped use_hex False src"
        by (simp only: escaped.simps None False option.case if_False append.simps)
      have room: "used + int (length (escaped use_hex False src)) + 2 \<le> dest_len"
        using Cons.prems(3) unfolding esc by simp
      then have loop: "CEscape_loop (c # src) dest_len use_hex dest used after_hex =
          Option.bind (store_at dest used ([c] @ []))
            (\<lambda>dest'. CEscape_loop src dest_len use_hex dest' (used + 1) False)"
        by (simp only: CEscape_loop.simps None False option.case if_False) simp
      show ?thesis unfolding esc loop
      proof (rule wrote_step)
        fix dest1 :: bytes assume "length dest1 = length dest"
        then show "wrote dest1 (used + int (length [c])) (escaped use_hex False src)
            (CEscape_loop src dest_len use_hex dest1 (used + 1) False)"
          using Cons.IH [of "used + 1" dest1 False] Cons.prems(1,2) room by simp
      qed (use Cons.prems(1,2) room in simp_all)
    qed
  qed
qed

text \<open>
  Hence \<open>CEscape\<close>, whose buffer is the largest possible expansion, returns the text as long as the
  size of the buffer is an \<open>int\<close>.
\<close>

lemma CEscape_text:
  assumes "\<And>n. length (heap n) = n" and small: "int (length src) * 4 + 1 \<le> INT_MAX"
  shows "CEscape heap src = Some (escaped False False src)"
proof -
  let ?n = "int (length src) * 4 + 1"
  have "is_int32 ?n" "is_int32 (int (length src))" using small by (simp_all add: int_bounds)
  then have sizes: "to_int ?n = ?n" "to_int (int (length src)) = int (length src)"
    "mem_slice src 0 (int (length src)) = src" by (simp_all add: mem_slice_def)
  have "int (length (escaped False False src)) + 1 \<le> ?n"
    using length_escaped [of False False src] by simp
  then show ?thesis
    using CEscape_loop_fits [of 0 ?n "heap (nat ?n)" False False src] assms(1) [of "nat ?n"]
    by (fastforce simp: CEscape_def CEscapeInternal_def wrote_def sizes)
qed

section \<open>Unescaping undoes escaping\<close>

lemma unescape_short:
  "short_escape c = Some e \<Longrightarrow> unescape_one e cs = ([c], cs)"
  by (auto simp: short_escape_def unescape_one_def letter_escape_def split: if_splits)

lemma unat_and_mask: "unat (w AND mask k) = unat (w :: 'a::len word) mod 2 ^ k"
  by (simp add: unsigned_take_bit_eq flip: take_bit_eq_mask take_bit_eq_mod)

lemma octal_letter:
  fixes x :: byte
  assumes "x < 8"
  shows "letter_escape (48 + x) = None" "IS_OCTAL_DIGIT (48 + x)" "48 + x - 48 = x"
proof -
  have "unat x < 8" using assms by (simp add: word_less_nat_alt)
  then have "unat x \<in> {0, 1, 2, 3, 4, 5, 6, 7}" by auto
  then have x: "x \<in> {0, 1, 2, 3, 4, 5, 6, 7}" by (simp add: word_unat_eq_iff)
  show "letter_escape (48 + x) = None" using x by (auto simp: letter_escape_def)
  show "IS_OCTAL_DIGIT (48 + x)" using x by (auto simp: char_classes)
  show "48 + x - 48 = x" by simp
qed

lemma hex_letter:
  fixes x :: byte
  assumes "x < 16"
  shows "isxdigit (hex_digit x)" "hex_digit_to_int (hex_digit x) = ucast x"
proof -
  have "unat x < 16" using assms by (simp add: word_less_nat_alt)
  then have "unat x \<in> {0, 1, 2, 3, 4, 5, 6, 7, 8, 9, 10, 11, 12, 13, 14, 15}"
    by simp presburger
  then have x: "x \<in> {0, 1, 2, 3, 4, 5, 6, 7, 8, 9, 10, 11, 12, 13, 14, 15}" by (simp add: word_unat_eq_iff)
  show "isxdigit (hex_digit x)" using x by (auto simp: char_classes hex_digit_def)
  show "hex_digit_to_int (hex_digit x) = ucast x"
    using x by (auto simp: hex_digit_to_int_def hex_digit_def)
qed

lemma octal_parts:
  fixes c :: byte
  shows "drop_bit 6 c < 8" "drop_bit 3 c AND 7 < 8" "c AND 7 < 8"
    "(drop_bit 6 c * 8 + (drop_bit 3 c AND 7)) * 8 + (c AND 7) = c"
proof -
  have m: "unat (w AND 7) = unat w mod 8" for w :: byte
    using unat_and_mask [of w 3] by (simp add: mask_eq_exp_minus_1)
  have d: "unat (drop_bit 6 c) = unat c div 64" "unat (drop_bit 3 c) = unat c div 8"
    by (simp_all add: unat_drop_bit_div)
  have c: "unat c < 256" using unsigned_less [of c] by simp
  have "unat c div 64 < 8" by (rule less_mult_imp_div_less) (use c in linarith)
  then have "unat c div 64 < unat (8 :: byte)" by simp
  then show "drop_bit 6 c < 8"
    unfolding word_less_nat_alt d .
  show "drop_bit 3 c AND 7 < 8"
    by (simp add: word_less_nat_alt m)
  show "c AND 7 < 8"
    by (simp add: word_less_nat_alt m)
  have p: "drop_bit 6 c = word_of_nat (unat c div 64)"
    "drop_bit 3 c AND 7 = word_of_nat (unat c div 8 mod 8)" "c AND 7 = word_of_nat (unat c mod 8)"
    unfolding d [symmetric] m [symmetric] by simp_all
  have "unat c div 64 = unat c div 8 div 8" by (simp add: div_mult2_eq [of _ 8 8, simplified])
  then have "unat c = (unat c div 64 * 8 + unat c div 8 mod 8) * 8 + unat c mod 8"
    by (simp only: div_mult_mod_eq)
  then have "c = word_of_nat ((unat c div 64 * 8 + unat c div 8 mod 8) * 8 + unat c mod 8)"
    using arg_cong [of "unat c" _ "word_of_nat :: nat \<Rightarrow> byte"] by simp
  then show "(drop_bit 6 c * 8 + (drop_bit 3 c AND 7)) * 8 + (c AND 7) = c"
    unfolding p by simp
qed

lemma hex_parts:
  fixes c :: byte
  shows "drop_bit 4 c < 16" "c AND 15 < 16"
    "(ucast (push_bit 4 (ucast (drop_bit 4 c)) + ucast (c AND 15) :: uint32) :: byte) = c"
proof -
  have m: "unat (c AND 15) = unat c mod 16"
    using unat_and_mask [of c 4] by (simp add: mask_eq_exp_minus_1)
  have d: "unat (drop_bit 4 c) = unat c div 16"
    by (simp add: unat_drop_bit_div)
  have c: "unat c < 256" using unsigned_less [of c] by simp
  have "unat c div 16 < 16" by (rule less_mult_imp_div_less) (use c in linarith)
  then show "drop_bit 4 c < 16" by (simp only: word_less_nat_alt d) simp
  show "c AND 15 < 16" by (simp only: word_less_nat_alt m) simp
  have "unat (push_bit 4 (ucast (drop_bit 4 c)) + ucast (c AND 15) :: uint32) =
      unat c div 16 * 16 + unat c mod 16"
  proof -
    have "unat c div 16 * 16 + unat c mod 16 < 2 ^ 32" using c unfolding div_mult_mod_eq
      by (rule less_trans) simp
    moreover from this have "unat c div 16 * 16 < 2 ^ 32" by linarith
    ultimately show ?thesis by (simp add: push_bit_eq_mult unat_word_ariths m d)
  qed
  then show "(ucast (push_bit 4 (ucast (drop_bit 4 c)) + ucast (c AND 15) :: uint32) :: byte) = c"
    by (simp add: ucast_of_nat_unat [of "push_bit 4 x + y" for x y])
qed

lemma unescape_octal:
  "UnescapeCEscapeSequences (octal_escape c @ cs) = c # UnescapeCEscapeSequences cs"
proof -
  let ?a = "drop_bit 6 c" and ?b = "drop_bit 3 c AND 7" and ?d = "c AND 7"
  have digits: "IS_OCTAL_DIGIT (48 + ?b)" "IS_OCTAL_DIGIT (48 + ?d)"
    by (intro octal_letter(2) octal_parts)+
  have lead: "letter_escape (48 + ?a) = None" "IS_OCTAL_DIGIT (48 + ?a)"
    by (intro octal_letter octal_parts)+
  have "unescape_one (48 + ?a) ((48 + ?b) # (48 + ?d) # cs) = ([(?a * 8 + ?b) * 8 + ?d], cs)"
    using digits lead by (simp add: unescape_one_def octal_digit_def add.commute)
  then show ?thesis using octal_parts(4) [of c] by (simp add: octal_escape_def)
qed

lemma unescape_hex_escape:
  assumes "cs = [] \<or> \<not> isxdigit (hd cs)"
  shows "UnescapeCEscapeSequences (hex_escape c @ cs) = c # UnescapeCEscapeSequences cs"
proof -
  have stop: "hex_run ch cs = (ch, cs)" for ch using assms by (cases cs) auto
  have "hex_run 0 (hex_digit (drop_bit 4 c) # hex_digit (c AND 15) # cs) =
      (push_bit 4 (ucast (drop_bit 4 c)) + ucast (c AND 15), cs)"
    by (simp add: hex_letter hex_parts(1,2) stop)
  then have "unescape_one (asc CHR ''x'') (hex_digit (drop_bit 4 c) # hex_digit (c AND 15) # cs) =
      ([c], cs)"
    using hex_letter(1) [OF hex_parts(1) [of c]] hex_parts(3) [of c]
    by (simp add: unescape_one_def letter_escape_def unescape_hex_def IS_OCTAL_DIGIT_def between_def)
  then show ?thesis by (simp add: hex_escape_def)
qed

lemma escaped_after_hex:
  "escaped True True src = [] \<or> \<not> isxdigit (hd (escaped True True src))"
  by (cases src) (auto simp: hex_escape_def char_classes split: option.split)

lemma plain_not_backslash: "short_escape c = None \<Longrightarrow> c \<noteq> asc CHR 0x5C"
  by (auto simp: short_escape_def)

lemma unescape_escaped: "UnescapeCEscapeSequences (escaped use_hex after_hex src) = src"
proof (induction src arbitrary: after_hex)
  case (Cons c src)
  show ?case
  proof (cases "short_escape c")
    case (Some e)
    then show ?thesis using Cons.IH by (simp add: unescape_short)
  next
    case None
    then have "c \<noteq> 0x5C" using plain_not_backslash [of c] by simp
    then show ?thesis
      using None Cons.IH unescape_octal unescape_hex_escape [OF escaped_after_hex]
      by (cases use_hex) (simp_all del: length_escapes)
  qed
qed simp

lemma octal_escape_no_nul: "0 \<notin> set (octal_escape c)"
proof -
  have "48 + x \<noteq> 0" if "x < 8" for x :: byte
    using octal_letter(2) [OF that] by (auto simp: char_classes)
  then show ?thesis using octal_parts [of c] by (auto simp: octal_escape_def)
qed

lemma escaped_no_nul: "0 \<notin> set (escaped False after_hex src)"
proof (induction src arbitrary: after_hex)
  case (Cons c src)
  then show ?case
    using octal_escape_no_nul [of c]
    by (auto simp: short_escape_def char_classes split: option.split if_splits)
qed simp

text \<open>\<open>CEscape\<close> writes printable characters only, and no bare quote.\<close>

lemma octal_escape_printable: "list_all isprint (octal_escape c)"
proof -
  have "isprint (48 + x)" if "x < 8" for x :: byte
    using octal_letter(2) [OF that] order_trans [of 32 48 "48 + x"] order_trans [of "48 + x" 55 126]
    by (simp add: char_classes)
  then show ?thesis using octal_parts [of c] by (auto simp: octal_escape_def isprint_def)
qed

lemma escaped_printable: "list_all isprint (escaped False after_hex src)"
proof (induction src arbitrary: after_hex)
  case (Cons c src)
  then show ?case
    using octal_escape_printable [of c]
    by (auto simp: short_escape_def isprint_def [abs_def] split: option.split if_splits)
qed simp

end
