(* ===== verification/NumberText.thy ===== *)
theory NumberText
  imports EscapeText
begin

text \<open>
  Integers to text (\<open>stubs/strutil.cc\<close>): the right-aligned \<open>FastInt32ToBuffer\<close> and
  \<open>FastInt64ToBuffer\<close>, the hexadecimal writers, the left-aligned \<open>FastUInt32ToBufferLeft\<close>
  with its labels, \<open>FastUInt64ToBufferLeft\<close>, and \<open>SimpleItoa\<close>. A pointer into the buffer is
  its index. Every store is bounds-checked, every signed multiplication or negation overflow-checked:
  outside their range the call has no value.
\<close>

section \<open>Texts of numbers\<close>

definition digit :: "nat \<Rightarrow> byte" where
  "digit d = hex_digit (word_of_nat d)"

text \<open>The text of a number in a base, most significant digit first, and padded to a width.\<close>

function text_in :: "nat \<Rightarrow> nat \<Rightarrow> bytes" where
  "text_in base n =
    (if n < base \<or> base < 2 then [digit (n mod base)]
     else text_in base (n div base) @ [digit (n mod base)])"
  by auto

termination
  by (relation "measure snd") auto

declare text_in.simps [simp del]

fun padded :: "nat \<Rightarrow> nat \<Rightarrow> nat \<Rightarrow> bytes" where
  "padded base 0 n = []"
| "padded base (Suc k) n = padded base k (n div base) @ [digit (n mod base)]"

abbreviation decimal :: "nat \<Rightarrow> bytes" where
  "decimal \<equiv> text_in 10"

definition signed_decimal :: "int \<Rightarrow> bytes" where
  "signed_decimal i =
    (if i < 0 then asc CHR ''-'' # decimal (nat (- i)) else decimal (nat i))"

lemma length_padded [simp]: "length (padded base k n) = k"
  by (induction base k n rule: padded.induct) auto

lemma text_in_padded:
  assumes "2 \<le> base" "base ^ k \<le> n" "n < base ^ Suc k"
  shows "text_in base n = padded base (Suc k) n"
  using assms
proof (induction k arbitrary: n)
  case 0
  then show ?case by (simp add: text_in.simps)
next
  case (Suc k)
  have "base \<le> base ^ Suc k" using Suc.prems(1) by simp
  then have "\<not> n < base" using Suc.prems(2) by linarith
  moreover have "base ^ k \<le> n div base" "n div base < base ^ Suc k"
    using Suc.prems by (simp_all add: less_eq_div_iff_mult_less_eq div_less_iff_less_mult mult.commute)
  ultimately show ?case using Suc.IH [of "n div base"] Suc.prems(1)
    by (simp add: text_in.simps [of base n])
qed

lemma text_in_small: "n < base \<Longrightarrow> text_in base n = padded base 1 n"
  by (simp add: text_in.simps)

lemma padded_add:
  "padded base (j + k) n = padded base j (n div base ^ k) @ padded base k (n mod base ^ k)"
proof (induction k arbitrary: n)
  case (Suc k)
  have "n mod base ^ Suc k div base = n div base mod base ^ k" "n mod base ^ Suc k mod base = n mod base"
    by (simp_all add: mod_mult2_eq mod_mod_cancel div_add1_eq)
      (metis div_mult_mod_eq mod_mult2_eq)?
  then show ?case using Suc.IH [of "n div base"] by (simp add: div_mult2_eq)
qed simp

lemma length_text_in_le:
  assumes "2 \<le> base" "n < base ^ Suc k"
  shows "length (text_in base n) \<le> Suc k"
  using assms
proof (induction k arbitrary: n)
  case (Suc k)
  show ?case
  proof (cases "n < base")
    case False
    have "n div base < base ^ Suc k"
      using Suc.prems by (simp add: div_less_iff_less_mult mult.commute)
    then show ?thesis using Suc.IH [of "n div base"] Suc.prems(1) False
      by (simp add: text_in.simps [of base n])
  qed (simp add: text_in_small)
qed (simp add: text_in_small)

section \<open>Writing backwards from the end of the buffer\<close>

definition kFastInt64ToBufferOffset :: int where
  "kFastInt64ToBufferOffset = 21"

definition kFastInt32ToBufferOffset :: int where
  "kFastInt32ToBufferOffset = 11"

definition hexdigits :: bytes where
  "hexdigits = cstring ''0123456789abcdef''"

text \<open>
  The loop \<open>do { *p-- = d(i % base); i /= base; } while (i > 0)\<close> on a non-negative \<open>i\<close>, with
  \<open>base\<close> the literal of the source (greater than 1); the hexadecimal writer spells it
  \<open>i & 15\<close> and \<open>i >>= 4\<close>.
\<close>

function put_digits ::
  "int \<Rightarrow> (int \<Rightarrow> byte) \<Rightarrow> int \<Rightarrow> bytes \<Rightarrow> int \<Rightarrow> (bytes \<times> int) option" where
  "put_digits base d i buffer p =
    Option.bind (store_at buffer p [d (i mod base)])
      (\<lambda>buffer. if 0 < i div base \<and> 1 < base then put_digits base d (i div base) buffer (p - 1)
         else Some (buffer, p - 1))"
  by auto

termination
proof (relation "measure (\<lambda>(_, _, i, _). nat i)")
  fix base i :: int
  assume "0 < i div base \<and> 1 < base"
  then have "1 < base" "base \<le> i" using pos_imp_zdiv_pos_iff [of base i] by auto
  then have "0 < i" "i div base < i" using int_div_less_self [of i base] by auto
  then show "((base, d, i div base, buf', p - 1), base, d, i, buf, p) \<in> measure (\<lambda>(_, _, i, _). nat i)"
    for d :: "int \<Rightarrow> byte" and buf buf' :: bytes and p :: int
    by simp
qed simp

declare put_digits.simps [simp del]

definition decimal_digit :: "int \<Rightarrow> byte" where
  "decimal_digit d = asc CHR ''0'' + word_of_int d"

definition hexdigit_at :: "int \<Rightarrow> byte" where
  "hexdigit_at d = hexdigits ! nat d"

text \<open>The two functions have the same body, at different offsets.\<close>

definition FastIntToBuffer_at :: "int \<Rightarrow> int \<Rightarrow> bytes \<Rightarrow> (bytes \<times> int) option" where
  "FastIntToBuffer_at offset i buffer =
    Option.bind (store_at buffer offset [0]) (\<lambda>buffer.
      let p = offset - 1 in
      if i \<ge> 0 then
        map_option (\<lambda>(buffer, p). (buffer, p + 1)) (put_digits 10 decimal_digit i buffer p)
      else if i > -10 then
        Option.bind (store_at buffer p [decimal_digit (- i)]) (\<lambda>buffer.
          map_option (\<lambda>buffer. (buffer, p - 1)) (store_at buffer (p - 1) [asc CHR ''-'']))
      else
        (let i = - (i + 10) in
         Option.bind (store_at buffer p [decimal_digit (i mod 10)]) (\<lambda>buffer.
           let i = i div 10 + 1 in
           Option.bind (put_digits 10 decimal_digit i buffer (p - 1)) (\<lambda>(buffer, p).
             map_option (\<lambda>buffer. (buffer, p)) (store_at buffer p [asc CHR ''-''])))))"

definition FastInt64ToBuffer :: "int \<Rightarrow> bytes \<Rightarrow> (bytes \<times> int) option" where
  "FastInt64ToBuffer i buffer = FastIntToBuffer_at kFastInt64ToBufferOffset i buffer"

definition FastInt32ToBuffer :: "int \<Rightarrow> bytes \<Rightarrow> (bytes \<times> int) option" where
  "FastInt32ToBuffer i buffer = FastIntToBuffer_at kFastInt32ToBufferOffset i buffer"

definition FastHexToBuffer :: "int \<Rightarrow> bytes \<Rightarrow> (bytes \<times> int) option" where
  "FastHexToBuffer i buffer =
    (if \<not> i \<ge> 0 then None
     else Option.bind (store_at buffer 21 [0]) (\<lambda>buffer.
       map_option (\<lambda>(buffer, p). (buffer, p + 1)) (put_digits 16 hexdigit_at i buffer 20)))"

fun hex_fixed_loop :: "nat \<Rightarrow> uint64 \<Rightarrow> bytes \<Rightarrow> bytes option" where
  "hex_fixed_loop 0 val buffer = Some buffer"
| "hex_fixed_loop (Suc i) val buffer =
    Option.bind (store_at buffer (int i) [hexdigits ! unat ((ucast val :: uint32) AND 0xf)])
      (hex_fixed_loop i (drop_bit 4 val))"

definition InternalFastHexToBuffer :: "uint64 \<Rightarrow> bytes \<Rightarrow> nat \<Rightarrow> bytes option" where
  "InternalFastHexToBuffer val buffer num_byte =
    Option.bind (store_at buffer (int num_byte) [0]) (hex_fixed_loop num_byte val)"

definition FastHex64ToBuffer :: "uint64 \<Rightarrow> bytes \<Rightarrow> bytes option" where
  "FastHex64ToBuffer val buffer = InternalFastHexToBuffer val buffer 16"

definition FastHex32ToBuffer :: "uint32 \<Rightarrow> bytes \<Rightarrow> bytes option" where
  "FastHex32ToBuffer val buffer = InternalFastHexToBuffer (ucast val) buffer 8"

text \<open>A store right before an earlier one.\<close>

lemma store_before:
  assumes "0 \<le> q" "p = q + int (length a)" "p + int (length b) \<le> int (length mem)"
  shows "store_at (overwrite mem p b) q a = Some (overwrite mem q (a @ b))"
proof -
  have p: "nat p = nat q + length a" using assms(1,2) by simp
  have "overwrite (overwrite mem p b) q a = overwrite mem q (a @ b)"
    using p assms by (simp add: overwrite_def add_ac)
  moreover have "length (overwrite mem p b) = length mem"
    using p assms by (intro length_overwrite) auto
  ultimately show ?thesis using assms by (simp add: store_at_def)
qed

lemma hex_digit_table: "d < 16 \<Longrightarrow> hexdigits ! d = digit d"
proof -
  assume "d < 16"
  then have "d \<in> {0, 1, 2, 3, 4, 5, 6, 7, 8, 9, 10, 11, 12, 13, 14, 15}" by simp presburger
  then show ?thesis by (auto simp: hexdigits_def digit_def hex_digit_def)
qed

lemma digit_decimal: "d < 10 \<Longrightarrow> digit d = 48 + word_of_nat d"
proof -
  assume "d < 10"
  then have "d \<in> {0, 1, 2, 3, 4, 5, 6, 7, 8, 9}" by simp presburger
  then show ?thesis by (auto simp: digit_def hex_digit_def)
qed

text \<open>A digit function for a base: it yields the digit of every value below the base.\<close>

definition digits_of :: "nat \<Rightarrow> (int \<Rightarrow> byte) \<Rightarrow> bool" where
  "digits_of base d \<longleftrightarrow> 2 \<le> base \<and> (\<forall>n<base. d (int n) = digit n)"

lemma digits_of_10: "digits_of 10 decimal_digit"
  by (simp add: digits_of_def decimal_digit_def digit_decimal)

lemma digits_of_16: "digits_of 16 hexdigit_at"
  by (simp add: digits_of_def hexdigit_at_def hex_digit_table)

lemma put_digits_text:
  assumes "digits_of base d" "p + 1 + int (length t) \<le> int (length mem)"
    "int (length (text_in base n)) \<le> p + 1"
  shows "put_digits (int base) d (int n) (overwrite mem (p + 1) t) p =
    Some (overwrite mem (p + 1 - int (length (text_in base n))) (text_in base n @ t),
      p - int (length (text_in base n)))"
  using assms(2,3)
proof (induction n arbitrary: p t rule: less_induct)
  case (less n)
  have base: "2 \<le> base" "d (int (n mod base)) = digit (n mod base)"
    using assms(1) by (auto simp: digits_of_def)
  have "text_in base n \<noteq> []" by (subst text_in.simps) simp
  then have p: "0 \<le> p" using less.prems(2) by (cases "text_in base n") auto
  have "store_at (overwrite mem (p + 1) t) p [digit (n mod base)] =
      Some (overwrite mem p (digit (n mod base) # t))"
    using store_before [of p "p + 1" "[digit (n mod base)]" t mem] p less.prems(1) by simp
  then have step: "put_digits (int base) d (int n) (overwrite mem (p + 1) t) p =
      (if base \<le> n then put_digits (int base) d (int (n div base))
           (overwrite mem p (digit (n mod base) # t)) (p - 1)
       else Some (overwrite mem p (digit (n mod base) # t), p - 1))"
    using base by (subst put_digits.simps) (simp add: div_greater_zero_iff flip: of_nat_div of_nat_mod)
  show ?case
  proof (cases "n < base")
    case True
    then have "text_in base n = [digit (n mod base)]" by (simp add: text_in.simps)
    then show ?thesis using True unfolding step by simp
  next
    case False
    then have tx: "text_in base n = text_in base (n div base) @ [digit (n mod base)]"
      using base(1) by (subst text_in.simps) simp
    have "n div base < n" using False base(1) by simp
    then show ?thesis
      using less.IH [of "n div base" "p - 1" "digit (n mod base) # t"] less.prems tx False
      unfolding step by (simp add: algebra_simps)
  qed
qed

lemmas put_decimal = put_digits_text [OF digits_of_10, simplified]
lemmas put_hex = put_digits_text [OF digits_of_16, simplified]

lemma decimal_digit_of: "n < 10 \<Longrightarrow> decimal_digit (int n) = digit n"
  using digits_of_10 by (simp add: digits_of_def)

lemma FastIntToBuffer_at_text:
  assumes "int (length (signed_decimal i)) \<le> offset" "offset < int (length buffer)"
  shows "FastIntToBuffer_at offset i buffer =
    Some (overwrite buffer (offset - int (length (signed_decimal i))) (signed_decimal i @ [0]),
      offset - int (length (signed_decimal i)))"
proof -
  define n where "n = nat \<bar>i\<bar>"
  have off: "0 \<le> offset" using assms(1) by linarith
  have nul: "store_at buffer offset [0] = Some (overwrite buffer offset [0])"
    using assms(2) off by (simp add: store_at_def)
  consider "0 \<le> i" | "i < 0" "- 10 < i" | "i \<le> - 10" by linarith
  then show ?thesis
  proof cases
    case 1
    then have i: "i = int n" "signed_decimal i = decimal n" by (simp_all add: n_def signed_decimal_def)
    then show ?thesis
      using put_decimal [of "offset - 1" "[0]" buffer n] assms
      by (simp add: FastIntToBuffer_at_def nul Let_def)
  next
    case 2
    then have i: "- i = int n" "n < 10" by (simp_all add: n_def)
    have t: "signed_decimal i = [asc CHR ''-'', digit n]"
      using 2 i by (simp add: signed_decimal_def text_in.simps)
    have "store_at (overwrite buffer offset [0]) (offset - 1) [digit n] =
        Some (overwrite buffer (offset - 1) [digit n, 0])"
      "store_at (overwrite buffer (offset - 1) [digit n, 0]) (offset - 2) [asc CHR ''-''] =
        Some (overwrite buffer (offset - 2) [asc CHR ''-'', digit n, 0])"
      using assms t
      by (simp_all add: store_before [of "offset - 1" offset "[digit n]" "[0]"]
          store_before [of "offset - 2" "offset - 1" "[asc CHR ''-'']" "[digit n, 0]"] del: asc_Char)
    then show ?thesis
      using 2 i t by (simp add: FastIntToBuffer_at_def nul decimal_digit_of Let_def del: asc_Char)
  next
    case 3
    define m where "m = n div 10"
    define d where "d = n mod 10"
    have n: "n = 10 * m + d" "d < 10" "0 < m" "i = - int n" using 3 by (simp_all add: n_def m_def d_def)
    have i: "- (i + 10) mod 10 = int d" "- (i + 10) div 10 + 1 = int m" using n by simp_all
    have "decimal n = decimal m @ [digit d]"
      using n(3) by (subst text_in.simps) (simp add: m_def d_def div_greater_zero_iff)
    then have t: "signed_decimal i = asc CHR ''-'' # decimal m @ [digit d]"
      using 3 n(4) by (simp add: signed_decimal_def)
    let ?len = "int (length (decimal m))"
    have "store_at (overwrite buffer offset [0]) (offset - 1) [digit d] =
        Some (overwrite buffer (offset - 1) [digit d, 0])"
      using assms t by (simp add: store_before [of "offset - 1" offset "[digit d]" "[0]"])
    moreover have "put_digits 10 decimal_digit (int m) (overwrite buffer (offset - 1) [digit d, 0]) (offset - 2) =
        Some (overwrite buffer (offset - 1 - ?len) (decimal m @ [digit d, 0]), offset - 2 - ?len)"
      using put_decimal [of "offset - 2" "[digit d, 0]" buffer m] assms t by simp
    moreover have "store_at (overwrite buffer (offset - 1 - ?len) (decimal m @ [digit d, 0]))
        (offset - 2 - ?len) [asc CHR ''-''] =
        Some (overwrite buffer (offset - 2 - ?len) (asc CHR ''-'' # decimal m @ [digit d, 0]))"
      using assms t
      by (subst store_before) (simp_all del: asc_Char)
    ultimately show ?thesis
      using 3 i n(2) t
      by (simp add: FastIntToBuffer_at_def nul decimal_digit_of Let_def del: asc_Char
          flip: diff_diff_eq)
  qed
qed

lemma length_decimal_le: "n < 10 ^ Suc k \<Longrightarrow> length (decimal n) \<le> Suc k"
  by (rule length_text_in_le) simp_all

text \<open>The offsets leave room for every value of the type.\<close>

lemma signed_decimal_fits:
  "is_int32 i \<Longrightarrow> length (signed_decimal i) \<le> 11"
  "- (2 ^ 63) \<le> i \<Longrightarrow> i < 2 ^ 63 \<Longrightarrow> length (signed_decimal i) \<le> 20"
  using length_decimal_le [of "nat i" 9] length_decimal_le [of "nat (- i)" 9]
    length_decimal_le [of "nat i" 18] length_decimal_le [of "nat (- i)" 18]
  by (auto simp: signed_decimal_def int_bounds nat_less_iff)

lemma text_in_digits: "2 \<le> base \<Longrightarrow> c \<in> set (text_in base n) \<Longrightarrow> \<exists>d<base. c = digit d"
proof (induction n rule: less_induct)
  case (less n)
  show ?case
  proof (cases "n < base")
    case True
    then show ?thesis using less.prems by (auto simp: text_in_small)
  next
    case False
    then have "c \<in> set (text_in base (n div base)) \<or> c = digit (n mod base)"
      using less.prems by (auto simp: text_in.simps [of base n])
    moreover have "n div base < n" "n mod base < base" using False less.prems(1) by simp_all
    ultimately show ?thesis using less.IH [of "n div base"] less.prems(1) by blast
  qed
qed

lemma digit_is_digit: "d < 10 \<Longrightarrow> ascii_isdigit (digit d)"
proof -
  assume "d < 10"
  then have "d \<in> {0, 1, 2, 3, 4, 5, 6, 7, 8, 9}" by simp presburger
  then show ?thesis by (auto simp: digit_def hex_digit_def char_classes)
qed

lemma decimal_digits: "\<forall>c\<in>set (decimal n). ascii_isdigit c"
  using text_in_digits [of 10 _ n] digit_is_digit by auto

lemma decimal_no_nul: "0 \<notin> set (decimal n)"
  using decimal_digits [of n] by (auto simp: char_classes)

lemma signed_decimal_no_nul: "0 \<notin> set (signed_decimal i)"
  using decimal_no_nul by (auto simp: signed_decimal_def)

section \<open>Writing forwards, two digits at a time\<close>

text \<open>The table, as the two characters of its row; an index outside it is undefined.\<close>

definition two_ASCII_digits :: "int \<Rightarrow> bytes option" where
  "two_ASCII_digits n =
    (if 0 \<le> n \<and> n < 100 then Some [decimal_digit (n div 10), decimal_digit (n mod 10)] else None)"

text \<open>A signed multiplication; its overflow is undefined.\<close>

definition int_mul :: "int \<Rightarrow> int \<Rightarrow> int option" where
  "int_mul a b = (if is_int32 (a * b) then Some (a * b) else None)"

type_synonym writer = "bytes \<Rightarrow> int \<Rightarrow> (bytes \<times> int) option"

text \<open>\<open>ASCII_digits = two_ASCII_digits[digits]\<close>, the two stores, and \<open>buffer += 2\<close>.\<close>

definition put_two :: "int \<Rightarrow> writer \<Rightarrow> writer" where
  "put_two digits k buffer p =
    Option.bind (two_ASCII_digits digits) (\<lambda>d.
      Option.bind (store_at buffer p d) (\<lambda>buffer. k buffer (p + 2)))"

text \<open>\<open>*buffer++ = '0' + digits\<close>.\<close>

definition put_one :: "int \<Rightarrow> writer \<Rightarrow> writer" where
  "put_one digits k buffer p =
    Option.bind (store_at buffer p [decimal_digit digits]) (\<lambda>buffer. k buffer (p + 1))"

text \<open>\<open>u -= digits * c\<close>: the product is a signed \<open>int\<close>.\<close>

definition sub_mul :: "uint32 \<Rightarrow> int \<Rightarrow> int \<Rightarrow> (uint32 \<Rightarrow> writer) \<Rightarrow> writer" where
  "sub_mul u digits c k buffer p =
    Option.bind (int_mul digits c) (\<lambda>x. k (u - word_of_int x) buffer p)"

text \<open>The labels of \<open>FastUInt32ToBufferLeft\<close>, each with the code it falls into.\<close>

definition FUI_done :: writer where
  "FUI_done buffer p = map_option (\<lambda>buffer. (buffer, p)) (store_at buffer p [0])"

definition FUI_lt100 :: "uint32 \<Rightarrow> writer" where
  "FUI_lt100 u = put_two (uint u) FUI_done"

definition FUI_sublt100 :: "int \<Rightarrow> uint32 \<Rightarrow> writer" where
  "FUI_sublt100 digits u = sub_mul u digits 100 FUI_lt100"

definition FUI_lt10_000 :: "uint32 \<Rightarrow> writer" where
  "FUI_lt10_000 u = (let digits = uint (u div 100) in put_two digits (FUI_sublt100 digits u))"

definition FUI_sublt10_000 :: "int \<Rightarrow> uint32 \<Rightarrow> writer" where
  "FUI_sublt10_000 digits u = sub_mul u digits 10000 FUI_lt10_000"

definition FUI_lt1_000_000 :: "uint32 \<Rightarrow> writer" where
  "FUI_lt1_000_000 u =
    (let digits = uint (u div 10000) in put_two digits (FUI_sublt10_000 digits u))"

definition FUI_sublt1_000_000 :: "int \<Rightarrow> uint32 \<Rightarrow> writer" where
  "FUI_sublt1_000_000 digits u = sub_mul u digits 1000000 FUI_lt1_000_000"

definition FUI_lt100_000_000 :: "uint32 \<Rightarrow> writer" where
  "FUI_lt100_000_000 u =
    (let digits = uint (u div 1000000) in put_two digits (FUI_sublt1_000_000 digits u))"

definition FUI_sublt100_000_000 :: "int \<Rightarrow> uint32 \<Rightarrow> writer" where
  "FUI_sublt100_000_000 digits u = sub_mul u digits 100000000 FUI_lt100_000_000"

definition FastUInt32ToBufferLeft :: "uint32 \<Rightarrow> writer" where
  "FastUInt32ToBufferLeft u =
    (if u \<ge> 1000000000 then
       (let digits = uint (u div 100000000) in put_two digits (FUI_sublt100_000_000 digits u))
     else if u < 100 then
       (let digits = uint u in if u \<ge> 10 then FUI_lt100 u else put_one digits FUI_done)
     else if u < 10000 then
       (if u \<ge> 1000 then FUI_lt10_000 u
        else (let digits = uint (u div 100) in put_one digits (FUI_sublt100 digits u)))
     else if u < 1000000 then
       (if u \<ge> 100000 then FUI_lt1_000_000 u
        else (let digits = uint (u div 10000) in put_one digits (FUI_sublt10_000 digits u)))
     else if u < 100000000 then
       (if u \<ge> 10000000 then FUI_lt100_000_000 u
        else (let digits = uint (u div 1000000) in put_one digits (FUI_sublt1_000_000 digits u)))
     else (let digits = uint (u div 100000000) in put_one digits (FUI_sublt100_000_000 digits u)))"

text \<open>\<open>-i\<close> of an \<open>int\<close> of \<open>w\<close> bits; negating the smallest value is undefined.\<close>

definition int_neg :: "nat \<Rightarrow> int \<Rightarrow> int option" where
  "int_neg w i = (if i = - (2 ^ (w - 1)) then None else Some (- i))"

definition FastInt32ToBufferLeft :: "int \<Rightarrow> writer" where
  "FastInt32ToBufferLeft i buffer p =
    (if i < 0 then
       Option.bind (store_at buffer p [asc CHR ''-'']) (\<lambda>buffer.
         Option.bind (int_neg 32 i) (\<lambda>u. FastUInt32ToBufferLeft (word_of_int u) buffer (p + 1)))
     else FastUInt32ToBufferLeft (word_of_int i) buffer p)"

text \<open>The four two-digit steps and the last digit of the nine low digits.\<close>

definition FUI64_low :: "uint32 \<Rightarrow> writer" where
  "FUI64_low u =
    (let digits = uint (u div 10000000) in put_two digits (sub_mul u digits 10000000 (\<lambda>u.
     let digits = uint (u div 100000) in put_two digits (sub_mul u digits 100000 (\<lambda>u.
     let digits = uint (u div 1000) in put_two digits (sub_mul u digits 1000 (\<lambda>u.
     let digits = uint (u div 10) in put_two digits (sub_mul u digits 10 (\<lambda>u.
     put_one (uint u) FUI_done)))))))))"

lemma word_div_less: "(w :: uint64) \<noteq> 0 \<Longrightarrow> unat (w div 1000000000) < unat w"
  by (simp add: unat_div word_unat_eq_iff)

function FastUInt64ToBufferLeft :: "uint64 \<Rightarrow> writer" where
  "FastUInt64ToBufferLeft u64 buffer p =
    (let u = (ucast u64 :: uint32) in
     if ucast u = u64 then FastUInt32ToBufferLeft u buffer p
     else
       (let top_11_digits = u64 div 1000000000 in
        Option.bind (FastUInt64ToBufferLeft top_11_digits buffer p) (\<lambda>(buffer, p).
          FUI64_low (ucast (u64 - top_11_digits * 1000000000)) buffer p)))"
  by auto

termination
  by (relation "measure (\<lambda>(u64, _). unat u64)") (auto intro!: word_div_less)

declare FastUInt64ToBufferLeft.simps [simp del]

definition FastInt64ToBufferLeft :: "int \<Rightarrow> writer" where
  "FastInt64ToBufferLeft i buffer p =
    (if i < 0 then
       Option.bind (store_at buffer p [asc CHR ''-'']) (\<lambda>buffer.
         Option.bind (int_neg 64 i) (\<lambda>u. FastUInt64ToBufferLeft (word_of_int u) buffer (p + 1)))
     else FastUInt64ToBufferLeft (word_of_int i) buffer p)"

text \<open>A writer appends a text when it puts the text and a \<open>NUL\<close> wherever there is room for them.\<close>

definition appends :: "writer \<Rightarrow> bytes \<Rightarrow> bool" where
  "appends w t \<longleftrightarrow> (\<forall>buffer p. 0 \<le> p \<longrightarrow> p + int (length t) < int (length buffer) \<longrightarrow>
    w buffer p = Some (overwrite buffer p (t @ [0]), p + int (length t)))"

lemma appendsD:
  "appends w t \<Longrightarrow> 0 \<le> p \<Longrightarrow> p + int (length t) < int (length buffer) \<Longrightarrow>
    w buffer p = Some (overwrite buffer p (t @ [0]), p + int (length t))"
  by (simp add: appends_def)

lemma appends_done: "appends FUI_done []"
  by (simp add: appends_def FUI_done_def store_at_def)

lemma appends_store:
  assumes "appends k t"
  shows "appends (\<lambda>buffer p. Option.bind (store_at buffer p d) (\<lambda>buffer. k buffer (p + int (length d)))) (d @ t)"
  unfolding appends_def
proof (intro allI impI)
  fix buffer :: bytes and p :: int
  assume p: "0 \<le> p" "p + int (length (d @ t)) < int (length buffer)"
  then have st: "store_at buffer p d = Some (overwrite buffer p d)"
    "length (overwrite buffer p d) = length buffer"
    by (auto simp: store_at_def intro!: length_overwrite)
  have "k (overwrite buffer p d) (p + int (length d)) =
      Some (overwrite (overwrite buffer p d) (p + int (length d)) (t @ [0]), p + int (length d) + int (length t))"
    using p st(2) by (intro appendsD [OF assms]) auto
  also have "overwrite (overwrite buffer p d) (p + int (length d)) (t @ [0]) = overwrite buffer p (d @ t @ [0])"
    using p by (intro overwrite_append) auto
  finally show "Option.bind (store_at buffer p d) (\<lambda>buffer. k buffer (p + int (length d))) =
      Some (overwrite buffer p ((d @ t) @ [0]), p + int (length (d @ t)))"
    by (simp add: st(1) add.assoc)
qed

lemma two_digits:
  "n < 100 \<Longrightarrow> two_ASCII_digits (int n) = Some (padded 10 2 n)"
  using decimal_digit_of [of "n div 10"] decimal_digit_of [of "n mod 10"]
  by (simp add: two_ASCII_digits_def numeral_2_eq_2 zdiv_int zmod_int)

lemma appends_put_two:
  assumes "n < 100" "appends k t"
  shows "appends (put_two (int n) k) (padded 10 2 n @ t)"
  using appends_store [OF assms(2), of "padded 10 2 n"] two_digits [OF assms(1)]
  by (simp add: put_two_def [abs_def])

lemma appends_put_one:
  assumes "n < 10" "appends k t"
  shows "appends (put_one (int n) k) (padded 10 1 n @ t)"
  using appends_store [OF assms(2), of "[digit n]"] decimal_digit_of [OF assms(1)] assms(1)
  by (simp add: put_one_def [abs_def])

text \<open>After the subtraction the remainder is left, if the product is an \<open>int\<close>.\<close>

lemma sub_mul_remainder:
  fixes u :: uint32
  shows "unat (u - word_of_int (int (unat u div K) * int K)) = unat u mod K"
proof -
  have le: "unat u div K * K \<le> unat u" by simp
  have "unat u < 2 ^ 32" using unsigned_less [of u] by simp
  then have "unat u div K * K < 2 ^ 32" using le by (rule le_less_trans [rotated])
  then have w: "unat (word_of_nat (unat u div K * K) :: uint32) = unat u div K * K"
    by (simp add: unat_of_nat take_bit_nat_eq_self del: of_nat_mult)
  have "word_of_int (int (unat u div K) * int K) = (word_of_nat (unat u div K * K) :: uint32)"
    by (simp flip: of_nat_mult)
  then have "unat (u - word_of_int (int (unat u div K) * int K)) = unat u - unat u div K * K"
    using le w by (simp add: unat_sub word_le_nat_alt del: of_nat_mult)
  then show ?thesis by (simp add: minus_div_mult_eq_mod)
qed

lemma appends_sub_mul:
  fixes u :: uint32
  assumes "int (unat u div K) * int K \<le> INT_MAX" "\<And>v. unat v = unat u mod K \<Longrightarrow> appends (k v) t"
  shows "appends (sub_mul u (int (unat u div K)) (int K) k) t"
proof -
  have "sub_mul u (int (unat u div K)) (int K) k = k (u - word_of_int (int (unat u div K) * int K))"
    using assms(1) order_trans [OF _ mult_nonneg_nonneg [of "int (unat u div K)" "int K"], of INT_MIN]
    by (simp add: sub_mul_def [abs_def] int_mul_def int_bounds)
  then show ?thesis using assms(2) [OF sub_mul_remainder] by simp
qed

text \<open>One step of the ladder: two digits (or one), and the rest of the number below them.\<close>

lemma appends_step:
  fixes u :: uint32
  assumes "K = 10 ^ k" "unat u div K * K \<le> 2147483647"
    "\<And>v. unat v < K \<Longrightarrow> appends (w v) (padded 10 k (unat v))"
  shows "unat u div K < 100 \<Longrightarrow>
      appends (put_two (int (unat u div K)) (sub_mul u (int (unat u div K)) (int K) w))
        (padded 10 (2 + k) (unat u))"
    "unat u div K < 10 \<Longrightarrow>
      appends (put_one (int (unat u div K)) (sub_mul u (int (unat u div K)) (int K) w))
        (padded 10 (1 + k) (unat u))"
proof -
  have le: "int (unat u div K * K) \<le> INT_MAX" using assms(2) unfolding INT_MAX_def by linarith
  have "appends (sub_mul u (int (unat u div K)) (int K) w) (padded 10 k (unat u mod K))"
  proof (rule appends_sub_mul)
    fix v :: uint32 assume v: "unat v = unat u mod K"
    then have "unat v < K" using assms(1) by simp
    then show "appends (w v) (padded 10 k (unat u mod K))" using assms(3) [of v] v by simp
  qed (use le in simp)
  then show "unat u div K < 100 \<Longrightarrow>
      appends (put_two (int (unat u div K)) (sub_mul u (int (unat u div K)) (int K) w))
        (padded 10 (2 + k) (unat u))"
    "unat u div K < 10 \<Longrightarrow>
      appends (put_one (int (unat u div K)) (sub_mul u (int (unat u div K)) (int K) w))
        (padded 10 (1 + k) (unat u))"
    unfolding padded_add assms(1) by (blast intro: appends_put_two appends_put_one)+
qed

lemma uint_div_nat:
  "uint ((u :: uint32) div numeral k) = int (unat u div unat (numeral k :: uint32))"
  by (simp add: uint_div of_nat_div)

named_theorems ladder \<open>the labels of the left-aligned writers\<close>

lemmas [ladder] = FUI_lt100_def FUI_sublt100_def FUI_lt10_000_def FUI_sublt10_000_def
  FUI_lt1_000_000_def FUI_sublt1_000_000_def FUI_lt100_000_000_def FUI_sublt100_000_000_def
  Let_def uint_div_nat

lemma appends_lt100: "unat u < 100 \<Longrightarrow> appends (FUI_lt100 u) (padded 10 2 (unat u))"
  using appends_put_two [OF _ appends_done, of "unat u"] by (simp add: FUI_lt100_def)

lemma appends_lt10_000: "unat u < 10000 \<Longrightarrow> appends (FUI_lt10_000 u) (padded 10 4 (unat u))"
  using appends_step(1) [of 100 2 u FUI_lt100] appends_lt100
  by (simp add: FUI_lt10_000_def FUI_sublt100_def Let_def uint_div_nat)

lemma appends_lt1_000_000: "unat u < 1000000 \<Longrightarrow> appends (FUI_lt1_000_000 u) (padded 10 6 (unat u))"
  using appends_step(1) [of 10000 4 u FUI_lt10_000] appends_lt10_000
  by (simp add: FUI_lt1_000_000_def FUI_sublt10_000_def Let_def uint_div_nat)

lemma appends_lt100_000_000:
  "unat u < 100000000 \<Longrightarrow> appends (FUI_lt100_000_000 u) (padded 10 8 (unat u))"
  using appends_step(1) [of 1000000 6 u FUI_lt1_000_000] appends_lt1_000_000
  by (simp add: FUI_lt100_000_000_def FUI_sublt1_000_000_def Let_def uint_div_nat)

lemma unat_cmp:
  "(u :: uint32) < numeral k \<longleftrightarrow> unat u < unat (numeral k :: uint32)"
  "numeral k \<le> u \<longleftrightarrow> unat (numeral k :: uint32) \<le> unat u"
  by (simp_all add: word_less_nat_alt word_le_nat_alt)

text \<open>Below the point where the product overflows, the writer appends the decimal text.\<close>

lemma FastUInt32ToBufferLeft_appends:
  assumes "unat u < 2200000000"
  shows "appends (FastUInt32ToBufferLeft u) (decimal (unat u))"
proof -
  let ?n = "unat u"
  note defs = FastUInt32ToBufferLeft_def unat_cmp ladder
  have le: "?n div K * K \<le> ?n" for K by simp
  consider "1000000000 \<le> ?n" | "?n < 10" | "10 \<le> ?n" "?n < 100" | "100 \<le> ?n" "?n < 1000"
    | "1000 \<le> ?n" "?n < 10000" | "10000 \<le> ?n" "?n < 100000" | "100000 \<le> ?n" "?n < 1000000"
    | "1000000 \<le> ?n" "?n < 10000000" | "10000000 \<le> ?n" "?n < 100000000"
    | "100000000 \<le> ?n" "?n < 1000000000"
    by linarith
  then show ?thesis
  proof cases
    case 1
    have "?n div 100000000 < 22" using assms by (simp add: div_less_iff_less_mult)
    then have "?n div 100000000 * 100000000 \<le> 2147483647" by linarith
    then show ?thesis
      using 1 assms appends_step(1) [of 100000000 8 u FUI_lt100_000_000] appends_lt100_000_000
        text_in_padded [of 10 9 ?n]
      by (simp add: defs div_less_iff_less_mult)
  next
    case 2
    then show ?thesis using appends_put_one [OF _ appends_done, of ?n]
      by (simp add: defs text_in_small)
  next
    case 3
    have "decimal ?n = padded 10 2 ?n"
      using 3 text_in_padded [of 10 1 ?n] by (simp add: numeral_2_eq_2)
    then show ?thesis using 3 appends_lt100 [of u] by (simp add: defs)
  next
    case 4
    have "decimal ?n = padded 10 (1 + 2) ?n"
      using 4 text_in_padded [of 10 2 ?n] by (simp add: numeral_3_eq_3)
    moreover have "appends (put_one (int (?n div 100)) (sub_mul u (int (?n div 100)) 100 FUI_lt100))
        (padded 10 (1 + 2) ?n)"
      using 4 appends_step(2) [of 100 2 u FUI_lt100] appends_lt100 le [of 100]
      by (simp add: div_less_iff_less_mult del: padded.simps)
    ultimately show ?thesis using 4 by (simp only: defs) simp
  next
    case 5
    then show ?thesis using appends_lt10_000 [of u] text_in_padded [of 10 3 ?n] by (simp add: defs)
  next
    case 6
    then show ?thesis
      using appends_step(2) [of 10000 4 u FUI_lt10_000] appends_lt10_000 le [of 10000]
        text_in_padded [of 10 4 ?n]
      by (simp add: defs div_less_iff_less_mult)
  next
    case 7
    then show ?thesis using appends_lt1_000_000 [of u] text_in_padded [of 10 5 ?n] by (simp add: defs)
  next
    case 8
    then show ?thesis
      using appends_step(2) [of 1000000 6 u FUI_lt1_000_000] appends_lt1_000_000 le [of 1000000]
        text_in_padded [of 10 6 ?n]
      by (simp add: defs div_less_iff_less_mult)
  next
    case 9
    then show ?thesis using appends_lt100_000_000 [of u] text_in_padded [of 10 7 ?n]
      by (simp add: defs)
  next
    case 10
    then show ?thesis
      using appends_step(2) [of 100000000 8 u FUI_lt100_000_000] appends_lt100_000_000
        le [of 100000000] text_in_padded [of 10 8 ?n]
      by (simp add: defs div_less_iff_less_mult)
  qed
qed

text \<open>From there on the product is not an \<open>int\<close>, and the call has no value.\<close>

lemma FastUInt32ToBufferLeft_undefined:
  assumes "2200000000 \<le> unat u"
  shows "FastUInt32ToBufferLeft u buffer p = None"
proof -
  have "22 \<le> unat u div 100000000" using assms by (simp add: less_eq_div_iff_mult_less_eq)
  then have "int_mul (int (unat u div 100000000)) 100000000 = None"
    by (simp add: int_mul_def int_bounds)
  then show ?thesis using assms
    by (simp add: FastUInt32ToBufferLeft_def unat_cmp Let_def uint_div_nat FUI_sublt100_000_000_def
        put_two_def sub_mul_def Option.bind_eq_None_conv)
qed

lemma text_in_split:
  assumes "2 \<le> base" "base ^ k \<le> n"
  shows "text_in base n = text_in base (n div base ^ k) @ padded base k (n mod base ^ k) \<or> k = 0"
  using assms(2)
proof (induction k arbitrary: n)
  case (Suc k)
  have ge: "base ^ k \<le> n div base" "base \<le> n"
    using Suc.prems assms(1) le_trans [of base "base ^ Suc k" n]
    by (simp_all add: less_eq_div_iff_mult_less_eq mult.commute)
  then have n: "text_in base n = text_in base (n div base) @ [digit (n mod base)]"
    using assms(1) by (subst text_in.simps) simp
  have m: "n mod base ^ Suc k div base = n div base mod base ^ k" "n mod base ^ Suc k mod base = n mod base"
    using mod_mult2_eq [of n base "base ^ k"] assms(1) by simp_all
  show ?case
  proof (cases "k = 0")
    case True
    then show ?thesis using n by simp
  next
    case False
    then show ?thesis using Suc.IH [OF ge(1)] n m by (simp add: div_mult2_eq)
  qed
qed simp

lemma FUI64_low_appends:
  assumes "unat u < 1000000000"
  shows "appends (FUI64_low u) (padded 10 9 (unat u))"
proof -
  have le: "m div K * K \<le> 2147483647" if "m < 1000000000" for m K :: nat
    using that div_times_less_eq_dividend [of m K] by linarith
  let ?w1 = "\<lambda>u. put_one (uint u) FUI_done"
  let ?w3 = "\<lambda>u. put_two (uint (u div 10)) (sub_mul u (uint (u div 10)) 10 ?w1)"
  let ?w5 = "\<lambda>u. put_two (uint (u div 1000)) (sub_mul u (uint (u div 1000)) 1000 ?w3)"
  let ?w7 = "\<lambda>u. put_two (uint (u div 100000)) (sub_mul u (uint (u div 100000)) 100000 ?w5)"
  have w1: "appends (?w1 v) (padded 10 1 (unat v))" if "unat v < 10" for v :: uint32
    using appends_put_one [OF that appends_done] by simp
  have w3: "appends (?w3 v) (padded 10 (2 + 1) (unat v))" if "unat v < 1000" for v :: uint32
    using appends_step(1) [of 10 1 v ?w1] w1 le [of "unat v" 10] that
    by (simp add: uint_div_nat div_less_iff_less_mult)
  have w5: "appends (?w5 v) (padded 10 5 (unat v))" if "unat v < 100000" for v :: uint32
    using appends_step(1) [of 1000 3 v ?w3] w3 le [of "unat v" 1000] that
    by (simp add: uint_div_nat div_less_iff_less_mult)
  have w7: "appends (?w7 v) (padded 10 7 (unat v))" if "unat v < 10000000" for v :: uint32
    using appends_step(1) [of 100000 5 v ?w5] w5 le [of "unat v" 100000] that
    by (simp add: uint_div_nat div_less_iff_less_mult)
  show ?thesis
    using appends_step(1) [of 10000000 7 u ?w7] w7 le [of "unat u" 10000000] assms
    by (simp add: FUI64_low_def uint_div_nat div_less_iff_less_mult Let_def)
qed

text \<open>The numbers whose leading digits, the ones left to the 32-bit writer, stay below the overflow.\<close>

fun left_ok :: "nat \<Rightarrow> bool" where
  "left_ok n = (if n < 4294967296 then n < 2200000000 else left_ok (n div 1000000000))"

declare left_ok.simps [simp del]

lemma overwrite_over:
  assumes "0 \<le> p" "q = p + int (length a)" "b \<noteq> []" "q + int (length b) \<le> int (length mem)"
  shows "overwrite (overwrite mem p (a @ [c])) q b = overwrite mem p (a @ b)"
proof -
  obtain d ds where b: "b = d # ds" using assms(3) by (cases b) auto
  have q: "nat q = nat p + length a" using assms(1,2) by simp
  have "nat q + length b \<le> length mem" using assms(1,2,4) by simp
  then have "min (length mem) (nat p) = nat p" using q by simp
  then show ?thesis using q b by (simp add: overwrite_def add_ac)
qed

lemma appends_compose:
  assumes "appends v s" "appends w t" "t \<noteq> []"
  shows "appends (\<lambda>buffer p. Option.bind (v buffer p) (\<lambda>(buffer, p). w buffer p)) (s @ t)"
  unfolding appends_def
proof (intro allI impI)
  fix buffer :: bytes and p :: int
  assume p: "0 \<le> p" "p + int (length (s @ t)) < int (length buffer)"
  have first: "v buffer p = Some (overwrite buffer p (s @ [0]), p + int (length s))"
    using p by (intro appendsD [OF assms(1)]) auto
  have "w (overwrite buffer p (s @ [0])) (p + int (length s)) =
      Some (overwrite (overwrite buffer p (s @ [0])) (p + int (length s)) (t @ [0]),
        p + int (length s) + int (length t))"
    using p assms(3) by (intro appendsD [OF assms(2)]) (auto simp: length_overwrite)
  moreover have "overwrite (overwrite buffer p (s @ [0])) (p + int (length s)) (t @ [0]) =
      overwrite buffer p (s @ t @ [0])"
    using p by (intro overwrite_over) auto
  ultimately show "Option.bind (v buffer p) (\<lambda>(buffer, p). w buffer p) =
      Some (overwrite buffer p ((s @ t) @ [0]), p + int (length (s @ t)))"
    by (simp add: first)
qed

lemma low_word: "unat (ucast (w :: uint64) :: uint32) = unat w mod 4294967296"
  by (simp add: unsigned_ucast_eq take_bit_eq_mod)

lemma fits_32: "ucast (ucast u64 :: uint32) = u64 \<longleftrightarrow> unat u64 < 4294967296" for u64 :: uint64
proof -
  have "unat (ucast v :: uint64) = unat v" for v :: uint32
  proof -
    have "unat v < 2 ^ 64" using unsigned_less [of v] by (rule less_trans) simp
    then show ?thesis by (simp only: unsigned_ucast_eq) (simp add: take_bit_nat_eq_self)
  qed
  from this [of "ucast u64"]
  have "unat (ucast (ucast u64 :: uint32) :: uint64) = unat u64 mod 4294967296"
    by (simp only: low_word)
  then show ?thesis by (auto simp: word_unat_eq_iff mod_eq_self_iff_div_eq_0)
qed

lemma FastUInt64ToBufferLeft_appends:
  "left_ok (unat u64) \<Longrightarrow> appends (FastUInt64ToBufferLeft u64) (decimal (unat u64))"
proof (induction u64 rule: measure_induct_rule [of unat])
  case (less u64)
  let ?n = "unat u64"
  show ?case
  proof (cases "?n < 4294967296")
    case True
    then have "FastUInt64ToBufferLeft u64 = FastUInt32ToBufferLeft (ucast u64)"
      by (intro ext) (simp add: FastUInt64ToBufferLeft.simps [of u64] fits_32)
    then show ?thesis
      using FastUInt32ToBufferLeft_appends [of "ucast u64"] True less.prems
      by (simp add: left_ok.simps low_word)
  next
    case False
    let ?top = "u64 div 1000000000" and ?low = "ucast (u64 - u64 div 1000000000 * 1000000000) :: uint32"
    have top: "unat ?top = ?n div 1000000000" by (simp add: unat_div)
    have "unat (u64 - u64 div 1000000000 * 1000000000) = ?n mod 1000000000"
      by (simp add: minus_div_mult_eq_mod unat_mod)
    moreover have "?n mod 1000000000 < 1000000000" by simp
    ultimately have low: "unat ?low = ?n mod 1000000000" by (simp add: low_word)
    have top_text: "appends (FastUInt64ToBufferLeft ?top) (decimal (?n div 1000000000))"
      using less.IH [of ?top] less.prems False by (simp add: top left_ok.simps [of ?n])
    have low_text: "appends (FUI64_low ?low) (padded 10 9 (?n mod 1000000000))"
      using FUI64_low_appends [of ?low] by (simp add: low)
    have number: "decimal ?n = decimal (?n div 1000000000) @ padded 10 9 (?n mod 1000000000)"
      using text_in_split [of 10 9 ?n] False by simp
    have call: "FastUInt64ToBufferLeft u64 = (\<lambda>buffer p.
        Option.bind (FastUInt64ToBufferLeft ?top buffer p) (\<lambda>(buffer, p). FUI64_low ?low buffer p))"
      using False by (intro ext) (simp add: FastUInt64ToBufferLeft.simps [of u64] fits_32 Let_def)
    have "padded 10 9 (?n mod 1000000000) \<noteq> []"
      by (metis length_padded list.size(3) zero_neq_numeral)
    then show ?thesis
      unfolding call number by (intro appends_compose top_text low_text)
  qed
qed

text \<open>The signed variants: a minus sign, then the magnitude.\<close>

lemma appends_sign:
  assumes "appends w t"
  shows "appends (\<lambda>buffer p. Option.bind (store_at buffer p [asc CHR ''-'']) (\<lambda>buffer. w buffer (p + 1)))
    (asc CHR ''-'' # t)"
  using appends_store [OF assms, of "[asc CHR ''-'']"] by simp

lemma FastInt32ToBufferLeft_appends:
  assumes "\<bar>i\<bar> < 2147483648"
  shows "appends (FastInt32ToBufferLeft i) (signed_decimal i)"
proof -
  have w: "appends (FastUInt32ToBufferLeft (word_of_int j)) (decimal (nat j))"
    if j: "0 \<le> j" "j < 2147483648" for j
  proof -
    obtain n where n: "j = int n" using j(1) by (rule nonneg_int_cases)
    then have "unat (word_of_int j :: uint32) = n"
      using j(2) by (simp add: unat_of_nat take_bit_nat_eq_self)
    then show ?thesis using FastUInt32ToBufferLeft_appends [of "word_of_int j"] j n by simp
  qed
  show ?thesis
  proof (cases "i < 0")
    case True
    then have "FastInt32ToBufferLeft i = (\<lambda>buffer p. Option.bind (store_at buffer p [asc CHR ''-''])
        (\<lambda>buffer. FastUInt32ToBufferLeft (word_of_int (- i)) buffer (p + 1)))"
      using assms by (intro ext) (simp add: FastInt32ToBufferLeft_def int_neg_def)
    then show ?thesis
      using True assms appends_sign [OF w [of "- i"]] by (simp add: signed_decimal_def)
  next
    case False
    then have "FastInt32ToBufferLeft i = FastUInt32ToBufferLeft (word_of_int i)"
      by (intro ext) (simp add: FastInt32ToBufferLeft_def)
    then show ?thesis using False assms w [of i] by (simp add: signed_decimal_def)
  qed
qed

text \<open>The smallest value has no negation.\<close>

lemma FastInt32ToBufferLeft_min: "FastInt32ToBufferLeft (- 2147483648) buffer p = None"
  by (simp add: FastInt32ToBufferLeft_def int_neg_def Option.bind_eq_None_conv)

section \<open>Hexadecimal\<close>

lemma FastHexToBuffer_text:
  assumes "0 \<le> i" "i \<le> INT_MAX" "22 \<le> length buffer"
  shows "FastHexToBuffer i buffer =
    Some (overwrite buffer (21 - int (length (text_in 16 (nat i)))) (text_in 16 (nat i) @ [0]),
      21 - int (length (text_in 16 (nat i))))"
proof -
  have "length (text_in 16 (nat i)) \<le> Suc 7"
    using assms(2) by (intro length_text_in_le) (simp_all add: INT_MAX_def nat_less_iff)
  then show ?thesis
    using put_hex [of 20 "[0]" buffer "nat i"] assms
    by (simp add: FastHexToBuffer_def store_at_def)
qed

lemma hex_fixed_loop_text:
  assumes "k + length t \<le> length mem"
  shows "hex_fixed_loop k v (overwrite mem (int k) t) =
    Some (overwrite mem 0 (padded 16 k (unat v) @ t))"
  using assms
proof (induction k arbitrary: v t)
  case (Suc k)
  have "unat ((ucast v :: uint32) AND 0xf) = unat v mod 4294967296 mod 16"
    using unat_and_mask [of "ucast v :: uint32" 4] by (simp add: mask_eq_exp_minus_1 low_word)
  then have d: "hexdigits ! unat ((ucast v :: uint32) AND 0xf) = digit (unat v mod 16)"
    by (simp add: hex_digit_table mod_mod_cancel)
  have "store_at (overwrite mem (int (Suc k)) t) (int k) [digit (unat v mod 16)] =
      Some (overwrite mem (int k) (digit (unat v mod 16) # t))"
    using Suc.prems store_before [of "int k" "int (Suc k)" "[digit (unat v mod 16)]" t mem] by simp
  then show ?case
    using Suc.IH [of "digit (unat v mod 16) # t" "drop_bit 4 v"] Suc.prems d
    by (simp add: unat_drop_bit_div)
qed simp

lemma InternalFastHexToBuffer_text:
  assumes "n < length buffer"
  shows "InternalFastHexToBuffer v buffer n = Some (overwrite buffer 0 (padded 16 n (unat v) @ [0]))"
  using hex_fixed_loop_text [of n "[0]" buffer v] assms
  by (simp add: InternalFastHexToBuffer_def store_at_def)

section \<open>SimpleItoa\<close>

text \<open>
  The overloads on the signed types read the C string the right-aligned writers leave; those on the
  unsigned types take the bytes before the returned pointer. \<open>heap\<close> is the uninitialised
  local buffer of \<open>kFastToBufferSize\<close> bytes; \<open>long\<close> and \<open>long long\<close> have 64 bits.
\<close>

definition kFastToBufferSize :: nat where
  "kFastToBufferSize = 32"

definition SimpleItoa_int :: "bytes \<Rightarrow> int \<Rightarrow> bytes option" where
  "SimpleItoa_int stack i = map_option (\<lambda>(buffer, p). text_at buffer p) (FastInt32ToBuffer i stack)"

definition SimpleItoa_long :: "bytes \<Rightarrow> int \<Rightarrow> bytes option" where
  "SimpleItoa_long stack i = map_option (\<lambda>(buffer, p). text_at buffer p) (FastInt64ToBuffer i stack)"

definition SimpleItoa_uint :: "bytes \<Rightarrow> uint32 \<Rightarrow> bytes option" where
  "SimpleItoa_uint stack i =
    map_option (\<lambda>(buffer, stop). take (nat stop) buffer) (FastUInt32ToBufferLeft i stack 0)"

definition SimpleItoa_ulong :: "bytes \<Rightarrow> uint64 \<Rightarrow> bytes option" where
  "SimpleItoa_ulong stack i =
    map_option (\<lambda>(buffer, stop). take (nat stop) buffer) (FastUInt64ToBufferLeft i stack 0)"

lemma SimpleItoa_int_text:
  assumes "length stack = kFastToBufferSize" "is_int32 i"
  shows "SimpleItoa_int stack i = Some (signed_decimal i)"
proof -
  let ?t = "signed_decimal i"
  have len: "length ?t \<le> 11" by (rule signed_decimal_fits(1) [OF assms(2)])
  then have "FastInt32ToBuffer i stack = Some (overwrite stack (11 - int (length ?t)) (?t @ [0]), 11 - int (length ?t))"
    using FastIntToBuffer_at_text [of i 11 stack] assms(1)
    by (simp add: FastInt32ToBuffer_def kFastInt32ToBufferOffset_def kFastToBufferSize_def)
  moreover have "text_at (overwrite stack (11 - int (length ?t)) (?t @ [0])) (11 - int (length ?t)) = ?t"
    using len assms(1) signed_decimal_no_nul
    by (intro text_at_overwrite) (auto simp: kFastToBufferSize_def)
  ultimately show ?thesis by (simp add: SimpleItoa_int_def)
qed

lemma SimpleItoa_long_text:
  assumes "length stack = kFastToBufferSize" "- (2 ^ 63) \<le> i" "i < 2 ^ 63"
  shows "SimpleItoa_long stack i = Some (signed_decimal i)"
proof -
  let ?t = "signed_decimal i"
  have len: "length ?t \<le> 20" by (rule signed_decimal_fits(2) [OF assms(2,3)])
  then have "FastInt64ToBuffer i stack = Some (overwrite stack (21 - int (length ?t)) (?t @ [0]), 21 - int (length ?t))"
    using FastIntToBuffer_at_text [of i 21 stack] assms(1)
    by (simp add: FastInt64ToBuffer_def kFastInt64ToBufferOffset_def kFastToBufferSize_def)
  moreover have "text_at (overwrite stack (21 - int (length ?t)) (?t @ [0])) (21 - int (length ?t)) = ?t"
    using len assms(1) signed_decimal_no_nul
    by (intro text_at_overwrite) (auto simp: kFastToBufferSize_def)
  ultimately show ?thesis by (simp add: SimpleItoa_long_def)
qed

lemma take_overwrite_0: "length t \<le> length mem \<Longrightarrow> take (length t) (overwrite mem 0 (t @ s)) = t"
  by (simp add: overwrite_def)

lemma SimpleItoa_uint_text:
  assumes "length stack = kFastToBufferSize" "unat u < 2200000000"
  shows "SimpleItoa_uint stack u = Some (decimal (unat u))"
proof -
  have "length (decimal (unat u)) \<le> Suc 9" using assms(2) by (intro length_decimal_le) simp
  then show ?thesis
    using appendsD [OF FastUInt32ToBufferLeft_appends [OF assms(2)], of 0 stack] assms(1)
    by (simp add: SimpleItoa_uint_def take_overwrite_0 kFastToBufferSize_def)
qed

lemma SimpleItoa_ulong_text:
  assumes "length stack = kFastToBufferSize" "left_ok (unat u)"
  shows "SimpleItoa_ulong stack u = Some (decimal (unat u))"
proof -
  have "unat u < 10 ^ Suc 19" using unsigned_less [of u] by (rule less_trans) simp
  then have "length (decimal (unat u)) \<le> Suc 19" by (rule length_decimal_le)
  then show ?thesis
    using appendsD [OF FastUInt64ToBufferLeft_appends [OF assms(2)], of 0 stack] assms(1)
    by (simp add: SimpleItoa_ulong_def take_overwrite_0 kFastToBufferSize_def)
qed

end
