(* ===== verification/SubstituteText.thy ===== *)
theory SubstituteText
  imports NumberText
begin

text \<open>
  \<open>strings::Substitute\<close> (\<open>stubs/substitute.cc\<close>, \<open>substitute.h\<close>): the first pass over the
  format computes the size of the result, the second writes it into the resized string. A malformed
  format is a \<open>DFATAL\<close>, which ends the process as in a debug build.
\<close>

section \<open>Arguments\<close>

text \<open>
  An argument is its text and size; \<open>-1\<close> is the size of the argument that was not given. The size
  is an \<open>int\<close>, converted from the \<open>size_t\<close> of the string.
\<close>

record SubstituteArg =
  sa_text :: bytes
  sa_size :: int

definition SubstituteArg_none :: SubstituteArg where
  "SubstituteArg_none = \<lparr>sa_text = [], sa_size = -1\<rparr>"

definition SubstituteArg_string :: "bytes \<Rightarrow> SubstituteArg" where
  "SubstituteArg_string s = \<lparr>sa_text = s, sa_size = to_int (int (length s))\<rparr>"

definition SubstituteArg_char :: "byte \<Rightarrow> SubstituteArg" where
  "SubstituteArg_char c = \<lparr>sa_text = [c], sa_size = 1\<rparr>"

definition SubstituteArg_bool :: "bool \<Rightarrow> SubstituteArg" where
  "SubstituteArg_bool b = SubstituteArg_string (if b then cstring ''true'' else cstring ''false'')"

text \<open>The integer arguments: the text written into \<open>scratch_\<close>, and its \<open>strlen\<close>.\<close>

definition SubstituteArg_int :: "bytes \<Rightarrow> int \<Rightarrow> SubstituteArg option" where
  "SubstituteArg_int scratch i =
    map_option (\<lambda>(buffer, p). SubstituteArg_string (text_at buffer p)) (FastInt32ToBuffer i scratch)"

definition SubstituteArg_long :: "bytes \<Rightarrow> int \<Rightarrow> SubstituteArg option" where
  "SubstituteArg_long scratch i =
    map_option (\<lambda>(buffer, p). SubstituteArg_string (text_at buffer p)) (FastInt64ToBuffer i scratch)"

definition SubstituteArg_uint :: "bytes \<Rightarrow> uint32 \<Rightarrow> SubstituteArg option" where
  "SubstituteArg_uint scratch u =
    map_option (\<lambda>(buffer, _). SubstituteArg_string (text_at buffer 0)) (FastUInt32ToBufferLeft u scratch 0)"

definition SubstituteArg_ulong :: "bytes \<Rightarrow> uint64 \<Rightarrow> SubstituteArg option" where
  "SubstituteArg_ulong scratch u =
    map_option (\<lambda>(buffer, _). SubstituteArg_string (text_at buffer 0)) (FastUInt64ToBufferLeft u scratch 0)"

definition CountSubstituteArgs :: "SubstituteArg list \<Rightarrow> nat" where
  "CountSubstituteArgs args = length (takeWhile (\<lambda>a. sa_size a \<noteq> -1) args)"

section \<open>The two passes\<close>

text \<open>The \<open>int size\<close> of the first pass has no value when a sum overflows.\<close>

fun subst_size :: "SubstituteArg list \<Rightarrow> bytes \<Rightarrow> int \<Rightarrow> int option" where
  "subst_size args [] acc = Some acc"
| "subst_size args (c # fmt) acc =
    (if c = asc CHR ''$'' then
       (case fmt of
          [] \<Rightarrow> None
        | d # fmt' \<Rightarrow>
            if ascii_isdigit d then
              (let a = args ! unat (d - asc CHR ''0'') in
               if sa_size a = -1 then None
               else Option.bind (c_int (acc + sa_size a)) (subst_size args fmt'))
            else if d = asc CHR ''$'' then Option.bind (c_int (acc + 1)) (subst_size args fmt')
            else None)
     else Option.bind (c_int (acc + 1)) (subst_size args fmt))"

text \<open>
  \<open>memcpy(target, src->data(), src->size())\<close> is a store of that many bytes of the text; a negative
  size is a number of bytes beyond any buffer.
\<close>

fun subst_build :: "SubstituteArg list \<Rightarrow> bytes \<Rightarrow> bytes \<Rightarrow> int \<Rightarrow> (bytes \<times> int) option" where
  "subst_build args [] output target = Some (output, target)"
| "subst_build args (c # fmt) output target =
    (if c = asc CHR ''$'' then
       (case fmt of
          [] \<Rightarrow> subst_build args fmt output target
        | d # fmt' \<Rightarrow>
            if ascii_isdigit d then
              (let src = args ! unat (d - asc CHR ''0'') in
               if sa_size src < 0 then None
               else
                 Option.bind (store_at output target (take (nat (sa_size src)) (sa_text src)))
                   (\<lambda>output. subst_build args fmt' output (target + sa_size src)))
            else if d = asc CHR ''$'' then
              Option.bind (store_at output target [asc CHR ''$''])
                (\<lambda>output. subst_build args fmt' output (target + 1))
            else subst_build args fmt output target)
     else
       Option.bind (store_at output target [c])
         (\<lambda>output. subst_build args fmt output (target + 1)))"

text \<open>
  The format is a C string. \<open>resize\<close> to a negative size fails; \<open>original_size\<close> is converted
  from a \<open>size_t\<close>.
\<close>

definition string_resize :: "bytes \<Rightarrow> nat \<Rightarrow> bytes" where
  "string_resize s n = take n s @ replicate (n - length s) 0"

definition SubstituteAndAppend :: "bytes \<Rightarrow> bytes \<Rightarrow> SubstituteArg list \<Rightarrow> bytes option" where
  "SubstituteAndAppend output format args =
    Option.bind (subst_size args (c_str format) 0) (\<lambda>n.
      if n = 0 then Some output
      else
        (let original_size = to_int (int (length output)) in
         Option.bind (c_int (original_size + n)) (\<lambda>new_size.
           if new_size < 0 then None
           else
             Option.bind (subst_build args (c_str format) (string_resize output (nat new_size)) original_size)
               (\<lambda>(output, target). if target = int (length output) then Some output else None))))"

definition Substitute :: "bytes \<Rightarrow> SubstituteArg list \<Rightarrow> bytes option" where
  "Substitute format args = SubstituteAndAppend [] format args"

section \<open>What the passes compute\<close>

text \<open>The expansion of a format, or nothing when it is malformed or asks for a missing argument.\<close>

fun expansion :: "SubstituteArg list \<Rightarrow> bytes \<Rightarrow> bytes option" where
  "expansion args [] = Some []"
| "expansion args (c # fmt) =
    (if c = asc CHR ''$'' then
       (case fmt of
          [] \<Rightarrow> None
        | d # fmt' \<Rightarrow>
            if ascii_isdigit d then
              (let a = args ! unat (d - asc CHR ''0'') in
               if sa_size a = -1 then None else map_option ((@) (sa_text a)) (expansion args fmt'))
            else if d = asc CHR ''$'' then map_option ((#) (asc CHR ''$'')) (expansion args fmt')
            else None)
     else map_option ((#) c) (expansion args fmt))"

definition arg_ok :: "SubstituteArg \<Rightarrow> bool" where
  "arg_ok a \<longleftrightarrow> sa_size a = -1 \<or> sa_size a = int (length (sa_text a))"

definition args_ok :: "SubstituteArg list \<Rightarrow> bool" where
  "args_ok args \<longleftrightarrow> length args = 10 \<and> (\<forall>a\<in>set args. arg_ok a)"

lemma digit_index: "ascii_isdigit d \<Longrightarrow> unat (d - asc CHR ''0'') < 10"
proof -
  assume "ascii_isdigit d"
  then have "48 \<le> unat d" "unat d \<le> 57" by (simp_all add: char_classes word_le_nat_alt)
  then show ?thesis by (simp add: unat_sub word_le_nat_alt)
qed

lemma args_okD:
  "args_ok args \<Longrightarrow> ascii_isdigit d \<Longrightarrow> arg_ok (args ! unat (d - asc CHR ''0''))"
  using digit_index [of d] by (simp add: args_ok_def)

lemma size_step:
  assumes "0 \<le> n" "\<And>n'. 0 \<le> n' \<Longrightarrow> n' \<le> INT_MAX \<Longrightarrow> f n' = Option.bind e (\<lambda>t. c_int (n' + int (length t)))"
  shows "Option.bind (c_int (n + int (length d))) f =
    Option.bind (map_option ((@) d) e) (\<lambda>t. c_int (n + int (length t)))"
proof (cases "n + int (length d) \<le> INT_MAX")
  case True
  then have "is_int32 (n + int (length d))" using assms(1) by (simp add: is_int32_nonneg)
  then show ?thesis using True assms by (cases e) (simp_all add: add.assoc)
next
  case False
  then have "c_int (n + int (length d)) = None" "c_int (n + int (length (d @ t))) = None" for t
    by (auto intro: c_int_over)
  then show ?thesis by (cases e) simp_all
qed

lemma subst_size_expansion:
  assumes "args_ok args" "0 \<le> n" "n \<le> INT_MAX"
  shows "subst_size args fmt n = Option.bind (expansion args fmt) (\<lambda>t. c_int (n + int (length t)))"
  using assms
proof (induction args fmt arbitrary: n rule: expansion.induct)
  case (1 args)
  then show ?case by (simp add: is_int32_nonneg)
next
  case (2 args c fmt)
  show ?case
  proof (cases "c = asc CHR ''$''")
    case False
    have "Option.bind (c_int (n + int (length [c]))) (subst_size args fmt) =
        Option.bind (map_option ((@) [c]) (expansion args fmt)) (\<lambda>t. c_int (n + int (length t)))"
      by (rule size_step [OF 2(5)]) (rule 2(3) [OF False 2(4)])
    moreover have "(@) [c] = (#) c" by auto
    ultimately show ?thesis using False by simp
  next
    case dollar: True
    show ?thesis
    proof (cases fmt)
      case (Cons d fmt')
      consider (arg) "ascii_isdigit d" "sa_size (args ! unat (d - asc CHR ''0'')) \<noteq> -1"
        | (dollar) "\<not> ascii_isdigit d" "d = asc CHR ''$''"
        | (bad) "ascii_isdigit d" "sa_size (args ! unat (d - asc CHR ''0'')) = -1"
        | (other) "\<not> ascii_isdigit d" "d \<noteq> asc CHR ''$''" by blast
      then show ?thesis
      proof cases
        case arg
        let ?a = "args ! unat (d - asc CHR ''0'')"
        have sz: "sa_size ?a = int (length (sa_text ?a))"
          using args_okD [OF 2(4) arg(1)] arg(2) by (simp add: arg_ok_def)
        have "Option.bind (c_int (n + int (length (sa_text ?a)))) (subst_size args fmt') =
            Option.bind (map_option ((@) (sa_text ?a)) (expansion args fmt')) (\<lambda>t. c_int (n + int (length t)))"
          by (rule size_step [OF 2(5)]) (rule 2(1) [OF dollar Cons arg(1) refl arg(2) 2(4)])
        then show ?thesis using arg dollar Cons sz by (simp add: Let_def)
      next
        case d: dollar
        have "Option.bind (c_int (n + int (length [asc CHR ''$'']))) (subst_size args fmt') =
            Option.bind (map_option ((@) [asc CHR ''$'']) (expansion args fmt')) (\<lambda>t. c_int (n + int (length t)))"
          by (rule size_step [OF 2(5)]) (rule 2(2) [OF dollar Cons d 2(4)])
        moreover have "(@) [asc CHR ''$''] = (#) (asc CHR ''$'')" by auto
        ultimately show ?thesis using d dollar Cons by (simp del: asc_Char)
      qed (use dollar Cons in \<open>simp_all add: Let_def\<close>)
    qed (use dollar in simp)
  qed
qed

text \<open>The second pass writes exactly the expansion, into room of exactly its size.\<close>

lemma store_then:
  assumes "0 \<le> p" "p + int (length d) + int (length t) \<le> int (length mem)"
    "\<And>mem'. length mem' = length mem \<Longrightarrow>
      k mem' = Some (overwrite mem' (p + int (length d)) t, p + int (length d) + int (length t))"
  shows "Option.bind (store_at mem p d) k = Some (overwrite mem p (d @ t), p + int (length (d @ t)))"
proof -
  have "store_at mem p d = Some (overwrite mem p d)" using assms(1,2) by (simp add: store_at_def)
  moreover from this have "k (overwrite mem p d) =
      Some (overwrite (overwrite mem p d) (p + int (length d)) t, p + int (length d) + int (length t))"
    by (intro assms(3)) (rule store_at_length)
  moreover have "overwrite (overwrite mem p d) (p + int (length d)) t = overwrite mem p (d @ t)"
    using assms(1,2) by (intro overwrite_append) auto
  ultimately show ?thesis by (simp add: add.assoc)
qed

lemma subst_build_expansion:
  assumes "args_ok args" "expansion args fmt = Some t" "0 \<le> p" "p + int (length t) \<le> int (length mem)"
  shows "subst_build args fmt mem p = Some (overwrite mem p t, p + int (length t))"
  using assms
proof (induction args fmt arbitrary: mem p t rule: expansion.induct)
  case (2 args c fmt)
  consider (plain) "c \<noteq> asc CHR ''$''"
    | (arg) d fmt' where "c = asc CHR ''$''" "fmt = d # fmt'" "ascii_isdigit d"
    | (dollar) fmt' where "c = asc CHR ''$''" "fmt = asc CHR ''$'' # fmt'" "\<not> ascii_isdigit (asc CHR ''$'')"
    using 2(5) by (auto split: list.splits if_splits)
  then show ?case
  proof cases
    case plain
    then obtain t' where t': "expansion args fmt = Some t'" "t = [c] @ t'" using 2(5) by auto
    have "Option.bind (store_at mem p [c]) (\<lambda>output. subst_build args fmt output (p + 1)) =
        Some (overwrite mem p ([c] @ t'), p + int (length ([c] @ t')))"
      by (rule store_then) (use 2(3)[OF plain 2(4) t'(1)] 2(6,7) t'(2) in auto)
    then show ?thesis using plain t'(2) by simp
  next
    case arg
    let ?a = "args ! unat (d - asc CHR ''0'')"
    have given: "sa_size ?a \<noteq> -1" using 2(5) arg by (auto simp: Let_def)
    then have sz: "sa_size ?a = int (length (sa_text ?a))"
      using args_okD [OF 2(4) arg(3)] by (simp add: arg_ok_def)
    obtain t' where t': "expansion args fmt' = Some t'" "t = sa_text ?a @ t'"
      using 2(5) arg given by (auto simp: Let_def)
    have "Option.bind (store_at mem p (sa_text ?a))
          (\<lambda>output. subst_build args fmt' output (p + int (length (sa_text ?a)))) =
        Some (overwrite mem p (sa_text ?a @ t'), p + int (length (sa_text ?a @ t')))"
      by (rule store_then) (use 2(1)[OF arg refl given 2(4) t'(1)] 2(6,7) t'(2) in auto)
    then show ?thesis using arg t'(2) sz by (simp add: Let_def)
  next
    case dollar
    then obtain t' where t': "expansion args fmt' = Some t'" "t = [asc CHR ''$''] @ t'"
      using 2(5) by (auto simp del: asc_Char)
    have "Option.bind (store_at mem p [asc CHR ''$''])
          (\<lambda>output. subst_build args fmt' output (p + 1)) =
        Some (overwrite mem p ([asc CHR ''$''] @ t'), p + int (length ([asc CHR ''$''] @ t')))"
      by (rule store_then) (use 2(2)[OF dollar refl 2(4) t'(1)] 2(6,7) t'(2) in auto)
    then show ?thesis using dollar t'(2) by simp
  qed
qed simp

text \<open>
  Hence a call appends the expansion, and has no value exactly when there is none or the sum of the
  sizes overflows.
\<close>

lemma SubstituteAndAppend_expansion:
  assumes args: "args_ok args" and short: "int (length output) \<le> INT_MAX"
  shows "SubstituteAndAppend output format args =
    (case expansion args (c_str format) of None \<Rightarrow> None
     | Some t \<Rightarrow> if t = [] \<or> int (length output + length t) \<le> INT_MAX then Some (output @ t) else None)"
proof (cases "expansion args (c_str format)")
  case None
  then show ?thesis
    using subst_size_expansion [OF args, of 0 "c_str format"] by (simp add: SubstituteAndAppend_def int_bounds)
next
  case (Some t)
  have size: "subst_size args (c_str format) 0 = c_int (int (length t))"
    using subst_size_expansion [OF args, of 0 "c_str format"] Some by (simp add: int_bounds)
  have orig: "to_int (int (length output)) = int (length output)" using short by (simp add: is_int32_nonneg)
  show ?thesis
  proof (cases "int (length output + length t) \<le> INT_MAX")
    case True
    let ?mem = "output @ replicate (length t) 0"
    have "subst_build args (c_str format) ?mem (int (length output)) =
        Some (overwrite ?mem (int (length output)) t, int (length output) + int (length t))"
      by (rule subst_build_expansion [OF args Some]) simp_all
    moreover have "overwrite ?mem (int (length output)) t = output @ t" by (simp add: overwrite_def)
    moreover have "string_resize output (nat (int (length output) + int (length t))) = ?mem"
      by (simp add: string_resize_def nat_add_distrib)
    moreover have "is_int32 (int (length t))" "is_int32 (int (length output) + int (length t))"
      using True by (simp_all add: is_int32_nonneg)
    ultimately show ?thesis
      using Some True by (simp add: SubstituteAndAppend_def size orig)
  next
    case False
    then have over: "c_int (int (length output) + int (length t)) = None" by (simp add: c_int_over)
    show ?thesis
    proof (cases "is_int32 (int (length t))")
      case True
      then show ?thesis using Some False over by (simp add: SubstituteAndAppend_def size orig)
    next
      case big: False
      then have "t \<noteq> []" by (auto simp: int_bounds)
      with big Some False show ?thesis by (simp add: SubstituteAndAppend_def size c_int_def)
    qed
  qed
qed

end
