(* ===== verification/StringOps.thy ===== *)
theory StringOps
  imports ByteChars
begin

text \<open>
  The string operations of \<open>stubs/strutil.cc\<close> and \<open>strutil.h\<close>: prefixes and suffixes,
  \<open>StripString\<close>, the two substring replacements, splitting and joining. A
  \<open>string::size_type\<close> is a \<open>nat\<close> and \<open>npos\<close> is \<open>None\<close>; the loops whose end depends
  on the pattern are partial functions, whose not returning is \<open>None\<close>.
\<close>

section \<open>The operations of \<open>std::string\<close> the code relies on\<close>

text \<open>\<open>find\<close>: the first position at or after \<open>pos\<close> where the pattern occurs.\<close>

fun find_sub :: "bytes \<Rightarrow> bytes \<Rightarrow> nat option" where
  "find_sub pat [] = (if pat = [] then Some 0 else None)"
| "find_sub pat (x # xs) =
    (if prefix pat (x # xs) then Some 0 else map_option Suc (find_sub pat xs))"

definition string_find :: "bytes \<Rightarrow> bytes \<Rightarrow> nat \<Rightarrow> nat option" where
  "string_find s pat pos =
    (if pos \<le> length s then map_option ((+) pos) (find_sub pat (drop pos s)) else None)"

text \<open>\<open>find_first_of\<close> and \<open>find_first_not_of\<close>: the first position whose byte satisfies a test.\<close>

fun find_index :: "(byte \<Rightarrow> bool) \<Rightarrow> bytes \<Rightarrow> nat option" where
  "find_index P [] = None"
| "find_index P (x # xs) = (if P x then Some 0 else map_option Suc (find_index P xs))"

definition find_first :: "(byte \<Rightarrow> bool) \<Rightarrow> bytes \<Rightarrow> nat \<Rightarrow> nat option" where
  "find_first P s pos = map_option ((+) pos) (find_index P (drop pos s))"

text \<open>\<open>s.substr(pos, n)\<close> and \<open>append(s, pos, n)\<close>.\<close>

definition sub :: "bytes \<Rightarrow> nat \<Rightarrow> nat \<Rightarrow> bytes" where
  "sub s pos n = take n (drop pos s)"

text \<open>\<open>strpbrk(s + pos, set)\<close>: it stops at a \<open>NUL\<close>.\<close>

definition strpbrk :: "bytes \<Rightarrow> nat \<Rightarrow> bytes \<Rightarrow> nat option" where
  "strpbrk s pos accept =
    (case find_first (\<lambda>c. c = 0 \<or> c \<in> set accept) s pos of
       None \<Rightarrow> None
     | Some q \<Rightarrow> if s ! q = 0 then None else Some q)"

lemma find_index_SomeD:
  "find_index P xs = Some i \<Longrightarrow> i < length xs \<and> P (xs ! i) \<and> (\<forall>j<i. \<not> P (xs ! j))"
  by (induction P xs arbitrary: i rule: find_index.induct)
    (auto simp: less_Suc_eq_0_disj split: if_splits)

lemma find_index_NoneD: "find_index P xs = None \<Longrightarrow> \<forall>x\<in>set xs. \<not> P x"
  by (induction P xs rule: find_index.induct) (auto split: if_splits)

text \<open>Where a search stops: the bytes it passed over fail the test, the byte it stops at does not.\<close>

lemma find_first_split:
  assumes "find_first P s pos = Some q"
  obtains ts where "drop pos s = ts @ s ! q # drop (Suc q) s" "q = pos + length ts" "q < length s"
    "\<forall>c\<in>set ts. \<not> P c" "P (s ! q)" "sub s pos (q - pos) = ts"
proof -
  obtain i where i: "find_index P (drop pos s) = Some i" "q = pos + i"
    using assms by (auto simp: find_first_def)
  note found = find_index_SomeD [OF i(1)]
  have q: "q < length s" "drop pos s ! i = s ! q" using found i(2) by auto
  have "drop pos s = take i (drop pos s) @ s ! q # drop (Suc i) (drop pos s)"
    using found q(2) id_take_nth_drop by metis
  moreover have "drop (Suc i) (drop pos s) = drop (Suc q) s" using i(2) by (simp add: add.commute)
  moreover have "\<forall>c\<in>set (take i (drop pos s)). \<not> P c"
    using found by (auto simp: in_set_conv_nth)
  moreover have "length (take i (drop pos s)) = i" using found by simp
  moreover have "sub s pos (q - pos) = take i (drop pos s)" using i(2) by (simp add: sub_def)
  ultimately show ?thesis using that [of "take i (drop pos s)"] found i(2) q by auto
qed

lemma find_first_NoneD: "find_first P s pos = None \<Longrightarrow> \<forall>c\<in>set (drop pos s). \<not> P c"
  by (auto simp: find_first_def dest!: find_index_NoneD)

lemma find_sub_SomeD: "find_sub pat xs = Some i \<Longrightarrow> i + length pat \<le> length xs \<and> prefix pat (drop i xs)"
  by (induction pat xs arbitrary: i rule: find_sub.induct)
    (auto split: if_splits dest: prefix_length_le)

lemma string_find_SomeD:
  "string_find s pat pos = Some i \<Longrightarrow> pos \<le> i \<and> i + length pat \<le> length s"
  using find_sub_SomeD [of pat "drop pos s"] by (fastforce simp: string_find_def split: if_splits)

section \<open>Prefixes and suffixes\<close>

definition HasPrefixString :: "bytes \<Rightarrow> bytes \<Rightarrow> bool" where
  "HasPrefixString str pre \<longleftrightarrow> length str \<ge> length pre \<and> sub str 0 (length pre) = pre"

definition StripPrefixString :: "bytes \<Rightarrow> bytes \<Rightarrow> bytes" where
  "StripPrefixString str pre = (if HasPrefixString str pre then drop (length pre) str else str)"

definition HasSuffixString :: "bytes \<Rightarrow> bytes \<Rightarrow> bool" where
  "HasSuffixString str suf \<longleftrightarrow>
    length str \<ge> length suf \<and> sub str (length str - length suf) (length suf) = suf"

definition StripSuffixString :: "bytes \<Rightarrow> bytes \<Rightarrow> bytes" where
  "StripSuffixString str suf =
    (if HasSuffixString str suf then sub str 0 (length str - length suf) else str)"

lemma HasPrefixString_iff: "HasPrefixString str pre \<longleftrightarrow> (\<exists>rest. str = pre @ rest)"
proof
  assume "HasPrefixString str pre"
  then have "str = pre @ drop (length pre) str"
    unfolding HasPrefixString_def sub_def by (metis append_take_drop_id drop0)
  then show "\<exists>rest. str = pre @ rest" by blast
qed (auto simp: HasPrefixString_def sub_def)

lemma HasSuffixString_iff: "HasSuffixString str suf \<longleftrightarrow> (\<exists>rest. str = rest @ suf)"
proof
  assume "HasSuffixString str suf"
  then have "str = take (length str - length suf) str @ suf"
    unfolding HasSuffixString_def sub_def
    by (metis append_take_drop_id diff_diff_cancel length_drop take_all_iff order_refl)
  then show "\<exists>rest. str = rest @ suf" by blast
qed (auto simp: HasSuffixString_def sub_def)

section \<open>StripString\<close>

function StripString_loop :: "bytes \<Rightarrow> bytes \<Rightarrow> byte \<Rightarrow> nat \<Rightarrow> bytes" where
  "StripString_loop s remove replacewith from =
    (case strpbrk s from remove of
       None \<Rightarrow> s
     | Some q \<Rightarrow> StripString_loop (s[q := replacewith]) remove replacewith (q + 1))"
  by auto

termination
proof (relation "measure (\<lambda>(s, _, _, from). length s - from)")
  fix s remove :: bytes and replacewith :: byte and pos q :: nat
  assume "strpbrk s pos remove = Some q"
  then have "q < length s \<and> pos \<le> q"
    by (auto simp: strpbrk_def find_first_def split: option.splits if_splits
        dest!: find_index_SomeD)
  then show "((s[q := replacewith], remove, replacewith, q + 1), s, remove, replacewith, pos)
      \<in> measure (\<lambda>(s, _, _, from). length s - from)" by auto
qed simp

definition StripString :: "bytes \<Rightarrow> bytes \<Rightarrow> byte \<Rightarrow> bytes" where
  "StripString s remove replacewith = StripString_loop s remove replacewith 0"

declare StripString_loop.simps [simp del]

lemma StripString_loop_spec:
  assumes "from \<le> length s"
  shows "StripString_loop s remove r from =
    take from s @ List.map (\<lambda>c. if c \<in> set remove then r else c) (c_str (drop from s)) @
      dropWhile (\<lambda>c. c \<noteq> 0) (drop from s)"
  using assms
proof (induction s remove r "from" rule: StripString_loop.induct)
  case (1 s remove r "from")
  let ?P = "\<lambda>c. c = 0 \<or> c \<in> set remove"
  let ?f = "\<lambda>c. if c \<in> set remove then r else c"
  show ?case
  proof (cases "find_first ?P s from")
    case None
    have rest: "c_str (drop from s) = drop from s" "dropWhile (\<lambda>c. c \<noteq> 0) (drop from s) = []"
      "List.map ?f (drop from s) = drop from s"
      using find_first_NoneD [OF None] by (auto simp: c_str_def takeWhile_eq_all_conv map_idI)
    show ?thesis unfolding rest using None by (simp add: StripString_loop.simps [of s] strpbrk_def)
  next
    case (Some q)
    then obtain ts where ts: "drop from s = ts @ s ! q # drop (Suc q) s" "q = from + length ts"
      "q < length s" "\<forall>c\<in>set ts. \<not> ?P c" "?P (s ! q)"
      by (rule find_first_split) blast
    have seen: "c_str (ts @ cs) = ts @ c_str cs" "List.map ?f ts = ts"
      "dropWhile (\<lambda>c. c \<noteq> 0) (ts @ cs) = dropWhile (\<lambda>c. c \<noteq> 0) cs" for cs
      using ts(4) by (auto simp: c_str_def map_idI)
    have before: "take q s = take from s @ ts"
      using ts(1,2) by (metis append_eq_conv_conj take_add)
    show ?thesis
    proof (cases "s ! q = 0")
      case True
      have "take from s @ drop from s = s" by simp
      then show ?thesis using Some True ts(1) seen
        by (simp add: StripString_loop.simps [of s] strpbrk_def) (simp add: c_str_def)
    next
      case False
      then have q: "strpbrk s from remove = Some q" "s ! q \<in> set remove"
        using Some ts(5) by (simp_all add: strpbrk_def)
      have "take (q + 1) (s[q := r]) = take q s @ [r]" "drop (q + 1) (s[q := r]) = drop (Suc q) s"
        using ts(3) by (simp_all add: take_Suc_conv_app_nth)
      then show ?thesis
        using 1(1) [OF q(1)] ts(1,3) q seen False before
        by (simp add: StripString_loop.simps [of s]) (simp add: c_str_def)
    qed
  qed
qed

section \<open>Replacing a substring\<close>

partial_function (option) StringReplace_loop ::
  "bytes \<Rightarrow> bytes \<Rightarrow> bytes \<Rightarrow> bool \<Rightarrow> nat \<Rightarrow> bytes \<Rightarrow> (nat \<times> bytes) option" where
  "StringReplace_loop s oldsub newsub replace_all start_pos res =
    (case string_find s oldsub start_pos of
       None \<Rightarrow> Some (start_pos, res)
     | Some pos \<Rightarrow>
         (let res = res @ sub s start_pos (pos - start_pos) @ newsub;
              start_pos = pos + length oldsub
          in if replace_all then StringReplace_loop s oldsub newsub replace_all start_pos res
             else Some (start_pos, res)))"

definition StringReplace_to ::
  "bytes \<Rightarrow> bytes \<Rightarrow> bytes \<Rightarrow> bool \<Rightarrow> bytes \<Rightarrow> bytes option" where
  "StringReplace_to s oldsub newsub replace_all res =
    (if oldsub = [] then Some (res @ s)
     else map_option (\<lambda>(start_pos, res). res @ sub s start_pos (length s - start_pos))
       (StringReplace_loop s oldsub newsub replace_all 0 res))"

definition StringReplace :: "bytes \<Rightarrow> bytes \<Rightarrow> bytes \<Rightarrow> bool \<Rightarrow> bytes option" where
  "StringReplace s oldsub newsub replace_all = StringReplace_to s oldsub newsub replace_all []"

partial_function (option) GlobalReplace_loop ::
  "bytes \<Rightarrow> bytes \<Rightarrow> bytes \<Rightarrow> nat \<Rightarrow> int \<Rightarrow> bytes \<Rightarrow> (nat \<times> int \<times> bytes) option" where
  "GlobalReplace_loop s substring replacement pos num_replacements tmp =
    (case string_find s substring pos of
       None \<Rightarrow> Some (pos, num_replacements, tmp)
     | Some match_pos \<Rightarrow>
         GlobalReplace_loop s substring replacement (match_pos + length substring)
           (num_replacements + 1) (tmp @ sub s pos (match_pos - pos) @ replacement))"

definition GlobalReplaceSubstring :: "bytes \<Rightarrow> bytes \<Rightarrow> bytes \<Rightarrow> (int \<times> bytes) option" where
  "GlobalReplaceSubstring substring replacement s =
    (if s = [] then Some (0, s)
     else map_option (\<lambda>(pos, num_replacements, tmp).
         (num_replacements, tmp @ sub s pos (length s - pos)))
       (GlobalReplace_loop s substring replacement 0 0 []))"

text \<open>
  The specification: scan from the left, and at each occurrence of the pattern copy the replacement
  and go on behind the occurrence. The number of occurrences met this way is the count.
\<close>

function replaced :: "bytes \<Rightarrow> bytes \<Rightarrow> bytes \<Rightarrow> bytes" where
  "replaced old new [] = []"
| "replaced old new (x # xs) =
    (if old \<noteq> [] \<and> prefix old (x # xs) then new @ replaced old new (drop (length old) (x # xs))
     else x # replaced old new xs)"
  by pat_completeness auto

termination
  by (relation "measure (\<lambda>(_, _, s). length s)") auto

function occurrences :: "bytes \<Rightarrow> bytes \<Rightarrow> nat" where
  "occurrences old [] = 0"
| "occurrences old (x # xs) =
    (if old \<noteq> [] \<and> prefix old (x # xs) then Suc (occurrences old (drop (length old) (x # xs)))
     else occurrences old xs)"
  by pat_completeness auto

termination
  by (relation "measure (\<lambda>(_, s). length s)") auto

lemma replaced_none:
  assumes "old \<noteq> []" "find_sub old xs = None"
  shows "replaced old new xs = xs" "occurrences old xs = 0"
  using assms by (induction old xs rule: find_sub.induct) (auto split: if_splits)

lemma replaced_found:
  assumes "old \<noteq> []" "find_sub old xs = Some i"
  shows "replaced old new xs = take i xs @ new @ replaced old new (drop (i + length old) xs)"
    "occurrences old xs = Suc (occurrences old (drop (i + length old) xs))"
  using assms by (induction old xs arbitrary: i rule: find_sub.induct) (auto split: if_splits)

lemma string_find_drop:
  assumes "pos \<le> length s"
  shows "string_find s old pos = None \<Longrightarrow> find_sub old (drop pos s) = None"
    "string_find s old pos = Some q \<Longrightarrow> \<exists>i. q = pos + i \<and> find_sub old (drop pos s) = Some i"
  using assms by (auto simp: string_find_def)

lemma StringReplace_loop_spec:
  assumes "oldsub \<noteq> []" "start \<le> length s"
  shows "\<exists>p t. StringReplace_loop s oldsub newsub True start res = Some (p, t) \<and>
    t @ sub s p (length s - p) = res @ replaced oldsub newsub (drop start s)"
  using assms(2)
proof (induction "length s - start" arbitrary: start res rule: less_induct)
  case less
  show ?case
  proof (cases "string_find s oldsub start")
    case None
    then show ?thesis
      using replaced_none [OF assms(1)] string_find_drop(1) [OF less.prems]
      by (subst StringReplace_loop.simps) (auto simp: sub_def)
  next
    case (Some q)
    obtain i where i: "q = start + i" "find_sub oldsub (drop start s) = Some i"
      using string_find_drop(2) [OF less.prems Some] by blast
    have "0 < length oldsub" using assms(1) by simp
    then have q: "q + length oldsub \<le> length s" "length s - (q + length oldsub) < length s - start"
      using string_find_SomeD [OF Some] by linarith+
    have "drop (i + length oldsub) (drop start s) = drop (q + length oldsub) s"
      using i(1) by (simp add: add_ac)
    then have "replaced oldsub newsub (drop start s) =
        take i (drop start s) @ newsub @ replaced oldsub newsub (drop (q + length oldsub) s)"
      using replaced_found(1) [OF assms(1) i(2)] by metis
    moreover have "sub s start (q - start) = take i (drop start s)" using i(1) by (simp add: sub_def)
    ultimately show ?thesis
      using less.hyps [OF q(2) q(1), of "res @ sub s start (q - start) @ newsub"] Some
      by (subst StringReplace_loop.simps) (auto simp: Let_def)
  qed
qed

lemma GlobalReplace_loop_spec:
  assumes "substring \<noteq> []" "pos \<le> length s"
  shows "\<exists>p t. GlobalReplace_loop s substring replacement pos n tmp =
      Some (p, n + int (occurrences substring (drop pos s)), t) \<and>
    t @ sub s p (length s - p) = tmp @ replaced substring replacement (drop pos s)"
  using assms(2)
proof (induction "length s - pos" arbitrary: pos tmp n rule: less_induct)
  case less
  show ?case
  proof (cases "string_find s substring pos")
    case None
    then show ?thesis
      using replaced_none [OF assms(1)] string_find_drop(1) [OF less.prems]
      by (subst GlobalReplace_loop.simps) (auto simp: sub_def)
  next
    case (Some q)
    obtain i where i: "q = pos + i" "find_sub substring (drop pos s) = Some i"
      using string_find_drop(2) [OF less.prems Some] by blast
    have "0 < length substring" using assms(1) by simp
    then have q: "q + length substring \<le> length s" "length s - (q + length substring) < length s - pos"
      using string_find_SomeD [OF Some] by linarith+
    have rest: "drop (i + length substring) (drop pos s) = drop (q + length substring) s"
      using i(1) by (simp add: add_ac)
    have "replaced substring replacement (drop pos s) = take i (drop pos s) @ replacement @
        replaced substring replacement (drop (q + length substring) s)"
      "occurrences substring (drop pos s) = Suc (occurrences substring (drop (q + length substring) s))"
      using replaced_found [OF assms(1) i(2)] unfolding rest by metis+
    moreover have "sub s pos (q - pos) = take i (drop pos s)" using i(1) by (simp add: sub_def)
    ultimately show ?thesis
      using less.hyps [OF q(2) q(1), of "n + 1" "tmp @ sub s pos (q - pos) @ replacement"] Some
      by (subst GlobalReplace_loop.simps) (auto simp: add_ac)
  qed
qed

text \<open>With an empty pattern every search succeeds where it starts, and the loop never moves.\<close>

lemma GlobalReplace_loop_stuck: "GlobalReplace_loop s [] replacement 0 n tmp = None"
proof (rule ccontr)
  have found: "string_find s [] 0 = Some 0" by (cases s) (simp_all add: string_find_def)
  have stuck: "\<And>r. GlobalReplace_loop s' sb replacement p n tmp = Some r \<Longrightarrow>
      s' = s \<longrightarrow> sb = [] \<longrightarrow> p = 0 \<longrightarrow> False" for s' sb p n tmp
  proof -
    fix r assume "GlobalReplace_loop s' sb replacement p n tmp = Some r"
    then show "s' = s \<longrightarrow> sb = [] \<longrightarrow> p = 0 \<longrightarrow> False"
    proof (rule GlobalReplace_loop.raw_induct [rotated], goal_cases)
      case (1 f s' sb rep p n tmp r)
      show ?case
      proof (intro impI)
        assume at: "s' = s" "sb = []" "p = 0"
        show False using 1(2) 1(1) [of s "[]" rep 0 "n + 1" "tmp @ rep"] found
          unfolding at by (auto simp: sub_def)
      qed
    qed
  qed
  assume "GlobalReplace_loop s [] replacement 0 n tmp \<noteq> None"
  then obtain r where "GlobalReplace_loop s [] replacement 0 n tmp = Some r" by blast
  then show False using stuck by blast
qed

section \<open>Splitting and joining\<close>

text \<open>
  \<open>SplitStringToIteratorUsing\<close>. With a delimiter of one character a pointer runs over the
  string: \<open>split_char\<close> is the outer loop, at a byte, and the inner one takes the run of other
  bytes that starts there. Otherwise positions are searched for.
\<close>

function split_char :: "byte \<Rightarrow> bytes \<Rightarrow> bytes list" where
  "split_char c [] = []"
| "split_char c (p # ps) =
    (if p = c then split_char c ps
     else (p # takeWhile (\<lambda>x. x \<noteq> c) ps) # split_char c (dropWhile (\<lambda>x. x \<noteq> c) ps))"
  by pat_completeness auto

termination
  by (relation "measure (\<lambda>(_, s). length s)") (auto simp: less_Suc_eq_le length_dropWhile_le)

lemma find_first_gt:
  assumes "find_first (\<lambda>c. c \<in> D) s b = Some e" "b < length s" "s ! b \<notin> D"
  shows "b < e \<and> e < length s"
  using assms find_first_split [OF assms(1)]
  by (metis (no_types) find_first_split le_add1 le_neq_implies_less)

function split_any :: "byte set \<Rightarrow> bytes \<Rightarrow> nat \<Rightarrow> bytes list" where
  "split_any D full from =
    (case find_first (\<lambda>c. c \<notin> D) full from of
       None \<Rightarrow> []
     | Some begin_index \<Rightarrow>
         (case find_first (\<lambda>c. c \<in> D) full begin_index of
            None \<Rightarrow> [drop begin_index full]
          | Some end_index \<Rightarrow>
              sub full begin_index (end_index - begin_index) # split_any D full end_index))"
  by auto

termination
proof (relation "measure (\<lambda>(_, full, from). length full - from)")
  fix D and full :: bytes and pos b e :: nat
  assume b: "find_first (\<lambda>c. c \<notin> D) full pos = Some b" and e: "find_first (\<lambda>c. c \<in> D) full b = Some e"
  obtain "pos \<le> b" "b < length full" "full ! b \<notin> D" using find_first_split [OF b] by (metis le_add1)
  then show "((D, full, e), D, full, pos) \<in> measure (\<lambda>(_, full, from). length full - from)"
    using find_first_gt [OF e] by auto
qed simp

declare split_any.simps [simp del]

text \<open>The delimiters are a C string: the bytes before its \<open>NUL\<close>.\<close>

definition SplitStringToIteratorUsing :: "bytes \<Rightarrow> bytes \<Rightarrow> bytes list" where
  "SplitStringToIteratorUsing full delim =
    (case c_str delim of
       [c] \<Rightarrow> split_char c full
     | _ \<Rightarrow> split_any (set (c_str delim)) full 0)"

definition SplitStringUsing :: "bytes \<Rightarrow> bytes \<Rightarrow> bytes list \<Rightarrow> bytes list" where
  "SplitStringUsing full delim result = result @ SplitStringToIteratorUsing full delim"

text \<open>
  The specification: cut the string at every delimiter, and keep the pieces that are not empty.
\<close>

fun pieces :: "byte set \<Rightarrow> bytes \<Rightarrow> bytes list" where
  "pieces D [] = [[]]"
| "pieces D (x # xs) =
    (if x \<in> D then [] # pieces D xs else (x # hd (pieces D xs)) # tl (pieces D xs))"

abbreviation nonempty :: "bytes list \<Rightarrow> bytes list" where
  "nonempty \<equiv> List.filter (\<lambda>w. w \<noteq> [])"

lemma pieces_nonempty [simp]: "pieces D s \<noteq> []"
  by (cases s) auto

lemma pieces_append:
  assumes "\<forall>c\<in>set ts. c \<notin> D"
  shows "pieces D (ts @ cs) = (ts @ hd (pieces D cs)) # tl (pieces D cs)"
  using assms by (induction ts) auto

lemma pieces_run: "\<forall>c\<in>set ts. c \<notin> D \<Longrightarrow> pieces D ts = [ts]"
  using pieces_append [of ts D "[]"] by simp

lemma pieces_delimited:
  "\<forall>c\<in>set ts. c \<notin> D \<Longrightarrow> d \<in> D \<Longrightarrow> pieces D (ts @ d # cs) = ts # pieces D cs"
  by (simp add: pieces_append)

lemma nonempty_pieces_skip:
  "\<forall>c\<in>set ts. c \<in> D \<Longrightarrow> nonempty (pieces D (ts @ cs)) = nonempty (pieces D cs)"
  by (induction ts) auto

lemma split_char_pieces: "split_char c s = nonempty (pieces {c} s)"
proof (induction c s rule: split_char.induct)
  case (2 c p ps)
  show ?case
  proof (cases "p = c")
    case False
    let ?run = "p # takeWhile (\<lambda>x. x \<noteq> c) ps" and ?rest = "dropWhile (\<lambda>x. x \<noteq> c) ps"
    have run: "\<forall>x\<in>set ?run. x \<notin> {c}" using False by (auto dest: set_takeWhileD)
    have "pieces {c} (?run @ ?rest) = (?run @ hd (pieces {c} ?rest)) # tl (pieces {c} ?rest)"
      by (rule pieces_append [OF run])
    moreover have "hd (pieces {c} r) = [] \<and> nonempty (pieces {c} r) = nonempty (tl (pieces {c} r))"
      if "r = [] \<or> (\<exists>q. r = c # q)" for r using that by auto
    moreover have "?rest = [] \<or> (\<exists>r. ?rest = c # r)"
      using hd_dropWhile [of "\<lambda>x. x \<noteq> c" ps] by (cases ?rest) auto
    ultimately show ?thesis using 2(2) [OF False] False by simp
  qed (use 2 in simp)
qed simp

lemma split_any_pieces: "split_any D full from = nonempty (pieces D (drop from full))"
proof (induction D full "from" rule: split_any.induct)
  case (1 D full "from")
  show ?case
  proof (cases "find_first (\<lambda>c. c \<notin> D) full from")
    case None
    then have "\<forall>c\<in>set (drop from full). c \<in> D" using find_first_NoneD by blast
    from nonempty_pieces_skip [OF this, of "[]"] show ?thesis
      using None by (simp add: split_any.simps [of D full])
  next
    case (Some b)
    obtain ts where ts: "drop from full = ts @ full ! b # drop (Suc b) full" "b < length full"
      "\<forall>c\<in>set ts. c \<in> D" "full ! b \<notin> D"
      by (rule find_first_split [OF Some]) blast
    then have skip: "nonempty (pieces D (drop from full)) = nonempty (pieces D (drop b full))"
      using nonempty_pieces_skip [of ts D] by (simp add: Cons_nth_drop_Suc)
    show ?thesis
    proof (cases "find_first (\<lambda>c. c \<in> D) full b")
      case None
      then have "pieces D (drop b full) = [drop b full]"
        by (intro pieces_run) (use find_first_NoneD in blast)
      then show ?thesis using Some None ts(2) skip by (simp add: split_any.simps [of D full])
    next
      case e: (Some e)
      obtain us where us: "drop b full = us @ full ! e # drop (Suc e) full" "e < length full"
        "\<forall>c\<in>set us. c \<notin> D" "full ! e \<in> D" "sub full b (e - b) = us"
        by (rule find_first_split [OF e]) blast
      have "us \<noteq> []" using us(1,4) ts(2,4) by (metis append_Nil hd_drop_conv_nth list.sel(1))
      moreover have "pieces D (drop e full) = [] # pieces D (drop (Suc e) full)"
        using us(2,4) by (simp flip: Cons_nth_drop_Suc)
      moreover have "pieces D (drop b full) = us # pieces D (drop (Suc e) full)"
        unfolding us(1) by (rule pieces_delimited) (use us in auto)
      ultimately show ?thesis
        using 1 [OF Some e] Some e us(5) skip by (simp add: split_any.simps [of D full])
    qed
  qed
qed

text \<open>The two ways of splitting are one.\<close>

lemma split_using_pieces: "SplitStringToIteratorUsing full delim = nonempty (pieces (set (c_str delim)) full)"
  by (auto simp: SplitStringToIteratorUsing_def split_char_pieces split_any_pieces split: list.split)

text \<open>
  \<open>JoinStringsIterator\<close>: the length for \<open>reserve\<close>, and the appends. The delimiter is a C string.
  \<open>length += delim_length\<close> is a sum of \<open>int\<close>s; \<open>length += iter->size()\<close> is one of \<open>size_t\<close>s
  that is converted back. A negative length is more than a string can reserve.
\<close>

fun join_length :: "int \<Rightarrow> bool \<Rightarrow> bytes list \<Rightarrow> int \<Rightarrow> int option" where
  "join_length delim_length first [] len = Some len"
| "join_length delim_length first (x # xs) len = do {
     len \<leftarrow> (if first then Some len else c_int (len + delim_length));
     join_length delim_length False xs (to_int (len + int (length x)))
   }"

fun join_append :: "bytes \<Rightarrow> int \<Rightarrow> bool \<Rightarrow> bytes list \<Rightarrow> bytes \<Rightarrow> bytes option" where
  "join_append delim delim_length first [] result = Some result"
| "join_append delim delim_length first (x # xs) result = do {
     result \<leftarrow> (if first then Some result
               else if delim_length < 0 then None
               else Some (result @ mem_slice delim 0 delim_length));
     join_append delim delim_length False xs (result @ x)
   }"

definition JoinStrings :: "bytes list \<Rightarrow> bytes \<Rightarrow> bytes option" where
  "JoinStrings components delim = do {
     let delim_length = to_int (int (length (c_str delim)));
     len \<leftarrow> join_length delim_length True components 0;
     (if len < 0 then None else join_append (c_str delim) delim_length True components [])
   }"

text \<open>The components with the delimiter between them.\<close>

fun joined :: "bytes \<Rightarrow> bool \<Rightarrow> bytes list \<Rightarrow> bytes" where
  "joined delim first [] = []"
| "joined delim first (x # xs) = (if first then [] else delim) @ x @ joined delim False xs"

lemma join_length:
  assumes "0 \<le> len" "len + int (length (joined delim first xs)) \<le> INT_MAX"
  shows "join_length (int (length delim)) first xs len = Some (len + int (length (joined delim first xs)))"
  using assms
proof (induction delim first xs arbitrary: len rule: joined.induct)
  case (2 delim first x xs)
  let ?len = "if first then len else len + int (length delim)"
  have "is_int32 ?len" "is_int32 (?len + int (length x))" using 2(2,3) by (auto simp: int_bounds)
  moreover have "join_length (int (length delim)) False xs (?len + int (length x)) =
      Some (?len + int (length x) + int (length (joined delim False xs)))"
    using 2(2,3) by (intro 2(1)) auto
  ultimately show ?case by (auto split: if_splits)
qed simp

lemma join_append:
  "join_append delim (int (length delim)) first xs result = Some (result @ joined delim first xs)"
  by (induction delim first xs arbitrary: result rule: joined.induct) (auto simp: mem_slice_def)

text \<open>A joined text that is no longer than an \<open>int\<close> can say is computed without an overflow.\<close>

lemma JoinStrings_joined:
  assumes small: "int (length (joined (c_str delim) True components)) \<le> INT_MAX"
    and delim: "int (length (c_str delim)) \<le> INT_MAX"
  shows "JoinStrings components delim = Some (joined (c_str delim) True components)"
proof -
  have "is_int32 (int (length (c_str delim)))" using delim by (simp add: int_bounds)
  then have "to_int (int (length (c_str delim))) = int (length (c_str delim))" by simp
  then show ?thesis
    using join_length [of 0 "c_str delim" True components] small
    by (simp add: JoinStrings_def join_append)
qed

lemma pieces_join:
  assumes "\<forall>w\<in>set ws. d \<notin> set w" "d \<notin> set w"
  shows "pieces {d} (w @ joined [d] False ws) = w # ws"
  using assms
proof (induction ws arbitrary: w)
  case Nil
  then show ?case using pieces_run [of w "{d}"] by auto
next
  case (Cons v ws)
  moreover have "\<forall>c\<in>set w. c \<notin> {d}" using Cons.prems by auto
  ultimately show ?case using pieces_delimited [of w "{d}" d "v @ joined [d] False ws"] by simp
qed

section \<open>Letter case\<close>

definition LowerString :: "bytes \<Rightarrow> bytes" where
  "LowerString s =
    List.map (\<lambda>c. if between CHR ''A'' CHR ''Z'' c then c + (asc CHR ''a'' - asc CHR ''A'') else c) s"

definition UpperString :: "bytes \<Rightarrow> bytes" where
  "UpperString s =
    List.map (\<lambda>c. if between CHR ''a'' CHR ''z'' c then c + (asc CHR ''A'' - asc CHR ''a'') else c) s"

end
