(* ===== verification/LibcText.thy ===== *)
theory LibcText
  imports ByteChars
begin

text \<open>
  The parts of \<open>stubs/strutil.cc\<close> that correct what the C library does: the adaptors that give
  \<open>strtol\<close> and \<open>strtoul\<close> a 32-bit result, and the conversion of floating-point numbers
  independently of the locale. The C library itself is a parameter: \<open>strtol\<close> and
  \<open>strtoul\<close> return the value, the number of characters read and the \<open>errno\<close> they leave
  (0 if they do not set it); \<open>strtod\<close> the value and the number of characters read; a floating
  type is a type variable.
\<close>

section \<open>strto32 and strtou32\<close>

definition ERANGE :: int where
  "ERANGE = 34"

definition kint32max :: int where
  "kint32max = 0x7FFFFFFF"

definition kint32min :: int where
  "kint32min = - kint32max - 1"

definition kuint32max :: int where
  "kuint32max = 0xFFFFFFFF"

text \<open>\<open>bits\<close> is the width of \<open>long\<close>; a result is the value, the characters read and the
  \<open>errno\<close> after the call.\<close>

definition strto32_adaptor ::
  "nat \<Rightarrow> (bytes \<Rightarrow> int \<Rightarrow> int \<times> nat \<times> int) \<Rightarrow> bytes \<Rightarrow> int \<Rightarrow> int \<Rightarrow> int \<times> nat \<times> int" where
  "strto32_adaptor bits strtol nptr base saved_errno =
    (case strtol nptr base of (result, endptr, errno) \<Rightarrow>
       if errno = ERANGE \<and> result = - (2 ^ (bits - 1)) then (kint32min, endptr, errno)
       else if errno = ERANGE \<and> result = 2 ^ (bits - 1) - 1 then (kint32max, endptr, errno)
       else if errno = 0 \<and> result < kint32min then (kint32min, endptr, ERANGE)
       else if errno = 0 \<and> result > kint32max then (kint32max, endptr, ERANGE)
       else (signed_take_bit 31 result, endptr, if errno = 0 then saved_errno else errno))"

definition strtou32_adaptor ::
  "nat \<Rightarrow> (bytes \<Rightarrow> int \<Rightarrow> int \<times> nat \<times> int) \<Rightarrow> bytes \<Rightarrow> int \<Rightarrow> int \<Rightarrow> int \<times> nat \<times> int" where
  "strtou32_adaptor bits strtoul nptr base saved_errno =
    (case strtoul nptr base of (result, endptr, errno) \<Rightarrow>
       if errno = ERANGE \<and> result = 2 ^ bits - 1 then (kuint32max, endptr, errno)
       else if errno = 0 \<and> result > kuint32max then (kuint32max, endptr, ERANGE)
       else (take_bit 32 result, endptr, if errno = 0 then saved_errno else errno))"

text \<open>
  What the C standard says of \<open>strtol\<close> and \<open>strtoul\<close>, over the number \<open>parse\<close> finds in
  the text: a value outside the type is clamped with \<open>ERANGE\<close>; \<open>strtoul\<close> negates in the
  unsigned type.
\<close>

definition libc_strtol :: "nat \<Rightarrow> (bytes \<Rightarrow> int \<Rightarrow> int \<times> nat) \<Rightarrow> bytes \<Rightarrow> int \<Rightarrow> int \<times> nat \<times> int" where
  "libc_strtol bits parse nptr base =
    (case parse nptr base of (v, n) \<Rightarrow>
       if v < - (2 ^ (bits - 1)) then (- (2 ^ (bits - 1)), n, ERANGE)
       else if v > 2 ^ (bits - 1) - 1 then (2 ^ (bits - 1) - 1, n, ERANGE)
       else (v, n, 0))"

definition libc_strtoul :: "nat \<Rightarrow> (bytes \<Rightarrow> int \<Rightarrow> int \<times> nat) \<Rightarrow> bytes \<Rightarrow> int \<Rightarrow> int \<times> nat \<times> int" where
  "libc_strtoul bits parse nptr base =
    (case parse nptr base of (v, n) \<Rightarrow>
       if \<bar>v\<bar> > 2 ^ bits - 1 then (2 ^ bits - 1, n, ERANGE) else (v mod 2 ^ bits, n, 0))"

lemma int32_casts:
  "kint32min \<le> v \<Longrightarrow> v \<le> kint32max \<Longrightarrow> signed_take_bit 31 v = v"
  "0 \<le> v \<Longrightarrow> v \<le> kuint32max \<Longrightarrow> take_bit 32 v = v"
  by (simp_all add: kint32min_def kint32max_def kuint32max_def signed_take_bit_int_eq_self
      take_bit_int_eq_self)

lemma strto32_clamps:
  assumes "32 \<le> bits"
  shows "strto32_adaptor bits (libc_strtol bits parse) nptr base saved_errno =
    (case parse nptr base of (v, n) \<Rightarrow>
       (max kint32min (min kint32max v), n, if is_int32 v then saved_errno else ERANGE))"
proof -
  have "(2 :: int) ^ 31 \<le> 2 ^ (bits - 1)" using assms by (intro power_increasing) auto
  then show ?thesis
    using int32_casts(1)
    by (auto simp: strto32_adaptor_def libc_strtol_def kint32max_def kint32min_def int_bounds ERANGE_def
        min_def max_def split: prod.split)
qed

lemma strtou32_clamps:
  assumes "32 \<le> bits" "0 \<le> fst (parse nptr base)"
  shows "strtou32_adaptor bits (libc_strtoul bits parse) nptr base saved_errno =
    (case parse nptr base of (v, n) \<Rightarrow>
       (min kuint32max v, n, if v \<le> kuint32max then saved_errno else ERANGE))"
proof -
  have "(2 :: int) ^ 32 \<le> 2 ^ bits" using assms by (intro power_increasing) auto
  then show ?thesis using assms(2) int32_casts(2)
    by (auto simp: strtou32_adaptor_def libc_strtoul_def kuint32max_def ERANGE_def min_def
        split: prod.split)
qed

section \<open>The radix character of the locale\<close>

definition IsValidFloatChar :: "byte \<Rightarrow> bool" where
  "IsValidFloatChar c \<longleftrightarrow> between CHR ''0'' CHR ''9'' c \<or> c = asc CHR ''e'' \<or> c = asc CHR ''E'' \<or>
    c = asc CHR ''+'' \<or> c = asc CHR ''-''"

definition DelocalizeRadix :: "bytes \<Rightarrow> bytes" where
  "DelocalizeRadix buffer =
    (if asc CHR ''.'' \<in> set buffer then buffer
     else
       (let before = takeWhile IsValidFloatChar buffer in
        case dropWhile IsValidFloatChar buffer of
          [] \<Rightarrow> buffer
        | _ # after \<Rightarrow>
            (case after of
               [] \<Rightarrow> before @ [asc CHR ''.'']
             | c # after' \<Rightarrow>
                 if \<not> IsValidFloatChar c
                 then before @ asc CHR ''.'' # dropWhile (\<lambda>c. \<not> IsValidFloatChar c) after'
                 else before @ asc CHR ''.'' # after)))"

text \<open>
  \<open>printed\<close> is what \<open>sprintf(temp, "%.1f", 1.5)\<close> writes; the checks on it end the process.
\<close>

definition LocalizeRadix :: "bytes \<Rightarrow> bytes \<Rightarrow> nat \<Rightarrow> bytes option" where
  "LocalizeRadix printed input radix_pos =
    (let n = length printed in
     if n = 0 \<or> printed ! 0 \<noteq> asc CHR ''1'' \<or> printed ! (n - 1) \<noteq> asc CHR ''5'' \<or> n > 6 then None
     else Some (take radix_pos input @ take (n - 2) (drop 1 printed) @ drop (radix_pos + 1) input))"

definition NoLocaleStrtod :: "(bytes \<Rightarrow> 'd \<times> nat) \<Rightarrow> bytes \<Rightarrow> bytes \<Rightarrow> ('d \<times> int) option" where
  "NoLocaleStrtod strtod printed txt =
    (case strtod txt of (result, temp_end) \<Rightarrow>
       if \<not> (temp_end < length txt \<and> txt ! temp_end = asc CHR ''.'') then Some (result, int temp_end)
       else
         Option.bind (LocalizeRadix printed txt temp_end) (\<lambda>localized.
           case strtod localized of (result, localized_end) \<Rightarrow>
             if localized_end > temp_end then
               (let size_diff = int (length localized) - int (length txt)
                in Some (result, int localized_end - size_diff))
             else Some (result, int temp_end)))"

section \<open>Doubles and floats to text\<close>

text \<open>
  What the conversions use of a floating type: the two infinities and the test for NaN, and the C
  library's \<open>snprintf("%.*g")\<close> and \<open>strtod\<close>/\<open>strtof\<close>, the latter with its \<open>errno\<close>.
\<close>

record 'd float_libc =
  fl_infinity :: 'd
  fl_minus_infinity :: 'd
  fl_is_nan :: "'d \<Rightarrow> bool"
  fl_print :: "nat \<Rightarrow> 'd \<Rightarrow> bytes"
  fl_parse :: "bytes \<Rightarrow> 'd \<times> nat \<times> int"

definition kDoubleToBufferSize :: nat where
  "kDoubleToBufferSize = 32"

definition kFloatToBufferSize :: nat where
  "kFloatToBufferSize = 24"

definition DBL_DIG :: nat where
  "DBL_DIG = 15"

definition FLT_DIG :: nat where
  "FLT_DIG = 6"

text \<open>\<open>snprintf\<close> into a buffer, with the \<open>DCHECK\<close> on its result.\<close>

definition checked_print :: "'d float_libc \<Rightarrow> nat \<Rightarrow> nat \<Rightarrow> 'd \<Rightarrow> bytes option" where
  "checked_print fl n digits v =
    (let t = fl_print fl digits v in if 0 < length t \<and> length t < n then Some t else None)"

definition DoubleToBuffer :: "'d float_libc \<Rightarrow> 'd \<Rightarrow> bytes option" where
  "DoubleToBuffer fl v =
    (if v = fl_infinity fl then Some (cstring ''inf'')
     else if v = fl_minus_infinity fl then Some (cstring ''-inf'')
     else if fl_is_nan fl v then Some (cstring ''nan'')
     else
       Option.bind (checked_print fl kDoubleToBufferSize DBL_DIG v) (\<lambda>buffer.
         if fst (fl_parse fl buffer) \<noteq> v then
           map_option DelocalizeRadix (checked_print fl kDoubleToBufferSize (DBL_DIG + 2) v)
         else Some (DelocalizeRadix buffer)))"

definition safe_strtof :: "'d float_libc \<Rightarrow> bytes \<Rightarrow> 'd option" where
  "safe_strtof fl str =
    (case fl_parse fl str of (v, stop, errno) \<Rightarrow>
       if str \<noteq> [] \<and> stop = length str \<and> errno = 0 then Some v else None)"

definition FloatToBuffer :: "'d float_libc \<Rightarrow> 'd \<Rightarrow> bytes option" where
  "FloatToBuffer fl v =
    (if v = fl_infinity fl then Some (cstring ''inf'')
     else if v = fl_minus_infinity fl then Some (cstring ''-inf'')
     else if fl_is_nan fl v then Some (cstring ''nan'')
     else
       Option.bind (checked_print fl kFloatToBufferSize FLT_DIG v) (\<lambda>buffer.
         if safe_strtof fl buffer \<noteq> Some v then
           map_option DelocalizeRadix (checked_print fl kFloatToBufferSize (FLT_DIG + 2) v)
         else Some (DelocalizeRadix buffer)))"

definition SimpleDtoa :: "'d float_libc \<Rightarrow> 'd \<Rightarrow> bytes option" where
  "SimpleDtoa fl v = DoubleToBuffer fl v"

definition SimpleFtoa :: "'d float_libc \<Rightarrow> 'd \<Rightarrow> bytes option" where
  "SimpleFtoa fl v = FloatToBuffer fl v"

text \<open>
  A locale's radix, of one or more bytes none of which occurs in a C-locale number, is replaced by
  the point.
\<close>

lemma DelocalizeRadix_radix:
  assumes "\<forall>c\<in>set a. IsValidFloatChar c" "\<forall>c\<in>set b. IsValidFloatChar c" "r \<noteq> []"
    "\<forall>c\<in>set r. \<not> IsValidFloatChar c \<and> c \<noteq> asc CHR ''.''"
  shows "DelocalizeRadix (a @ r @ b) = a @ asc CHR ''.'' # b"
proof -
  obtain x xs where r: "r = x # xs" using assms(3) by (cases r) auto
  have dot: "\<not> IsValidFloatChar (asc CHR ''.'')" by (simp add: IsValidFloatChar_def between_def)
  then have none: "asc CHR ''.'' \<notin> set (a @ r @ b)" using assms(1,2,4) by auto
  have split_: "takeWhile IsValidFloatChar (a @ r @ b) = a" "dropWhile IsValidFloatChar (a @ r @ b) = x # xs @ b"
    using assms(1,4) r by (simp_all add: takeWhile_append dropWhile_append)
  have skip: "dropWhile (\<lambda>c. \<not> IsValidFloatChar c) (xs @ b) = b"
    using assms(2,4) r by (cases b) (auto simp: dropWhile_append)
  show ?thesis
  proof (cases "xs @ b")
    case Nil
    then show ?thesis using none split_ by (simp add: DelocalizeRadix_def Let_def del: asc_Char)
  next
    case (Cons c cs)
    show ?thesis
    proof (cases "IsValidFloatChar c")
      case True
      then have "xs @ b = b" using skip Cons by simp
      then have "xs = []" "b = c # cs" using Cons by auto
      then show ?thesis using none split_ True
        by (simp add: DelocalizeRadix_def Let_def del: asc_Char)
    next
      case False
      then have "dropWhile (\<lambda>c. \<not> IsValidFloatChar c) cs = b" using skip Cons by simp
      then show ?thesis using none split_ False Cons by (simp add: DelocalizeRadix_def Let_def del: asc_Char)
    qed
  qed
qed

text \<open>
  A foreign locale, as \<open>strtod\<close> documents it. The number reader of the C locale is \<open>c_strtod\<close>;
  the locale reads its own radix \<open>r\<close> where the C locale reads the point, and stops at a point.
\<close>

definition foreign_strtod ::
  "(bytes \<Rightarrow> 'd \<times> nat) \<Rightarrow> (bytes \<Rightarrow> 'd \<times> nat) \<Rightarrow> bytes \<Rightarrow> bytes \<Rightarrow> bytes \<Rightarrow> bool" where
  "foreign_strtod strtod c_strtod r a b \<longleftrightarrow>
    snd (strtod (a @ asc CHR ''.'' # b)) = length a \<and>
    (case c_strtod (a @ asc CHR ''.'' # b) of (v, n) \<Rightarrow>
       length a < n \<and> strtod (a @ r @ b) = (v, n - 1 + length r))"

lemma NoLocaleStrtod_foreign:
  assumes "foreign_strtod strtod c_strtod r a b" "r \<noteq> []" "length r \<le> 4"
  shows "NoLocaleStrtod strtod (asc CHR ''1'' # r @ [asc CHR ''5'']) (a @ asc CHR ''.'' # b) =
    (case c_strtod (a @ asc CHR ''.'' # b) of (v, n) \<Rightarrow> Some (v, int n))"
proof -
  obtain v n where vn: "c_strtod (a @ asc CHR ''.'' # b) = (v, n)" by force
  have f: "snd (strtod (a @ asc CHR ''.'' # b)) = length a" "length a < n"
    "strtod (a @ r @ b) = (v, n - 1 + length r)"
    using assms(1) vn by (simp_all add: foreign_strtod_def)
  have "LocalizeRadix (asc CHR ''1'' # r @ [asc CHR ''5'']) (a @ asc CHR ''.'' # b) (length a) =
      Some (a @ r @ b)"
    using assms(3) by (simp add: LocalizeRadix_def nth_append Let_def)
  moreover have "length a < n + length r - Suc 0" "Suc 0 \<le> length r"
    using f(2) assms(2) by (cases r, simp_all)+
  ultimately show ?thesis
    using f vn
    by (simp add: NoLocaleStrtod_def Let_def prod.case_eq_if of_nat_diff del: asc_Char)
qed

end
