(* ===== verification/TokenText.thy ===== *)
theory TokenText
  imports NumberText LibcText
begin

text \<open>
  The character classes of \<open>io/tokenizer.cc\<close> and the static functions that turn the text of a
  token into a value: \<open>ParseInteger\<close>, \<open>ParseFloat\<close> and \<open>ParseString\<close>. A text is read
  as the C string it is. A \<open>DFATAL\<close> ends the process, as in a debug build.
\<close>

unbundle bit_operations_syntax

section \<open>Character classes\<close>

type_synonym char_class = "byte \<Rightarrow> bool"

definition Whitespace :: char_class where
  "Whitespace c \<longleftrightarrow> c = asc CHR '' '' \<or> c = 10 \<or> c = 9 \<or> c = 13 \<or> c = 11"

text \<open>\<open>char\<close> is signed: the bytes of 128 and above are negative, hence below the space.\<close>

definition Unprintable :: char_class where
  "Unprintable c \<longleftrightarrow> sint c < sint (asc CHR '' '') \<and> c \<noteq> 0"

definition Digit :: char_class where
  "Digit c \<longleftrightarrow> between CHR ''0'' CHR ''9'' c"

definition OctalDigit :: char_class where
  "OctalDigit c \<longleftrightarrow> between CHR ''0'' CHR ''7'' c"

definition HexDigit :: char_class where
  "HexDigit c \<longleftrightarrow> between CHR ''0'' CHR ''9'' c \<or> between CHR ''a'' CHR ''f'' c \<or>
    between CHR ''A'' CHR ''F'' c"

definition Letter :: char_class where
  "Letter c \<longleftrightarrow> between CHR ''a'' CHR ''z'' c \<or> between CHR ''A'' CHR ''Z'' c \<or> c = asc CHR ''_''"

definition Alphanumeric :: char_class where
  "Alphanumeric c \<longleftrightarrow> between CHR ''a'' CHR ''z'' c \<or> between CHR ''A'' CHR ''Z'' c \<or>
    between CHR ''0'' CHR ''9'' c \<or> c = asc CHR ''_''"

definition Escape :: char_class where
  "Escape c \<longleftrightarrow> c \<in> set (cstring ''abfnrtv'' @ [asc CHR 0x5C, asc CHR ''?'', asc CHR 0x27, asc CHR 0x22])"

lemmas [char_classes] = Whitespace_def Unprintable_def Digit_def OctalDigit_def HexDigit_def Letter_def
  Alphanumeric_def Escape_def

text \<open>No class contains the byte that marks the end of the input.\<close>

lemma classes_no_nul:
  "\<not> Whitespace 0" "\<not> Unprintable 0" "\<not> Digit 0" "\<not> OctalDigit 0" "\<not> HexDigit 0" "\<not> Letter 0"
  "\<not> Alphanumeric 0" "\<not> Escape 0"
  by (simp_all add: char_classes)

section \<open>Integers\<close>

definition DigitValue :: "byte \<Rightarrow> int" where
  "DigitValue d =
    (if between CHR ''0'' CHR ''9'' d then uint d - uint (asc CHR ''0'')
     else if between CHR ''a'' CHR ''z'' d then uint d - uint (asc CHR ''a'') + 10
     else if between CHR ''A'' CHR ''Z'' d then uint d - uint (asc CHR ''A'') + 10
     else -1)"

text \<open>
  The result of a call is the process ended (\<open>None\<close>), the failure (\<open>Some None\<close>) or a value.
\<close>

fun parse_integer_loop :: "int \<Rightarrow> uint64 \<Rightarrow> uint64 \<Rightarrow> bytes \<Rightarrow> uint64 option option" where
  "parse_integer_loop base max_value result [] = Some (Some result)"
| "parse_integer_loop base max_value result (c # ptr) =
    (let digit = DigitValue c in
     if digit < 0 \<or> digit \<ge> base then None
     else if word_of_int digit > max_value \<or>
        result > (max_value - word_of_int digit) div word_of_int base then Some None
     else parse_integer_loop base max_value (result * word_of_int base + word_of_int digit) ptr)"

definition ParseInteger :: "bytes \<Rightarrow> uint64 \<Rightarrow> uint64 option option" where
  "ParseInteger txt max_value =
    (case c_str txt of
       c # d # ptr \<Rightarrow>
         if c = asc CHR ''0'' then
           if d = asc CHR ''x'' then parse_integer_loop 16 max_value 0 ptr
           else parse_integer_loop 8 max_value 0 (c # d # ptr)
         else parse_integer_loop 10 max_value 0 (c # d # ptr)
     | [c] \<Rightarrow> parse_integer_loop (if c = asc CHR ''0'' then 8 else 10) max_value 0 [c]
     | [] \<Rightarrow> parse_integer_loop 10 max_value 0 [])"

text \<open>The number a text of digits denotes.\<close>

definition digits_value :: "int \<Rightarrow> int \<Rightarrow> bytes \<Rightarrow> int" where
  "digits_value base acc cs = foldl (\<lambda>v c. v * base + DigitValue c) acc cs"

definition digits_in :: "int \<Rightarrow> bytes \<Rightarrow> bool" where
  "digits_in base cs \<longleftrightarrow> (\<forall>c\<in>set cs. 0 \<le> DigitValue c \<and> DigitValue c < base)"

lemma digits_value_Cons [simp]:
  "digits_value base acc [] = acc"
  "digits_value base acc (c # cs) = digits_value base (acc * base + DigitValue c) cs"
  by (simp_all add: digits_value_def)

lemma digits_value_append:
  "digits_value base acc (cs @ ds) = digits_value base (digits_value base acc cs) ds"
  by (simp add: digits_value_def)

lemma digits_value_ge:
  "digits_in base cs \<Longrightarrow> 1 \<le> base \<Longrightarrow> 0 \<le> acc \<Longrightarrow> acc \<le> digits_value base acc cs"
proof (induction cs arbitrary: acc)
  case (Cons c cs)
  have c: "0 \<le> DigitValue c" using Cons.prems(1) by (simp add: digits_in_def)
  have "acc * 1 \<le> acc * base" using Cons.prems(2,3) by (intro mult_left_mono) auto
  then have "acc \<le> acc * base + DigitValue c" using c by linarith
  moreover have "digits_in base cs" using Cons.prems(1) by (simp add: digits_in_def)
  ultimately show ?case using Cons.IH [of "acc * base + DigitValue c"] Cons.prems by simp
qed simp

text \<open>
  The two overflow tests together are the exact one: they fail precisely when the value with this
  digit exceeds the maximum.
\<close>

lemma div_less_int:
  fixes x y b :: int
  assumes "0 < b"
  shows "x div b < y \<longleftrightarrow> x < y * b"
proof
  assume "x div b < y"
  then have "(x div b + 1) * b \<le> y * b" using assms by (intro mult_right_mono) auto
  then have "x div b * b + b \<le> y * b" by (simp only: distrib_right mult_1)
  moreover have "x mod b < b" using assms by simp
  ultimately show "x < y * b"
    using div_mult_mod_eq [of x b] by linarith
next
  assume less: "x < y * b"
  show "x div b < y"
  proof (rule ccontr)
    assume "\<not> x div b < y"
    then have "y * b \<le> x div b * b" using assms by (intro mult_right_mono) auto
    moreover have "0 \<le> x mod b" using assms by simp
    ultimately show False using less div_mult_mod_eq [of x b] by linarith
  qed
qed

lemma overflow_test:
  fixes m r :: uint64
  assumes "0 \<le> d" "d < base" "1 \<le> base" "base \<le> 36" "uint r \<le> uint m"
  shows "word_of_int d > m \<or> r > (m - word_of_int d) div word_of_int base \<longleftrightarrow>
      uint m < uint r * base + d"
    "uint r * base + d \<le> uint m \<Longrightarrow> uint (r * word_of_int base + word_of_int d) = uint r * base + d"
proof -
  have d: "uint (word_of_int d :: uint64) = d" and b: "uint (word_of_int base :: uint64) = base"
    using assms by (auto simp: uint_word_of_int)
  have m: "uint m < 2 ^ 64" using uint_bounded [of m] by simp
  show "word_of_int d > m \<or> r > (m - word_of_int d) div word_of_int base \<longleftrightarrow>
      uint m < uint r * base + d"
  proof (cases "d > uint m")
    case True
    have "0 \<le> uint r * base" using assms(3) by simp
    then show ?thesis using True by (simp add: word_less_alt d)
  next
    case False
    then have s: "uint (m - word_of_int d) = uint m - d"
      using d by (simp add: uint_sub_if')
    have "uint ((m - word_of_int d) div word_of_int base) = (uint m - d) div base"
      by (simp add: uint_div s b)
    moreover have "(uint m - d) div base < uint r \<longleftrightarrow> uint m - d < uint r * base"
      using assms(3) by (simp add: div_less_int)
    ultimately show ?thesis using False by (simp add: word_less_alt d diff_less_eq)
  qed
  show "uint r * base + d \<le> uint m \<Longrightarrow> uint (r * word_of_int base + word_of_int d) = uint r * base + d"
    using m assms(1,3) by (simp add: uint_word_ariths d b mod_simps)
qed

lemma parse_integer_loop_value:
  assumes "digits_in base cs" "1 \<le> base" "base \<le> 36" "uint result \<le> uint max_value"
  shows "parse_integer_loop base max_value result cs =
    Some (if digits_value base (uint result) cs \<le> uint max_value
      then Some (word_of_int (digits_value base (uint result) cs)) else None)"
  using assms(1,4)
proof (induction cs arbitrary: result)
  case (Cons c cs)
  let ?d = "DigitValue c" and ?r = "result * word_of_int base + word_of_int (DigitValue c)"
  have c: "0 \<le> ?d" "?d < base" and cs: "digits_in base cs" using Cons.prems(1) by (auto simp: digits_in_def)
  note test = overflow_test [OF c assms(2,3) Cons.prems(2)]
  show ?case
  proof (cases "uint result * base + ?d \<le> uint max_value")
    case True
    then show ?thesis
      using Cons.IH [OF cs, of ?r] test c by (simp add: Let_def)
  next
    case False
    have "0 \<le> uint result * base + ?d" using assms(2) c(1) by simp
    then have "uint result * base + ?d \<le> digits_value base (uint result * base + ?d) cs"
      by (rule digits_value_ge [OF cs assms(2)])
    then show ?thesis using False test(1) c by (simp add: Let_def)
  qed
qed simp

text \<open>The base and the digits of an integer token, by its first characters.\<close>

definition integer_base :: "bytes \<Rightarrow> int \<times> bytes" where
  "integer_base txt =
    (if take 2 txt = cstring ''0x'' then (16, drop 2 txt)
     else if take 1 txt = cstring ''0'' then (8, txt) else (10, txt))"

lemma ParseInteger_value:
  assumes "0 \<notin> set txt" "integer_base txt = (base, ds)" "digits_in base ds"
  shows "ParseInteger txt max_value =
    Some (if digits_value base 0 ds \<le> uint max_value then Some (word_of_int (digits_value base 0 ds))
      else None)"
proof -
  have "ParseInteger txt max_value = parse_integer_loop base max_value 0 ds"
    using assms(1,2) c_str_id [of "txt"]
    by (auto simp: ParseInteger_def integer_base_def split: list.splits if_splits)
  moreover have "1 \<le> base" "base \<le> 36" using assms(2) by (auto simp: integer_base_def split: if_splits)
  ultimately show ?thesis using parse_integer_loop_value [OF assms(3), of 0 max_value] by simp
qed

text \<open>A decimal text denotes the number it was made from.\<close>

lemma DigitValue_digit: "d < 10 \<Longrightarrow> DigitValue (digit d) = int d"
proof -
  assume "d < 10"
  then have "d \<in> {0, 1, 2, 3, 4, 5, 6, 7, 8, 9}" by simp presburger
  then show ?thesis
    by (elim insertE emptyE) (simp_all add: digit_def hex_digit_def DigitValue_def between_def)
qed

lemma digits_value_decimal: "digits_value 10 0 (decimal n) = int n"
proof (induction n rule: less_induct)
  case (less n)
  show ?case
  proof (cases "n < 10")
    case True
    then show ?thesis by (simp add: text_in.simps DigitValue_digit)
  next
    case False
    then have "decimal n = decimal (n div 10) @ [digit (n mod 10)]" by (subst text_in.simps) simp
    then show ?thesis using less.IH [of "n div 10"] False
      by (simp add: digits_value_append DigitValue_digit) presburger
  qed
qed

lemma digits_in_decimal: "digits_in 10 (decimal n)"
  using text_in_digits [of 10 _ n] DigitValue_digit by (force simp: digits_in_def)

lemma decimal_head: "0 < n \<Longrightarrow> hd (decimal n) \<noteq> asc CHR ''0''"
proof (induction n rule: less_induct)
  case (less n)
  show ?case
  proof (cases "n < 10")
    case True
    then show ?thesis using less.prems DigitValue_digit [of n]
      by (auto simp: text_in.simps DigitValue_def between_def)
  next
    case False
    then have "decimal n = decimal (n div 10) @ [digit (n mod 10)]" by (subst text_in.simps) simp
    moreover have "decimal (n div 10) \<noteq> []" by (subst text_in.simps) simp
    ultimately show ?thesis using less.IH [of "n div 10"] False by (simp add: div_greater_zero_iff)
  qed
qed

lemma ParseInteger_decimal:
  "ParseInteger (decimal n) max_value =
    Some (if n \<le> unat max_value then Some (word_of_nat n) else None)"
proof (cases "n = 0")
  case True
  have "decimal 0 = [48]" by (simp add: text_in.simps digit_def hex_digit_def)
  then show ?thesis using True by (simp add: ParseInteger_def c_str_def DigitValue_def between_def)
next
  case False
  have "decimal n \<noteq> []" by (subst text_in.simps) simp
  then have "integer_base (decimal n) = (10, decimal n)"
    using decimal_head [of n] False by (cases "decimal n") (auto simp: integer_base_def)
  then show ?thesis
    using ParseInteger_value [OF decimal_no_nul _ digits_in_decimal, of n n max_value]
      of_nat_le_iff [of n "unat max_value", where 'a = int]
    by (simp add: digits_value_decimal)
qed

section \<open>Floating-point numbers\<close>

text \<open>The character of a C string at an index: its \<open>NUL\<close> follows the last one.\<close>

definition char_at :: "bytes \<Rightarrow> int \<Rightarrow> byte" where
  "char_at s i = (if 0 \<le> i \<and> i < int (length s) then s ! nat i else 0)"

definition ParseFloat :: "(bytes \<Rightarrow> 'd \<times> nat) \<Rightarrow> bytes \<Rightarrow> bytes \<Rightarrow> 'd option" where
  "ParseFloat strtod printed txt =
    (let start = c_str txt in
     Option.bind (NoLocaleStrtod strtod printed start) (\<lambda>(result, stop).
       let stop = (if char_at start stop = asc CHR ''e'' \<or> char_at start stop = asc CHR ''E'' then
             (if char_at start (stop + 1) = asc CHR ''-'' \<or> char_at start (stop + 1) = asc CHR ''+''
              then stop + 2 else stop + 1)
           else stop);
           stop = (if char_at start stop = asc CHR ''f'' \<or> char_at start stop = asc CHR ''F''
             then stop + 1 else stop)
       in if stop \<noteq> int (length txt) \<or> char_at start 0 = asc CHR ''-'' then None else Some result))"

section \<open>Strings\<close>

definition TranslateEscape :: "byte \<Rightarrow> byte" where
  "TranslateEscape c =
    (if c = asc CHR ''a'' then 7
     else if c = asc CHR ''b'' then 8
     else if c = asc CHR ''f'' then 12
     else if c = asc CHR ''n'' then 10
     else if c = asc CHR ''r'' then 13
     else if c = asc CHR ''t'' then 9
     else if c = asc CHR ''v'' then 11
     else if c = asc CHR 0x5C then asc CHR 0x5C
     else if c = asc CHR ''?'' then asc CHR ''?''
     else if c = asc CHR 0x27 then asc CHR 0x27
     else if c = asc CHR 0x22 then asc CHR 0x22
     else asc CHR ''?'')"

text \<open>One more digit of a numeric escape, if the next character is in the class.\<close>

definition more_digit :: "char_class \<Rightarrow> int \<Rightarrow> int \<times> bytes \<Rightarrow> int \<times> bytes" where
  "more_digit P base s = (case s of (code, ptr) \<Rightarrow>
    (case ptr of
       [] \<Rightarrow> (code, ptr)
     | c # ptr' \<Rightarrow> if P c then (code * base + DigitValue c, ptr') else (code, ptr)))"

text \<open>An escape sequence from the character after the backslash on: its byte, and the rest.\<close>

definition parse_escape :: "byte \<Rightarrow> bytes \<Rightarrow> byte \<times> bytes" where
  "parse_escape c ptr =
    (if OctalDigit c then
       (case more_digit OctalDigit 8 (more_digit OctalDigit 8 (DigitValue c, ptr)) of
          (code, ptr') \<Rightarrow> (word_of_int code, ptr'))
     else if c = asc CHR ''x'' then
       (case more_digit HexDigit 16 (more_digit HexDigit 16 (0, ptr)) of
          (code, ptr') \<Rightarrow> (word_of_int code, ptr'))
     else (TranslateEscape c, ptr))"

lemma length_more_digit: "length (snd (more_digit P base s)) \<le> length (snd s)"
  by (auto simp: more_digit_def split: prod.split list.split)

lemma length_parse_escape: "length (snd (parse_escape c ptr)) \<le> length ptr"
  using length_more_digit [of OctalDigit 8 "(DigitValue c, ptr)"]
    length_more_digit [of OctalDigit 8 "more_digit OctalDigit 8 (DigitValue c, ptr)"]
    length_more_digit [of HexDigit 16 "(0, ptr)"]
    length_more_digit [of HexDigit 16 "more_digit HexDigit 16 (0, ptr)"]
  by (auto simp: parse_escape_def split: prod.split)

function parse_string_loop :: "byte \<Rightarrow> bytes \<Rightarrow> bytes" where
  "parse_string_loop quote [] = []"
| "parse_string_loop quote (c # ptr) =
    (if c = asc CHR 0x5C \<and> ptr \<noteq> [] then
       fst (parse_escape (hd ptr) (tl ptr)) # parse_string_loop quote (snd (parse_escape (hd ptr) (tl ptr)))
     else if c = quote then parse_string_loop quote ptr
     else c # parse_string_loop quote ptr)"
  by pat_completeness auto

termination
proof (relation "measure (\<lambda>(_, ptr). length ptr)")
  fix quote c :: byte and ptr :: bytes
  assume "c = asc CHR 0x5C \<and> ptr \<noteq> []"
  then have "length (tl ptr) < length ptr" by (cases ptr) auto
  then show "((quote, snd (parse_escape (hd ptr) (tl ptr))), quote, c # ptr)
      \<in> measure (\<lambda>(_, ptr). length ptr)"
    using length_parse_escape [of "hd ptr" "tl ptr"] by simp
qed auto

definition ParseString :: "bytes \<Rightarrow> bytes option" where
  "ParseString txt =
    (case txt of
       [] \<Rightarrow> None
     | q # ptr \<Rightarrow> Some (parse_string_loop q (c_str ptr)))"

text \<open>The literal that \<open>CEscape\<close> makes of a string is read back as that string.\<close>

lemma parse_short:
  "short_escape c = Some e \<Longrightarrow> parse_escape e cs = (c, cs)"
  by (auto simp: short_escape_def parse_escape_def TranslateEscape_def OctalDigit_def between_def
      split: if_splits)

lemma octal_value: "x < 8 \<Longrightarrow> OctalDigit (48 + x) \<and> DigitValue (48 + x) = uint x" for x :: byte
proof -
  assume "x < 8"
  then have "unat x < 8" by (simp add: word_less_nat_alt)
  then have "unat x \<in> {0, 1, 2, 3, 4, 5, 6, 7}" by auto
  then have "x \<in> {0, 1, 2, 3, 4, 5, 6, 7}" by (simp add: word_unat_eq_iff)
  then show ?thesis
    by (elim insertE emptyE) (simp_all add: OctalDigit_def DigitValue_def between_def)
qed

lemma parse_octal:
  "parse_string_loop quote (octal_escape c @ cs) = c # parse_string_loop quote cs"
proof -
  let ?a = "drop_bit 6 c" and ?b = "drop_bit 3 c AND 7" and ?d = "c AND 7"
  have v: "OctalDigit (48 + ?a) \<and> DigitValue (48 + ?a) = uint ?a"
    "OctalDigit (48 + ?b) \<and> DigitValue (48 + ?b) = uint ?b"
    "OctalDigit (48 + ?d) \<and> DigitValue (48 + ?d) = uint ?d"
    by (intro octal_value octal_parts)+
  have "word_of_int ((uint ?a * 8 + uint ?b) * 8 + uint ?d) = (?a * 8 + ?b) * 8 + ?d" by simp
  then have "parse_escape (48 + ?a) ((48 + ?b) # (48 + ?d) # cs) = (c, cs)"
    using v octal_parts(4) [of c] by (simp add: parse_escape_def more_digit_def)
  then show ?thesis by (simp add: octal_escape_def)
qed

lemma parse_escaped:
  assumes "quote = asc CHR 0x22 \<or> quote = asc CHR 0x27"
  shows "parse_string_loop quote (escaped False after_hex src @ [quote]) = src"
proof (induction src arbitrary: after_hex)
  case Nil
  then show ?case using assms by auto
next
  case (Cons c src)
  show ?case
  proof (cases "short_escape c")
    case (Some e)
    then show ?thesis using Cons.IH by (simp add: parse_short)
  next
    case None
    then have "c \<noteq> 0x5C" "c \<noteq> quote" using assms by (auto simp: short_escape_def)
    then show ?thesis using None Cons.IH parse_octal [of quote c] by simp
  qed
qed

lemma ParseString_escaped:
  assumes "quote = asc CHR 0x22 \<or> quote = asc CHR 0x27"
  shows "ParseString (quote # escaped False False src @ [quote]) = Some src"
proof -
  have "0 \<notin> set (escaped False False src @ [quote])"
    using assms escaped_no_nul [of False src] by auto
  then have "c_str (escaped False False src @ [quote]) = escaped False False src @ [quote]"
    by (rule c_str_id)
  then show ?thesis using parse_escaped [OF assms] by (simp add: ParseString_def)
qed

end
