(* ===== verification/TextProperties.thy ===== *)
theory TextProperties
  imports SubstituteText StringOps TokenText
begin

text \<open>
  The properties of the text library: escaping and its buffer, numbers as text, replacing, splitting
  and joining, \<open>Substitute\<close>, and what is made independent of the platform and its locale.
\<close>

section \<open>Escaping\<close>

text \<open>C27: What \<open>CEscape\<close> makes of a string of up to 536870911 bytes (so that the size of its buffer,
  four times that and one, is an \<open>int\<close>) is printable, is turned back into that string by
  \<open>UnescapeCEscapeString\<close>, and between quotes of either kind is a string literal that
  \<open>Tokenizer::ParseString\<close> reads as that string. The content of the fresh buffer does not matter.\<close>

theorem CEscape_round_trip:
  assumes "\<And>n. length (heap n) = n" "int (length src) * 4 + 1 \<le> INT_MAX"
  shows "\<exists>t. CEscape heap src = Some t \<and> list_all isprint t \<and> UnescapeCEscapeString t = src \<and>
    ParseString (asc CHR 0x22 # t @ [asc CHR 0x22]) = Some src \<and>
    ParseString (asc CHR 0x27 # t @ [asc CHR 0x27]) = Some src"
proof (intro exI conjI)
  show "CEscape heap src = Some (escaped False False src)" by (rule CEscape_text [OF assms])
  show "list_all isprint (escaped False False src)" by (rule escaped_printable)
  show "UnescapeCEscapeString (escaped False False src) = src"
    by (simp add: UnescapeCEscapeString_def c_str_id escaped_no_nul unescape_escaped)
qed (rule ParseString_escaped; simp)+

theorem CEscape_round_trip_witness:
  "\<exists>t. CEscape (\<lambda>n. replicate n 170) [0, 10, 65, 200] = Some t \<and> UnescapeCEscapeString t = [0, 10, 65, 200]"
  using CEscape_round_trip [of "\<lambda>n. replicate n 170" "[0, 10, 65, 200]"] by (auto simp: INT_MAX_def)

lemma store_atI: "0 \<le> p \<Longrightarrow> p + int (length d) \<le> int (length mem) \<Longrightarrow>
    \<exists>mem'. store_at mem p d = Some mem' \<and> length mem' = length mem"
  by (auto simp: store_at_def)

lemma CEscape_loop_inside:
  assumes "dest_len < int (length dest)" "0 \<le> used"
  shows "CEscape_loop src dest_len use_hex dest used h \<noteq> None"
  using assms
proof (induction src dest_len use_hex dest used h rule: CEscape_loop.induct)
  case (1 dest_len use_hex dest used h)
  then show ?case using store_atI [of used "[0]" dest] by auto
next
  case (2 c src dest_len use_hex dest used h)
  show ?case
  proof (cases "dest_len - used < 2")
    case room: False
    note IH = 2(1-3) [OF room]
    show ?thesis
    proof (cases "short_escape c")
      case (Some e)
      then show ?thesis
        using room IH(3) [OF Some] 2(4,5) store_atI [of used "[asc CHR 0x5C, e]" dest] by fastforce
    next
      case None
      show ?thesis
      proof (cases "\<not> isprint c \<or> h \<and> isxdigit c")
        case True
        let ?d = "(if use_hex then hex_escape c else octal_escape c) @ [0]"
        show ?thesis
        proof (cases "dest_len - used < 4")
          case False
          then obtain mem where "store_at dest used ?d = Some mem" "length mem = length dest"
            using 2(4,5) store_atI [of used ?d dest] by auto
          then show ?thesis using IH(1) [OF None True False, of mem] 2(4,5) None True False room by simp
        qed (use None True room in simp)
      next
        case False
        obtain mem where "store_at dest used [c] = Some mem" "length mem = length dest"
          using 2(4,5) room store_atI [of used "[c]" dest] by auto
        moreover have "CEscape_loop (c # src) dest_len use_hex dest used h =
            Option.bind (store_at dest used [c])
              (\<lambda>dest. CEscape_loop src dest_len use_hex dest (used + 1) False)"
          by (simp only: CEscape_loop.simps None False room option.case if_False)
        ultimately show ?thesis using IH(2) [OF None False, of mem] 2(4,5) by simp
      qed
    qed
  qed simp
qed

lemma CEscape_loop_last_escape:
  assumes "used + int (length (escaped False False pre)) + 4 = int (length dest)" "0 \<le> used"
    "short_escape c = None" "\<not> isprint c"
  shows "CEscape_loop (pre @ c # rest) (int (length dest)) False dest used False = None"
  using assms
proof (induction pre arbitrary: dest used)
  case Nil
  then show ?case by (simp add: store_at_def)
next
  case (Cons x pre)
  show ?case
  proof (cases "short_escape x")
    case (Some e)
    then obtain mem where "store_at dest used [asc CHR 0x5C, e] = Some mem" "length mem = length dest"
      using Cons.prems(1,2) store_atI [of used "[asc CHR 0x5C, e]" dest] by auto
    then show ?thesis using Cons.IH [of "used + 2" mem] Cons.prems Some by simp
  next
    case None
    show ?thesis
    proof (cases "isprint x")
      case False
      then obtain mem where "store_at dest used (octal_escape x @ [0]) = Some mem" "length mem = length dest"
        using Cons.prems(1,2) None store_atI [of used "octal_escape x @ [0]" dest] by auto
      then show ?thesis using Cons.IH [of "used + 4" mem] Cons.prems None False by simp
    next
      case True
      then obtain mem where "store_at dest used [x] = Some mem" "length mem = length dest"
        using Cons.prems(1,2) None store_atI [of used "[x]" dest] by auto
      then show ?thesis using Cons.IH [of "used + 1" mem] Cons.prems None True by simp
    qed
  qed
qed

text \<open>C28: A buffer of one byte more than the \<open>dest_len\<close> it is given is never overrun by
  \<open>CEscapeString\<close>. One of exactly \<open>dest_len\<close> bytes is, as soon as a character that needs an
  octal escape finds exactly four bytes left: \<open>sprintf\<close> writes its \<open>NUL\<close> behind them.\<close>

theorem CEscapeString_overrun:
  shows "(dest_len < int (length dest) \<longrightarrow> CEscapeString src dest dest_len \<noteq> None) \<and>
    (short_escape c = None \<and> \<not> isprint c \<and>
      int (length (escaped False False pre)) + 4 = int (length dest) \<longrightarrow>
      CEscapeString (pre @ c # rest) dest (int (length dest)) = None)"
  using CEscape_loop_inside [of dest_len dest 0] CEscape_loop_last_escape [of 0 pre dest c]
  by (simp add: CEscapeString_def CEscapeInternal_def del: CEscape_loop.simps)

theorem CEscapeString_overrun_witness:
  "CEscapeString [65, 200] (replicate 6 0) 5 \<noteq> None \<and> CEscapeString [65, 200] (replicate 5 0) 5 = None"
  using CEscapeString_overrun [of 5 "replicate 6 0" "[65, 200]" 200 "[65]" "[]"]
    CEscapeString_overrun [of 4 "replicate 5 0" "[]" 200 "[65]" "[]"]
  by (simp add: short_escape_def isprint_def)

section \<open>Numbers\<close>

lemma FastUInt64ToBufferLeft_undefined:
  "\<not> left_ok (unat u64) \<Longrightarrow> FastUInt64ToBufferLeft u64 buffer p = None"
proof (induction u64 rule: measure_induct_rule [of unat])
  case (less u64)
  show ?case
  proof (cases "unat u64 < 4294967296")
    case True
    then have "unat (ucast u64 :: uint32) = unat u64" by (simp add: low_word)
    then show ?thesis
      using True less.prems FastUInt32ToBufferLeft_undefined [of "ucast u64"]
      by (simp add: FastUInt64ToBufferLeft.simps [of u64] left_ok.simps [of "unat u64"] fits_32)
  next
    case False
    then have "u64 \<noteq> 0" by auto
    moreover have "\<not> left_ok (unat (u64 div 1000000000))"
      using False less.prems by (simp add: left_ok.simps [of "unat u64"] unat_div)
    ultimately show ?thesis
      using False less.IH [of "u64 div 1000000000"] word_div_less [of u64]
      by (simp add: FastUInt64ToBufferLeft.simps [of u64] fits_32 Let_def)
  qed
qed

text \<open>C29: \<open>SimpleItoa\<close> of a signed integer is its decimal text, for every value and whatever the
  local buffer held. Of an unsigned 32-bit integer it is that below 2200000000 and undefined from there
  on, where \<open>digits * 100000000\<close> leaves the range of \<open>int\<close>; of an unsigned 64-bit one exactly
  when the leading digits that reach the 32-bit writer stay below that.\<close>

theorem SimpleItoa_exact:
  assumes "length stack = kFastToBufferSize"
  shows "(is_int32 i \<longrightarrow> SimpleItoa_int stack i = Some (signed_decimal i)) \<and>
    (- (2 ^ 63) \<le> j \<and> j < 2 ^ 63 \<longrightarrow> SimpleItoa_long stack j = Some (signed_decimal j)) \<and>
    SimpleItoa_uint stack u = (if unat u < 2200000000 then Some (decimal (unat u)) else None) \<and>
    SimpleItoa_ulong stack v = (if left_ok (unat v) then Some (decimal (unat v)) else None)"
  using SimpleItoa_int_text [OF assms, of i] SimpleItoa_long_text [OF assms, of j]
    SimpleItoa_uint_text [OF assms, of u] SimpleItoa_ulong_text [OF assms, of v]
    FastUInt32ToBufferLeft_undefined [of u stack 0] FastUInt64ToBufferLeft_undefined [of v stack 0]
  by (simp add: SimpleItoa_uint_def SimpleItoa_ulong_def)

theorem SimpleItoa_exact_witness:
  "SimpleItoa_uint (replicate 32 7) 2200000000 = None \<and>
    SimpleItoa_int (replicate 32 7) (- 2147483648) = Some (signed_decimal (- 2147483648))"
  using SimpleItoa_exact [of "replicate 32 7" "- 2147483648" 0 2200000000 0]
  by (simp add: kFastToBufferSize_def int_bounds)

lemma parse_integer_loop_digits:
  "parse_integer_loop base max_value r ds = Some (Some v) \<Longrightarrow> digits_in base ds"
  by (induction ds arbitrary: r)
    (auto simp: digits_in_def Let_def not_less split: if_splits)

lemma ParseInteger_loop:
  assumes "0 \<notin> set txt" "integer_base txt = (base, ds)"
  shows "ParseInteger txt max_value = parse_integer_loop base max_value 0 ds"
  using assms c_str_id [of "txt"]
  by (auto simp: ParseInteger_def integer_base_def split: list.splits if_splits)

text \<open>C30: \<open>ParseInteger\<close> returns a value exactly when the characters after the prefix are digits of
  the base the prefix announces and their value does not exceed the maximum, and then it is that
  value: the two tests against \<open>max_value\<close> are exact for every maximum up to \<open>kuint64max\<close>. What
  \<open>SimpleItoa\<close> printed is read back.\<close>

theorem ParseInteger_exact:
  assumes "0 \<notin> set txt" "integer_base txt = (base, ds)"
  shows "(ParseInteger txt max_value = Some (Some v) \<longleftrightarrow>
      digits_in base ds \<and> digits_value base 0 ds = uint v \<and> v \<le> max_value) \<and>
    (length stack = kFastToBufferSize \<and> left_ok (unat v) \<longrightarrow>
      Option.bind (SimpleItoa_ulong stack v) (\<lambda>t. ParseInteger t max_value) =
        Some (if v \<le> max_value then Some v else None))"
proof
  show "ParseInteger txt max_value = Some (Some v) \<longleftrightarrow>
      digits_in base ds \<and> digits_value base 0 ds = uint v \<and> v \<le> max_value"
  proof (cases "digits_in base ds")
    case True
    have "1 \<le> base" using assms(2) by (auto simp: integer_base_def split: if_splits)
    then have "0 \<le> digits_value base 0 ds" using digits_value_ge [OF True] by simp
    moreover have "digits_value base 0 ds \<le> uint max_value \<Longrightarrow> digits_value base 0 ds < 2 ^ 64"
      using uint_lt2p [of max_value] by simp
    ultimately show ?thesis using ParseInteger_value [OF assms True, of max_value] True
      by (auto simp: word_le_def uint_word_of_int_eq take_bit_int_eq_self)
  next
    case False
    then show ?thesis
      using ParseInteger_loop [OF assms, of max_value] parse_integer_loop_digits [of base max_value 0 ds v]
      by auto
  qed
  show "length stack = kFastToBufferSize \<and> left_ok (unat v) \<longrightarrow>
      Option.bind (SimpleItoa_ulong stack v) (\<lambda>t. ParseInteger t max_value) =
        Some (if v \<le> max_value then Some v else None)"
    using SimpleItoa_ulong_text [of stack v] ParseInteger_decimal [of "unat v" max_value]
    by (simp add: word_le_nat_alt)
qed

theorem ParseInteger_exact_witness:
  "ParseInteger (cstring ''0xfF'') 255 = Some (Some 255) \<and> ParseInteger (cstring ''0xfF'') 254 \<noteq> Some (Some 255)"
  using ParseInteger_exact [of "cstring ''0xfF''" 16 "cstring ''fF''" 255 255 "[]"]
    ParseInteger_exact [of "cstring ''0xfF''" 16 "cstring ''fF''" 254 255 "[]"]
  by (simp add: integer_base_def digits_in_def DigitValue_def between_def)

section \<open>Replacing, splitting and joining\<close>

text \<open>C31: With a pattern that is not empty \<open>StringReplace\<close> of all occurrences and
  \<open>GlobalReplaceSubstring\<close> return the same string, the left-to-right replacement, and the latter the
  number of occurrences. With an empty pattern the first copies its input and the second, which lacks
  that test, never returns on a string that is not empty.\<close>

theorem replacements_agree:
  shows "(old \<noteq> [] \<longrightarrow> StringReplace s old new True = Some (replaced old new s) \<and>
      GlobalReplaceSubstring old new s = Some (int (occurrences old s), replaced old new s)) \<and>
    StringReplace s [] new replace_all = Some s \<and>
    (s \<noteq> [] \<longrightarrow> GlobalReplaceSubstring [] new s = None)"
proof (intro conjI impI)
  assume old: "old \<noteq> []"
  show "StringReplace s old new True = Some (replaced old new s)"
    using StringReplace_loop_spec [OF old, of 0 s new "[]"] old
    by (auto simp: StringReplace_def StringReplace_to_def)
  show "GlobalReplaceSubstring old new s = Some (int (occurrences old s), replaced old new s)"
    using GlobalReplace_loop_spec [OF old, of 0 s new 0 "[]"]
    by (auto simp: GlobalReplaceSubstring_def)
next
  assume "s \<noteq> []"
  then show "GlobalReplaceSubstring [] new s = None"
    by (simp add: GlobalReplaceSubstring_def GlobalReplace_loop_stuck)
qed (simp add: StringReplace_def StringReplace_to_def)

theorem replacements_agree_witness:
  "StringReplace [1, 1, 1, 2] [1, 1] [3] True = Some [3, 1, 2] \<and>
    GlobalReplaceSubstring [1, 1] [3] [1, 1, 1, 2] = Some (1, [3, 1, 2]) \<and>
    GlobalReplaceSubstring [] [3] [1] = None"
  using replacements_agree [of "[1, 1]" "[1, 1, 1, 2]" "[3]"] replacements_agree [of "[]" "[1]" "[3]"]
  by simp

text \<open>C32: \<open>SplitStringUsing\<close> with any set of delimiters appends exactly the non-empty pieces between
  delimiters, by the pointer loop for one delimiter and by the search for several alike; so what
  \<open>JoinStrings\<close> put together with a character that no component contains is taken apart again, up to
  empty components. The delimiters are a C string, so the joining character is not \<open>NUL\<close>; the joined
  text is no longer than \<open>INT_MAX\<close> bytes, so that its length, an \<open>int\<close>, is computed without an
  overflow.\<close>

theorem split_join:
  assumes "\<forall>w\<in>set components. d \<notin> set w" "d \<noteq> 0" "int (length (joined [d] True components)) \<le> INT_MAX"
  shows "SplitStringUsing full delim result = result @ nonempty (pieces (set (c_str delim)) full) \<and>
    JoinStrings components [d] = Some (joined [d] True components) \<and>
    SplitStringUsing (joined [d] True components) [d] result = result @ nonempty components"
proof -
  have d: "c_str [d] = [d]" using assms(2) by (simp add: c_str_def)
  have "JoinStrings components [d] = Some (joined [d] True components)"
    using JoinStrings_joined [of "[d]" components] assms(3) by (simp add: d INT_MAX_def)
  moreover have "nonempty (pieces {d} (joined [d] True components)) = nonempty components"
    using pieces_join [of "tl components" d "hd components"] assms(1) by (cases components) simp_all
  ultimately show ?thesis by (simp add: SplitStringUsing_def split_using_pieces d)
qed

theorem split_join_witness:
  "JoinStrings [[97, 98], [], [99]] [0x2C] = Some [97, 98, 0x2C, 0x2C, 99] \<and>
    SplitStringUsing [97, 98, 0x2C, 0x2C, 99] [0x2C] [[9]] = [[9], [97, 98], [99]]"
  using split_join [of "[[97, 98], [], [99]]" "0x2C" "[]" "[]" "[[9]]"] by (simp add: INT_MAX_def)

section \<open>Substitute\<close>

lemma SubstituteArg_int_text:
  assumes "length scratch = kFastToBufferSize"
  shows "is_int32 i \<Longrightarrow> SubstituteArg_int scratch i = Some (SubstituteArg_string (signed_decimal i))"
    "- (2 ^ 63) \<le> j \<Longrightarrow> j < 2 ^ 63 \<Longrightarrow>
      SubstituteArg_long scratch j = Some (SubstituteArg_string (signed_decimal j))"
  using SimpleItoa_int_text [OF assms, of i] SimpleItoa_long_text [OF assms, of j]
  by (auto simp: SubstituteArg_int_def SubstituteArg_long_def SimpleItoa_int_def SimpleItoa_long_def)

text \<open>
  The arguments a call can give, made by the constructors over the scratch buffer; a string is no
  longer than an \<open>int\<close> can say.
\<close>

inductive constructed :: "bytes \<Rightarrow> SubstituteArg \<Rightarrow> bool" for scratch where
  "int (length s) \<le> INT_MAX \<Longrightarrow> constructed scratch (SubstituteArg_string s)"
| "constructed scratch (SubstituteArg_char c)"
| "constructed scratch (SubstituteArg_bool b)"
| "is_int32 i \<Longrightarrow> SubstituteArg_int scratch i = Some a \<Longrightarrow> constructed scratch a"
| "- (2 ^ 63) \<le> j \<Longrightarrow> j < 2 ^ 63 \<Longrightarrow> SubstituteArg_long scratch j = Some a \<Longrightarrow> constructed scratch a"

lemma arg_ok_string: "int (length s) \<le> INT_MAX \<Longrightarrow> arg_ok (SubstituteArg_string s)"
  by (simp add: arg_ok_def SubstituteArg_string_def is_int32_nonneg)

lemma constructed_ok:
  assumes "length scratch = kFastToBufferSize" "constructed scratch a"
  shows "arg_ok a"
  using assms(2)
proof cases
  case 3
  then show ?thesis
    by (auto simp: SubstituteArg_bool_def INT_MAX_def intro!: arg_ok_string)
next
  case (4 i)
  then show ?thesis
    using SubstituteArg_int_text(1) [OF assms(1) 4(1)] signed_decimal_fits(1) [OF 4(1)]
    by (auto simp: INT_MAX_def intro!: arg_ok_string)
next
  case (5 j)
  then show ?thesis
    using SubstituteArg_int_text(2) [OF assms(1) 5(1,2)] signed_decimal_fits(2) [OF 5(1,2)]
    by (auto simp: INT_MAX_def intro!: arg_ok_string)
next
  case (1 s)
  then show ?thesis by (simp add: arg_ok_string)
qed (simp add: arg_ok_def SubstituteArg_char_def)

definition with_missing :: "SubstituteArg list \<Rightarrow> SubstituteArg list" where
  "with_missing given = given @ replicate (10 - length given) SubstituteArg_none"

text \<open>C33: \<open>SubstituteAndAppend\<close> appends the expansion of its format. It ends the process exactly
  where the format is malformed or names an argument that was not given, and is undefined exactly where
  it would make a string of more than \<open>INT_MAX\<close> bytes, as the sum of the sizes, an \<open>int\<close>, then
  overflows (an empty expansion is never a problem). Otherwise the size computed in the first pass is
  the size written in the second, and no store leaves the resized string. The arguments may be strings,
  characters, booleans and integers of every value of a signed type; the strings among them, and the
  one that is appended to, have at most \<open>INT_MAX\<close> bytes.\<close>

theorem Substitute_expands:
  assumes "length given \<le> 10" "length scratch = kFastToBufferSize" "\<forall>a\<in>set given. constructed scratch a"
    "int (length output) \<le> INT_MAX"
  shows "SubstituteAndAppend output format (with_missing given) =
    (case expansion (with_missing given) (c_str format) of None \<Rightarrow> None
     | Some t \<Rightarrow> if t = [] \<or> int (length output + length t) \<le> INT_MAX then Some (output @ t) else None)"
proof (rule SubstituteAndAppend_expansion [OF _ assms(4)])
  have "arg_ok SubstituteArg_none" by (simp add: arg_ok_def SubstituteArg_none_def)
  then show "args_ok (with_missing given)"
    using assms(1,3) constructed_ok [OF assms(2)] by (auto simp: args_ok_def with_missing_def)
qed

theorem Substitute_expands_witness:
  "SubstituteAndAppend [65] [0x24, 0x30, 0x24, 0x24, 0x24, 0x31]
      (with_missing [SubstituteArg_string [97, 98], SubstituteArg_char 66]) = Some [65, 97, 98, 0x24, 66] \<and>
   SubstituteAndAppend [65] [0x24, 0x32]
      (with_missing [SubstituteArg_string [97, 98], SubstituteArg_char 66]) = None"
proof -
  let ?given = "[SubstituteArg_string [97, 98], SubstituteArg_char 66]"
  have ok: "length ?given \<le> 10" "length (replicate 32 0 :: bytes) = kFastToBufferSize"
    "\<forall>a\<in>set ?given. constructed (replicate 32 0) a" "int (length [65 :: byte]) \<le> INT_MAX"
    by (auto simp: kFastToBufferSize_def INT_MAX_def intro!: constructed.intros)
  have digits: "ascii_isdigit 0x30" "ascii_isdigit 0x31" "ascii_isdigit 0x32" "\<not> ascii_isdigit 0x24"
    by (simp_all add: ascii_isdigit_def between_def)
  have index: "unat (0x30 - 0x30 :: byte) = 0" "unat (0x31 - 0x30 :: byte) = 1" "unat (0x32 - 0x30 :: byte) = 2"
    by simp_all
  have args: "with_missing ?given = SubstituteArg_string [97, 98] # SubstituteArg_char 66 #
      SubstituteArg_none # replicate 7 SubstituteArg_none"
    by (simp add: with_missing_def numeral_eq_Suc)
  show ?thesis
    unfolding Substitute_expands [OF ok] unfolding args
    by (simp add: digits index Let_def c_str_def SubstituteArg_string_def SubstituteArg_char_def
        SubstituteArg_none_def int_bounds)
qed

section \<open>Independence of the platform and the locale\<close>

text \<open>C34: Whatever the width of \<open>long\<close>, \<open>strto32_adaptor\<close> returns the number clamped to 32 bits
  and sets \<open>errno\<close> exactly when it clamps; so does \<open>strtou32_adaptor\<close> on numbers that are not
  negative. On a negative number the latter depends on the platform, which its comment denies: with a
  32-bit \<open>long\<close> the number wraps around silently, with a 64-bit one it is an overflow.\<close>

theorem strto32_platforms:
  assumes "32 \<le> bits"
  shows "strto32_adaptor bits (libc_strtol bits parse) nptr base saved_errno =
      strto32_adaptor 32 (libc_strtol 32 parse) nptr base saved_errno \<and>
    (0 \<le> fst (parse nptr base) \<longrightarrow>
      strtou32_adaptor bits (libc_strtoul bits parse) nptr base saved_errno =
        strtou32_adaptor 32 (libc_strtoul 32 parse) nptr base saved_errno) \<and>
    (- kuint32max < fst (parse nptr base) \<and> fst (parse nptr base) < 0 \<longrightarrow>
      strtou32_adaptor 32 (libc_strtoul 32 parse) nptr base saved_errno =
        (fst (parse nptr base) + 2 ^ 32, snd (parse nptr base), saved_errno) \<and>
      strtou32_adaptor 64 (libc_strtoul 64 parse) nptr base saved_errno =
        (kuint32max, snd (parse nptr base), ERANGE))"
proof (intro conjI impI)
  obtain v n where p: "parse nptr base = (v, n)" by force
  assume "- kuint32max < fst (parse nptr base) \<and> fst (parse nptr base) < 0"
  then have v: "- 4294967295 < v" "v < 0" using p by (simp_all add: kuint32max_def)
  then have "(v + 4294967296) mod 4294967296 = v + 4294967296"
    "(v + 18446744073709551616) mod 18446744073709551616 = v + 18446744073709551616"
    by (intro mod_pos_pos_trivial; simp)+
  then have m: "v mod 4294967296 = v + 4294967296" "v mod 18446744073709551616 = v + 18446744073709551616"
    by simp_all
  show "strtou32_adaptor 32 (libc_strtoul 32 parse) nptr base saved_errno =
      (fst (parse nptr base) + 2 ^ 32, snd (parse nptr base), saved_errno)"
    using p v m int32_casts(2) [of "v + 4294967296"]
    by (simp add: strtou32_adaptor_def libc_strtoul_def kuint32max_def ERANGE_def)
  show "strtou32_adaptor 64 (libc_strtoul 64 parse) nptr base saved_errno =
      (kuint32max, snd (parse nptr base), ERANGE)"
    using p v m by (simp add: strtou32_adaptor_def libc_strtoul_def kuint32max_def ERANGE_def)
qed (use assms in \<open>simp_all add: strto32_clamps strtou32_clamps\<close>)

theorem strto32_platforms_witness:
  "strto32_adaptor 64 (libc_strtol 64 (\<lambda>_ _. (- 3000000000, 11))) [] 10 0 = (kint32min, 11, ERANGE) \<and>
    strtou32_adaptor 32 (libc_strtoul 32 (\<lambda>_ _. (- 2, 2))) [] 10 0 \<noteq>
      strtou32_adaptor 64 (libc_strtoul 64 (\<lambda>_ _. (- 2, 2))) [] 10 0"
  using strto32_platforms [of 64 "\<lambda>_ _. (- 3000000000, 11)" "[]" 10 0]
    strto32_platforms [of 64 "\<lambda>_ _. (- 2, 2)" "[]" 10 0]
  by (simp add: strto32_clamps kuint32max_def kint32min_def kint32max_def ERANGE_def int_bounds)

text \<open>C35: A float literal has the same value in a locale with another radix character, of one or
  several bytes, as in the C locale; where \<open>strtod\<close> stops at the point, \<open>NoLocaleStrtod\<close> puts the
  locale's radix in its place, and the end it reports is the end in the original text. In a printed number
  \<open>DelocalizeRadix\<close> replaces the radix by the point.\<close>

theorem ParseFloat_any_locale:
  assumes "foreign_strtod strtod c_strtod r a b" "r \<noteq> []" "length r \<le> 4"
    "0 \<notin> set (a @ b)"
    "c_strtod (a @ asc CHR ''.'' # b) = (v, n)"
    "\<not> (n < length (a @ asc CHR ''.'' # b) \<and> (a @ asc CHR ''.'' # b) ! n = asc CHR ''.'')"
  shows "ParseFloat strtod (asc CHR ''1'' # r @ [asc CHR ''5'']) (a @ asc CHR ''.'' # b) =
      ParseFloat c_strtod printed (a @ asc CHR ''.'' # b) \<and>
    ((\<forall>c\<in>set (x @ y). IsValidFloatChar c) \<and> (\<forall>c\<in>set r. \<not> IsValidFloatChar c \<and> c \<noteq> asc CHR ''.'') \<longrightarrow>
      DelocalizeRadix (x @ r @ y) = x @ asc CHR ''.'' # y)"
proof -
  have "c_str (a @ asc CHR ''.'' # b) = a @ asc CHR ''.'' # b" using assms(4) by (intro c_str_id) auto
  moreover have "NoLocaleStrtod c_strtod printed (a @ asc CHR ''.'' # b) = Some (v, int n)"
    unfolding NoLocaleStrtod_def assms(5) using assms(6) by simp
  ultimately show ?thesis
    using NoLocaleStrtod_foreign [OF assms(1-3)] assms(5) DelocalizeRadix_radix [of x y r] assms(2)
    by (simp add: ParseFloat_def Let_def del: asc_Char)
qed

theorem ParseFloat_any_locale_witness:
  "ParseFloat (\<lambda>t. (takeWhile (\<lambda>c. c \<noteq> 46) t, length (takeWhile (\<lambda>c. c \<noteq> 46) t))) [49, 44, 53] [50, 46, 55] =
    ParseFloat (\<lambda>t. (map (\<lambda>c. if c = 46 then 44 else c) t, length t)) [49, 46, 53] [50, 46, 55]"
  using ParseFloat_any_locale [of "\<lambda>t. (takeWhile (\<lambda>c. c \<noteq> 46) t, length (takeWhile (\<lambda>c. c \<noteq> 46) t))"
      "\<lambda>t. (map (\<lambda>c. if c = 46 then 44 else c) t, length t)" "[44]" "[50]" "[55]"
      "[50, 44, 55]" 3 "[49, 46, 53]" "[50]" "[55]"]
  by (simp add: foreign_strtod_def)

end
