(* ===== verification/Printer.thy ===== *)
theory Printer
  imports WireItems StringOps
begin

text \<open>
  \<open>io/printer.cc\<close>: the \<open>Printer\<close>, which expands a template into a zero-copy output stream,
  with variables and indentation. As for the coded output stream, \<open>pr_buffer\<close> is the offset of
  \<open>buffer_\<close> in the buffer the last \<open>Next\<close> lent. The loop of \<open>Write\<close> is shown to do what
  \<open>CodedOutputStream::WriteRaw\<close> does, and the printer to append the rendering of its template,
  however the stream cuts its buffers. A \<open>DFATAL\<close> ends the process, as in a debug build.
\<close>

section \<open>State\<close>

record 's printer =
  pr_variable_delimiter :: byte
  pr_output :: 's
  pr_buffer :: int
  pr_buffer_size :: int
  pr_indent :: bytes
  pr_at_start_of_line :: bool
  pr_failed :: bool

definition Printer :: "'s \<Rightarrow> byte \<Rightarrow> 's printer" where
  "Printer output variable_delimiter =
    \<lparr>pr_variable_delimiter = variable_delimiter, pr_output = output, pr_buffer = 0, pr_buffer_size = 0,
     pr_indent = [], pr_at_start_of_line = True, pr_failed = False\<rparr>"

definition Printer_destroy :: "'s output_vt \<Rightarrow> 's printer \<Rightarrow> 's option" where
  "Printer_destroy vt p =
    (if pr_buffer_size p > 0 then out_backup vt (pr_buffer_size p) (pr_output p)
     else Some (pr_output p))"

section \<open>Write\<close>

text \<open>
  The copy into the buffers: where the data does not fit, the buffer is filled and the next one asked
  for; where there is none, \<open>Next\<close> leaves \<open>buffer_\<close> and \<open>buffer_size_\<close> as they were.
\<close>

definition pr_store :: "'s output_vt \<Rightarrow> bytes \<Rightarrow> 's printer \<Rightarrow> 's" where
  "pr_store vt data p = out_store vt (pr_buffer p) data (pr_output p)"

partial_function (option) Printer_copy :: "'s output_vt \<Rightarrow> bytes \<Rightarrow> 's printer \<Rightarrow> 's printer option" where
  "Printer_copy vt data p =
    (if int (length data) > pr_buffer_size p then
       (let n = nat (pr_buffer_size p) in
        Option.bind (out_next vt (pr_store vt (take n data) p)) (\<lambda>(r, out).
          case r of
            None \<Rightarrow> Some (p\<lparr>pr_output := out, pr_failed := True\<rparr>)
          | Some k \<Rightarrow>
              Printer_copy vt (drop n data)
                (p\<lparr>pr_output := out, pr_buffer := 0, pr_buffer_size := k\<rparr>)))
     else
       Some (p\<lparr>pr_output := pr_store vt data p, pr_buffer := pr_buffer p + int (length data),
         pr_buffer_size := pr_buffer_size p - int (length data)\<rparr>))"

text \<open>The inner call writes the indent; \<open>at_start_of_line_\<close> is false by then.\<close>

partial_function (option) Printer_Write :: "'s output_vt \<Rightarrow> bytes \<Rightarrow> 's printer \<Rightarrow> 's printer option" where
  "Printer_Write vt data p =
    (if pr_failed p then Some p
     else if data = [] then Some p
     else if pr_at_start_of_line p then
       Option.bind (Printer_Write vt (pr_indent p) (p\<lparr>pr_at_start_of_line := False\<rparr>)) (\<lambda>p.
         if pr_failed p then Some p else Printer_copy vt data p)
     else Printer_copy vt data p)"

section \<open>Print\<close>

type_synonym variables = "bytes \<Rightarrow> bytes option"

lemma strchr_after: "find_first P s i = Some e \<Longrightarrow> i \<le> e \<and> e < length s"
  by (erule find_first_split) auto

text \<open>
  The loop over the template, at index \<open>i\<close>, the bytes before \<open>pos\<close> written. \<open>strchr\<close> looks
  for the closing delimiter.
\<close>

function Printer_Print_loop ::
  "'s output_vt \<Rightarrow> variables \<Rightarrow> bytes \<Rightarrow> nat \<Rightarrow> nat \<Rightarrow> 's printer \<Rightarrow> 's printer option" where
  "Printer_Print_loop vt vars tmpl i pos p =
    (if i < length tmpl then
       if tmpl ! i = 10 then
         Option.bind (Printer_Write vt (sub tmpl pos (i - pos + 1)) p) (\<lambda>p.
           Printer_Print_loop vt vars tmpl (i + 1) (i + 1) (p\<lparr>pr_at_start_of_line := True\<rparr>))
       else if tmpl ! i = pr_variable_delimiter p then
         Option.bind (Printer_Write vt (sub tmpl pos (i - pos)) p) (\<lambda>q.
           case find_first (\<lambda>c. c = pr_variable_delimiter p) tmpl (i + 1) of
             None \<Rightarrow> None
           | Some endpos \<Rightarrow>
               (let varname = sub tmpl (i + 1) (endpos - (i + 1)) in
                Option.bind
                  (if varname = [] then Printer_Write vt [pr_variable_delimiter q] q
                   else (case vars varname of None \<Rightarrow> None | Some v \<Rightarrow> Printer_Write vt v q))
                  (\<lambda>p. Printer_Print_loop vt vars tmpl (endpos + 1) (endpos + 1) p)))
       else Printer_Print_loop vt vars tmpl (i + 1) pos p
     else Printer_Write vt (drop pos tmpl) p)"
  by auto

termination
  by (relation "measure (\<lambda>(_, _, tmpl, i, _). length tmpl - i)") (auto dest: strchr_after)

declare Printer_Print_loop.simps [simp del]

definition Printer_Print :: "'s output_vt \<Rightarrow> variables \<Rightarrow> bytes \<Rightarrow> 's printer \<Rightarrow> 's printer option" where
  "Printer_Print vt vars tmpl p = Printer_Print_loop vt vars tmpl 0 0 p"

definition Printer_Print_text :: "'s output_vt \<Rightarrow> bytes \<Rightarrow> 's printer \<Rightarrow> 's printer option" where
  "Printer_Print_text vt tmpl p = Printer_Print vt Map.empty tmpl p"

definition Printer_Print_1 ::
  "'s output_vt \<Rightarrow> bytes \<Rightarrow> bytes \<Rightarrow> bytes \<Rightarrow> 's printer \<Rightarrow> 's printer option" where
  "Printer_Print_1 vt tmpl variable val p = Printer_Print vt [variable \<mapsto> val] tmpl p"

definition Printer_Print_2 ::
  "'s output_vt \<Rightarrow> bytes \<Rightarrow> bytes \<Rightarrow> bytes \<Rightarrow> bytes \<Rightarrow> bytes \<Rightarrow> 's printer \<Rightarrow> 's printer option" where
  "Printer_Print_2 vt tmpl variable1 value1 variable2 value2 p =
    Printer_Print vt [variable1 \<mapsto> value1, variable2 \<mapsto> value2] tmpl p"

section \<open>Indentation\<close>

definition Printer_Indent :: "'s printer \<Rightarrow> 's printer" where
  "Printer_Indent p = p\<lparr>pr_indent := pr_indent p @ cstring ''  ''\<rparr>"

definition Printer_Outdent :: "'s printer \<Rightarrow> 's printer option" where
  "Printer_Outdent p =
    (if pr_indent p = [] then None
     else Some (p\<lparr>pr_indent := take (length (pr_indent p) - 2) (pr_indent p)\<rparr>))"

section \<open>The rendering of a template\<close>

text \<open>
  A write: an indent first when it starts a line, nothing when it is empty. A rendering carries the
  text and whether a line starts behind it.
\<close>

definition put :: "bytes \<Rightarrow> bytes \<Rightarrow> bytes \<times> bool \<Rightarrow> bytes \<times> bool" where
  "put ind d s =
    (if d = [] then s else (fst s @ (if snd s then ind else []) @ d, False))"

lemma dropWhile_less: "dropWhile P xs = c # after \<Longrightarrow> length after < length xs"
  using length_dropWhile_le [of P xs] by simp

function render ::
  "variables \<Rightarrow> byte \<Rightarrow> bytes \<Rightarrow> bytes \<Rightarrow> bytes \<times> bool \<Rightarrow> (bytes \<times> bool) option" where
  "render vars dl ind tmpl s =
    (let run = takeWhile (\<lambda>c. c \<noteq> 10 \<and> c \<noteq> dl) tmpl in
     case dropWhile (\<lambda>c. c \<noteq> 10 \<and> c \<noteq> dl) tmpl of
       [] \<Rightarrow> Some (put ind run s)
     | c # after \<Rightarrow>
         if c = 10 then render vars dl ind after (fst (put ind (run @ [10]) s), True)
         else
           (let name = takeWhile (\<lambda>c. c \<noteq> dl) after in
            if length name = length after then None
            else
              (case (if name = [] then Some [dl] else vars name) of
                 None \<Rightarrow> None
               | Some v \<Rightarrow>
                   render vars dl ind (drop (Suc (length name)) after) (put ind v (put ind run s)))))"
  by auto

termination
  by (relation "measure (\<lambda>(_, _, _, tmpl, _). length tmpl)") (auto dest: dropWhile_less)

declare render.simps [simp del]

section \<open>The loop of Write is WriteRaw\<close>

definition printer_view :: "'s output_vt \<Rightarrow> 's printer \<Rightarrow> 's coded_output" where
  "printer_view vt p =
    \<lparr>co_output = pr_output p, co_buffer = pr_buffer p, co_buffer_size = pr_buffer_size p,
     co_total_bytes = out_byte_count vt (pr_output p)\<rparr>"

definition same_buffer :: "'s printer \<Rightarrow> 's coded_output \<Rightarrow> bool" where
  "same_buffer p c \<longleftrightarrow> pr_output p = co_output c \<and> pr_buffer p = co_buffer c \<and>
    pr_buffer_size p = co_buffer_size c"

definition same_settings :: "'s printer \<Rightarrow> 's printer \<Rightarrow> bool" where
  "same_settings p q \<longleftrightarrow> pr_variable_delimiter q = pr_variable_delimiter p \<and> pr_indent q = pr_indent p \<and>
    pr_at_start_of_line q = pr_at_start_of_line p"

lemma Printer_copy_WriteRaw:
  assumes "CodedOutputStream_WriteRaw vt d c = Some (r, c')"
  shows "same_buffer p c \<longrightarrow> (\<exists>q. Printer_copy vt d p = Some q \<and> same_settings p q \<and>
    (if r then same_buffer q c' \<and> pr_failed q = pr_failed p else pr_failed q))"
proof -
  let ?P = "\<lambda>vt d c rc. \<forall>p. same_buffer p c \<longrightarrow> (\<exists>q. Printer_copy vt d p = Some q \<and> same_settings p q \<and>
    (if fst rc then same_buffer q (snd rc) \<and> pr_failed q = pr_failed p else pr_failed q))"
  have "?P vt d c (r, c')"
  proof (rule CodedOutputStream_WriteRaw.raw_induct [OF _ assms], goal_cases)
    case (1 W vt d c rc)
    show ?case
    proof (intro allI impI)
      fix p :: "'a printer" assume m: "same_buffer p c"
      show "\<exists>q. Printer_copy vt d p = Some q \<and> same_settings p q \<and>
          (if fst rc then same_buffer q (snd rc) \<and> pr_failed q = pr_failed p else pr_failed q)"
      proof (cases "co_buffer_size c < int (length d)")
        case False
        then show ?thesis using 1(2) m
          by (subst Printer_copy.simps)
            (auto simp: same_buffer_def same_settings_def pr_store_def co_store_def co_Advance_def)
      next
        case True
        let ?n = "nat (co_buffer_size c)"
        have st: "pr_store vt (take ?n d) p = co_output (co_store vt (take ?n d) c)"
          using m by (simp add: same_buffer_def pr_store_def co_store_def)
        obtain b s where n: "out_next vt (pr_store vt (take ?n d) p) = Some (b, s)"
          using 1(2) True unfolding st by (auto simp: co_Refresh_def Let_def)
        show ?thesis
        proof (cases b)
          case None
          then show ?thesis using 1(2) True n m st
            by (subst Printer_copy.simps)
              (auto simp: co_Refresh_def same_buffer_def same_settings_def)
        next
          case (Some k)
          let ?p = "p\<lparr>pr_output := s, pr_buffer := 0, pr_buffer_size := k\<rparr>"
          define c1 where "c1 = co_store vt (take ?n d) c"
          define c2 where "c2 = c1\<lparr>co_output := s, co_buffer := 0, co_buffer_size := k,
            co_total_bytes := co_total_bytes c1 + k\<rparr>"
          have r: "co_Refresh vt c1 = Some (True, c2)"
            using n Some st by (simp add: co_Refresh_def c1_def c2_def)
          have c2: "same_buffer ?p c2" "W vt (drop ?n d) c2 = Some rc"
            using 1(2) True r by (simp_all add: same_buffer_def c2_def c1_def [symmetric] Let_def)
          obtain q where q: "Printer_copy vt (drop ?n d) ?p = Some q" "same_settings ?p q"
            "if fst rc then same_buffer q (snd rc) \<and> pr_failed q = pr_failed ?p else pr_failed q"
            using 1(1) [OF c2(2)] c2(1) by blast
          have "Printer_copy vt d p = Some q"
            using True m n Some q(1) by (subst Printer_copy.simps) (simp add: same_buffer_def)
          then show ?thesis using q(2,3) by (auto simp: same_settings_def)
        qed
      qed
    qed
  qed
  then show ?thesis unfolding fst_conv snd_conv by blast
qed

definition never_fails :: "'s output_vt \<Rightarrow> bool" where
  "never_fails vt \<longleftrightarrow> (\<forall>s s'. out_next vt s \<noteq> Some (None, s'))"

lemma put_extends: "length (fst s) \<le> length (fst (put ind d s))"
  by (simp add: put_def)

lemma render_extends: "render vars dl ind tmpl s = Some s' \<Longrightarrow> length (fst s) \<le> length (fst s')"
proof (induction vars dl ind tmpl s rule: render.induct)
  case (1 vars dl ind tmpl s)
  let ?run = "takeWhile (\<lambda>c. c \<noteq> 10 \<and> c \<noteq> dl) tmpl"
  show ?case
  proof (cases "dropWhile (\<lambda>c. c \<noteq> 10 \<and> c \<noteq> dl) tmpl")
    case Nil
    then show ?thesis using 1(3) put_extends [of s ind ?run]
      unfolding render.simps [of vars dl ind tmpl s] Let_def Nil by auto
  next
    case (Cons c after)
    show ?thesis
    proof (cases "c = 10")
      case True
      then have "render vars dl ind after (fst (put ind (?run @ [10]) s), True) = Some s'"
        using 1(3) Cons by (simp add: render.simps [of vars _ _ "tmpl"] Let_def)
      then show ?thesis
        using 1(1) [OF refl Cons True] put_extends [of s ind "?run @ [10]"] by simp
    next
      case False
      let ?name = "takeWhile (\<lambda>c. c \<noteq> dl) after"
      have open_: "length ?name \<noteq> length after"
        using 1(3) Cons False by (auto simp: render.simps [of vars _ _ "tmpl"] Let_def)
      obtain v where v: "(if ?name = [] then Some [dl] else vars ?name) = Some v"
        "render vars dl ind (drop (Suc (length ?name)) after) (put ind v (put ind ?run s)) = Some s'"
        using 1(3) Cons False open_
        by (simp add: render.simps [of vars _ _ "tmpl"] Let_def split: option.splits if_splits)
      show ?thesis
        using 1(2) [OF refl Cons False refl open_ v(1) v(2)] put_extends [of s ind ?run]
          put_extends [of "put ind ?run s" ind v] by simp
    qed
  qed
qed

context zero_copy_output
begin

text \<open>
  A printer that has put the text \<open>fst s\<close> so far, and starts a line if \<open>snd s\<close>; or has failed,
  which happens only over a stream whose \<open>Next\<close> can fail. \<open>k\<close> is the byte count before the text.
\<close>

definition printing :: "int \<Rightarrow> byte \<Rightarrow> bytes \<Rightarrow> bytes \<times> bool \<Rightarrow> 's printer \<Rightarrow> bool" where
  "printing k dl ind s p \<longleftrightarrow>
    pr_variable_delimiter p = dl \<and> pr_indent p = ind \<and> (pr_failed p \<longrightarrow> \<not> never_fails vt) \<and>
    (pr_failed p \<or>
     co_ok vt ok lent 0 (printer_view vt p) \<and> co_written written (printer_view vt p) = fst s \<and>
     pr_at_start_of_line p = snd s \<and>
     CodedOutputStream_ByteCount (printer_view vt p) = k + int (length (fst s)))"

lemma copy_prints:
  assumes "printing k dl ind s p" "\<not> pr_failed p" "k + int (length (fst s) + length d) \<le> budget"
  shows "\<exists>q. Printer_copy vt d p = Some q \<and> printing k dl ind (fst s @ d, snd s) q"
proof -
  let ?c = "printer_view vt p"
  have c: "co_ok vt ok lent 0 ?c" "co_written written ?c = fst s"
    "CodedOutputStream_ByteCount ?c = k + int (length (fst s))"
    using assms(1,2) by (simp_all add: printing_def)
  then have "co_fits ?c (length d)"
    using assms(3) by (simp add: co_fits_def CodedOutputStream_ByteCount_def co_ok_def printer_view_def)
  then obtain r c' where w: "CodedOutputStream_WriteRaw vt d ?c = Some (r, c')"
    "r \<longrightarrow> co_wrote vt ok written lent 0 d ?c c'"
    using write_raw [OF c(1)] by blast
  have "same_buffer p ?c" by (simp add: same_buffer_def printer_view_def)
  then obtain q where q: "Printer_copy vt d p = Some q" "same_settings p q"
    "if r then same_buffer q c' \<and> pr_failed q = pr_failed p else pr_failed q"
    using Printer_copy_WriteRaw [OF w(1)] by blast
  show ?thesis
  proof (cases r)
    case True
    then have "co_wrote vt ok written lent 0 d ?c c'" "same_buffer q c'" "\<not> pr_failed q"
      using w(2) q(3) assms(2) by simp_all
    moreover from this have "printer_view vt q = c'"
      by (simp add: co_wrote_def co_ok_def same_buffer_def printer_view_def)
    ultimately show ?thesis
      using q(1,2) c assms(1,2)
      by (auto simp: printing_def same_settings_def co_wrote_def)
  next
    case False
    then have "\<not> never_fails vt"
      using w(1) WriteRaw_never_false [of vt d] by (auto simp: never_fails_def never_false_def)
    then show ?thesis using False q assms(1) by (auto simp: printing_def same_settings_def)
  qed
qed

lemma write_prints:
  assumes p: "printing k dl ind s p" and b: "k + int (length (fst (put ind d s))) \<le> budget"
  shows "\<exists>q. Printer_Write vt d p = Some q \<and> printing k dl ind (put ind d s) q"
proof (cases "pr_failed p \<or> d = []")
  case True
  then show ?thesis using p by (subst Printer_Write.simps) (auto simp: put_def printing_def)
next
  case False
  show ?thesis
  proof (cases "snd s")
    case nl: True
    let ?p = "p\<lparr>pr_at_start_of_line := False\<rparr>"
    have at: "pr_at_start_of_line p" "pr_indent p = ind" using p False nl by (simp_all add: printing_def)
    have p0: "printing k dl ind (fst s, False) ?p" using p False by (simp add: printing_def printer_view_def)
    have "\<exists>q. Printer_Write vt ind ?p = Some q \<and> printing k dl ind (fst s @ ind, False) q"
    proof (cases "ind = []")
      case True
      then show ?thesis using p0 by (subst Printer_Write.simps) simp
    next
      case ind: False
      have "k + int (length (fst (fst s, False)) + length ind) \<le> budget"
        using b False nl by (simp add: put_def)
      from copy_prints [OF p0 _ this] False ind show ?thesis
        by (subst Printer_Write.simps) simp
    qed
    then obtain q where q: "Printer_Write vt ind ?p = Some q" "printing k dl ind (fst s @ ind, False) q"
      by blast
    show ?thesis
    proof (cases "pr_failed q")
      case True
      then have "printing k dl ind (put ind d s) q" using q(2) by (simp add: printing_def)
      then show ?thesis using True False at q(1) by (subst Printer_Write.simps) simp
    next
      case ok: False
      have "k + int (length (fst (fst s @ ind, False)) + length d) \<le> budget"
        using b False nl by (simp add: put_def)
      from copy_prints [OF q(2) ok this] obtain q' where "Printer_copy vt d q = Some q'"
        "printing k dl ind (put ind d s) q'" using False nl by (auto simp: put_def)
      then show ?thesis using False ok at q(1) by (subst Printer_Write.simps) simp
    qed
  next
    case mid: False
    then have "\<not> pr_at_start_of_line p" using p False by (simp add: printing_def)
    moreover have "k + int (length (fst s) + length d) \<le> budget" using b False mid by (simp add: put_def)
    from copy_prints [OF p _ this] have "\<exists>q. Printer_copy vt d p = Some q \<and> printing k dl ind (fst s @ d, snd s) q"
      using False by simp
    ultimately show ?thesis using False mid by (subst Printer_Write.simps) (simp add: put_def)
  qed
qed

end

lemma find_index_run:
  "find_index P xs = (let n = length (takeWhile (\<lambda>c. \<not> P c) xs) in if n < length xs then Some n else None)"
  by (induction P xs rule: find_index.induct) (auto simp: Let_def)

text \<open>What the loop has passed over is the run that the rendering takes at once.\<close>

lemma plain_run:
  assumes "\<forall>c\<in>set run. P c" "cs = [] \<or> \<not> P (hd cs)"
  shows "takeWhile P (run @ cs) = run" "dropWhile P (run @ cs) = cs"
  using assms by (cases cs; auto)+

lemma sub_drop:
  assumes "pos \<le> i" "i < length tmpl"
  shows "drop pos tmpl = sub tmpl pos (i - pos) @ tmpl ! i # drop (i + 1) tmpl"
    "sub tmpl pos (i - pos + 1) = sub tmpl pos (i - pos) @ [tmpl ! i]"
proof -
  have "drop pos tmpl = take (i - pos) (drop pos tmpl) @ drop (i - pos) (drop pos tmpl)"
    by (rule append_take_drop_id [symmetric])
  also have "drop (i - pos) (drop pos tmpl) = tmpl ! i # drop (i + 1) tmpl"
    using assms by (simp add: Cons_nth_drop_Suc)
  finally show d: "drop pos tmpl = sub tmpl pos (i - pos) @ tmpl ! i # drop (i + 1) tmpl"
    by (simp add: sub_def)
  have "length (sub tmpl pos (i - pos)) = i - pos" using assms by (simp add: sub_def)
  then show "sub tmpl pos (i - pos + 1) = sub tmpl pos (i - pos) @ [tmpl ! i]"
    unfolding sub_def [of tmpl pos "i - pos + 1"] d by simp
qed

context zero_copy_output
begin

lemma loop_prints:
  assumes "pos \<le> i" "i \<le> length tmpl" "\<forall>c\<in>set (sub tmpl pos (i - pos)). c \<noteq> 10 \<and> c \<noteq> dl"
    "printing k dl ind s p" "render vars dl ind (drop pos tmpl) s = Some s'"
    "k + int (length (fst s')) \<le> budget"
  shows "\<exists>q. Printer_Print_loop vt vars tmpl i pos p = Some q \<and> printing k dl ind s' q"
  using assms
proof (induction "length tmpl - i" arbitrary: i pos p s rule: less_induct)
  case less
  let ?run = "sub tmpl pos (i - pos)" and ?plain = "\<lambda>c. c \<noteq> 10 \<and> c \<noteq> dl"
  note loop = Printer_Print_loop.simps [of vt vars tmpl i pos p]
  have dl: "pr_variable_delimiter p = dl" using less.prems(4) by (simp add: printing_def)
  show ?case
  proof (cases "i < length tmpl")
    case False
    then have i: "i = length tmpl" "drop pos tmpl = ?run" using less.prems(1,2) by (simp_all add: sub_def)
    have run: "takeWhile ?plain ?run = ?run" "dropWhile ?plain ?run = []"
      using plain_run [of ?run ?plain "[]"] less.prems(3) by simp_all
    have "s' = put ind ?run s"
      using less.prems(5) unfolding i(2) render.simps [of vars dl ind ?run s] Let_def run by simp
    then show ?thesis
      using write_prints [OF less.prems(4), of ?run] less.prems(6) i loop by simp
  next
    case True
    note split_ = sub_drop [OF less.prems(1) True]
    show ?thesis
    proof (cases "?plain (tmpl ! i)")
      case plain: True
      then have "\<forall>c\<in>set (sub tmpl pos (i + 1 - pos)). ?plain c"
        using less.prems(1,3) split_(2) by (simp add: Suc_diff_le)
      then show ?thesis
        using less.hyps [of "i + 1" pos s p] less.prems True plain dl loop by simp
    next
      case False
      have run: "takeWhile ?plain (drop pos tmpl) = ?run"
        "dropWhile ?plain (drop pos tmpl) = tmpl ! i # drop (i + 1) tmpl"
        unfolding split_(1) by (rule plain_run; use less.prems(3) False in simp)+
      note rend = less.prems(5) [unfolded render.simps [of vars dl ind "drop pos tmpl" s] Let_def run]
      show ?thesis
      proof (cases "tmpl ! i = 10")
        case nl: True
        let ?s = "put ind (?run @ [10]) s"
        have r: "render vars dl ind (drop (i + 1) tmpl) (fst ?s, True) = Some s'" using rend nl by simp
        then have "k + int (length (fst ?s)) \<le> budget" using render_extends [OF r] less.prems(6) by simp
        then obtain q where q: "Printer_Write vt (?run @ [10]) p = Some q" "printing k dl ind ?s q"
          using write_prints [OF less.prems(4)] by blast
        then have "printing k dl ind (fst ?s, True) (q\<lparr>pr_at_start_of_line := True\<rparr>)"
          by (auto simp: printing_def printer_view_def)
        then show ?thesis
          using less.hyps [of "i + 1" "i + 1" "(fst ?s, True)" "q\<lparr>pr_at_start_of_line := True\<rparr>"]
            True nl r q(1) split_(2) less.prems(6) loop by (simp add: sub_def)
      next
        case delim: False
        then have at: "tmpl ! i = dl" using False by simp
        let ?after = "drop (i + 1) tmpl" and ?s = "put ind ?run s"
        let ?name = "takeWhile (\<lambda>c. c \<noteq> dl) ?after"
        have closed: "length ?name \<noteq> length ?after" using rend delim by auto
        then have less_: "length ?name < length ?after" using length_takeWhile_le le_neq_implies_less by blast
        define e where "e = i + 1 + length ?name"
        have e: "find_first (\<lambda>c. c = dl) tmpl (i + 1) = Some e" "i < e" "e < length tmpl"
          "sub tmpl (i + 1) (e - (i + 1)) = ?name" "drop (Suc (length ?name)) ?after = drop (e + 1) tmpl"
          using less_ True
          by (simp_all add: find_first_def find_index_run Let_def e_def sub_def add_ac takeWhile_eq_take [symmetric])
        obtain v where v: "(if ?name = [] then Some [dl] else vars ?name) = Some v"
          "render vars dl ind (drop (e + 1) tmpl) (put ind v ?s) = Some s'"
          using rend delim closed e(5) by (auto split: option.splits if_splits)
        have "length (fst ?s) \<le> length (fst (put ind v ?s))" by (rule put_extends)
        moreover have "length (fst (put ind v ?s)) \<le> length (fst s')" by (rule render_extends [OF v(2)])
        ultimately have fit: "k + int (length (fst ?s)) \<le> budget" "k + int (length (fst (put ind v ?s))) \<le> budget"
          using less.prems(6) by simp_all
        obtain q where q: "Printer_Write vt ?run p = Some q" "printing k dl ind ?s q"
          using write_prints [OF less.prems(4) fit(1)] by blast
        obtain q' where q': "Printer_Write vt v q = Some q'" "printing k dl ind (put ind v ?s) q'"
          using write_prints [OF q(2) fit(2)] by blast
        have "pr_variable_delimiter q = dl" using q(2) by (simp add: printing_def)
        then have "Printer_Print_loop vt vars tmpl i pos p =
            Printer_Print_loop vt vars tmpl (e + 1) (e + 1) q'"
          using True delim at dl q(1) e(1,4) v(1) q'(1) loop
          by (auto simp: Let_def split: if_splits)
        then show ?thesis
          using less.hyps [of "e + 1" "e + 1" "put ind v ?s" q'] e(2,3) v(2) q'(2) less.prems(6)
          by (simp add: sub_def)
      qed
    qed
  qed
qed

end

end
