(* ===== verification/PrinterProperties.thy ===== *)
theory PrinterProperties
  imports Printer
begin

text \<open>
  The properties of the printer: over a string it writes the rendering of its templates, whatever
  buffers the string stream hands out; after a failed write its destructor breaks the contract of the
  stream.
\<close>

section \<open>The life of a printer\<close>

context zero_copy_output
begin

lemma printer_starts:
  "ok s \<Longrightarrow> printing (out_byte_count vt s - int (length (written s))) dl [] (written s, True) (Printer s dl)"
  using lent_bounds [of s]
  by (simp add: printing_def Printer_def printer_view_def co_ok_def co_written_def
      CodedOutputStream_ByteCount_def)

lemma print_prints:
  assumes "printing k dl ind s p" "render vars dl ind tmpl s = Some s'" "k + int (length (fst s')) \<le> budget"
  shows "\<exists>q. Printer_Print vt vars tmpl p = Some q \<and> printing k dl ind s' q"
  unfolding Printer_Print_def by (rule loop_prints) (use assms in \<open>simp_all add: sub_def\<close>)

lemma printer_indents:
  "printing k dl ind s p \<Longrightarrow> printing k dl (ind @ cstring ''  '') s (Printer_Indent p)"
  by (auto simp: printing_def Printer_Indent_def printer_view_def)

lemma printer_outdents:
  "printing k dl (ind @ cstring ''  '') s p \<Longrightarrow> \<exists>q. Printer_Outdent p = Some q \<and> printing k dl ind s q"
  by (auto simp: printing_def Printer_Outdent_def printer_view_def)

lemma printer_ends:
  assumes "printing k dl ind s p" "\<not> pr_failed p"
  shows "\<exists>out. Printer_destroy vt p = Some out \<and> written out = fst s"
proof -
  have c: "co_ok vt ok lent 0 (printer_view vt p)" "co_written written (printer_view vt p) = fst s"
    using assms by (simp_all add: printing_def)
  have "CodedOutputStream_destroy vt (printer_view vt p) = Printer_destroy vt p"
    by (simp add: CodedOutputStream_destroy_def Printer_destroy_def printer_view_def)
  then show ?thesis using co_destroy_written [OF c(1)] c(2) by metis
qed

end

lemma string_never_fails: "never_fails StringOutput_vt"
  using string_next_buffer
  by (auto simp: never_fails_def StringOutput_vt_def StringOutputStream_Next_def Let_def split: if_splits)

text \<open>C36: A printer over a string, with any capacity and hence any sequence of buffers, appends exactly
  the rendering of its templates: variables expanded, a doubled delimiter kept as one, every line,
  a blank one too, indented by what \<open>Indent\<close> and \<open>Outdent\<close> set. It does not fail, and its destructor
  gives back the unused rest.\<close>

theorem Printer_renders:
  assumes target: "int (length target) \<le> cap" "cap \<le> INT_MAX"
    and t1: "render vars dl [] tmpl1 (target, True) = Some s1"
    and t2: "render vars dl (cstring ''  '') tmpl2 s1 = Some s2"
    and t3: "render vars dl [] tmpl3 s2 = Some s3"
    and small: "int (length (fst s3)) \<le> INT_MAX div 2"
  shows "\<exists>p1 p2 p3 p4 out.
    Printer_Print StringOutput_vt vars tmpl1 (Printer (StringOutputStream target cap) dl) = Some p1 \<and>
    Printer_Print StringOutput_vt vars tmpl2 (Printer_Indent p1) = Some p2 \<and>
    Printer_Outdent p2 = Some p3 \<and> Printer_Print StringOutput_vt vars tmpl3 p3 = Some p4 \<and>
    \<not> pr_failed p4 \<and> Printer_destroy StringOutput_vt p4 = Some out \<and> so_target out = fst s3"
proof -
  have "string_output_ok (StringOutputStream target cap)" by (rule string_output_ok_init [OF target])
  from so.printer_starts [OF this, of dl] have p0:
    "so.printing 0 dl [] (target, True) (Printer (StringOutputStream target cap) dl)"
    by (simp add: StringOutput_vt_def StringOutputStream_ByteCount_def StringOutputStream_def)
  have fits: "0 + int (length (fst s3)) \<le> INT_MAX div 2" "0 + int (length (fst s2)) \<le> INT_MAX div 2"
    "0 + int (length (fst s1)) \<le> INT_MAX div 2"
    using small render_extends [OF t2] render_extends [OF t3] by simp_all
  obtain p1 where p1: "Printer_Print StringOutput_vt vars tmpl1 (Printer (StringOutputStream target cap) dl) = Some p1"
    "so.printing 0 dl [] s1 p1" using so.print_prints [OF p0 t1 fits(3)] by blast
  from so.printer_indents [OF p1(2)] have "so.printing 0 dl (cstring ''  '') s1 (Printer_Indent p1)" by simp
  then obtain p2 where p2: "Printer_Print StringOutput_vt vars tmpl2 (Printer_Indent p1) = Some p2"
    "so.printing 0 dl (cstring ''  '') s2 p2" using so.print_prints [OF _ t2 fits(2)] by blast
  then obtain p3 where p3: "Printer_Outdent p2 = Some p3" "so.printing 0 dl [] s2 p3"
    using so.printer_outdents [of 0 dl "[]" s2 p2] by auto
  obtain p4 where p4: "Printer_Print StringOutput_vt vars tmpl3 p3 = Some p4" "so.printing 0 dl [] s3 p4"
    using so.print_prints [OF p3(2) t3 fits(1)] by blast
  then have ok: "\<not> pr_failed p4" using string_never_fails by (simp add: so.printing_def)
  obtain out where "Printer_destroy StringOutput_vt p4 = Some out" "so_target out = fst s3"
    using so.printer_ends [OF p4(2) ok] by blast
  then show ?thesis using p1(1) p2(1) p3(1) p4(1) ok by blast
qed

theorem Printer_renders_witness:
  "\<exists>p1 p2 p3 p4 out.
    Printer_Print StringOutput_vt [[97] \<mapsto> [120, 121]] [36, 97, 36, 10] (Printer (StringOutputStream [65] 3) 36) = Some p1 \<and>
    Printer_Print StringOutput_vt [[97] \<mapsto> [120, 121]] [36, 36, 10, 10] (Printer_Indent p1) = Some p2 \<and>
    Printer_Outdent p2 = Some p3 \<and> Printer_Print StringOutput_vt [[97] \<mapsto> [120, 121]] [66] p3 = Some p4 \<and>
    Printer_destroy StringOutput_vt p4 = Some out \<and>
    so_target out = [65, 120, 121, 10, 32, 32, 36, 10, 32, 32, 10, 66]"
proof -
  let ?v = "[[97] \<mapsto> [120, 121]] :: variables"
  have t: "render ?v 36 [] [36, 97, 36, 10] ([65], True) = Some ([65, 120, 121, 10], True)"
    "render ?v 36 (cstring ''  '') [36, 36, 10, 10] ([65, 120, 121, 10], True) =
      Some ([65, 120, 121, 10, 32, 32, 36, 10, 32, 32, 10], True)"
    "render ?v 36 [] [66] ([65, 120, 121, 10, 32, 32, 36, 10, 32, 32, 10], True) =
      Some ([65, 120, 121, 10, 32, 32, 36, 10, 32, 32, 10, 66], False)"
    by (simp_all add: render.simps put_def)
  have "int (length [65 :: byte]) \<le> 3" "(3 :: int) \<le> INT_MAX" "int (length (fst ([65, 120, 121, 10, 32, 32, 36, 10, 32, 32, 10, 66] :: bytes, False))) \<le> INT_MAX div 2"
    by (simp_all add: INT_MAX_def)
  from Printer_renders [OF this(1,2) t this(3)] show ?thesis by auto
qed

section \<open>After a failed write\<close>

lemma Print_loop_plain:
  assumes "i \<le> length tmpl" "\<forall>c\<in>set (drop i tmpl). c \<noteq> 10 \<and> c \<noteq> pr_variable_delimiter p"
  shows "Printer_Print_loop vt vars tmpl i 0 p = Printer_Write vt tmpl p"
  using assms
proof (induction "length tmpl - i" arbitrary: i)
  case 0
  then show ?case by (simp add: Printer_Print_loop.simps [of _ _ tmpl])
next
  case (Suc n)
  then have i: "i < length tmpl" by simp
  then have "tmpl ! i \<in> set (drop i tmpl)" by (metis Cons_nth_drop_Suc list.set_intros(1))
  moreover have "\<forall>c\<in>set (drop (i + 1) tmpl). c \<noteq> 10 \<and> c \<noteq> pr_variable_delimiter p"
    using Suc.prems(2) set_drop_subset_set_drop [of i "i + 1" tmpl] by auto
  ultimately show ?case
    using Suc.hyps(1) [of "i + 1"] Suc.hyps(2) Suc.prems(2) i
    by (simp add: Printer_Print_loop.simps [of _ _ tmpl i])
qed

text \<open>C37: Text that does not fit in an array makes \<open>Write\<close> fail with \<open>buffer_size_\<close> still the size of
  the filled buffer; the destructor then calls \<open>BackUp\<close> after a \<open>Next\<close> that returned false, which
  \<open>ArrayOutputStream\<close> does not allow: its check ends the process.\<close>

theorem Printer_destroy_after_failure:
  assumes "0 < length data" "length data < length tmpl" "\<forall>c\<in>set tmpl. c \<noteq> 10 \<and> c \<noteq> dl" "block_size \<le> 0"
  shows "\<exists>p. Printer_Print_text ArrayOutput_vt tmpl
      (Printer (ArrayOutputStream data (int (length data)) block_size) dl) = Some p \<and>
    pr_failed p \<and> Printer_destroy ArrayOutput_vt p = None"
proof -
  let ?p = "Printer (ArrayOutputStream data (int (length data)) block_size) dl"
  have "Printer_Print_text ArrayOutput_vt tmpl ?p = Printer_Write ArrayOutput_vt tmpl ?p"
    unfolding Printer_Print_text_def Printer_Print_def
    by (rule Print_loop_plain) (use assms(3) in \<open>auto simp: Printer_def\<close>)
  also have empty: "Printer_Write ArrayOutput_vt [] p = Some p" for p
    by (subst Printer_Write.simps) simp
  have "Printer_Write ArrayOutput_vt tmpl ?p =
      Printer_copy ArrayOutput_vt tmpl (?p\<lparr>pr_at_start_of_line := False\<rparr>)"
    using assms(2) by (subst Printer_Write.simps) (auto simp: Printer_def empty)
  finally have "Printer_Print_text ArrayOutput_vt tmpl ?p =
      Printer_copy ArrayOutput_vt tmpl (?p\<lparr>pr_at_start_of_line := False\<rparr>)" .
  note print = this
  define q where "q = ?p\<lparr>pr_at_start_of_line := False\<rparr>"
  note [simp] = q_def Printer_def pr_store_def array_output_defs ArrayOutputStream_def overwrite_def Let_def
  define n where "n = int (length data)"
  define lent1 where "lent1 = q\<lparr>pr_output := (pr_output q)\<lparr>ao_last_returned_size := n, ao_position := n\<rparr>,
    pr_buffer_size := n\<rparr>"
  have "Printer_copy ArrayOutput_vt tmpl q = Printer_copy ArrayOutput_vt tmpl lent1"
    using assms(1,2,4) by (subst Printer_copy.simps) (auto simp: lent1_def n_def)
  also have "\<dots> = Some (lent1\<lparr>pr_output := (pr_output (lent1))\<lparr>ao_data := take (length data) tmpl,
      ao_last_returned_size := 0\<rparr>, pr_failed := True\<rparr>)"
    using assms(1,2,4) by (subst Printer_copy.simps) (simp add: lent1_def n_def)
  finally show ?thesis
    using assms(1) unfolding print q_def [symmetric] by (simp add: lent1_def n_def Printer_destroy_def)
qed

theorem Printer_destroy_after_failure_witness:
  "\<exists>p. Printer_Print_text ArrayOutput_vt [65, 66, 67] (Printer (ArrayOutputStream [0, 0] 2 (- 1)) 36) = Some p \<and>
    Printer_destroy ArrayOutput_vt p = None"
  using Printer_destroy_after_failure [of "[0, 0]" "[65, 66, 67]" 36 "- 1"] by auto

end
