(* ===== verification/Tokenizer.thy ===== *)
theory Tokenizer
  imports TokenText ZeroCopyStream
begin

text \<open>
  \<open>io/tokenizer.cc\<close>: the \<open>Tokenizer\<close> over a zero-copy input stream. \<open>tk_buffer\<close> is the
  block the last \<open>Next\<close> returned (its length is \<open>buffer_size_\<close>, and it is empty where
  \<open>buffer_\<close> is \<open>NULL\<close>); the error collector is the list of the errors it was given. Lines and
  columns, in the code \<open>int\<close>s, are unbounded here. A byte adds at most one to the line, and at most
  eight to the column (a tab moves to the next multiple of eight), so both stay in range for an input
  of less than \<open>INT_MAX / 8\<close> bytes. A loop that need not end is a partial function.
\<close>

section \<open>State\<close>

datatype token_type =
  TYPE_START | TYPE_END | TYPE_IDENTIFIER | TYPE_INTEGER | TYPE_FLOAT | TYPE_STRING | TYPE_SYMBOL

datatype comment_style = CPP_COMMENT_STYLE | SH_COMMENT_STYLE

record token =
  t_type :: token_type
  t_text :: bytes
  t_line :: int
  t_column :: int

type_synonym scan_error = "int \<times> int \<times> string"

record 's tokenizer =
  tk_current :: token
  tk_input :: 's
  tk_errors :: "scan_error list"
  tk_current_char :: byte
  tk_buffer :: bytes
  tk_buffer_pos :: int
  tk_read_error :: bool
  tk_line :: int
  tk_column :: int
  tk_token_start :: int
  tk_allow_f :: bool
  tk_comment_style :: comment_style

definition kTabWidth :: int where
  "kTabWidth = 8"

definition tk_AddError :: "string \<Rightarrow> 's tokenizer \<Rightarrow> 's tokenizer" where
  "tk_AddError message t = t\<lparr>tk_errors := tk_errors t @ [(tk_line t, tk_column t, message)]\<rparr>"

section \<open>Reading characters\<close>

text \<open>The loop that skips empty blocks.\<close>

partial_function (option) tk_next_block :: "'s input_vt \<Rightarrow> 's \<Rightarrow> (bytes option \<times> 's) option" where
  "tk_next_block vt s =
    Option.bind (in_next vt s) (\<lambda>(r, s).
      case r of
        None \<Rightarrow> Some (None, s)
      | Some b \<Rightarrow> if b = [] then tk_next_block vt s else Some (Some b, s))"

definition Tokenizer_Refresh :: "'s input_vt \<Rightarrow> 's tokenizer \<Rightarrow> 's tokenizer option" where
  "Tokenizer_Refresh vt t =
    (if tk_read_error t then Some (t\<lparr>tk_current_char := 0\<rparr>)
     else
       (let size = int (length (tk_buffer t));
            t = (if 0 \<le> tk_token_start t \<and> tk_token_start t < size then
                   t\<lparr>tk_current := (tk_current t)\<lparr>t_text := t_text (tk_current t) @
                       mem_slice (tk_buffer t) (tk_token_start t) (size - tk_token_start t)\<rparr>,
                     tk_token_start := 0\<rparr>
                 else t);
            t = t\<lparr>tk_buffer := [], tk_buffer_pos := 0\<rparr>
        in Option.bind (tk_next_block vt (tk_input t)) (\<lambda>(r, input).
             case r of
               None \<Rightarrow> Some (t\<lparr>tk_input := input, tk_read_error := True, tk_current_char := 0\<rparr>)
             | Some b \<Rightarrow> Some (t\<lparr>tk_input := input, tk_buffer := b, tk_current_char := hd b\<rparr>))))"

definition Tokenizer_NextChar :: "'s input_vt \<Rightarrow> 's tokenizer \<Rightarrow> 's tokenizer option" where
  "Tokenizer_NextChar vt t =
    (let t = (if tk_current_char t = 10 then t\<lparr>tk_line := tk_line t + 1, tk_column := 0\<rparr>
              else if tk_current_char t = 9 then
                t\<lparr>tk_column := tk_column t + (kTabWidth - tk_column t mod kTabWidth)\<rparr>
              else t\<lparr>tk_column := tk_column t + 1\<rparr>);
         t = t\<lparr>tk_buffer_pos := tk_buffer_pos t + 1\<rparr>
     in if tk_buffer_pos t < int (length (tk_buffer t)) then
          Some (t\<lparr>tk_current_char := tk_buffer t ! nat (tk_buffer_pos t)\<rparr>)
        else Tokenizer_Refresh vt t)"

definition Tokenizer_new ::
  "'s input_vt \<Rightarrow> 's \<Rightarrow> byte \<Rightarrow> 's tokenizer option" where
  "Tokenizer_new vt input garbage =
    Tokenizer_Refresh vt
      \<lparr>tk_current = \<lparr>t_type = TYPE_START, t_text = [], t_line = 0, t_column = 0\<rparr>,
       tk_input = input, tk_errors = [], tk_current_char = garbage, tk_buffer = [],
       tk_buffer_pos = 0, tk_read_error = False, tk_line = 0, tk_column = 0,
       tk_token_start = -1, tk_allow_f = False, tk_comment_style = CPP_COMMENT_STYLE\<rparr>"

definition Tokenizer_destroy :: "'s input_vt \<Rightarrow> 's tokenizer \<Rightarrow> 's option" where
  "Tokenizer_destroy vt t =
    (if int (length (tk_buffer t)) > tk_buffer_pos t
     then in_backup vt (int (length (tk_buffer t)) - tk_buffer_pos t) (tk_input t)
     else Some (tk_input t))"

definition Tokenizer_set_allow_f_after_float :: "bool \<Rightarrow> 's tokenizer \<Rightarrow> 's tokenizer" where
  "Tokenizer_set_allow_f_after_float b t = t\<lparr>tk_allow_f := b\<rparr>"

definition Tokenizer_set_comment_style :: "comment_style \<Rightarrow> 's tokenizer \<Rightarrow> 's tokenizer" where
  "Tokenizer_set_comment_style style t = t\<lparr>tk_comment_style := style\<rparr>"

definition Tokenizer_current :: "'s tokenizer \<Rightarrow> token" where
  "Tokenizer_current t = tk_current t"

definition Tokenizer_StartToken :: "'s tokenizer \<Rightarrow> 's tokenizer" where
  "Tokenizer_StartToken t =
    t\<lparr>tk_token_start := tk_buffer_pos t,
      tk_current := \<lparr>t_type = TYPE_START, t_text = [], t_line = tk_line t, t_column = tk_column t\<rparr>\<rparr>"

definition Tokenizer_EndToken :: "'s tokenizer \<Rightarrow> 's tokenizer" where
  "Tokenizer_EndToken t =
    (let t = (if tk_buffer_pos t \<noteq> tk_token_start t then
           t\<lparr>tk_current := (tk_current t)\<lparr>t_text := t_text (tk_current t) @
             mem_slice (tk_buffer t) (tk_token_start t) (tk_buffer_pos t - tk_token_start t)\<rparr>\<rparr>
         else t)
     in t\<lparr>tk_token_start := -1\<rparr>)"

section \<open>Consuming characters\<close>

definition Tokenizer_LookingAt :: "char_class \<Rightarrow> 's tokenizer \<Rightarrow> bool" where
  "Tokenizer_LookingAt P t = P (tk_current_char t)"

definition Tokenizer_TryConsumeOne ::
  "'s input_vt \<Rightarrow> char_class \<Rightarrow> 's tokenizer \<Rightarrow> (bool \<times> 's tokenizer) option" where
  "Tokenizer_TryConsumeOne vt P t =
    (if P (tk_current_char t) then map_option (Pair True) (Tokenizer_NextChar vt t)
     else Some (False, t))"

definition Tokenizer_TryConsume ::
  "'s input_vt \<Rightarrow> byte \<Rightarrow> 's tokenizer \<Rightarrow> (bool \<times> 's tokenizer) option" where
  "Tokenizer_TryConsume vt c t =
    (if tk_current_char t = c then map_option (Pair True) (Tokenizer_NextChar vt t)
     else Some (False, t))"

partial_function (option) Tokenizer_ConsumeZeroOrMore ::
  "'s input_vt \<Rightarrow> char_class \<Rightarrow> 's tokenizer \<Rightarrow> 's tokenizer option" where
  "Tokenizer_ConsumeZeroOrMore vt P t =
    (if P (tk_current_char t) then
       Option.bind (Tokenizer_NextChar vt t) (Tokenizer_ConsumeZeroOrMore vt P)
     else Some t)"

definition Tokenizer_ConsumeOneOrMore ::
  "'s input_vt \<Rightarrow> char_class \<Rightarrow> string \<Rightarrow> 's tokenizer \<Rightarrow> 's tokenizer option" where
  "Tokenizer_ConsumeOneOrMore vt P error t =
    (if \<not> P (tk_current_char t) then Some (tk_AddError error t)
     else Option.bind (Tokenizer_NextChar vt t) (Tokenizer_ConsumeZeroOrMore vt P))"

section \<open>Strings, numbers and comments\<close>

text \<open>The escape sequence after a backslash; each error is reported at the current position.\<close>

definition tk_string_escape :: "'s input_vt \<Rightarrow> 's tokenizer \<Rightarrow> 's tokenizer option" where
  "tk_string_escape vt t = do {
     (b, t) \<leftarrow> Tokenizer_TryConsumeOne vt Escape t;
     if b then Some t
     else do {
       (b, t) \<leftarrow> Tokenizer_TryConsumeOne vt OctalDigit t;
       if b then Some t
       else do {
         (b, t) \<leftarrow> Tokenizer_TryConsume vt (asc CHR ''x'') t;
         (b, t) \<leftarrow> (if b then Some (True, t) else Tokenizer_TryConsume vt (asc CHR ''X'') t);
         if b then do {
           (b, t) \<leftarrow> Tokenizer_TryConsumeOne vt HexDigit t;
           Some (if b then t else tk_AddError ''Expected hex digits for escape sequence.'' t)
         }
         else Some (tk_AddError ''Invalid escape sequence in string literal.'' t)
       }
     }
   }"

partial_function (option) Tokenizer_ConsumeString ::
  "'s input_vt \<Rightarrow> byte \<Rightarrow> 's tokenizer \<Rightarrow> 's tokenizer option" where
  "Tokenizer_ConsumeString vt delimiter t =
    (if tk_current_char t = 0 \<or> tk_current_char t = 10 then
       Some (tk_AddError ''String literals cannot cross line boundaries.'' t)
     else if tk_current_char t = asc CHR 0x5C then
       Option.bind (Option.bind (Tokenizer_NextChar vt t) (tk_string_escape vt))
         (Tokenizer_ConsumeString vt delimiter)
     else if tk_current_char t = delimiter then Tokenizer_NextChar vt t
     else Option.bind (Tokenizer_NextChar vt t) (Tokenizer_ConsumeString vt delimiter))"

text \<open>\<open>TryConsume(a) || TryConsume(b)\<close>.\<close>

definition tk_TryConsume_either ::
  "'s input_vt \<Rightarrow> byte \<Rightarrow> byte \<Rightarrow> 's tokenizer \<Rightarrow> (bool \<times> 's tokenizer) option" where
  "tk_TryConsume_either vt a b t = do {
     (r, t) \<leftarrow> Tokenizer_TryConsume vt a t;
     if r then Some (True, t) else Tokenizer_TryConsume vt b t
   }"

definition tk_decimal_number ::
  "'s input_vt \<Rightarrow> bool \<Rightarrow> 's tokenizer \<Rightarrow> (bool \<times> 's tokenizer) option" where
  "tk_decimal_number vt started_with_dot t = do {
     t \<leftarrow> Tokenizer_ConsumeZeroOrMore vt Digit t;
     (is_float, t) \<leftarrow>
       (if started_with_dot then Some (True, t)
        else do {
          (b, t) \<leftarrow> Tokenizer_TryConsume vt (asc CHR ''.'') t;
          if b then do { t \<leftarrow> Tokenizer_ConsumeZeroOrMore vt Digit t; Some (True, t) }
          else Some (False, t)
        });
     (b, t) \<leftarrow> tk_TryConsume_either vt (asc CHR ''e'') (asc CHR ''E'') t;
     (is_float, t) \<leftarrow>
       (if b then do {
          (_, t) \<leftarrow> tk_TryConsume_either vt (asc CHR ''-'') (asc CHR ''+'') t;
          t \<leftarrow> Tokenizer_ConsumeOneOrMore vt Digit (CHR 0x22 # ''e'' @ CHR 0x22 # '' must be followed by exponent.'') t;
          Some (True, t)
        }
        else Some (is_float, t));
     if tk_allow_f t then do {
       (b, t) \<leftarrow> tk_TryConsume_either vt (asc CHR ''f'') (asc CHR ''F'') t;
       Some (is_float \<or> b, t)
     }
     else Some (is_float, t)
   }"

definition Tokenizer_ConsumeNumber ::
  "'s input_vt \<Rightarrow> bool \<Rightarrow> bool \<Rightarrow> 's tokenizer \<Rightarrow> (token_type \<times> 's tokenizer) option" where
  "Tokenizer_ConsumeNumber vt started_with_zero started_with_dot t = do {
     (hex, t) \<leftarrow>
       (if started_with_zero then tk_TryConsume_either vt (asc CHR ''x'') (asc CHR ''X'') t
        else Some (False, t));
     (is_float, t) \<leftarrow>
       (if hex then do {
          t \<leftarrow> Tokenizer_ConsumeOneOrMore vt HexDigit (CHR 0x22 # ''0x'' @ CHR 0x22 # '' must be followed by hex digits.'') t;
          Some (False, t)
        }
        else if started_with_zero \<and> Tokenizer_LookingAt Digit t then do {
          t \<leftarrow> Tokenizer_ConsumeZeroOrMore vt OctalDigit t;
          if Tokenizer_LookingAt Digit t then do {
            t \<leftarrow> Tokenizer_ConsumeZeroOrMore vt Digit
              (tk_AddError ''Numbers starting with leading zero must be in octal.'' t);
            Some (False, t)
          }
          else Some (False, t)
        }
        else tk_decimal_number vt started_with_dot t);
     let t = (if Tokenizer_LookingAt Letter t then
            tk_AddError ''Need space between number and identifier.'' t
          else if tk_current_char t = asc CHR ''.'' then
            (if is_float then
               tk_AddError ''Already saw decimal point or exponent; can't have another one.'' t
             else tk_AddError ''Hex and octal numbers must be integers.'' t)
          else t);
     Some (if is_float then TYPE_FLOAT else TYPE_INTEGER, t)
   }"

definition Tokenizer_ConsumeLineComment :: "'s input_vt \<Rightarrow> 's tokenizer \<Rightarrow> 's tokenizer option" where
  "Tokenizer_ConsumeLineComment vt t = do {
     t \<leftarrow> Tokenizer_ConsumeZeroOrMore vt (\<lambda>c. c \<noteq> 0 \<and> c \<noteq> 10) t;
     (_, t) \<leftarrow> Tokenizer_TryConsume vt 10 t;
     Some t
   }"

partial_function (option) tk_block_comment_loop ::
  "'s input_vt \<Rightarrow> int \<Rightarrow> int \<Rightarrow> 's tokenizer \<Rightarrow> 's tokenizer option" where
  "tk_block_comment_loop vt start_line start_column t = do {
     t \<leftarrow> Tokenizer_ConsumeZeroOrMore vt
       (\<lambda>c. c \<noteq> 0 \<and> c \<noteq> asc CHR ''*'' \<and> c \<noteq> asc CHR ''/'') t;
     (star, t) \<leftarrow> Tokenizer_TryConsume vt (asc CHR ''*'') t;
     (closed, t) \<leftarrow> (if star then Tokenizer_TryConsume vt (asc CHR ''/'') t else Some (False, t));
     if closed then Some t
     else do {
       (slash, t) \<leftarrow> Tokenizer_TryConsume vt (asc CHR ''/'') t;
       if slash \<and> tk_current_char t = asc CHR ''*'' then
         tk_block_comment_loop vt start_line start_column
           (tk_AddError (CHR 0x22 # ''/*'' @ CHR 0x22 # '' inside block comment.  Block comments cannot be nested.'') t)
       else if tk_current_char t = 0 then
         (let t = tk_AddError ''End-of-file inside block comment.'' t
          in Some (t\<lparr>tk_errors := tk_errors t @ [(start_line, start_column, ''  Comment started here.'')]\<rparr>))
       else tk_block_comment_loop vt start_line start_column t
     }
   }"

definition Tokenizer_ConsumeBlockComment :: "'s input_vt \<Rightarrow> 's tokenizer \<Rightarrow> 's tokenizer option" where
  "Tokenizer_ConsumeBlockComment vt t = tk_block_comment_loop vt (tk_line t) (tk_column t - 2) t"

section \<open>The next token\<close>

definition tk_set_type :: "token_type \<Rightarrow> 's tokenizer \<Rightarrow> 's tokenizer" where
  "tk_set_type ty t = t\<lparr>tk_current := (tk_current t)\<lparr>t_type := ty\<rparr>\<rparr>"

text \<open>The token that starts at the current character, from \<open>StartToken\<close> to \<open>EndToken\<close>.\<close>

definition tk_token_body ::
  "'s input_vt \<Rightarrow> token_type \<Rightarrow> bool \<Rightarrow> 's tokenizer \<Rightarrow> (token_type \<times> 's tokenizer) option" where
  "tk_token_body vt last_token_type skipped_stuff t = do {
     (b, t) \<leftarrow> Tokenizer_TryConsumeOne vt Letter t;
     if b then map_option (Pair TYPE_IDENTIFIER) (Tokenizer_ConsumeZeroOrMore vt Alphanumeric t)
     else do {
       (b, t) \<leftarrow> Tokenizer_TryConsume vt (asc CHR ''0'') t;
       if b then Tokenizer_ConsumeNumber vt True False t
       else do {
         (b, t) \<leftarrow> Tokenizer_TryConsume vt (asc CHR ''.'') t;
         if b then do {
           (b, t) \<leftarrow> Tokenizer_TryConsumeOne vt Digit t;
           if b then
             Tokenizer_ConsumeNumber vt False True
               (if last_token_type = TYPE_IDENTIFIER \<and> \<not> skipped_stuff then
                  t\<lparr>tk_errors := tk_errors t @ [(tk_line t, tk_column t - 2,
                    ''Need space between identifier and decimal point.'')]\<rparr>
                else t)
           else Some (TYPE_SYMBOL, t)
         }
         else do {
           (b, t) \<leftarrow> Tokenizer_TryConsumeOne vt Digit t;
           if b then Tokenizer_ConsumeNumber vt False False t
           else do {
             (b, t) \<leftarrow> Tokenizer_TryConsume vt (asc CHR 0x22) t;
             if b then map_option (Pair TYPE_STRING) (Tokenizer_ConsumeString vt (asc CHR 0x22) t)
             else do {
               (b, t) \<leftarrow> Tokenizer_TryConsume vt (asc CHR 0x27) t;
               if b then map_option (Pair TYPE_STRING) (Tokenizer_ConsumeString vt (asc CHR 0x27) t)
               else map_option (Pair TYPE_SYMBOL) (Tokenizer_NextChar vt t)
             }
           }
         }
       }
     }
   }"

definition tk_read_token ::
  "'s input_vt \<Rightarrow> token_type \<Rightarrow> bool \<Rightarrow> 's tokenizer \<Rightarrow> 's tokenizer option" where
  "tk_read_token vt last_token_type skipped_stuff t = do {
     (ty, t) \<leftarrow> tk_token_body vt last_token_type skipped_stuff (Tokenizer_StartToken t);
     Some (Tokenizer_EndToken (tk_set_type ty t))
   }"

text \<open>The inner loop over control characters, which must not take the \<open>NUL\<close> of the end of the
  input for one of them.\<close>

partial_function (option) tk_skip_unprintable :: "'s input_vt \<Rightarrow> 's tokenizer \<Rightarrow> 's tokenizer option" where
  "tk_skip_unprintable vt t = do {
     (b, t) \<leftarrow> Tokenizer_TryConsumeOne vt Unprintable t;
     (b, t) \<leftarrow> (if b then Some (True, t)
        else if \<not> tk_read_error t then Tokenizer_TryConsume vt 0 t else Some (False, t));
     if b then tk_skip_unprintable vt t else Some t
   }"

text \<open>
  One round of the main loop: \<open>True\<close> with a token read, \<open>False\<close> with something skipped.
\<close>

definition tk_Next_round ::
  "'s input_vt \<Rightarrow> token_type \<Rightarrow> bool \<Rightarrow> 's tokenizer \<Rightarrow> (bool \<times> 's tokenizer) option" where
  "tk_Next_round vt last_token_type skipped_stuff t = do {
     (b, t) \<leftarrow> Tokenizer_TryConsumeOne vt Whitespace t;
     if b then map_option (Pair False) (Tokenizer_ConsumeZeroOrMore vt Whitespace t)
     else do {
       (b, t) \<leftarrow> (if tk_comment_style t = CPP_COMMENT_STYLE
          then Tokenizer_TryConsume vt (asc CHR ''/'') t else Some (False, t));
       if b then do {
         (b, t) \<leftarrow> Tokenizer_TryConsume vt (asc CHR ''/'') t;
         if b then map_option (Pair False) (Tokenizer_ConsumeLineComment vt t)
         else do {
           (b, t) \<leftarrow> Tokenizer_TryConsume vt (asc CHR ''*'') t;
           if b then map_option (Pair False) (Tokenizer_ConsumeBlockComment vt t)
           else Some (True, t\<lparr>tk_current := \<lparr>t_type = TYPE_SYMBOL, t_text = [asc CHR ''/''],
             t_line = tk_line t, t_column = tk_column t - 1\<rparr>\<rparr>)
         }
       }
       else do {
         (b, t) \<leftarrow> (if tk_comment_style t = SH_COMMENT_STYLE
            then Tokenizer_TryConsume vt (asc CHR ''#'') t else Some (False, t));
         if b then map_option (Pair False) (Tokenizer_ConsumeLineComment vt t)
         else if Tokenizer_LookingAt Unprintable t \<or> tk_current_char t = 0 then do {
           t \<leftarrow> Tokenizer_NextChar vt (tk_AddError ''Invalid control characters encountered in text.'' t);
           map_option (Pair False) (tk_skip_unprintable vt t)
         }
         else map_option (Pair True) (tk_read_token vt last_token_type skipped_stuff t)
       }
     }
   }"

partial_function (option) tk_Next_loop ::
  "'s input_vt \<Rightarrow> token_type \<Rightarrow> bool \<Rightarrow> 's tokenizer \<Rightarrow> (bool \<times> 's tokenizer) option" where
  "tk_Next_loop vt last_token_type skipped_stuff t =
    (if tk_read_error t then
       Some (False, t\<lparr>tk_current := \<lparr>t_type = TYPE_END, t_text = [], t_line = tk_line t,
         t_column = tk_column t\<rparr>\<rparr>)
     else
       Option.bind (tk_Next_round vt last_token_type skipped_stuff t) (\<lambda>(r, t).
         if r then Some (True, t) else tk_Next_loop vt last_token_type True t))"

definition Tokenizer_Next :: "'s input_vt \<Rightarrow> 's tokenizer \<Rightarrow> (bool \<times> 's tokenizer) option" where
  "Tokenizer_Next vt t = tk_Next_loop vt (t_type (tk_current t)) False t"

end
