(* ===== verification/TokenizerView.thy ===== *)
theory TokenizerView
  imports Tokenizer
begin

text \<open>
  What a client of the tokenizer can see: the characters still to come, the position, the errors, the
  token. The view does not mention the blocks of the stream, and reading a character is a function on
  views; a lemma for each operation then relates any two tokenizers with the same view, over any two
  streams that keep their contract, and bounds what is left to read, which gives termination.
\<close>

section \<open>The view\<close>

record scan =
  s_rest :: bytes
  s_eof :: bool
  s_line :: int
  s_column :: int
  s_errors :: "scan_error list"
  s_type :: token_type
  s_text :: bytes
  s_token_line :: int
  s_token_column :: int
  s_in_token :: bool
  s_allow_f :: bool
  s_style :: comment_style

definition tk_rest :: "('s \<Rightarrow> bytes) \<Rightarrow> 's tokenizer \<Rightarrow> bytes" where
  "tk_rest avail t =
    (if tk_read_error t then [] else drop (nat (tk_buffer_pos t)) (tk_buffer t) @ avail (tk_input t))"

definition tk_text_so_far :: "'s tokenizer \<Rightarrow> bytes" where
  "tk_text_so_far t = t_text (tk_current t) @
    (if tk_token_start t < 0 then []
     else mem_slice (tk_buffer t) (tk_token_start t) (tk_buffer_pos t - tk_token_start t))"

definition tk_view :: "('s \<Rightarrow> bytes) \<Rightarrow> 's tokenizer \<Rightarrow> scan" where
  "tk_view avail t =
    \<lparr>s_rest = tk_rest avail t, s_eof = tk_read_error t, s_line = tk_line t, s_column = tk_column t,
     s_errors = tk_errors t, s_type = t_type (tk_current t), s_text = tk_text_so_far t,
     s_token_line = t_line (tk_current t), s_token_column = t_column (tk_current t),
     s_in_token = (0 \<le> tk_token_start t), s_allow_f = tk_allow_f t, s_style = tk_comment_style t\<rparr>"

definition tk_ok :: "('s \<Rightarrow> bool) \<Rightarrow> ('s \<Rightarrow> bytes) \<Rightarrow> 's tokenizer \<Rightarrow> bool" where
  "tk_ok ok avail t \<longleftrightarrow> ok (tk_input t) \<and> - 1 \<le> tk_token_start t \<and> tk_token_start t \<le> tk_buffer_pos t \<and>
    (if tk_read_error t
     then tk_buffer t = [] \<and> tk_buffer_pos t = 0 \<and> tk_current_char t = 0 \<and> avail (tk_input t) = []
     else 0 \<le> tk_buffer_pos t \<and> tk_buffer_pos t < int (length (tk_buffer t)) \<and>
       tk_current_char t = tk_buffer t ! nat (tk_buffer_pos t))"

definition scan_next :: "scan \<Rightarrow> scan" where
  "scan_next v =
    (let c = hd (s_rest v) in
     v\<lparr>s_rest := tl (s_rest v), s_eof := (tl (s_rest v) = []),
       s_line := (if c = 10 then s_line v + 1 else s_line v),
       s_column := (if c = 10 then 0
         else if c = 9 then s_column v + (kTabWidth - s_column v mod kTabWidth) else s_column v + 1),
       s_text := (if s_in_token v then s_text v @ [c] else s_text v)\<rparr>)"

definition scan_char :: "scan \<Rightarrow> byte" where
  "scan_char v = (if s_eof v then 0 else hd (s_rest v))"

text \<open>The updates that read nothing.\<close>

lemma view_errors [simp]:
  "tk_view avail (t\<lparr>tk_errors := es\<rparr>) = (tk_view avail t)\<lparr>s_errors := es\<rparr>"
  "tk_ok ok avail (t\<lparr>tk_errors := es\<rparr>) = tk_ok ok avail t"
  by (simp_all add: tk_view_def tk_rest_def tk_text_so_far_def tk_ok_def)

lemma view_options [simp]:
  "tk_view avail (Tokenizer_set_comment_style style (Tokenizer_set_allow_f_after_float allow_f t)) =
    (tk_view avail t)\<lparr>s_allow_f := allow_f, s_style := style\<rparr>"
  "tk_ok ok avail (Tokenizer_set_comment_style style (Tokenizer_set_allow_f_after_float allow_f t)) = tk_ok ok avail t"
  by (simp_all add: tk_view_def tk_rest_def tk_text_so_far_def tk_ok_def Tokenizer_set_comment_style_def
      Tokenizer_set_allow_f_after_float_def)

lemma view_set_type [simp]:
  "tk_view avail (tk_set_type ty t) = (tk_view avail t)\<lparr>s_type := ty\<rparr>"
  "tk_ok ok avail (tk_set_type ty t) = tk_ok ok avail t"
  by (simp_all add: tk_view_def tk_rest_def tk_text_so_far_def tk_ok_def tk_set_type_def)

lemma view_current:
  "\<not> s_in_token (tk_view avail t) \<Longrightarrow> tk_view avail (t\<lparr>tk_current := tok\<rparr>) = (tk_view avail t)
    \<lparr>s_type := t_type tok, s_text := t_text tok, s_token_line := t_line tok, s_token_column := t_column tok\<rparr>"
  "tk_ok ok avail (t\<lparr>tk_current := tok\<rparr>) = tk_ok ok avail t"
  by (simp_all add: tk_view_def tk_rest_def tk_text_so_far_def tk_ok_def)

lemma view_start:
  assumes "tk_ok ok avail t"
  shows "tk_view avail (Tokenizer_StartToken t) = (tk_view avail t)\<lparr>s_type := TYPE_START, s_text := [],
      s_token_line := s_line (tk_view avail t), s_token_column := s_column (tk_view avail t), s_in_token := True\<rparr>"
    "tk_ok ok avail (Tokenizer_StartToken t)"
  using assms
  by (auto simp: tk_view_def tk_rest_def tk_text_so_far_def tk_ok_def Tokenizer_StartToken_def split: if_splits)

lemma view_end:
  assumes "tk_ok ok avail t" "s_in_token (tk_view avail t)"
  shows "tk_view avail (Tokenizer_EndToken t) = (tk_view avail t)\<lparr>s_in_token := False\<rparr>"
    "tk_ok ok avail (Tokenizer_EndToken t)"
  using assms
  by (auto simp: tk_view_def tk_rest_def tk_text_so_far_def tk_ok_def Tokenizer_EndToken_def Let_def
      split: if_splits)

context zero_copy_input
begin

lemma next_block_returns:
  assumes "ok s"
  shows "\<exists>r s'. tk_next_block vt s = Some (r, s') \<and> ok s' \<and>
    (case r of None \<Rightarrow> avail s = [] \<and> avail s' = [] | Some b \<Rightarrow> b \<noteq> [] \<and> avail s = b @ avail s')"
  using assms
proof (induction "rank s" arbitrary: s rule: less_induct)
  case less
  obtain r s1 where n: "in_next vt s = Some (r, s1)" using next_returns [OF less.prems] by blast
  show ?case
  proof (cases r)
    case None
    then show ?thesis using n next_end [OF less.prems] by (subst tk_next_block.simps) auto
  next
    case (Some b)
    have b: "ok s1" "avail s = b @ avail s1" "rank s1 < rank s"
      using next_block [OF less.prems] n Some by auto
    show ?thesis
    proof (cases "b = []")
      case True
      then have skip: "tk_next_block vt s = tk_next_block vt s1" "avail s = avail s1"
        using b(2) n Some by (subst tk_next_block.simps, simp_all)
      show ?thesis unfolding skip by (rule less.hyps [OF b(3,1)])
    next
      case False
      then show ?thesis using b n Some by (subst tk_next_block.simps) simp
    qed
  qed
qed

lemma view_char: "tk_ok ok avail t \<Longrightarrow> tk_current_char t = scan_char (tk_view avail t)"
  by (auto simp: tk_ok_def scan_char_def tk_view_def tk_rest_def hd_append hd_drop_conv_nth)

text \<open>Refilling the buffer, with the position at its end.\<close>

lemma refresh_view:
  assumes t: "ok (tk_input t)" "- 1 \<le> tk_token_start t" "tk_token_start t \<le> tk_buffer_pos t"
    "0 \<le> tk_buffer_pos t" "tk_buffer_pos t = int (length (tk_buffer t))" "\<not> tk_read_error t"
    "0 \<le> tk_token_start t \<Longrightarrow> tk_token_start t < tk_buffer_pos t"
  shows "\<exists>t'. Tokenizer_Refresh vt t = Some t' \<and> tk_ok ok avail t' \<and>
    tk_view avail t' = (tk_view avail t)\<lparr>s_eof := (avail (tk_input t) = [])\<rparr>"
proof -
  obtain r s' where r: "tk_next_block vt (tk_input t) = Some (r, s')" "ok s'"
    "case r of None \<Rightarrow> avail (tk_input t) = [] \<and> avail s' = []
       | Some b \<Rightarrow> b \<noteq> [] \<and> avail (tk_input t) = b @ avail s'"
    using next_block_returns [OF t(1)] by blast
  show ?thesis
  proof (cases r)
    case None
    then show ?thesis using r t
      by (cases "0 \<le> tk_token_start t")
        (auto simp: Tokenizer_Refresh_def Let_def tk_ok_def tk_view_def tk_rest_def tk_text_so_far_def)
  next
    case (Some b)
    then show ?thesis using r t
      by (cases "0 \<le> tk_token_start t")
        (auto simp: Tokenizer_Refresh_def Let_def tk_ok_def tk_view_def tk_rest_def tk_text_so_far_def
          hd_conv_nth)
  qed
qed

lemma next_char_view:
  assumes t: "tk_ok ok avail t" "\<not> tk_read_error t"
  shows "\<exists>t'. Tokenizer_NextChar vt t = Some t' \<and> tk_ok ok avail t' \<and>
    tk_view avail t' = scan_next (tk_view avail t)"
proof -
  let ?p = "nat (tk_buffer_pos t)"
  have pos: "0 \<le> tk_buffer_pos t" "tk_buffer_pos t < int (length (tk_buffer t))" "?p < length (tk_buffer t)"
    "nat (tk_buffer_pos t + 1) = Suc ?p"
    using t by (auto simp: tk_ok_def)
  have rest: "drop ?p (tk_buffer t) = tk_current_char t # drop (Suc ?p) (tk_buffer t)"
    using t pos(3) by (simp add: tk_ok_def Cons_nth_drop_Suc)
  have grow: "mem_slice (tk_buffer t) a (tk_buffer_pos t + 1 - a) =
      mem_slice (tk_buffer t) a (tk_buffer_pos t - a) @ [tk_current_char t]"
    if "0 \<le> a" "a \<le> tk_buffer_pos t" for a
  proof -
    have "nat (tk_buffer_pos t + 1 - a) = Suc (?p - nat a)" "nat (tk_buffer_pos t - a) = ?p - nat a"
      using that by auto
    moreover have "?p - nat a < length (drop (nat a) (tk_buffer t))" "drop (nat a) (tk_buffer t) ! (?p - nat a) = tk_current_char t"
      using that pos t by (simp_all add: tk_ok_def)
    ultimately show ?thesis by (simp add: mem_slice_def take_Suc_conv_app_nth)
  qed
  define t1 where "t1 = (if tk_current_char t = 10 then t\<lparr>tk_line := tk_line t + 1, tk_column := 0\<rparr>
              else if tk_current_char t = 9 then
                t\<lparr>tk_column := tk_column t + (kTabWidth - tk_column t mod kTabWidth)\<rparr>
              else t\<lparr>tk_column := tk_column t + 1\<rparr>)\<lparr>tk_buffer_pos := tk_buffer_pos t + 1\<rparr>"
  have t1: "tk_input t1 = tk_input t" "tk_buffer t1 = tk_buffer t" "tk_token_start t1 = tk_token_start t"
    "tk_buffer_pos t1 = tk_buffer_pos t + 1" "tk_read_error t1 = tk_read_error t"
    by (auto simp: t1_def)
  have view1: "tk_view avail t1 = (scan_next (tk_view avail t))\<lparr>s_eof := False\<rparr>"
    using t(2) pos(4) rest grow [of "tk_token_start t"] t(1)
    by (cases "0 \<le> tk_token_start t")
      (auto simp: t1_def tk_view_def scan_next_def tk_rest_def tk_text_so_far_def Let_def tk_ok_def
        simp del: append_assoc)
  have rest1: "s_rest (tk_view avail t) = tk_current_char t # drop (Suc ?p) (tk_buffer t) @ avail (tk_input t)"
    using t(2) rest by (simp add: tk_view_def tk_rest_def)
  have step: "Tokenizer_NextChar vt t =
      (if tk_buffer_pos t1 < int (length (tk_buffer t1)) then
         Some (t1\<lparr>tk_current_char := tk_buffer t1 ! nat (tk_buffer_pos t1)\<rparr>)
       else Tokenizer_Refresh vt t1)"
    by (simp add: Tokenizer_NextChar_def t1_def Let_def)
  show ?thesis
  proof (cases "tk_buffer_pos t1 < int (length (tk_buffer t1))")
    case True
    let ?t = "t1\<lparr>tk_current_char := tk_buffer t1 ! nat (tk_buffer_pos t1)\<rparr>"
    have "tk_ok ok avail ?t" using t True t1 by (simp add: tk_ok_def)
    moreover have "tk_view avail ?t = tk_view avail t1"
      by (simp add: tk_view_def tk_rest_def tk_text_so_far_def)
    moreover have "drop (Suc ?p) (tk_buffer t) \<noteq> []" using True t1 pos(1) by simp
    then have "tk_view avail t1 = scan_next (tk_view avail t)"
      unfolding view1 using rest1 by (simp add: scan_next_def Let_def)
    ultimately show ?thesis using step True by simp
  next
    case False
    then have full: "tk_buffer_pos t1 = int (length (tk_buffer t1))" using pos t1 by simp
    have "\<exists>t'. Tokenizer_Refresh vt t1 = Some t' \<and> tk_ok ok avail t' \<and>
        tk_view avail t' = (tk_view avail t1)\<lparr>s_eof := (avail (tk_input t1) = [])\<rparr>"
      by (rule refresh_view) (use t t1 pos full in \<open>auto simp: tk_ok_def\<close>)
    moreover have "drop (Suc ?p) (tk_buffer t) = []" using full t1 pos(4) by simp
    then have "(tk_view avail t1)\<lparr>s_eof := (avail (tk_input t1) = [])\<rparr> = scan_next (tk_view avail t)"
      unfolding view1 using rest1 t1(1) by (simp add: scan_next_def Let_def)
    ultimately show ?thesis using step False by simp
  qed
qed

end

end
