(* ===== verification/TokenizerPairs.thy ===== *)
theory TokenizerPairs
  imports TokenizerView
begin

text \<open>
  Two tokenizers in step: over any two streams that keep their contract, tokenizers with the same
  view return the same results and have the same view again, and every loop comes to its end. The
  rules below follow the shape of the code, one for each way of combining calls, so that an operation
  is proved by applying them.
\<close>

locale tokenizer_pair =
  a: zero_copy_input vt1 ok1 avail1 last1 rank1 + b: zero_copy_input vt2 ok2 avail2 last2 rank2
  for vt1 :: "'s input_vt" and ok1 avail1 last1 rank1
    and vt2 :: "'t input_vt" and ok2 avail2 last2 rank2
begin

definition sim :: "bool \<Rightarrow> 's tokenizer \<Rightarrow> 't tokenizer \<Rightarrow> bool" where
  "sim in_token t u \<longleftrightarrow> tk_ok ok1 avail1 t \<and> tk_ok ok2 avail2 u \<and> tk_view avail1 t = tk_view avail2 u \<and>
    s_in_token (tk_view avail1 t) = in_token"

definition left :: "'s tokenizer \<Rightarrow> nat" where
  "left t = length (s_rest (tk_view avail1 t))"

text \<open>Two calls with the same result, after which at most \<open>n\<close> bytes are left; without a result.\<close>

definition same :: "bool \<Rightarrow> nat \<Rightarrow> ('r \<times> 's tokenizer) option \<Rightarrow> ('r \<times> 't tokenizer) option \<Rightarrow> bool" where
  "same i n F G \<longleftrightarrow> (\<exists>r t u. F = Some (r, t) \<and> G = Some (r, u) \<and> sim i t u \<and> left t \<le> n)"

definition same1 :: "bool \<Rightarrow> nat \<Rightarrow> 's tokenizer option \<Rightarrow> 't tokenizer option \<Rightarrow> bool" where
  "same1 i n F G \<longleftrightarrow> (\<exists>t u. F = Some t \<and> G = Some u \<and> sim i t u \<and> left t \<le> n)"

lemma sim_fields:
  assumes "sim i t u"
  shows "tk_current_char u = tk_current_char t \<and> tk_read_error u = tk_read_error t \<and> tk_line u = tk_line t \<and>
    tk_column u = tk_column t \<and> tk_errors u = tk_errors t \<and> tk_allow_f u = tk_allow_f t \<and>
    tk_comment_style u = tk_comment_style t \<and> t_type (tk_current u) = t_type (tk_current t) \<and>
    (tk_read_error t \<longrightarrow> tk_current_char t = 0) \<and> (tk_token_start t < 0 \<longleftrightarrow> \<not> i) \<and> (tk_token_start u < 0 \<longleftrightarrow> \<not> i)"
proof -
  have v: "tk_ok ok1 avail1 t" "tk_ok ok2 avail2 u" "tk_view avail1 t = tk_view avail2 u"
    using assms by (simp_all add: sim_def)
  show ?thesis
    using assms a.view_char [OF v(1)] b.view_char [OF v(2)] v(3)
    by (auto simp: sim_def tk_view_def scan_char_def)
qed

lemma sim_next:
  assumes "sim i t u" "\<not> tk_read_error t"
  shows "\<exists>t' u'. Tokenizer_NextChar vt1 t = Some t' \<and> Tokenizer_NextChar vt2 u = Some u' \<and> sim i t' u' \<and>
    left t' < left t"
proof -
  have v: "tk_ok ok1 avail1 t" "tk_ok ok2 avail2 u" "tk_view avail1 t = tk_view avail2 u" "\<not> tk_read_error u"
    using assms sim_fields [OF assms(1)] by (simp_all add: sim_def)
  have "s_rest (tk_view avail1 t) \<noteq> []"
    using v(1) assms(2) by (auto simp: tk_view_def tk_rest_def tk_ok_def)
  then have "length (tl (s_rest (tk_view avail1 t))) < length (s_rest (tk_view avail1 t))" by simp
  then show ?thesis
    using a.next_char_view [OF v(1) assms(2)] b.next_char_view [OF v(2,4)] v(3) assms(1)
    by (fastforce simp: sim_def left_def scan_next_def Let_def)
qed

section \<open>Combining calls\<close>

lemma sameI: "sim i t u \<Longrightarrow> left t \<le> n \<Longrightarrow> same i n (Some (r, t)) (Some (r, u))"
  by (auto simp: same_def)

lemma same1I: "sim i t u \<Longrightarrow> left t \<le> n \<Longrightarrow> same1 i n (Some t) (Some u)"
  by (auto simp: same1_def)

lemma same_mono: "same i m F G \<Longrightarrow> m \<le> n \<Longrightarrow> same i n F G"
  by (fastforce simp: same_def)

lemma same1_mono: "same1 i m F G \<Longrightarrow> m \<le> n \<Longrightarrow> same1 i n F G"
  by (fastforce simp: same1_def)

lemma map_pair: "same1 i n F G \<Longrightarrow> same i n (map_option (Pair r) F) (map_option (Pair r) G)"
  by (auto simp: same_def same1_def)

lemma bindI:
  "same i m F G \<Longrightarrow> (\<And>r t u. sim i t u \<Longrightarrow> left t \<le> m \<Longrightarrow> R (K r t) (L r u)) \<Longrightarrow>
    R (Option.bind F (\<lambda>(r, t). K r t)) (Option.bind G (\<lambda>(r, u). L r u))"
  by (auto simp: same_def)

lemma bindI1:
  "same1 i m F G \<Longrightarrow> (\<And>t u. sim i t u \<Longrightarrow> left t \<le> m \<Longrightarrow> R (K t) (L u)) \<Longrightarrow>
    R (Option.bind F K) (Option.bind G L)"
  by (auto simp: same1_def)

lemma bind_next:
  "sim i t u \<Longrightarrow> \<not> tk_read_error t \<Longrightarrow> (\<And>t' u'. sim i t' u' \<Longrightarrow> left t' < left t \<Longrightarrow> R (K t') (L u')) \<Longrightarrow>
    R (Option.bind (Tokenizer_NextChar vt1 t) K) (Option.bind (Tokenizer_NextChar vt2 u) L)"
  using sim_next [of i t u] by auto

lemma tail_next:
  "sim i t u \<Longrightarrow> \<not> tk_read_error t \<Longrightarrow> left t \<le> Suc n \<Longrightarrow>
    same1 i n (Tokenizer_NextChar vt1 t) (Tokenizer_NextChar vt2 u)"
  using sim_next [of i t u] by (fastforce simp: same1_def)

text \<open>A test that may consume a character: both do, with one byte less, or neither does.\<close>

lemma try_one_cases:
  assumes s: "sim i t u" and "\<not> P 0 \<or> \<not> tk_read_error t"
  obtains (yes) t' u' where "Tokenizer_TryConsumeOne vt1 P t = Some (True, t')"
      "Tokenizer_TryConsumeOne vt2 P u = Some (True, u')" "sim i t' u'" "left t' < left t" "P (tk_current_char t)"
    | (no) "Tokenizer_TryConsumeOne vt1 P t = Some (False, t)"
      "Tokenizer_TryConsumeOne vt2 P u = Some (False, u)" "\<not> P (tk_current_char t)"
proof (cases "P (tk_current_char t)")
  case True
  then have "\<not> tk_read_error t" using assms(2) sim_fields [OF s] by auto
  from sim_next [OF s this] obtain t' u' where "Tokenizer_NextChar vt1 t = Some t'"
    "Tokenizer_NextChar vt2 u = Some u'" "sim i t' u'" "left t' < left t" by blast
  then show thesis using yes True sim_fields [OF s] by (simp add: Tokenizer_TryConsumeOne_def)
next
  case False
  then show thesis using no sim_fields [OF s] by (simp add: Tokenizer_TryConsumeOne_def)
qed

lemma try_is_try_one: "Tokenizer_TryConsume vt c t = Tokenizer_TryConsumeOne vt (\<lambda>x. x = c) t"
  by (simp add: Tokenizer_TryConsume_def Tokenizer_TryConsumeOne_def)

lemma bind_try_one:
  assumes "sim i t u" "\<not> P 0 \<or> \<not> tk_read_error t"
    "\<And>t' u'. sim i t' u' \<Longrightarrow> left t' < left t \<Longrightarrow> P (tk_current_char t) \<Longrightarrow> R (K True t') (L True u')"
    "\<not> P (tk_current_char t) \<Longrightarrow> R (K False t) (L False u)"
  shows "R (Option.bind (Tokenizer_TryConsumeOne vt1 P t) (\<lambda>(r, t). K r t))
      (Option.bind (Tokenizer_TryConsumeOne vt2 P u) (\<lambda>(r, u). L r u))"
  using assms(1,2) by (cases rule: try_one_cases) (use assms(3,4) in simp_all)

lemma bind_try:
  "sim i t u \<Longrightarrow> c \<noteq> 0 \<or> \<not> tk_read_error t \<Longrightarrow>
    (\<And>t' u'. sim i t' u' \<Longrightarrow> left t' < left t \<Longrightarrow> tk_current_char t = c \<Longrightarrow> R (K True t') (L True u')) \<Longrightarrow>
    (tk_current_char t \<noteq> c \<Longrightarrow> R (K False t) (L False u)) \<Longrightarrow>
    R (Option.bind (Tokenizer_TryConsume vt1 c t) (\<lambda>(r, t). K r t))
      (Option.bind (Tokenizer_TryConsume vt2 c u) (\<lambda>(r, u). L r u))"
  unfolding try_is_try_one by (rule bind_try_one) auto

lemma tail_try:
  assumes "sim i t u" "c \<noteq> 0 \<or> \<not> tk_read_error t" "left t \<le> n"
  shows "same i n (Tokenizer_TryConsume vt1 c t) (Tokenizer_TryConsume vt2 c u)"
proof -
  have "\<not> 0 = c \<or> \<not> tk_read_error t" using assms(2) by auto
  from assms(1) this show ?thesis unfolding try_is_try_one
    by (cases rule: try_one_cases) (use assms(1,3) in \<open>auto simp: same_def\<close>)
qed

lemma if_same:
  "c = d \<Longrightarrow> (c \<Longrightarrow> R A C) \<Longrightarrow> (\<not> c \<Longrightarrow> R B D) \<Longrightarrow> R (if c then A else B) (if d then C else D)"
  by simp

lemma bind_if:
  "R (if c then Option.bind A K else Option.bind B K) (if d then Option.bind C L else Option.bind D L) \<Longrightarrow>
    R (Option.bind (if c then A else B) K) (Option.bind (if d then C else D) L)"
  by (simp split: if_splits)

lemma bind_some:
  "R (K r t) (L r u) \<Longrightarrow>
    R (Option.bind (Some (r, t)) (\<lambda>(r, t). K r t)) (Option.bind (Some (r, u)) (\<lambda>(r, u). L r u))"
  by simp

lemma bind_bind1:
  "R (Option.bind F (\<lambda>x. Option.bind (K x) K')) (Option.bind G (\<lambda>x. Option.bind (L x) L')) \<Longrightarrow>
    R (Option.bind (Option.bind F K) K') (Option.bind (Option.bind G L) L')"
  by simp

lemma bind_bind:
  "R (Option.bind F (\<lambda>(r, t). Option.bind (K r t) K')) (Option.bind G (\<lambda>(r, t). Option.bind (L r t) L')) \<Longrightarrow>
    R (Option.bind (Option.bind F (\<lambda>(r, t). K r t)) K') (Option.bind (Option.bind G (\<lambda>(r, t). L r t)) L')"
  by (simp add: case_prod_unfold)

lemma zero_or_more_stops:
  assumes "\<not> P 0" "sim i t u"
  shows "\<exists>t' u'. Tokenizer_ConsumeZeroOrMore vt1 P t = Some t' \<and> Tokenizer_ConsumeZeroOrMore vt2 P u = Some u' \<and>
    sim i t' u' \<and> left t' \<le> left t \<and> \<not> P (tk_current_char t')"
  using assms(2)
proof (induction "left t" arbitrary: t u rule: less_induct)
  case less
  note f = sim_fields [OF less.prems]
  show ?case
  proof (cases "P (tk_current_char t)")
    case True
    then have "\<not> tk_read_error t" using f assms(1) by auto
    from sim_next [OF less.prems this] obtain t1 u1 where n:
      "Tokenizer_NextChar vt1 t = Some t1" "Tokenizer_NextChar vt2 u = Some u1" "sim i t1 u1" "left t1 < left t"
      by blast
    from less.hyps [OF n(4,3)] obtain t' u' where "Tokenizer_ConsumeZeroOrMore vt1 P t1 = Some t'"
      "Tokenizer_ConsumeZeroOrMore vt2 P u1 = Some u'" "sim i t' u'" "left t' \<le> left t1" "\<not> P (tk_current_char t')"
      by blast
    then show ?thesis using n True f by (auto simp: Tokenizer_ConsumeZeroOrMore.simps [of _ _ t]
          Tokenizer_ConsumeZeroOrMore.simps [of _ _ u])
  next
    case False
    then show ?thesis using f less.prems by (simp add: Tokenizer_ConsumeZeroOrMore.simps)
  qed
qed

lemma zero_or_more:
  "\<not> P 0 \<Longrightarrow> sim i t u \<Longrightarrow>
    same1 i (left t) (Tokenizer_ConsumeZeroOrMore vt1 P t) (Tokenizer_ConsumeZeroOrMore vt2 P u)"
  using zero_or_more_stops [of P i t u] by (auto simp: same1_def)

lemma bind_zero_or_more:
  "sim i t u \<Longrightarrow> \<not> P 0 \<Longrightarrow>
    (\<And>t' u'. sim i t' u' \<Longrightarrow> left t' \<le> left t \<Longrightarrow> \<not> P (tk_current_char t') \<Longrightarrow> R (K t') (L u')) \<Longrightarrow>
    R (Option.bind (Tokenizer_ConsumeZeroOrMore vt1 P t) K) (Option.bind (Tokenizer_ConsumeZeroOrMore vt2 P u) L)"
  using zero_or_more_stops [of P i t u] by auto

lemma left_update [simp]:
  "left (t\<lparr>tk_errors := es\<rparr>) = left t" "left (t\<lparr>tk_current := tok\<rparr>) = left t"
  "left (tk_AddError message t) = left t" "left (tk_set_type ty t) = left t"
  "left (Tokenizer_StartToken t) = left t" "left (Tokenizer_EndToken t) = left t"
  by (simp_all add: left_def tk_view_def tk_rest_def tk_AddError_def tk_set_type_def
      Tokenizer_StartToken_def Tokenizer_EndToken_def Let_def)

lemma sim_errors: "sim i t u \<Longrightarrow> es = es' \<Longrightarrow> sim i (t\<lparr>tk_errors := es\<rparr>) (u\<lparr>tk_errors := es'\<rparr>)"
  by (auto simp: sim_def)

lemma sim_current:
  "sim False t u \<Longrightarrow> tok = tok' \<Longrightarrow> sim False (t\<lparr>tk_current := tok\<rparr>) (u\<lparr>tk_current := tok'\<rparr>)"
  by (auto simp: sim_def view_current)

lemma sim_start: "sim i t u \<Longrightarrow> sim True (Tokenizer_StartToken t) (Tokenizer_StartToken u)"
  by (auto simp: sim_def view_start)

lemma sim_end:
  "sim True t u \<Longrightarrow> sim False (Tokenizer_EndToken (tk_set_type ty t)) (Tokenizer_EndToken (tk_set_type ty u))"
  by (auto simp: sim_def view_end)

lemma sim_AddError: "sim i t u \<Longrightarrow> sim i (tk_AddError message t) (tk_AddError message u)"
  using sim_fields [of i t u] by (simp add: tk_AddError_def sim_errors)

lemma AddError_fields [simp]:
  "tk_read_error (tk_AddError message t) = tk_read_error t"
  "tk_current_char (tk_AddError message t) = tk_current_char t"
  by (simp_all add: tk_AddError_def)

lemma sim_error_back:
  "sim i t u \<Longrightarrow> sim i (t\<lparr>tk_errors := tk_errors t @ [(tk_line t, tk_column t - k, message)]\<rparr>)
    (u\<lparr>tk_errors := tk_errors u @ [(tk_line u, tk_column u - k, message)]\<rparr>)"
  using sim_fields [of i t u] by (simp add: sim_errors)

lemma sim_two_errors:
  "sim i t u \<Longrightarrow> sim i
    ((tk_AddError message t)\<lparr>tk_errors := tk_errors (tk_AddError message t) @ [e]\<rparr>)
    ((tk_AddError message u)\<lparr>tk_errors := tk_errors (tk_AddError message u) @ [e]\<rparr>)"
  using sim_fields [OF sim_AddError [of i t u message]] by (auto intro: sim_errors sim_AddError)

lemmas rules_same = bindI1 [where R = "same j n" for j n] bind_next [where R = "same j n" for j n]
  bind_try [where R = "same j n" for j n] bind_try_one [where R = "same j n" for j n]
  if_same [where R = "same j n" for j n] bind_if [where R = "same j n" for j n]
  bind_some [where R = "same j n" for j n] bind_bind1 [where R = "same j n" for j n]
  bind_bind [where R = "same j n" for j n]

lemmas rules_same1 = bind_next [where R = "same1 j n" for j n]
  bind_try [where R = "same1 j n" for j n] bind_try_one [where R = "same1 j n" for j n]
  if_same [where R = "same1 j n" for j n] bind_if [where R = "same1 j n" for j n]
  bind_some [where R = "same1 j n" for j n] bind_bind1 [where R = "same1 j n" for j n]
  bind_bind [where R = "same1 j n" for j n]

section \<open>The operations in step\<close>

lemma string_escape:
  assumes "sim i t u"
  shows "same1 i (left t) (tk_string_escape vt1 t) (tk_string_escape vt2 u)"
  unfolding tk_string_escape_def
  by (intro rules_same1 same1I sim_AddError) (auto simp: classes_no_nul assms intro: sim_AddError)

lemma one_or_more:
  assumes "\<not> P 0" "sim i t u"
  shows "same1 i (left t) (Tokenizer_ConsumeOneOrMore vt1 P e t) (Tokenizer_ConsumeOneOrMore vt2 P e u)"
  unfolding Tokenizer_ConsumeOneOrMore_def using sim_fields [OF assms(2)] assms
  by (intro rules_same1 same1I sim_AddError same1_mono [OF zero_or_more]) auto

lemma consume_string:
  assumes "sim i t u"
  shows "same1 i (left t) (Tokenizer_ConsumeString vt1 d t) (Tokenizer_ConsumeString vt2 d u)"
  using assms
proof (induction "left t" arbitrary: t u rule: less_induct)
  case less
  note f = sim_fields [OF less.prems]
  have step: "same1 i (left t) (Option.bind (Tokenizer_NextChar vt1 t) (Tokenizer_ConsumeString vt1 d))
      (Option.bind (Tokenizer_NextChar vt2 u) (Tokenizer_ConsumeString vt2 d))"
    if "tk_current_char t \<noteq> 0"
    by (intro rules_same1 same1_mono [OF less.hyps]) (use that f less.prems in auto)
  have escape: "same1 i (left t)
      (Option.bind (Option.bind (Tokenizer_NextChar vt1 t) (tk_string_escape vt1)) (Tokenizer_ConsumeString vt1 d))
      (Option.bind (Option.bind (Tokenizer_NextChar vt2 u) (tk_string_escape vt2)) (Tokenizer_ConsumeString vt2 d))"
    if "tk_current_char t \<noteq> 0"
    by (intro rules_same1 bindI1 [where R = "same1 i (left t)", OF string_escape] same1_mono [OF less.hyps])
      (use that f less.prems in auto)
  show ?case
    by (subst (1 2) Tokenizer_ConsumeString.simps)
      (intro if_same [where R = "same1 i (left t)"] step escape same1I sim_AddError tail_next;
        use f less.prems in auto)
qed

text \<open>In sequence, where only the bound on what is left matters.\<close>

lemma seq:
  "same i n F G \<Longrightarrow> (\<And>r t u. sim i t u \<Longrightarrow> left t \<le> n \<Longrightarrow> same i n (K r t) (L r u)) \<Longrightarrow>
    same i n (Option.bind F (\<lambda>(r, t). K r t)) (Option.bind G (\<lambda>(r, u). L r u))"
  by (rule bindI)

lemma seq1:
  "same1 i n F G \<Longrightarrow> (\<And>t u. sim i t u \<Longrightarrow> left t \<le> n \<Longrightarrow> same i n (K t) (L u)) \<Longrightarrow>
    same i n (Option.bind F K) (Option.bind G L)"
  by (rule bindI1)

lemma try_either:
  assumes "sim i t u" "c \<noteq> 0" "d \<noteq> 0"
  shows "same i (left t) (tk_TryConsume_either vt1 c d t) (tk_TryConsume_either vt2 c d u)"
  unfolding tk_TryConsume_either_def
  by (intro rules_same sameI tail_try) (use assms in auto)

lemmas sequence = seq seq1 same_mono [OF try_either] same1_mono [OF zero_or_more] same1_mono [OF one_or_more]
  tail_try sameI if_same [where R = "same j n" for j n]

lemma decimal_number:
  assumes "sim i t u"
  shows "same i (left t) (tk_decimal_number vt1 dot t) (tk_decimal_number vt2 dot u)"
  unfolding tk_decimal_number_def
  by (intro sequence) (auto simp: classes_no_nul assms dest: sim_fields)

lemma consume_number:
  assumes "sim i t u"
  shows "same i (left t) (Tokenizer_ConsumeNumber vt1 zero dot t) (Tokenizer_ConsumeNumber vt2 zero dot u)"
  unfolding Tokenizer_ConsumeNumber_def Let_def Tokenizer_LookingAt_def
  by (intro sequence same_mono [OF decimal_number])
    (auto simp: classes_no_nul assms dest: sim_fields intro: sim_AddError)

lemma line_comment:
  assumes "sim i t u"
  shows "same1 i (left t) (Tokenizer_ConsumeLineComment vt1 t) (Tokenizer_ConsumeLineComment vt2 u)"
  unfolding Tokenizer_ConsumeLineComment_def
  by (intro bindI1 [where R = "same1 i (left t)", OF zero_or_more]
      bindI [where R = "same1 i (left t)", OF tail_try] same1I)
    (use assms in auto)

lemma skip_unprintable:
  assumes "sim i t u"
  shows "same1 i (left t) (tk_skip_unprintable vt1 t) (tk_skip_unprintable vt2 u)"
  using assms
proof (induction "left t" arbitrary: t u rule: less_induct)
  case less
  show ?case
    by (subst (1 2) tk_skip_unprintable.simps)
      (intro rules_same1 same1_mono [OF less.hyps] same1I;
        use less.prems sim_fields [OF less.prems] in \<open>auto simp: classes_no_nul\<close>)
qed

lemma block_comment_loop:
  assumes "sim i t u"
  shows "same1 i (left t) (tk_block_comment_loop vt1 l c t) (tk_block_comment_loop vt2 l c u)"
  using assms
proof (induction "left t" arbitrary: t u rule: less_induct)
  case less
  show ?case
    unfolding tk_block_comment_loop.simps [of vt1 l c t] tk_block_comment_loop.simps [of vt2 l c u] Let_def
    by (intro bind_zero_or_more [where R = "same1 i (left t)"] rules_same1 same1_mono [OF less.hyps]
        same1I sim_two_errors sim_AddError)
      (use less.prems in \<open>auto dest: sim_fields\<close>)
qed

lemma block_comment:
  "sim i t u \<Longrightarrow> same1 i (left t) (Tokenizer_ConsumeBlockComment vt1 t) (Tokenizer_ConsumeBlockComment vt2 u)"
  using sim_fields [of i t u] by (simp add: Tokenizer_ConsumeBlockComment_def block_comment_loop)

lemma token_body:
  assumes "sim i t u" "tk_current_char t \<noteq> 0" "left t \<le> Suc n"
  shows "same i n (tk_token_body vt1 ty skipped t) (tk_token_body vt2 ty skipped u)"
  unfolding tk_token_body_def
  by (intro rules_same map_pair sameI same1_mono [OF zero_or_more] same_mono [OF consume_number]
      same1_mono [OF consume_string] tail_next)
    (use assms in \<open>auto simp: classes_no_nul dest: sim_fields intro: sim_error_back\<close>)

lemma read_token:
  assumes "sim False t u" "tk_current_char t \<noteq> 0" "left t \<le> Suc n"
  shows "same1 False n (tk_read_token vt1 ty skipped t) (tk_read_token vt2 ty skipped u)"
proof -
  have "tk_current_char (Tokenizer_StartToken t) \<noteq> 0" using assms(2) by (simp add: Tokenizer_StartToken_def)
  then have "same True n (tk_token_body vt1 ty skipped (Tokenizer_StartToken t))
      (tk_token_body vt2 ty skipped (Tokenizer_StartToken u))"
    using assms by (intro token_body sim_start) auto
  then show ?thesis unfolding tk_read_token_def
    by (rule bindI [where R = "same1 False n"]) (intro same1I sim_end; simp)
qed

lemma next_round:
  assumes "sim False t u" "\<not> tk_read_error t" "left t \<le> Suc n"
  shows "same False n (tk_Next_round vt1 ty skipped t) (tk_Next_round vt2 ty skipped u)"
  unfolding tk_Next_round_def Tokenizer_LookingAt_def
  by (intro rules_same map_pair sameI same1_mono [OF zero_or_more] same1_mono [OF line_comment]
      same1_mono [OF block_comment] same1_mono [OF skip_unprintable] same1_mono [OF read_token] tail_next
      sim_AddError sim_current)
    (use assms in \<open>auto simp: classes_no_nul dest: sim_fields\<close>)

text \<open>A token takes at least one byte.\<close>

lemma next_loop:
  assumes "sim False t u"
  shows "\<exists>r t' u'. tk_Next_loop vt1 ty skipped t = Some (r, t') \<and> tk_Next_loop vt2 ty skipped u = Some (r, u') \<and>
    sim False t' u' \<and> (r \<longrightarrow> left t' < left t)"
  using assms
proof (induction "left t" arbitrary: t u skipped rule: less_induct)
  case less
  note f = sim_fields [OF less.prems]
  note loop = tk_Next_loop.simps [of vt1 ty skipped t] tk_Next_loop.simps [of vt2 ty skipped u]
  show ?case
  proof (cases "tk_read_error t")
    case True
    then show ?thesis using f less.prems unfolding loop by (intro exI [of _ False]) (simp add: sim_current)
  next
    case False
    then have "0 < left t" using less.prems by (auto simp: sim_def tk_ok_def left_def tk_view_def tk_rest_def)
    then obtain n where n: "left t = Suc n" by (cases "left t") auto
    have "same False n (tk_Next_round vt1 ty skipped t) (tk_Next_round vt2 ty skipped u)"
      by (rule next_round [OF less.prems False]) (use n in simp)
    then obtain r t1 u1 where r: "tk_Next_round vt1 ty skipped t = Some (r, t1)"
      "tk_Next_round vt2 ty skipped u = Some (r, u1)" "sim False t1 u1" "left t1 \<le> n"
      unfolding same_def by blast
    show ?thesis
    proof (cases r)
      case True
      then show ?thesis using False f r n unfolding loop by (intro exI [of _ True]) simp
    next
      case again: False
      have "left t1 < left t" using r(4) n by simp
      from less.hyps [OF this r(3), of True] obtain q t' u' where
        "tk_Next_loop vt1 ty True t1 = Some (q, t')" "tk_Next_loop vt2 ty True u1 = Some (q, u')"
        "sim False t' u'" "q \<longrightarrow> left t' < left t1" by blast
      then show ?thesis using False f r(1,2) again \<open>left t1 < left t\<close> unfolding loop by auto
    qed
  qed
qed

lemma next_token:
  assumes "sim False t u"
  obtains r t' u' where "Tokenizer_Next vt1 t = Some (r, t')" "Tokenizer_Next vt2 u = Some (r, u')"
    "sim False t' u'" "r \<longrightarrow> left t' < left t"
  using next_loop [OF assms, of "t_type (tk_current t)" False] sim_fields [OF assms]
  unfolding Tokenizer_Next_def by auto

lemma sim_same_token:
  assumes "sim False t u"
  shows "tk_current t = tk_current u" "tk_errors t = tk_errors u"
proof -
  have "tk_view avail1 t = tk_view avail2 u" "tk_token_start t < 0" "tk_token_start u < 0"
    using assms sim_fields [OF assms] by (simp_all add: sim_def)
  then show "tk_current t = tk_current u" "tk_errors t = tk_errors u"
    by (auto simp: tk_view_def tk_text_so_far_def)
qed

lemma sim_new:
  assumes "ok1 s" "ok2 s'" "avail1 s = avail2 s'"
  obtains t u where "Tokenizer_new vt1 s g = Some t" "Tokenizer_new vt2 s' g' = Some u" "sim False t u"
proof -
  let ?fresh = "\<lambda>input garbage. \<lparr>tk_current = \<lparr>t_type = TYPE_START, t_text = [], t_line = 0, t_column = 0\<rparr>,
       tk_input = input, tk_errors = [], tk_current_char = garbage, tk_buffer = [],
       tk_buffer_pos = 0, tk_read_error = False, tk_line = 0, tk_column = 0,
       tk_token_start = -1, tk_allow_f = False, tk_comment_style = CPP_COMMENT_STYLE\<rparr>"
  have view: "tk_view avail1 (?fresh s g) = tk_view avail2 (?fresh s' g')"
    "\<not> s_in_token (tk_view avail2 (?fresh s' g'))"
    using assms(3) by (simp_all add: tk_view_def tk_rest_def tk_text_so_far_def)
  obtain t where "Tokenizer_new vt1 s g = Some t" "tk_ok ok1 avail1 t"
    "tk_view avail1 t = (tk_view avail1 (?fresh s g))\<lparr>s_eof := (avail1 s = [])\<rparr>"
    using a.refresh_view [of "?fresh s g"] assms(1) by (auto simp: Tokenizer_new_def)
  moreover obtain u where "Tokenizer_new vt2 s' g' = Some u" "tk_ok ok2 avail2 u"
    "tk_view avail2 u = (tk_view avail2 (?fresh s' g'))\<lparr>s_eof := (avail2 s' = [])\<rparr>"
    using b.refresh_view [of "?fresh s' g'"] assms(2) by (auto simp: Tokenizer_new_def)
  ultimately show thesis using that view assms(3) by (simp add: sim_def)
qed

end

end
