(* ===== verification/TokenizerLiterals.thy ===== *)
theory TokenizerLiterals
  imports TokenizerView
begin

text \<open>
  What the tokenizer reads from a text whose beginning is known: a run of characters of one class, a
  string literal made by \<open>CEscape\<close>, a decimal number, an identifier.
\<close>

text \<open>The tokenizer has read \<open>xs\<close> and nothing else, and reported nothing.\<close>

definition past :: "bytes \<Rightarrow> scan \<Rightarrow> scan \<Rightarrow> bool" where
  "past xs v w \<longleftrightarrow> s_rest v = xs @ s_rest w \<and> s_errors w = s_errors v \<and> s_type w = s_type v \<and>
    s_text w = s_text v @ (if s_in_token v then xs else []) \<and> s_in_token w = s_in_token v \<and>
    s_allow_f w = s_allow_f v \<and> s_style w = s_style v"

lemma past_refl: "past [] v v"
  by (simp add: past_def)

lemma past_trans: "past xs u v \<Longrightarrow> past ys v w \<Longrightarrow> past (xs @ ys) u w"
  by (auto simp: past_def)

lemma past_Cons: "past [x] u v \<Longrightarrow> past ys v w \<Longrightarrow> past (x # ys) u w"
  using past_trans [of "[x]"] by simp

lemma past_rest: "past xs v w \<Longrightarrow> s_rest v = xs @ ys \<Longrightarrow> s_rest w = ys"
  by (simp add: past_def)

text \<open>Where a token starts that is neither a comment nor a slash, and where a word ends.\<close>

definition token_start :: "byte \<Rightarrow> bool" where
  "token_start c \<longleftrightarrow> \<not> Whitespace c \<and> \<not> Unprintable c \<and> c \<noteq> 0 \<and> c \<noteq> asc CHR ''/'' \<and> c \<noteq> asc CHR ''#''"

definition word_end :: "bytes \<Rightarrow> bool" where
  "word_end ys \<longleftrightarrow> ys = [] \<or> \<not> Alphanumeric (hd ys) \<and> hd ys \<noteq> asc CHR ''.''"

context zero_copy_input
begin

text \<open>A call that reads exactly \<open>xs\<close>.\<close>

definition reads :: "bytes \<Rightarrow> 's tokenizer option \<Rightarrow> 's tokenizer \<Rightarrow> bool" where
  "reads xs F t \<longleftrightarrow> (\<exists>t'. F = Some t' \<and> tk_ok ok avail t' \<and> past xs (tk_view avail t) (tk_view avail t'))"

lemma char_of_rest:
  assumes "tk_ok ok avail t"
  shows "s_rest (tk_view avail t) = c # cs \<Longrightarrow> tk_current_char t = c \<and> \<not> tk_read_error t"
    "s_rest (tk_view avail t) = [] \<Longrightarrow> tk_current_char t = 0 \<and> tk_read_error t"
  using assms view_char [OF assms]
  by (auto simp: scan_char_def tk_view_def tk_rest_def tk_ok_def split: if_splits)

lemma next_reads:
  assumes "tk_ok ok avail t" "s_rest (tk_view avail t) = c # cs"
  shows "reads [c] (Tokenizer_NextChar vt t) t"
proof -
  have "\<not> tk_read_error t" using char_of_rest(1) [OF assms] by blast
  from next_char_view [OF assms(1) this] show ?thesis
    using assms(2) by (auto simp: reads_def past_def scan_next_def Let_def)
qed

lemma reads_bind:
  assumes "reads xs F t" "s_rest (tk_view avail t) = xs @ ys"
    "\<And>t'. tk_ok ok avail t' \<Longrightarrow> s_rest (tk_view avail t') = ys \<Longrightarrow> reads zs (K t') t'"
  shows "reads (xs @ zs) (Option.bind F K) t"
proof -
  obtain t' where t': "F = Some t'" "tk_ok ok avail t'" "past xs (tk_view avail t) (tk_view avail t')"
    using assms(1) unfolding reads_def by blast
  then have "s_rest (tk_view avail t') = ys" using past_rest assms(2) by blast
  from assms(3) [OF t'(2) this] t' show ?thesis
    unfolding reads_def using past_trans by (metis Option.bind.bind_lunit)
qed

lemma reads_nothing: "tk_ok ok avail t \<Longrightarrow> reads [] (Some t) t"
  by (simp add: reads_def past_refl)

lemma run_reads:
  assumes "tk_ok ok avail t" "s_rest (tk_view avail t) = xs @ ys" "\<forall>c\<in>set xs. P c"
    "\<not> P 0" "ys = [] \<or> \<not> P (hd ys)"
  shows "reads xs (Tokenizer_ConsumeZeroOrMore vt P t) t"
  using assms
proof (induction xs arbitrary: t)
  case Nil
  then have "\<not> P (tk_current_char t)" using char_of_rest [OF Nil(1)] by (cases ys) auto
  then show ?case using reads_nothing [OF Nil(1)] by (simp add: Tokenizer_ConsumeZeroOrMore.simps)
next
  case (Cons x xs)
  then have rest: "s_rest (tk_view avail t) = x # xs @ ys" by simp
  have "reads ([x] @ xs) (Option.bind (Tokenizer_NextChar vt t) (Tokenizer_ConsumeZeroOrMore vt P)) t"
    by (rule reads_bind [OF next_reads [OF Cons.prems(1) rest]]) (use rest Cons.prems Cons.IH in auto)
  moreover have "P (tk_current_char t)" using char_of_rest(1) [OF Cons.prems(1) rest] Cons.prems(3) by simp
  ultimately show ?case by (simp add: Tokenizer_ConsumeZeroOrMore.simps [of _ _ t])
qed

text \<open>A test that succeeds, and one that does not.\<close>

lemma try_no:
  "\<not> P (tk_current_char t) \<Longrightarrow> Tokenizer_TryConsumeOne vt P t = Some (False, t)"
  "tk_current_char t \<noteq> c \<Longrightarrow> Tokenizer_TryConsume vt c t = Some (False, t)"
  by (simp_all add: Tokenizer_TryConsumeOne_def Tokenizer_TryConsume_def)

lemma try_yes:
  "P (tk_current_char t) \<Longrightarrow> Tokenizer_TryConsumeOne vt P t = map_option (Pair True) (Tokenizer_NextChar vt t)"
  "tk_current_char t = c \<Longrightarrow> Tokenizer_TryConsume vt c t = map_option (Pair True) (Tokenizer_NextChar vt t)"
  by (simp_all add: Tokenizer_TryConsumeOne_def Tokenizer_TryConsume_def)

lemma bind_try_yes: "Option.bind (map_option (Pair True) F) (\<lambda>(b, t). K b t) = Option.bind F (K True)"
  by (cases F) auto

section \<open>String literals\<close>

lemma short_escape_letter: "short_escape c = Some e \<Longrightarrow> Escape e"
  by (auto simp: short_escape_def Escape_def split: if_splits)

lemma escape_reads:
  assumes "tk_ok ok avail t" "s_rest (tk_view avail t) = e # cs" "Escape e \<or> OctalDigit e"
  shows "reads [e] (tk_string_escape vt t) t"
proof -
  have e: "tk_current_char t = e" using char_of_rest(1) [OF assms(1,2)] by simp
  have n: "reads [e] (Tokenizer_NextChar vt t) t" by (rule next_reads [OF assms(1,2)])
  then obtain t' where "Tokenizer_NextChar vt t = Some t'" by (auto simp: reads_def)
  then have "tk_string_escape vt t = Tokenizer_NextChar vt t"
    using assms(3) e by (cases "Escape e") (auto simp: tk_string_escape_def try_yes(1) try_no)
  then show ?thesis using n by simp
qed

lemma string_char:
  assumes t: "tk_ok ok avail t" "s_rest (tk_view avail t) = c # ys" and c: "c \<noteq> 0" "c \<noteq> 10" "c \<noteq> asc CHR 0x5C" "c \<noteq> q"
    and next_: "\<And>t'. tk_ok ok avail t' \<Longrightarrow> s_rest (tk_view avail t') = ys \<Longrightarrow>
      reads xs (Tokenizer_ConsumeString vt q t') t'"
  shows "reads (c # xs) (Tokenizer_ConsumeString vt q t) t"
proof -
  have "reads ([c] @ xs) (Option.bind (Tokenizer_NextChar vt t) (Tokenizer_ConsumeString vt q)) t"
    by (rule reads_bind [OF next_reads [OF t]]) (use t next_ in auto)
  then show ?thesis using char_of_rest(1) [OF t] c by (simp add: Tokenizer_ConsumeString.simps [of _ _ t])
qed

lemma string_escape_char:
  assumes t: "tk_ok ok avail t" "s_rest (tk_view avail t) = asc CHR 0x5C # e # ys" "Escape e \<or> OctalDigit e"
    and next_: "\<And>t'. tk_ok ok avail t' \<Longrightarrow> s_rest (tk_view avail t') = ys \<Longrightarrow>
      reads xs (Tokenizer_ConsumeString vt q t') t'"
  shows "reads (asc CHR 0x5C # e # xs) (Tokenizer_ConsumeString vt q t) t"
proof -
  have two: "reads ([asc CHR 0x5C] @ [e]) (Option.bind (Tokenizer_NextChar vt t) (tk_string_escape vt)) t"
    by (rule reads_bind [OF next_reads [OF t(1,2)]]) (use t in \<open>auto intro: escape_reads\<close>)
  have "reads (([asc CHR 0x5C] @ [e]) @ xs) (Option.bind (Option.bind (Tokenizer_NextChar vt t) (tk_string_escape vt))
      (Tokenizer_ConsumeString vt q)) t"
    by (rule reads_bind [OF two, of ys]) (use t next_ in auto)
  then show ?thesis using char_of_rest(1) [OF t(1,2)]
    by (simp add: Tokenizer_ConsumeString.simps [of _ _ t])
qed

lemma octal_plain: "OctalDigit c \<Longrightarrow> c \<noteq> 0 \<and> c \<noteq> 10 \<and> c \<noteq> 0x5C \<and> c \<noteq> 0x22 \<and> c \<noteq> 0x27"
  by (auto simp: char_classes)

lemma string_reads:
  assumes "tk_ok ok avail t" "s_rest (tk_view avail t) = escaped False False src @ q # ys"
    and q: "q = asc CHR 0x22 \<or> q = asc CHR 0x27"
  shows "reads (escaped False False src @ [q]) (Tokenizer_ConsumeString vt q t) t"
  using assms(1,2)
proof (induction src arbitrary: t)
  case Nil
  then have "s_rest (tk_view avail t) = q # ys" by simp
  with next_reads [OF Nil(1) this] char_of_rest(1) [OF Nil(1) this] show ?case
    using q by (auto simp: Tokenizer_ConsumeString.simps [of _ _ t])
next
  case (Cons c src)
  note IH = Cons.IH
  show ?case
  proof (cases "short_escape c")
    case (Some e)
    then show ?thesis
      using string_escape_char [OF Cons.prems(1), of e "escaped False False src @ q # ys" "escaped False False src @ [q]" q]
        Cons.prems(2) short_escape_letter [OF Some] IH by simp
  next
    case None
    show ?thesis
    proof (cases "isprint c")
      case True
      then have "c \<noteq> 0" "c \<noteq> 10" by (auto simp: char_classes)
      moreover have "c \<noteq> asc CHR 0x5C" "c \<noteq> q" using None q by (auto simp: short_escape_def)
      ultimately show ?thesis
        using string_char [OF Cons.prems(1), of c "escaped False False src @ q # ys" q "escaped False False src @ [q]"]
          Cons.prems(2) None True IH by simp
    next
      case False
      let ?rest = "escaped False False src @ q # ys" and ?t = "escaped False False src @ [q]"
      obtain a b d where o: "octal_escape c = [asc CHR 0x5C, 48 + a, 48 + b, 48 + d]" "a < 8" "b < 8" "d < 8"
        using octal_parts [of c] by (simp add: octal_escape_def)
      have plain: "48 + x \<noteq> 0 \<and> 48 + x \<noteq> 10 \<and> 48 + x \<noteq> asc CHR 0x5C \<and> 48 + x \<noteq> q \<and> OctalDigit (48 + x)"
        if "x < 8" for x :: byte
        using octal_value [OF that] octal_plain [of "48 + x"] q by auto
      have last: "reads ((48 + d) # ?t) (Tokenizer_ConsumeString vt q t') t'"
        if "tk_ok ok avail t'" "s_rest (tk_view avail t') = (48 + d) # ?rest" for t'
        by (rule string_char [OF that]) (use plain [OF o(4)] IH in auto)
      have later: "reads ((48 + b) # (48 + d) # ?t) (Tokenizer_ConsumeString vt q t') t'"
        if "tk_ok ok avail t'" "s_rest (tk_view avail t') = (48 + b) # (48 + d) # ?rest" for t'
        by (rule string_char [OF that]) (use plain [OF o(3)] last in auto)
      have "s_rest (tk_view avail t) = asc CHR 0x5C # (48 + a) # (48 + b) # (48 + d) # ?rest"
        using Cons.prems(2) None False o(1) by simp
      then have "reads (asc CHR 0x5C # (48 + a) # (48 + b) # (48 + d) # ?t) (Tokenizer_ConsumeString vt q t) t"
        by (rule string_escape_char [OF Cons.prems(1)]) (use plain [OF o(2)] later in auto)
      then show ?thesis using None False o(1) by simp
    qed
  qed
qed

section \<open>The next token\<close>

text \<open>Where a token starts, one round of \<open>Next\<close> reads it; its text is what was read.\<close>

definition reads_token :: "bytes \<Rightarrow> token_type \<Rightarrow> (token_type \<times> 's tokenizer) option \<Rightarrow> 's tokenizer \<Rightarrow> bool" where
  "reads_token xs ty F t \<longleftrightarrow> (\<exists>G. F = map_option (Pair ty) G \<and> reads xs G t)"

lemma reads_token_Some:
  "tk_ok ok avail t' \<Longrightarrow> past xs (tk_view avail t) (tk_view avail t') \<Longrightarrow> reads_token xs ty (Some (ty, t')) t"
  unfolding reads_token_def reads_def by (intro exI [of _ "Some t'"]) simp

lemma next_loop_token:
  assumes t: "tk_ok ok avail t" "s_rest (tk_view avail t) = c # cs" "token_start c" "\<not> s_in_token (tk_view avail t)"
    and body: "\<And>t. tk_ok ok avail t \<Longrightarrow> s_rest (tk_view avail t) = c # cs \<Longrightarrow>
      s_allow_f (tk_view avail t) = f \<Longrightarrow> reads_token xs ty (tk_token_body vt last_type skipped t) t"
    and f: "s_allow_f (tk_view avail t) = f"
  shows "\<exists>t'. tk_Next_loop vt last_type skipped t = Some (True, t') \<and> tk_ok ok avail t' \<and>
    s_rest (tk_view avail t) = xs @ s_rest (tk_view avail t') \<and> tk_errors t' = tk_errors t \<and>
    t_type (tk_current t') = ty \<and> t_text (tk_current t') = xs \<and> \<not> s_in_token (tk_view avail t') \<and>
    s_allow_f (tk_view avail t') = f \<and> s_style (tk_view avail t') = s_style (tk_view avail t)"
proof -
  let ?s = "Tokenizer_StartToken t"
  note char = char_of_rest(1) [OF t(1,2)]
  have s: "tk_ok ok avail ?s" "s_rest (tk_view avail ?s) = c # cs" "s_allow_f (tk_view avail ?s) = f"
    using view_start [OF t(1)] t(2) f by simp_all
  obtain G u where u: "tk_token_body vt last_type skipped ?s = map_option (Pair ty) G" "G = Some u"
    "tk_ok ok avail u" "past xs (tk_view avail ?s) (tk_view avail u)"
    using body [OF s] by (auto simp: reads_token_def reads_def)
  let ?e = "Tokenizer_EndToken (tk_set_type ty u)"
  have in_u: "s_in_token (tk_view avail u)" "s_text (tk_view avail u) = xs" "s_errors (tk_view avail u) = tk_errors t"
    "s_rest (tk_view avail ?s) = xs @ s_rest (tk_view avail u)" "s_allow_f (tk_view avail u) = f"
    "s_style (tk_view avail u) = s_style (tk_view avail t)"
    using u(4) view_start(1) [OF t(1)] s(3) by (simp_all add: past_def tk_view_def)
  have e: "tk_view avail ?e = (tk_view avail u)\<lparr>s_type := ty, s_in_token := False\<rparr>" "tk_ok ok avail ?e"
    using view_end [of ok avail "tk_set_type ty u"] u(3) in_u(1) by simp_all
  have round_: "tk_Next_round vt last_type skipped t = Some (True, ?e)"
    using t(3) char u(1,2)
    by (auto simp: tk_Next_round_def token_start_def try_no Tokenizer_LookingAt_def tk_read_token_def)
  have fields: "tk_errors ?e = s_errors (tk_view avail ?e)" "t_type (tk_current ?e) = s_type (tk_view avail ?e)"
    "\<not> s_in_token (tk_view avail ?e) \<Longrightarrow> t_text (tk_current ?e) = s_text (tk_view avail ?e)"
    by (simp_all add: tk_view_def tk_text_so_far_def)
  have "tk_Next_loop vt last_type skipped t = Some (True, ?e)"
    using char round_ by (simp add: tk_Next_loop.simps [of _ _ _ t])
  moreover have "s_rest (tk_view avail t) = xs @ s_rest (tk_view avail ?e)"
    using in_u(4) view_start(1) [OF t(1)] e(1) by simp
  ultimately show ?thesis using fields e in_u by simp
qed

text \<open>White space before a token is skipped, and at its end the input ends.\<close>

lemma next_loop_blank:
  assumes t: "tk_ok ok avail t" "s_rest (tk_view avail t) = 32 # cs" "cs = [] \<or> \<not> Whitespace (hd cs)"
  shows "\<exists>t'. tk_Next_loop vt last_type skipped t = tk_Next_loop vt last_type True t' \<and> tk_ok ok avail t' \<and>
    past [32] (tk_view avail t) (tk_view avail t')"
proof -
  note char = char_of_rest(1) [OF t(1,2)]
  have w: "Whitespace 32" by (simp add: Whitespace_def)
  have "reads ([32] @ []) (Option.bind (Tokenizer_NextChar vt t) (Tokenizer_ConsumeZeroOrMore vt Whitespace)) t"
    by (rule reads_bind [OF next_reads [OF t(1,2)]])
      (use t in \<open>auto intro!: run_reads simp: classes_no_nul\<close>)
  then obtain t' where t': "Option.bind (Tokenizer_NextChar vt t) (Tokenizer_ConsumeZeroOrMore vt Whitespace) = Some t'"
    "tk_ok ok avail t'" "past [32] (tk_view avail t) (tk_view avail t')"
    by (auto simp: reads_def)
  then have "tk_Next_round vt last_type skipped t = Some (False, t')"
    using char w by (auto simp: tk_Next_round_def try_yes(1) bind_try_yes)
  then show ?thesis using t' char by (auto simp: tk_Next_loop.simps [of _ _ _ t])
qed

section \<open>Strings, integers and identifiers as tokens\<close>

lemma word_end_char:
  assumes "tk_ok ok avail t" "s_rest (tk_view avail t) = ys" "word_end ys"
  shows "\<not> Alphanumeric (tk_current_char t)" "tk_current_char t \<noteq> asc CHR ''.''"
  using char_of_rest [OF assms(1)] assms(2,3) classes_no_nul
  by (cases ys; auto simp: word_end_def)+

lemma alphanumeric_classes: "Letter c \<Longrightarrow> Alphanumeric c" "Digit c \<Longrightarrow> Alphanumeric c"
  by (auto simp: char_classes)

lemma not_alphanumeric: "\<not> Alphanumeric c \<Longrightarrow> c \<notin> set (cstring ''eEfFxX'')"
  by (auto simp: Alphanumeric_def between_def)

lemma digit_not_letter: "Digit d \<Longrightarrow> \<not> Letter d \<and> d \<noteq> asc CHR ''.''"
  by (auto simp: char_classes word_le_nat_alt)

lemma string_body:
  assumes "tk_ok ok avail t" "s_rest (tk_view avail t) = q # escaped False False src @ q # ys"
    and q: "q = asc CHR 0x22 \<or> q = asc CHR 0x27"
  shows "reads_token (q # escaped False False src @ [q]) TYPE_STRING (tk_token_body vt last_type skipped t) t"
proof -
  have c: "tk_current_char t = q" using char_of_rest(1) [OF assms(1,2)] by simp
  have no: "\<not> Letter q" "\<not> Digit q" "q \<noteq> asc CHR ''0''" "q \<noteq> asc CHR ''.''" using q by (auto simp: char_classes)
  have "reads ([q] @ (escaped False False src @ [q]))
      (Option.bind (Tokenizer_NextChar vt t) (Tokenizer_ConsumeString vt q)) t"
    by (rule reads_bind [OF next_reads [OF assms(1,2)]]) (use assms string_reads in auto)
  moreover have "tk_token_body vt last_type skipped t = map_option (Pair TYPE_STRING)
      (Option.bind (Tokenizer_NextChar vt t) (Tokenizer_ConsumeString vt q))"
    using c no q by (auto simp: tk_token_body_def try_no try_yes(2) bind_try_yes map_option_bind o_def)
  ultimately show ?thesis by (auto simp: reads_token_def)
qed

lemma identifier_body:
  assumes "tk_ok ok avail t" "s_rest (tk_view avail t) = c # cs @ ys" "Letter c" "\<forall>x\<in>set cs. Alphanumeric x"
    "word_end ys"
  shows "reads_token (c # cs) TYPE_IDENTIFIER (tk_token_body vt last_type skipped t) t"
proof -
  have c: "tk_current_char t = c" using char_of_rest(1) [OF assms(1,2)] by simp
  have "reads ([c] @ cs) (Option.bind (Tokenizer_NextChar vt t) (Tokenizer_ConsumeZeroOrMore vt Alphanumeric)) t"
    by (rule reads_bind [OF next_reads [OF assms(1,2)]])
      (use assms in \<open>auto intro!: run_reads simp: classes_no_nul word_end_def\<close>)
  moreover have "tk_token_body vt last_type skipped t = map_option (Pair TYPE_IDENTIFIER)
      (Option.bind (Tokenizer_NextChar vt t) (Tokenizer_ConsumeZeroOrMore vt Alphanumeric))"
    using c assms(3) by (auto simp: tk_token_body_def try_yes(1) bind_try_yes map_option_bind o_def)
  ultimately show ?thesis by (auto simp: reads_token_def)
qed

lemma number_reads:
  assumes "tk_ok ok avail t" "s_rest (tk_view avail t) = ds @ ys" "\<forall>d\<in>set ds. Digit d" "word_end ys"
    "zero \<Longrightarrow> ds = []"
  shows "reads_token ds TYPE_INTEGER (Tokenizer_ConsumeNumber vt zero False t) t"
proof -
  have "reads ds (Tokenizer_ConsumeZeroOrMore vt Digit t) t"
    by (rule run_reads [OF assms(1-3)])
      (use assms(4) alphanumeric_classes(2) [of "hd ys"] in \<open>auto simp: word_end_def classes_no_nul\<close>)
  then obtain t1 where t1: "Tokenizer_ConsumeZeroOrMore vt Digit t = Some t1" "tk_ok ok avail t1"
    "past ds (tk_view avail t) (tk_view avail t1)" by (auto simp: reads_def)
  have char: "\<not> Alphanumeric (tk_current_char t1)" "tk_current_char t1 \<noteq> asc CHR ''.''"
    using word_end_char [OF t1(2) past_rest [OF t1(3) assms(2)] assms(4)] by simp_all
  have letters: "\<not> Letter (tk_current_char t1)" "tk_current_char t1 \<notin> set (cstring ''eEfFxX'')"
    using alphanumeric_classes(1) [of "tk_current_char t1"] not_alphanumeric [of "tk_current_char t1"] char(1)
    by blast+
  have dec: "tk_decimal_number vt False t = Some (False, t1)"
    using t1(1) char(2) letters(2) by (simp add: tk_decimal_number_def try_no tk_TryConsume_either_def)
  have zero: "\<not> Digit (tk_current_char t)" "tk_current_char t \<notin> set (cstring ''xX'')" if zero
  proof -
    have "s_rest (tk_view avail t) = ys" using assms(2,5) that by simp
    from word_end_char [OF assms(1) this assms(4)] show "\<not> Digit (tk_current_char t)"
      "tk_current_char t \<notin> set (cstring ''xX'')"
      using alphanumeric_classes(2) [of "tk_current_char t"] not_alphanumeric [of "tk_current_char t"] by auto
  qed
  have "Tokenizer_ConsumeNumber vt zero False t = Some (TYPE_INTEGER, t1)"
    using dec zero letters(1) char(2)
    by (cases zero) (auto simp: Tokenizer_ConsumeNumber_def try_no tk_TryConsume_either_def Tokenizer_LookingAt_def)
  then show ?thesis using t1(2,3) by (simp add: reads_token_Some)
qed

lemma integer_body:
  assumes "tk_ok ok avail t" "s_rest (tk_view avail t) = decimal n @ ys" "word_end ys"
  shows "reads_token (decimal n) TYPE_INTEGER (tk_token_body vt last_type skipped t) t"
proof -
  have "decimal n \<noteq> []" by (subst text_in.simps) simp
  then obtain d ds where d: "decimal n = d # ds" by (cases "decimal n") auto
  have digits: "\<forall>c\<in>set (d # ds). Digit c"
    using decimal_digits [of n] unfolding d by (auto simp: char_classes)
  have zero: "ds = []" if "d = asc CHR ''0''"
  proof -
    have "n = 0" using decimal_head [of n] d that by (cases n) auto
    then show ?thesis using d by (simp add: text_in.simps)
  qed
  have rest: "s_rest (tk_view avail t) = d # ds @ ys" using assms(2) d by simp
  have c: "tk_current_char t = d" using char_of_rest(1) [OF assms(1) rest] by simp
  have no: "\<not> Letter d" "d \<noteq> asc CHR ''.''" "Digit d"
    using digits digit_not_letter [of d] by auto
  obtain t1 where t1: "Tokenizer_NextChar vt t = Some t1" "tk_ok ok avail t1"
    "past [d] (tk_view avail t) (tk_view avail t1)"
    using next_reads [OF assms(1) rest] by (auto simp: reads_def)
  have "s_rest (tk_view avail t1) = ds @ ys" using past_rest [OF t1(3)] rest by simp
  then have "reads_token ds TYPE_INTEGER (Tokenizer_ConsumeNumber vt (d = asc CHR ''0'') False t1) t1"
    using digits zero assms(3) by (intro number_reads [OF t1(2)]) auto
  then obtain u where u: "Tokenizer_ConsumeNumber vt (d = asc CHR ''0'') False t1 = Some (TYPE_INTEGER, u)"
    "tk_ok ok avail u" "past ds (tk_view avail t1) (tk_view avail u)"
    by (auto simp: reads_token_def reads_def)
  have "tk_token_body vt last_type skipped t = Some (TYPE_INTEGER, u)"
    using c no t1(1) u(1)
    by (cases "d = asc CHR ''0''") (auto simp: tk_token_body_def try_no try_yes)
  moreover have "past (decimal n) (tk_view avail t) (tk_view avail u)"
    unfolding d by (rule past_Cons [OF t1(3) u(3)])
  ultimately show ?thesis using u(2) by (simp add: reads_token_Some)
qed

text \<open>Hexadecimal numbers and escapes, with either letter.\<close>

lemma try_either_yes:
  "tk_current_char t = c \<or> tk_current_char t = d \<Longrightarrow> Tokenizer_NextChar vt t = Some t' \<Longrightarrow>
    tk_TryConsume_either vt c d t = Some (True, t')"
  by (auto simp: tk_TryConsume_either_def Tokenizer_TryConsume_def)

lemma hex_number_body:
  assumes t: "tk_ok ok avail t" "s_rest (tk_view avail t) = 48 # x # d # ds @ ys"
    and x: "x = asc CHR ''x'' \<or> x = asc CHR ''X''" and hex: "\<forall>c\<in>set (d # ds). HexDigit c" and ys: "word_end ys"
  shows "reads_token (48 # x # d # ds) TYPE_INTEGER (tk_token_body vt last_type skipped t) t"
proof -
  obtain t1 where t1: "Tokenizer_NextChar vt t = Some t1" "tk_ok ok avail t1" "past [48] (tk_view avail t) (tk_view avail t1)"
    using next_reads [OF t] by (auto simp: reads_def)
  have r1: "s_rest (tk_view avail t1) = x # d # ds @ ys" using past_rest [OF t1(3)] t(2) by simp
  obtain t2 where t2: "Tokenizer_NextChar vt t1 = Some t2" "tk_ok ok avail t2" "past [x] (tk_view avail t1) (tk_view avail t2)"
    using next_reads [OF t1(2) r1] by (auto simp: reads_def)
  have r2: "s_rest (tk_view avail t2) = d # ds @ ys" using past_rest [OF t2(3)] r1 by simp
  have no_hex: "\<not> HexDigit c" if "\<not> Alphanumeric c" for c using that by (auto simp: char_classes word_le_nat_alt)
  have "reads ([d] @ ds) (Option.bind (Tokenizer_NextChar vt t2) (Tokenizer_ConsumeZeroOrMore vt HexDigit)) t2"
  proof (rule reads_bind [OF next_reads [OF t2(2) r2]])
    show "s_rest (tk_view avail t2) = [d] @ ds @ ys" using r2 by simp
    fix t' assume "tk_ok ok avail t'" "s_rest (tk_view avail t') = ds @ ys"
    then show "reads ds (Tokenizer_ConsumeZeroOrMore vt HexDigit t') t'"
      by (rule run_reads) (use hex ys no_hex [of "hd ys"] in \<open>auto simp: classes_no_nul word_end_def\<close>)
  qed
  then obtain u where u: "Option.bind (Tokenizer_NextChar vt t2) (Tokenizer_ConsumeZeroOrMore vt HexDigit) = Some u"
    "tk_ok ok avail u" "past (d # ds) (tk_view avail t2) (tk_view avail u)" by (auto simp: reads_def)
  have c: "tk_current_char t = 48" "tk_current_char t1 = x" "tk_current_char t2 = d"
    using char_of_rest(1) [OF t] char_of_rest(1) [OF t1(2) r1] char_of_rest(1) [OF t2(2) r2] by simp_all
  have stop: "\<not> Letter (tk_current_char u)" "tk_current_char u \<noteq> asc CHR ''.''"
    using word_end_char [OF u(2) past_rest [OF u(3)] ys] r2 alphanumeric_classes(1) [of "tk_current_char u"] by auto
  have either: "tk_TryConsume_either vt (asc CHR ''x'') (asc CHR ''X'') t1 = Some (True, t2)"
    by (rule try_either_yes [OF _ t2(1)]) (use x c(2) in simp)
  have "Tokenizer_ConsumeOneOrMore vt HexDigit e t2 = Some u" for e
    using u(1) c(3) hex by (simp add: Tokenizer_ConsumeOneOrMore_def)
  then have "Tokenizer_ConsumeNumber vt True False t1 = Some (TYPE_INTEGER, u)"
    using either stop by (simp add: Tokenizer_ConsumeNumber_def Tokenizer_LookingAt_def Let_def)
  moreover have "\<not> Letter 48" by (simp add: char_classes)
  ultimately have "tk_token_body vt last_type skipped t = Some (TYPE_INTEGER, u)"
    using c(1) t1(1) by (auto simp: tk_token_body_def try_no try_yes(2))
  moreover have "past (48 # x # d # ds) (tk_view avail t) (tk_view avail u)"
    by (intro past_Cons [OF t1(3)] past_Cons [OF t2(3)] u(3))
  ultimately show ?thesis using u(2) by (simp add: reads_token_Some)
qed

lemma hex_escape_reads:
  assumes t: "tk_ok ok avail t" "s_rest (tk_view avail t) = x # h # ys"
    and x: "x = asc CHR ''x'' \<or> x = asc CHR ''X''" and hex: "HexDigit h"
  shows "reads [x, h] (tk_string_escape vt t) t"
proof -
  obtain t1 where t1: "Tokenizer_NextChar vt t = Some t1" "tk_ok ok avail t1" "past [x] (tk_view avail t) (tk_view avail t1)"
    using next_reads [OF t] by (auto simp: reads_def)
  have r1: "s_rest (tk_view avail t1) = h # ys" using past_rest [OF t1(3)] t(2) by simp
  obtain t2 where t2: "Tokenizer_NextChar vt t1 = Some t2" "tk_ok ok avail t2" "past [h] (tk_view avail t1) (tk_view avail t2)"
    using next_reads [OF t1(2) r1] by (auto simp: reads_def)
  have c: "tk_current_char t = x" "tk_current_char t1 = h"
    using char_of_rest(1) [OF t] char_of_rest(1) [OF t1(2) r1] by simp_all
  have no: "\<not> Escape x" "\<not> OctalDigit x" using x by (auto simp: Escape_def OctalDigit_def between_def)
  have tries: "Tokenizer_TryConsumeOne vt Escape t = Some (False, t)" "Tokenizer_TryConsumeOne vt OctalDigit t = Some (False, t)"
    "Tokenizer_TryConsumeOne vt HexDigit t1 = Some (True, t2)"
    using no c hex t2(1) by (simp_all add: try_no(1) try_yes(1))
  have "tk_string_escape vt t = Some t2"
    using x
  proof
    assume "x = asc CHR ''x''"
    then have "Tokenizer_TryConsume vt (asc CHR ''x'') t = Some (True, t1)" using c(1) t1(1) by (simp add: try_yes(2))
    then show ?thesis unfolding tk_string_escape_def tries by (simp add: tries)
  next
    assume "x = asc CHR ''X''"
    then have "Tokenizer_TryConsume vt (asc CHR ''x'') t = Some (False, t)"
      "Tokenizer_TryConsume vt (asc CHR ''X'') t = Some (True, t1)"
      using c(1) t1(1) by (simp_all add: try_no(2) try_yes(2))
    then show ?thesis unfolding tk_string_escape_def tries by (simp add: tries)
  qed
  then show ?thesis using t2(2) past_Cons [OF t1(3) t2(3)] by (simp add: reads_def)
qed

lemma hex_string_body:
  assumes t: "tk_ok ok avail t" "s_rest (tk_view avail t) = 0x22 # 0x5C # x # h # 0x22 # ys"
    and x: "x = asc CHR ''x'' \<or> x = asc CHR ''X''" and hex: "HexDigit h"
  shows "reads_token [0x22, 0x5C, x, h, 0x22] TYPE_STRING (tk_token_body vt last_type skipped t) t"
proof -
  have close_: "reads [0x22] (Tokenizer_ConsumeString vt 0x22 u) u"
    if "tk_ok ok avail u" "s_rest (tk_view avail u) = 0x22 # ys" for u
    using next_reads [OF that] char_of_rest(1) [OF that] by (simp add: Tokenizer_ConsumeString.simps [of _ _ u])
  have escape: "reads ([0x5C] @ [x, h]) (Option.bind (Tokenizer_NextChar vt u) (tk_string_escape vt)) u"
    if u: "tk_ok ok avail u" "s_rest (tk_view avail u) = 0x5C # x # h # 0x22 # ys" for u
    by (rule reads_bind [OF next_reads [OF u]]) (use u x hex in \<open>auto intro: hex_escape_reads\<close>)
  have string_: "reads [0x5C, x, h, 0x22] (Tokenizer_ConsumeString vt 0x22 u) u"
    if u: "tk_ok ok avail u" "s_rest (tk_view avail u) = 0x5C # x # h # 0x22 # ys" for u
  proof -
    have "reads (([0x5C] @ [x, h]) @ [0x22]) (Option.bind (Option.bind (Tokenizer_NextChar vt u) (tk_string_escape vt))
        (Tokenizer_ConsumeString vt 0x22)) u"
      by (rule reads_bind [OF escape [OF u]]) (use u close_ in auto)
    then show ?thesis using char_of_rest(1) [OF u] by (simp add: Tokenizer_ConsumeString.simps [of _ _ u])
  qed
  have "reads ([0x22] @ [0x5C, x, h, 0x22]) (Option.bind (Tokenizer_NextChar vt t) (Tokenizer_ConsumeString vt 0x22)) t"
    by (rule reads_bind [OF next_reads [OF t]]) (use t string_ in auto)
  moreover have "tk_token_body vt last_type skipped t = map_option (Pair TYPE_STRING)
      (Option.bind (Tokenizer_NextChar vt t) (Tokenizer_ConsumeString vt 0x22))"
    using char_of_rest(1) [OF t]
    by (auto simp: tk_token_body_def try_no try_yes(2) bind_try_yes map_option_bind o_def Letter_def Digit_def between_def)
  ultimately show ?thesis by (auto simp: reads_token_def)
qed

end

end
