(* ===== verification/TokenizerProperties.thy ===== *)
theory TokenizerProperties
  imports TokenizerPairs TokenizerLiterals CompositeStreams
begin

text \<open>
  The properties of the tokenizer, for the client that calls \<open>Next\<close> until it returns false.
\<close>

section \<open>All tokens of an input\<close>

partial_function (option) tokenize ::
  "'s input_vt \<Rightarrow> token list \<Rightarrow> 's tokenizer \<Rightarrow> (token list \<times> 's tokenizer) option" where
  "tokenize vt acc t = do {
     (r, t) \<leftarrow> Tokenizer_Next vt t;
     (let acc = acc @ [Tokenizer_current t] in if r then tokenize vt acc t else Some (acc, t))
   }"

definition tokens_and_errors ::
  "'s input_vt \<Rightarrow> bool \<Rightarrow> comment_style \<Rightarrow> byte \<Rightarrow> 's \<Rightarrow> (token list \<times> scan_error list) option" where
  "tokens_and_errors vt allow_f style garbage input = do {
     t \<leftarrow> Tokenizer_new vt input garbage;
     (ts, t) \<leftarrow> tokenize vt []
       (Tokenizer_set_comment_style style (Tokenizer_set_allow_f_after_float allow_f t));
     Some (ts, tk_errors t)
   }"

context tokenizer_pair
begin

lemma sim_options:
  "sim i t u \<Longrightarrow> sim i (Tokenizer_set_comment_style style (Tokenizer_set_allow_f_after_float allow_f t))
    (Tokenizer_set_comment_style style (Tokenizer_set_allow_f_after_float allow_f u))"
  by (auto simp: sim_def)

lemma tokenize_in_step:
  "sim False t u \<Longrightarrow> \<exists>ts t' u'. tokenize vt1 acc t = Some (ts, t') \<and> tokenize vt2 acc u = Some (ts, u') \<and>
    sim False t' u'"
proof (induction "left t" arbitrary: t u acc rule: less_induct)
  case less
  obtain r t1 u1 where n: "Tokenizer_Next vt1 t = Some (r, t1)" "Tokenizer_Next vt2 u = Some (r, u1)"
    "sim False t1 u1" "r \<longrightarrow> left t1 < left t"
    by (rule next_token [OF less.prems])
  have cur: "Tokenizer_current u1 = Tokenizer_current t1"
    using sim_same_token(1) [OF n(3)] by (simp add: Tokenizer_current_def)
  show ?case
  proof (cases r)
    case True
    then show ?thesis
      using less.hyps [OF mp [OF n(4)] n(3), of "acc @ [Tokenizer_current t1]"] n(1,2) cur
      by (simp add: tokenize.simps [of _ _ t] tokenize.simps [of _ _ u])
  next
    case False
    then show ?thesis using n(1,2,3) cur
      by (simp add: tokenize.simps [of _ _ t] tokenize.simps [of _ _ u])
  qed
qed

lemma tokens_in_step:
  assumes "ok1 s" "ok2 s'" "avail1 s = avail2 s'"
  shows "\<exists>r. tokens_and_errors vt1 allow_f style g s = Some r \<and> tokens_and_errors vt2 allow_f style g' s' = Some r"
proof -
  obtain t u where n: "Tokenizer_new vt1 s g = Some t" "Tokenizer_new vt2 s' g' = Some u" "sim False t u"
    by (rule sim_new [OF assms])
  obtain ts t' u' where "tokenize vt1 []
      (Tokenizer_set_comment_style style (Tokenizer_set_allow_f_after_float allow_f t)) = Some (ts, t')"
    "tokenize vt2 [] (Tokenizer_set_comment_style style (Tokenizer_set_allow_f_after_float allow_f u)) = Some (ts, u')"
    "sim False t' u'"
    using tokenize_in_step [OF sim_options [OF n(3)]] by blast
  then show ?thesis using n(1,2) sim_same_token(2) by (auto simp: tokens_and_errors_def)
qed

end

interpretation tk: tokenizer_pair ArrayInput_vt array_input_ok array_input_avail array_input_last
    array_input_rank ArrayConcat_vt "concat_input_ok ArrayInput_vt array_input_ok"
    "concat_input_avail array_input_avail" "concat_input_last array_input_last"
    "concat_input_rank array_input_rank"
  by (intro tokenizer_pair.intro ai.zero_copy_input_axioms acat.zero_copy_input_axioms)

interpretation tkaa: tokenizer_pair ArrayInput_vt array_input_ok array_input_avail array_input_last
    array_input_rank ArrayInput_vt array_input_ok array_input_avail array_input_last array_input_rank
  by (intro tokenizer_pair.intro ai.zero_copy_input_axioms)

text \<open>C38: Tokenizing ends on every input, and its tokens, with their texts and positions, and its
  errors do not depend on how the input is cut into blocks: an array read in blocks of one size, of
  another, or as any concatenation of arrays, empty ones included, gives the same.\<close>

theorem tokens_independent_of_blocks:
  assumes "int (length (concat pieces)) \<le> INT_MAX"
  shows "\<exists>r. tokens_and_errors ArrayInput_vt allow_f style g
      (ArrayInputStream (concat pieces) (int (length (concat pieces))) n) = Some r \<and>
    tokens_and_errors ArrayInput_vt allow_f style g'
      (ArrayInputStream (concat pieces) (int (length (concat pieces))) m) = Some r \<and>
    tokens_and_errors ArrayConcat_vt allow_f style g''
      (ConcatenatingInputStream (map (\<lambda>d. ArrayInputStream d (int (length d)) k) pieces)) = Some r"
proof -
  let ?a = "\<lambda>n. ArrayInputStream (concat pieces) (int (length (concat pieces))) n"
    and ?c = "ConcatenatingInputStream (map (\<lambda>d. ArrayInputStream d (int (length d)) k) pieces)"
  have a: "array_input_ok (?a n)" for n by (rule array_input_ok_init [OF assms])
  have "int (length d) \<le> INT_MAX" if "d \<in> set pieces" for d
    using assms split_list [OF that] by auto
  then have c: "concat_input_ok ArrayInput_vt array_input_ok ?c"
    using array_input_ok_init
    by (cases pieces) (auto simp: concat_input_ok_def ConcatenatingInputStream_def list_all_iff ArrayInput_vt_def
        ArrayInputStream_ByteCount_def ArrayInputStream_def)
  have "concat_input_avail array_input_avail ?c = concat pieces"
    by (simp add: concat_input_avail_def ConcatenatingInputStream_def comp_def)
  then have av: "array_input_avail (?a n) = concat_input_avail array_input_avail ?c" by simp
  obtain r where r: "tokens_and_errors ArrayInput_vt allow_f style g (?a n) = Some r"
    "tokens_and_errors ArrayConcat_vt allow_f style g'' ?c = Some r"
    using tk.tokens_in_step [OF a c av] by blast
  moreover have "array_input_avail (?a n) = array_input_avail (?a m)" by simp
  from tkaa.tokens_in_step [OF a a this, of allow_f style g g'] r(1)
  have "tokens_and_errors ArrayInput_vt allow_f style g' (?a m) = Some r" by auto
  ultimately show ?thesis by blast
qed

theorem tokens_independent_of_blocks_witness:
  "\<exists>r. tokens_and_errors ArrayInput_vt True CPP_COMMENT_STYLE 7 (ArrayInputStream [97, 98, 32, 49] 4 1) = Some r \<and>
    tokens_and_errors ArrayConcat_vt True CPP_COMMENT_STYLE 9
      (ConcatenatingInputStream (map (\<lambda>d. ArrayInputStream d (int (length d)) 3) [[97], [], [98, 32, 49]])) = Some r"
  using tokens_independent_of_blocks [of "[[97], [], [98, 32, 49]]" True CPP_COMMENT_STYLE 7 1 0 4 9 3]
  by (auto simp: INT_MAX_def)

section \<open>Literals\<close>

text \<open>Identifiers, unsigned integers and strings, as they are written in a file.\<close>

datatype literal = Identifier bytes | Integer uint64 | String bytes

fun literal_text :: "literal \<Rightarrow> bytes" where
  "literal_text (Identifier w) = w"
| "literal_text (Integer u) = decimal (unat u)"
| "literal_text (String s) = 0x22 # escaped False False s @ [0x22]"

fun literal_type :: "literal \<Rightarrow> token_type" where
  "literal_type (Identifier w) = TYPE_IDENTIFIER"
| "literal_type (Integer u) = TYPE_INTEGER"
| "literal_type (String s) = TYPE_STRING"

fun literal_ok :: "literal \<Rightarrow> bool" where
  "literal_ok (Identifier w) \<longleftrightarrow> w \<noteq> [] \<and> Letter (hd w) \<and> (\<forall>c\<in>set w. Alphanumeric c)"
| "literal_ok _ \<longleftrightarrow> True"

text \<open>The value the parser functions give to the text of a literal.\<close>

fun reads_back :: "literal \<Rightarrow> bool" where
  "reads_back (Identifier w) \<longleftrightarrow> True"
| "reads_back (Integer u) \<longleftrightarrow> ParseInteger (literal_text (Integer u)) (- 1) = Some (Some u)"
| "reads_back (String s) \<longleftrightarrow> ParseString (literal_text (String s)) = Some s"

definition written :: "literal list \<Rightarrow> bytes" where
  "written ls = concat (map (\<lambda>l. literal_text l @ [32]) ls)"

definition kind_and_text :: "token \<Rightarrow> token_type \<times> bytes" where
  "kind_and_text k = (t_type k, t_text k)"

lemma literal_reads_back: "reads_back l"
proof (cases l)
  case (Integer u)
  then show ?thesis using ParseInteger_decimal [of "unat u" "- 1"] by (simp add: word_le_nat_alt [symmetric])
next
  case (String s)
  then show ?thesis using ParseString_escaped [of "0x22" s] by simp
qed simp

lemma ascii_printable: "32 \<le> c \<Longrightarrow> c \<le> 127 \<Longrightarrow> \<not> Unprintable c"
proof -
  assume "32 \<le> c" "c \<le> 127"
  then have c: "32 \<le> uint c" "uint c \<le> 127" by (simp_all add: word_le_def)
  then have "sint c = uint c" by (simp add: sint_uint signed_take_bit_int_eq_self)
  then show ?thesis using c by (simp add: Unprintable_def)
qed

lemma letters_start: "Letter c \<Longrightarrow> token_start c" and digits_start: "Digit c \<Longrightarrow> token_start c"
proof -
  show "Letter c \<Longrightarrow> token_start c"
    using ascii_printable [of c] by (auto simp: token_start_def Letter_def between_def Whitespace_def word_le_nat_alt)
  show "Digit c \<Longrightarrow> token_start c"
    using ascii_printable [of c] by (auto simp: token_start_def Digit_def between_def Whitespace_def word_le_nat_alt)
qed

lemma literal_start:
  assumes "literal_ok l"
  shows "\<exists>c cs. literal_text l = c # cs \<and> token_start c"
proof (cases l)
  case (Identifier w)
  then show ?thesis using assms letters_start by (cases w) auto
next
  case (Integer u)
  have "decimal (unat u) \<noteq> []" by (subst text_in.simps) simp
  then obtain d ds where d: "decimal (unat u) = d # ds" by (cases "decimal (unat u)") auto
  then have "Digit d" using decimal_digits [of "unat u"] by (auto simp: char_classes)
  then show ?thesis using d Integer digits_start by auto
qed (simp add: token_start_def char_classes)

lemma written_Cons: "written (l # ls) = literal_text l @ 32 # written ls"
  by (simp add: written_def)

lemma written_head: "\<forall>l\<in>set ls. literal_ok l \<Longrightarrow> written ls = [] \<or> \<not> Whitespace (hd (written ls))"
proof (cases ls)
  case (Cons l ls')
  assume "\<forall>l\<in>set ls. literal_ok l"
  then obtain c cs where "literal_text l = c # cs" "token_start c" using literal_start [of l] Cons by auto
  then show ?thesis by (simp add: Cons written_Cons token_start_def)
qed (simp add: written_def)

context zero_copy_input
begin

lemma literal_body:
  assumes "tk_ok ok avail t" "s_rest (tk_view avail t) = literal_text l @ 32 # ys" "literal_ok l"
  shows "reads_token (literal_text l) (literal_type l) (tk_token_body vt last_type skipped t) t"
proof -
  have e: "word_end (32 # ys)" by (simp add: word_end_def char_classes)
  show ?thesis
  proof (cases l)
    case (Identifier w)
    then obtain c cs where "w = c # cs" using assms(3) by (cases w) auto
    then show ?thesis using identifier_body [OF assms(1) _ _ _ e, of c cs] assms(2,3) Identifier by simp
  next
    case (Integer u)
    then show ?thesis using integer_body [OF assms(1) _ e] assms(2) by simp
  next
    case (String s)
    then show ?thesis using string_body [OF assms(1), of "0x22" s "32 # ys"] assms(2) by simp
  qed
qed

lemma next_literal:
  assumes "tk_ok ok avail t" "s_rest (tk_view avail t) = literal_text l @ 32 # ys" "literal_ok l"
    "\<not> s_in_token (tk_view avail t)"
  shows "\<exists>t'. tk_Next_loop vt last_type skipped t = Some (True, t') \<and> tk_ok ok avail t' \<and>
    s_rest (tk_view avail t') = 32 # ys \<and> tk_errors t' = tk_errors t \<and>
    kind_and_text (tk_current t') = (literal_type l, literal_text l) \<and> \<not> s_in_token (tk_view avail t')"
proof -
  obtain c cs where c: "literal_text l = c # cs" "token_start c" using literal_start [OF assms(3)] by blast
  have rest: "s_rest (tk_view avail t) = c # cs @ 32 # ys" using assms(2) c(1) by simp
  have body: "reads_token (literal_text l) (literal_type l) (tk_token_body vt last_type skipped t') t'"
    if "tk_ok ok avail t'" "s_rest (tk_view avail t') = c # cs @ 32 # ys" for t'
    using literal_body [OF that(1) _ assms(3)] that(2) c(1) by simp
  have "\<exists>t'. tk_Next_loop vt last_type skipped t = Some (True, t') \<and> tk_ok ok avail t' \<and>
    s_rest (tk_view avail t) = literal_text l @ s_rest (tk_view avail t') \<and> tk_errors t' = tk_errors t \<and>
    t_type (tk_current t') = literal_type l \<and> t_text (tk_current t') = literal_text l \<and>
    \<not> s_in_token (tk_view avail t') \<and> s_allow_f (tk_view avail t') = s_allow_f (tk_view avail t) \<and>
    s_style (tk_view avail t') = s_style (tk_view avail t)"
    by (rule next_loop_token [OF assms(1) rest c(2) assms(4)]) (auto intro: body)
  then show ?thesis using assms(2) by (auto simp: kind_and_text_def)
qed

lemma next_after_blank:
  assumes "tk_ok ok avail t" "\<not> s_in_token (tk_view avail t)" "\<forall>l\<in>set ls. literal_ok l"
    "s_rest (tk_view avail t) = written ls \<or> s_rest (tk_view avail t) = 32 # written ls"
  obtains t1 skipped where "Tokenizer_Next vt t = tk_Next_loop vt (t_type (tk_current t)) skipped t1"
    "tk_ok ok avail t1" "\<not> s_in_token (tk_view avail t1)" "s_rest (tk_view avail t1) = written ls"
    "tk_errors t1 = tk_errors t"
  using assms(4)
proof
  assume "s_rest (tk_view avail t) = written ls"
  then show thesis using that [of False t] assms(1,2) by (simp add: Tokenizer_Next_def)
next
  assume rest: "s_rest (tk_view avail t) = 32 # written ls"
  obtain t1 where t1: "tk_Next_loop vt (t_type (tk_current t)) False t = tk_Next_loop vt (t_type (tk_current t)) True t1"
    "tk_ok ok avail t1" "past [32] (tk_view avail t) (tk_view avail t1)"
    using next_loop_blank [OF assms(1) rest written_head [OF assms(3)]] by blast
  moreover have "tk_errors t1 = tk_errors t" "\<not> s_in_token (tk_view avail t1)"
    using t1(3) assms(2) by (simp_all add: past_def tk_view_def)
  ultimately show thesis using that [of True t1] past_rest [OF t1(3)] rest by (simp add: Tokenizer_Next_def)
qed

lemma tokenize_written:
  assumes "tk_ok ok avail t" "\<not> s_in_token (tk_view avail t)" "\<forall>l\<in>set ls. literal_ok l"
    "s_rest (tk_view avail t) = written ls \<or> s_rest (tk_view avail t) = 32 # written ls"
  shows "\<exists>ts t'. tokenize vt acc t = Some (acc @ ts, t') \<and> tk_errors t' = tk_errors t \<and>
    map kind_and_text ts = map (\<lambda>l. (literal_type l, literal_text l)) ls @ [(TYPE_END, [])]"
  using assms
proof (induction ls arbitrary: t acc)
  case Nil
  obtain t1 skipped where t1: "Tokenizer_Next vt t = tk_Next_loop vt (t_type (tk_current t)) skipped t1"
    "tk_ok ok avail t1" "\<not> s_in_token (tk_view avail t1)" "s_rest (tk_view avail t1) = written []"
    "tk_errors t1 = tk_errors t"
    by (rule next_after_blank [OF Nil])
  then have "tk_read_error t1" using char_of_rest(2) by (simp add: written_def)
  then show ?case using t1
    by (auto simp: tokenize.simps [of _ _ t] tk_Next_loop.simps [of _ _ _ t1] Tokenizer_current_def kind_and_text_def)
next
  case (Cons l ls)
  obtain t1 skipped where t1: "Tokenizer_Next vt t = tk_Next_loop vt (t_type (tk_current t)) skipped t1"
    "tk_ok ok avail t1" "\<not> s_in_token (tk_view avail t1)" "s_rest (tk_view avail t1) = written (l # ls)"
    "tk_errors t1 = tk_errors t"
    by (rule next_after_blank [OF Cons.prems])
  then obtain t2 where t2: "Tokenizer_Next vt t = Some (True, t2)" "tk_ok ok avail t2"
    "s_rest (tk_view avail t2) = 32 # written ls" "tk_errors t2 = tk_errors t"
    "kind_and_text (tk_current t2) = (literal_type l, literal_text l)" "\<not> s_in_token (tk_view avail t2)"
    using next_literal [OF t1(2), of l "written ls" "t_type (tk_current t)" skipped] Cons.prems(3)
    by (auto simp: written_Cons)
  obtain ts t3 where "tokenize vt (acc @ [tk_current t2]) t2 = Some ((acc @ [tk_current t2]) @ ts, t3)"
    "tk_errors t3 = tk_errors t2"
    "map kind_and_text ts = map (\<lambda>l. (literal_type l, literal_text l)) ls @ [(TYPE_END, [])]"
    using Cons.IH [OF t2(2,6), of "acc @ [tk_current t2]"] Cons.prems(3) t2(3) by auto
  then show ?case using t2
    by (intro exI [of _ "tk_current t2 # ts"] exI [of _ t3])
      (simp add: tokenize.simps [of _ _ t] Tokenizer_current_def)
qed

lemma new_view:
  assumes "ok s"
  obtains t where "Tokenizer_new vt s g = Some t" "tk_ok ok avail t" "\<not> s_in_token (tk_view avail t)"
    "s_rest (tk_view avail t) = avail s" "tk_errors t = []"
proof -
  let ?fresh = "\<lparr>tk_current = \<lparr>t_type = TYPE_START, t_text = [], t_line = 0, t_column = 0\<rparr>,
       tk_input = s, tk_errors = [], tk_current_char = g, tk_buffer = [],
       tk_buffer_pos = 0, tk_read_error = False, tk_line = 0, tk_column = 0,
       tk_token_start = -1, tk_allow_f = False, tk_comment_style = CPP_COMMENT_STYLE\<rparr>"
  obtain t where t: "Tokenizer_new vt s g = Some t" "tk_ok ok avail t"
    "tk_view avail t = (tk_view avail ?fresh)\<lparr>s_eof := (avail s = [])\<rparr>"
    using refresh_view [of ?fresh] assms by (auto simp: Tokenizer_new_def)
  have fresh: "s_rest (tk_view avail ?fresh) = avail s" "s_errors (tk_view avail ?fresh) = []"
    "\<not> s_in_token (tk_view avail ?fresh)" by (simp_all add: tk_view_def tk_rest_def)
  have "tk_errors t = s_errors (tk_view avail t)" by (simp add: tk_view_def)
  then show thesis using that [OF t(1,2)] fresh unfolding t(3) by simp
qed

end

text \<open>C39: A file of identifiers, unsigned 64-bit integers in decimal and strings escaped by
  \<open>CEscape\<close>, each followed by a blank, is read as exactly those tokens, in order and without an error,
  in any block size, comment style and setting of the float suffix; and \<open>ParseInteger\<close> and
  \<open>ParseString\<close> give the values back.\<close>

theorem tokenize_literals:
  assumes "\<forall>l\<in>set ls. literal_ok l" "int (length (written ls)) \<le> INT_MAX"
  shows "\<exists>ts. tokens_and_errors ArrayInput_vt allow_f style g
      (ArrayInputStream (written ls) (int (length (written ls))) n) = Some (ts, []) \<and>
    map kind_and_text ts = map (\<lambda>l. (literal_type l, literal_text l)) ls @ [(TYPE_END, [])] \<and>
    list_all reads_back ls"
proof -
  obtain t where t: "Tokenizer_new ArrayInput_vt (ArrayInputStream (written ls) (int (length (written ls))) n) g = Some t"
    "tk_ok array_input_ok array_input_avail t" "\<not> s_in_token (tk_view array_input_avail t)"
    "s_rest (tk_view array_input_avail t) = written ls" "tk_errors t = []"
    using ai.new_view [OF array_input_ok_init [OF assms(2)]] by auto
  let ?t = "Tokenizer_set_comment_style style (Tokenizer_set_allow_f_after_float allow_f t)"
  have opts: "tk_ok array_input_ok array_input_avail ?t" "\<not> s_in_token (tk_view array_input_avail ?t)"
    "s_rest (tk_view array_input_avail ?t) = written ls" "tk_errors ?t = []"
    using t by (simp_all add: Tokenizer_set_comment_style_def Tokenizer_set_allow_f_after_float_def
        del: view_options add: view_options [unfolded Tokenizer_set_comment_style_def Tokenizer_set_allow_f_after_float_def])
  from ai.tokenize_written [OF opts(1,2) assms(1), of "[]"] opts(3,4) t(1) literal_reads_back show ?thesis
    by (auto simp: tokens_and_errors_def list_all_iff)
qed

theorem tokenize_literals_witness:
  "\<exists>ts. tokens_and_errors ArrayInput_vt True SH_COMMENT_STYLE 0
      (ArrayInputStream (written [Identifier [97, 49], String [10, 65], Integer 18446744073709551615])
        (int (length (written [Identifier [97, 49], String [10, 65], Integer 18446744073709551615]))) 3) = Some (ts, []) \<and>
    map kind_and_text ts = [(TYPE_IDENTIFIER, [97, 49]), (TYPE_STRING, [34, 92, 110, 65, 34]),
      (TYPE_INTEGER, decimal 18446744073709551615), (TYPE_END, [])]"
proof -
  let ?ls = "[Identifier [97, 49], String [10, 65], Integer 18446744073709551615]"
  have ok: "\<forall>l\<in>set ?ls. literal_ok l" by (simp add: char_classes)
  have "length (decimal 18446744073709551615) \<le> Suc 19" by (rule length_decimal_le) simp
  then have small: "int (length (written ?ls)) \<le> INT_MAX"
    by (simp add: written_def INT_MAX_def short_escape_def isprint_def)
  have "(34 :: byte) # escaped False False [10, 65] @ [34] = [34, 92, 110, 65, 34]"
    by (simp add: short_escape_def isprint_def)
  with tokenize_literals [OF ok small, of True SH_COMMENT_STYLE 0 3] show ?thesis by auto
qed

section \<open>Hexadecimal with a capital letter\<close>

context zero_copy_input
begin

text \<open>An input of one token.\<close>

lemma tokenize_single:
  assumes "ok s" "avail s = c # cs" "token_start c"
    "\<And>t skipped ty'. tk_ok ok avail t \<Longrightarrow> s_rest (tk_view avail t) = c # cs \<Longrightarrow>
      reads_token (c # cs) ty (tk_token_body vt ty' skipped t) t"
  shows "\<exists>ts. tokens_and_errors vt allow_f style g s = Some (ts, []) \<and>
    map kind_and_text ts = [(ty, c # cs), (TYPE_END, [])]"
proof -
  obtain t where t: "Tokenizer_new vt s g = Some t" "tk_ok ok avail t" "\<not> s_in_token (tk_view avail t)"
    "s_rest (tk_view avail t) = avail s" "tk_errors t = []" by (rule new_view [OF assms(1)])
  let ?t = "Tokenizer_set_comment_style style (Tokenizer_set_allow_f_after_float allow_f t)"
  have opts: "tk_ok ok avail ?t" "\<not> s_in_token (tk_view avail ?t)" "s_rest (tk_view avail ?t) = c # cs"
    using t assms(2) by simp_all
  have "tk_errors ?t = []"
    using t(5) by (simp add: Tokenizer_set_comment_style_def Tokenizer_set_allow_f_after_float_def)
  moreover have "\<exists>t'. tk_Next_loop vt (t_type (tk_current ?t)) False ?t = Some (True, t') \<and> tk_ok ok avail t' \<and>
    s_rest (tk_view avail ?t) = (c # cs) @ s_rest (tk_view avail t') \<and> tk_errors t' = tk_errors ?t \<and>
    t_type (tk_current t') = ty \<and> t_text (tk_current t') = c # cs \<and> \<not> s_in_token (tk_view avail t') \<and>
    s_allow_f (tk_view avail t') = s_allow_f (tk_view avail ?t) \<and> s_style (tk_view avail t') = s_style (tk_view avail ?t)"
    by (rule next_loop_token [OF opts(1,3) assms(3) opts(2)]) (use assms(4) in simp_all)
  ultimately obtain t1 where t1: "Tokenizer_Next vt ?t = Some (True, t1)" "tk_ok ok avail t1"
    "s_rest (tk_view avail t1) = []" "tk_errors t1 = []" "kind_and_text (tk_current t1) = (ty, c # cs)"
    "\<not> s_in_token (tk_view avail t1)"
    using opts(3) by (auto simp: Tokenizer_Next_def kind_and_text_def)
  obtain ts t2 where "tokenize vt [tk_current t1] t1 = Some ([tk_current t1] @ ts, t2)" "tk_errors t2 = []"
    "map kind_and_text ts = [(TYPE_END, [])]"
    using tokenize_written [OF t1(2,6), of "[]" "[tk_current t1]"] t1(3,4) by (auto simp: written_def)
  then show ?thesis using t(1) t1(1,5)
    by (auto simp: tokens_and_errors_def tokenize.simps [of _ _ ?t] Tokenizer_current_def)
qed

end

lemma hex_digit_value: "HexDigit d \<Longrightarrow> 0 \<le> DigitValue d \<and> DigitValue d < 16"
  by (auto simp: char_classes DigitValue_def word_le_def)

text \<open>C40: The tokenizer reads a hexadecimal number, and a hexadecimal escape in a string, with \<open>x\<close> as
  well as with \<open>X\<close>, without an error. The functions that parse the texts know only the lower-case
  letter, although they promise to accept every token of the tokenizer: on \<open>0X\<close> \<open>ParseInteger\<close> ends
  the process, and for \<open>\\X\<close> \<open>ParseString\<close> returns a question mark and the digit.\<close>

theorem capital_hex_prefix:
  assumes x: "x = asc CHR ''x'' \<or> x = asc CHR ''X''" and d: "HexDigit d" "\<forall>c\<in>set ds. HexDigit c"
    and small: "int (length ds) + 3 \<le> INT_MAX"
  shows "(\<exists>ts. tokens_and_errors ArrayInput_vt allow_f style g
        (ArrayInputStream (48 # x # d # ds) (int (length ds) + 3) n) = Some (ts, []) \<and>
      map kind_and_text ts = [(TYPE_INTEGER, 48 # x # d # ds), (TYPE_END, [])]) \<and>
    ParseInteger (48 # x # d # ds) max_value =
      (if x = asc CHR ''x'' then
         Some (if digits_value 16 0 (d # ds) \<le> uint max_value then Some (word_of_int (digits_value 16 0 (d # ds))) else None)
       else None) \<and>
    (\<exists>ts. tokens_and_errors ArrayInput_vt allow_f style g
        (ArrayInputStream [0x22, 0x5C, x, d, 0x22] 5 n) = Some (ts, []) \<and>
      map kind_and_text ts = [(TYPE_STRING, [0x22, 0x5C, x, d, 0x22]), (TYPE_END, [])]) \<and>
    ParseString [0x22, 0x5C, x, d, 0x22] =
      Some (if x = asc CHR ''x'' then [word_of_int (DigitValue d)] else [asc CHR ''?'', d])"
proof (intro conjI)
  have hex: "\<forall>c\<in>set (d # ds). HexDigit c" using d by simp
  have start: "token_start 48" "token_start 0x22" by (simp_all add: token_start_def char_classes)
  have "int (length (48 # x # d # ds)) \<le> INT_MAX" using small by simp
  from array_input_ok_init [OF this, of n] have ok: "array_input_ok (ArrayInputStream (48 # x # d # ds) (int (length ds) + 3) n)"
    by (simp add: add.commute)
  show "\<exists>ts. tokens_and_errors ArrayInput_vt allow_f style g
        (ArrayInputStream (48 # x # d # ds) (int (length ds) + 3) n) = Some (ts, []) \<and>
      map kind_and_text ts = [(TYPE_INTEGER, 48 # x # d # ds), (TYPE_END, [])]"
    by (rule ai.tokenize_single [OF ok _ start(1)])
      (use x hex ai.hex_number_body [where ys = "[]"] in \<open>auto simp: word_end_def\<close>)
  have "array_input_ok (ArrayInputStream [0x22, 0x5C, x, d, 0x22] 5 n)"
    using array_input_ok_init [of "[0x22, 0x5C, x, d, 0x22]" n] by (simp add: INT_MAX_def)
  then show "\<exists>ts. tokens_and_errors ArrayInput_vt allow_f style g
        (ArrayInputStream [0x22, 0x5C, x, d, 0x22] 5 n) = Some (ts, []) \<and>
      map kind_and_text ts = [(TYPE_STRING, [0x22, 0x5C, x, d, 0x22]), (TYPE_END, [])]"
    by (rule ai.tokenize_single [OF _ _ start(2)])
      (use x d(1) ai.hex_string_body [where ys = "[]"] in auto)
  have nul: "0 \<notin> set (48 # x # d # ds)" using hex x classes_no_nul by auto
  show "ParseInteger (48 # x # d # ds) max_value =
      (if x = asc CHR ''x'' then
         Some (if digits_value 16 0 (d # ds) \<le> uint max_value then Some (word_of_int (digits_value 16 0 (d # ds))) else None)
       else None)"
  proof (cases "x = asc CHR ''x''")
    case True
    have "digits_in 16 (d # ds)" using hex hex_digit_value by (simp add: digits_in_def)
    moreover have "integer_base (48 # x # d # ds) = (16, d # ds)" using True by (simp add: integer_base_def)
    ultimately show ?thesis using ParseInteger_value [OF nul] True by simp
  next
    case False
    then have "x = asc CHR ''X''" using x by simp
    then show ?thesis
      using c_str_id [OF nul] by (simp add: ParseInteger_def DigitValue_def between_def)
  qed
  have "d \<noteq> 0" "d \<noteq> 0x22" "d \<noteq> 0x5C" using d(1) by (auto simp: char_classes)
  then show "ParseString [0x22, 0x5C, x, d, 0x22] =
      Some (if x = asc CHR ''x'' then [word_of_int (DigitValue d)] else [asc CHR ''?'', d])"
    using x d(1)
    by (auto simp: ParseString_def c_str_def parse_escape_def more_digit_def TranslateEscape_def
        OctalDigit_def HexDigit_def between_def)
qed

theorem capital_hex_prefix_witness:
  "(\<exists>ts. tokens_and_errors ArrayInput_vt False CPP_COMMENT_STYLE 0 (ArrayInputStream [48, 88, 70] 3 1) = Some (ts, []) \<and>
      map kind_and_text ts = [(TYPE_INTEGER, [48, 88, 70]), (TYPE_END, [])]) \<and>
    ParseInteger [48, 88, 70] 1000 = None \<and> ParseString [0x22, 0x5C, 88, 70, 0x22] = Some [63, 70]"
  using capital_hex_prefix [of 88 70 "[]" False CPP_COMMENT_STYLE 0 1 1000]
  by (simp add: HexDigit_def between_def INT_MAX_def)

end
