(* ===== verification/WirePrimitives.thy ===== *)
theory WirePrimitives
  imports WireSkip
begin

text \<open>
  Reading, writing and measuring one value of each field type (\<open>wire_format_inl.h\<close>), and the
  embedded messages, whose virtual methods are arguments here: \<open>merge\<close> is
  \<open>MergePartialFromCodedStream\<close>, \<open>serialize\<close> is \<open>SerializeWithCachedSizes\<close>,
  \<open>cached_size\<close> is \<open>GetCachedSize\<close> and \<open>byte_size\<close> is \<open>ByteSize\<close>, which stores
  the size in the message. An \<open>int32\<close> or \<open>int64\<close> is an \<open>int\<close> within its bounds.
  \<open>FieldCodec\<close> shows what the writers write, that the readers read it back, and that the sizes are
  the lengths.
\<close>

section \<open>Floating point\<close>

text \<open>A \<open>float\<close> or \<open>double\<close> is its object representation, which is all the unions look at.\<close>

datatype cxx_float = Float_bits uint32

datatype cxx_double = Double_bits uint64

fun EncodeFloat :: "cxx_float \<Rightarrow> uint32" where
  "EncodeFloat (Float_bits i) = i"

definition DecodeFloat :: "uint32 \<Rightarrow> cxx_float" where
  "DecodeFloat value = Float_bits value"

fun EncodeDouble :: "cxx_double \<Rightarrow> uint64" where
  "EncodeDouble (Double_bits i) = i"

definition DecodeDouble :: "uint64 \<Rightarrow> cxx_double" where
  "DecodeDouble value = Double_bits value"

section \<open>Reading\<close>

text \<open>\<open>if (!input->Read\<dots>(&temp)) return false; *value = f(temp); return true;\<close>\<close>

definition converted ::
  "('a \<Rightarrow> 'b) \<Rightarrow> ('a option \<times> 's coded_input) option \<Rightarrow> ('b option \<times> 's coded_input) option" where
  "converted f r = map_option (\<lambda>(temp, c). (map_option f temp, c)) r"

definition ReadInt32 :: "'s input_vt \<Rightarrow> 's coded_input \<Rightarrow> (int option \<times> 's coded_input) option" where
  "ReadInt32 vt input = converted sint (CodedInputStream_ReadVarint32 vt input)"

definition ReadInt64 :: "'s input_vt \<Rightarrow> 's coded_input \<Rightarrow> (int option \<times> 's coded_input) option" where
  "ReadInt64 vt input = converted sint (CodedInputStream_ReadVarint64 vt input)"

definition ReadUInt32 :: "'s input_vt \<Rightarrow> 's coded_input \<Rightarrow> (uint32 option \<times> 's coded_input) option" where
  "ReadUInt32 vt input = CodedInputStream_ReadVarint32 vt input"

definition ReadUInt64 :: "'s input_vt \<Rightarrow> 's coded_input \<Rightarrow> (uint64 option \<times> 's coded_input) option" where
  "ReadUInt64 vt input = CodedInputStream_ReadVarint64 vt input"

definition ReadSInt32 :: "'s input_vt \<Rightarrow> 's coded_input \<Rightarrow> (int option \<times> 's coded_input) option" where
  "ReadSInt32 vt input = converted (\<lambda>temp. sint (ZigZagDecode32 temp)) (CodedInputStream_ReadVarint32 vt input)"

definition ReadSInt64 :: "'s input_vt \<Rightarrow> 's coded_input \<Rightarrow> (int option \<times> 's coded_input) option" where
  "ReadSInt64 vt input = converted (\<lambda>temp. sint (ZigZagDecode64 temp)) (CodedInputStream_ReadVarint64 vt input)"

definition ReadFixed32 :: "'s input_vt \<Rightarrow> 's coded_input \<Rightarrow> (uint32 option \<times> 's coded_input) option" where
  "ReadFixed32 vt input = CodedInputStream_ReadLittleEndian32 vt input"

definition ReadFixed64 :: "'s input_vt \<Rightarrow> 's coded_input \<Rightarrow> (uint64 option \<times> 's coded_input) option" where
  "ReadFixed64 vt input = CodedInputStream_ReadLittleEndian64 vt input"

definition ReadSFixed32 :: "'s input_vt \<Rightarrow> 's coded_input \<Rightarrow> (int option \<times> 's coded_input) option" where
  "ReadSFixed32 vt input = converted sint (CodedInputStream_ReadLittleEndian32 vt input)"

definition ReadSFixed64 :: "'s input_vt \<Rightarrow> 's coded_input \<Rightarrow> (int option \<times> 's coded_input) option" where
  "ReadSFixed64 vt input = converted sint (CodedInputStream_ReadLittleEndian64 vt input)"

definition ReadFloat :: "'s input_vt \<Rightarrow> 's coded_input \<Rightarrow> (cxx_float option \<times> 's coded_input) option" where
  "ReadFloat vt input = converted DecodeFloat (CodedInputStream_ReadLittleEndian32 vt input)"

definition ReadDouble :: "'s input_vt \<Rightarrow> 's coded_input \<Rightarrow> (cxx_double option \<times> 's coded_input) option" where
  "ReadDouble vt input = converted DecodeDouble (CodedInputStream_ReadLittleEndian64 vt input)"

definition ReadBool :: "'s input_vt \<Rightarrow> 's coded_input \<Rightarrow> (bool option \<times> 's coded_input) option" where
  "ReadBool vt input = converted (\<lambda>temp. temp \<noteq> 0) (CodedInputStream_ReadVarint32 vt input)"

definition ReadEnum :: "'s input_vt \<Rightarrow> 's coded_input \<Rightarrow> (int option \<times> 's coded_input) option" where
  "ReadEnum vt input = converted sint (CodedInputStream_ReadVarint32 vt input)"

text \<open>\<open>value\<close> is the string passed in; the result holds what is left in it.\<close>

definition ReadString ::
  "'s input_vt \<Rightarrow> bytes \<Rightarrow> 's coded_input \<Rightarrow> ((bool \<times> bytes) \<times> 's coded_input) option" where
  "ReadString vt value input = do {
     (r, c) \<leftarrow> CodedInputStream_ReadVarint32 vt input;
     (case r of
        None \<Rightarrow> Some ((False, value), c)
      | Some len \<Rightarrow> CodedInputStream_ReadString vt value (sint len) c)
   }"

definition ReadBytes ::
  "'s input_vt \<Rightarrow> bytes \<Rightarrow> 's coded_input \<Rightarrow> ((bool \<times> bytes) \<times> 's coded_input) option" where
  "ReadBytes vt value input = do {
     (r, c) \<leftarrow> CodedInputStream_ReadVarint32 vt input;
     (case r of
        None \<Rightarrow> Some ((False, value), c)
      | Some len \<Rightarrow> CodedInputStream_ReadString vt value (sint len) c)
   }"

type_synonym ('s, 'm) merge = "'s coded_input \<Rightarrow> 'm \<Rightarrow> ((bool \<times> 'm) \<times> 's coded_input) option"

definition ReadGroup :: "('s, 'm) merge \<Rightarrow> int \<Rightarrow> ('s, 'm) merge" where
  "ReadGroup merge field_number input value =
     (let (deeper, c) = CodedInputStream_IncrementRecursionDepth input in
      if \<not> deeper then Some ((False, value), c)
      else do {
        ((ok, value'), c1) \<leftarrow> merge c value;
        (if \<not> ok then Some ((False, value'), c1)
         else
           let c2 = CodedInputStream_DecrementRecursionDepth c1 in
           Some ((CodedInputStream_LastTagWas (MakeTag field_number WIRETYPE_END_GROUP) c2, value'), c2))
      })"

definition ReadMessage :: "'s input_vt \<Rightarrow> ('s, 'm) merge \<Rightarrow> ('s, 'm) merge" where
  "ReadMessage vt merge input value = do {
     (r, c) \<leftarrow> CodedInputStream_ReadVarint32 vt input;
     (case r of
        None \<Rightarrow> Some ((False, value), c)
      | Some len \<Rightarrow>
          (let (deeper, c1) = CodedInputStream_IncrementRecursionDepth c in
           if \<not> deeper then Some ((False, value), c1)
           else
             let (limit, c2) = CodedInputStream_PushLimit (sint len) c1 in do {
               ((ok, value'), c3) \<leftarrow> merge c2 value;
               (if \<not> ok then Some ((False, value'), c3)
                else if \<not> CodedInputStream_ConsumedEntireMessage c3 then Some ((False, value'), c3)
                else Some ((True, value'),
                  CodedInputStream_DecrementRecursionDepth (CodedInputStream_PopLimit limit c3)))
             }))
   }"

section \<open>Writing\<close>

definition WriteTag :: "'s output_vt \<Rightarrow> int \<Rightarrow> wire_type \<Rightarrow> 's coded_output \<Rightarrow> (bool \<times> 's coded_output) option" where
  "WriteTag vt field_number t = CodedOutputStream_WriteTag vt (MakeTag field_number t)"

definition WriteInt32 :: "'s output_vt \<Rightarrow> int \<Rightarrow> int \<Rightarrow> 's coded_output \<Rightarrow> (bool \<times> 's coded_output) option" where
  "WriteInt32 vt field_number value =
     co_seq [WriteTag vt field_number WIRETYPE_VARINT, CodedOutputStream_WriteVarint32SignExtended vt value]"

definition WriteInt64 :: "'s output_vt \<Rightarrow> int \<Rightarrow> int \<Rightarrow> 's coded_output \<Rightarrow> (bool \<times> 's coded_output) option" where
  "WriteInt64 vt field_number value =
     co_seq [WriteTag vt field_number WIRETYPE_VARINT, CodedOutputStream_WriteVarint64 vt (of_int value)]"

definition WriteUInt32 :: "'s output_vt \<Rightarrow> int \<Rightarrow> uint32 \<Rightarrow> 's coded_output \<Rightarrow> (bool \<times> 's coded_output) option" where
  "WriteUInt32 vt field_number value =
     co_seq [WriteTag vt field_number WIRETYPE_VARINT, CodedOutputStream_WriteVarint32 vt value]"

definition WriteUInt64 :: "'s output_vt \<Rightarrow> int \<Rightarrow> uint64 \<Rightarrow> 's coded_output \<Rightarrow> (bool \<times> 's coded_output) option" where
  "WriteUInt64 vt field_number value =
     co_seq [WriteTag vt field_number WIRETYPE_VARINT, CodedOutputStream_WriteVarint64 vt value]"

definition WriteSInt32 :: "'s output_vt \<Rightarrow> int \<Rightarrow> int \<Rightarrow> 's coded_output \<Rightarrow> (bool \<times> 's coded_output) option" where
  "WriteSInt32 vt field_number value =
     co_seq [WriteTag vt field_number WIRETYPE_VARINT, CodedOutputStream_WriteVarint32 vt (ZigZagEncode32 (of_int value))]"

definition WriteSInt64 :: "'s output_vt \<Rightarrow> int \<Rightarrow> int \<Rightarrow> 's coded_output \<Rightarrow> (bool \<times> 's coded_output) option" where
  "WriteSInt64 vt field_number value =
     co_seq [WriteTag vt field_number WIRETYPE_VARINT, CodedOutputStream_WriteVarint64 vt (ZigZagEncode64 (of_int value))]"

definition WriteFixed32 :: "'s output_vt \<Rightarrow> int \<Rightarrow> uint32 \<Rightarrow> 's coded_output \<Rightarrow> (bool \<times> 's coded_output) option" where
  "WriteFixed32 vt field_number value =
     co_seq [WriteTag vt field_number WIRETYPE_FIXED32, CodedOutputStream_WriteLittleEndian32 vt value]"

definition WriteFixed64 :: "'s output_vt \<Rightarrow> int \<Rightarrow> uint64 \<Rightarrow> 's coded_output \<Rightarrow> (bool \<times> 's coded_output) option" where
  "WriteFixed64 vt field_number value =
     co_seq [WriteTag vt field_number WIRETYPE_FIXED64, CodedOutputStream_WriteLittleEndian64 vt value]"

definition WriteSFixed32 :: "'s output_vt \<Rightarrow> int \<Rightarrow> int \<Rightarrow> 's coded_output \<Rightarrow> (bool \<times> 's coded_output) option" where
  "WriteSFixed32 vt field_number value =
     co_seq [WriteTag vt field_number WIRETYPE_FIXED32, CodedOutputStream_WriteLittleEndian32 vt (of_int value)]"

definition WriteSFixed64 :: "'s output_vt \<Rightarrow> int \<Rightarrow> int \<Rightarrow> 's coded_output \<Rightarrow> (bool \<times> 's coded_output) option" where
  "WriteSFixed64 vt field_number value =
     co_seq [WriteTag vt field_number WIRETYPE_FIXED64, CodedOutputStream_WriteLittleEndian64 vt (of_int value)]"

definition WriteFloat :: "'s output_vt \<Rightarrow> int \<Rightarrow> cxx_float \<Rightarrow> 's coded_output \<Rightarrow> (bool \<times> 's coded_output) option" where
  "WriteFloat vt field_number value =
     co_seq [WriteTag vt field_number WIRETYPE_FIXED32, CodedOutputStream_WriteLittleEndian32 vt (EncodeFloat value)]"

definition WriteDouble :: "'s output_vt \<Rightarrow> int \<Rightarrow> cxx_double \<Rightarrow> 's coded_output \<Rightarrow> (bool \<times> 's coded_output) option" where
  "WriteDouble vt field_number value =
     co_seq [WriteTag vt field_number WIRETYPE_FIXED64, CodedOutputStream_WriteLittleEndian64 vt (EncodeDouble value)]"

definition WriteBool :: "'s output_vt \<Rightarrow> int \<Rightarrow> bool \<Rightarrow> 's coded_output \<Rightarrow> (bool \<times> 's coded_output) option" where
  "WriteBool vt field_number value =
     co_seq [WriteTag vt field_number WIRETYPE_VARINT, CodedOutputStream_WriteVarint32 vt (if value then 1 else 0)]"

definition WriteEnum :: "'s output_vt \<Rightarrow> int \<Rightarrow> int \<Rightarrow> 's coded_output \<Rightarrow> (bool \<times> 's coded_output) option" where
  "WriteEnum vt field_number value =
     co_seq [WriteTag vt field_number WIRETYPE_VARINT, CodedOutputStream_WriteVarint32SignExtended vt value]"

definition WriteString :: "'s output_vt \<Rightarrow> int \<Rightarrow> bytes \<Rightarrow> 's coded_output \<Rightarrow> (bool \<times> 's coded_output) option" where
  "WriteString vt field_number value =
     co_seq [WriteTag vt field_number WIRETYPE_LENGTH_DELIMITED,
       CodedOutputStream_WriteVarint32 vt (of_nat (length value)), CodedOutputStream_WriteString vt value]"

definition WriteBytes :: "'s output_vt \<Rightarrow> int \<Rightarrow> bytes \<Rightarrow> 's coded_output \<Rightarrow> (bool \<times> 's coded_output) option" where
  "WriteBytes vt field_number value =
     co_seq [WriteTag vt field_number WIRETYPE_LENGTH_DELIMITED,
       CodedOutputStream_WriteVarint32 vt (of_nat (length value)), CodedOutputStream_WriteString vt value]"

type_synonym ('s, 'm) serialize = "'m \<Rightarrow> 's coded_output \<Rightarrow> (bool \<times> 's coded_output) option"

definition WriteGroup ::
  "'s output_vt \<Rightarrow> ('s, 'm) serialize \<Rightarrow> int \<Rightarrow> 'm \<Rightarrow> 's coded_output \<Rightarrow> (bool \<times> 's coded_output) option" where
  "WriteGroup vt serialize field_number value =
     co_seq [WriteTag vt field_number WIRETYPE_START_GROUP, serialize value,
       WriteTag vt field_number WIRETYPE_END_GROUP]"

definition WriteMessage ::
  "'s output_vt \<Rightarrow> ('s, 'm) serialize \<Rightarrow> ('m \<Rightarrow> int) \<Rightarrow> int \<Rightarrow> 'm \<Rightarrow> 's coded_output \<Rightarrow>
    (bool \<times> 's coded_output) option" where
  "WriteMessage vt serialize cached_size field_number value =
     co_seq [WriteTag vt field_number WIRETYPE_LENGTH_DELIMITED,
       CodedOutputStream_WriteVarint32 vt (of_int (cached_size value)), serialize value]"

section \<open>Sizes\<close>

definition TagSize :: "int \<Rightarrow> field_type \<Rightarrow> int" where
  "TagSize field_number type =
     (let result = CodedOutputStream_VarintSize32 (push_bit kTagTypeBits (of_int field_number)) in
      if type = TYPE_GROUP then result * 2 else result)"

definition Int32Size :: "int \<Rightarrow> int" where
  "Int32Size value = CodedOutputStream_VarintSize32SignExtended value"

definition Int64Size :: "int \<Rightarrow> int" where
  "Int64Size value = CodedOutputStream_VarintSize64 (of_int value)"

definition UInt32Size :: "uint32 \<Rightarrow> int" where
  "UInt32Size value = CodedOutputStream_VarintSize32 value"

definition UInt64Size :: "uint64 \<Rightarrow> int" where
  "UInt64Size value = CodedOutputStream_VarintSize64 value"

definition SInt32Size :: "int \<Rightarrow> int" where
  "SInt32Size value = CodedOutputStream_VarintSize32 (ZigZagEncode32 (of_int value))"

definition SInt64Size :: "int \<Rightarrow> int" where
  "SInt64Size value = CodedOutputStream_VarintSize64 (ZigZagEncode64 (of_int value))"

definition EnumSize :: "int \<Rightarrow> int" where
  "EnumSize value = CodedOutputStream_VarintSize32SignExtended value"

definition kFixed32Size :: int where "kFixed32Size = 4"
definition kFixed64Size :: int where "kFixed64Size = 8"
definition kSFixed32Size :: int where "kSFixed32Size = 4"
definition kSFixed64Size :: int where "kSFixed64Size = 8"
definition kFloatSize :: int where "kFloatSize = 4"
definition kDoubleSize :: int where "kDoubleSize = 8"
definition kBoolSize :: int where "kBoolSize = 1"

definition StringSize :: "bytes \<Rightarrow> int" where
  "StringSize value = CodedOutputStream_VarintSize32 (of_nat (length value)) + int (length value)"

definition BytesSize :: "bytes \<Rightarrow> int" where
  "BytesSize value = CodedOutputStream_VarintSize32 (of_nat (length value)) + int (length value)"

definition GroupSize :: "('m \<Rightarrow> (int \<times> 'm) option) \<Rightarrow> 'm \<Rightarrow> (int \<times> 'm) option" where
  "GroupSize byte_size value = byte_size value"

definition MessageSize :: "('m \<Rightarrow> (int \<times> 'm) option) \<Rightarrow> 'm \<Rightarrow> (int \<times> 'm) option" where
  "MessageSize byte_size value = do {
     (size, value') \<leftarrow> byte_size value;
     Some (CodedOutputStream_VarintSize32 (of_int size) + size, value')
   }"

end
