(* ===== verification/Descriptors.thy ===== *)
theory Descriptors
  imports WirePrimitives
begin

text \<open>
  What the runtime asks of descriptors (\<open>descriptor.h\<close>, \<open>descriptor.cc\<close>). A descriptor pool
  numbers its message types and enum types; a pointer to a \<open>Descriptor\<close> or an
  \<open>EnumDescriptor\<close> is its number. How a pool is built and checked is not modelled: what the
  builder guarantees of its fields is the predicate \<open>pool_ok\<close>.
\<close>

section \<open>Fields\<close>

datatype cpp_type =
  CPPTYPE_INT32 | CPPTYPE_INT64 | CPPTYPE_UINT32 | CPPTYPE_UINT64 | CPPTYPE_DOUBLE | CPPTYPE_FLOAT
| CPPTYPE_BOOL | CPPTYPE_ENUM | CPPTYPE_STRING | CPPTYPE_MESSAGE

datatype field_label = LABEL_OPTIONAL | LABEL_REQUIRED | LABEL_REPEATED

fun kTypeToCppTypeMap :: "field_type \<Rightarrow> cpp_type" where
  "kTypeToCppTypeMap TYPE_DOUBLE = CPPTYPE_DOUBLE"
| "kTypeToCppTypeMap TYPE_FLOAT = CPPTYPE_FLOAT"
| "kTypeToCppTypeMap TYPE_INT64 = CPPTYPE_INT64"
| "kTypeToCppTypeMap TYPE_UINT64 = CPPTYPE_UINT64"
| "kTypeToCppTypeMap TYPE_INT32 = CPPTYPE_INT32"
| "kTypeToCppTypeMap TYPE_FIXED64 = CPPTYPE_UINT64"
| "kTypeToCppTypeMap TYPE_FIXED32 = CPPTYPE_UINT32"
| "kTypeToCppTypeMap TYPE_BOOL = CPPTYPE_BOOL"
| "kTypeToCppTypeMap TYPE_STRING = CPPTYPE_STRING"
| "kTypeToCppTypeMap TYPE_GROUP = CPPTYPE_MESSAGE"
| "kTypeToCppTypeMap TYPE_MESSAGE = CPPTYPE_MESSAGE"
| "kTypeToCppTypeMap TYPE_BYTES = CPPTYPE_STRING"
| "kTypeToCppTypeMap TYPE_UINT32 = CPPTYPE_UINT32"
| "kTypeToCppTypeMap TYPE_ENUM = CPPTYPE_ENUM"
| "kTypeToCppTypeMap TYPE_SFIXED32 = CPPTYPE_INT32"
| "kTypeToCppTypeMap TYPE_SFIXED64 = CPPTYPE_INT64"
| "kTypeToCppTypeMap TYPE_SINT32 = CPPTYPE_INT32"
| "kTypeToCppTypeMap TYPE_SINT64 = CPPTYPE_INT64"

text \<open>
  A value of a C++ type other than a message: a field's default value, and what a message stores. An
  enum is stored as its number.
\<close>

datatype scalar =
  VInt32 int | VInt64 int | VUInt32 uint32 | VUInt64 uint64 | VDouble cxx_double | VFloat cxx_float
| VBool bool | VEnum int | VString bytes

fun scalar_type :: "scalar \<Rightarrow> cpp_type" where
  "scalar_type (VInt32 _) = CPPTYPE_INT32"
| "scalar_type (VInt64 _) = CPPTYPE_INT64"
| "scalar_type (VUInt32 _) = CPPTYPE_UINT32"
| "scalar_type (VUInt64 _) = CPPTYPE_UINT64"
| "scalar_type (VDouble _) = CPPTYPE_DOUBLE"
| "scalar_type (VFloat _) = CPPTYPE_FLOAT"
| "scalar_type (VBool _) = CPPTYPE_BOOL"
| "scalar_type (VEnum _) = CPPTYPE_ENUM"
| "scalar_type (VString _) = CPPTYPE_STRING"

text \<open>
  \<open>fd_default\<close> is the \<open>default_value_\<close> union, which has no member for a message; an enum's
  default value and a string's empty default are in it too.
\<close>

record field_descriptor =
  fd_name :: bytes
  fd_full_name :: bytes
  fd_number :: int
  fd_index :: nat
  fd_type :: field_type
  fd_label :: field_label
  fd_is_extension :: bool
  fd_containing_type :: nat
  fd_message_type :: nat
  fd_enum_type :: nat
  fd_has_default_value :: bool
  fd_default :: "scalar option"

definition is_repeated :: "field_descriptor \<Rightarrow> bool" where
  "is_repeated fd \<longleftrightarrow> fd_label fd = LABEL_REPEATED"

definition is_required :: "field_descriptor \<Rightarrow> bool" where
  "is_required fd \<longleftrightarrow> fd_label fd = LABEL_REQUIRED"

definition cpp_type :: "field_descriptor \<Rightarrow> cpp_type" where
  "cpp_type fd = kTypeToCppTypeMap (fd_type fd)"

text \<open>\<open>default_value_TYPE()\<close>, which checks that the field is of the type.\<close>

definition default_value :: "cpp_type \<Rightarrow> field_descriptor \<Rightarrow> scalar option" where
  "default_value ty fd = (if cpp_type fd = ty then fd_default fd else None)"

section \<open>Message types, enum types and the pool\<close>

record descriptor =
  d_full_name :: bytes
  d_field_list :: "field_descriptor list"
  d_extension_ranges :: "(int \<times> int) list"
  d_message_set_wire_format :: bool

record enum_value =
  ev_type :: nat
  ev_number :: int

record pool =
  pool_types :: "descriptor list"
  pool_enums :: "int list list"
  pool_extensions :: "field_descriptor list"

text \<open>A pointer that is no message type of the pool has no descriptor.\<close>

definition descriptor_of :: "pool \<Rightarrow> nat \<Rightarrow> descriptor option" where
  "descriptor_of p t = rd (pool_types p) t"

definition d_field_count :: "descriptor \<Rightarrow> nat" where
  "d_field_count d = length (d_field_list d)"

text \<open>The tables of the pool map a parent and a number to one field.\<close>

definition FindFieldByNumber :: "descriptor \<Rightarrow> int \<Rightarrow> field_descriptor option" where
  "FindFieldByNumber d number = find (\<lambda>fd. fd_number fd = number) (d_field_list d)"

definition FindExtensionByNumber :: "pool \<Rightarrow> nat \<Rightarrow> int \<Rightarrow> field_descriptor option" where
  "FindExtensionByNumber p extendee number =
     find (\<lambda>fd. fd_containing_type fd = extendee \<and> fd_number fd = number) (pool_extensions p)"

definition IsExtensionNumber :: "descriptor \<Rightarrow> int \<Rightarrow> bool" where
  "IsExtensionNumber d number =
     (\<exists>(start, end) \<in> set (d_extension_ranges d). start \<le> number \<and> number < end)"

definition FindValueByNumber :: "pool \<Rightarrow> nat \<Rightarrow> int \<Rightarrow> enum_value option" where
  "FindValueByNumber p e number = do {
     numbers \<leftarrow> rd (pool_enums p) e;
     (if number \<in> set numbers then Some \<lparr>ev_type = e, ev_number = number\<rparr> else None)
   }"

section \<open>What the builder guarantees\<close>

text \<open>
  The bounds of the C++ types, and the numbers of the enum. The number of an enum value is an
  \<open>int32\<close>.
\<close>

fun scalar_ok :: "pool \<Rightarrow> field_descriptor \<Rightarrow> scalar \<Rightarrow> bool" where
  "scalar_ok p fd (VInt32 v) = (cpp_type fd = CPPTYPE_INT32 \<and> is_int32 v)"
| "scalar_ok p fd (VInt64 v) = (cpp_type fd = CPPTYPE_INT64 \<and> - (2 ^ 63) \<le> v \<and> v < 2 ^ 63)"
| "scalar_ok p fd (VEnum v) =
     (cpp_type fd = CPPTYPE_ENUM \<and> is_int32 v \<and> FindValueByNumber p (fd_enum_type fd) v \<noteq> None)"
| "scalar_ok p fd (VString d) = (cpp_type fd = CPPTYPE_STRING \<and> int (length d) \<le> INT_MAX)"
| "scalar_ok p fd v = (scalar_type v = cpp_type fd)"

definition field_ok :: "pool \<Rightarrow> field_descriptor \<Rightarrow> bool" where
  "field_ok p fd \<longleftrightarrow> valid_number (fd_number fd) \<and>
     (if cpp_type fd = CPPTYPE_MESSAGE then fd_message_type fd < length (pool_types p)
      else \<exists>v. fd_default fd = Some v \<and> scalar_ok p fd v)"

text \<open>
  The fields of a message type are numbered in order and differ in their field numbers, which are not
  in its extension ranges; an extension's number is in one of them, and an extension is never required.
\<close>

definition descriptor_ok :: "pool \<Rightarrow> nat \<Rightarrow> descriptor \<Rightarrow> bool" where
  "descriptor_ok p t d \<longleftrightarrow>
     (\<forall>i < d_field_count d. let fd = d_field_list d ! i in
        field_ok p fd \<and> fd_index fd = i \<and> \<not> fd_is_extension fd \<and> fd_containing_type fd = t \<and>
        \<not> IsExtensionNumber d (fd_number fd)) \<and>
     distinct (map fd_number (d_field_list d))"

definition extension_ok :: "pool \<Rightarrow> field_descriptor \<Rightarrow> bool" where
  "extension_ok p fd \<longleftrightarrow> field_ok p fd \<and> fd_is_extension fd \<and> \<not> is_required fd \<and>
     (\<exists>d. descriptor_of p (fd_containing_type fd) = Some d \<and> IsExtensionNumber d (fd_number fd))"

definition pool_ok :: "pool \<Rightarrow> bool" where
  "pool_ok p \<longleftrightarrow>
     (\<forall>t < length (pool_types p). descriptor_ok p t (pool_types p ! t)) \<and>
     (\<forall>fd \<in> set (pool_extensions p). extension_ok p fd) \<and>
     distinct (map (\<lambda>fd. (fd_containing_type fd, fd_number fd)) (pool_extensions p))"

end
