(* ===== verification/Messages.thy ===== *)
theory Messages
  imports Descriptors
begin

text \<open>
  A message with reflection: \<open>DynamicMessage\<close> (\<open>dynamic_message.cc\<close>), whose fields
  \<open>GeneratedMessageReflection\<close> (\<open>generated_message_reflection.cc\<close>) reads and writes, and
  its \<open>ExtensionSet\<close> (\<open>extension_set.cc\<close>). The memory of a message is a list of slots, one
  for each field of its type: \<open>offsets_[i]\<close> is the place \<open>i\<close>, and a slot is an object of the
  field's type. A read of a slot as another type has no value. \<open>GOOGLE_LOG(FATAL)\<close> and a failed
  check end the process; the checks of a debug build are included.
\<close>

unbundle bit_operations_syntax

section \<open>Messages\<close>

text \<open>
  The slot of a singular string holds a pointer, which points either to the default value shared by all
  messages of the type (\<open>None\<close>) or to a string of its own; that of a singular message is
  \<open>NULL\<close> or owns a message. A \<open>RepeatedField\<close> or a \<open>RepeatedPtrField<string>\<close> is
  the list of its elements, as \<open>RepeatedFields\<close> justifies as long as the sizes of its array do not
  overflow (up to \<open>2 ^ 30\<close> elements); a \<open>RepeatedPtrField<Message>\<close> also keeps its cleared messages, which
  \<open>Add\<close> hands out again.
\<close>

datatype message = Message
  (msg_type: nat)
  (msg_is_prototype: bool)
  (msg_has_bits: "uint32 list")
  (msg_slots: "slot list")
  (msg_extensions: "(int \<times> extension) list option")
  (msg_unknown_fields: unknown_field_set)
  (msg_cached_size: int)
and slot =
  Scalar scalar
| StringPtr "bytes option"
| MessagePtr "message option"
| Scalars "scalar list"
| MessagePtrs "message list" "message list"
and extension = Extension
  (ext_descriptor: field_descriptor)
  (ext_value: slot)
  (ext_is_cleared: bool)

fun with_has_bits :: "uint32 list \<Rightarrow> message \<Rightarrow> message" where
  "with_has_bits h (Message t p _ s e u c) = Message t p h s e u c"

fun with_slots :: "slot list \<Rightarrow> message \<Rightarrow> message" where
  "with_slots s (Message t p h _ e u c) = Message t p h s e u c"

fun with_extensions :: "(int \<times> extension) list \<Rightarrow> message \<Rightarrow> message" where
  "with_extensions e (Message t p h s _ u c) = Message t p h s (Some e) u c"

fun with_unknown_fields :: "unknown_field_set \<Rightarrow> message \<Rightarrow> message" where
  "with_unknown_fields u (Message t p h s e _ c) = Message t p h s e u c"

fun with_cached_size :: "int \<Rightarrow> message \<Rightarrow> message" where
  "with_cached_size c (Message t p h s e u _) = Message t p h s e u c"

text \<open>
  The constructor of \<open>DynamicMessage\<close>. A prototype is cross-linked: its message fields point to the
  prototypes of their types, which is what the \<open>NULL\<close> of another message is read as.
\<close>

definition new_slot :: "field_descriptor \<Rightarrow> slot option" where
  "new_slot fd =
     (case cpp_type fd of
        CPPTYPE_MESSAGE \<Rightarrow> Some (if is_repeated fd then MessagePtrs [] [] else MessagePtr None)
      | CPPTYPE_STRING \<Rightarrow> Some (if is_repeated fd then Scalars [] else StringPtr None)
      | ty \<Rightarrow> if is_repeated fd then Some (Scalars [])
          else do { v \<leftarrow> default_value ty fd; Some (Scalar v) })"

fun option_map_list :: "('a \<Rightarrow> 'b option) \<Rightarrow> 'a list \<Rightarrow> 'b list option" where
  "option_map_list f [] = Some []"
| "option_map_list f (x # xs) = do { y \<leftarrow> f x; ys \<leftarrow> option_map_list f xs; Some (y # ys) }"

definition DivideRoundingUp :: "int \<Rightarrow> int \<Rightarrow> int" where
  "DivideRoundingUp i j = (i + (j - 1)) div j"

definition DynamicMessage :: "pool \<Rightarrow> bool \<Rightarrow> nat \<Rightarrow> message option" where
  "DynamicMessage p is_prototype t = do {
     d \<leftarrow> descriptor_of p t;
     slots \<leftarrow> option_map_list new_slot (d_field_list d);
     Some (Message t is_prototype (replicate (nat (DivideRoundingUp (int (d_field_count d)) 32)) 0) slots
       (if d_extension_ranges d \<noteq> [] then Some [] else None) NoInternal 0)
   }"

definition GetPrototype :: "pool \<Rightarrow> nat \<Rightarrow> message option" where
  "GetPrototype p t = DynamicMessage p True t"

definition Message_New :: "pool \<Rightarrow> message \<Rightarrow> message option" where
  "Message_New p m = DynamicMessage p False (msg_type m)"

section \<open>Has bits and raw slots\<close>

definition HasBit :: "field_descriptor \<Rightarrow> message \<Rightarrow> bool option" where
  "HasBit fd m = do {
     w \<leftarrow> rd (msg_has_bits m) (fd_index fd div 32);
     Some (w AND push_bit (fd_index fd mod 32) 1 \<noteq> 0)
   }"

definition SetBit :: "field_descriptor \<Rightarrow> message \<Rightarrow> message option" where
  "SetBit fd m = do {
     w \<leftarrow> rd (msg_has_bits m) (fd_index fd div 32);
     Some (with_has_bits ((msg_has_bits m)[fd_index fd div 32 := w OR push_bit (fd_index fd mod 32) 1]) m)
   }"

definition ClearBit :: "field_descriptor \<Rightarrow> message \<Rightarrow> message option" where
  "ClearBit fd m = do {
     w \<leftarrow> rd (msg_has_bits m) (fd_index fd div 32);
     Some (with_has_bits ((msg_has_bits m)[fd_index fd div 32 := w AND NOT (push_bit (fd_index fd mod 32) 1)]) m)
   }"

definition GetRaw :: "field_descriptor \<Rightarrow> message \<Rightarrow> slot option" where
  "GetRaw fd m = rd (msg_slots m) (fd_index fd)"

text \<open>A store through \<open>MutableRaw(field)\<close>.\<close>

definition store_raw :: "field_descriptor \<Rightarrow> slot \<Rightarrow> message \<Rightarrow> message option" where
  "store_raw fd s m = do {
     _ \<leftarrow> rd (msg_slots m) (fd_index fd);
     Some (with_slots ((msg_slots m)[fd_index fd := s]) m)
   }"

section \<open>Slots as objects of a type\<close>

fun slot_scalar :: "cpp_type \<Rightarrow> slot \<Rightarrow> scalar option" where
  "slot_scalar ty (Scalar v) = (if scalar_type v = ty then Some v else None)"
| "slot_scalar ty _ = None"

fun slot_scalars :: "slot \<Rightarrow> scalar list option" where
  "slot_scalars (Scalars vs) = Some vs"
| "slot_scalars _ = None"

fun slot_size :: "slot \<Rightarrow> int option" where
  "slot_size (Scalars vs) = Some (int (length vs))"
| "slot_size (MessagePtrs ms _) = Some (int (length ms))"
| "slot_size _ = None"

text \<open>\<open>Get(index)\<close> of a repeated field, with its check.\<close>

definition element :: "'a list \<Rightarrow> int \<Rightarrow> 'a option" where
  "element xs i = (if 0 \<le> i then rd xs (nat i) else None)"

end
