(* ===== verification/ExtensionSets.thy ===== *)
theory ExtensionSets
  imports Messages
begin

text \<open>
  \<open>ExtensionSet\<close> (\<open>extension_set.cc\<close>) over the descriptor pool and the extendee it was made
  with: the map from field numbers to extensions as the list of its entries in the order of the numbers.
  An entry that \<open>operator[]\<close> makes without a descriptor is filled in before anything can see it. A
  pointer to a message or an element is handed out together with the set it points into;
  \<open>store_extension\<close> is a store through it.
\<close>

type_synonym extensions = "(int \<times> extension) list"

section \<open>The map\<close>

fun map_put :: "int \<Rightarrow> 'a \<Rightarrow> (int \<times> 'a) list \<Rightarrow> (int \<times> 'a) list" where
  "map_put k v [] = [(k, v)]"
| "map_put k v ((j, w) # xs) =
     (if k < j then (k, v) # (j, w) # xs else if k = j then (k, v) # xs else (j, w) # map_put k v xs)"

section \<open>Lookup and basic methods\<close>

definition FindKnownExtensionOrDie :: "pool \<Rightarrow> nat \<Rightarrow> int \<Rightarrow> field_descriptor option" where
  "FindKnownExtensionOrDie p extendee number = FindExtensionByNumber p extendee number"

definition Extension_GetSize :: "extension \<Rightarrow> int option" where
  "Extension_GetSize e = (if is_repeated (ext_descriptor e) then slot_size (ext_value e) else None)"

fun ExtensionSet_AppendToList :: "extensions \<Rightarrow> field_descriptor list option" where
  "ExtensionSet_AppendToList [] = Some []"
| "ExtensionSet_AppendToList ((number, e) # exts) = do {
     has \<leftarrow> (if is_repeated (ext_descriptor e) then map_option (\<lambda>n. n > 0) (Extension_GetSize e)
             else Some (\<not> ext_is_cleared e));
     output \<leftarrow> ExtensionSet_AppendToList exts;
     Some (if has then ext_descriptor e # output else output)
   }"

definition ExtensionSet_Has :: "int \<Rightarrow> extensions \<Rightarrow> bool option" where
  "ExtensionSet_Has number exts =
     (case map_of exts number of
        None \<Rightarrow> Some False
      | Some e \<Rightarrow> if is_repeated (ext_descriptor e) then None else Some (\<not> ext_is_cleared e))"

text \<open>The \<open>false\<close> returned for a number that is not there is converted to 0.\<close>

definition ExtensionSet_ExtensionSize :: "int \<Rightarrow> extensions \<Rightarrow> int option" where
  "ExtensionSet_ExtensionSize number exts =
     (case map_of exts number of None \<Rightarrow> Some 0 | Some e \<Rightarrow> Extension_GetSize e)"

text \<open>\<open>GOOGLE_DCHECK_TYPE\<close>.\<close>

definition dcheck_type :: "field_label \<Rightarrow> cpp_type \<Rightarrow> field_descriptor \<Rightarrow> unit option" where
  "dcheck_type label ty fd = (if fd_label fd = label \<and> cpp_type fd = ty then Some () else None)"

section \<open>Primitives, enums and strings\<close>

definition ExtensionSet_Get :: "cpp_type \<Rightarrow> pool \<Rightarrow> nat \<Rightarrow> int \<Rightarrow> extensions \<Rightarrow> scalar option" where
  "ExtensionSet_Get ty p extendee number exts =
     (case map_of exts number of
        None \<Rightarrow> do {
          descriptor \<leftarrow> FindKnownExtensionOrDie p extendee number;
          _ \<leftarrow> dcheck_type LABEL_OPTIONAL ty descriptor;
          default_value ty descriptor
        }
      | Some e \<Rightarrow> do {
          _ \<leftarrow> dcheck_type LABEL_OPTIONAL ty (ext_descriptor e);
          slot_scalar ty (ext_value e)
        })"

text \<open>
  The value is stored twice, first the default and then \<open>value\<close>. The flag \<open>is_cleared\<close> is
  \<open>false\<close> in a new entry.
\<close>

definition ExtensionSet_Set ::
  "cpp_type \<Rightarrow> pool \<Rightarrow> nat \<Rightarrow> int \<Rightarrow> scalar \<Rightarrow> extensions \<Rightarrow> extensions option" where
  "ExtensionSet_Set ty p extendee number value exts =
     (case map_of exts number of
        None \<Rightarrow> do {
          descriptor \<leftarrow> FindKnownExtensionOrDie p extendee number;
          _ \<leftarrow> dcheck_type LABEL_OPTIONAL ty descriptor;
          _ \<leftarrow> default_value ty descriptor;
          Some (map_put number (Extension descriptor (Scalar value) False) exts)
        }
      | Some e \<Rightarrow> do {
          _ \<leftarrow> dcheck_type LABEL_OPTIONAL ty (ext_descriptor e);
          Some (map_put number (Extension (ext_descriptor e) (Scalar value) False) exts)
        })"

definition ExtensionSet_GetRepeated :: "cpp_type \<Rightarrow> int \<Rightarrow> int \<Rightarrow> extensions \<Rightarrow> scalar option" where
  "ExtensionSet_GetRepeated ty number index exts = do {
     e \<leftarrow> map_of exts number;
     _ \<leftarrow> dcheck_type LABEL_REPEATED ty (ext_descriptor e);
     vs \<leftarrow> slot_scalars (ext_value e);
     element vs index
   }"

definition ExtensionSet_SetRepeated ::
  "cpp_type \<Rightarrow> int \<Rightarrow> int \<Rightarrow> scalar \<Rightarrow> extensions \<Rightarrow> extensions option" where
  "ExtensionSet_SetRepeated ty number index value exts = do {
     e \<leftarrow> map_of exts number;
     _ \<leftarrow> dcheck_type LABEL_REPEATED ty (ext_descriptor e);
     vs \<leftarrow> slot_scalars (ext_value e);
     _ \<leftarrow> element vs index;
     Some (map_put number (Extension (ext_descriptor e) (Scalars (vs[nat index := value])) (ext_is_cleared e)) exts)
   }"

definition ExtensionSet_Add ::
  "cpp_type \<Rightarrow> pool \<Rightarrow> nat \<Rightarrow> int \<Rightarrow> scalar \<Rightarrow> extensions \<Rightarrow> extensions option" where
  "ExtensionSet_Add ty p extendee number value exts =
     (case map_of exts number of
        None \<Rightarrow> do {
          descriptor \<leftarrow> FindKnownExtensionOrDie p extendee number;
          _ \<leftarrow> dcheck_type LABEL_REPEATED ty descriptor;
          Some (map_put number (Extension descriptor (Scalars [value]) False) exts)
        }
      | Some e \<Rightarrow> do {
          _ \<leftarrow> dcheck_type LABEL_REPEATED ty (ext_descriptor e);
          vs \<leftarrow> slot_scalars (ext_value e);
          Some (map_put number (Extension (ext_descriptor e) (Scalars (vs @ [value])) (ext_is_cleared e)) exts)
        })"

text \<open>An enum's setters also check that the number is one of its values.\<close>

definition ExtensionSet_SetEnum :: "pool \<Rightarrow> nat \<Rightarrow> int \<Rightarrow> int \<Rightarrow> extensions \<Rightarrow> extensions option" where
  "ExtensionSet_SetEnum p extendee number value exts = do {
     exts' \<leftarrow> ExtensionSet_Set CPPTYPE_ENUM p extendee number (VEnum value) exts;
     e \<leftarrow> map_of exts' number;
     _ \<leftarrow> FindValueByNumber p (fd_enum_type (ext_descriptor e)) value;
     Some exts'
   }"

definition ExtensionSet_SetRepeatedEnum ::
  "pool \<Rightarrow> int \<Rightarrow> int \<Rightarrow> int \<Rightarrow> extensions \<Rightarrow> extensions option" where
  "ExtensionSet_SetRepeatedEnum p number index value exts = do {
     e \<leftarrow> map_of exts number;
     _ \<leftarrow> FindValueByNumber p (fd_enum_type (ext_descriptor e)) value;
     ExtensionSet_SetRepeated CPPTYPE_ENUM number index (VEnum value) exts
   }"

definition ExtensionSet_AddEnum :: "pool \<Rightarrow> nat \<Rightarrow> int \<Rightarrow> int \<Rightarrow> extensions \<Rightarrow> extensions option" where
  "ExtensionSet_AddEnum p extendee number value exts = do {
     exts' \<leftarrow> ExtensionSet_Add CPPTYPE_ENUM p extendee number (VEnum value) exts;
     e \<leftarrow> map_of exts' number;
     _ \<leftarrow> FindValueByNumber p (fd_enum_type (ext_descriptor e)) value;
     Some exts'
   }"

text \<open>A string's accessors; \<open>SetString\<close> and \<open>AddString\<close> assign to what the mutable ones return.\<close>

fun slot_string :: "slot \<Rightarrow> bytes option" where
  "slot_string (StringPtr s) = s"
| "slot_string _ = None"

definition ExtensionSet_GetString :: "pool \<Rightarrow> nat \<Rightarrow> int \<Rightarrow> extensions \<Rightarrow> scalar option" where
  "ExtensionSet_GetString p extendee number exts =
     (case map_of exts number of
        None \<Rightarrow> do {
          descriptor \<leftarrow> FindKnownExtensionOrDie p extendee number;
          _ \<leftarrow> dcheck_type LABEL_OPTIONAL CPPTYPE_STRING descriptor;
          default_value CPPTYPE_STRING descriptor
        }
      | Some e \<Rightarrow> do {
          _ \<leftarrow> dcheck_type LABEL_OPTIONAL CPPTYPE_STRING (ext_descriptor e);
          map_option VString (slot_string (ext_value e))
        })"

definition ExtensionSet_MutableString ::
  "pool \<Rightarrow> nat \<Rightarrow> int \<Rightarrow> extensions \<Rightarrow> (bytes \<times> extensions) option" where
  "ExtensionSet_MutableString p extendee number exts =
     (case map_of exts number of
        None \<Rightarrow> do {
          descriptor \<leftarrow> FindKnownExtensionOrDie p extendee number;
          _ \<leftarrow> dcheck_type LABEL_OPTIONAL CPPTYPE_STRING descriptor;
          Some ([], map_put number (Extension descriptor (StringPtr (Some [])) False) exts)
        }
      | Some e \<Rightarrow> do {
          _ \<leftarrow> dcheck_type LABEL_OPTIONAL CPPTYPE_STRING (ext_descriptor e);
          s \<leftarrow> slot_string (ext_value e);
          Some (s, map_put number (Extension (ext_descriptor e) (ext_value e) False) exts)
        })"

definition store_extension :: "int \<Rightarrow> slot \<Rightarrow> extensions \<Rightarrow> extensions option" where
  "store_extension number s exts = do {
     e \<leftarrow> map_of exts number;
     Some (map_put number (Extension (ext_descriptor e) s (ext_is_cleared e)) exts)
   }"

definition ExtensionSet_SetString ::
  "pool \<Rightarrow> nat \<Rightarrow> int \<Rightarrow> bytes \<Rightarrow> extensions \<Rightarrow> extensions option" where
  "ExtensionSet_SetString p extendee number value exts = do {
     (_, exts') \<leftarrow> ExtensionSet_MutableString p extendee number exts;
     store_extension number (StringPtr (Some value)) exts'
   }"

definition ExtensionSet_AddString ::
  "pool \<Rightarrow> nat \<Rightarrow> int \<Rightarrow> bytes \<Rightarrow> extensions \<Rightarrow> extensions option" where
  "ExtensionSet_AddString p extendee number value exts =
     ExtensionSet_Add CPPTYPE_STRING p extendee number (VString value) exts"

section \<open>Messages\<close>

definition ExtensionSet_GetMessage :: "pool \<Rightarrow> nat \<Rightarrow> int \<Rightarrow> extensions \<Rightarrow> message option" where
  "ExtensionSet_GetMessage p extendee number exts =
     (case map_of exts number of
        None \<Rightarrow> do {
          descriptor \<leftarrow> FindKnownExtensionOrDie p extendee number;
          _ \<leftarrow> dcheck_type LABEL_OPTIONAL CPPTYPE_MESSAGE descriptor;
          GetPrototype p (fd_message_type descriptor)
        }
      | Some e \<Rightarrow> do {
          _ \<leftarrow> dcheck_type LABEL_OPTIONAL CPPTYPE_MESSAGE (ext_descriptor e);
          (case ext_value e of MessagePtr q \<Rightarrow> q | _ \<Rightarrow> None)
        })"

definition ExtensionSet_MutableMessage ::
  "pool \<Rightarrow> nat \<Rightarrow> int \<Rightarrow> extensions \<Rightarrow> (message \<times> extensions) option" where
  "ExtensionSet_MutableMessage p extendee number exts =
     (case map_of exts number of
        None \<Rightarrow> do {
          descriptor \<leftarrow> FindKnownExtensionOrDie p extendee number;
          _ \<leftarrow> dcheck_type LABEL_OPTIONAL CPPTYPE_MESSAGE descriptor;
          prototype \<leftarrow> GetPrototype p (fd_message_type descriptor);
          m \<leftarrow> Message_New p prototype;
          Some (m, map_put number (Extension descriptor (MessagePtr (Some m)) False) exts)
        }
      | Some e \<Rightarrow> do {
          _ \<leftarrow> dcheck_type LABEL_OPTIONAL CPPTYPE_MESSAGE (ext_descriptor e);
          m \<leftarrow> (case ext_value e of MessagePtr q \<Rightarrow> q | _ \<Rightarrow> None);
          Some (m, map_put number (Extension (ext_descriptor e) (ext_value e) False) exts)
        })"

definition ExtensionSet_GetRepeatedMessage :: "int \<Rightarrow> int \<Rightarrow> extensions \<Rightarrow> message option" where
  "ExtensionSet_GetRepeatedMessage number index exts = do {
     e \<leftarrow> map_of exts number;
     _ \<leftarrow> dcheck_type LABEL_REPEATED CPPTYPE_MESSAGE (ext_descriptor e);
     (case ext_value e of MessagePtrs ms _ \<Rightarrow> element ms index | _ \<Rightarrow> None)
   }"

text \<open>\<open>RepeatedPtrField<Message>::Add\<close>, whose prototype is that of the field's message type.\<close>

fun MessagePtrs_Add :: "pool \<Rightarrow> nat \<Rightarrow> slot \<Rightarrow> (message \<times> slot) option" where
  "MessagePtrs_Add p t (MessagePtrs ms (c # cleared)) = Some (c, MessagePtrs (ms @ [c]) cleared)"
| "MessagePtrs_Add p t (MessagePtrs ms []) = do {
     prototype \<leftarrow> GetPrototype p t;
     m \<leftarrow> Message_New p prototype;
     Some (m, MessagePtrs (ms @ [m]) [])
   }"
| "MessagePtrs_Add p t _ = None"

text \<open>A store through the pointer to the last element, or to the element at an index.\<close>

fun MessagePtrs_store :: "int \<Rightarrow> message \<Rightarrow> slot \<Rightarrow> slot option" where
  "MessagePtrs_store i m (MessagePtrs ms cleared) =
     do { _ \<leftarrow> element ms i; Some (MessagePtrs (ms[nat i := m]) cleared) }"
| "MessagePtrs_store i m _ = None"

definition ExtensionSet_AddMessage ::
  "pool \<Rightarrow> nat \<Rightarrow> int \<Rightarrow> extensions \<Rightarrow> (message \<times> extensions) option" where
  "ExtensionSet_AddMessage p extendee number exts =
     (case map_of exts number of
        None \<Rightarrow> do {
          descriptor \<leftarrow> FindKnownExtensionOrDie p extendee number;
          _ \<leftarrow> dcheck_type LABEL_REPEATED CPPTYPE_MESSAGE descriptor;
          (m, s) \<leftarrow> MessagePtrs_Add p (fd_message_type descriptor) (MessagePtrs [] []);
          Some (m, map_put number (Extension descriptor s False) exts)
        }
      | Some e \<Rightarrow> do {
          _ \<leftarrow> dcheck_type LABEL_REPEATED CPPTYPE_MESSAGE (ext_descriptor e);
          (m, s) \<leftarrow> MessagePtrs_Add p (fd_message_type (ext_descriptor e)) (ext_value e);
          Some (m, map_put number (Extension (ext_descriptor e) s (ext_is_cleared e)) exts)
        })"

end
