(* ===== verification/MessageReflection.thy ===== *)
theory MessageReflection
  imports ExtensionSets
begin

text \<open>
  \<open>GeneratedMessageReflection\<close> (\<open>generated_message_reflection.cc\<close>), the reflection of a
  \<open>DynamicMessage\<close>. The accessors a macro generates for each C++ type are one definition with the
  type as an argument. A pointer to a message is handed out together with the message it points into;
  the \<open>store_\<dots>\<close> operations are stores through it.
\<close>

section \<open>Usage checks\<close>

definition usage_check_message_type :: "field_descriptor \<Rightarrow> message \<Rightarrow> unit option" where
  "usage_check_message_type fd m = (if fd_containing_type fd = msg_type m then Some () else None)"

definition usage_check_all :: "bool \<Rightarrow> cpp_type \<Rightarrow> field_descriptor \<Rightarrow> message \<Rightarrow> unit option" where
  "usage_check_all repeated ty fd m =
     (if fd_containing_type fd = msg_type m \<and> is_repeated fd = repeated \<and> cpp_type fd = ty
      then Some () else None)"

section \<open>Fields\<close>

definition HasField :: "field_descriptor \<Rightarrow> message \<Rightarrow> bool option" where
  "HasField fd m = do {
     _ \<leftarrow> usage_check_message_type fd m;
     (if is_repeated fd then None
      else if fd_is_extension fd then do {
        exts \<leftarrow> msg_extensions m;
        ExtensionSet_Has (fd_number fd) exts
      }
      else HasBit fd m)
   }"

definition FieldSize :: "field_descriptor \<Rightarrow> message \<Rightarrow> int option" where
  "FieldSize fd m = do {
     _ \<leftarrow> usage_check_message_type fd m;
     (if \<not> is_repeated fd then None
      else if fd_is_extension fd then do {
        exts \<leftarrow> msg_extensions m;
        ExtensionSet_ExtensionSize (fd_number fd) exts
      }
      else do { s \<leftarrow> GetRaw fd m; slot_size s })
   }"

fun list_set_fields :: "field_descriptor list \<Rightarrow> message \<Rightarrow> field_descriptor list option" where
  "list_set_fields [] m = Some []"
| "list_set_fields (fd # fds) m = do {
     has \<leftarrow> (if is_repeated fd then do { s \<leftarrow> GetRaw fd m; n \<leftarrow> slot_size s; Some (n > 0) }
             else HasBit fd m);
     output \<leftarrow> list_set_fields fds m;
     Some (if has then fd # output else output)
   }"

definition ListFields :: "pool \<Rightarrow> message \<Rightarrow> field_descriptor list option" where
  "ListFields p m =
     (if msg_is_prototype m then Some []
      else do {
        d \<leftarrow> descriptor_of p (msg_type m);
        output \<leftarrow> list_set_fields (d_field_list d) m;
        extensions \<leftarrow> (case msg_extensions m of None \<Rightarrow> Some [] | Some exts \<Rightarrow> ExtensionSet_AppendToList exts);
        Some (sort_key fd_number (output @ extensions))
      })"

text \<open>Running an operation of the extension set.\<close>

definition on_extensions :: "(extensions \<Rightarrow> extensions option) \<Rightarrow> message \<Rightarrow> message option" where
  "on_extensions f m = do {
     exts \<leftarrow> msg_extensions m;
     exts' \<leftarrow> f exts;
     Some (with_extensions exts' m)
   }"

section \<open>Primitives\<close>

definition Reflection_Get :: "cpp_type \<Rightarrow> pool \<Rightarrow> field_descriptor \<Rightarrow> message \<Rightarrow> scalar option" where
  "Reflection_Get ty p fd m = do {
     _ \<leftarrow> usage_check_all False ty fd m;
     (if fd_is_extension fd then do {
        exts \<leftarrow> msg_extensions m;
        ExtensionSet_Get ty p (msg_type m) (fd_number fd) exts
      }
      else do { s \<leftarrow> GetRaw fd m; slot_scalar ty s })
   }"

definition SetField :: "field_descriptor \<Rightarrow> scalar \<Rightarrow> message \<Rightarrow> message option" where
  "SetField fd value m = do { m1 \<leftarrow> store_raw fd (Scalar value) m; SetBit fd m1 }"

definition Reflection_Set :: "cpp_type \<Rightarrow> pool \<Rightarrow> field_descriptor \<Rightarrow> scalar \<Rightarrow> message \<Rightarrow> message option" where
  "Reflection_Set ty p fd value m = do {
     _ \<leftarrow> usage_check_all False ty fd m;
     (if fd_is_extension fd
      then on_extensions (ExtensionSet_Set ty p (msg_type m) (fd_number fd) value) m
      else SetField fd value m)
   }"

definition GetRepeatedField :: "field_descriptor \<Rightarrow> int \<Rightarrow> message \<Rightarrow> scalar option" where
  "GetRepeatedField fd index m = do { s \<leftarrow> GetRaw fd m; vs \<leftarrow> slot_scalars s; element vs index }"

definition Reflection_GetRepeated :: "cpp_type \<Rightarrow> field_descriptor \<Rightarrow> int \<Rightarrow> message \<Rightarrow> scalar option" where
  "Reflection_GetRepeated ty fd index m = do {
     _ \<leftarrow> usage_check_all True ty fd m;
     (if fd_is_extension fd then do {
        exts \<leftarrow> msg_extensions m;
        ExtensionSet_GetRepeated ty (fd_number fd) index exts
      }
      else GetRepeatedField fd index m)
   }"

definition SetRepeatedField :: "field_descriptor \<Rightarrow> int \<Rightarrow> scalar \<Rightarrow> message \<Rightarrow> message option" where
  "SetRepeatedField fd index value m = do {
     s \<leftarrow> GetRaw fd m;
     vs \<leftarrow> slot_scalars s;
     _ \<leftarrow> element vs index;
     store_raw fd (Scalars (vs[nat index := value])) m
   }"

definition Reflection_SetRepeated ::
  "cpp_type \<Rightarrow> field_descriptor \<Rightarrow> int \<Rightarrow> scalar \<Rightarrow> message \<Rightarrow> message option" where
  "Reflection_SetRepeated ty fd index value m = do {
     _ \<leftarrow> usage_check_all True ty fd m;
     (if fd_is_extension fd
      then on_extensions (ExtensionSet_SetRepeated ty (fd_number fd) index value) m
      else SetRepeatedField fd index value m)
   }"

definition AddField :: "field_descriptor \<Rightarrow> scalar \<Rightarrow> message \<Rightarrow> message option" where
  "AddField fd value m = do {
     s \<leftarrow> GetRaw fd m;
     vs \<leftarrow> slot_scalars s;
     store_raw fd (Scalars (vs @ [value])) m
   }"

definition Reflection_Add :: "cpp_type \<Rightarrow> pool \<Rightarrow> field_descriptor \<Rightarrow> scalar \<Rightarrow> message \<Rightarrow> message option" where
  "Reflection_Add ty p fd value m = do {
     _ \<leftarrow> usage_check_all True ty fd m;
     (if fd_is_extension fd
      then on_extensions (ExtensionSet_Add ty p (msg_type m) (fd_number fd) value) m
      else AddField fd value m)
   }"

section \<open>Strings\<close>

definition GetString :: "pool \<Rightarrow> field_descriptor \<Rightarrow> message \<Rightarrow> scalar option" where
  "GetString p fd m = do {
     _ \<leftarrow> usage_check_all False CPPTYPE_STRING fd m;
     (if fd_is_extension fd then do {
        exts \<leftarrow> msg_extensions m;
        ExtensionSet_GetString p (msg_type m) (fd_number fd) exts
      }
      else do {
        s \<leftarrow> GetRaw fd m;
        (case s of
           StringPtr None \<Rightarrow> default_value CPPTYPE_STRING fd
         | StringPtr (Some str) \<Rightarrow> Some (VString str)
         | _ \<Rightarrow> None)
      })
   }"

text \<open>
  \<open>GetStringReference\<close> is the same value without the copy, and \<open>SetString\<close> either puts a new
  string in place of the shared default or assigns to the message's own.
\<close>

definition GetStringReference :: "pool \<Rightarrow> field_descriptor \<Rightarrow> message \<Rightarrow> scalar option" where
  "GetStringReference p fd m = do {
     _ \<leftarrow> usage_check_all False CPPTYPE_STRING fd m;
     (if fd_is_extension fd then do {
        exts \<leftarrow> msg_extensions m;
        ExtensionSet_GetString p (msg_type m) (fd_number fd) exts
      }
      else do {
        s \<leftarrow> GetRaw fd m;
        (case s of
           StringPtr None \<Rightarrow> default_value CPPTYPE_STRING fd
         | StringPtr (Some str) \<Rightarrow> Some (VString str)
         | _ \<Rightarrow> None)
      })
   }"

definition SetString :: "pool \<Rightarrow> field_descriptor \<Rightarrow> bytes \<Rightarrow> message \<Rightarrow> message option" where
  "SetString p fd value m = do {
     _ \<leftarrow> usage_check_all False CPPTYPE_STRING fd m;
     (if fd_is_extension fd
      then on_extensions (ExtensionSet_SetString p (msg_type m) (fd_number fd) value) m
      else do {
        m1 \<leftarrow> SetBit fd m;
        s \<leftarrow> GetRaw fd m1;
        (case s of StringPtr _ \<Rightarrow> store_raw fd (StringPtr (Some value)) m1 | _ \<Rightarrow> None)
      })
   }"

definition GetRepeatedString :: "field_descriptor \<Rightarrow> int \<Rightarrow> message \<Rightarrow> scalar option" where
  "GetRepeatedString fd index m = do {
     _ \<leftarrow> usage_check_all True CPPTYPE_STRING fd m;
     (if fd_is_extension fd then do {
        exts \<leftarrow> msg_extensions m;
        ExtensionSet_GetRepeated CPPTYPE_STRING (fd_number fd) index exts
      }
      else GetRepeatedField fd index m)
   }"

definition SetRepeatedString :: "field_descriptor \<Rightarrow> int \<Rightarrow> bytes \<Rightarrow> message \<Rightarrow> message option" where
  "SetRepeatedString fd index value m = do {
     _ \<leftarrow> usage_check_all True CPPTYPE_STRING fd m;
     (if fd_is_extension fd
      then on_extensions (ExtensionSet_SetRepeated CPPTYPE_STRING (fd_number fd) index (VString value)) m
      else SetRepeatedField fd index (VString value) m)
   }"

definition AddString :: "pool \<Rightarrow> field_descriptor \<Rightarrow> bytes \<Rightarrow> message \<Rightarrow> message option" where
  "AddString p fd value m = do {
     _ \<leftarrow> usage_check_all True CPPTYPE_STRING fd m;
     (if fd_is_extension fd
      then on_extensions (ExtensionSet_AddString p (msg_type m) (fd_number fd) value) m
      else AddField fd (VString value) m)
   }"

section \<open>Enums\<close>

fun enum_number :: "scalar \<Rightarrow> int option" where
  "enum_number (VEnum n) = Some n"
| "enum_number _ = None"

definition GetEnum :: "pool \<Rightarrow> field_descriptor \<Rightarrow> message \<Rightarrow> enum_value option" where
  "GetEnum p fd m = do {
     v \<leftarrow> Reflection_Get CPPTYPE_ENUM p fd m;
     value \<leftarrow> enum_number v;
     FindValueByNumber p (fd_enum_type fd) value
   }"

definition SetEnum :: "pool \<Rightarrow> field_descriptor \<Rightarrow> enum_value \<Rightarrow> message \<Rightarrow> message option" where
  "SetEnum p fd value m = do {
     _ \<leftarrow> usage_check_all False CPPTYPE_ENUM fd m;
     (if ev_type value \<noteq> fd_enum_type fd then None
      else if fd_is_extension fd
      then on_extensions (ExtensionSet_SetEnum p (msg_type m) (fd_number fd) (ev_number value)) m
      else SetField fd (VEnum (ev_number value)) m)
   }"

definition GetRepeatedEnum :: "pool \<Rightarrow> field_descriptor \<Rightarrow> int \<Rightarrow> message \<Rightarrow> enum_value option" where
  "GetRepeatedEnum p fd index m = do {
     v \<leftarrow> Reflection_GetRepeated CPPTYPE_ENUM fd index m;
     value \<leftarrow> enum_number v;
     FindValueByNumber p (fd_enum_type fd) value
   }"

definition SetRepeatedEnum ::
  "pool \<Rightarrow> field_descriptor \<Rightarrow> int \<Rightarrow> enum_value \<Rightarrow> message \<Rightarrow> message option" where
  "SetRepeatedEnum p fd index value m = do {
     _ \<leftarrow> usage_check_all True CPPTYPE_ENUM fd m;
     (if ev_type value \<noteq> fd_enum_type fd then None
      else if fd_is_extension fd
      then on_extensions (ExtensionSet_SetRepeatedEnum p (fd_number fd) index (ev_number value)) m
      else SetRepeatedField fd index (VEnum (ev_number value)) m)
   }"

definition AddEnum :: "pool \<Rightarrow> field_descriptor \<Rightarrow> enum_value \<Rightarrow> message \<Rightarrow> message option" where
  "AddEnum p fd value m = do {
     _ \<leftarrow> usage_check_all True CPPTYPE_ENUM fd m;
     (if ev_type value \<noteq> fd_enum_type fd then None
      else if fd_is_extension fd
      then on_extensions (ExtensionSet_AddEnum p (msg_type m) (fd_number fd) (ev_number value)) m
      else AddField fd (VEnum (ev_number value)) m)
   }"

section \<open>Messages\<close>

definition GetMessage :: "pool \<Rightarrow> field_descriptor \<Rightarrow> message \<Rightarrow> message option" where
  "GetMessage p fd m = do {
     _ \<leftarrow> usage_check_all False CPPTYPE_MESSAGE fd m;
     (if fd_is_extension fd then do {
        exts \<leftarrow> msg_extensions m;
        ExtensionSet_GetMessage p (msg_type m) (fd_number fd) exts
      }
      else do {
        s \<leftarrow> GetRaw fd m;
        (case s of
           MessagePtr None \<Rightarrow> GetPrototype p (fd_message_type fd)
         | MessagePtr (Some sub) \<Rightarrow> Some sub
         | _ \<Rightarrow> None)
      })
   }"

text \<open>
  A new sub-message is made by \<open>New\<close> and then copied from the prototype of its type, which has no
  fields set: the copy leaves it as it is.
\<close>

definition MutableMessage :: "pool \<Rightarrow> field_descriptor \<Rightarrow> message \<Rightarrow> (message \<times> message) option" where
  "MutableMessage p fd m = do {
     _ \<leftarrow> usage_check_all False CPPTYPE_MESSAGE fd m;
     (if fd_is_extension fd then do {
        exts \<leftarrow> msg_extensions m;
        (sub, exts') \<leftarrow> ExtensionSet_MutableMessage p (msg_type m) (fd_number fd) exts;
        Some (sub, with_extensions exts' m)
      }
      else do {
        m1 \<leftarrow> SetBit fd m;
        s \<leftarrow> GetRaw fd m1;
        (case s of
           MessagePtr None \<Rightarrow> do {
             default_message \<leftarrow> GetPrototype p (fd_message_type fd);
             sub \<leftarrow> Message_New p default_message;
             m2 \<leftarrow> store_raw fd (MessagePtr (Some sub)) m1;
             Some (sub, m2)
           }
         | MessagePtr (Some sub) \<Rightarrow> Some (sub, m1)
         | _ \<Rightarrow> None)
      })
   }"

definition store_message :: "field_descriptor \<Rightarrow> message \<Rightarrow> message \<Rightarrow> message option" where
  "store_message fd sub m =
     (if fd_is_extension fd then on_extensions (store_extension (fd_number fd) (MessagePtr (Some sub))) m
      else store_raw fd (MessagePtr (Some sub)) m)"

definition GetRepeatedMessage :: "field_descriptor \<Rightarrow> int \<Rightarrow> message \<Rightarrow> message option" where
  "GetRepeatedMessage fd index m = do {
     _ \<leftarrow> usage_check_all True CPPTYPE_MESSAGE fd m;
     (if fd_is_extension fd then do {
        exts \<leftarrow> msg_extensions m;
        ExtensionSet_GetRepeatedMessage (fd_number fd) index exts
      }
      else do {
        s \<leftarrow> GetRaw fd m;
        (case s of MessagePtrs ms _ \<Rightarrow> element ms index | _ \<Rightarrow> None)
      })
   }"

definition AddMessage :: "pool \<Rightarrow> field_descriptor \<Rightarrow> message \<Rightarrow> (message \<times> message) option" where
  "AddMessage p fd m = do {
     _ \<leftarrow> usage_check_all True CPPTYPE_MESSAGE fd m;
     (if fd_is_extension fd then do {
        exts \<leftarrow> msg_extensions m;
        (sub, exts') \<leftarrow> ExtensionSet_AddMessage p (msg_type m) (fd_number fd) exts;
        Some (sub, with_extensions exts' m)
      }
      else do {
        s \<leftarrow> GetRaw fd m;
        (sub, s') \<leftarrow> MessagePtrs_Add p (fd_message_type fd) s;
        m' \<leftarrow> store_raw fd s' m;
        Some (sub, m')
      })
   }"

definition store_repeated_message :: "field_descriptor \<Rightarrow> int \<Rightarrow> message \<Rightarrow> message \<Rightarrow> message option" where
  "store_repeated_message fd index sub m =
     (if fd_is_extension fd then on_extensions (\<lambda>exts. do {
        e \<leftarrow> map_of exts (fd_number fd);
        s \<leftarrow> MessagePtrs_store index sub (ext_value e);
        store_extension (fd_number fd) s exts
      }) m
      else do {
        s \<leftarrow> GetRaw fd m;
        s' \<leftarrow> MessagePtrs_store index sub s;
        store_raw fd s' m
      })"

text \<open>The message \<open>AddMessage\<close> added is the last one.\<close>

definition store_added_message :: "field_descriptor \<Rightarrow> message \<Rightarrow> message \<Rightarrow> message option" where
  "store_added_message fd sub m = do {
     n \<leftarrow> FieldSize fd m;
     store_repeated_message fd (n - 1) sub m
   }"

section \<open>Extensions\<close>

definition FindKnownExtensionByNumber :: "pool \<Rightarrow> int \<Rightarrow> message \<Rightarrow> field_descriptor option" where
  "FindKnownExtensionByNumber p number m =
     (case msg_extensions m of None \<Rightarrow> None | Some _ \<Rightarrow> FindExtensionByNumber p (msg_type m) number)"

end
