(* ===== verification/WireMessages.thy ===== *)
theory WireMessages
  imports MessageReflection
begin

text \<open>
  Reading, writing and measuring a message through its reflection (\<open>wire_format.cc\<close>), and the
  methods of \<open>Message\<close> over them (\<open>message.cc\<close>). Where a function of the source calls a virtual
  method of an embedded message, which leads back to itself, the method is an argument and the knot is
  tied by a \<open>partial_function\<close>: a call that does not return is \<open>None\<close>.
\<close>

unbundle bit_operations_syntax

section \<open>Reading a field\<close>

text \<open>The switch over the field types: the value that is read, for the types with one \<open>Read\<dots>\<close> function.\<close>

fun read_value :: "field_type \<Rightarrow> 's input_vt \<Rightarrow> 's coded_input \<Rightarrow> (scalar option \<times> 's coded_input) option" where
  "read_value TYPE_INT32 vt input = converted VInt32 (ReadInt32 vt input)"
| "read_value TYPE_INT64 vt input = converted VInt64 (ReadInt64 vt input)"
| "read_value TYPE_SINT32 vt input = converted VInt32 (ReadSInt32 vt input)"
| "read_value TYPE_SINT64 vt input = converted VInt64 (ReadSInt64 vt input)"
| "read_value TYPE_UINT32 vt input = converted VUInt32 (ReadUInt32 vt input)"
| "read_value TYPE_UINT64 vt input = converted VUInt64 (ReadUInt64 vt input)"
| "read_value TYPE_FIXED32 vt input = converted VUInt32 (ReadFixed32 vt input)"
| "read_value TYPE_FIXED64 vt input = converted VUInt64 (ReadFixed64 vt input)"
| "read_value TYPE_SFIXED32 vt input = converted VInt32 (ReadSFixed32 vt input)"
| "read_value TYPE_SFIXED64 vt input = converted VInt64 (ReadSFixed64 vt input)"
| "read_value TYPE_FLOAT vt input = converted VFloat (ReadFloat vt input)"
| "read_value TYPE_DOUBLE vt input = converted VDouble (ReadDouble vt input)"
| "read_value TYPE_BOOL vt input = converted VBool (ReadBool vt input)"
| "read_value TYPE_STRING vt input = do {
     ((ok, value), c) \<leftarrow> ReadString vt [] input;
     Some (if ok then Some (VString value) else None, c)
   }"
| "read_value TYPE_BYTES vt input = do {
     ((ok, value), c) \<leftarrow> ReadBytes vt [] input;
     Some (if ok then Some (VString value) else None, c)
   }"
| "read_value _ vt input = None"

text \<open>
  \<open>Add##CPPTYPE_METHOD\<close> and \<open>Set##CPPTYPE_METHOD\<close> for the C++ type of the value. The value of an
  enum is looked up by its number, as the reader does, and stored by \<open>AddEnum\<close> or \<open>SetEnum\<close>.
\<close>

definition add_value :: "pool \<Rightarrow> field_descriptor \<Rightarrow> scalar \<Rightarrow> message \<Rightarrow> message option" where
  "add_value p fd value m =
     (case value of
        VString str \<Rightarrow> AddString p fd str m
      | VEnum n \<Rightarrow> do { enum_value \<leftarrow> FindValueByNumber p (fd_enum_type fd) n; AddEnum p fd enum_value m }
      | _ \<Rightarrow> Reflection_Add (scalar_type value) p fd value m)"

definition set_value :: "pool \<Rightarrow> field_descriptor \<Rightarrow> scalar \<Rightarrow> message \<Rightarrow> message option" where
  "set_value p fd value m =
     (case value of
        VString str \<Rightarrow> SetString p fd str m
      | VEnum n \<Rightarrow> do { enum_value \<leftarrow> FindValueByNumber p (fd_enum_type fd) n; SetEnum p fd enum_value m }
      | _ \<Rightarrow> Reflection_Set (scalar_type value) p fd value m)"

text \<open>\<open>sub_message\<close>, as \<open>AddMessage\<close> or \<open>MutableMessage\<close> returns it, and a store through it.\<close>

definition sub_message :: "pool \<Rightarrow> field_descriptor \<Rightarrow> message \<Rightarrow> (message \<times> message) option" where
  "sub_message p fd m = (if is_repeated fd then AddMessage p fd m else MutableMessage p fd m)"

definition store_sub_message :: "field_descriptor \<Rightarrow> message \<Rightarrow> message \<Rightarrow> message option" where
  "store_sub_message fd sub m = (if is_repeated fd then store_added_message fd sub m else store_message fd sub m)"

definition skip_unknown :: "'s input_vt \<Rightarrow> uint32 \<Rightarrow> ('s, message) merge" where
  "skip_unknown vt tag input m = do {
     ((ok, u), c) \<leftarrow> SkipField vt tag input (Some (msg_unknown_fields m));
     u' \<leftarrow> u;
     Some ((ok, with_unknown_fields u' m), c)
   }"

definition ParseAndMergeField_with ::
  "pool \<Rightarrow> 's input_vt \<Rightarrow> ('s, message) merge \<Rightarrow> uint32 \<Rightarrow> field_descriptor option \<Rightarrow> ('s, message) merge" where
  "ParseAndMergeField_with p vt merge tag field input m =
     (case field of
        None \<Rightarrow> skip_unknown vt tag input m
      | Some fd \<Rightarrow>
          if GetTagWireType tag \<noteq> kWireTypeForFieldType (fd_type fd) then skip_unknown vt tag input m
          else
            (case fd_type fd of
               TYPE_ENUM \<Rightarrow> do {
                 (r, c) \<leftarrow> ReadEnum vt input;
                 (case r of
                    None \<Rightarrow> Some ((False, m), c)
                  | Some value \<Rightarrow>
                      (case FindValueByNumber p (fd_enum_type fd) value of
                         Some enum_value \<Rightarrow> do {
                           m' \<leftarrow> (if is_repeated fd then AddEnum p fd enum_value m else SetEnum p fd enum_value m);
                           Some ((True, m'), c)
                         }
                       | None \<Rightarrow>
                           let number = GetTagFieldNumber tag;
                               u = UnknownFieldSet_AddField number (msg_unknown_fields m) in
                           Some ((True, with_unknown_fields
                             (ufs_modify number (UnknownField_add_varint (of_int value)) u) m), c)))
               }
             | TYPE_GROUP \<Rightarrow> do {
                 (sub, m1) \<leftarrow> sub_message p fd m;
                 ((ok, sub'), c) \<leftarrow> ReadGroup merge (GetTagFieldNumber tag) input sub;
                 m2 \<leftarrow> store_sub_message fd sub' m1;
                 Some ((ok, m2), c)
               }
             | TYPE_MESSAGE \<Rightarrow> do {
                 (sub, m1) \<leftarrow> sub_message p fd m;
                 ((ok, sub'), c) \<leftarrow> ReadMessage vt merge input sub;
                 m2 \<leftarrow> store_sub_message fd sub' m1;
                 Some ((ok, m2), c)
               }
             | ty \<Rightarrow> do {
                 (r, c) \<leftarrow> read_value ty vt input;
                 (case r of
                    None \<Rightarrow> Some ((False, m), c)
                  | Some value \<Rightarrow> do {
                      m' \<leftarrow> (if is_repeated fd then add_value p fd value m else set_value p fd value m);
                      Some ((True, m'), c)
                    })
               }))"

section \<open>Reading a message\<close>

text \<open>
  The two loops, of \<open>ParseAndMergePartial\<close> and of \<open>ParseAndMergeMessageSetItem\<close> with its local
  variables. One round of either takes what it calls as an argument: \<open>self\<close> is either loop over the
  same stream, \<open>sub\<close> the first one over an \<open>ArrayInputStream\<close>.
\<close>

datatype parse_loop =
  ParsePartial
| ParseItem uint32 "field_descriptor option" bytes

definition field_for_tag :: "pool \<Rightarrow> descriptor \<Rightarrow> uint32 \<Rightarrow> message \<Rightarrow> field_descriptor option" where
  "field_for_tag p d tag m =
     (let field_number = GetTagFieldNumber tag in
      case FindFieldByNumber d field_number of
        Some fd \<Rightarrow> Some fd
      | None \<Rightarrow> if IsExtensionNumber d field_number then FindKnownExtensionByNumber p field_number m else None)"

definition ParseAndMergePartial_round ::
  "pool \<Rightarrow> 's input_vt \<Rightarrow> (parse_loop \<Rightarrow> ('s, message) merge) \<Rightarrow> ('s, message) merge" where
  "ParseAndMergePartial_round p vt self input m = do {
     (tag, c) \<leftarrow> CodedInputStream_ReadTag vt input;
     (if tag = 0 then Some ((True, m), c)
      else if GetTagWireType tag = WIRETYPE_END_GROUP then Some ((True, m), c)
      else do {
        d \<leftarrow> descriptor_of p (msg_type m);
        let field = field_for_tag p d tag m;
        ((ok, m'), c') \<leftarrow>
          (if field = None \<and> d_message_set_wire_format d \<and> tag = kMessageSetItemStartTag
           then self (ParseItem 0 None []) c m
           else ParseAndMergeField_with p vt (self ParsePartial) tag field c m);
        (if \<not> ok then Some ((False, m'), c') else self ParsePartial c' m')
      })
   }"

text \<open>\<open>ParseAndMergeField\<close> over \<open>message_data\<close>, with the destructor of \<open>sub_input\<close>.\<close>

definition parse_message_data ::
  "pool \<Rightarrow> (array_input, message) merge \<Rightarrow> uint32 \<Rightarrow> field_descriptor option \<Rightarrow> bytes \<Rightarrow> message \<Rightarrow>
    (bool \<times> message) option" where
  "parse_message_data p sub fake_tag field message_data m = do {
     let sub_input = CodedInputStream (ArrayInputStream message_data (int (length message_data)) (-1));
     (r, c) \<leftarrow> ParseAndMergeField_with p ArrayInput_vt sub fake_tag field sub_input m;
     _ \<leftarrow> CodedInputStream_destroy ArrayInput_vt c;
     Some r
   }"

definition ParseAndMergeMessageSetItem_round ::
  "pool \<Rightarrow> 's input_vt \<Rightarrow> (parse_loop \<Rightarrow> ('s, message) merge) \<Rightarrow> (array_input, message) merge \<Rightarrow>
    uint32 \<Rightarrow> field_descriptor option \<Rightarrow> bytes \<Rightarrow> ('s, message) merge" where
  "ParseAndMergeMessageSetItem_round p vt self sub fake_tag field message_data input m = do {
     (tag, c) \<leftarrow> CodedInputStream_ReadTag vt input;
     (if tag = 0 then Some ((False, m), c)
      else if tag = kMessageSetTypeIdTag then do {
        (r, c1) \<leftarrow> CodedInputStream_ReadVarint32 vt c;
        (case r of
           None \<Rightarrow> Some ((False, m), c1)
         | Some type_id \<Rightarrow>
             let fake_tag' = MakeTag (sint type_id) WIRETYPE_LENGTH_DELIMITED;
                 field' = FindKnownExtensionByNumber p (sint type_id) m in
             if message_data \<noteq> [] then do {
               (ok, m') \<leftarrow> parse_message_data p sub fake_tag' field' message_data m;
               (if \<not> ok then Some ((False, m'), c1) else self (ParseItem fake_tag' field' []) c1 m')
             }
             else self (ParseItem fake_tag' field' message_data) c1 m)
      }
      else if tag = kMessageSetMessageTag then
        if fake_tag = 0 then do {
          (r, c1) \<leftarrow> CodedInputStream_ReadVarint32 vt c;
          (case r of
             None \<Rightarrow> Some ((False, m), c1)
           | Some len \<Rightarrow> do {
               ((ok, temp), c2) \<leftarrow> CodedInputStream_ReadString vt [] (sint len) c1;
               (if \<not> ok then Some ((False, m), c2)
                else self (ParseItem fake_tag field (message_data @ temp)) c2 m)
             })
        }
        else do {
          ((ok, m'), c1) \<leftarrow> ParseAndMergeField_with p vt (self ParsePartial) fake_tag field c m;
          (if \<not> ok then Some ((False, m'), c1) else self (ParseItem fake_tag field message_data) c1 m')
        }
      else if tag = kMessageSetItemEndTag then Some ((True, m), c)
      else do {
        ((ok, _), c1) \<leftarrow> SkipField vt tag c None;
        (if \<not> ok then Some ((False, m), c1) else self (ParseItem fake_tag field message_data) c1 m)
      })
   }"

definition parse_round ::
  "pool \<Rightarrow> 's input_vt \<Rightarrow> (parse_loop \<Rightarrow> ('s, message) merge) \<Rightarrow> (array_input, message) merge \<Rightarrow>
    parse_loop \<Rightarrow> ('s, message) merge" where
  "parse_round p vt self sub l input m =
     (case l of
        ParsePartial \<Rightarrow> ParseAndMergePartial_round p vt self input m
      | ParseItem fake_tag field message_data \<Rightarrow>
          ParseAndMergeMessageSetItem_round p vt self sub fake_tag field message_data input m)"

text \<open>The rounds are monotone in what they call, so that the recursion has a least fixed point.\<close>

lemma bind_monoI:
  "mono_option g \<Longrightarrow> (\<And>x. mono_option (\<lambda>f. h f x)) \<Longrightarrow> mono_option (\<lambda>f. Option.bind (g f) (h f))"
  by (rule bind_mono) simp_all

lemma case_prod_mono: "(\<And>x y. mono_option (\<lambda>f. h f x y)) \<Longrightarrow> mono_option (\<lambda>f. case q of (x, y) \<Rightarrow> h f x y)"
  by (cases q) simp

lemma case_option_mono:
  "mono_option a \<Longrightarrow> (\<And>x. mono_option (\<lambda>f. b f x)) \<Longrightarrow>
    mono_option (\<lambda>f. case q of None \<Rightarrow> a f | Some x \<Rightarrow> b f x)"
  by (cases q) simp_all

lemma if_monoI: "mono_option a \<Longrightarrow> mono_option b \<Longrightarrow> mono_option (\<lambda>f. if q then a f else b f)"
  by (cases q) simp_all

lemma case_prod_mono2:
  "(\<And>x y. mono_option (\<lambda>f. h f x y z)) \<Longrightarrow> mono_option (\<lambda>f. (case q of (x, y) \<Rightarrow> h f x y) z)"
  by (cases q) simp

lemmas monoIs = bind_monoI case_prod_mono case_prod_mono2 case_option_mono if_monoI option.const_mono

lemma ReadGroup_mono [partial_function_mono]:
  "(\<And>c m. mono_option (\<lambda>f. merge f c m)) \<Longrightarrow> mono_option (\<lambda>f. ReadGroup (merge f) n input m)"
  unfolding ReadGroup_def Let_def by (intro monoIs) assumption

lemma ReadMessage_mono [partial_function_mono]:
  "(\<And>c m. mono_option (\<lambda>f. merge f c m)) \<Longrightarrow> mono_option (\<lambda>f. ReadMessage vt (merge f) input m)"
  unfolding ReadMessage_def Let_def by (intro monoIs) assumption

lemma ParseAndMergeField_mono [partial_function_mono]:
  assumes m: "\<And>c m. mono_option (\<lambda>f. merge f c m)"
  shows "mono_option (\<lambda>f. ParseAndMergeField_with p vt (merge f) tag field input m)"
proof (cases field)
  case (Some fd)
  note r = ReadGroup_mono [of merge] ReadMessage_mono [of merge]
  show ?thesis
    unfolding ParseAndMergeField_with_def Some option.case
    by (rule if_monoI, rule option.const_mono, cases "fd_type fd"; simp only: field_type.case)
      (intro monoIs r m)+
qed (simp add: ParseAndMergeField_with_def option.const_mono)

lemma parse_message_data_mono [partial_function_mono]:
  "(\<And>c m. mono_option (\<lambda>f. sub f c m)) \<Longrightarrow>
    mono_option (\<lambda>f. parse_message_data p (sub f) fake_tag field message_data m)"
  unfolding parse_message_data_def Let_def by (intro monoIs ParseAndMergeField_mono)

lemma parse_round_mono [partial_function_mono]:
  assumes self: "\<And>l c m. mono_option (\<lambda>f. self f l c m)" and sub: "\<And>c m. mono_option (\<lambda>f. sub f c m)"
  shows "mono_option (\<lambda>f. parse_round p vt (self f) (sub f) l input m)"
proof (cases l)
  case ParsePartial
  show ?thesis
    unfolding ParsePartial parse_round_def parse_loop.case ParseAndMergePartial_round_def Let_def
    by (intro monoIs ParseAndMergeField_mono self)
next
  case (ParseItem tag field d)
  show ?thesis
    unfolding ParseItem parse_round_def parse_loop.case ParseAndMergeMessageSetItem_round_def Let_def
    by (intro monoIs ParseAndMergeField_mono parse_message_data_mono self sub)
qed

partial_function (option) parse_array :: "pool \<Rightarrow> parse_loop \<Rightarrow> (array_input, message) merge" where
  "parse_array p l input m =
     parse_round p ArrayInput_vt (parse_array p) (parse_array p ParsePartial) l input m"

partial_function (option) parse_stream :: "pool \<Rightarrow> 's input_vt \<Rightarrow> parse_loop \<Rightarrow> ('s, message) merge" where
  "parse_stream p vt l input m =
     parse_round p vt (parse_stream p vt) (parse_array p ParsePartial) l input m"

definition ParseAndMergePartial :: "pool \<Rightarrow> 's input_vt \<Rightarrow> ('s, message) merge" where
  "ParseAndMergePartial p vt input m = parse_stream p vt ParsePartial input m"

definition ParseAndMergeMessageSetItem :: "pool \<Rightarrow> 's input_vt \<Rightarrow> ('s, message) merge" where
  "ParseAndMergeMessageSetItem p vt input m = parse_stream p vt (ParseItem 0 None []) input m"

definition ParseAndMergeField ::
  "pool \<Rightarrow> 's input_vt \<Rightarrow> uint32 \<Rightarrow> field_descriptor option \<Rightarrow> ('s, message) merge" where
  "ParseAndMergeField p vt tag field input m =
     ParseAndMergeField_with p vt (ParseAndMergePartial p vt) tag field input m"

definition MergePartialFromCodedStream :: "pool \<Rightarrow> 's input_vt \<Rightarrow> ('s, message) merge" where
  "MergePartialFromCodedStream p vt input m = ParseAndMergePartial p vt input m"

section \<open>Writing a field\<close>

text \<open>The value as an object of its C++ type.\<close>

fun as_int32 :: "scalar \<Rightarrow> int option" where "as_int32 (VInt32 v) = Some v" | "as_int32 _ = None"
fun as_int64 :: "scalar \<Rightarrow> int option" where "as_int64 (VInt64 v) = Some v" | "as_int64 _ = None"
fun as_uint32 :: "scalar \<Rightarrow> uint32 option" where "as_uint32 (VUInt32 v) = Some v" | "as_uint32 _ = None"
fun as_uint64 :: "scalar \<Rightarrow> uint64 option" where "as_uint64 (VUInt64 v) = Some v" | "as_uint64 _ = None"
fun as_float :: "scalar \<Rightarrow> cxx_float option" where "as_float (VFloat v) = Some v" | "as_float _ = None"
fun as_double :: "scalar \<Rightarrow> cxx_double option" where "as_double (VDouble v) = Some v" | "as_double _ = None"
fun as_bool :: "scalar \<Rightarrow> bool option" where "as_bool (VBool v) = Some v" | "as_bool _ = None"
fun as_string :: "scalar \<Rightarrow> bytes option" where "as_string (VString v) = Some v" | "as_string _ = None"

text \<open>The switch over the field types, for the types with one \<open>Write\<dots>\<close> function.\<close>

fun write_value ::
  "field_type \<Rightarrow> 's output_vt \<Rightarrow> int \<Rightarrow> scalar \<Rightarrow> 's coded_output \<Rightarrow> (bool \<times> 's coded_output) option" where
  "write_value TYPE_INT32 vt field_number value = (\<lambda>c. do { x \<leftarrow> as_int32 value; WriteInt32 vt field_number x c })"
| "write_value TYPE_INT64 vt field_number value = (\<lambda>c. do { x \<leftarrow> as_int64 value; WriteInt64 vt field_number x c })"
| "write_value TYPE_SINT32 vt field_number value = (\<lambda>c. do { x \<leftarrow> as_int32 value; WriteSInt32 vt field_number x c })"
| "write_value TYPE_SINT64 vt field_number value = (\<lambda>c. do { x \<leftarrow> as_int64 value; WriteSInt64 vt field_number x c })"
| "write_value TYPE_UINT32 vt field_number value = (\<lambda>c. do { x \<leftarrow> as_uint32 value; WriteUInt32 vt field_number x c })"
| "write_value TYPE_UINT64 vt field_number value = (\<lambda>c. do { x \<leftarrow> as_uint64 value; WriteUInt64 vt field_number x c })"
| "write_value TYPE_FIXED32 vt field_number value = (\<lambda>c. do { x \<leftarrow> as_uint32 value; WriteFixed32 vt field_number x c })"
| "write_value TYPE_FIXED64 vt field_number value = (\<lambda>c. do { x \<leftarrow> as_uint64 value; WriteFixed64 vt field_number x c })"
| "write_value TYPE_SFIXED32 vt field_number value = (\<lambda>c. do { x \<leftarrow> as_int32 value; WriteSFixed32 vt field_number x c })"
| "write_value TYPE_SFIXED64 vt field_number value = (\<lambda>c. do { x \<leftarrow> as_int64 value; WriteSFixed64 vt field_number x c })"
| "write_value TYPE_FLOAT vt field_number value = (\<lambda>c. do { x \<leftarrow> as_float value; WriteFloat vt field_number x c })"
| "write_value TYPE_DOUBLE vt field_number value = (\<lambda>c. do { x \<leftarrow> as_double value; WriteDouble vt field_number x c })"
| "write_value TYPE_BOOL vt field_number value = (\<lambda>c. do { x \<leftarrow> as_bool value; WriteBool vt field_number x c })"
| "write_value TYPE_STRING vt field_number value = (\<lambda>c. do { x \<leftarrow> as_string value; WriteString vt field_number x c })"
| "write_value TYPE_BYTES vt field_number value = (\<lambda>c. do { x \<leftarrow> as_string value; WriteString vt field_number x c })"
| "write_value _ vt field_number value = (\<lambda>c. None)"

text \<open>The number of values: \<open>count\<close>.\<close>

definition field_count :: "field_descriptor \<Rightarrow> message \<Rightarrow> int option" where
  "field_count fd m =
     (if is_repeated fd then FieldSize fd m
      else map_option (\<lambda>has. if has then 1 else 0) (HasField fd m))"

text \<open>\<open>field->is_repeated() ? GetRepeated\<dots>(field, j) : Get\<dots>(field)\<close> for each kind of value.\<close>

definition get_value :: "pool \<Rightarrow> field_descriptor \<Rightarrow> int \<Rightarrow> message \<Rightarrow> scalar option" where
  "get_value p fd j m =
     (if is_repeated fd then Reflection_GetRepeated (cpp_type fd) fd j m
      else Reflection_Get (cpp_type fd) p fd m)"

definition get_string :: "pool \<Rightarrow> field_descriptor \<Rightarrow> int \<Rightarrow> message \<Rightarrow> scalar option" where
  "get_string p fd j m = (if is_repeated fd then GetRepeatedString fd j m else GetStringReference p fd m)"

definition get_enum :: "pool \<Rightarrow> field_descriptor \<Rightarrow> int \<Rightarrow> message \<Rightarrow> enum_value option" where
  "get_enum p fd j m = (if is_repeated fd then GetRepeatedEnum p fd j m else GetEnum p fd m)"

definition get_message :: "pool \<Rightarrow> field_descriptor \<Rightarrow> int \<Rightarrow> message \<Rightarrow> message option" where
  "get_message p fd j m = (if is_repeated fd then GetRepeatedMessage fd j m else GetMessage p fd m)"

definition is_message_set_item :: "pool \<Rightarrow> field_descriptor \<Rightarrow> bool option" where
  "is_message_set_item p fd =
     (if fd_is_extension fd then do {
        d \<leftarrow> descriptor_of p (fd_containing_type fd);
        Some (d_message_set_wire_format d \<and> cpp_type fd = CPPTYPE_MESSAGE \<and> \<not> is_repeated fd)
      }
      else Some False)"

definition SerializeMessageSetItem_with ::
  "pool \<Rightarrow> 's output_vt \<Rightarrow> ('s, message) serialize \<Rightarrow> field_descriptor \<Rightarrow> ('s, message) serialize" where
  "SerializeMessageSetItem_with p vt serialize fd m =
     co_seq [CodedOutputStream_WriteVarint32 vt kMessageSetItemStartTag,
       CodedOutputStream_WriteVarint32 vt kMessageSetTypeIdTag,
       CodedOutputStream_WriteVarint32 vt (of_int (fd_number fd)),
       CodedOutputStream_WriteVarint32 vt kMessageSetMessageTag,
       (\<lambda>c. do { sub \<leftarrow> GetMessage p fd m; CodedOutputStream_WriteVarint32 vt (of_int (msg_cached_size sub)) c }),
       (\<lambda>c. do { sub \<leftarrow> GetMessage p fd m; serialize sub c }),
       CodedOutputStream_WriteVarint32 vt kMessageSetItemEndTag]"

definition write_element ::
  "pool \<Rightarrow> 's output_vt \<Rightarrow> ('s, message) serialize \<Rightarrow> field_descriptor \<Rightarrow> int \<Rightarrow> ('s, message) serialize" where
  "write_element p vt serialize fd j m c =
     (case fd_type fd of
        TYPE_GROUP \<Rightarrow> do { sub \<leftarrow> get_message p fd j m; WriteGroup vt serialize (fd_number fd) sub c }
      | TYPE_MESSAGE \<Rightarrow> do {
          sub \<leftarrow> get_message p fd j m;
          WriteMessage vt serialize msg_cached_size (fd_number fd) sub c
        }
      | TYPE_ENUM \<Rightarrow> do { value \<leftarrow> get_enum p fd j m; WriteEnum vt (fd_number fd) (ev_number value) c }
      | TYPE_STRING \<Rightarrow> do { value \<leftarrow> get_string p fd j m; write_value TYPE_STRING vt (fd_number fd) value c }
      | TYPE_BYTES \<Rightarrow> do { value \<leftarrow> get_string p fd j m; write_value TYPE_BYTES vt (fd_number fd) value c }
      | ty \<Rightarrow> do { value \<leftarrow> get_value p fd j m; write_value ty vt (fd_number fd) value c })"

definition SerializeField_with ::
  "pool \<Rightarrow> 's output_vt \<Rightarrow> ('s, message) serialize \<Rightarrow> field_descriptor \<Rightarrow> ('s, message) serialize" where
  "SerializeField_with p vt serialize fd m c = do {
     item \<leftarrow> is_message_set_item p fd;
     (if item then SerializeMessageSetItem_with p vt serialize fd m c
      else do {
        count \<leftarrow> field_count fd m;
        co_seq (map (\<lambda>j. write_element p vt serialize fd j m) [0..count - 1]) c
      })
   }"

section \<open>Writing a message\<close>

definition SerializeWithCachedSizes_with ::
  "pool \<Rightarrow> 's output_vt \<Rightarrow> ('s, message) serialize \<Rightarrow> int \<Rightarrow> ('s, message) serialize" where
  "SerializeWithCachedSizes_with p vt serialize sz m output = do {
     let expected_endpoint = CodedOutputStream_ByteCount output + sz;
     fields \<leftarrow> ListFields p m;
     d \<leftarrow> descriptor_of p (msg_type m);
     (ok, c) \<leftarrow> co_seq (map (\<lambda>fd. SerializeField_with p vt serialize fd m) fields @
       [(if d_message_set_wire_format d then SerializeUnknownMessageSetItems vt (msg_unknown_fields m)
         else SerializeUnknownFields vt (msg_unknown_fields m))]) output;
     (if \<not> ok then Some (False, c)
      else if CodedOutputStream_ByteCount c = expected_endpoint then Some (True, c) else None)
   }"

lemma co_seq_mono:
  assumes "list_all (\<lambda>w. \<forall>c. mono_option (\<lambda>f. w f c)) ws"
  shows "mono_option (\<lambda>f. co_seq (map (\<lambda>w. w f) ws) c)"
  using assms
proof (induction ws arbitrary: c)
  case (Cons w ws)
  then show ?case by (auto intro!: bind_monoI case_prod_mono if_monoI option.const_mono)
qed (simp add: option.const_mono)

text \<open>A list of writers, each of which may depend on the recursive call.\<close>

lemma co_seq_monoI:
  assumes "ws = (\<lambda>f. map (\<lambda>w. w f) vs)" "\<And>w c. w \<in> set vs \<Longrightarrow> mono_option (\<lambda>f. w f c)"
  shows "mono_option (\<lambda>f. co_seq (ws f) c)"
  using assms by (auto simp: list_all_iff intro!: co_seq_mono)

lemma WriteGroup_mono [partial_function_mono]:
  "(\<And>m c. mono_option (\<lambda>f. s f m c)) \<Longrightarrow> mono_option (\<lambda>f. WriteGroup vt (s f) n m c)"
  unfolding WriteGroup_def co_seq.simps by (intro monoIs)

lemma WriteMessage_mono [partial_function_mono]:
  "(\<And>m c. mono_option (\<lambda>f. s f m c)) \<Longrightarrow> mono_option (\<lambda>f. WriteMessage vt (s f) sz n m c)"
  unfolding WriteMessage_def co_seq.simps by (intro monoIs)

lemma write_element_mono [partial_function_mono]:
  assumes m: "\<And>m c. mono_option (\<lambda>f. s f m c)"
  shows "mono_option (\<lambda>f. write_element p vt (s f) fd j m c)"
  unfolding write_element_def
  by (cases "fd_type fd"; simp only: field_type.case) (intro monoIs WriteGroup_mono WriteMessage_mono m)+

lemma SerializeMessageSetItem_mono [partial_function_mono]:
  assumes m: "\<And>m c. mono_option (\<lambda>f. s f m c)"
  shows "mono_option (\<lambda>f. SerializeMessageSetItem_with p vt (s f) fd m c)"
  unfolding SerializeMessageSetItem_with_def co_seq.simps by (intro monoIs m)

lemma SerializeField_mono [partial_function_mono]:
  assumes m: "\<And>m c. mono_option (\<lambda>f. s f m c)"
  shows "mono_option (\<lambda>f. SerializeField_with p vt (s f) fd m c)"
proof -
  have "mono_option (\<lambda>f. co_seq (map (\<lambda>j. write_element p vt (s f) fd j m) js) c)" for js c
    by (rule co_seq_monoI [where vs = "map (\<lambda>j f. write_element p vt (s f) fd j m) js"])
      (auto simp: comp_def intro: write_element_mono m)
  then show ?thesis
    unfolding SerializeField_with_def by (intro monoIs SerializeMessageSetItem_mono m)
qed

lemma SerializeWithCachedSizes_mono [partial_function_mono]:
  assumes m: "\<And>m c. mono_option (\<lambda>f. s f m c)"
  shows "mono_option (\<lambda>f. SerializeWithCachedSizes_with p vt (s f) sz m output)"
proof -
  have "mono_option (\<lambda>f. co_seq (map (\<lambda>fd. SerializeField_with p vt (s f) fd m) fields @ [w]) c)" for fields w c
    by (rule co_seq_monoI [where vs = "map (\<lambda>fd f. SerializeField_with p vt (s f) fd m) fields @ [\<lambda>f. w]"])
      (auto simp: comp_def intro: SerializeField_mono m option.const_mono)
  then show ?thesis
    unfolding SerializeWithCachedSizes_with_def Let_def by (intro monoIs)
qed

partial_function (option) Message_SerializeWithCachedSizes ::
  "pool \<Rightarrow> 's output_vt \<Rightarrow> message \<Rightarrow> 's coded_output \<Rightarrow> (bool \<times> 's coded_output) option" where
  "Message_SerializeWithCachedSizes p vt m output =
     SerializeWithCachedSizes_with p vt (Message_SerializeWithCachedSizes p vt) (msg_cached_size m) m output"

section \<open>Measuring a field\<close>

text \<open>The types of varying size, and the fixed ones.\<close>

fun size_value :: "field_type \<Rightarrow> scalar \<Rightarrow> int option" where
  "size_value TYPE_INT32 value = map_option Int32Size (as_int32 value)"
| "size_value TYPE_INT64 value = map_option Int64Size (as_int64 value)"
| "size_value TYPE_SINT32 value = map_option SInt32Size (as_int32 value)"
| "size_value TYPE_SINT64 value = map_option SInt64Size (as_int64 value)"
| "size_value TYPE_UINT32 value = map_option UInt32Size (as_uint32 value)"
| "size_value TYPE_UINT64 value = map_option UInt64Size (as_uint64 value)"
| "size_value TYPE_ENUM value = map_option EnumSize (enum_number value)"
| "size_value TYPE_STRING value = map_option StringSize (as_string value)"
| "size_value TYPE_BYTES value = map_option StringSize (as_string value)"
| "size_value _ _ = None"

fun fixed_size :: "field_type \<Rightarrow> int option" where
  "fixed_size TYPE_FIXED32 = Some kFixed32Size"
| "fixed_size TYPE_FIXED64 = Some kFixed64Size"
| "fixed_size TYPE_SFIXED32 = Some kSFixed32Size"
| "fixed_size TYPE_SFIXED64 = Some kSFixed64Size"
| "fixed_size TYPE_FLOAT = Some kFloatSize"
| "fixed_size TYPE_DOUBLE = Some kDoubleSize"
| "fixed_size TYPE_BOOL = Some kBoolSize"
| "fixed_size _ = None"

text \<open>
  A sub-message that is measured keeps its size: what is measured is stored back where it was taken
  from. That of a message that is not set is a prototype shared by all, whose cached size nothing
  reads.
\<close>

definition store_measured :: "field_descriptor \<Rightarrow> message \<Rightarrow> message \<Rightarrow> message option" where
  "store_measured fd sub m = do {
     has \<leftarrow> HasField fd m;
     (if has then store_message fd sub m else Some m)
   }"

type_synonym measure_message = "message \<Rightarrow> (int \<times> message) option"

fun measure_repeated :: "measure_message \<Rightarrow> field_descriptor \<Rightarrow> int list \<Rightarrow> measure_message" where
  "measure_repeated sz fd [] m = Some (0, m)"
| "measure_repeated sz fd (j # js) m = do {
     sub \<leftarrow> GetRepeatedMessage fd j m;
     (n, sub') \<leftarrow> sz sub;
     m1 \<leftarrow> store_repeated_message fd j sub' m;
     (k, m2) \<leftarrow> measure_repeated sz fd js m1;
     Some (n + k, m2)
   }"

definition measure_messages :: "pool \<Rightarrow> measure_message \<Rightarrow> field_descriptor \<Rightarrow> int \<Rightarrow> measure_message" where
  "measure_messages p sz fd count m =
     (if is_repeated fd then measure_repeated sz fd [0..count - 1] m
      else do {
        sub \<leftarrow> GetMessage p fd m;
        (n, sub') \<leftarrow> sz sub;
        m1 \<leftarrow> store_measured fd sub' m;
        Some (n, m1)
      })"

fun measure_values :: "(int \<Rightarrow> int option) \<Rightarrow> int list \<Rightarrow> int option" where
  "measure_values sz [] = Some 0"
| "measure_values sz (j # js) = do { n \<leftarrow> sz j; k \<leftarrow> measure_values sz js; Some (n + k) }"

definition MessageSetItemByteSize_with :: "pool \<Rightarrow> measure_message \<Rightarrow> field_descriptor \<Rightarrow> measure_message" where
  "MessageSetItemByteSize_with p byte_size fd m = do {
     sub \<leftarrow> GetMessage p fd m;
     (message_size, sub') \<leftarrow> byte_size sub;
     m1 \<leftarrow> store_measured fd sub' m;
     Some (kMessageSetItemTagsSize + CodedOutputStream_VarintSize32 (of_int (fd_number fd)) +
       CodedOutputStream_VarintSize32 (of_int message_size) + message_size, m1)
   }"

definition FieldByteSize_with :: "pool \<Rightarrow> measure_message \<Rightarrow> field_descriptor \<Rightarrow> measure_message" where
  "FieldByteSize_with p byte_size fd m = do {
     item \<leftarrow> is_message_set_item p fd;
     (if item then MessageSetItemByteSize_with p byte_size fd m
      else do {
        count \<leftarrow> field_count fd m;
        let our_size = count * TagSize (fd_number fd) (fd_type fd);
        let js = (if is_repeated fd then [0..count - 1] else [0]);
        (case fd_type fd of
           TYPE_GROUP \<Rightarrow> do {
             (n, m') \<leftarrow> measure_messages p (GroupSize byte_size) fd count m;
             Some (our_size + n, m')
           }
         | TYPE_MESSAGE \<Rightarrow> do {
             (n, m') \<leftarrow> measure_messages p (MessageSize byte_size) fd count m;
             Some (our_size + n, m')
           }
         | TYPE_ENUM \<Rightarrow> do {
             n \<leftarrow> measure_values (\<lambda>j. do { value \<leftarrow> get_enum p fd j m; size_value TYPE_ENUM (VEnum (ev_number value)) }) js;
             Some (our_size + n, m)
           }
         | TYPE_STRING \<Rightarrow> do {
             n \<leftarrow> measure_values (\<lambda>j. do { value \<leftarrow> get_string p fd j m; size_value TYPE_STRING value }) [0..count - 1];
             Some (our_size + n, m)
           }
         | TYPE_BYTES \<Rightarrow> do {
             n \<leftarrow> measure_values (\<lambda>j. do { value \<leftarrow> get_string p fd j m; size_value TYPE_BYTES value }) [0..count - 1];
             Some (our_size + n, m)
           }
         | ty \<Rightarrow>
             (case fixed_size ty of
                Some k \<Rightarrow> Some (our_size + count * k, m)
              | None \<Rightarrow> do {
                  n \<leftarrow> measure_values (\<lambda>j. do { value \<leftarrow> get_value p fd j m; size_value ty value }) js;
                  Some (our_size + n, m)
                }))
      })
   }"

section \<open>Measuring a message\<close>

fun measure_fields :: "(field_descriptor \<Rightarrow> measure_message) \<Rightarrow> field_descriptor list \<Rightarrow> measure_message" where
  "measure_fields field_size [] m = Some (0, m)"
| "measure_fields field_size (fd # fds) m = do {
     (n, m1) \<leftarrow> field_size fd m;
     (k, m2) \<leftarrow> measure_fields field_size fds m1;
     Some (n + k, m2)
   }"

definition ByteSize_with :: "pool \<Rightarrow> measure_message \<Rightarrow> measure_message" where
  "ByteSize_with p byte_size m = do {
     fields \<leftarrow> ListFields p m;
     (our_size, m') \<leftarrow> measure_fields (FieldByteSize_with p byte_size) fields m;
     d \<leftarrow> descriptor_of p (msg_type m);
     Some (our_size +
       (if d_message_set_wire_format d then ComputeUnknownMessageSetItemsSize (msg_unknown_fields m)
        else ComputeUnknownFieldsSize (msg_unknown_fields m)), m')
   }"

lemma measure_repeated_mono:
  "(\<And>m. mono_option (\<lambda>f. s f m)) \<Longrightarrow> mono_option (\<lambda>f. measure_repeated (s f) fd js m)"
  by (induction js arbitrary: m) (auto intro!: monoIs)

lemma measure_messages_mono:
  "(\<And>m. mono_option (\<lambda>f. s f m)) \<Longrightarrow> mono_option (\<lambda>f. measure_messages p (s f) fd count m)"
  unfolding measure_messages_def by (intro monoIs measure_repeated_mono)

lemma sub_size_mono:
  "(\<And>m. mono_option (\<lambda>f. s f m)) \<Longrightarrow> mono_option (\<lambda>f. GroupSize (s f) m)"
  "(\<And>m. mono_option (\<lambda>f. s f m)) \<Longrightarrow> mono_option (\<lambda>f. MessageSize (s f) m)"
  unfolding GroupSize_def MessageSize_def by (assumption, intro monoIs)

lemma FieldByteSize_mono:
  assumes m: "\<And>m. mono_option (\<lambda>f. s f m)"
  shows "mono_option (\<lambda>f. FieldByteSize_with p (s f) fd m)"
proof -
  have i: "mono_option (\<lambda>f. MessageSetItemByteSize_with p (s f) fd m)" for m
    unfolding MessageSetItemByteSize_with_def by (intro monoIs m)
  have g: "mono_option (\<lambda>f. measure_messages p (GroupSize (s f)) fd n m)"
    "mono_option (\<lambda>f. measure_messages p (MessageSize (s f)) fd n m)" for n m
    by (intro measure_messages_mono sub_size_mono m)+
  show ?thesis
    unfolding FieldByteSize_with_def Let_def
    by (intro bind_monoI if_monoI option.const_mono i) (cases "fd_type fd"; simp only: field_type.case; intro monoIs g)
qed

lemma ByteSize_mono [partial_function_mono]:
  assumes m: "\<And>m. mono_option (\<lambda>f. s f m)"
  shows "mono_option (\<lambda>f. ByteSize_with p (s f) m)"
proof -
  have "mono_option (\<lambda>f. measure_fields (FieldByteSize_with p (s f)) fds m)" for fds m
    by (induction fds arbitrary: m) (auto intro!: monoIs FieldByteSize_mono m)
  then show ?thesis unfolding ByteSize_with_def by (intro monoIs)
qed

text \<open>\<open>Message::ByteSize\<close>, with \<open>SetCachedSize\<close>.\<close>

partial_function (option) Message_ByteSize :: "pool \<Rightarrow> message \<Rightarrow> (int \<times> message) option" where
  "Message_ByteSize p m = do {
     (sz, m') \<leftarrow> ByteSize_with p (Message_ByteSize p) m;
     Some (sz, with_cached_size sz m')
   }"

definition SerializePartialToCodedStream ::
  "pool \<Rightarrow> 's output_vt \<Rightarrow> 's coded_output \<Rightarrow> message \<Rightarrow> ((bool \<times> message) \<times> 's coded_output) option" where
  "SerializePartialToCodedStream p vt output m = do {
     (_, m') \<leftarrow> Message_ByteSize p m;
     (ok, c) \<leftarrow> Message_SerializeWithCachedSizes p vt m' output;
     Some ((ok, m'), c)
   }"

end
