(* ===== verification/MessageContent.thy ===== *)
theory MessageContent
  imports WireMessages
begin

text \<open>
  What a message holds, as its clients see it: for each field of its type the values that are set, for
  each extension that is present its values, and the unknown fields. This theory defines the content
  and what a well-formed message is, and shows what a slot and an entry of the extension set contribute;
  \<open>MessageAccess\<close> shows how the operations of the reflection read and change it.
\<close>

unbundle bit_operations_syntax

section \<open>Content\<close>

datatype mvalue = Content
  (c_type: nat) (c_own: "fvalue list list") (c_ext: "(int \<times> fvalue list) list") (c_unknown: "unknown_value list")
and fvalue = FScalar scalar | FMessage mvalue

definition has_bit :: "uint32 list \<Rightarrow> nat \<Rightarrow> bool" where
  "has_bit h i = bit (h ! (i div 32)) (i mod 32)"

text \<open>A slot of a singular field counts only where its has bit is set.\<close>

definition own_values :: "uint32 list \<Rightarrow> (bool \<times> fvalue list) list \<Rightarrow> fvalue list list" where
  "own_values h vss = map (\<lambda>(i, (singular, vs)). if singular \<and> \<not> has_bit h i then [] else vs) (enumerate 0 vss)"

definition present :: "(int \<times> fvalue list) list \<Rightarrow> (int \<times> fvalue list) list" where
  "present es = filter (\<lambda>(k, vs). vs \<noteq> []) es"

primrec content :: "message \<Rightarrow> mvalue"
  and slot_values :: "slot \<Rightarrow> bool \<times> fvalue list"
  and ext_values :: "extension \<Rightarrow> fvalue list" where
  "content (Message t p h slots exts u c) =
     Content t (own_values h (map slot_values slots))
       (case map_option (map (map_prod id ext_values)) exts of None \<Rightarrow> [] | Some es \<Rightarrow> present es) (ufs_value u)"
| "slot_values (Scalar v) = (True, [FScalar v])"
| "slot_values (StringPtr s) = (True, case s of None \<Rightarrow> [] | Some d \<Rightarrow> [FScalar (VString d)])"
| "slot_values (MessagePtr q) = (True, case map_option content q of None \<Rightarrow> [] | Some m \<Rightarrow> [FMessage m])"
| "slot_values (Scalars vs) = (False, map FScalar vs)"
| "slot_values (MessagePtrs ms cleared) = (False, map FMessage (map content ms))"
| "ext_values (Extension fd s cleared) =
     (if fst (slot_values s) \<and> cleared then [] else snd (slot_values s))"

section \<open>Well-formed messages\<close>

fun null_slot :: "slot \<Rightarrow> bool" where
  "null_slot (StringPtr None) = True"
| "null_slot (MessagePtr None) = True"
| "null_slot _ = False"

text \<open>
  Every slot is an object of its field's type. A \<open>strict\<close> message moreover was never cleared: it keeps
  no cleared messages and no message in a slot that is not set, and its unknown fields are in order.
\<close>

inductive message_ok :: "pool \<Rightarrow> bool \<Rightarrow> message \<Rightarrow> bool"
  and slot_ok :: "pool \<Rightarrow> bool \<Rightarrow> field_descriptor \<Rightarrow> slot \<Rightarrow> bool" for p strict where
  message: "descriptor_of p t = Some d \<Longrightarrow> length h = (d_field_count d + 31) div 32 \<Longrightarrow>
    list_all2 (slot_ok p strict) (d_field_list d) slots \<Longrightarrow>
    (\<forall>i < length slots. has_bit h i \<longrightarrow> \<not> null_slot (slots ! i)) \<Longrightarrow>
    (strict \<longrightarrow> (\<forall>i < length slots. has_bit h i \<or> (\<forall>q. slots ! i \<noteq> MessagePtr (Some q)))) \<Longrightarrow>
    (exts = None \<longleftrightarrow> d_extension_ranges d = []) \<Longrightarrow>
    (\<forall>es. exts = Some es \<longrightarrow> sorted_wrt (<) (map fst es) \<and>
      (\<forall>(k, e) \<in> set es. FindExtensionByNumber p t k = Some (ext_descriptor e) \<and>
        slot_ok p strict (ext_descriptor e) (ext_value e) \<and> \<not> null_slot (ext_value e) \<and>
        (strict \<longrightarrow> \<not> ext_is_cleared e))) \<Longrightarrow>
    (strict \<longrightarrow> ufs_ok u \<and> ufs_clean u) \<Longrightarrow>
    message_ok p strict (Message t False h slots exts u c)"
| scalar: "\<not> is_repeated fd \<Longrightarrow> cpp_type fd \<noteq> CPPTYPE_STRING \<Longrightarrow> scalar_ok p fd v \<Longrightarrow>
    slot_ok p strict fd (Scalar v)"
| string: "\<not> is_repeated fd \<Longrightarrow> cpp_type fd = CPPTYPE_STRING \<Longrightarrow>
    (\<forall>d. s = Some d \<longrightarrow> int (length d) \<le> INT_MAX) \<Longrightarrow> slot_ok p strict fd (StringPtr s)"
| sub_message: "\<not> is_repeated fd \<Longrightarrow> cpp_type fd = CPPTYPE_MESSAGE \<Longrightarrow>
    (\<forall>m. q = Some m \<longrightarrow> message_ok p strict m \<and> msg_type m = fd_message_type fd) \<Longrightarrow>
    slot_ok p strict fd (MessagePtr q)"
| scalars: "is_repeated fd \<Longrightarrow> cpp_type fd \<noteq> CPPTYPE_MESSAGE \<Longrightarrow> (\<forall>v \<in> set vs. scalar_ok p fd v) \<Longrightarrow>
    slot_ok p strict fd (Scalars vs)"
| sub_messages: "is_repeated fd \<Longrightarrow> cpp_type fd = CPPTYPE_MESSAGE \<Longrightarrow>
    (\<forall>m \<in> set ms \<union> set cleared. message_ok p strict m \<and> msg_type m = fd_message_type fd) \<Longrightarrow>
    (strict \<longrightarrow> cleared = []) \<Longrightarrow> slot_ok p strict fd (MessagePtrs ms cleared)"

inductive_cases message_okE: "message_ok p strict (Message t pr h slots exts u c)"
inductive_simps slot_ok_simps [simp]:
  "slot_ok p strict fd (Scalar v)" "slot_ok p strict fd (StringPtr s)" "slot_ok p strict fd (MessagePtr q)"
  "slot_ok p strict fd (Scalars vs)" "slot_ok p strict fd (MessagePtrs ms cleared)"

lemma message_okD:
  assumes "message_ok p strict (Message t pr h slots exts u c)" "descriptor_of p t = Some d"
  shows "\<not> pr" "length h = (d_field_count d + 31) div 32" "list_all2 (slot_ok p strict) (d_field_list d) slots"
    "\<forall>i < length slots. has_bit h i \<longrightarrow> \<not> null_slot (slots ! i)"
    "strict \<longrightarrow> (\<forall>i < length slots. has_bit h i \<or> (\<forall>q. slots ! i \<noteq> MessagePtr (Some q)))"
    "exts = None \<longleftrightarrow> d_extension_ranges d = []"
    "\<forall>es. exts = Some es \<longrightarrow> sorted_wrt (<) (map fst es) \<and>
      (\<forall>(k, e) \<in> set es. FindExtensionByNumber p t k = Some (ext_descriptor e) \<and>
        slot_ok p strict (ext_descriptor e) (ext_value e) \<and> \<not> null_slot (ext_value e) \<and>
        (strict \<longrightarrow> \<not> ext_is_cleared e))"
    "strict \<longrightarrow> ufs_ok u \<and> ufs_clean u"
  by (rule message_okE [OF assms(1)]; use assms(2) in simp)+

section \<open>Has bits\<close>

lemma and_bit_iff: "(w AND push_bit k 1 \<noteq> 0) = bit w k" for w :: uint32
  by (rule bit_iff_and_push_bit_not_eq_0 [symmetric])

lemma has_bit_SetBit:
  assumes "i div 32 < length h"
  shows "has_bit (h[i div 32 := h ! (i div 32) OR push_bit (i mod 32) 1]) j = (j = i \<or> has_bit h j)"
proof (cases "j div 32 = i div 32")
  case True
  then have "(j mod 32 = i mod 32) = (j = i)" by (metis div_mult_mod_eq)
  moreover have "bit (push_bit (i mod 32) 1 :: uint32) n = (n = i mod 32)" for n
    by (auto simp: bit_simps)
  ultimately show ?thesis
    using True assms by (auto simp: has_bit_def bit_or_iff)
next
  case False
  then have "j \<noteq> i" by auto
  with False show ?thesis by (simp add: has_bit_def)
qed

lemma has_bit_blank: "i div 32 < n \<Longrightarrow> has_bit (replicate n 0) i = False"
  by (simp add: has_bit_def)

section \<open>Values\<close>

lemma length_own_values [simp]: "length (own_values h vss) = length vss"
  by (simp add: own_values_def)

lemma nth_own_values:
  "i < length vss \<Longrightarrow> own_values h vss ! i = (if fst (vss ! i) \<and> \<not> has_bit h i then [] else snd (vss ! i))"
  by (simp add: own_values_def nth_enumerate_eq split_def)

lemma own_values_update:
  assumes "i < length vss" "\<And>j. j < length vss \<Longrightarrow> j \<noteq> i \<Longrightarrow> has_bit h' j = has_bit h j"
  shows "own_values h' (vss[i := v]) =
    (own_values h vss)[i := (if fst v \<and> \<not> has_bit h' i then [] else snd v)]"
  using assms by (intro nth_equalityI) (auto simp: nth_own_values nth_list_update)

text \<open>The fields of a type, its own and the extensions the pool knows, and their values.\<close>

definition known_field :: "pool \<Rightarrow> nat \<Rightarrow> field_descriptor \<Rightarrow> bool" where
  "known_field p t fd \<longleftrightarrow>
     (\<exists>d. descriptor_of p t = Some d \<and> fd \<in> set (d_field_list d)) \<or>
     fd \<in> set (pool_extensions p) \<and> fd_containing_type fd = t"

fun field_values :: "field_descriptor \<Rightarrow> mvalue \<Rightarrow> fvalue list" where
  "field_values fd (Content t own ext u) =
     (if fd_is_extension fd then (case map_of ext (fd_number fd) of None \<Rightarrow> [] | Some vs \<Rightarrow> vs)
      else own ! fd_index fd)"

fun set_values :: "field_descriptor \<Rightarrow> fvalue list \<Rightarrow> mvalue \<Rightarrow> mvalue" where
  "set_values fd vs (Content t own ext u) =
     (if fd_is_extension fd then Content t own (map_put (fd_number fd) vs ext) u
      else Content t (own[fd_index fd := vs]) ext u)"

section \<open>Known fields\<close>

lemma find_distinct:
  "distinct (map f xs) \<Longrightarrow> x \<in> set xs \<Longrightarrow> find (\<lambda>y. f y = f x) xs = Some x"
  by (induction xs) force+

lemma find_Some_mem: "find P xs = Some x \<Longrightarrow> x \<in> set xs \<and> P x"
  by (induction xs) (auto split: if_splits)

lemma own_field:
  assumes p: "pool_ok p"
    and d: "descriptor_of p t = Some d" and fd: "fd \<in> set (d_field_list d)"
  shows "\<not> fd_is_extension fd" "fd_containing_type fd = t" "fd_index fd < d_field_count d"
    "d_field_list d ! fd_index fd = fd" "field_ok p fd" "FindFieldByNumber d (fd_number fd) = Some fd"
    "\<not> IsExtensionNumber d (fd_number fd)"
proof -
  have "descriptor_ok p t d" using d p by (auto simp: descriptor_of_def rd_def pool_ok_def split: if_splits)
  moreover obtain i where "i < d_field_count d" "d_field_list d ! i = fd"
    using fd by (auto simp: in_set_conv_nth d_field_count_def)
  ultimately show "\<not> fd_is_extension fd" "fd_containing_type fd = t" "fd_index fd < d_field_count d"
    "d_field_list d ! fd_index fd = fd" "field_ok p fd" "FindFieldByNumber d (fd_number fd) = Some fd"
    "\<not> IsExtensionNumber d (fd_number fd)"
    using fd by (auto simp: descriptor_ok_def Let_def FindFieldByNumber_def find_distinct)
qed

lemma ext_field:
  assumes p: "pool_ok p"
    and fd: "fd \<in> set (pool_extensions p)"
  shows "fd_is_extension fd" "field_ok p fd" "\<not> is_required fd"
    "FindExtensionByNumber p (fd_containing_type fd) (fd_number fd) = Some fd"
    "\<exists>d. descriptor_of p (fd_containing_type fd) = Some d \<and> IsExtensionNumber d (fd_number fd)"
proof -
  have e: "extension_ok p fd" using fd p by (simp add: pool_ok_def)
  then show "fd_is_extension fd" "field_ok p fd" "\<not> is_required fd"
    "\<exists>d. descriptor_of p (fd_containing_type fd) = Some d \<and> IsExtensionNumber d (fd_number fd)"
    by (auto simp: extension_ok_def)
  have "distinct (map (\<lambda>fd. (fd_containing_type fd, fd_number fd)) (pool_extensions p))"
    using p by (simp add: pool_ok_def)
  from find_distinct [OF this fd]
  show "FindExtensionByNumber p (fd_containing_type fd) (fd_number fd) = Some fd"
    by (simp add: FindExtensionByNumber_def)
qed

lemma FindExtensionD:
  assumes p: "pool_ok p"
  shows "FindExtensionByNumber p t k = Some fd \<Longrightarrow>
    fd \<in> set (pool_extensions p) \<and> fd_containing_type fd = t \<and> fd_number fd = k"
  unfolding FindExtensionByNumber_def by (drule find_Some_mem) simp

lemma known_field_cases [consumes 1, case_names own ext]:
  assumes p: "pool_ok p"
    and "known_field p t fd"
  obtains d where "descriptor_of p t = Some d" "fd \<in> set (d_field_list d)" "\<not> fd_is_extension fd"
  | d where "fd \<in> set (pool_extensions p)" "fd_is_extension fd" "descriptor_of p t = Some d"
      "d_extension_ranges d \<noteq> []" "FindExtensionByNumber p t (fd_number fd) = Some fd"
proof -
  consider d where "descriptor_of p t = Some d" "fd \<in> set (d_field_list d)"
    | "fd \<in> set (pool_extensions p)" "fd_containing_type fd = t"
    using assms by (auto simp: known_field_def)
  then show thesis
  proof cases
    case 1
    then show thesis using that(1) own_field(1) [OF p] by blast
  next
    case 2
    then obtain d where "descriptor_of p t = Some d" "IsExtensionNumber d (fd_number fd)"
      using ext_field(5) [OF p] by blast
    moreover from this have "d_extension_ranges d \<noteq> []" by (auto simp: IsExtensionNumber_def)
    ultimately show thesis using that(2) 2 ext_field(1,4) [OF p] by blast
  qed
qed

lemma known_field_facts:
  assumes p: "pool_ok p"
    and "known_field p t fd"
  shows "fd_containing_type fd = t" "field_ok p fd"
  using assms own_field(2,5) [OF p] ext_field(2) [OF p] by (auto simp: known_field_def)


section \<open>The slot of an own field\<close>

lemma option_map_list_Some:
  "option_map_list f xs = Some ys \<longleftrightarrow> list_all2 (\<lambda>x y. f x = Some y) xs ys"
  by (induction xs arbitrary: ys) (auto simp: list_all2_Cons1)

lemma with_fields [simp]:
  "msg_type (with_slots s m) = msg_type m" "msg_type (with_has_bits h m) = msg_type m"
  "msg_type (with_extensions e m) = msg_type m" "msg_type (with_unknown_fields u m) = msg_type m"
  "msg_type (with_cached_size c m) = msg_type m"
  "msg_slots (with_has_bits h m) = msg_slots m" "msg_has_bits (with_slots s m) = msg_has_bits m"
  "msg_has_bits (with_has_bits h m) = h" "msg_slots (with_slots s m) = s"
  "msg_extensions (with_extensions e m) = Some e" "msg_extensions (with_slots s m) = msg_extensions m"
  "msg_extensions (with_has_bits h m) = msg_extensions m"
  "with_has_bits h (with_slots s m) = with_slots s (with_has_bits h m)"
  "with_slots s' (with_slots s m) = with_slots s' m"
  by (cases m; simp)+

text \<open>What an accessor of an own field finds, and what storing a slot with its has bit does.\<close>

lemma own_slot:
  assumes p: "pool_ok p" and m: "message_ok p strict m"
    and d: "descriptor_of p (msg_type m) = Some d" and fd: "fd \<in> set (d_field_list d)"
  obtains s where "GetRaw fd m = Some s" "slot_ok p strict fd s"
    "HasBit fd m = Some (has_bit (msg_has_bits m) (fd_index fd))"
    "field_values fd (content m) =
      (if fst (slot_values s) \<and> \<not> has_bit (msg_has_bits m) (fd_index fd) then [] else snd (slot_values s))"
    "has_bit (msg_has_bits m) (fd_index fd) \<Longrightarrow> \<not> null_slot s"
    "\<And>q. strict \<Longrightarrow> \<not> has_bit (msg_has_bits m) (fd_index fd) \<Longrightarrow> s \<noteq> MessagePtr (Some q)"
proof -
  obtain t pr h slots exts u c where M: "m = Message t pr h slots exts u c" by (cases m)
  from d have "descriptor_of p t = Some d" by (simp add: M)
  note ok = message_okD(2-5) [OF m [unfolded M] this]
  note f = own_field [OF p d fd]
  have i: "fd_index fd < length slots" "length slots = d_field_count d"
    using f(3) ok(2) by (simp_all add: list_all2_lengthD d_field_count_def)
  then have b: "fd_index fd div 32 < length h" using ok(1) by simp
  show thesis
  proof (rule that [of "slots ! fd_index fd"])
    show "slot_ok p strict fd (slots ! fd_index fd)"
      using list_all2_nthD [OF ok(2), of "fd_index fd"] f(3,4) by (simp add: d_field_count_def)
    show "HasBit fd m = Some (has_bit (msg_has_bits m) (fd_index fd))"
      using b by (simp add: HasBit_def M rd_def has_bit_def flip: and_bit_iff)
  qed (use i f(1) ok in \<open>auto simp: M GetRaw_def rd_def nth_own_values\<close>)
qed

lemma own_put:
  assumes p: "pool_ok p" and m: "message_ok p strict m"
    and d: "descriptor_of p (msg_type m) = Some d" and fd: "fd \<in> set (d_field_list d)"
    and s: "slot_ok p strict fd s" and h: "length h = length (msg_has_bits m)"
    "\<And>j. j \<noteq> fd_index fd \<Longrightarrow> has_bit h j = has_bit (msg_has_bits m) j"
    and n: "has_bit h (fd_index fd) \<Longrightarrow> \<not> null_slot s"
    "\<And>q. strict \<Longrightarrow> \<not> has_bit h (fd_index fd) \<Longrightarrow> s \<noteq> MessagePtr (Some q)"
  defines "m' \<equiv> with_slots ((msg_slots m)[fd_index fd := s]) (with_has_bits h m)"
  shows "message_ok p strict m'" "content m' = set_values fd
    (if fst (slot_values s) \<and> \<not> has_bit h (fd_index fd) then [] else snd (slot_values s)) (content m)"
    "msg_type m' = msg_type m"
proof -
  obtain t pr g slots exts u c where M: "m = Message t pr g slots exts u c" by (cases m)
  note f = own_field [OF p d fd]
  from d have d': "descriptor_of p t = Some d" by (simp add: M)
  note E = message_okD [OF m [unfolded M] d'] and ok = message_okD(3) [OF m [unfolded M] d']
  have i: "fd_index fd < length slots" "length slots = d_field_count d"
    using f(3) ok by (simp_all add: list_all2_lengthD d_field_count_def)
  have "(d_field_list d)[fd_index fd := fd] = d_field_list d" using f(4) by (metis list_update_id)
  then have "list_all2 (slot_ok p strict) (d_field_list d) (slots[fd_index fd := s])"
    using list_all2_update_cong [OF ok s, of "fd_index fd"] by simp
  moreover have "has_bit h j \<Longrightarrow> \<not> null_slot (slots[fd_index fd := s] ! j)" if "j < length slots" for j
    using that E(4) h(2) [of j] n(1) by (cases "j = fd_index fd") (simp_all add: M)
  moreover have "has_bit h j \<or> slots[fd_index fd := s] ! j \<noteq> MessagePtr (Some q)"
    if "strict" "j < length slots" for j q
    using that E(5) h(2) [of j] n(2) [of q] by (cases "j = fd_index fd") (auto simp: M)
  ultimately show "message_ok p strict m'"
    using E(1,2) h(1) by (simp add: m'_def M) (rule message_ok_slot_ok.message [OF d' _ _ _ _ E(6-8)]; auto)
  show "content m' = set_values fd
    (if fst (slot_values s) \<and> \<not> has_bit h (fd_index fd) then [] else snd (slot_values s)) (content m)"
    using i f(1) h(2) by (simp add: m'_def M map_update own_values_update)
qed (simp add: m'_def)

section \<open>The entries of the extension set\<close>

lemma map_of_map_put [simp]: "map_of (map_put k v xs) = (map_of xs)(k \<mapsto> v)" if "sorted_wrt (<) (map fst xs)"
  using that by (induction xs rule: map_put.induct) (force simp: fun_eq_iff dest: weak_map_of_SomeI)+

lemma set_map_put: "set (map fst (map_put k v xs)) = insert k (set (map fst xs))"
  by (induction k v xs rule: map_put.induct) auto

lemma sorted_map_put: "sorted_wrt (<) (map fst xs) \<Longrightarrow> sorted_wrt (<) (map fst (map_put k v xs))"
proof (induction k v xs rule: map_put.induct)
  case (2 k v j w xs)
  then show ?case using set_map_put [of k v xs] by auto
qed simp

lemma mem_map_put: "x \<in> set (map_put k v xs) \<Longrightarrow> x = (k, v) \<or> x \<in> set xs"
  by (induction k v xs rule: map_put.induct) (auto split: if_splits)

lemma map_put_map: "map (map_prod id f) (map_put k v xs) = map_put k (f v) (map (map_prod id f) xs)"
  by (induction k v xs rule: map_put.induct) auto

lemma map_put_front: "\<forall>y \<in> set xs. k < fst y \<Longrightarrow> map_put k v xs = (k, v) # xs"
  by (cases xs) auto

lemma present_map_put:
  "sorted_wrt (<) (map fst xs) \<Longrightarrow> vs \<noteq> [] \<Longrightarrow> present (map_put k vs xs) = map_put k vs (present xs)"
proof (induction k vs xs rule: map_put.induct)
  case (2 k vs j w xs)
  then have "map_put k vs (present xs) = (k, vs) # present xs" if "k \<le> j"
    using that by (intro map_put_front) (auto simp: present_def)
  with 2 show ?case by (auto simp: present_def)
qed (simp add: present_def)

lemma map_of_present:
  "sorted_wrt (<) (map fst xs) \<Longrightarrow>
    map_of (present xs) k = (case map_of xs k of None \<Rightarrow> None | Some vs \<Rightarrow> if vs = [] then None else Some vs)"
proof (induction xs)
  case (Cons x xs)
  obtain j vs where x: "x = (j, vs)" by fastforce
  have "k = j \<Longrightarrow> map_of xs k = None" using Cons.prems by (auto simp: x map_of_eq_None_iff)
  with Cons show ?case by (auto simp: x present_def)
qed (simp add: present_def)

lemma map_of_map_prod: "map_of (map (map_prod id f) es) k = map_option f (map_of es k)"
  by (induction es) auto

lemma own_ext_values:
  assumes "message_ok p strict m" "descriptor_of p (msg_type m) = Some d" "msg_extensions m = Some es"
    "fd_is_extension fd"
  shows "field_values fd (content m) = (case map_of es (fd_number fd) of None \<Rightarrow> [] | Some e \<Rightarrow> ext_values e)"
proof -
  obtain t pr h slots exts u c where M: "m = Message t pr h slots exts u c" by (cases m)
  from message_okD(7) [OF assms(1) [unfolded M]] assms(2,3)
  have "sorted_wrt (<) (map fst (map (map_prod id ext_values) es))" by (simp add: M comp_def)
  from map_of_present [OF this] assms(3,4) show ?thesis
    by (auto simp: M map_of_map_prod split: option.splits)
qed

lemma ext_entry:
  assumes "message_ok p strict m" "descriptor_of p (msg_type m) = Some d" "msg_extensions m = Some es"
    "map_of es k = Some e"
  shows "FindExtensionByNumber p (msg_type m) k = Some (ext_descriptor e)" "\<not> null_slot (ext_value e)"
    "slot_ok p strict (ext_descriptor e) (ext_value e)" "strict \<Longrightarrow> \<not> ext_is_cleared e"
proof -
  obtain t pr h slots exts u c where M: "m = Message t pr h slots exts u c" by (cases m)
  from message_okD(7) [OF assms(1) [unfolded M]] assms(2,3) map_of_SomeD [OF assms(4)]
  show "FindExtensionByNumber p (msg_type m) k = Some (ext_descriptor e)" "\<not> null_slot (ext_value e)"
    "slot_ok p strict (ext_descriptor e) (ext_value e)" "strict \<Longrightarrow> \<not> ext_is_cleared e"
    by (auto simp: M)
qed

lemma ext_put:
  assumes m: "message_ok p strict m" and d: "descriptor_of p (msg_type m) = Some d"
    and es: "msg_extensions m = Some es"
    and fd: "FindExtensionByNumber p (msg_type m) (fd_number fd) = Some fd" "fd_is_extension fd"
    and s: "slot_ok p strict fd s" "\<not> null_slot s" "strict \<Longrightarrow> \<not> cleared"
    and vs: "ext_values (Extension fd s cleared) \<noteq> []"
  defines "m' \<equiv> with_extensions (map_put (fd_number fd) (Extension fd s cleared) es) m"
  shows "message_ok p strict m'"
    "content m' = set_values fd (ext_values (Extension fd s cleared)) (content m)" "msg_type m' = msg_type m"
proof -
  obtain t pr h slots exts u c where M: "m = Message t pr h slots exts u c" by (cases m)
  from d have d': "descriptor_of p t = Some d" by (simp add: M)
  have exts: "exts = Some es" using es by (simp add: M)
  note E = message_okD [OF m [unfolded M] d']
  from E(7) have so: "sorted_wrt (<) (map fst es)" by (simp add: exts)
  have pr: "pr = False" using E(1) by simp
  show "message_ok p strict m'"
    using E so fd s unfolding m'_def M with_extensions.simps pr
    by (intro message_ok_slot_ok.message [OF d' E(2-5)])
      (auto simp: exts sorted_map_put dest!: mem_map_put)
  have so': "sorted_wrt (<) (map fst (map (map_prod id ext_values) es))" using so by (simp add: comp_def)
  show "content m' = set_values fd (ext_values (Extension fd s cleared)) (content m)"
    using present_map_put [OF so' vs] fd(2) by (simp add: m'_def M exts map_put_map del: ext_values.simps)
qed (simp add: m'_def)

end
