(* ===== verification/MessageAccess.thy ===== *)
theory MessageAccess
  imports MessageContent
begin

text \<open>
  The reflection against the content of a message: each accessor, over the slots and the extension set
  alike, returns the values of the field, and each mutation puts values in their place and leaves all
  others.
\<close>

definition updated ::
  "pool \<Rightarrow> bool \<Rightarrow> field_descriptor \<Rightarrow> fvalue list \<Rightarrow> message \<Rightarrow> message \<Rightarrow> bool" where
  "updated p strict fd vs m m' \<longleftrightarrow>
     message_ok p strict m' \<and> msg_type m' = msg_type m \<and> content m' = set_values fd vs (content m)"

lemma with_own [simp]: "with_has_bits (msg_has_bits m) m = m" "with_slots (msg_slots m) m = m"
  by (cases m; simp)+

lemma scalar_ok_type: "scalar_ok p fd v \<Longrightarrow> scalar_type v = cpp_type fd"
  by (cases v) simp_all

lemma scalar_ok_not_message: "scalar_ok p fd v \<Longrightarrow> cpp_type fd \<noteq> CPPTYPE_MESSAGE"
  by (cases v) auto

lemma message_ok_descriptor:
  assumes "message_ok p strict m"
  obtains d where "descriptor_of p (msg_type m) = Some d"
  using assms by (cases rule: message_ok.cases) auto

lemma is_repeated_label: "\<not> is_repeated fd \<Longrightarrow> \<not> is_required fd \<Longrightarrow> fd_label fd = LABEL_OPTIONAL"
  by (cases "fd_label fd") (simp_all add: is_repeated_def is_required_def)

lemma store_raw_slot:
  "GetRaw fd m = Some s \<Longrightarrow> store_raw fd s' m = Some (with_slots ((msg_slots m)[fd_index fd := s']) m)"
  by (auto simp: GetRaw_def store_raw_def)

lemma SetBit_slot:
  assumes "HasBit fd m = Some b"
  obtains h where "SetBit fd m = Some (with_has_bits h m)" "length h = length (msg_has_bits m)"
    "\<And>j. has_bit h j = (j = fd_index fd \<or> has_bit (msg_has_bits m) j)"
proof
  have i: "fd_index fd div 32 < length (msg_has_bits m)"
    using assms by (auto simp: HasBit_def rd_def split: if_splits)
  let ?h = "(msg_has_bits m)[fd_index fd div 32 :=
    msg_has_bits m ! (fd_index fd div 32) OR push_bit (fd_index fd mod 32) 1]"
  show "SetBit fd m = Some (with_has_bits ?h m)" using i by (simp add: SetBit_def rd_def)
  show "has_bit ?h j = (j = fd_index fd \<or> has_bit (msg_has_bits m) j)" for j
    by (rule has_bit_SetBit [OF i])
qed simp

lemma field_extensions:
  assumes p: "pool_ok p" and m: "message_ok p strict m" and fd: "known_field p (msg_type m) fd"
    and "fd_is_extension fd"
  obtains es d where "msg_extensions m = Some es" "descriptor_of p (msg_type m) = Some d"
    "FindExtensionByNumber p (msg_type m) (fd_number fd) = Some fd" "\<not> is_required fd"
    "field_values fd (content m) = (case map_of es (fd_number fd) of None \<Rightarrow> [] | Some e \<Rightarrow> ext_values e)"
    "\<And>e. map_of es (fd_number fd) = Some e \<Longrightarrow> ext_descriptor e = fd \<and> \<not> null_slot (ext_value e) \<and>
      slot_ok p strict fd (ext_value e) \<and> (strict \<longrightarrow> \<not> ext_is_cleared e)"
proof (cases rule: known_field_cases [OF p fd, case_names own ext])
  case (own d)
  then show thesis using assms by simp
next
  case (ext d)
  obtain t pr h slots exts u c where M: "m = Message t pr h slots exts u c" by (cases m)
  have "exts \<noteq> None" using message_okD(6) [OF m [unfolded M]] ext(3,4) by (simp add: M)
  then obtain es where es: "msg_extensions m = Some es" by (auto simp: M)
  show thesis
  proof (rule that [OF es ext(3,5) ext_field(3) [OF p ext(1)] own_ext_values [OF m ext(3) es assms(4)]])
    fix e assume "map_of es (fd_number fd) = Some e"
    from ext_entry [OF m ext(3) es this] ext(5)
    show "ext_descriptor e = fd \<and> \<not> null_slot (ext_value e) \<and>
      slot_ok p strict fd (ext_value e) \<and> (strict \<longrightarrow> \<not> ext_is_cleared e)" by simp
  qed
qed

lemma field_slot:
  assumes p: "pool_ok p" and m: "message_ok p strict m" and fd: "known_field p (msg_type m) fd"
    and "\<not> fd_is_extension fd"
  obtains s d where "descriptor_of p (msg_type m) = Some d" "fd \<in> set (d_field_list d)"
    "GetRaw fd m = Some s" "slot_ok p strict fd s"
    "HasBit fd m = Some (has_bit (msg_has_bits m) (fd_index fd))"
    "field_values fd (content m) =
      (if fst (slot_values s) \<and> \<not> has_bit (msg_has_bits m) (fd_index fd) then [] else snd (slot_values s))"
    "has_bit (msg_has_bits m) (fd_index fd) \<Longrightarrow> \<not> null_slot s"
    "\<And>q. strict \<Longrightarrow> \<not> has_bit (msg_has_bits m) (fd_index fd) \<Longrightarrow> s \<noteq> MessagePtr (Some q)"
proof (cases rule: known_field_cases [OF p fd, case_names own ext])
  case (own d)
  show thesis by (rule own_slot [OF p m own(1,2)]) (rule that [OF own(1,2)])
qed (use assms in simp)

lemma usage_checks:
  assumes p: "pool_ok p" and m: "message_ok p strict m" and fd: "known_field p (msg_type m) fd"
  shows "usage_check_message_type fd m = Some ()"
  "usage_check_all r ty fd m = (if is_repeated fd = r \<and> cpp_type fd = ty then Some () else None)"
  using known_field_facts(1) [OF p fd] by (simp_all add: usage_check_message_type_def usage_check_all_def)

lemma put_raw:
  assumes p: "pool_ok p" and m: "message_ok p strict m" and fd: "known_field p (msg_type m) fd"
    and "\<not> fd_is_extension fd" "slot_ok p strict fd s" "is_repeated fd"
  shows "updated p strict fd (snd (slot_values s)) m (with_slots ((msg_slots m)[fd_index fd := s]) m)"
proof -
  obtain d where d: "descriptor_of p (msg_type m) = Some d" "fd \<in> set (d_field_list d)"
    using field_slot [OF p m fd assms(4)] by metis
  have "\<not> fst (slot_values s)" "\<not> null_slot s" "s \<noteq> MessagePtr q" for q
    using assms(5,6) by (cases s; auto)+
  with own_put [OF p m d assms(5), of "msg_has_bits m"] show ?thesis by (simp add: updated_def)
qed

lemma put_raw_set:
  assumes p: "pool_ok p" and m: "message_ok p strict m" and fd: "known_field p (msg_type m) fd"
    and "\<not> fd_is_extension fd" "slot_ok p strict fd s" "\<not> is_repeated fd" "\<not> null_slot s"
    and h: "length h = length (msg_has_bits m)" "\<And>j. has_bit h j = (j = fd_index fd \<or> has_bit (msg_has_bits m) j)"
  shows "updated p strict fd (snd (slot_values s)) m
    (with_slots ((msg_slots m)[fd_index fd := s]) (with_has_bits h m))"
proof -
  obtain d where d: "descriptor_of p (msg_type m) = Some d" "fd \<in> set (d_field_list d)"
    using field_slot [OF p m fd assms(4)] by metis
  from own_put [OF p m d assms(5) h(1)] h(2) assms(7) show ?thesis by (simp add: updated_def)
qed

lemma put_extension:
  assumes p: "pool_ok p" and m: "message_ok p strict m" and fd: "known_field p (msg_type m) fd"
    and "fd_is_extension fd" "msg_extensions m = Some es" "slot_ok p strict fd s" "\<not> null_slot s"
    "strict \<Longrightarrow> \<not> cl" "ext_values (Extension fd s cl) \<noteq> []"
  shows "updated p strict fd (ext_values (Extension fd s cl)) m
    (with_extensions (map_put (fd_number fd) (Extension fd s cl) es) m)"
proof -
  obtain d where "descriptor_of p (msg_type m) = Some d"
    "FindExtensionByNumber p (msg_type m) (fd_number fd) = Some fd"
    using field_extensions [OF p m fd assms(4)] by metis
  from ext_put [OF m this(1) assms(5) this(2) assms(4) assms(6-9)] show ?thesis
    by (simp add: updated_def)
qed

section \<open>Adding and setting values\<close>

lemma repeated_scalars:
  "slot_ok p strict fd s \<Longrightarrow> is_repeated fd \<Longrightarrow> cpp_type fd \<noteq> CPPTYPE_MESSAGE \<Longrightarrow>
    \<exists>vs. s = Scalars vs \<and> (\<forall>v \<in> set vs. scalar_ok p fd v)"
  by (cases s) auto

lemma add_raw:
  assumes p: "pool_ok p" and m: "message_ok p strict m" and fd: "known_field p (msg_type m) fd"
    and "\<not> fd_is_extension fd" "is_repeated fd" "scalar_ok p fd v"
  obtains m' where "AddField fd v m = Some m'"
    "updated p strict fd (field_values fd (content m) @ [FScalar v]) m m'"
proof -
  obtain s where s: "GetRaw fd m = Some s" "slot_ok p strict fd s"
    "field_values fd (content m) = (if fst (slot_values s) \<and> \<not> has_bit (msg_has_bits m) (fd_index fd) then [] else snd (slot_values s))"
    using field_slot [OF p m fd assms(4)] by metis
  from repeated_scalars [OF s(2) assms(5)] scalar_ok_not_message [OF assms(6)]
  obtain vs where vs: "s = Scalars vs" "\<forall>v \<in> set vs. scalar_ok p fd v" by blast
  have "slot_ok p strict fd (Scalars (vs @ [v]))"
    using assms vs scalar_ok_not_message [OF assms(6)] by auto
  from put_raw [OF p m fd assms(4) this assms(5)] show thesis
    using that s vs by (simp add: AddField_def store_raw_slot)
qed

lemma add_extension:
  assumes p: "pool_ok p" and m: "message_ok p strict m" and fd: "known_field p (msg_type m) fd"
    and "fd_is_extension fd" "is_repeated fd" "scalar_ok p fd v" "cpp_type fd = ty"
  obtains es es' e where "msg_extensions m = Some es"
    "ExtensionSet_Add ty p (msg_type m) (fd_number fd) v es = Some es'"
    "map_of es' (fd_number fd) = Some e" "ext_descriptor e = fd"
    "updated p strict fd (field_values fd (content m) @ [FScalar v]) m (with_extensions es' m)"
proof -
  obtain es d where es: "msg_extensions m = Some es" "descriptor_of p (msg_type m) = Some d"
    "FindExtensionByNumber p (msg_type m) (fd_number fd) = Some fd"
    "field_values fd (content m) = (case map_of es (fd_number fd) of None \<Rightarrow> [] | Some e \<Rightarrow> ext_values e)"
    "\<And>e. map_of es (fd_number fd) = Some e \<Longrightarrow> ext_descriptor e = fd \<and> \<not> null_slot (ext_value e) \<and>
      slot_ok p strict fd (ext_value e) \<and> (strict \<longrightarrow> \<not> ext_is_cleared e)"
    using field_extensions [OF p m fd assms(4)] by metis
  obtain t pr h slots exts u c where M: "m = Message t pr h slots exts u c" by (cases m)
  have so: "sorted_wrt (<) (map fst es)"
    using message_okD(7) [OF m [unfolded M]] es(1,2) by (simp add: M)
  have l: "fd_label fd = LABEL_REPEATED" using assms(5) by (simp add: is_repeated_def)
  have nm: "cpp_type fd \<noteq> CPPTYPE_MESSAGE" by (rule scalar_ok_not_message [OF assms(6)])
  show thesis
  proof (cases "map_of es (fd_number fd)")
    case None
    have "slot_ok p strict fd (Scalars [v])" using assms nm by simp
    from put_extension [OF p m fd assms(4) es(1) this, of False] show thesis
      using that [OF es(1)] es(3,4) None so l assms(7)
      by (simp add: ExtensionSet_Add_def FindKnownExtensionOrDie_def dcheck_type_def)
  next
    case (Some e)
    note e = es(5) [OF Some]
    obtain vs where vs: "ext_value e = Scalars vs" "\<forall>v \<in> set vs. scalar_ok p fd v"
      using repeated_scalars [where s = "ext_value e"] e assms(5) nm by blast
    have "slot_ok p strict fd (Scalars (vs @ [v]))" using assms vs nm by auto
    from put_extension [OF p m fd assms(4) es(1) this, of "ext_is_cleared e"] e show thesis
      using that [OF es(1)] es(4) Some so l assms(7) vs(1)
      by (cases e) (simp add: ExtensionSet_Add_def dcheck_type_def)
  qed
qed

text \<open>A well-typed enum value is one of its enum.\<close>

lemma scalar_ok_enum:
  assumes "scalar_ok p fd (VEnum n)"
  obtains ev where "FindValueByNumber p (fd_enum_type fd) n = Some ev" "ev_number ev = n"
    "ev_type ev = fd_enum_type fd"
  using assms by (auto simp: FindValueByNumber_def split: bind_splits if_splits)

lemma add_enum_ok:
  assumes p: "pool_ok p" and m: "message_ok p strict m" and fd: "known_field p (msg_type m) fd"
    and "is_repeated fd" "scalar_ok p fd (VEnum (ev_number ev))" "ev_type ev = fd_enum_type fd"
  obtains m' where "AddEnum p fd ev m = Some m'"
    "updated p strict fd (field_values fd (content m) @ [FScalar (VEnum (ev_number ev))]) m m'"
proof -
  note [simp] = usage_checks [OF p m fd]
  have ty: "cpp_type fd = CPPTYPE_ENUM" using assms(5) by simp
  show thesis
  proof (cases "fd_is_extension fd")
    case True
    from add_extension [OF p m fd True assms(4,5) ty] obtain es es' e where
      "msg_extensions m = Some es"
      "ExtensionSet_Add CPPTYPE_ENUM p (msg_type m) (fd_number fd) (VEnum (ev_number ev)) es = Some es'"
      "map_of es' (fd_number fd) = Some e" "ext_descriptor e = fd"
      "updated p strict fd (field_values fd (content m) @ [FScalar (VEnum (ev_number ev))]) m (with_extensions es' m)"
      by metis
    then show thesis using that True assms ty
      by (auto simp: AddEnum_def on_extensions_def ExtensionSet_AddEnum_def)
  next
    case False
    from add_raw [OF p m fd False assms(4,5)] obtain m' where "AddField fd (VEnum (ev_number ev)) m = Some m'"
      "updated p strict fd (field_values fd (content m) @ [FScalar (VEnum (ev_number ev))]) m m'" .
    then show thesis using that False assms ty by (auto simp: AddEnum_def)
  qed
qed

lemma add_value_ok:
  assumes p: "pool_ok p" and m: "message_ok p strict m" and fd: "known_field p (msg_type m) fd"
    and "is_repeated fd" "scalar_ok p fd v"
  obtains m' where "add_value p fd v m = Some m'"
    "updated p strict fd (field_values fd (content m) @ [FScalar v]) m m'"
proof (cases "cpp_type fd = CPPTYPE_ENUM")
  case True
  then obtain n where v: "v = VEnum n" using scalar_ok_type [OF assms(5)] by (cases v) auto
  obtain ev where ev: "FindValueByNumber p (fd_enum_type fd) n = Some ev" "ev_number ev = n"
    "ev_type ev = fd_enum_type fd" by (rule scalar_ok_enum [OF assms(5) [unfolded v]])
  have sv: "scalar_ok p fd (VEnum (ev_number ev))" using assms(5) by (simp only: v ev(2))
  obtain m' where "AddEnum p fd ev m = Some m'"
    "updated p strict fd (field_values fd (content m) @ [FScalar (VEnum (ev_number ev))]) m m'"
    by (rule add_enum_ok [OF p m fd assms(4) sv ev(3)])
  then show thesis by (intro that [of m']) (simp_all add: v ev(1,2) add_value_def)
next
  case ne: False
  note [simp] = usage_checks [OF p m fd]
  note ty = scalar_ok_type [OF assms(5)]
  show thesis
  proof (cases "fd_is_extension fd")
    case True
    from add_extension [OF p m fd True assms(4,5) ty [symmetric]] obtain es es' where
      "msg_extensions m = Some es" "ExtensionSet_Add (scalar_type v) p (msg_type m) (fd_number fd) v es = Some es'"
      "updated p strict fd (field_values fd (content m) @ [FScalar v]) m (with_extensions es' m)" by metis
    then show thesis using that True assms(4) ty ne
      by (cases v) (auto simp: add_value_def AddString_def Reflection_Add_def on_extensions_def ExtensionSet_AddString_def)
  next
    case False
    from add_raw [OF p m fd False assms(4,5)] obtain m' where "AddField fd v m = Some m'"
      "updated p strict fd (field_values fd (content m) @ [FScalar v]) m m'" .
    then show thesis using that False assms(4) ty ne
      by (cases v) (auto simp: add_value_def AddString_def Reflection_Add_def)
  qed
qed

lemma singular_ext_values:
  "slot_ok p strict fd s \<Longrightarrow> \<not> is_repeated fd \<Longrightarrow> fst (slot_values s)"
  by (cases s) auto

lemma set_raw:
  assumes p: "pool_ok p" and m: "message_ok p strict m" and fd: "known_field p (msg_type m) fd"
    and "\<not> fd_is_extension fd" "\<not> is_repeated fd" "scalar_ok p fd v" "cpp_type fd \<noteq> CPPTYPE_STRING"
  obtains m' where "SetField fd v m = Some m'" "updated p strict fd [FScalar v] m m'"
proof -
  obtain s where s: "GetRaw fd m = Some s" "HasBit fd m = Some (has_bit (msg_has_bits m) (fd_index fd))"
    using field_slot [OF p m fd assms(4)] by metis
  obtain h where h: "SetBit fd m = Some (with_has_bits h m)" "length h = length (msg_has_bits m)"
    "\<And>j. has_bit h j = (j = fd_index fd \<or> has_bit (msg_has_bits m) j)"
    using SetBit_slot [OF s(2)] by metis
  have "SetField fd v m = Some (with_slots ((msg_slots m)[fd_index fd := Scalar v]) (with_has_bits h m))"
    using h(1) by (auto simp: SetField_def store_raw_slot [OF s(1)] SetBit_def)
  moreover have "slot_ok p strict fd (Scalar v)" using assms by simp
  ultimately show thesis
    using that put_raw_set [OF p m fd assms(4) _ assms(5) _ h(2,3), of "Scalar v"] by simp
qed

lemma set_extension:
  assumes p: "pool_ok p" and m: "message_ok p strict m" and fd: "known_field p (msg_type m) fd"
    and "fd_is_extension fd" "\<not> is_repeated fd" "scalar_ok p fd v" "cpp_type fd \<noteq> CPPTYPE_STRING"
    "cpp_type fd = ty"
  obtains es es' e where "msg_extensions m = Some es"
    "ExtensionSet_Set ty p (msg_type m) (fd_number fd) v es = Some es'"
    "map_of es' (fd_number fd) = Some e" "ext_descriptor e = fd"
    "updated p strict fd [FScalar v] m (with_extensions es' m)"
proof -
  obtain es d where es: "msg_extensions m = Some es" "descriptor_of p (msg_type m) = Some d"
    "FindExtensionByNumber p (msg_type m) (fd_number fd) = Some fd" "\<not> is_required fd"
    "\<And>e. map_of es (fd_number fd) = Some e \<Longrightarrow> ext_descriptor e = fd"
    using field_extensions [OF p m fd assms(4)] by metis
  obtain t pr h slots exts u c where M: "m = Message t pr h slots exts u c" by (cases m)
  have so: "sorted_wrt (<) (map fst es)"
    using message_okD(7) [OF m [unfolded M]] es(1,2) by (simp add: M)
  have l: "fd_label fd = LABEL_OPTIONAL" by (rule is_repeated_label [OF assms(5) es(4)])
  obtain w where w: "fd_default fd = Some w"
    using known_field_facts(2) [OF p fd] scalar_ok_not_message [OF assms(6)] by (auto simp: field_ok_def)
  have "slot_ok p strict fd (Scalar v)" using assms by simp
  from put_extension [OF p m fd assms(4) es(1) this, of False] show thesis
    using that [OF es(1)] es(3,5) so l w assms(8)
    by (cases "map_of es (fd_number fd)")
      (simp_all add: ExtensionSet_Set_def FindKnownExtensionOrDie_def dcheck_type_def default_value_def)
qed

lemma set_string_ok:
  assumes p: "pool_ok p" and m: "message_ok p strict m" and fd: "known_field p (msg_type m) fd"
    and "\<not> is_repeated fd" "scalar_ok p fd (VString v)"
  obtains m' where "SetString p fd v m = Some m'" "updated p strict fd [FScalar (VString v)] m m'"
proof -
  note [simp] = usage_checks [OF p m fd]
  have ty: "cpp_type fd = CPPTYPE_STRING" using assms(5) by simp
  have sl: "slot_ok p strict fd (StringPtr (Some v))" using assms by simp
  show thesis
  proof (cases "fd_is_extension fd")
    case True
    obtain es d where es: "msg_extensions m = Some es" "descriptor_of p (msg_type m) = Some d"
      "FindExtensionByNumber p (msg_type m) (fd_number fd) = Some fd" "\<not> is_required fd"
      "\<And>e. map_of es (fd_number fd) = Some e \<Longrightarrow> ext_descriptor e = fd \<and> \<not> null_slot (ext_value e) \<and>
        slot_ok p strict fd (ext_value e) \<and> (strict \<longrightarrow> \<not> ext_is_cleared e)"
      using field_extensions [OF p m fd True] by metis
    obtain t pr h slots exts u c where M: "m = Message t pr h slots exts u c" by (cases m)
    have so: "sorted_wrt (<) (map fst es)"
      using message_okD(7) [OF m [unfolded M]] es(1,2) by (simp add: M)
    have l: "fd_label fd = LABEL_OPTIONAL" by (rule is_repeated_label [OF assms(4) es(4)])
    have put: "map_put k v (map_put k w xs) = map_put k v xs" for k v w and xs :: "(int \<times> 'x) list"
      by (induction k w xs rule: map_put.induct) auto
    have "ExtensionSet_SetString p (msg_type m) (fd_number fd) v es =
        Some (map_put (fd_number fd) (Extension fd (StringPtr (Some v)) False) es)"
    proof (cases "map_of es (fd_number fd)")
      case None
      then show ?thesis using es(3) so l ty
        by (simp add: ExtensionSet_SetString_def ExtensionSet_MutableString_def FindKnownExtensionOrDie_def
            dcheck_type_def store_extension_def put)
    next
      case (Some e)
      note e = es(5) [OF Some]
      obtain s where "ext_value e = StringPtr (Some s)"
        using e assms(4) ty by (cases "ext_value e"; cases e) (auto elim: null_slot.elims)
      then show ?thesis using Some e so l ty
        by (simp add: ExtensionSet_SetString_def ExtensionSet_MutableString_def dcheck_type_def
            store_extension_def put)
    qed
    with put_extension [OF p m fd True es(1) sl, of False] show thesis
      using that es(1) True assms(4) ty by (simp add: SetString_def on_extensions_def)
  next
    case False
    obtain s where s: "GetRaw fd m = Some s" "HasBit fd m = Some (has_bit (msg_has_bits m) (fd_index fd))"
      "slot_ok p strict fd s"
      using field_slot [OF p m fd False] by metis
    obtain h where h: "SetBit fd m = Some (with_has_bits h m)" "length h = length (msg_has_bits m)"
      "\<And>j. has_bit h j = (j = fd_index fd \<or> has_bit (msg_has_bits m) j)"
      using SetBit_slot [OF s(2)] by metis
    obtain q where q: "s = StringPtr q" using s(3) assms(4) ty by (cases s) auto
    have "GetRaw fd (with_has_bits h m) = Some s" using s(1) by (simp add: GetRaw_def)
    with put_raw_set [OF p m fd False sl assms(4) _ h(2,3)] show thesis
      using that h(1) False assms(4) ty q
      by (simp add: SetString_def store_raw_slot [of fd "with_has_bits h m"])
  qed
qed

lemma set_enum_ok:
  assumes p: "pool_ok p" and m: "message_ok p strict m" and fd: "known_field p (msg_type m) fd"
    and "\<not> is_repeated fd" "scalar_ok p fd (VEnum (ev_number ev))" "ev_type ev = fd_enum_type fd"
  obtains m' where "SetEnum p fd ev m = Some m'"
    "updated p strict fd [FScalar (VEnum (ev_number ev))] m m'"
proof -
  note [simp] = usage_checks [OF p m fd]
  have ty: "cpp_type fd = CPPTYPE_ENUM" using assms(5) by simp
  then have ns: "cpp_type fd \<noteq> CPPTYPE_STRING" by simp
  show thesis
  proof (cases "fd_is_extension fd")
    case True
    from set_extension [OF p m fd True assms(4,5) ns ty] obtain es es' e where
      "msg_extensions m = Some es"
      "ExtensionSet_Set CPPTYPE_ENUM p (msg_type m) (fd_number fd) (VEnum (ev_number ev)) es = Some es'"
      "map_of es' (fd_number fd) = Some e" "ext_descriptor e = fd"
      "updated p strict fd [FScalar (VEnum (ev_number ev))] m (with_extensions es' m)"
      by metis
    then show thesis using that True assms ty
      by (auto simp: SetEnum_def on_extensions_def ExtensionSet_SetEnum_def)
  next
    case False
    from set_raw [OF p m fd False assms(4,5) ns] obtain m' where "SetField fd (VEnum (ev_number ev)) m = Some m'"
      "updated p strict fd [FScalar (VEnum (ev_number ev))] m m'" .
    then show thesis using that False assms ty by (auto simp: SetEnum_def)
  qed
qed

lemma set_value_ok:
  assumes p: "pool_ok p" and m: "message_ok p strict m" and fd: "known_field p (msg_type m) fd"
    and "\<not> is_repeated fd" "scalar_ok p fd v"
  obtains m' where "set_value p fd v m = Some m'" "updated p strict fd [FScalar v] m m'"
proof (cases "cpp_type fd = CPPTYPE_STRING")
  case True
  then obtain d where v: "v = VString d" using scalar_ok_type [OF assms(5)] by (cases v) auto
  from set_string_ok [OF p m fd assms(4) assms(5) [unfolded v]] show thesis
    using that by (auto simp: set_value_def v)
next
  case ns: False
  show thesis
  proof (cases "cpp_type fd = CPPTYPE_ENUM")
    case True
    then obtain n where v: "v = VEnum n" using scalar_ok_type [OF assms(5)] by (cases v) auto
    obtain ev where ev: "FindValueByNumber p (fd_enum_type fd) n = Some ev" "ev_number ev = n"
      "ev_type ev = fd_enum_type fd" by (rule scalar_ok_enum [OF assms(5) [unfolded v]])
    have sv: "scalar_ok p fd (VEnum (ev_number ev))" using assms(5) by (simp only: v ev(2))
    obtain m' where "SetEnum p fd ev m = Some m'" "updated p strict fd [FScalar (VEnum (ev_number ev))] m m'"
      by (rule set_enum_ok [OF p m fd assms(4) sv ev(3)])
    then show thesis by (intro that [of m']) (simp_all add: v ev(1,2) set_value_def)
  next
    case ne: False
    note [simp] = usage_checks [OF p m fd]
    note ty = scalar_ok_type [OF assms(5)]
    have sv: "set_value p fd v m = Reflection_Set (scalar_type v) p fd v m"
      using ns ne ty by (cases v) (auto simp: set_value_def)
    show thesis
    proof (cases "fd_is_extension fd")
      case True
      from set_extension [OF p m fd True assms(4,5) ns ty [symmetric]] obtain es es' where
        "msg_extensions m = Some es" "ExtensionSet_Set (scalar_type v) p (msg_type m) (fd_number fd) v es = Some es'"
        "updated p strict fd [FScalar v] m (with_extensions es' m)" by metis
      then show thesis using that True assms(4) ty by (auto simp: sv Reflection_Set_def on_extensions_def)
    next
      case False
      from set_raw [OF p m fd False assms(4,5) ns] obtain m' where "SetField fd v m = Some m'"
        "updated p strict fd [FScalar v] m m'" .
      then show thesis using that False assms(4) ty by (auto simp: sv Reflection_Set_def)
    qed
  qed
qed

section \<open>New messages\<close>

definition blank :: "pool \<Rightarrow> nat \<Rightarrow> mvalue" where
  "blank p t = Content t (replicate (d_field_count (pool_types p ! t)) []) [] []"

lemma descriptor_of_nth: "t < length (pool_types p) \<Longrightarrow> descriptor_of p t = Some (pool_types p ! t)"
  by (simp add: descriptor_of_def rd_def)

lemma new_slot_ok:
  assumes "field_ok p fd"
  obtains s where "new_slot fd = Some s" "slot_ok p strict fd s" "\<And>q. s \<noteq> MessagePtr (Some q)"
    "fst (slot_values s) \<or> snd (slot_values s) = []"
proof -
  consider "cpp_type fd = CPPTYPE_MESSAGE" | "cpp_type fd = CPPTYPE_STRING"
    | v where "cpp_type fd \<noteq> CPPTYPE_MESSAGE" "cpp_type fd \<noteq> CPPTYPE_STRING" "fd_default fd = Some v" "scalar_ok p fd v"
    using assms by (auto simp: field_ok_def split: if_splits)
  then show thesis
  proof cases
    case 1
    then show thesis using that [of "if is_repeated fd then MessagePtrs [] [] else MessagePtr None"]
      by (simp add: new_slot_def)
  next
    case 2
    then show thesis using that [of "if is_repeated fd then Scalars [] else StringPtr None"]
      by (simp add: new_slot_def)
  next
    case (3 v)
    then have "new_slot fd = Some (if is_repeated fd then Scalars [] else Scalar v)"
      by (cases "cpp_type fd") (simp_all add: new_slot_def default_value_def)
    with 3 show thesis by (intro that) (auto split: if_splits)
  qed
qed

lemma new_message:
  assumes p: "pool_ok p" and t: "t < length (pool_types p)"
  obtains n where "DynamicMessage p False t = Some n" "message_ok p strict n" "msg_type n = t" "content n = blank p t"
proof -
  let ?d = "pool_types p ! t"
  have d: "descriptor_of p t = Some ?d" by (rule descriptor_of_nth [OF t])
  note f = own_field(5) [OF p d]
  define slots where "slots = map (\<lambda>fd. the (new_slot fd)) (d_field_list ?d)"
  have each: "new_slot fd = Some (the (new_slot fd)) \<and> slot_ok p strict fd (the (new_slot fd)) \<and>
      (\<forall>q. the (new_slot fd) \<noteq> MessagePtr (Some q)) \<and>
      (fst (slot_values (the (new_slot fd))) \<or> snd (slot_values (the (new_slot fd))) = [])"
    if "fd \<in> set (d_field_list ?d)" for fd
    by (rule new_slot_ok [OF f [OF that], of strict]) simp
  have rest: "snd (slot_values (the (new_slot (d_field_list ?d ! i)))) = []"
    if "i < d_field_count ?d" "\<not> fst (slot_values (the (new_slot (d_field_list ?d ! i))))" for i
    using each [of "d_field_list ?d ! i"] that by (auto simp: d_field_count_def)
  have "option_map_list new_slot (d_field_list ?d) = Some slots"
    using each by (simp add: option_map_list_Some slots_def list_all2_map2 list.rel_refl_strong)
  moreover have n: "nat (DivideRoundingUp (int (d_field_count ?d)) 32) = (d_field_count ?d + 31) div 32"
    by (simp add: DivideRoundingUp_def nat_div_distrib nat_add_distrib)
  define h where "h = (replicate ((d_field_count ?d + 31) div 32) 0 :: uint32 list)"
  define exts where "exts = (if d_extension_ranges ?d \<noteq> [] then Some ([] :: (int \<times> extension) list) else None)"
  have nb: "\<not> has_bit h i" if "i < d_field_count ?d" for i
    unfolding h_def using that by (subst has_bit_blank) auto
  have l: "length slots = d_field_count ?d" by (simp add: slots_def d_field_count_def)
  have "message_ok p strict (Message t False h slots exts NoInternal 0)"
  proof (rule message_ok_slot_ok.message [OF d])
    show "list_all2 (slot_ok p strict) (d_field_list ?d) slots"
      using each by (simp add: slots_def list_all2_map2 list.rel_refl_strong)
    show "strict \<longrightarrow> (\<forall>i < length slots. has_bit h i \<or> (\<forall>q. slots ! i \<noteq> MessagePtr (Some q)))"
      using each by (auto simp: slots_def)
  qed (use nb l in \<open>auto simp: h_def exts_def\<close>)
  moreover have "own_values h (map slot_values slots) = replicate (d_field_count ?d) []"
    using nb rest by (intro nth_equalityI) (simp_all add: nth_own_values slots_def d_field_count_def)
  then have "content (Message t False h slots exts NoInternal 0) = blank p t"
    by (auto simp: blank_def exts_def present_def ufs_value.simps split: option.splits)
  ultimately show thesis
    using that [of "Message t False h slots exts NoInternal 0"] n
    by (simp add: DynamicMessage_def d h_def exts_def)
qed

lemma New_prototype:
  assumes "pool_ok p" "t < length (pool_types p)"
  obtains proto n where "GetPrototype p t = Some proto" "Message_New p proto = Some n"
    "message_ok p strict n" "msg_type n = t" "content n = blank p t"
proof -
  obtain n where n: "DynamicMessage p False t = Some n" "message_ok p strict n" "msg_type n = t" "content n = blank p t"
    using new_message [OF assms] by metis
  then obtain proto where "GetPrototype p t = Some proto" "msg_type proto = t"
    by (auto simp: GetPrototype_def DynamicMessage_def)
  with n that show thesis by (simp add: Message_New_def)
qed

section \<open>Embedded messages\<close>

lemma map_put_twice: "map_put k v (map_put k w xs) = map_put k v xs"
  by (induction k w xs rule: map_put.induct) auto

lemma element_last [simp]: "element (xs @ [x]) (int (length xs)) = Some x"
  by (simp add: element_def rd_def)

lemma MessagePtrs_Add_ok:
  assumes "pool_ok p" "fd_message_type fd < length (pool_types p)"
    and s: "slot_ok p strict fd (MessagePtrs ms cleared)"
  obtains sub cleared' where "MessagePtrs_Add p (fd_message_type fd) (MessagePtrs ms cleared) =
      Some (sub, MessagePtrs (ms @ [sub]) cleared')"
    "message_ok p strict sub" "msg_type sub = fd_message_type fd" "set cleared' \<subseteq> set cleared"
    "strict \<Longrightarrow> content sub = blank p (fd_message_type fd)"
proof (cases cleared)
  case Nil
  obtain proto n where "GetPrototype p (fd_message_type fd) = Some proto" "Message_New p proto = Some n"
    "message_ok p strict n" "msg_type n = fd_message_type fd" "content n = blank p (fd_message_type fd)"
    using New_prototype [OF assms(1,2)] by metis
  then show thesis using that Nil by simp
next
  case (Cons c cl)
  have "set cl \<subseteq> set cleared" by (auto simp: Cons)
  with Cons s show thesis by (intro that [of c cl]) auto
qed

lemma message_type:
  assumes p: "pool_ok p" and m: "message_ok p strict m" and fd: "known_field p (msg_type m) fd" and ty: "cpp_type fd = CPPTYPE_MESSAGE"
  shows "fd_message_type fd < length (pool_types p)"
  using known_field_facts(2) [OF p fd] ty by (simp add: field_ok_def)

lemma sub_message_own_repeated:
  assumes p: "pool_ok p" and m: "message_ok p strict m" and fd: "known_field p (msg_type m) fd" and ty: "cpp_type fd = CPPTYPE_MESSAGE"
    and "\<not> fd_is_extension fd" "is_repeated fd"
  obtains sub m1 where "sub_message p fd m = Some (sub, m1)" "message_ok p strict sub"
    "msg_type sub = fd_message_type fd" "strict \<Longrightarrow> content sub = blank p (fd_message_type fd)"
    "\<And>sub'. message_ok p strict sub' \<Longrightarrow> msg_type sub' = fd_message_type fd \<Longrightarrow>
      \<exists>m2. store_sub_message fd sub' m1 = Some m2 \<and>
        updated p strict fd (field_values fd (content m) @ [FMessage (content sub')]) m m2"
proof -
  obtain s where s: "GetRaw fd m = Some s" "slot_ok p strict fd s"
    "field_values fd (content m) = (if fst (slot_values s) \<and> \<not> has_bit (msg_has_bits m) (fd_index fd) then [] else snd (slot_values s))"
    using field_slot [OF p m fd assms(5)] by metis
  then obtain ms cleared where ms: "s = MessagePtrs ms cleared" using assms(6) ty by (cases s) auto
  obtain sub cl where sub: "MessagePtrs_Add p (fd_message_type fd) (MessagePtrs ms cleared) =
      Some (sub, MessagePtrs (ms @ [sub]) cl)"
    "message_ok p strict sub" "msg_type sub = fd_message_type fd" "set cl \<subseteq> set cleared"
    "strict \<Longrightarrow> content sub = blank p (fd_message_type fd)"
    using MessagePtrs_Add_ok [OF p message_type [OF p m fd ty] s(2) [unfolded ms]] by metis
  let ?m1 = "with_slots ((msg_slots m)[fd_index fd := MessagePtrs (ms @ [sub]) cl]) m"
  note uc = usage_checks [OF p m fd]
  have l: "fd_index fd < length (msg_slots m)" using s(1) by (auto simp: GetRaw_def rd_def split: if_splits)
  have 1: "sub_message p fd m = Some (sub, ?m1)"
    using assms s(1) ms sub(1) ty by (simp add: sub_message_def AddMessage_def uc store_raw_slot)
  have 2: "\<exists>m2. store_sub_message fd sub' ?m1 = Some m2 \<and>
      updated p strict fd (field_values fd (content m) @ [FMessage (content sub')]) m m2"
    if sub': "message_ok p strict sub'" "msg_type sub' = fd_message_type fd" for sub'
  proof (intro exI conjI)
    have "slot_ok p strict fd (MessagePtrs (ms @ [sub']) cl)"
      using s(2) sub(4) sub' assms(6) ty by (auto simp: ms)
    from put_raw [OF p m fd assms(5) this assms(6)] s(3)
    show "updated p strict fd (field_values fd (content m) @ [FMessage (content sub')]) m
        (with_slots ((msg_slots m)[fd_index fd := MessagePtrs (ms @ [sub']) cl]) m)"
      by (simp add: ms)
    show "store_sub_message fd sub' ?m1 =
        Some (with_slots ((msg_slots m)[fd_index fd := MessagePtrs (ms @ [sub']) cl]) m)"
      using assms l known_field_facts(1) [OF p fd]
      by (simp add: store_sub_message_def store_added_message_def FieldSize_def usage_check_message_type_def
          GetRaw_def rd_def store_repeated_message_def store_raw_def list_update_append)
  qed
  show thesis by (rule that [OF 1 sub(2,3,5) 2])
qed

lemma sub_message_own_singular:
  assumes p: "pool_ok p" and m: "message_ok p strict m" and fd: "known_field p (msg_type m) fd" and ty: "cpp_type fd = CPPTYPE_MESSAGE"
    and "\<not> fd_is_extension fd" "\<not> is_repeated fd"
  obtains sub m1 where "sub_message p fd m = Some (sub, m1)" "message_ok p strict sub"
    "msg_type sub = fd_message_type fd"
    "strict \<Longrightarrow> field_values fd (content m) = [] \<Longrightarrow> content sub = blank p (fd_message_type fd)"
    "\<And>c. field_values fd (content m) = [FMessage c] \<Longrightarrow> content sub = c"
    "\<And>sub'. message_ok p strict sub' \<Longrightarrow> msg_type sub' = fd_message_type fd \<Longrightarrow>
      \<exists>m2. store_sub_message fd sub' m1 = Some m2 \<and> updated p strict fd [FMessage (content sub')] m m2"
proof -
  obtain s where s: "GetRaw fd m = Some s" "slot_ok p strict fd s"
    "HasBit fd m = Some (has_bit (msg_has_bits m) (fd_index fd))"
    "field_values fd (content m) = (if fst (slot_values s) \<and> \<not> has_bit (msg_has_bits m) (fd_index fd) then [] else snd (slot_values s))"
    "\<And>q. strict \<Longrightarrow> \<not> has_bit (msg_has_bits m) (fd_index fd) \<Longrightarrow> s \<noteq> MessagePtr (Some q)"
    using field_slot [OF p m fd assms(5)] by metis
  obtain h where h: "SetBit fd m = Some (with_has_bits h m)" "length h = length (msg_has_bits m)"
    "\<And>j. has_bit h j = (j = fd_index fd \<or> has_bit (msg_has_bits m) j)"
    using SetBit_slot [OF s(3)] by metis
  obtain q where q: "s = MessagePtr q" using s(2) assms(6) ty by (cases s) (auto dest: scalar_ok_not_message)
  note uc = usage_checks [OF p m fd]
  have l: "fd_index fd < length (msg_slots m)" using s(1) by (auto simp: GetRaw_def rd_def split: if_splits)
  obtain proto n where n: "GetPrototype p (fd_message_type fd) = Some proto" "Message_New p proto = Some n"
    "message_ok p strict n" "msg_type n = fd_message_type fd" "content n = blank p (fd_message_type fd)"
    using New_prototype [OF p message_type [OF p m fd ty]] by metis
  define sub where "sub = (case q of None \<Rightarrow> n | Some sub \<Rightarrow> sub)"
  let ?m1 = "with_slots ((msg_slots m)[fd_index fd := MessagePtr (Some sub)]) (with_has_bits h m)"
  have sub: "message_ok p strict sub" "msg_type sub = fd_message_type fd"
    "strict \<Longrightarrow> field_values fd (content m) = [] \<Longrightarrow> content sub = blank p (fd_message_type fd)"
    "field_values fd (content m) = [FMessage c] \<Longrightarrow> content sub = c" for c
    using s(2,4,5) n(3-5) by (auto simp: sub_def q split: option.splits if_splits)
  have g: "GetRaw fd (with_has_bits h m) = Some (MessagePtr q)" using s(1) q by (simp add: GetRaw_def)
  have same: "with_slots ((msg_slots m)[fd_index fd := MessagePtr q]) (with_has_bits h m) = with_has_bits h m"
  proof -
    have "(msg_slots m)[fd_index fd := MessagePtr q] = msg_slots (with_has_bits h m)"
      using s(1) q by (auto simp: GetRaw_def rd_def split: if_splits) (metis list_update_id)
    then show ?thesis by (simp only: with_own)
  qed
  have 1: "sub_message p fd m = Some (sub, ?m1)"
    using assms ty h(1) g n(1,2) same
    by (cases q) (simp_all add: sub_message_def MutableMessage_def uc store_raw_slot [OF g] sub_def)
  have 2: "\<exists>m2. store_sub_message fd sub' ?m1 = Some m2 \<and> updated p strict fd [FMessage (content sub')] m m2"
    if sub': "message_ok p strict sub'" "msg_type sub' = fd_message_type fd" for sub'
  proof (intro exI conjI)
    have "slot_ok p strict fd (MessagePtr (Some sub'))" using sub' assms(6) ty by simp
    from put_raw_set [OF p m fd assms(5) this assms(6) _ h(2,3)]
    show "updated p strict fd [FMessage (content sub')] m
        (with_slots ((msg_slots m)[fd_index fd := MessagePtr (Some sub')]) (with_has_bits h m))" by simp
    show "store_sub_message fd sub' ?m1 =
        Some (with_slots ((msg_slots m)[fd_index fd := MessagePtr (Some sub')]) (with_has_bits h m))"
      using assms l by (simp add: store_sub_message_def store_message_def store_raw_def rd_def)
  qed
  show thesis by (rule that [OF 1 sub 2])
qed

lemma sub_message_ext_repeated:
  assumes p: "pool_ok p" and m: "message_ok p strict m" and fd: "known_field p (msg_type m) fd" and ty: "cpp_type fd = CPPTYPE_MESSAGE"
    and "fd_is_extension fd" "is_repeated fd"
  obtains sub m1 where "sub_message p fd m = Some (sub, m1)" "message_ok p strict sub"
    "msg_type sub = fd_message_type fd" "strict \<Longrightarrow> content sub = blank p (fd_message_type fd)"
    "\<And>sub'. message_ok p strict sub' \<Longrightarrow> msg_type sub' = fd_message_type fd \<Longrightarrow>
      \<exists>m2. store_sub_message fd sub' m1 = Some m2 \<and>
        updated p strict fd (field_values fd (content m) @ [FMessage (content sub')]) m m2"
proof -
  obtain es d where es: "msg_extensions m = Some es" "descriptor_of p (msg_type m) = Some d"
    "FindExtensionByNumber p (msg_type m) (fd_number fd) = Some fd"
    "field_values fd (content m) = (case map_of es (fd_number fd) of None \<Rightarrow> [] | Some e \<Rightarrow> ext_values e)"
    "\<And>e. map_of es (fd_number fd) = Some e \<Longrightarrow> ext_descriptor e = fd \<and> \<not> null_slot (ext_value e) \<and>
      slot_ok p strict fd (ext_value e) \<and> (strict \<longrightarrow> \<not> ext_is_cleared e)"
    using field_extensions [OF p m fd assms(5)] by metis
  obtain t pr h slots exts u c where M: "m = Message t pr h slots exts u c" by (cases m)
  have so: "sorted_wrt (<) (map fst es)"
    using message_okD(7) [OF m [unfolded M]] es(1,2) by (simp add: M)
  have l: "fd_label fd = LABEL_REPEATED" using assms(6) by (simp add: is_repeated_def)
  define e0 where "e0 = (case map_of es (fd_number fd) of None \<Rightarrow> Extension fd (MessagePtrs [] []) False | Some e \<Rightarrow> e)"
  have e0: "ext_descriptor e0 = fd" "slot_ok p strict fd (ext_value e0)" "strict \<Longrightarrow> \<not> ext_is_cleared e0"
    "field_values fd (content m) = ext_values e0"
    using es(4,5) assms(6) ty by (auto simp: e0_def split: option.splits)
  then obtain ms cleared cl0 where ms: "e0 = Extension fd (MessagePtrs ms cleared) cl0"
    using assms(6) ty by (cases e0; cases "ext_value e0") (auto dest: scalar_ok_not_message)
  obtain sub cl where sub: "MessagePtrs_Add p (fd_message_type fd) (MessagePtrs ms cleared) =
      Some (sub, MessagePtrs (ms @ [sub]) cl)"
    "message_ok p strict sub" "msg_type sub = fd_message_type fd" "set cl \<subseteq> set cleared"
    "strict \<Longrightarrow> content sub = blank p (fd_message_type fd)"
    using MessagePtrs_Add_ok [OF p message_type [OF p m fd ty], of strict ms cleared] e0(2) by (auto simp: ms)
  let ?e = "\<lambda>sub. map_put (fd_number fd) (Extension fd (MessagePtrs (ms @ [sub]) cl) cl0) es"
  note uc = usage_checks [OF p m fd]
  have "ExtensionSet_AddMessage p (msg_type m) (fd_number fd) es = Some (sub, ?e sub)"
    using es(3,5) ms sub(1) l ty
    by (auto simp: ExtensionSet_AddMessage_def FindKnownExtensionOrDie_def dcheck_type_def e0_def split: option.splits)
  then have 1: "sub_message p fd m = Some (sub, with_extensions (?e sub) m)"
    using assms es(1) ty by (simp add: sub_message_def AddMessage_def uc)
  have 2: "\<exists>m2. store_sub_message fd sub' (with_extensions (?e sub) m) = Some m2 \<and>
      updated p strict fd (field_values fd (content m) @ [FMessage (content sub')]) m m2"
    if sub': "message_ok p strict sub'" "msg_type sub' = fd_message_type fd" for sub'
  proof (intro exI conjI)
    have "slot_ok p strict fd (MessagePtrs (ms @ [sub']) cl)"
      using e0(2) sub(4) sub' assms(6) ty by (auto simp: ms)
    from put_extension [OF p m fd assms(5) es(1) this, of cl0] e0(3,4)
    show "updated p strict fd (field_values fd (content m) @ [FMessage (content sub')]) m (with_extensions (?e sub') m)"
      by (simp add: ms)
    have w: "with_extensions a (with_extensions b m) = with_extensions a m" for a b by (cases m) simp
    show "store_sub_message fd sub' (with_extensions (?e sub) m) = Some (with_extensions (?e sub') m)"
      using assms so known_field_facts(1) [OF p fd]
      by (simp add: store_sub_message_def store_added_message_def FieldSize_def usage_check_message_type_def
          ExtensionSet_ExtensionSize_def Extension_GetSize_def store_repeated_message_def on_extensions_def
          store_extension_def map_put_twice list_update_append w)
  qed
  show thesis by (rule that [OF 1 sub(2,3,5) 2])
qed

lemma sub_message_ext_singular:
  assumes p: "pool_ok p" and m: "message_ok p strict m" and fd: "known_field p (msg_type m) fd" and ty: "cpp_type fd = CPPTYPE_MESSAGE"
    and "fd_is_extension fd" "\<not> is_repeated fd"
  obtains sub m1 where "sub_message p fd m = Some (sub, m1)" "message_ok p strict sub"
    "msg_type sub = fd_message_type fd"
    "strict \<Longrightarrow> field_values fd (content m) = [] \<Longrightarrow> content sub = blank p (fd_message_type fd)"
    "\<And>c. field_values fd (content m) = [FMessage c] \<Longrightarrow> content sub = c"
    "\<And>sub'. message_ok p strict sub' \<Longrightarrow> msg_type sub' = fd_message_type fd \<Longrightarrow>
      \<exists>m2. store_sub_message fd sub' m1 = Some m2 \<and> updated p strict fd [FMessage (content sub')] m m2"
proof -
  obtain es d where es: "msg_extensions m = Some es" "descriptor_of p (msg_type m) = Some d"
    "FindExtensionByNumber p (msg_type m) (fd_number fd) = Some fd" "\<not> is_required fd"
    "field_values fd (content m) = (case map_of es (fd_number fd) of None \<Rightarrow> [] | Some e \<Rightarrow> ext_values e)"
    "\<And>e. map_of es (fd_number fd) = Some e \<Longrightarrow> ext_descriptor e = fd \<and> \<not> null_slot (ext_value e) \<and>
      slot_ok p strict fd (ext_value e) \<and> (strict \<longrightarrow> \<not> ext_is_cleared e)"
    using field_extensions [OF p m fd assms(5)] by metis
  obtain t pr h slots exts u c where M: "m = Message t pr h slots exts u c" by (cases m)
  have so: "sorted_wrt (<) (map fst es)"
    using message_okD(7) [OF m [unfolded M]] es(1,2) by (simp add: M)
  have l: "fd_label fd = LABEL_OPTIONAL" by (rule is_repeated_label [OF assms(6) es(4)])
  obtain proto n where n: "GetPrototype p (fd_message_type fd) = Some proto" "Message_New p proto = Some n"
    "message_ok p strict n" "msg_type n = fd_message_type fd" "content n = blank p (fd_message_type fd)"
    using New_prototype [OF p message_type [OF p m fd ty]] by metis
  have old: "\<exists>q cl. e = Extension fd (MessagePtr (Some q)) cl \<and> message_ok p strict q \<and>
      msg_type q = fd_message_type fd \<and> (strict \<longrightarrow> \<not> cl)" if "map_of es (fd_number fd) = Some e" for e
    using es(6) [OF that] assms(6) ty
    by (cases e; cases "ext_value e") (auto dest: scalar_ok_not_message elim: null_slot.elims)
  obtain sub where sub: "ExtensionSet_MutableMessage p (msg_type m) (fd_number fd) es =
      Some (sub, map_put (fd_number fd) (Extension fd (MessagePtr (Some sub)) False) es)"
    "message_ok p strict sub" "msg_type sub = fd_message_type fd"
    "strict \<Longrightarrow> field_values fd (content m) = [] \<Longrightarrow> content sub = blank p (fd_message_type fd)"
    "\<And>c. field_values fd (content m) = [FMessage c] \<Longrightarrow> content sub = c"
  proof (cases "map_of es (fd_number fd)")
    case None
    with that [of n] n es(3,5) l ty show thesis
      by (simp add: ExtensionSet_MutableMessage_def FindKnownExtensionOrDie_def dcheck_type_def)
  next
    case (Some e)
    from old [OF Some] obtain q cl where q: "e = Extension fd (MessagePtr (Some q)) cl" "message_ok p strict q"
      "msg_type q = fd_message_type fd" "strict \<longrightarrow> \<not> cl" by blast
    have v: "field_values fd (content m) = (if cl then [] else [FMessage (content q)])"
      using Some by (simp add: es(5) q(1))
    have mm: "ExtensionSet_MutableMessage p (msg_type m) (fd_number fd) es =
        Some (q, map_put (fd_number fd) (Extension fd (MessagePtr (Some q)) False) es)"
      using Some l ty by (simp add: ExtensionSet_MutableMessage_def dcheck_type_def q(1))
    show thesis
    proof (rule that [OF mm q(2,3)])
      show "content q = blank p (fd_message_type fd)" if strict "field_values fd (content m) = []"
        using that q(4) v by simp
      show "content q = c" if "field_values fd (content m) = [FMessage c]" for c
        using that v by (cases cl) simp_all
    qed
  qed
  let ?e = "\<lambda>sub. map_put (fd_number fd) (Extension fd (MessagePtr (Some sub)) False) es"
  note uc = usage_checks [OF p m fd]
  have 1: "sub_message p fd m = Some (sub, with_extensions (?e sub) m)"
    using assms es(1) ty sub(1) by (simp add: sub_message_def MutableMessage_def uc)
  have 2: "\<exists>m2. store_sub_message fd sub' (with_extensions (?e sub) m) = Some m2 \<and>
      updated p strict fd [FMessage (content sub')] m m2"
    if sub': "message_ok p strict sub'" "msg_type sub' = fd_message_type fd" for sub'
  proof (intro exI conjI)
    have "slot_ok p strict fd (MessagePtr (Some sub'))" using sub' assms(6) ty by simp
    from put_extension [OF p m fd assms(5) es(1) this, of False]
    show "updated p strict fd [FMessage (content sub')] m (with_extensions (?e sub') m)" by simp
    have w: "with_extensions a (with_extensions b m) = with_extensions a m" for a b by (cases m) simp
    show "store_sub_message fd sub' (with_extensions (?e sub) m) = Some (with_extensions (?e sub') m)"
      using assms so
      by (simp add: store_sub_message_def store_message_def on_extensions_def store_extension_def map_put_twice w)
  qed
  show thesis by (rule that [OF 1 sub(2-5) 2])
qed

lemma sub_message_ok:
  assumes p: "pool_ok p" and m: "message_ok p strict m" and fd: "known_field p (msg_type m) fd" and ty: "cpp_type fd = CPPTYPE_MESSAGE"
  obtains sub m1 where "sub_message p fd m = Some (sub, m1)" "message_ok p strict sub"
    "msg_type sub = fd_message_type fd"
    "strict \<Longrightarrow> is_repeated fd \<or> field_values fd (content m) = [] \<Longrightarrow> content sub = blank p (fd_message_type fd)"
    "\<And>c. \<not> is_repeated fd \<Longrightarrow> field_values fd (content m) = [FMessage c] \<Longrightarrow> content sub = c"
    "\<And>sub'. message_ok p strict sub' \<Longrightarrow> msg_type sub' = fd_message_type fd \<Longrightarrow>
      \<exists>m2. store_sub_message fd sub' m1 = Some m2 \<and> updated p strict fd
        ((if is_repeated fd then field_values fd (content m) else []) @ [FMessage (content sub')]) m m2"
proof (cases "is_repeated fd")
  case True
  show thesis
    by (cases "fd_is_extension fd"; rule sub_message_ext_repeated [OF p m fd ty _ True] sub_message_own_repeated [OF p m fd ty _ True];
        (assumption | rule that; simp add: True))
next
  case False
  show thesis
    by (cases "fd_is_extension fd"; rule sub_message_ext_singular [OF p m fd ty _ False] sub_message_own_singular [OF p m fd ty _ False];
        (assumption | rule that; simp add: False))
qed

lemma stored_message:
  assumes "pool_ok p" "message_ok p strict m" "known_field p (msg_type m) fd" "cpp_type fd = CPPTYPE_MESSAGE"
    and s: "message_ok p strict s" "msg_type s = fd_message_type fd"
  obtains m2 where "updated p strict fd
    ((if is_repeated fd then field_values fd (content m) else []) @ [FMessage (content s)]) m m2"
proof (rule sub_message_ok [OF assms(1-4)])
  fix sub m1
  assume "\<And>sub'. message_ok p strict sub' \<Longrightarrow> msg_type sub' = fd_message_type fd \<Longrightarrow>
      \<exists>m2. store_sub_message fd sub' m1 = Some m2 \<and> updated p strict fd
        ((if is_repeated fd then field_values fd (content m) else []) @ [FMessage (content sub')]) m m2"
  from this [OF s] that show thesis by blast
qed

section \<open>Reading values\<close>

lemma singular_length:
  "slot_ok p strict fd s \<Longrightarrow> \<not> is_repeated fd \<Longrightarrow> \<not> null_slot s \<Longrightarrow> length (snd (slot_values s)) = 1"
  by (cases s) (auto split: option.splits elim: null_slot.elims)

lemma field_count_ok:
  assumes p: "pool_ok p" and m: "message_ok p strict m" and fd: "known_field p (msg_type m) fd"
  shows "field_count fd m = Some (int (length (field_values fd (content m))))"
proof (cases "fd_is_extension fd")
  case True
  obtain es d where es: "msg_extensions m = Some es"
    "field_values fd (content m) = (case map_of es (fd_number fd) of None \<Rightarrow> [] | Some e \<Rightarrow> ext_values e)"
    "\<And>e. map_of es (fd_number fd) = Some e \<Longrightarrow> ext_descriptor e = fd \<and> \<not> null_slot (ext_value e) \<and>
      slot_ok p strict fd (ext_value e) \<and> (strict \<longrightarrow> \<not> ext_is_cleared e)"
    using field_extensions [OF p m fd True] by metis
  show ?thesis
  proof (cases "map_of es (fd_number fd)")
    case None
    with es True show ?thesis
      by (simp add: field_count_def FieldSize_def HasField_def usage_checks [OF p m fd] ExtensionSet_Has_def
          ExtensionSet_ExtensionSize_def)
  next
    case (Some e)
    from es(3) [OF Some] have e: "ext_descriptor e = fd" "\<not> null_slot (ext_value e)" "slot_ok p strict fd (ext_value e)"
      by simp_all
    show ?thesis
    proof (cases "is_repeated fd")
      case r: True
      from e(3) r obtain n where "slot_size (ext_value e) = Some (int (length (snd (slot_values (ext_value e)))))"
        "\<not> fst (slot_values (ext_value e))" by (cases "ext_value e") auto
      with r e(1) Some es(1,2) True show ?thesis
        by (cases e) (simp add: field_count_def FieldSize_def usage_checks [OF p m fd]
            ExtensionSet_ExtensionSize_def Extension_GetSize_def)
    next
      case r: False
      from singular_length [OF e(3) r e(2)] singular_ext_values [OF e(3) r] r e(1) Some es(1,2) True
      show ?thesis
        by (cases e) (simp add: field_count_def HasField_def usage_checks [OF p m fd] ExtensionSet_Has_def)
    qed
  qed
next
  case False
  obtain s where s: "GetRaw fd m = Some s" "slot_ok p strict fd s"
    "HasBit fd m = Some (has_bit (msg_has_bits m) (fd_index fd))"
    "field_values fd (content m) = (if fst (slot_values s) \<and> \<not> has_bit (msg_has_bits m) (fd_index fd) then [] else snd (slot_values s))"
    "has_bit (msg_has_bits m) (fd_index fd) \<Longrightarrow> \<not> null_slot s"
    using field_slot [OF p m fd False] by metis
  show ?thesis
  proof (cases "is_repeated fd")
    case r: True
    from s(2) r have "slot_size s = Some (int (length (snd (slot_values s))))" "\<not> fst (slot_values s)"
      by (cases s; auto)+
    with r False s(1,4) show ?thesis
      by (simp add: field_count_def FieldSize_def usage_checks [OF p m fd])
  next
    case r: False
    show ?thesis
      using r False s singular_length [OF s(2) r] singular_ext_values [OF s(2) r]
      by (cases "has_bit (msg_has_bits m) (fd_index fd)")
        (simp_all add: field_count_def HasField_def usage_checks [OF p m fd])
  qed
qed

lemma value_slot:
  assumes p: "pool_ok p" and m: "message_ok p strict m" and fd: "known_field p (msg_type m) fd"
    and "field_values fd (content m) \<noteq> []"
  obtains s where "slot_ok p strict fd s" "field_values fd (content m) = snd (slot_values s)" "\<not> null_slot s"
    "\<not> fd_is_extension fd \<Longrightarrow> GetRaw fd m = Some s"
    "fd_is_extension fd \<Longrightarrow> \<exists>es e. msg_extensions m = Some es \<and> map_of es (fd_number fd) = Some e \<and>
      ext_value e = s \<and> ext_descriptor e = fd \<and> \<not> is_required fd"
proof (cases "fd_is_extension fd")
  case True
  obtain es d where es: "msg_extensions m = Some es" "\<not> is_required fd"
    "field_values fd (content m) = (case map_of es (fd_number fd) of None \<Rightarrow> [] | Some e \<Rightarrow> ext_values e)"
    "\<And>e. map_of es (fd_number fd) = Some e \<Longrightarrow> ext_descriptor e = fd \<and> \<not> null_slot (ext_value e) \<and>
      slot_ok p strict fd (ext_value e) \<and> (strict \<longrightarrow> \<not> ext_is_cleared e)"
    using field_extensions [OF p m fd True] by metis
  then obtain e where e: "map_of es (fd_number fd) = Some e" using assms by (auto split: option.splits)
  have "ext_values e = snd (slot_values (ext_value e))" using assms es(3) e by (cases e) (auto split: if_splits)
  with that [of "ext_value e"] es e True show thesis by auto
next
  case False
  obtain s where s: "GetRaw fd m = Some s" "slot_ok p strict fd s"
    "field_values fd (content m) = (if fst (slot_values s) \<and> \<not> has_bit (msg_has_bits m) (fd_index fd) then [] else snd (slot_values s))"
    "has_bit (msg_has_bits m) (fd_index fd) \<Longrightarrow> \<not> null_slot s"
    using field_slot [OF p m fd False] by metis
  have "\<not> null_slot s" using s(3,4) assms by (cases s) (auto split: if_splits)
  with that [of s] s assms False show thesis by (auto split: if_splits)
qed

lemma values_ok:
  assumes p: "pool_ok p" and m: "message_ok p strict m" and fd: "known_field p (msg_type m) fd"
    and "v \<in> set (field_values fd (content m))"
  shows "(\<exists>x. v = FScalar x \<and> scalar_ok p fd x) \<or>
    (\<exists>sub. v = FMessage (content sub) \<and> message_ok p strict sub \<and> msg_type sub = fd_message_type fd \<and>
      cpp_type fd = CPPTYPE_MESSAGE)"
proof -
  have "field_values fd (content m) \<noteq> []" using assms by auto
  then obtain s where "slot_ok p strict fd s" "field_values fd (content m) = snd (slot_values s)" "\<not> null_slot s"
    using value_slot [OF p m fd] by metis
  with assms show ?thesis by (cases s) (auto split: option.splits)
qed

lemma singular_index:
  assumes p: "pool_ok p" and m: "message_ok p strict m" and fd: "known_field p (msg_type m) fd"
    and "\<not> is_repeated fd" "j < length (field_values fd (content m))"
  shows "j = 0" "field_values fd (content m) = [field_values fd (content m) ! j]"
proof -
  have "field_values fd (content m) \<noteq> []" using assms by auto
  then obtain s where "slot_ok p strict fd s" "field_values fd (content m) = snd (slot_values s)" "\<not> null_slot s"
    using value_slot [OF p m fd] by metis
  with singular_length [OF this(1) assms(4)] have 1: "length (field_values fd (content m)) = 1" by simp
  then show "j = 0" using assms by simp
  with 1 show "field_values fd (content m) = [field_values fd (content m) ! j]"
    by (cases "field_values fd (content m)") auto
qed

lemma element_nth:
  "j < length xs \<Longrightarrow> element xs (int j) = Some (xs ! j)"
  by (simp add: element_def rd_def)

lemma get_scalar:
  assumes p: "pool_ok p" and m: "message_ok p strict m" and fd: "known_field p (msg_type m) fd"
    and j: "j < length (field_values fd (content m))" "field_values fd (content m) ! j = FScalar v"
  shows "cpp_type fd \<noteq> CPPTYPE_STRING \<Longrightarrow> get_value p fd (int j) m = Some v"
    and "cpp_type fd = CPPTYPE_STRING \<Longrightarrow> get_string p fd (int j) m = Some v"
proof -
  have ne: "field_values fd (content m) \<noteq> []" using j by auto
  obtain s where s: "slot_ok p strict fd s" "field_values fd (content m) = snd (slot_values s)" "\<not> null_slot s"
    "\<not> fd_is_extension fd \<Longrightarrow> GetRaw fd m = Some s"
    "fd_is_extension fd \<Longrightarrow> \<exists>es e. msg_extensions m = Some es \<and> map_of es (fd_number fd) = Some e \<and>
      ext_value e = s \<and> ext_descriptor e = fd \<and> \<not> is_required fd"
    using value_slot [OF p m fd ne] by metis
  note uc = usage_checks [OF p m fd]
  have "is_repeated fd \<Longrightarrow> \<exists>vs. s = Scalars vs \<and> j < length vs \<and> vs ! j = v"
    using s(1,2) j by (cases s) auto
  moreover have "\<not> is_repeated fd \<Longrightarrow> cpp_type fd \<noteq> CPPTYPE_STRING \<Longrightarrow> s = Scalar v \<and> scalar_type v = cpp_type fd"
    using s(1,2) j scalar_ok_type by (cases s) (auto split: option.splits)
  moreover have "\<not> is_repeated fd \<Longrightarrow> cpp_type fd = CPPTYPE_STRING \<Longrightarrow> \<exists>d. s = StringPtr (Some d) \<and> v = VString d"
    using s(1,2) j by (cases s) (auto split: option.splits dest: scalar_ok_not_message)
  moreover have "\<not> is_repeated fd \<Longrightarrow> \<not> is_required fd \<Longrightarrow> fd_label fd = LABEL_OPTIONAL"
    "is_repeated fd \<Longrightarrow> fd_label fd = LABEL_REPEATED"
    by (rule is_repeated_label) (simp_all add: is_repeated_def)
  ultimately show "cpp_type fd \<noteq> CPPTYPE_STRING \<Longrightarrow> get_value p fd (int j) m = Some v"
    "cpp_type fd = CPPTYPE_STRING \<Longrightarrow> get_string p fd (int j) m = Some v"
    using s(4,5)
    by (cases "is_repeated fd"; cases "fd_is_extension fd";
        force simp: get_value_def get_string_def Reflection_Get_def Reflection_GetRepeated_def GetRepeatedString_def
          GetStringReference_def uc GetRepeatedField_def ExtensionSet_Get_def ExtensionSet_GetRepeated_def
          ExtensionSet_GetString_def dcheck_type_def element_nth)+
qed

lemma get_message_ok:
  assumes p: "pool_ok p" and m: "message_ok p strict m" and fd: "known_field p (msg_type m) fd"
    and j: "j < length (field_values fd (content m))" "field_values fd (content m) ! j = FMessage c"
  obtains sub where "get_message p fd (int j) m = Some sub" "content sub = c" "message_ok p strict sub"
    "msg_type sub = fd_message_type fd"
proof -
  have ne: "field_values fd (content m) \<noteq> []" using j by auto
  obtain s where s: "slot_ok p strict fd s" "field_values fd (content m) = snd (slot_values s)" "\<not> null_slot s"
    "\<not> fd_is_extension fd \<Longrightarrow> GetRaw fd m = Some s"
    "fd_is_extension fd \<Longrightarrow> \<exists>es e. msg_extensions m = Some es \<and> map_of es (fd_number fd) = Some e \<and>
      ext_value e = s \<and> ext_descriptor e = fd \<and> \<not> is_required fd"
    using value_slot [OF p m fd ne] by metis
  note uc = usage_checks [OF p m fd]
  note gm = get_message_def GetMessage_def GetRepeatedMessage_def uc ExtensionSet_GetMessage_def
    ExtensionSet_GetRepeatedMessage_def dcheck_type_def element_nth
  show thesis
  proof (cases "is_repeated fd")
    case True
    with s(1,2) j obtain ms cl where ms: "s = MessagePtrs ms cl" "j < length ms" "c = content (ms ! j)"
      "cpp_type fd = CPPTYPE_MESSAGE" "message_ok p strict (ms ! j)" "msg_type (ms ! j) = fd_message_type fd"
      by (cases s) auto
    have "get_message p fd (int j) m = Some (ms ! j)"
      using s(4,5) ms True by (cases "fd_is_extension fd") (force simp: gm is_repeated_def)+
    then show thesis using that ms by simp
  next
    case False
    with s(1,2) j obtain sub where ms: "s = MessagePtr (Some sub)" "c = content sub"
      "cpp_type fd = CPPTYPE_MESSAGE" "message_ok p strict sub" "msg_type sub = fd_message_type fd"
      by (cases s) (auto split: option.splits)
    have "\<not> is_required fd \<Longrightarrow> fd_label fd = LABEL_OPTIONAL" by (rule is_repeated_label [OF False])
    then have "get_message p fd (int j) m = Some sub"
      using s(4,5) ms False by (cases "fd_is_extension fd") (force simp: gm)+
    then show thesis using that ms by simp
  qed
qed


end
