(* ===== verification/MessageFields.thy ===== *)
theory MessageFields
  imports MessageAccess
begin

text \<open>
  Contents as records of field values: the fields that are set, in the order of their numbers, are what
  \<open>ListFields\<close> returns, and a content is determined by its values.
\<close>

section \<open>Reading and writing the values of a content\<close>

text \<open>A content of a type: a list of values for each field, and extensions with values in the order of their numbers.\<close>

definition c_shape :: "pool \<Rightarrow> mvalue \<Rightarrow> bool" where
  "c_shape p c \<longleftrightarrow> c_type c < length (pool_types p) \<and>
     length (c_own c) = d_field_count (pool_types p ! c_type c) \<and> sorted_wrt (<) (map fst (c_ext c)) \<and>
     (\<forall>(k, vs) \<in> set (c_ext c). vs \<noteq> [] \<and> FindExtensionByNumber p (c_type c) k \<noteq> None)"

lemma c_type_content [simp]: "c_type (content m) = msg_type m"
  by (cases m) simp

lemma c_unknown_content [simp]: "c_unknown (content m) = ufs_value (msg_unknown_fields m)"
  by (cases m) simp

lemma descriptor_of_Some: "descriptor_of p t = Some d \<longleftrightarrow> t < length (pool_types p) \<and> d = pool_types p ! t"
  by (auto simp: descriptor_of_def rd_def)

lemma sorted_filter_fst: "sorted_wrt (<) (map fst xs) \<Longrightarrow> sorted_wrt (<) (map fst (filter P xs))" for xs :: "(int \<times> 'a) list"
  by (induction xs) auto

lemma content_shape:
  assumes "message_ok p strict m"
  shows "c_shape p (content m)"
proof -
  obtain t pr h slots exts u c where M: "m = Message t pr h slots exts u c" by (cases m)
  obtain d where d: "descriptor_of p t = Some d" using message_ok_descriptor [OF assms] by (auto simp: M)
  note E = message_okD [OF assms [unfolded M] d]
  have "length slots = length (d_field_list d)" using E(3) by (simp add: list_all2_lengthD)
  moreover have "FindExtensionByNumber p t k \<noteq> None" if "exts = Some es" "(k, e) \<in> set es" for es k e
    using E(7) that by fastforce
  ultimately show ?thesis
    using d E(7)
    by (auto simp: M c_shape_def descriptor_of_Some d_field_count_def present_def comp_def
        intro!: sorted_filter_fst split: option.splits)
qed

lemma field_values_set_same:
  assumes "c_shape p c" "known_field p (c_type c) fd" "pool_ok p"
  shows "field_values fd (set_values fd vs c) = vs"
proof (cases c)
  case (Content t own ext u)
  show ?thesis
  proof (cases rule: known_field_cases [OF assms(3,2), case_names own ext])
    case (own d)
    with own_field(3) [OF assms(3) own(1,2)] assms(1) show ?thesis
      by (auto simp: Content c_shape_def descriptor_of_Some)
  qed (use assms(1) in \<open>simp add: Content c_shape_def\<close>)
qed

lemma same_field:
  assumes p: "pool_ok p" and fd: "known_field p t fd" "known_field p t fd'" and k: "fd_number fd = fd_number fd'"
  shows "fd = fd'"
proof -
  have own_ext: False if "descriptor_of p t = Some d" "a \<in> set (d_field_list d)"
    "b \<in> set (pool_extensions p)" "fd_containing_type b = t" "fd_number a = fd_number b" for a b d
    using that own_field(7) [OF p that(1,2)] ext_field(5) [OF p that(3)] by auto
  show ?thesis
  proof (cases rule: known_field_cases [OF p fd(1), case_names own ext])
    case 1: (own d)
    show ?thesis
    proof (cases rule: known_field_cases [OF p fd(2), case_names own ext])
      case (own d')
      from own have "d' = d" using 1(1) by simp
      with own_field(6) [OF p 1(1,2)] own_field(6) [OF p own(1,2)] k show ?thesis by (metis option.inject)
    next
      case (ext d')
      from known_field_facts(1) [OF p fd(2)] own_ext [OF 1(1,2) ext(1) _ k] show ?thesis by blast
    qed
  next
    case 1: (ext d)
    show ?thesis
    proof (cases rule: known_field_cases [OF p fd(2), case_names own ext])
      case (own d')
      from known_field_facts(1) [OF p fd(1)] own_ext [OF own(1,2) 1(1) _ k [symmetric]] show ?thesis by blast
    next
      case (ext d')
      from 1(5) ext(5) k show ?thesis by (metis option.inject)
    qed
  qed
qed

lemma field_values_set_other:
  assumes "c_shape p c" "known_field p (c_type c) fd" "known_field p (c_type c) fd'" "pool_ok p" "fd \<noteq> fd'"
  shows "field_values fd' (set_values fd vs c) = field_values fd' c"
proof (cases c)
  case (Content t own ext u)
  have n: "fd_number fd \<noteq> fd_number fd'" using same_field [OF assms(4,2,3)] assms(5) by blast
  show ?thesis
  proof (cases "fd_is_extension fd")
    case True
    then show ?thesis using assms(1) n by (cases "fd_is_extension fd'") (auto simp: Content c_shape_def)
  next
    case False
    show ?thesis
    proof (cases "fd_is_extension fd'")
      case f: False
      obtain d where d: "descriptor_of p t = Some d" "fd \<in> set (d_field_list d)" "fd' \<in> set (d_field_list d)"
        using assms(2,3) False f ext_field(1) [OF assms(4)] by (auto simp: known_field_def Content)
      have "fd_index fd \<noteq> fd_index fd'"
        using own_field(4) [OF assms(4) d(1,2)] own_field(4) [OF assms(4) d(1,3)] assms(5) by metis
      with False f show ?thesis by (simp add: Content)
    qed (simp add: Content False)
  qed
qed

lemma set_values_shape:
  assumes "c_shape p c" "known_field p (c_type c) fd" "pool_ok p" "vs \<noteq> []"
  shows "c_shape p (set_values fd vs c)" "c_type (set_values fd vs c) = c_type c"
    "c_unknown (set_values fd vs c) = c_unknown c"
proof -
  obtain t own ext u where c: "c = Content t own ext u" by (cases c)
  show "c_type (set_values fd vs c) = c_type c" "c_unknown (set_values fd vs c) = c_unknown c"
    by (simp_all add: c)
  show "c_shape p (set_values fd vs c)"
  proof (cases "fd_is_extension fd")
    case True
    then have "FindExtensionByNumber p t (fd_number fd) = Some fd"
      using known_field_cases [OF assms(3,2)] by (auto simp: c)
    with True assms(1,4) show ?thesis
      by (auto simp: c c_shape_def sorted_map_put dest!: mem_map_put)
  qed (use assms(1) in \<open>simp add: c c_shape_def\<close>)
qed

lemma sorted_map_eq:
  assumes "sorted_wrt (<) (map fst xs)" "sorted_wrt (<) (map fst ys)" "map_of xs = map_of ys"
  shows "xs = (ys :: (int \<times> 'a) list)"
proof -
  have d: "distinct (map fst xs)" "distinct (map fst ys)"
    using assms(1,2) strict_sorted_iff by blast+
  then have "set xs = set ys" using assms(3) by (metis map_of_inject_set)
  moreover have "sorted (map fst xs)" "sorted (map fst ys)"
    using assms(1,2) strict_sorted_iff by blast+
  ultimately show ?thesis
    using d map_sorted_distinct_set_unique [of fst xs ys] by (auto simp: distinct_map)
qed

text \<open>Two contents of a type with the same values are the same.\<close>

lemma mvalue_eqI:
  assumes p: "pool_ok p" and c: "c_shape p a" "c_shape p b" and t: "c_type a = c_type b"
    and u: "c_unknown a = c_unknown b"
    and v: "\<And>fd. known_field p (c_type a) fd \<Longrightarrow> field_values fd a = field_values fd b"
  shows "a = b"
proof -
  obtain t own ext u where A: "a = Content t own ext u" by (cases a)
  obtain own' ext' where B: "b = Content t own' ext' u" using t u by (cases b) (simp add: A)
  let ?d = "pool_types p ! t"
  have d: "descriptor_of p t = Some ?d" using c(1) by (simp add: A c_shape_def descriptor_of_Some)
  have "own = own'"
  proof (rule nth_equalityI)
    show "length own = length own'" using c by (simp add: A B c_shape_def)
    fix i assume "i < length own"
    then have i: "i < d_field_count ?d" using c by (simp add: A c_shape_def)
    let ?fd = "d_field_list ?d ! i"
    have m: "?fd \<in> set (d_field_list ?d)" using i by (simp add: d_field_count_def)
    have "descriptor_ok p t ?d" using p c(1) by (simp add: pool_ok_def A c_shape_def)
    then have "fd_index ?fd = i" using i by (auto simp: descriptor_ok_def Let_def)
    moreover have "known_field p t ?fd" using d m by (auto simp: known_field_def)
    ultimately show "own ! i = own' ! i" using v [of ?fd] own_field(1) [OF p d m] by (simp add: A B)
  qed
  moreover have "ext = ext'"
  proof (rule sorted_map_eq)
    show "sorted_wrt (<) (map fst ext)" "sorted_wrt (<) (map fst ext')" using c by (auto simp: A B c_shape_def)
    show "map_of ext = map_of ext'"
    proof
      fix k
      have side: "map_of e k = Some vs \<Longrightarrow> vs \<noteq> [] \<and> FindExtensionByNumber p t k \<noteq> None"
        if "c_shape p (Content t o' e u)" for o' e vs
        using that by (auto simp: c_shape_def dest!: map_of_SomeD)
      have eq: "(case map_of ext k of None \<Rightarrow> [] | Some vs \<Rightarrow> vs) = (case map_of ext' k of None \<Rightarrow> [] | Some vs \<Rightarrow> vs)"
        if "FindExtensionByNumber p t k = Some fd" for fd
      proof -
        have fd: "fd \<in> set (pool_extensions p)" "fd_containing_type fd = t" "fd_number fd = k"
          using FindExtensionD [OF p that] by auto
        then show ?thesis using v [of fd] ext_field(1) [OF p fd(1)] by (simp add: A B known_field_def)
      qed
      show "map_of ext k = map_of ext' k"
        using side [of own ext] side [of own' ext'] c eq
        by (cases "FindExtensionByNumber p t k") (fastforce simp: A B split: option.splits)+
    qed
  qed
  ultimately show ?thesis by (simp add: A B)
qed

section \<open>The fields that are set\<close>

definition c_fields :: "pool \<Rightarrow> mvalue \<Rightarrow> field_descriptor list" where
  "c_fields p c = sort_key fd_number
     (filter (\<lambda>fd. field_values fd c \<noteq> []) (d_field_list (pool_types p ! c_type c)) @
      map (\<lambda>(k, vs). the (FindExtensionByNumber p (c_type c) k)) (c_ext c))"

lemma set_c_fields:
  assumes "pool_ok p" "c_shape p c"
  shows "set (c_fields p c) = {fd. known_field p (c_type c) fd \<and> field_values fd c \<noteq> []}"
proof -
  obtain t own ext u where c: "c = Content t own ext u" by (cases c)
  have d: "descriptor_of p t = Some (pool_types p ! t)"
    using assms(2) by (simp add: c c_shape_def descriptor_of_Some)
  have s: "sorted_wrt (<) (map fst ext)" using assms(2) by (simp add: c c_shape_def)
  have ext: "FindExtensionByNumber p t k = Some fd \<Longrightarrow> known_field p t fd \<and> field_values fd c = vs \<and> vs \<noteq> []"
    if "(k, vs) \<in> set ext" for k vs fd
  proof -
    assume f: "FindExtensionByNumber p t k = Some fd"
    from FindExtensionD [OF assms(1) f] have fd: "fd \<in> set (pool_extensions p)" "fd_containing_type fd = t" "fd_number fd = k"
      by auto
    have "map_of ext k = Some vs" using that s by (simp add: strict_sorted_iff)
    with fd ext_field(1) [OF assms(1) fd(1)] assms(2) that
    show "known_field p t fd \<and> field_values fd c = vs \<and> vs \<noteq> []"
      by (auto simp: known_field_def c c_shape_def)
  qed
  show ?thesis
  proof (intro set_eqI iffI)
    fix fd assume "fd \<in> set (c_fields p c)"
    then consider "fd \<in> set (d_field_list (pool_types p ! t))" "field_values fd c \<noteq> []"
      | k vs where "(k, vs) \<in> set ext" "fd = the (FindExtensionByNumber p t k)"
      by (auto simp: c_fields_def c)
    then show "fd \<in> {fd. known_field p (c_type c) fd \<and> field_values fd c \<noteq> []}"
    proof cases
      case 1
      then show ?thesis using d by (auto simp: known_field_def c)
    next
      case (2 k vs)
      then obtain fd' where "FindExtensionByNumber p t k = Some fd'" using assms(2) by (auto simp: c c_shape_def)
      with ext [OF 2(1) this] 2(2) show ?thesis by (auto simp: c)
    qed
  next
    fix fd assume "fd \<in> {fd. known_field p (c_type c) fd \<and> field_values fd c \<noteq> []}"
    then have fd: "known_field p t fd" "field_values fd c \<noteq> []" by (simp_all add: c)
    show "fd \<in> set (c_fields p c)"
    proof (cases rule: known_field_cases [OF assms(1) fd(1), case_names own ext])
      case (own d')
      then show ?thesis using d fd(2) by (simp add: c_fields_def c)
    next
      case (ext d')
      then obtain vs where "map_of ext (fd_number fd) = Some vs" using fd(2) by (auto simp: c split: option.splits)
      then have "(fd_number fd, vs) \<in> set ext" by (rule map_of_SomeD)
      then show ?thesis using ext(5) by (force simp: c_fields_def c image_iff)
    qed
  qed
qed

lemma distinct_c_fields:
  assumes "pool_ok p" "c_shape p c"
  shows "distinct (c_fields p c)"
proof -
  obtain t own ext u where c: "c = Content t own ext u" by (cases c)
  let ?d = "pool_types p ! t"
  have d: "descriptor_of p t = Some ?d" using assms(2) by (simp add: c c_shape_def descriptor_of_Some)
  have "descriptor_ok p t ?d" using assms by (simp add: pool_ok_def c c_shape_def)
  then have "distinct (d_field_list ?d)" by (auto simp: descriptor_ok_def distinct_map)
  moreover have num: "\<exists>fd. FindExtensionByNumber p t k = Some fd \<and> fd_number fd = k \<and> fd_is_extension fd"
    if "(k, vs) \<in> set ext" for k vs
  proof -
    have "FindExtensionByNumber p t k \<noteq> None" using that assms(2) by (auto simp: c c_shape_def)
    then obtain fd where fd: "FindExtensionByNumber p t k = Some fd" by blast
    with FindExtensionD [OF assms(1) fd] ext_field(1) [OF assms(1)] show ?thesis by auto
  qed
  have "map fd_number (map (\<lambda>(k, vs). the (FindExtensionByNumber p t k)) ext) = map fst ext"
    using num by fastforce
  then have "distinct (map fd_number (map (\<lambda>(k, vs). the (FindExtensionByNumber p t k)) ext))"
    using assms(2) by (simp add: c c_shape_def strict_sorted_iff del: map_map)
  then have "distinct (map (\<lambda>(k, vs). the (FindExtensionByNumber p t k)) ext)" by (simp only: distinct_map)
  moreover have "fd_is_extension fd" if "fd \<in> set (map (\<lambda>(k, vs). the (FindExtensionByNumber p t k)) ext)" for fd
    using that num by fastforce
  ultimately show ?thesis
    using own_field(1) [OF assms(1) d] by (auto simp: c_fields_def c simp del: set_map)
qed

lemma list_set_fields_ok:
  assumes "pool_ok p" "message_ok p strict m" "descriptor_of p (msg_type m) = Some d"
    "set fds \<subseteq> set (d_field_list d)"
  shows "list_set_fields fds m = Some (filter (\<lambda>fd. field_values fd (content m) \<noteq> []) fds)"
  using assms(4)
proof (induction fds)
  case (Cons fd fds)
  then have k: "known_field p (msg_type m) fd" using assms(3) by (auto simp: known_field_def)
  have e: "\<not> fd_is_extension fd" using own_field(1) [OF assms(1,3)] Cons.prems by simp
  from field_count_ok [OF assms(1,2) k]
  have "(if is_repeated fd then do { s \<leftarrow> GetRaw fd m; n \<leftarrow> slot_size s; Some (n > 0) } else HasBit fd m) =
      Some (field_values fd (content m) \<noteq> [])"
    using e by (auto simp: field_count_def FieldSize_def HasField_def usage_checks [OF assms(1,2) k] split: if_splits)
  with Cons show ?case by simp
qed simp

lemma AppendToList_ok:
  assumes "\<forall>(k, e) \<in> set es. slot_ok p strict (ext_descriptor e) (ext_value e) \<and> \<not> null_slot (ext_value e)"
  shows "ExtensionSet_AppendToList es = Some (map (\<lambda>(k, e). ext_descriptor e) (filter (\<lambda>(k, e). ext_values e \<noteq> []) es))"
  using assms
proof (induction es)
  case (Cons x es)
  obtain k e where x: "x = (k, e)" by fastforce
  obtain fd s cl where e: "e = Extension fd s cl" by (cases e)
  have s: "slot_ok p strict fd s" "\<not> null_slot s" using Cons.prems by (auto simp: x e)
  have step: "(if is_repeated (ext_descriptor e) then map_option (\<lambda>n. n > 0) (Extension_GetSize e)
      else Some (\<not> ext_is_cleared e)) = Some (ext_values e \<noteq> [])"
    using s by (cases s) (auto simp: e Extension_GetSize_def split: option.splits elim: null_slot.elims)
  from Cons have IH: "ExtensionSet_AppendToList es =
      Some (map (\<lambda>(k, e). ext_descriptor e) (filter (\<lambda>(k, e). ext_values e \<noteq> []) es))" by simp
  show ?case unfolding x ExtensionSet_AppendToList.simps step IH by simp
qed simp

lemma ListFields_ok:
  assumes p: "pool_ok p" and m: "message_ok p strict m"
  shows "ListFields p m = Some (c_fields p (content m))"
proof -
  obtain t pr h slots exts u c where M: "m = Message t pr h slots exts u c" by (cases m)
  obtain d where d: "descriptor_of p t = Some d" using message_ok_descriptor [OF m] by (auto simp: M)
  note E = message_okD [OF m [unfolded M] d]
  have own: "list_set_fields (d_field_list d) m = Some (filter (\<lambda>fd. field_values fd (content m) \<noteq> []) (d_field_list d))"
    using list_set_fields_ok [OF p m] d by (simp add: M)
  have "(case exts of None \<Rightarrow> Some [] | Some es \<Rightarrow> ExtensionSet_AppendToList es) =
      Some (map (\<lambda>(k, vs). the (FindExtensionByNumber p t k)) (c_ext (content m)))"
  proof (cases exts)
    case (Some es)
    have f: "\<forall>(k, e) \<in> set es. FindExtensionByNumber p t k = Some (ext_descriptor e)" using E(7) Some by fastforce
    have "\<forall>(k, e) \<in> set es. slot_ok p strict (ext_descriptor e) (ext_value e) \<and> \<not> null_slot (ext_value e)"
      using E(7) Some by fastforce
    moreover have "map (\<lambda>(k, e). ext_descriptor e) (filter (\<lambda>(k, e). ext_values e \<noteq> []) es) =
        map (\<lambda>(k, vs). the (FindExtensionByNumber p t k)) (present (map (map_prod id ext_values) es))"
      using f by (induction es) (auto simp: present_def)
    ultimately show ?thesis using AppendToList_ok [of es p strict] by (simp add: M Some)
  qed (simp add: M)
  moreover have "\<not> pr" by (rule E(1))
  ultimately show ?thesis
    using d own by (simp add: ListFields_def c_fields_def M descriptor_of_Some)
qed

lemma get_enum_ok:
  assumes "pool_ok p" "message_ok p strict m" "known_field p (msg_type m) fd"
    "j < length (field_values fd (content m))" "field_values fd (content m) ! j = FScalar (VEnum n)"
  shows "get_enum p fd (int j) m = Some \<lparr>ev_type = fd_enum_type fd, ev_number = n\<rparr>"
proof -
  have "FScalar (VEnum n) \<in> set (field_values fd (content m))" using assms(4,5) by (metis nth_mem)
  from values_ok [OF assms(1-3) this] have v: "cpp_type fd = CPPTYPE_ENUM" "FindValueByNumber p (fd_enum_type fd) n \<noteq> None"
    by auto
  then have "get_value p fd (int j) m = Some (VEnum n)"
    using get_scalar(1) [OF assms] by simp
  with v show ?thesis
    by (auto simp: get_enum_def get_value_def GetEnum_def GetRepeatedEnum_def FindValueByNumber_def split: if_splits)
qed

end
