(* ===== verification/MessageSubs.thy ===== *)
theory MessageSubs
  imports MessageFields
begin

text \<open>
  The embedded messages a message holds, as objects: those of a field that is set, what reading them
  finds, and what storing one back in its place changes.
\<close>

fun slot_messages :: "slot \<Rightarrow> message list" where
  "slot_messages (MessagePtr (Some q)) = [q]"
| "slot_messages (MessagePtrs ms cleared) = ms"
| "slot_messages _ = []"

definition value_slot_of :: "field_descriptor \<Rightarrow> message \<Rightarrow> slot option" where
  "value_slot_of fd m =
     (if fd_is_extension fd then Option.bind (msg_extensions m) (\<lambda>es. map_option ext_value (map_of es (fd_number fd)))
      else GetRaw fd m)"

definition subs :: "field_descriptor \<Rightarrow> message \<Rightarrow> message list" where
  "subs fd m = (case value_slot_of fd m of None \<Rightarrow> [] | Some s \<Rightarrow> slot_messages s)"

lemma subs_ok:
  assumes p: "pool_ok p" and m: "message_ok p strict m" and fd: "known_field p (msg_type m) fd"
    and ty: "cpp_type fd = CPPTYPE_MESSAGE" and v: "field_values fd (content m) \<noteq> []"
  shows "field_values fd (content m) = map (\<lambda>s. FMessage (content s)) (subs fd m)"
    and "s \<in> set (subs fd m) \<Longrightarrow> message_ok p strict s \<and> msg_type s = fd_message_type fd"
    and "j < length (subs fd m) \<Longrightarrow> get_message p fd (int j) m = Some (subs fd m ! j)"
proof -
  obtain sl where sl: "slot_ok p strict fd sl" "field_values fd (content m) = snd (slot_values sl)" "\<not> null_slot sl"
    "\<not> fd_is_extension fd \<Longrightarrow> GetRaw fd m = Some sl"
    "fd_is_extension fd \<Longrightarrow> \<exists>es e. msg_extensions m = Some es \<and> map_of es (fd_number fd) = Some e \<and>
      ext_value e = sl \<and> ext_descriptor e = fd \<and> \<not> is_required fd"
    using value_slot [OF p m fd v] by metis
  then have "value_slot_of fd m = Some sl" by (auto simp: value_slot_of_def)
  then have subs: "subs fd m = slot_messages sl" by (simp add: subs_def)
  show "field_values fd (content m) = map (\<lambda>s. FMessage (content s)) (subs fd m)"
    "s \<in> set (subs fd m) \<Longrightarrow> message_ok p strict s \<and> msg_type s = fd_message_type fd"
    using sl(1-3) ty by (cases sl; auto simp: subs dest: scalar_ok_not_message split: option.splits)+
  assume j: "j < length (subs fd m)"
  note uc = usage_checks [OF p m fd]
  note gm = get_message_def GetMessage_def GetRepeatedMessage_def uc ExtensionSet_GetMessage_def
    ExtensionSet_GetRepeatedMessage_def dcheck_type_def element_nth
  show "get_message p fd (int j) m = Some (subs fd m ! j)"
  proof (cases "is_repeated fd")
    case True
    with sl(1) ty obtain ms cl where ms: "sl = MessagePtrs ms cl" by (cases sl) auto
    then show ?thesis using sl(4,5) True j ty
      by (cases "fd_is_extension fd") (force simp: gm subs is_repeated_def)+
  next
    case False
    with sl(1,3) ty obtain q where ms: "sl = MessagePtr (Some q)"
      by (cases sl) (auto dest: scalar_ok_not_message elim: null_slot.elims)
    have "\<not> is_required fd \<Longrightarrow> fd_label fd = LABEL_OPTIONAL" by (rule is_repeated_label [OF False])
    then show ?thesis using sl(4,5) False j ty ms
      by (cases "fd_is_extension fd") (force simp: gm subs)+
  qed
qed

lemma known_index_neq:
  assumes "pool_ok p" "known_field p t fd" "known_field p t fd'" "fd \<noteq> fd'" "\<not> fd_is_extension fd"
    "\<not> fd_is_extension fd'"
  shows "fd_index fd \<noteq> fd_index fd'"
proof -
  obtain d where "descriptor_of p t = Some d" "fd \<in> set (d_field_list d)" "fd' \<in> set (d_field_list d)"
    using assms(2,3,5,6) ext_field(1) [OF assms(1)] by (auto simp: known_field_def)
  with own_field(4) [OF assms(1)] assms(4) show ?thesis by metis
qed

lemma set_values_id:
  assumes p: "pool_ok p" and c: "c_shape p c" and fd: "known_field p (c_type c) fd" and v: "field_values fd c \<noteq> []"
  shows "set_values fd (field_values fd c) c = c"
proof (rule mvalue_eqI [OF p])
  show "field_values fd' (set_values fd (field_values fd c) c) = field_values fd' c"
    if "known_field p (c_type (set_values fd (field_values fd c) c)) fd'" for fd'
    using that field_values_set_same [OF c fd p] field_values_set_other [OF c fd _ p] set_values_shape(2) [OF c fd p v]
    by (cases "fd' = fd") auto
qed (use c set_values_shape [OF c fd p v] in simp_all)

text \<open>Storing a message with the same content in the place of the \<open>j\<close>-th.\<close>

definition store_sub :: "field_descriptor \<Rightarrow> nat \<Rightarrow> message \<Rightarrow> message \<Rightarrow> message option" where
  "store_sub fd j sub m = (if is_repeated fd then store_repeated_message fd (int j) sub m else store_measured fd sub m)"

lemma store_sub_own:
  assumes p: "pool_ok p" and m: "message_ok p strict m" and fd: "known_field p (msg_type m) fd"
    and ty: "cpp_type fd = CPPTYPE_MESSAGE" and v: "field_values fd (content m) \<noteq> []"
    and j: "j < length (subs fd m)" and e: "\<not> fd_is_extension fd"
    and sub: "message_ok p strict sub" "msg_type sub = fd_message_type fd" "content sub = content (subs fd m ! j)"
  obtains m2 where "store_sub fd j sub m = Some m2" "message_ok p strict m2" "msg_type m2 = msg_type m"
    "content m2 = content m" "subs fd m2 = (subs fd m)[j := sub]"
    "\<And>fd'. known_field p (msg_type m) fd' \<Longrightarrow> fd' \<noteq> fd \<Longrightarrow> subs fd' m2 = subs fd' m"
proof -
  obtain s d where s: "descriptor_of p (msg_type m) = Some d" "fd \<in> set (d_field_list d)"
    "GetRaw fd m = Some s" "slot_ok p strict fd s"
    "HasBit fd m = Some (has_bit (msg_has_bits m) (fd_index fd))"
    "field_values fd (content m) =
      (if fst (slot_values s) \<and> \<not> has_bit (msg_has_bits m) (fd_index fd) then [] else snd (slot_values s))"
    "has_bit (msg_has_bits m) (fd_index fd) \<Longrightarrow> \<not> null_slot s"
    using field_slot [OF p m fd e] by metis
  have subs: "subs fd m = slot_messages s" using s(3) e by (simp add: subs_def value_slot_of_def)
  have l: "fd_index fd < length (msg_slots m)" using s(3) by (auto simp: GetRaw_def rd_def split: if_splits)
  define s2 where "s2 = (case s of MessagePtrs ms cl \<Rightarrow> MessagePtrs (ms[j := sub]) cl | _ \<Rightarrow> MessagePtr (Some sub))"
  let ?m2 = "with_slots ((msg_slots m)[fd_index fd := s2]) m"
  have s2: "slot_ok p strict fd s2" "slot_messages s2 = (slot_messages s)[j := sub]"
    "fst (slot_values s2) = fst (slot_values s)" "snd (slot_values s2) = snd (slot_values s)" "\<not> null_slot s2"
    "has_bit (msg_has_bits m) (fd_index fd) \<or> s2 \<noteq> MessagePtr q"
    and st: "store_sub fd j sub m = Some ?m2" for q
  proof -
    have *: "slot_ok p strict fd s2 \<and> slot_messages s2 = (slot_messages s)[j := sub] \<and>
      fst (slot_values s2) = fst (slot_values s) \<and> snd (slot_values s2) = snd (slot_values s) \<and> \<not> null_slot s2 \<and>
      (has_bit (msg_has_bits m) (fd_index fd) \<or> s2 \<noteq> MessagePtr q) \<and> store_sub fd j sub m = Some ?m2" for q
    proof (cases "is_repeated fd")
      case True
      then obtain ms cl where ms: "s = MessagePtrs ms cl" using s(4) ty by (cases s) auto
      have "map (\<lambda>x. FMessage (content x)) (ms[j := sub]) = map (\<lambda>x. FMessage (content x)) ms"
        using j sub(3) by (intro nth_equalityI) (auto simp: subs ms nth_list_update)
      moreover have "set (ms[j := sub]) \<subseteq> insert sub (set ms)" by (rule set_update_subset_insert)
      ultimately show ?thesis using True s(3,4) sub j ty l
        by (auto simp: s2_def ms subs store_sub_def store_repeated_message_def e element_nth store_raw_slot comp_def)
    next
      case False
      then have b: "has_bit (msg_has_bits m) (fd_index fd)" "\<not> null_slot s"
        using s(6,7) v singular_ext_values [OF s(4) False] by (auto split: if_splits)
      then obtain q' where q: "s = MessagePtr (Some q')" using False s(4) ty
        by (cases s) (auto dest: scalar_ok_not_message elim: null_slot.elims)
      have "HasField fd m = Some True" using s(5) b False by (simp add: HasField_def usage_checks [OF p m fd] e)
      then show ?thesis using False s(3) sub j ty b
        by (auto simp: s2_def q subs store_sub_def store_measured_def store_message_def e store_raw_slot)
    qed
    show "slot_ok p strict fd s2" "slot_messages s2 = (slot_messages s)[j := sub]"
      "fst (slot_values s2) = fst (slot_values s)" "snd (slot_values s2) = snd (slot_values s)" "\<not> null_slot s2"
      "has_bit (msg_has_bits m) (fd_index fd) \<or> s2 \<noteq> MessagePtr q" "store_sub fd j sub m = Some ?m2"
      using * [of q] by blast+
  qed
  have nq: "s2 \<noteq> MessagePtr (Some q)" if "\<not> has_bit (msg_has_bits m) (fd_index fd)" for q
    using s2(6) that by simp
  have ok: "message_ok p strict ?m2" "msg_type ?m2 = msg_type m"
    "content ?m2 = set_values fd (field_values fd (content m)) (content m)"
    using own_put [where h = "msg_has_bits m", OF p m s(1,2) s2(1) refl refl s2(5) nq] s2(3,4) s(6) by auto
  have c: "content ?m2 = content m"
    unfolding ok(3) by (rule set_values_id [OF p content_shape [OF m] _ v]) (use fd in simp)
  have own: "subs fd ?m2 = (subs fd m)[j := sub]"
    using e l by (simp add: subs_def value_slot_of_def GetRaw_def rd_def s2(2) subs [symmetric])
  have other: "subs fd' ?m2 = subs fd' m" if "known_field p (msg_type m) fd'" "fd' \<noteq> fd" for fd'
  proof (cases "fd_is_extension fd'")
    case True
    have "msg_extensions ?m2 = msg_extensions m" by simp
    then show ?thesis by (simp add: subs_def value_slot_of_def True)
  next
    case False
    have "fd_index fd \<noteq> fd_index fd'" using known_index_neq [OF p fd that(1) _ e False] that(2) by blast
    then show ?thesis by (simp add: subs_def value_slot_of_def False GetRaw_def rd_def)
  qed
  show thesis by (rule that [OF st ok(1,2) c own other])
qed

lemma store_sub_ext:
  assumes p: "pool_ok p" and m: "message_ok p strict m" and fd: "known_field p (msg_type m) fd"
    and ty: "cpp_type fd = CPPTYPE_MESSAGE" and v: "field_values fd (content m) \<noteq> []"
    and j: "j < length (subs fd m)" and e: "fd_is_extension fd"
    and sub: "message_ok p strict sub" "msg_type sub = fd_message_type fd" "content sub = content (subs fd m ! j)"
  obtains m2 where "store_sub fd j sub m = Some m2" "message_ok p strict m2" "msg_type m2 = msg_type m"
    "content m2 = content m" "subs fd m2 = (subs fd m)[j := sub]"
    "\<And>fd'. known_field p (msg_type m) fd' \<Longrightarrow> fd' \<noteq> fd \<Longrightarrow> subs fd' m2 = subs fd' m"
proof -
  obtain es d where es: "msg_extensions m = Some es" "descriptor_of p (msg_type m) = Some d"
    "FindExtensionByNumber p (msg_type m) (fd_number fd) = Some fd"
    "field_values fd (content m) = (case map_of es (fd_number fd) of None \<Rightarrow> [] | Some e \<Rightarrow> ext_values e)"
    "\<And>e. map_of es (fd_number fd) = Some e \<Longrightarrow> ext_descriptor e = fd \<and> \<not> null_slot (ext_value e) \<and>
      slot_ok p strict fd (ext_value e) \<and> (strict \<longrightarrow> \<not> ext_is_cleared e)"
    using field_extensions [OF p m fd e] by metis
  obtain x where x: "map_of es (fd_number fd) = Some x" using v es(4) by (auto split: option.splits)
  obtain s cl where s: "x = Extension fd s cl" "\<not> null_slot s" "slot_ok p strict fd s" "strict \<Longrightarrow> \<not> cl"
    using es(5) [OF x] by (cases x) auto
  have vs: "ext_values x \<noteq> []" using v es(4) x by simp
  obtain t pr h slots exts u c where M: "m = Message t pr h slots exts u c" by (cases m)
  have so: "sorted_wrt (<) (map fst es)"
    using message_okD(7) [OF m [unfolded M]] es(1,2) by (simp add: M)
  have subs: "subs fd m = slot_messages s" using es(1) x s(1) e by (simp add: subs_def value_slot_of_def)
  define s2 where "s2 = (case s of MessagePtrs ms cl \<Rightarrow> MessagePtrs (ms[j := sub]) cl | _ \<Rightarrow> MessagePtr (Some sub))"
  let ?m2 = "with_extensions (map_put (fd_number fd) (Extension fd s2 cl) es) m"
  have s2: "slot_ok p strict fd s2 \<and> slot_messages s2 = (slot_messages s)[j := sub] \<and>
      slot_values s2 = slot_values s \<and> \<not> null_slot s2 \<and> store_sub fd j sub m = Some ?m2"
  proof (cases "is_repeated fd")
    case True
    then obtain ms c' where ms: "s = MessagePtrs ms c'" using s(3) ty by (cases s) auto
    have "map (\<lambda>x. FMessage (content x)) (ms[j := sub]) = map (\<lambda>x. FMessage (content x)) ms"
      using j sub(3) by (intro nth_equalityI) (auto simp: subs ms nth_list_update)
    moreover have "set (ms[j := sub]) \<subseteq> insert sub (set ms)" by (rule set_update_subset_insert)
    ultimately show ?thesis using True s sub j ty x es(1)
      by (auto simp: s2_def ms subs store_sub_def store_repeated_message_def e element_nth on_extensions_def
          store_extension_def comp_def)
  next
    case False
    then obtain q where q: "s = MessagePtr (Some q)" using s(2,3) ty
      by (cases s) (auto dest: scalar_ok_not_message elim: null_slot.elims)
    have "\<not> cl" using vs q by (auto simp: s(1))
    then have "HasField fd m = Some True" using False x es(1)
      by (simp add: HasField_def usage_checks [OF p m fd] e ExtensionSet_Has_def s(1))
    then show ?thesis using False s sub j ty x es(1)
      by (auto simp: s2_def q subs store_sub_def store_measured_def store_message_def e on_extensions_def
          store_extension_def)
  qed
  have ev: "ext_values (Extension fd s2 cl) = ext_values x" using s2 by (simp add: s(1))
  note put = ext_put [OF m es(2,1,3) e, of s2 cl, unfolded ev]
  have ok: "message_ok p strict ?m2" "msg_type ?m2 = msg_type m"
    "content ?m2 = set_values fd (field_values fd (content m)) (content m)"
    using put s2 s(4) vs es(4) x by auto
  have c: "content ?m2 = content m"
    unfolding ok(3) by (rule set_values_id [OF p content_shape [OF m] _ v]) (use fd in simp)
  have own: "subs fd ?m2 = (subs fd m)[j := sub]"
    using e s2 so by (simp add: subs_def [of fd ?m2] value_slot_of_def subs)
  have other: "subs fd' ?m2 = subs fd' m" if "known_field p (msg_type m) fd'" "fd' \<noteq> fd" for fd'
  proof (cases "fd_is_extension fd'")
    case True
    have "fd_number fd' \<noteq> fd_number fd" using same_field [OF p that(1) fd] that(2) by blast
    then show ?thesis using so es(1) by (simp add: subs_def value_slot_of_def True)
  next
    case False
    have "msg_slots ?m2 = msg_slots m" by (cases m) simp
    then show ?thesis by (simp add: subs_def value_slot_of_def False GetRaw_def)
  qed
  show thesis by (rule that [OF _ ok(1,2) c own other]) (use s2 in blast)
qed

lemma store_sub_ok:
  assumes "pool_ok p" "message_ok p strict m" "known_field p (msg_type m) fd" "cpp_type fd = CPPTYPE_MESSAGE"
    and "field_values fd (content m) \<noteq> []" "j < length (subs fd m)" "message_ok p strict sub"
    "msg_type sub = fd_message_type fd" "content sub = content (subs fd m ! j)"
  obtains m2 where "store_sub fd j sub m = Some m2" "message_ok p strict m2" "msg_type m2 = msg_type m"
    "content m2 = content m" "subs fd m2 = (subs fd m)[j := sub]"
    "\<And>fd'. known_field p (msg_type m) fd' \<Longrightarrow> fd' \<noteq> fd \<Longrightarrow> subs fd' m2 = subs fd' m"
  by (cases "fd_is_extension fd"; rule store_sub_ext [OF assms(1-6) _ assms(7-9)] store_sub_own [OF assms(1-6) _ assms(7-9)];
      (assumption | rule that; assumption))

end
