(* ===== verification/FieldCodec.thy ===== *)
theory FieldCodec
  imports WireMessages
begin

text \<open>
  The format of one value of each field type, as a specification for the readers, writers and sizes of
  \<open>wire_format_inl.h\<close>: the writer of the type writes the tag and these bytes, the reader of the
  type turns them back into the value, and the size is their number.
\<close>

unbundle bit_operations_syntax

section \<open>The format of a value\<close>

text \<open>An \<open>int32\<close> or an enum is written as the 64-bit two's complement of its value.\<close>

fun payload :: "field_type \<Rightarrow> scalar \<Rightarrow> bytes" where
  "payload ty (VInt32 v) =
     (if ty = TYPE_SINT32 then varint_bytes (unat (ZigZagEncode32 (of_int v)))
      else if ty = TYPE_SFIXED32 then le_bytes 4 (unat (of_int v :: uint32))
      else varint_bytes (unat (of_int v :: uint64)))"
| "payload ty (VInt64 v) =
     (if ty = TYPE_SINT64 then varint_bytes (unat (ZigZagEncode64 (of_int v)))
      else if ty = TYPE_SFIXED64 then le_bytes 8 (unat (of_int v :: uint64))
      else varint_bytes (unat (of_int v :: uint64)))"
| "payload ty (VUInt32 v) = (if ty = TYPE_FIXED32 then le_bytes 4 (unat v) else varint_bytes (unat v))"
| "payload ty (VUInt64 v) = (if ty = TYPE_FIXED64 then le_bytes 8 (unat v) else varint_bytes (unat v))"
| "payload ty (VFloat v) = le_bytes 4 (unat (EncodeFloat v))"
| "payload ty (VDouble v) = le_bytes 8 (unat (EncodeDouble v))"
| "payload ty (VBool v) = varint_bytes (if v then 1 else 0)"
| "payload ty (VEnum v) = varint_bytes (unat (of_int v :: uint64))"
| "payload ty (VString d) = varint_bytes (length d) @ d"

section \<open>Casts\<close>

lemma sint_of_int: "is_int32 v \<Longrightarrow> sint (of_int v :: uint32) = v"
  "- (2 ^ 63) \<le> w \<Longrightarrow> w < 2 ^ 63 \<Longrightarrow> sint (of_int w :: uint64) = w"
  by (simp_all add: int_bounds signed_of_int signed_take_bit_int_eq_self)

lemma low_half: "(of_nat (unat (of_int v :: uint64)) :: uint32) = of_int v"
proof -
  have "(ucast (of_int v :: uint64) :: uint32) = of_int v"
    by (rule bit_word_eqI) (simp add: bit_simps)
  then show ?thesis by simp
qed

lemma unat_of_int64: "unat (of_int v :: uint64) = nat (v mod 2 ^ 64)"
  by (simp add: unsigned_of_int take_bit_eq_mod)

lemma unat_string_length: "int (length d) \<le> INT_MAX \<Longrightarrow> unat (of_nat (length d) :: uint32) = length d"
  "int (length d) \<le> INT_MAX \<Longrightarrow> sint (of_nat (length d) :: uint32) = int (length d)"
proof -
  assume d: "int (length d) \<le> INT_MAX"
  then show "unat (of_nat (length d) :: uint32) = length d"
    by (simp add: unsigned_of_nat take_bit_nat_eq_self int_bounds)
  have "(of_nat (length d) :: uint32) = of_int (int (length d))" by simp
  moreover have "is_int32 (int (length d))" using d by (simp add: int_bounds)
  ultimately show "sint (of_nat (length d) :: uint32) = int (length d)" by (simp only: sint_of_int)
qed

section \<open>Reading\<close>

context zero_copy_input
begin

lemma read_varint32_back:
  assumes c: "ci_ok ok last c" and u: "ci_unread avail c = varint_bytes n @ rest" and n: "n < 2 ^ 64"
  shows "\<exists>c'. CodedInputStream_ReadVarint32 vt c = Some (Some (of_nat n), c') \<and> at_rest rest c c'"
proof -
  obtain c' where "CodedInputStream_ReadVarint32 vt c =
      Some (map_option (\<lambda>(v, r). of_nat (varint_nat v)) (varint_split 10 (ci_unread avail c)), c')"
    "varint_read c c'" by (rule read_varint32 [OF c])
  then show ?thesis using varint_read_at_rest [OF _ u n] n by (auto simp: u varint_bytes_split)
qed

lemma read_int32_back:
  assumes "ci_ok ok last c" "ci_unread avail c = varint_bytes (unat (of_int v :: uint64)) @ rest"
  shows "\<exists>c'. CodedInputStream_ReadVarint32 vt c = Some (Some (of_int v), c') \<and> at_rest rest c c'"
  using read_varint32_back [OF assms] uint64_bound(1) [of "of_int v"] by (simp only: low_half)

lemma read_string_back:
  assumes c: "ci_ok ok last c" and u: "ci_unread avail c = varint_bytes (length d) @ d @ rest"
    and d: "int (length d) \<le> INT_MAX"
  shows "\<exists>c'. ReadString vt [] c = Some ((True, d), c') \<and> at_rest rest c c'"
    and "\<exists>c'. ReadBytes vt [] c = Some ((True, d), c') \<and> at_rest rest c c'"
proof -
  have "length d < 2 ^ 64" using d by (simp add: int_bounds)
  from read_varint32_back [OF c u this] obtain c1 where
    1: "CodedInputStream_ReadVarint32 vt c = Some (Some (of_nat (length d)), c1)" "at_rest (d @ rest) c c1" by blast
  then have "ci_ok ok last c1" "ci_unread avail c1 = d @ rest" by (simp_all add: at_rest_def)
  from reads_back(5) [OF this, of "int (length d)" "[]"] obtain c2 where
    "CodedInputStream_ReadString vt [] (int (length d)) c1 = Some ((True, d), c2)" "at_rest rest c1 c2" by auto
  with 1 at_rest_trans [OF 1(2)] unat_string_length(2) [OF d]
  show "\<exists>c'. ReadString vt [] c = Some ((True, d), c') \<and> at_rest rest c c'"
    "\<exists>c'. ReadBytes vt [] c = Some ((True, d), c') \<and> at_rest rest c c'"
    by (auto simp: ReadString_def ReadBytes_def)
qed

text \<open>The reader of a field's type gives a value of the field back.\<close>

lemma read_value_back:
  assumes c: "ci_ok ok last c" and u: "ci_unread avail c = payload (fd_type fd) v @ rest"
    and v: "scalar_ok p fd v" and e: "fd_type fd \<noteq> TYPE_ENUM"
  shows "\<exists>c'. read_value (fd_type fd) vt c = Some (Some v, c') \<and> at_rest rest c c'"
proof -
  note r = reads_back(1-4) [OF c] read_int32_back [OF c] read_string_back [OF c]
  note defs = converted_def ReadInt32_def ReadInt64_def ReadUInt32_def ReadUInt64_def ReadSInt32_def
    ReadSInt64_def ReadFixed32_def ReadFixed64_def ReadSFixed32_def ReadSFixed64_def ReadFloat_def
    ReadDouble_def ReadBool_def DecodeFloat_def DecodeDouble_def sint_of_int zigzag32_round_trip zigzag64_round_trip
  show ?thesis
  proof (cases v)
    case (VInt32 x)
    with v u e show ?thesis
      by (cases "fd_type fd"; simp add: cpp_type_def)
        (frule r(2,3,5), force simp: defs)+
  next
    case (VInt64 x)
    with v u e show ?thesis
      by (cases "fd_type fd"; simp add: cpp_type_def)
        (frule r(1,4), force simp: defs)+
  next
    case (VUInt32 x)
    with v u e show ?thesis
      by (cases "fd_type fd"; simp add: cpp_type_def)
        (frule r(2,3), force simp: defs)+
  next
    case (VUInt64 x)
    with v u e show ?thesis
      by (cases "fd_type fd"; simp add: cpp_type_def)
        (frule r(1,4), force simp: defs)+
  next
    case (VFloat x)
    with v u e show ?thesis
      by (cases x; cases "fd_type fd"; simp add: cpp_type_def)
        (frule r(3), force simp: defs)+
  next
    case (VDouble x)
    with v u e show ?thesis
      by (cases x; cases "fd_type fd"; simp add: cpp_type_def)
        (frule r(4), force simp: defs)+
  next
    case (VBool x)
    with v u e have "fd_type fd = TYPE_BOOL" by (cases "fd_type fd"; simp add: cpp_type_def)
    moreover have "ci_unread avail c = varint_bytes (unat (if x then 1 else 0 :: uint32)) @ rest"
      using u VBool by (cases x) simp_all
    ultimately show ?thesis using r(2) by (force simp: defs VBool)
  next
    case (VString d)
    with v u have "ci_unread avail c = varint_bytes (length d) @ d @ rest" "int (length d) \<le> INT_MAX" by simp_all
    with r(6,7) v show ?thesis
      by (cases "fd_type fd") (force simp: VString cpp_type_def)+
  qed (use v e in \<open>cases "fd_type fd"; simp add: cpp_type_def\<close>)
qed

text \<open>And that of an enum the number.\<close>

lemma read_enum_back:
  assumes "ci_ok ok last c" "ci_unread avail c = payload ty (VEnum v) @ rest" "is_int32 v"
  shows "\<exists>c'. ReadEnum vt c = Some (Some v, c') \<and> at_rest rest c c'"
  using read_int32_back [OF assms(1), of v rest] assms(2,3)
  by (auto simp: ReadEnum_def converted_def sint_of_int)

end

section \<open>Writing\<close>

lemmas writer_defs = WriteInt32_def WriteInt64_def WriteUInt32_def WriteUInt64_def WriteSInt32_def
  WriteSInt64_def WriteFixed32_def WriteFixed64_def WriteSFixed32_def WriteSFixed64_def WriteFloat_def
  WriteDouble_def WriteBool_def WriteEnum_def WriteString_def WriteBytes_def

context zero_copy_output
begin

lemma emits_WriteTag: "emits (WriteTag vt n t) (tag_bytes n t)"
  by (simp add: emits_def WriteTag_def write_tag tag_bytes_def)

lemma emits_sign_extended:
  "is_int32 v \<Longrightarrow> emits (CodedOutputStream_WriteVarint32SignExtended vt v) (varint_bytes (unat (of_int v :: uint64)))"
  unfolding emits_def unat_of_int64 using write_varint32_sign_extended by blast

lemma emits_tagged: "emits w d \<Longrightarrow> emits (co_seq [WriteTag vt n t, w]) (tag_bytes n t @ d)"
  using emits_Cons [OF emits_WriteTag emits_Cons [OF _ emits_Nil], of w d n t] by simp

lemma emits_tagged2:
  "emits v d \<Longrightarrow> emits w e \<Longrightarrow> emits (co_seq [WriteTag vt n t, v, w]) (tag_bytes n t @ d @ e)"
  using emits_Cons [OF emits_WriteTag emits_Cons [OF _ emits_Cons [OF _ emits_Nil]], of v d w e n t] by simp

lemma emits_string:
  assumes "int (length d) \<le> INT_MAX"
  shows "emits (WriteString vt n d) (tag_bytes n WIRETYPE_LENGTH_DELIMITED @ varint_bytes (length d) @ d)"
  unfolding WriteString_def
  using emits_tagged2 [OF emits_writers(1) [of "of_nat (length d)"] emits_writers(5) [of d],
      of n WIRETYPE_LENGTH_DELIMITED]
  by (simp only: unat_string_length(1) [OF assms])

lemma write_value_emits:
  assumes v: "scalar_ok p fd v" and e: "fd_type fd \<noteq> TYPE_ENUM"
  shows "emits (write_value (fd_type fd) vt n v)
    (tag_bytes n (kWireTypeForFieldType (fd_type fd)) @ payload (fd_type fd) v)"
proof -
  note em = emits_tagged [OF emits_writers(1)] emits_tagged [OF emits_writers(2)]
    emits_tagged [OF emits_writers(3)] emits_tagged [OF emits_writers(4)] emits_tagged [OF emits_sign_extended]
  have b: "varint_bytes (if x then 1 else 0) = varint_bytes (unat (if x then 1 else 0 :: uint32))" for x
    by (cases x) simp_all
  show ?thesis
  proof (cases v)
    case (VString d)
    with v e show ?thesis
      by (cases "fd_type fd"; simp add: cpp_type_def emits_string)
  next
    case (VBool x)
    with v e have "fd_type fd = TYPE_BOOL" by (cases "fd_type fd"; simp add: cpp_type_def)
    moreover have "emits (WriteBool vt n x) (tag_bytes n WIRETYPE_VARINT @ varint_bytes (if x then 1 else 0))"
      unfolding WriteBool_def b by (rule em(1))
    ultimately show ?thesis by (simp add: VBool)
  qed (use v e in \<open>cases "fd_type fd"; simp add: cpp_type_def writer_defs em del: co_seq.simps\<close>)+
qed

lemma write_enum_emits:
  "is_int32 v \<Longrightarrow> emits (WriteEnum vt n v) (tag_bytes n WIRETYPE_VARINT @ payload ty (VEnum v))"
  unfolding WriteEnum_def payload.simps by (rule emits_tagged [OF emits_sign_extended])

end

lemma value_writers_never_false:
  assumes next_: "\<And>s s'. out_next vt s \<noteq> Some (None, s')"
  shows "never_false (WriteTag vt n t)" "never_false (write_value ty vt n v)" "never_false (WriteEnum vt n e)"
proof -
  note w = writers_never_false [OF next_]
  show t: "never_false (WriteTag vt n t)" for t unfolding WriteTag_def by (rule w(6))
  have se: "never_false (CodedOutputStream_WriteVarint32SignExtended vt x)" for x
    using w(1,2) by (auto simp: never_false_def CodedOutputStream_WriteVarint32SignExtended_def)
  have 2: "never_false (co_seq [WriteTag vt n t, w])" if "never_false w" for w t
    by (rule co_seq_never_false) (use that t in auto)
  have 3: "never_false (co_seq [WriteTag vt n t, w, w'])" if "never_false w" "never_false w'" for w w' t
    by (rule co_seq_never_false) (use that t in auto)
  show "never_false (WriteEnum vt n e)" unfolding WriteEnum_def by (rule 2 [OF se])
  have none: "never_false (\<lambda>c. None)" by (simp add: never_false_def)
  have bind: "never_false (\<lambda>c. Option.bind q (\<lambda>x. w x c))" if "\<And>x. never_false (w x)" for q and w :: "'z \<Rightarrow> 'a coded_output \<Rightarrow> _"
    using that by (cases q) (simp_all add: never_false_def)
  show "never_false (write_value ty vt n v)"
    by (cases ty; simp only: write_value.simps writer_defs; intro bind none 2 3 w se)
qed

section \<open>Sizes\<close>

lemma value_size:
  assumes "scalar_ok p fd v"
  shows "case fixed_size (fd_type fd) of Some k \<Rightarrow> int (length (payload (fd_type fd) v)) = k
    | None \<Rightarrow> size_value (fd_type fd) v = Some (int (length (payload (fd_type fd) v)))"
proof -
  note defs = kFixed32Size_def kFixed64Size_def kSFixed32Size_def kSFixed64Size_def kFloatSize_def kDoubleSize_def
    kBoolSize_def Int32Size_def Int64Size_def UInt32Size_def UInt64Size_def SInt32Size_def SInt64Size_def
    EnumSize_def StringSize_def
  have b: "length (varint_bytes (if x then 1 else 0)) = 1" for x by (simp add: varint_bytes.simps)
  show ?thesis
    using assms b
    by (cases v; cases "fd_type fd"; simp add: cpp_type_def defs VarintSize32_length VarintSize64_length
        VarintSize32SignExtended_length unat_of_int64 unat_string_length del: unat_0 unat_1)
qed

lemma length_varint_8:
  "t < 8 \<Longrightarrow> length (varint_bytes (8 * n + t)) = length (varint_bytes (8 * n))"
proof -
  assume "t < 8"
  then have "(8 * n + t) div 8 div 16 = n div 16" by simp
  then have "(8 * n + t) div 128 = n div 16" by (simp add: div_mult2_eq [symmetric])
  with \<open>t < 8\<close> show ?thesis by (subst (1 2) varint_bytes.simps) auto
qed

lemma tag_size:
  assumes "valid_number n" "\<forall>m. t \<noteq> WIRETYPE_OTHER m"
  shows "CodedOutputStream_VarintSize32 (push_bit kTagTypeBits (of_int n)) = int (length (tag_bytes n t))"
proof -
  have n: "0 \<le> n" "n < 2 ^ 29" using assms(1) by (auto simp: valid_number_def)
  have t: "wire_type_value t < 8" "unat (wire_type_value t) < 8"
    using assms(2) by (cases t; simp)+
  have "MakeTag n WIRETYPE_VARINT = push_bit kTagTypeBits (of_int n)" by (simp add: MakeTag_def)
  with unat_MakeTag [OF n, of WIRETYPE_VARINT] have "unat (push_bit kTagTypeBits (of_int n) :: uint32) = 8 * nat n" by simp
  then show ?thesis
    using unat_MakeTag [OF n t(1)] length_varint_8 [OF t(2), of "nat n"]
    by (simp add: VarintSize32_length tag_bytes_def)
qed

end
