(* ===== verification/MessageBytes.thy ===== *)
theory MessageBytes
  imports MessageSubs FieldCodec
begin

text \<open>
  The bytes of a message, as a specification: its fields in the order of their numbers, each value
  behind its tag, and then the unknown fields. What \<open>SerializeWithCachedSizes\<close> writes is this, and
  \<open>ByteSize\<close> is its length.
\<close>

section \<open>Unknown fields\<close>

primrec uv_items :: "unknown_value \<Rightarrow> wire_item list" where
  "uv_items (UnknownValue n v f32 f64 d g) =
     map (WVarint n) v @ map (WFixed32 n) f32 @ map (WFixed64 n) f64 @ map (WBytes n) d @
     map (\<lambda>items. WGroup n (concat items)) (map (map uv_items) g)"

lemma items_of_value:
  "uf_items f = uv_items (uf_value f)"
  "ufs_items s = concat (map uv_items (ufs_value s))"
proof (induction f and s rule: uf_items_ufs_items.induct)
  case (1 f)
  have "map (\<lambda>g. WGroup (uf_number f) (ufs_items g)) (uf_group f) =
      map (\<lambda>g. WGroup (uf_number f) (concat (map uv_items (ufs_value g)))) (uf_group f)"
    using 1 by simp
  then show ?case by (simp add: uf_items.simps uf_value.simps comp_def)
next
  case (2 s)
  then show ?case by (simp add: ufs_items.simps ufs_value.simps comp_def cong: map_cong)
qed

section \<open>Items of a message set\<close>

definition delimited :: "bytes \<Rightarrow> bytes" where
  "delimited d = varint_bytes (unat (of_nat (length d) :: uint32)) @ d"

definition set_item_bytes :: "int \<Rightarrow> bytes \<Rightarrow> bytes" where
  "set_item_bytes n d = tag_bytes 1 WIRETYPE_START_GROUP @ tag_bytes 2 WIRETYPE_VARINT @
     varint_bytes (unat (of_int n :: uint32)) @ tag_bytes 3 WIRETYPE_LENGTH_DELIMITED @ delimited d @
     tag_bytes 1 WIRETYPE_END_GROUP"

definition unknown_bytes :: "pool \<Rightarrow> nat \<Rightarrow> unknown_value list \<Rightarrow> bytes" where
  "unknown_bytes p t vs =
     (if d_message_set_wire_format (pool_types p ! t)
      then concat (map (\<lambda>v. concat (map (set_item_bytes (uv_number v)) (uv_length_delimited v))) vs)
      else items_bytes (concat (map uv_items vs)))"

definition set_item :: "pool \<Rightarrow> field_descriptor \<Rightarrow> bool" where
  "set_item p fd \<longleftrightarrow> fd_is_extension fd \<and>
     d_message_set_wire_format (pool_types p ! fd_containing_type fd) \<and> cpp_type fd = CPPTYPE_MESSAGE \<and> \<not> is_repeated fd"

section \<open>The bytes of a content\<close>

text \<open>The values of a field, none where the content has no such field.\<close>

definition c_values :: "field_descriptor \<Rightarrow> mvalue \<Rightarrow> fvalue list" where
  "c_values fd c = (if fd_is_extension fd \<or> fd_index fd < length (c_own c) then field_values fd c else [])"

lemma size_list_c_values: "c_values fd c \<noteq> [] \<Longrightarrow> size_list size (c_values fd c) < size c"
proof -
  assume v: "c_values fd c \<noteq> []"
  obtain t own ext u where c: "c = Content t own ext u" by (cases c)
  show ?thesis
  proof (cases "fd_is_extension fd")
    case True
    then obtain vs where vs: "map_of ext (fd_number fd) = Some vs" "c_values fd c = vs"
      using v by (cases "map_of ext (fd_number fd)") (auto simp: c c_values_def)
    have "size_list size vs \<le> size_list (size_prod (\<lambda>x. 0) (size_list size)) ext"
      using map_of_SomeD [OF vs(1)] by (intro size_list_estimation') auto
    then show ?thesis unfolding vs(2) by (simp add: c)
  next
    case False
    then have vs: "own ! fd_index fd \<in> set own" "c_values fd c = own ! fd_index fd"
      using v by (auto simp: c c_values_def split: if_splits)
    have "size_list size (own ! fd_index fd) \<le> size_list (size_list size) own"
      by (rule size_list_estimation' [OF vs(1)]) simp
    then show ?thesis unfolding vs(2) by (simp add: c)
  qed
qed

lemma size_c_values: "v \<in> set (c_values fd c) \<Longrightarrow> size v < size c"
proof -
  assume v: "v \<in> set (c_values fd c)"
  then have "size v \<le> size_list size (c_values fd c)" by (intro size_list_estimation') auto
  moreover have "size_list size (c_values fd c) < size c" using v by (intro size_list_c_values) auto
  ultimately show ?thesis by simp
qed

function value_bytes :: "pool \<Rightarrow> field_descriptor \<Rightarrow> fvalue \<Rightarrow> bytes" and c_bytes :: "pool \<Rightarrow> mvalue \<Rightarrow> bytes" where
  "value_bytes p fd (FScalar s) =
     tag_bytes (fd_number fd) (kWireTypeForFieldType (fd_type fd)) @ payload (fd_type fd) s"
| "value_bytes p fd (FMessage c) =
     (if set_item p fd then set_item_bytes (fd_number fd) (c_bytes p c)
      else if fd_type fd = TYPE_GROUP
      then tag_bytes (fd_number fd) WIRETYPE_START_GROUP @ c_bytes p c @ tag_bytes (fd_number fd) WIRETYPE_END_GROUP
      else tag_bytes (fd_number fd) WIRETYPE_LENGTH_DELIMITED @ delimited (c_bytes p c))"
| "c_bytes p c =
     concat (map (\<lambda>fd. concat (map (value_bytes p fd) (c_values fd c))) (c_fields p c)) @
     unknown_bytes p (c_type c) (c_unknown c)"
  by pat_completeness auto
termination
  by (relation "measure (\<lambda>x. case x of Inl (p, fd, v) \<Rightarrow> size v | Inr (p, c) \<Rightarrow> size c)")
    (auto dest: size_c_values)

declare value_bytes.simps [simp del] c_bytes.simps [simp del]

lemma c_values_known:
  assumes "pool_ok p" "c_shape p c" "known_field p (c_type c) fd"
  shows "c_values fd c = field_values fd c"
proof (cases rule: known_field_cases [OF assms(1,3), case_names own ext])
  case (own d)
  with own_field(3) [OF assms(1) own(1,2)] assms(2) show ?thesis
    by (simp add: c_values_def c_shape_def descriptor_of_Some)
qed (simp add: c_values_def)

section \<open>Messages whose cached sizes are right\<close>

inductive sized :: "pool \<Rightarrow> message \<Rightarrow> bool" for p where
  sized: "msg_cached_size m = int (length (c_bytes p (content m))) \<Longrightarrow>
    (\<And>fd s. known_field p (msg_type m) fd \<Longrightarrow> cpp_type fd = CPPTYPE_MESSAGE \<Longrightarrow>
      field_values fd (content m) \<noteq> [] \<Longrightarrow> s \<in> set (subs fd m) \<Longrightarrow> sized p s) \<Longrightarrow> sized p m"

lemma sizedD:
  assumes "sized p m"
  shows "msg_cached_size m = int (length (c_bytes p (content m)))"
    and "known_field p (msg_type m) fd \<Longrightarrow> cpp_type fd = CPPTYPE_MESSAGE \<Longrightarrow> field_values fd (content m) \<noteq> [] \<Longrightarrow>
      s \<in> set (subs fd m) \<Longrightarrow> sized p s"
  using assms by (auto elim: sized.cases)

lemma c_bytes_content:
  assumes "pool_ok p" "message_ok p strict m"
  shows "c_bytes p (content m) =
    concat (map (\<lambda>fd. concat (map (value_bytes p fd) (field_values fd (content m)))) (c_fields p (content m))) @
    unknown_bytes p (msg_type m) (ufs_value (msg_unknown_fields m))"
proof -
  note c = content_shape [OF assms(2)]
  have "map (\<lambda>fd. concat (map (value_bytes p fd) (c_values fd (content m)))) (c_fields p (content m)) =
      map (\<lambda>fd. concat (map (value_bytes p fd) (field_values fd (content m)))) (c_fields p (content m))"
    using set_c_fields [OF assms(1) c] c_values_known [OF assms(1) c] by (intro map_cong) auto
  then show ?thesis unfolding c_bytes.simps c_type_content c_unknown_content by (simp only:)
qed

section \<open>Writing\<close>

lemma tag_constants:
  "varint_bytes (unat kMessageSetItemStartTag) = tag_bytes 1 WIRETYPE_START_GROUP"
  "varint_bytes (unat kMessageSetItemEndTag) = tag_bytes 1 WIRETYPE_END_GROUP"
  "varint_bytes (unat kMessageSetTypeIdTag) = tag_bytes 2 WIRETYPE_VARINT"
  "varint_bytes (unat kMessageSetMessageTag) = tag_bytes 3 WIRETYPE_LENGTH_DELIMITED"
  by (simp_all add: tag_bytes_def kMessageSetItemStartTag_def kMessageSetItemEndTag_def
      kMessageSetTypeIdTag_def kMessageSetMessageTag_def)

context zero_copy_output
begin

lemma emits_set_item:
  assumes "emits w d" "n = of_nat (length d)"
  shows "emits (co_seq [CodedOutputStream_WriteVarint32 vt kMessageSetItemStartTag,
       CodedOutputStream_WriteVarint32 vt kMessageSetTypeIdTag, CodedOutputStream_WriteVarint32 vt (of_int k),
       CodedOutputStream_WriteVarint32 vt kMessageSetMessageTag, CodedOutputStream_WriteVarint32 vt n, w,
       CodedOutputStream_WriteVarint32 vt kMessageSetItemEndTag]) (set_item_bytes k d)"
  using emits_Cons [OF emits_writers(1) emits_Cons [OF emits_writers(1) emits_Cons [OF emits_writers(1)
        emits_Cons [OF emits_writers(1) emits_Cons [OF emits_writers(1) emits_Cons [OF assms(1)
        emits_Cons [OF emits_writers(1) emits_Nil]]]]]],
      of kMessageSetItemStartTag kMessageSetTypeIdTag "of_int k" kMessageSetMessageTag n kMessageSetItemEndTag]
  by (simp add: set_item_bytes_def delimited_def tag_constants assms(2) del: co_seq.simps)

lemma emits_unknown:
  assumes "descriptor_of p t = Some d"
  shows "emits (if d_message_set_wire_format d then SerializeUnknownMessageSetItems vt u else SerializeUnknownFields vt u)
    (unknown_bytes p t (ufs_value u))"
proof (cases "d_message_set_wire_format d")
  case True
  have "emits (SerializeUnknownMessageSetItems vt u)
      (concat (map (\<lambda>f. concat (map (set_item_bytes (uf_number f)) (uf_length_delimited f))) (ufs_field_list u)))"
    unfolding SerializeUnknownMessageSetItems_def
    by (intro emits_concat emits_set_item emits_writers(5) refl)
  moreover have "map (\<lambda>v. concat (map (set_item_bytes (uv_number v)) (uv_length_delimited v))) (ufs_value u) =
      map (\<lambda>f. concat (map (set_item_bytes (uf_number f)) (uf_length_delimited f))) (ufs_field_list u)"
    by (simp add: ufs_value.simps uf_value.simps comp_def)
  moreover have "pool_types p ! t = d" using assms by (auto simp: descriptor_of_def rd_def split: if_splits)
  ultimately show ?thesis using True by (simp add: unknown_bytes_def)
next
  case False
  moreover have "pool_types p ! t = d" using assms by (auto simp: descriptor_of_def rd_def split: if_splits)
  ultimately show ?thesis using serialize_emits(2) [of u] by (simp add: unknown_bytes_def items_of_value)
qed

lemma write_element_emits:
  assumes p: "pool_ok p" and m: "message_ok p strict m" and fd: "known_field p (msg_type m) fd"
    and n: "\<not> set_item p fd" and j: "j < length (field_values fd (content m))"
    and sub: "\<And>s. cpp_type fd = CPPTYPE_MESSAGE \<Longrightarrow> s \<in> set (subs fd m) \<Longrightarrow>
      msg_cached_size s = int (length (c_bytes p (content s))) \<and> emits (ser s) (c_bytes p (content s))"
  shows "emits (write_element p vt ser fd (int j) m) (value_bytes p fd (field_values fd (content m) ! j))"
proof (cases "cpp_type fd = CPPTYPE_MESSAGE")
  case True
  have ne: "field_values fd (content m) \<noteq> []" using j by auto
  note so = subs_ok [OF p m fd True ne]
  let ?s = "subs fd m ! j"
  have l: "j < length (subs fd m)" and v: "field_values fd (content m) ! j = FMessage (content ?s)"
    using j by (simp_all add: so(1))
  note s = sub [OF True nth_mem [OF l]]
  show ?thesis
  proof (cases "fd_type fd = TYPE_GROUP")
    case g: True
    have "emits (WriteGroup vt ser (fd_number fd) ?s) (value_bytes p fd (FMessage (content ?s)))"
      unfolding WriteGroup_def
      using emits_Cons [OF emits_WriteTag emits_Cons [OF _ emits_Cons [OF emits_WriteTag emits_Nil]]] s n
      by (simp add: value_bytes.simps g del: co_seq.simps)
    moreover have "write_element p vt ser fd (int j) m = WriteGroup vt ser (fd_number fd) ?s"
      by (rule ext) (simp add: write_element_def g so(3) [OF l])
    ultimately show ?thesis by (simp only: v)
  next
    case g: False
    then have t: "fd_type fd = TYPE_MESSAGE" using True by (cases "fd_type fd") (simp_all add: cpp_type_def)
    have "emits (WriteMessage vt ser msg_cached_size (fd_number fd) ?s) (value_bytes p fd (FMessage (content ?s)))"
      unfolding WriteMessage_def
      using emits_tagged2 [OF emits_writers(1)] s n
      by (simp add: value_bytes.simps t delimited_def del: co_seq.simps)
    moreover have "write_element p vt ser fd (int j) m = WriteMessage vt ser msg_cached_size (fd_number fd) ?s"
      by (rule ext) (simp add: write_element_def t so(3) [OF l])
    ultimately show ?thesis by (simp only: v)
  qed
next
  case False
  obtain x where x: "field_values fd (content m) ! j = FScalar x" "scalar_ok p fd x"
    using values_ok [OF p m fd nth_mem [OF j]] False by auto
  show ?thesis
  proof (cases "fd_type fd = TYPE_ENUM")
    case True
    then obtain e where e: "x = VEnum e" using x(2) by (cases x) (auto simp: cpp_type_def)
    have "write_element p vt ser fd (int j) m = WriteEnum vt (fd_number fd) e"
      using get_enum_ok [OF p m fd j] x(1) by (intro ext) (simp add: write_element_def True e)
    moreover have "is_int32 e" using x(2) by (simp add: e)
    ultimately show ?thesis
      using write_enum_emits [of e "fd_number fd" "fd_type fd"] by (simp add: x(1) e value_bytes.simps True)
  next
    case t: False
    have "write_element p vt ser fd (int j) m = write_value (fd_type fd) vt (fd_number fd) x"
      using get_scalar [OF p m fd j x(1)] t False
      by (intro ext) (cases "fd_type fd"; simp add: write_element_def cpp_type_def)
    then show ?thesis using write_value_emits [OF x(2) t] by (simp add: x(1) value_bytes.simps)
  qed
qed

end

end
