(* ===== verification/MessageReads.thy ===== *)
theory MessageReads
  imports MessageBytes WireProperties
begin

text \<open>
  Parsing the bytes of a content: \<open>ParseAndMergePartial\<close>, run on a message that holds nothing yet,
  turns them back into the content.
\<close>

section \<open>Unknown fields\<close>

text \<open>A value that holds something, in its groups too.\<close>

primrec uv_full :: "unknown_value \<Rightarrow> bool" where
  "uv_full (UnknownValue n v f32 f64 d g) \<longleftrightarrow>
     (v \<noteq> [] \<or> f32 \<noteq> [] \<or> f64 \<noteq> [] \<or> d \<noteq> [] \<or> g \<noteq> []) \<and>
     list_all (\<lambda>vs. distinct (map uv_number vs)) g \<and> list_all (list_all id) (map (map uv_full) g)"

lemma readd_values:
  assumes one: "\<And>v ws. v \<in> set vs \<Longrightarrow> uv_full v \<Longrightarrow> uv_number v \<notin> uv_number ` set ws \<Longrightarrow>
    fold add_item (uv_items v) ws = ws @ [v]"
  shows "list_all uv_full vs \<Longrightarrow> distinct (map uv_number vs) \<Longrightarrow> uv_number ` set vs \<inter> uv_number ` set ws = {} \<Longrightarrow>
    fold add_item (concat (map uv_items vs)) ws = ws @ vs"
  using one
proof (induction vs arbitrary: ws)
  case (Cons v vs)
  have "fold add_item (uv_items v) ws = ws @ [v]" using Cons.prems by (intro Cons.prems(4)) auto
  moreover have "fold add_item (concat (map uv_items vs)) (ws @ [v]) = (ws @ [v]) @ vs"
    using Cons.prems by (intro Cons.IH) auto
  ultimately show ?case by simp
qed simp

lemma readd_value:
  "uv_full v \<Longrightarrow> uv_number v \<notin> uv_number ` set ws \<Longrightarrow> fold add_item (uv_items v) ws = ws @ [v]"
proof (induction v arbitrary: ws)
  case (UnknownValue n v f32 f64 d g)
  let ?items = "uv_items (UnknownValue n v f32 f64 d g)"
  have g: "fold add_item (concat (map uv_items vs)) [] = vs" if "vs \<in> set g" for vs
  proof -
    have full: "list_all uv_full vs" "distinct (map uv_number vs)"
      using UnknownValue.prems(1) that by (auto simp: list_all_iff)
    have "fold add_item (concat (map uv_items vs)) [] = [] @ vs"
      by (rule readd_values [OF _ full]) (use UnknownValue.IH [OF that] in auto)
    then show ?thesis by simp
  qed
  have "map (\<lambda>vs. fold add_item (concat (map uv_items vs)) []) g = g"
    using g by (intro map_idI) simp
  moreover have "map (\<lambda>items. WGroup n (concat items)) (map (map uv_items) g) =
      map (\<lambda>vs. WGroup n (concat (map uv_items vs))) g" by simp
  ultimately have "fold item_update ?items (UnknownValue n [] [] [] [] []) = UnknownValue n v f32 f64 d g"
    by (simp only: uv_items.simps fold_append comp_apply fold_adds append_Nil)
  moreover have "\<forall>i \<in> set ?items. item_number i = n" by auto
  moreover have "?items \<noteq> []" using UnknownValue.prems(1) by auto
  ultimately show ?case using fold_update_new [of n ws ?items] UnknownValue.prems(2) by simp
qed

lemma readd:
  assumes "list_all uv_full vs" "distinct (map uv_number vs)"
  shows "fold add_item (concat (map uv_items vs)) [] = vs"
  using readd_values [OF readd_value assms, of "[]"] by simp

section \<open>Contents that can be read\<close>

definition unknown_number :: "pool \<Rightarrow> nat \<Rightarrow> int \<Rightarrow> bool" where
  "unknown_number p t n \<longleftrightarrow> FindFieldByNumber (pool_types p ! t) n = None \<and> FindExtensionByNumber p t n = None"

definition c_messages :: "mvalue \<Rightarrow> mvalue list" where
  "c_messages c = concat (map (\<lambda>v. case v of FMessage c' \<Rightarrow> [c'] | FScalar x \<Rightarrow> [])
     (concat (c_own c) @ concat (map snd (c_ext c))))"

text \<open>
  No message set, messages and unknown groups nested at most \<open>k\<close> deep, and unknown fields whose numbers
  are those of no field of the type.
\<close>

definition readable_here :: "pool \<Rightarrow> nat \<Rightarrow> mvalue \<Rightarrow> bool" where
  "readable_here p k c \<longleftrightarrow> \<not> d_message_set_wire_format (pool_types p ! c_type c) \<and>
     distinct (map uv_number (c_unknown c)) \<and>
     list_all (\<lambda>v. uv_full v \<and> unknown_number p (c_type c) (uv_number v) \<and> list_all (item_ok k) (uv_items v))
       (c_unknown c)"

fun readable :: "pool \<Rightarrow> nat \<Rightarrow> mvalue \<Rightarrow> bool" where
  "readable p 0 c \<longleftrightarrow> readable_here p 0 c \<and> c_messages c = []"
| "readable p (Suc k) c \<longleftrightarrow> readable_here p (Suc k) c \<and> list_all (readable p k) (c_messages c)"

lemma readable_here: "readable p k c \<Longrightarrow> readable_here p k c"
  by (cases k) simp_all

lemma field_message:
  assumes p: "pool_ok p" and c: "c_shape p c" and fd: "known_field p (c_type c) fd"
    and v: "FMessage c' \<in> set (field_values fd c)"
  shows "c' \<in> set (c_messages c)"
proof -
  obtain t own ext u where C: "c = Content t own ext u" by (cases c)
  have "FMessage c' \<in> set (concat own @ concat (map snd ext))"
  proof (cases rule: known_field_cases [OF p fd, case_names own ext])
    case (own d)
    then have "fd_index fd < length own"
      using own_field(3) [OF p own(1,2)] c by (simp add: C c_shape_def descriptor_of_Some)
    then have "own ! fd_index fd \<in> set own" by simp
    moreover have "FMessage c' \<in> set (own ! fd_index fd)" using v own(3) by (simp add: C)
    ultimately show ?thesis by auto
  next
    case (ext d)
    then obtain vs where "map_of (c_ext c) (fd_number fd) = Some vs" "FMessage c' \<in> set vs"
      using v by (cases "map_of ext (fd_number fd)") (auto simp: C)
    then show ?thesis by (force simp: C dest: map_of_SomeD)
  qed
  then show ?thesis unfolding c_messages_def C by (force split: fvalue.splits)
qed

lemma readable_sub:
  assumes "readable p k c" "c' \<in> set (c_messages c)"
  obtains j where "k = Suc j" "readable p j c'"
  using assms by (cases k) (auto simp: list_all_iff)

section \<open>Steps of the parser\<close>

lemma field_for_known:
  assumes p: "pool_ok p" and m: "message_ok p strict m" and fd: "known_field p (msg_type m) fd"
    and d: "descriptor_of p (msg_type m) = Some d" and t: "\<forall>n. t \<noteq> WIRETYPE_OTHER n"
  shows "field_for_tag p d (MakeTag (fd_number fd) t) m = Some fd"
proof -
  have n: "GetTagFieldNumber (MakeTag (fd_number fd) t) = fd_number fd"
    using valid_tag(1) [OF _ t] known_field_facts(2) [OF p fd] by (simp add: field_ok_def)
  show ?thesis
  proof (cases rule: known_field_cases [OF p fd, case_names own ext])
    case (own d')
    then show ?thesis using own_field(6) [OF p own(1,2)] d n by (simp add: field_for_tag_def)
  next
    case (ext d')
    then have e: "IsExtensionNumber d (fd_number fd)"
      using ext_field(5) [OF p ext(1)] d known_field_facts(1) [OF p fd] by auto
    have "FindFieldByNumber d (fd_number fd) = None"
    proof (rule ccontr)
      assume "\<not> ?thesis"
      then obtain fd' where "fd' \<in> set (d_field_list d)" "fd_number fd' = fd_number fd"
        by (auto simp: FindFieldByNumber_def dest!: find_Some_mem)
      with own_field(7) [OF p d, of fd'] e show False by simp
    qed
    moreover obtain es where "msg_extensions m = Some es"
      using field_extensions [OF p m fd ext(2)] by metis
    ultimately show ?thesis using e ext(5) n by (simp add: field_for_tag_def FindKnownExtensionByNumber_def)
  qed
qed

lemma field_for_unknown:
  assumes "unknown_number p (msg_type m) n" "descriptor_of p (msg_type m) = Some d"
    and "valid_number n" "\<forall>k. t \<noteq> WIRETYPE_OTHER k"
  shows "field_for_tag p d (MakeTag n t) m = None"
proof -
  have "pool_types p ! msg_type m = d" using assms(2) by (auto simp: descriptor_of_def rd_def split: if_splits)
  with assms valid_tag(1) [OF assms(3,4)] show ?thesis
    by (auto simp: field_for_tag_def unknown_number_def FindKnownExtensionByNumber_def split: option.splits)
qed

text \<open>What storing values in a field changes, and what it does not.\<close>

definition gains :: "pool \<Rightarrow> field_descriptor set \<Rightarrow> (field_descriptor \<Rightarrow> fvalue list) \<Rightarrow> message \<Rightarrow> message \<Rightarrow> bool" where
  "gains p fds vs m m' \<longleftrightarrow> message_ok p True m' \<and> msg_type m' = msg_type m \<and>
     c_unknown (content m') = c_unknown (content m) \<and>
     (\<forall>fd. known_field p (msg_type m) fd \<longrightarrow>
       field_values fd (content m') = (if fd \<in> fds then vs fd else field_values fd (content m)))"

lemma updated_gains:
  assumes p: "pool_ok p" and m: "message_ok p True m" and fd: "known_field p (msg_type m) fd"
    and u: "updated p True fd vs m m'"
  shows "gains p {fd} (\<lambda>_. vs) m m'"
proof -
  have c: "c_shape p (content m)" by (rule content_shape [OF m])
  have "c_unknown (set_values fd vs (content m)) = c_unknown (content m)" by (cases "content m") simp
  then show ?thesis
    using u field_values_set_same [OF c _ p, of fd] field_values_set_other [OF c _ _ p, of fd] fd
    by (auto simp: gains_def updated_def simp del: c_unknown_content)
qed

context zero_copy_input_skip
begin

abbreviation parse :: "pool \<Rightarrow> ('a, message) merge" where
  "parse p \<equiv> parse_stream p vt ParsePartial"

lemma parse_step:
  assumes "CodedInputStream_ReadTag vt c = Some (MakeTag n t, c1)" "valid_number n" "\<forall>k. t \<noteq> WIRETYPE_OTHER k"
    "t \<noteq> WIRETYPE_END_GROUP" "descriptor_of p (msg_type m) = Some d" "field_for_tag p d (MakeTag n t) m = field"
    "field \<noteq> None \<or> \<not> d_message_set_wire_format d"
    "ParseAndMergeField_with p vt (parse p) (MakeTag n t) field c1 m = Some ((True, m'), c2)"
  shows "parse p c m = parse p c2 m'"
  using assms valid_tag [OF assms(2,3)]
  by (subst parse_stream.simps) (auto simp: parse_round_def ParseAndMergePartial_round_def Let_def)

lemma parse_end_group:
  assumes "ci_ok ok last c" "ci_unread avail c = tag_bytes n WIRETYPE_END_GROUP @ rest" "valid_number n"
  obtains c' where "parse p c m = Some ((True, m), c')" "at_rest rest c c'" "ci_last_tag c' = MakeTag n WIRETYPE_END_GROUP"
proof -
  obtain c' where tag: "CodedInputStream_ReadTag vt c = Some (MakeTag n WIRETYPE_END_GROUP, c')" "at_rest rest c c'"
    "ci_last_tag c' = MakeTag n WIRETYPE_END_GROUP"
    using reads_back(6) [OF assms(1) assms(2) [unfolded tag_bytes_def]] by blast
  moreover have "parse p c m = Some ((True, m), c')"
    using tag(1) valid_tag [OF assms(3), of WIRETYPE_END_GROUP]
    by (subst parse_stream.simps) (simp add: parse_round_def ParseAndMergePartial_round_def)
  ultimately show thesis using that by blast
qed

lemma parse_end:
  assumes c: "ci_ok ok last c" "ci_unread avail c = []"
  obtains c' where "parse p c m = Some ((True, m), c')" "at_rest [] c c'"
    "ci_legitimate_message_end c' =
      (ci_position c < ci_total_bytes_limit c \<or> ci_current_limit c = ci_total_bytes_limit c)"
proof -
  obtain c1 where tag: "CodedInputStream_ReadTag vt c = Some (0, c1)"
    and v: "varint_read c (c1\<lparr>ci_last_tag := ci_last_tag c\<rparr>)"
    and l: "ci_legitimate_message_end c1 =
      (ci_position c < ci_total_bytes_limit c \<or> ci_current_limit c = ci_total_bytes_limit c)"
    by (rule read_tag [OF c(1)]) (simp add: c(2) numeral_eq_Suc)
  have "at_rest [] c c1"
    using v by (auto simp: varint_read_def c(2) at_rest_def ci_moves_unread numeral_eq_Suc)
  moreover have "parse p c m = Some ((True, m), c1)"
    using tag by (subst parse_stream.simps) (simp add: parse_round_def ParseAndMergePartial_round_def)
  ultimately show thesis using that l by blast
qed

text \<open>The tag of a field, and what is done for its type.\<close>

lemma wire_type_valid:
  "kWireTypeForFieldType ty \<noteq> WIRETYPE_OTHER k" "kWireTypeForFieldType ty \<noteq> WIRETYPE_END_GROUP"
  by (cases ty; simp)+

lemma parse_known:
  assumes p: "pool_ok p" and m: "message_ok p strict m" and fd: "known_field p (msg_type m) fd"
    and c: "ci_ok ok last c" "ci_unread avail c = tag_bytes (fd_number fd) (kWireTypeForFieldType (fd_type fd)) @ d @ rest"
    and f: "\<And>c1. ci_ok ok last c1 \<Longrightarrow> ci_unread avail c1 = d @ rest \<Longrightarrow>
      ci_recursion_depth c1 = ci_recursion_depth c \<Longrightarrow> ci_recursion_limit c1 = ci_recursion_limit c \<Longrightarrow>
      \<exists>c2 m'. ParseAndMergeField_with p vt (parse p)
        (MakeTag (fd_number fd) (kWireTypeForFieldType (fd_type fd))) (Some fd) c1 m = Some ((True, m'), c2) \<and>
        at_rest rest c1 c2 \<and> updated p strict fd vs m m'"
  shows "\<exists>c' m'. parse p c m = parse p c' m' \<and> at_rest rest c c' \<and> updated p strict fd vs m m'"
proof -
  let ?t = "kWireTypeForFieldType (fd_type fd)"
  have n: "valid_number (fd_number fd)" using known_field_facts(2) [OF p fd] by (simp add: field_ok_def)
  have t: "\<forall>k. ?t \<noteq> WIRETYPE_OTHER k" by (simp add: wire_type_valid)
  obtain d' where d': "descriptor_of p (msg_type m) = Some d'" using message_ok_descriptor [OF m] by auto
  obtain c1 where c1: "CodedInputStream_ReadTag vt c = Some (MakeTag (fd_number fd) ?t, c1)" "at_rest (d @ rest) c c1"
    using reads_back(6) [OF c(1), of "MakeTag (fd_number fd) ?t" "d @ rest"] c(2) by (auto simp: tag_bytes_def)
  from f [OF at_restD [OF c1(2)]] obtain c2 m' where
    2: "ParseAndMergeField_with p vt (parse p) (MakeTag (fd_number fd) ?t) (Some fd) c1 m = Some ((True, m'), c2)"
      "at_rest rest c1 c2" "updated p strict fd vs m m'" by blast
  have "parse p c m = parse p c2 m'"
    using parse_step [OF c1(1) n t wire_type_valid(2) d' field_for_known [OF p m fd d' t] _ 2(1)] by simp
  with at_rest_trans [OF c1(2) 2(2)] 2(3) show ?thesis by blast
qed

lemma parse_plain_field:
  assumes "GetTagWireType tag = kWireTypeForFieldType (fd_type fd)"
    "fd_type fd \<noteq> TYPE_GROUP" "fd_type fd \<noteq> TYPE_MESSAGE" "fd_type fd \<noteq> TYPE_ENUM"
  shows "ParseAndMergeField_with p vt mg tag (Some fd) c m = do {
    (r, c') \<leftarrow> read_value (fd_type fd) vt c;
    (case r of None \<Rightarrow> Some ((False, m), c')
     | Some value \<Rightarrow> do {
         m' \<leftarrow> (if is_repeated fd then add_value p fd value m else set_value p fd value m);
         Some ((True, m'), c')
       })
  }"
  using assms unfolding ParseAndMergeField_with_def by (cases "fd_type fd") simp_all

lemma parse_scalar:
  assumes p: "pool_ok p" and m: "message_ok p strict m" and fd: "known_field p (msg_type m) fd"
    and v: "scalar_ok p fd v"
    and c: "ci_ok ok last c" "ci_unread avail c = value_bytes p fd (FScalar v) @ rest"
  shows "\<exists>c' m'. parse p c m = parse p c' m' \<and> at_rest rest c c' \<and>
    updated p strict fd ((if is_repeated fd then field_values fd (content m) else []) @ [FScalar v]) m m'"
proof (rule parse_known [OF p m fd c(1)])
  show "ci_unread avail c = tag_bytes (fd_number fd) (kWireTypeForFieldType (fd_type fd)) @ payload (fd_type fd) v @ rest"
    using c(2) by (simp add: value_bytes.simps)
  let ?tag = "MakeTag (fd_number fd) (kWireTypeForFieldType (fd_type fd))"
  let ?vs = "(if is_repeated fd then field_values fd (content m) else []) @ [FScalar v]"
  have w: "GetTagWireType ?tag = kWireTypeForFieldType (fd_type fd)"
    using valid_tag(2) known_field_facts(2) [OF p fd] by (simp add: field_ok_def wire_type_valid)
  fix c1 assume c1: "ci_ok ok last c1" "ci_unread avail c1 = payload (fd_type fd) v @ rest"
  show "\<exists>c2 m'. ParseAndMergeField_with p vt (parse p) ?tag (Some fd) c1 m = Some ((True, m'), c2) \<and>
      at_rest rest c1 c2 \<and> updated p strict fd ?vs m m'"
  proof (cases "fd_type fd = TYPE_ENUM")
    case True
    then obtain e where e: "v = VEnum e" using v by (cases v) (auto simp: cpp_type_def)
    with v have i: "is_int32 e" by simp
    obtain ev where ev: "FindValueByNumber p (fd_enum_type fd) e = Some ev" "ev_number ev = e"
      "ev_type ev = fd_enum_type fd" by (rule scalar_ok_enum [OF v [unfolded e]])
    obtain c2 where c2: "ReadEnum vt c1 = Some (Some e, c2)" "at_rest rest c1 c2"
      using read_enum_back [OF c1(1) _ i] c1(2) e by blast
    have sv: "scalar_ok p fd (VEnum (ev_number ev))" using v by (simp add: e ev(2))
    obtain m' where "(if is_repeated fd then AddEnum p fd ev m else SetEnum p fd ev m) = Some m'"
      "updated p strict fd ?vs m m'"
    proof (cases "is_repeated fd")
      case True
      from add_enum_ok [OF p m fd True sv ev(3)] that True show thesis by (auto simp: e ev(2))
    next
      case False
      from set_enum_ok [OF p m fd False sv ev(3)] that False show thesis by (auto simp: e ev(2))
    qed
    then show ?thesis using c2 w by (auto simp: ParseAndMergeField_with_def True ev(1))
  next
    case False
    obtain c2 where c2: "read_value (fd_type fd) vt c1 = Some (Some v, c2)" "at_rest rest c1 c2"
      using read_value_back [OF c1 v False] by blast
    obtain m' where m': "(if is_repeated fd then add_value p fd v m else set_value p fd v m) = Some m'"
      "updated p strict fd ?vs m m'"
    proof (cases "is_repeated fd")
      case True
      from add_value_ok [OF p m fd True v] that True show thesis by auto
    next
      case False
      from set_value_ok [OF p m fd False v] that False show thesis by auto
    qed
    have "fd_type fd \<noteq> TYPE_GROUP \<and> fd_type fd \<noteq> TYPE_MESSAGE" using v by (cases v) (auto simp: cpp_type_def)
    from parse_plain_field [OF w conjunct1 [OF this] conjunct2 [OF this] False]
    have "ParseAndMergeField_with p vt (parse p) ?tag (Some fd) c1 m = Some ((True, m'), c2)"
      using c2(1) m'(1) by simp
    then show ?thesis using c2(2) m'(2) by blast
  qed
qed

lemma unread_length: "ci_ok ok last c \<Longrightarrow> int (length (ci_unread avail c)) \<le> INT_MAX"
  using ci_ok_position [of ok last c] ci_ok_total [of ok last c] by (simp add: ci_unread_def)

lemma limit_fields:
  "ci_pending avail (CodedInputStream_PopLimit l c) = ci_pending avail c"
  "ci_total_bytes_limit (CodedInputStream_PopLimit l c) = ci_total_bytes_limit c"
  "ci_recursion_depth (CodedInputStream_PopLimit l c) = ci_recursion_depth c"
  "ci_recursion_limit (CodedInputStream_PopLimit l c) = ci_recursion_limit c"
  by (simp_all add: CodedInputStream_PopLimit_def CodedInputStream_RecomputeBufferLimits_def Let_def ci_pending_def)

lemma push_fields:
  assumes "CodedInputStream_PushLimit n c = (old, c')" "0 \<le> n" "0 \<le> ci_position c"
  shows "ci_recursion_depth c' = ci_recursion_depth c" "ci_recursion_limit c' = ci_recursion_limit c"
    "ci_current_limit c' \<le> ci_position c + n"
  using assms
  by (auto simp: CodedInputStream_PushLimit_def CodedInputStream_RecomputeBufferLimits_def Let_def ci_position_def
      split: if_splits)

text \<open>All of what was pushed has been read.\<close>

lemma read_to_limit:
  assumes c: "ci_ok ok last c" and n: "0 \<le> n" "is_int32 n" and p: "CodedInputStream_PushLimit n c = (old, c1)"
    and u: "int (length (ci_unread avail c1)) = n" and r: "at_rest [] c1 c2"
  shows "ci_moves avail (nat n) c1 c2" "ci_current_limit c2 = ci_position c2"
    "ci_position c2 < ci_total_bytes_limit c2 \<or> ci_current_limit c2 = ci_total_bytes_limit c2"
proof -
  note q = ci_PushLimit [OF c n p]
  have c2: "ci_ok ok last c2" and e: "ci_unread avail c2 = []" using at_restD(1,2) [OF r] by simp_all
  obtain k where k: "ci_moves avail k c1 c2" using r by (auto simp: at_rest_def)
  have "drop k (ci_unread avail c1) = []" using ci_moves_unread [OF k] e by simp
  then have "nat n \<le> k" using u by simp
  have lim: "ci_current_limit c2 \<le> ci_position c1 + n"
    using push_fields(3) [OF p n(1)] ci_ok_position [OF c] q(5) k by (simp add: ci_moves_def ci_frame_def)
  have pos: "ci_position c2 = ci_position c1 + int k" using k by (simp add: ci_moves_def)
  have "ci_position c2 \<le> ci_current_limit c2" "ci_position c2 \<le> ci_total_bytes_limit c2"
    using ci_ok_position(2) [OF c2] by (simp_all add: ci_closest_def)
  with lim pos \<open>nat n \<le> k\<close> have kn: "k = nat n" and "ci_current_limit c2 = ci_position c2" by linarith+
  with k \<open>ci_position c2 \<le> ci_total_bytes_limit c2\<close>
  show "ci_moves avail (nat n) c1 c2" "ci_current_limit c2 = ci_position c2"
    "ci_position c2 < ci_total_bytes_limit c2 \<or> ci_current_limit c2 = ci_total_bytes_limit c2"
    by auto
qed

lemma read_message_back:
  assumes c: "ci_ok ok last c" "ci_unread avail c = delimited d @ rest"
    and depth: "0 \<le> ci_recursion_depth c" "ci_recursion_depth c < ci_recursion_limit c"
    and inner: "\<And>r. ci_ok ok last r \<Longrightarrow> ci_unread avail r = d \<Longrightarrow> ci_recursion_depth r = ci_recursion_depth c + 1 \<Longrightarrow>
      ci_recursion_limit r = ci_recursion_limit c \<Longrightarrow> \<exists>r' s'. parse p r s = parse p r' s' \<and> at_rest [] r r' \<and> Q s'"
  shows "\<exists>c' s'. ReadMessage vt (parse p) c s = Some ((True, s'), c') \<and> at_rest rest c c' \<and> Q s'"
proof -
  let ?len = "of_nat (length d) :: uint32" and ?n = "int (length d)"
  have "int (length (delimited d @ rest)) \<le> INT_MAX" using unread_length [OF c(1)] c(2) by simp
  then have l: "?n \<le> INT_MAX" by (simp add: delimited_def)
  have n: "0 \<le> ?n" "is_int32 ?n" using l by (simp_all add: int_bounds)
  obtain c1 where 1: "CodedInputStream_ReadVarint32 vt c = Some (Some ?len, c1)" "at_rest (d @ rest) c c1"
    using reads_back(2) [OF c(1), of ?len "d @ rest"] c(2) by (auto simp: delimited_def)
  define deep where "deep = c1\<lparr>ci_recursion_depth := ci_recursion_depth c1 + 1\<rparr>"
  have deep: "ci_ok ok last deep" "ci_unread avail deep = d @ rest" "ci_recursion_depth deep = ci_recursion_depth c + 1"
    "ci_recursion_limit deep = ci_recursion_limit c"
    using at_restD [OF 1(2)] by (simp_all add: deep_def)
  obtain old c2 where p: "CodedInputStream_PushLimit ?n deep = (old, c2)" by fastforce
  note q = ci_PushLimit [OF deep(1) n p] and pf = push_fields(1,2) [OF p n(1) ci_ok_position(1) [OF deep(1)]]
  have c2: "ci_ok ok last c2" "ci_unread avail c2 = d" using q(2,3) deep(2) by simp_all
  obtain r' s' where r': "parse p c2 s = parse p r' s'" "at_rest [] c2 r'" "Q s'"
    using inner [OF c2] pf deep(3,4) by auto
  obtain c3 where c3: "parse p r' s' = Some ((True, s'), c3)" "at_rest [] r' c3"
    "ci_legitimate_message_end c3 =
      (ci_position r' < ci_total_bytes_limit r' \<or> ci_current_limit r' = ci_total_bytes_limit r')"
    using parse_end [OF at_restD(1,2) [OF r'(2)]] by blast
  have u2: "int (length (ci_unread avail c2)) = ?n" by (simp add: c2(2))
  have legit: "ci_legitimate_message_end c3" using read_to_limit(3) [OF deep(1) n p u2 r'(2)] c3(3) by simp
  have a3: "at_rest [] c2 c3" by (rule at_rest_trans [OF r'(2) c3(2)])
  note mv = read_to_limit(1) [OF deep(1) n p u2 a3]
  note pp = ci_Push_Pop [OF deep(1) n p at_restD(1) [OF a3] mv]
  let ?c4 = "CodedInputStream_PopLimit old c3"
  have "at_rest rest deep ?c4"
  proof -
    have "ci_current_limit ?c4 = ci_current_limit deep"
      using q(1) by (simp add: CodedInputStream_PopLimit_def CodedInputStream_RecomputeBufferLimits_def Let_def)
    moreover have "ci_position ?c4 = ci_position c3"
      using q(1) by (auto simp: CodedInputStream_PopLimit_def CodedInputStream_RecomputeBufferLimits_def Let_def ci_position_def)
    ultimately have "ci_moves avail (length d) deep ?c4"
      using mv q(4-6) pf by (auto simp: ci_moves_def ci_frame_def limit_fields)
    moreover have "ci_unread avail ?c4 = rest" using pp(2) deep(2) by simp
    ultimately show ?thesis using moves_at_rest [OF pp(1) _ deep(2)] by simp
  qed
  then have "at_rest rest c (?c4\<lparr>ci_recursion_depth := ci_recursion_depth ?c4 - 1\<rparr>)"
    unfolding deep_def by (intro at_rest_trans [OF 1(2)] at_rest_deeper)
  moreover have "ci_recursion_depth ?c4 > 0"
    using at_restD(3) [OF a3] pf(1) deep(3) depth(1) by (simp add: limit_fields)
  then have "CodedInputStream_DecrementRecursionDepth ?c4 = ?c4\<lparr>ci_recursion_depth := ci_recursion_depth ?c4 - 1\<rparr>"
    by (simp add: CodedInputStream_DecrementRecursionDepth_def)
  moreover have "CodedInputStream_IncrementRecursionDepth c1 = (True, deep)"
    using at_restD(3,4) [OF 1(2)] depth(2) by (simp add: CodedInputStream_IncrementRecursionDepth_def deep_def)
  ultimately show ?thesis
    using 1(1) p r'(1,3) c3(1) legit unat_string_length(2) [OF l]
    by (auto simp: ReadMessage_def CodedInputStream_ConsumedEntireMessage_def)
qed

lemma read_group_back:
  assumes c: "ci_ok ok last c" "ci_unread avail c = d @ tag_bytes n WIRETYPE_END_GROUP @ rest" and n: "valid_number n"
    and depth: "0 \<le> ci_recursion_depth c" "ci_recursion_depth c < ci_recursion_limit c"
    and inner: "\<And>r. ci_ok ok last r \<Longrightarrow> ci_unread avail r = d @ tag_bytes n WIRETYPE_END_GROUP @ rest \<Longrightarrow>
      ci_recursion_depth r = ci_recursion_depth c + 1 \<Longrightarrow> ci_recursion_limit r = ci_recursion_limit c \<Longrightarrow>
      \<exists>r' s'. parse p r s = parse p r' s' \<and> at_rest (tag_bytes n WIRETYPE_END_GROUP @ rest) r r' \<and> Q s'"
  shows "\<exists>c' s'. ReadGroup (parse p) n c s = Some ((True, s'), c') \<and> at_rest rest c c' \<and> Q s'"
proof -
  define deep where "deep = c\<lparr>ci_recursion_depth := ci_recursion_depth c + 1\<rparr>"
  have deep: "ci_ok ok last deep" "ci_unread avail deep = d @ tag_bytes n WIRETYPE_END_GROUP @ rest"
    "ci_recursion_depth deep = ci_recursion_depth c + 1" "ci_recursion_limit deep = ci_recursion_limit c"
    using c by (simp_all add: deep_def)
  obtain r' s' where r': "parse p deep s = parse p r' s'" "at_rest (tag_bytes n WIRETYPE_END_GROUP @ rest) deep r'" "Q s'"
    using inner [OF deep] by blast
  obtain e where e: "parse p r' s' = Some ((True, s'), e)" "at_rest rest r' e"
    "ci_last_tag e = MakeTag n WIRETYPE_END_GROUP"
    by (rule parse_end_group [OF at_restD(1,2) [OF r'(2)] n])
  have a: "at_rest rest c (e\<lparr>ci_recursion_depth := ci_recursion_depth e - 1\<rparr>)"
    using at_rest_trans [OF r'(2) e(2)] unfolding deep_def by (rule at_rest_deeper)
  have "ci_recursion_depth e = ci_recursion_depth c + 1"
    using at_restD(3) [OF e(2)] at_restD(3) [OF r'(2)] deep(3) by simp
  then have "CodedInputStream_DecrementRecursionDepth e = e\<lparr>ci_recursion_depth := ci_recursion_depth e - 1\<rparr>"
    using depth(1) by (simp add: CodedInputStream_DecrementRecursionDepth_def)
  moreover have "CodedInputStream_IncrementRecursionDepth c = (True, deep)"
    using depth(2) by (simp add: CodedInputStream_IncrementRecursionDepth_def deep_def)
  ultimately show ?thesis
    using a r'(1,3) e(1,3) by (auto simp: ReadGroup_def CodedInputStream_LastTagWas_def)
qed


text \<open>A message that reads a content back: its bytes, with anything behind them, into a new message.\<close>

definition reads_content :: "pool \<Rightarrow> nat \<Rightarrow> mvalue \<Rightarrow> bool" where
  "reads_content p k src \<longleftrightarrow>
     (\<forall>c rest m. ci_ok ok last c \<and> ci_unread avail c = c_bytes p src @ rest \<and> 0 \<le> ci_recursion_depth c \<and>
        ci_recursion_depth c + int k \<le> ci_recursion_limit c \<and> message_ok p True m \<and>
        content m = blank p (c_type src) \<longrightarrow>
        (\<exists>c' m'. parse p c m = parse p c' m' \<and> at_rest rest c c' \<and> message_ok p True m' \<and> content m' = src))"

lemma reads_contentD:
  assumes "reads_content p k src" "ci_ok ok last c" "ci_unread avail c = c_bytes p src @ rest"
    "0 \<le> ci_recursion_depth c" "ci_recursion_depth c + int k \<le> ci_recursion_limit c" "message_ok p True m"
    "content m = blank p (c_type src)"
  shows "\<exists>c' m'. parse p c m = parse p c' m' \<and> at_rest rest c c' \<and> message_ok p True m' \<and> content m' = src"
  using assms unfolding reads_content_def by blast

lemma parse_sub:
  assumes p: "pool_ok p" and m: "message_ok p True m" and fd: "known_field p (msg_type m) fd"
    and ty: "cpp_type fd = CPPTYPE_MESSAGE" and n: "\<not> set_item p fd"
    and e: "is_repeated fd \<or> field_values fd (content m) = []"
    and src: "reads_content p j src" "c_type src = fd_message_type fd"
    and c: "ci_ok ok last c" "ci_unread avail c = value_bytes p fd (FMessage src) @ rest"
    and depth: "0 \<le> ci_recursion_depth c" "ci_recursion_depth c + int (Suc j) \<le> ci_recursion_limit c"
  shows "\<exists>c' m'. parse p c m = parse p c' m' \<and> at_rest rest c c' \<and>
    updated p True fd ((if is_repeated fd then field_values fd (content m) else []) @ [FMessage src]) m m'"
proof (rule parse_known [OF p m fd c(1)])
  let ?t = "kWireTypeForFieldType (fd_type fd)"
  let ?tag = "MakeTag (fd_number fd) ?t"
  define d where "d = (if fd_type fd = TYPE_GROUP
    then c_bytes p src @ tag_bytes (fd_number fd) WIRETYPE_END_GROUP else delimited (c_bytes p src))"
  have T: "fd_type fd = TYPE_GROUP \<or> fd_type fd = TYPE_MESSAGE" using ty by (cases "fd_type fd") (simp_all add: cpp_type_def)
  show "ci_unread avail c = tag_bytes (fd_number fd) ?t @ d @ rest"
    using c(2) n T by (auto simp: value_bytes.simps d_def)
  have num: "valid_number (fd_number fd)" using known_field_facts(2) [OF p fd] by (simp add: field_ok_def)
  have w: "GetTagWireType ?tag = ?t" "GetTagFieldNumber ?tag = fd_number fd"
    using valid_tag [OF num] by (simp_all add: wire_type_valid)
  fix c1 assume c1: "ci_ok ok last c1" "ci_unread avail c1 = d @ rest"
    "ci_recursion_depth c1 = ci_recursion_depth c" "ci_recursion_limit c1 = ci_recursion_limit c"
  obtain s m1 where s: "sub_message p fd m = Some (s, m1)" "message_ok p True s" "content s = blank p (c_type src)"
    and store: "\<And>s'. message_ok p True s' \<Longrightarrow> msg_type s' = fd_message_type fd \<Longrightarrow>
      \<exists>m2. store_sub_message fd s' m1 = Some m2 \<and> updated p True fd
        ((if is_repeated fd then field_values fd (content m) else []) @ [FMessage (content s')]) m m2"
  proof (rule sub_message_ok [OF p m fd ty])
    fix s m1
    assume 1: "sub_message p fd m = Some (s, m1)" "message_ok p True s"
      "True \<Longrightarrow> is_repeated fd \<or> field_values fd (content m) = [] \<Longrightarrow> content s = blank p (fd_message_type fd)"
      and 2: "\<And>s'. message_ok p True s' \<Longrightarrow> msg_type s' = fd_message_type fd \<Longrightarrow>
        \<exists>m2. store_sub_message fd s' m1 = Some m2 \<and> updated p True fd
          ((if is_repeated fd then field_values fd (content m) else []) @ [FMessage (content s')]) m m2"
    show thesis by (rule that [OF 1(1,2) _ 2]) (use 1(3) e src(2) in simp_all)
  qed
  let ?Q = "\<lambda>s'. message_ok p True s' \<and> content s' = src"
  have store': "\<exists>m2. store_sub_message fd s' m1 = Some m2 \<and> updated p True fd
        ((if is_repeated fd then field_values fd (content m) else []) @ [FMessage src]) m m2" if "?Q s'" for s'
    using store [of s'] that src(2) by (metis c_type_content)
  have depth1: "0 \<le> ci_recursion_depth c1" "ci_recursion_depth c1 < ci_recursion_limit c1" using depth c1(3,4) by simp_all
  have inner: "\<exists>r' s'. parse p r s = parse p r' s' \<and> at_rest rest' r r' \<and> ?Q s'"
    if "ci_ok ok last r" "ci_unread avail r = c_bytes p src @ rest'" "ci_recursion_depth r = ci_recursion_depth c1 + 1"
      "ci_recursion_limit r = ci_recursion_limit c1" for r rest'
    using reads_contentD [OF src(1) that(1,2) _ _ s(2,3)] that(3,4) depth c1(3,4) by fastforce
  show "\<exists>c2 m'. ParseAndMergeField_with p vt (parse p) ?tag (Some fd) c1 m = Some ((True, m'), c2) \<and> at_rest rest c1 c2 \<and>
      updated p True fd ((if is_repeated fd then field_values fd (content m) else []) @ [FMessage src]) m m'"
  proof (cases "fd_type fd = TYPE_GROUP")
    case True
    have "ci_unread avail c1 = c_bytes p src @ tag_bytes (fd_number fd) WIRETYPE_END_GROUP @ rest"
      using c1(2) True by (simp add: d_def)
    from read_group_back [OF c1(1) this num depth1 inner]
    obtain c2 s' where "ReadGroup (parse p) (fd_number fd) c1 s = Some ((True, s'), c2)" "at_rest rest c1 c2" "?Q s'"
      by blast
    with store' [of s'] s(1) w True show ?thesis by (auto simp: ParseAndMergeField_with_def)
  next
    case False
    then have "ci_unread avail c1 = delimited (c_bytes p src) @ rest" using c1(2) by (simp add: d_def)
    from read_message_back [OF c1(1) this depth1 inner [where rest' = "[]", unfolded append_Nil2]]
    obtain c2 s' where "ReadMessage vt (parse p) c1 s = Some ((True, s'), c2)" "at_rest rest c1 c2" "?Q s'"
      by blast
    with store' [of s'] s(1) w False T show ?thesis by (auto simp: ParseAndMergeField_with_def)
  qed
qed


text \<open>Reading one value, and then the values of a field.\<close>

definition reads_value :: "pool \<Rightarrow> nat \<Rightarrow> field_descriptor \<Rightarrow> fvalue \<Rightarrow> bool" where
  "reads_value p k fd v \<longleftrightarrow>
     (\<forall>c rest m. ci_ok ok last c \<and> ci_unread avail c = value_bytes p fd v @ rest \<and> 0 \<le> ci_recursion_depth c \<and>
        ci_recursion_depth c + int k \<le> ci_recursion_limit c \<and> message_ok p True m \<and> known_field p (msg_type m) fd \<and>
        (is_repeated fd \<or> field_values fd (content m) = []) \<longrightarrow>
        (\<exists>c' m'. parse p c m = parse p c' m' \<and> at_rest rest c c' \<and>
          updated p True fd (field_values fd (content m) @ [v]) m m'))"

lemma reads_valueD:
  assumes "reads_value p k fd v" "ci_ok ok last c" "ci_unread avail c = value_bytes p fd v @ rest"
    "0 \<le> ci_recursion_depth c" "ci_recursion_depth c + int k \<le> ci_recursion_limit c" "message_ok p True m"
    "known_field p (msg_type m) fd" "is_repeated fd \<or> field_values fd (content m) = []"
  obtains c' m' where "parse p c m = parse p c' m'" "at_rest rest c c'"
    "updated p True fd (field_values fd (content m) @ [v]) m m'"
  using assms unfolding reads_value_def by blast

lemma parse_values:
  assumes p: "pool_ok p" and m: "message_ok p True m" and fd: "known_field p (msg_type m) fd"
    and v: "\<forall>v \<in> set vs. reads_value p k fd v"
    and one: "is_repeated fd \<or> field_values fd (content m) = [] \<and> length vs \<le> 1"
    and c: "ci_ok ok last c" "ci_unread avail c = concat (map (value_bytes p fd) vs) @ rest"
    and depth: "0 \<le> ci_recursion_depth c" "ci_recursion_depth c + int k \<le> ci_recursion_limit c"
  shows "\<exists>c' m'. parse p c m = parse p c' m' \<and> at_rest rest c c' \<and>
    gains p {fd} (\<lambda>_. field_values fd (content m) @ vs) m m'"
  using m fd v one c depth
proof (induction vs arbitrary: m c)
  case Nil
  then show ?case by (auto simp: at_rest_def gains_def intro!: exI [of _ c] exI [of _ m] exI [of _ 0])
next
  case (Cons v vs)
  obtain c1 m1 where 1: "parse p c m = parse p c1 m1" "at_rest (concat (map (value_bytes p fd) vs) @ rest) c c1"
    "updated p True fd (field_values fd (content m) @ [v]) m m1"
    by (rule reads_valueD [where rest = "concat (map (value_bytes p fd) vs) @ rest",
          OF _ Cons.prems(5) _ Cons.prems(7,8,1,2)]) (use Cons.prems(3,4,6) in auto)
  note g = updated_gains [OF p Cons.prems(1,2) 1(3)]
  have g1: "message_ok p True m1" "msg_type m1 = msg_type m"
    "field_values fd (content m1) = field_values fd (content m) @ [v]"
    using g Cons.prems(2) by (simp_all add: gains_def)
  show ?case
  proof (cases "is_repeated fd")
    case True
    obtain c2 m2 where 2: "parse p c1 m1 = parse p c2 m2" "at_rest rest c1 c2"
      "gains p {fd} (\<lambda>_. field_values fd (content m1) @ vs) m1 m2"
      using Cons.IH [of m1 c1] Cons.prems(2,3,7,8) True g1(1,2) at_restD [OF 1(2)] by auto
    have "gains p {fd} (\<lambda>_. field_values fd (content m) @ v # vs) m m2"
      using g 2(3) g1 by (simp add: gains_def)
    with 1 2 show ?thesis using at_rest_trans by metis
  next
    case False
    then have "vs = []" using Cons.prems(4) by simp
    with 1 g show ?thesis by auto
  qed
qed

lemma parse_fields:
  assumes p: "pool_ok p" and m: "message_ok p True m"
    and fds: "\<forall>fd \<in> set fds. known_field p (msg_type m) fd \<and> (\<forall>v \<in> set (vs fd). reads_value p k fd v) \<and>
      (is_repeated fd \<or> length (vs fd) \<le> 1) \<and> field_values fd (content m) = []"
    and d: "distinct fds"
    and c: "ci_ok ok last c" "ci_unread avail c = concat (map (\<lambda>fd. concat (map (value_bytes p fd) (vs fd))) fds) @ rest"
    and depth: "0 \<le> ci_recursion_depth c" "ci_recursion_depth c + int k \<le> ci_recursion_limit c"
  shows "\<exists>c' m'. parse p c m = parse p c' m' \<and> at_rest rest c c' \<and> gains p (set fds) vs m m'"
  using m fds d c depth
proof (induction fds arbitrary: m c)
  case Nil
  then show ?case by (auto simp: at_rest_def gains_def intro!: exI [of _ c] exI [of _ m] exI [of _ 0])
next
  case (Cons fd fds)
  obtain c1 m1 where 1: "parse p c m = parse p c1 m1"
    "at_rest (concat (map (\<lambda>fd. concat (map (value_bytes p fd) (vs fd))) fds) @ rest) c c1"
    "gains p {fd} (\<lambda>_. vs fd) m m1"
    using parse_values [OF p Cons.prems(1), of fd "vs fd" k c] Cons.prems by auto
  then have g: "message_ok p True m1" "msg_type m1 = msg_type m"
    "\<forall>fd' \<in> set fds. field_values fd' (content m1) = field_values fd' (content m)"
    using Cons.prems(2,3) by (auto simp: gains_def)
  obtain c2 m2 where 2: "parse p c1 m1 = parse p c2 m2" "at_rest rest c1 c2" "gains p (set fds) vs m1 m2"
  proof -
    have "\<forall>fd \<in> set fds. known_field p (msg_type m1) fd \<and> (\<forall>v \<in> set (vs fd). reads_value p k fd v) \<and>
        (is_repeated fd \<or> length (vs fd) \<le> 1) \<and> field_values fd (content m1) = []"
      using Cons.prems(2) g(2,3) by simp
    from Cons.IH [OF g(1) this _ at_restD(1,2) [OF 1(2)]] Cons.prems(3,6,7) at_restD(3,4) [OF 1(2)] that
    show thesis by auto
  qed
  have "gains p (set (fd # fds)) vs m m2" using 1(3) 2(3) g(2) by (auto simp: gains_def)
  with 1 2 show ?case using at_rest_trans by metis
qed

text \<open>The unknown fields.\<close>

lemma parse_unknown:
  assumes p: "pool_ok p" and m: "message_ok p True m"
    and set: "\<not> d_message_set_wire_format (pool_types p ! msg_type m)"
    and i: "\<forall>i \<in> set items. item_ok k i \<and> unknown_number p (msg_type m) (item_number i)"
    and c: "ci_ok ok last c" "ci_unread avail c = items_bytes items @ rest"
    and depth: "0 \<le> ci_recursion_depth c" "ci_recursion_depth c + int k \<le> ci_recursion_limit c"
  shows "\<exists>c' m'. parse p c m = parse p c' m' \<and> at_rest rest c c' \<and> message_ok p True m' \<and> msg_type m' = msg_type m \<and>
    c_unknown (content m') = fold add_item items (c_unknown (content m)) \<and>
    (\<forall>fd. field_values fd (content m') = field_values fd (content m))"
  using m set i c depth
proof (induction items arbitrary: m c)
  case Nil
  then show ?case by (auto simp: at_rest_def intro!: exI [of _ c] exI [of _ m] exI [of _ 0])
next
  case (Cons i items)
  obtain d where d: "descriptor_of p (msg_type m) = Some d" using message_ok_descriptor [OF Cons.prems(1)] by auto
  obtain t pr h slots exts u cs where M: "m = Message t pr h slots exts u cs" by (cases m)
  note E = message_okD [OF Cons.prems(1) [unfolded M], of d]
  have u: "ufs_ok u" "ufs_clean u" using E d by (simp_all add: M)
  obtain c1 u1 where r: "item_read c u i (items_bytes items @ rest) c1 u1"
  proof (rule read_item [OF Cons.prems(4) _ u Cons.prems(6,7)])
    show "ci_unread avail c = item_bytes i @ items_bytes items @ rest" using Cons.prems(5) by simp
    show "item_ok k i" using Cons.prems(3) by simp
  qed
  obtain ty c0 where ty: "CodedInputStream_ReadTag vt c = Some (MakeTag (item_number i) ty, c0)" "valid_number (item_number i)"
    "\<forall>k. ty \<noteq> WIRETYPE_OTHER k" "ty \<noteq> WIRETYPE_END_GROUP"
    "SkipField vt (MakeTag (item_number i) ty) c0 (Some u) = Some ((True, Some u1), c1)"
    and u1: "at_rest (items_bytes items @ rest) c c1" "ufs_ok u1" "ufs_clean u1" "ufs_value u1 = add_item i (ufs_value u)"
    using r by (auto simp: item_read_def)
  let ?m1 = "with_unknown_fields u1 m"
  have f: "field_for_tag p d (MakeTag (item_number i) ty) m = None"
    using Cons.prems(3) field_for_unknown [OF _ d ty(2,3)] by simp
  have 1: "parse p c m = parse p c1 ?m1"
    by (rule parse_step [OF ty(1-4) d f])
      (use Cons.prems(2) d ty(5) in \<open>auto simp: ParseAndMergeField_with_def skip_unknown_def M descriptor_of_Some\<close>)
  have m1: "message_ok p True ?m1"
    using E(1) d unfolding M with_unknown_fields.simps
    by (auto intro!: message_ok_slot_ok.message [OF _ E(2-7)] simp: u1(2,3) M)
  have t1: "msg_type ?m1 = msg_type m" by simp
  obtain c2 m2 where 2: "parse p c1 ?m1 = parse p c2 m2" "at_rest rest c1 c2" "message_ok p True m2" "msg_type m2 = msg_type m"
    "c_unknown (content m2) = fold add_item items (c_unknown (content ?m1))"
    "\<forall>fd. field_values fd (content m2) = field_values fd (content ?m1)"
    using Cons.IH [OF m1 _ _ at_restD(1,2) [OF u1(1)]] Cons.prems(2,3,6,7) at_restD(3,4) [OF u1(1)] that
    by (auto simp del: c_unknown_content)
  have "c_unknown (content ?m1) = add_item i (c_unknown (content m))"
    "field_values fd (content ?m1) = field_values fd (content m)" for fd
    using u1(4) by (simp_all add: M)
  with 1 2 u1(1) show ?case using at_rest_trans by (metis fold_simps(2))
qed


section \<open>Reading a content back\<close>

lemma singular_values:
  assumes p: "pool_ok p" and m: "message_ok p strict m" and fd: "known_field p (msg_type m) fd"
  shows "is_repeated fd \<or> length (field_values fd (content m)) \<le> 1"
proof (cases "field_values fd (content m) = []")
  case False
  then obtain s where "slot_ok p strict fd s" "field_values fd (content m) = snd (slot_values s)" "\<not> null_slot s"
    using value_slot [OF p m fd] by metis
  then show ?thesis using singular_length [of p strict fd s] by (cases "is_repeated fd") simp_all
qed simp

lemma parse_content_step:
  assumes p: "pool_ok p" and m: "message_ok p str m" and r: "readable p k (content m)"
    and sub: "\<And>fd s. known_field p (msg_type m) fd \<Longrightarrow> FMessage (content s) \<in> set (field_values fd (content m)) \<Longrightarrow>
      message_ok p str s \<Longrightarrow> msg_type s = fd_message_type fd \<Longrightarrow> \<exists>j. k = Suc j \<and> reads_content p j (content s)"
  shows "reads_content p k (content m)"
  unfolding reads_content_def
proof (intro allI impI, elim conjE)
  fix c rest n
  let ?src = "content m"
  assume c: "ci_ok ok last c" "ci_unread avail c = c_bytes p ?src @ rest"
    and depth: "0 \<le> ci_recursion_depth c" "ci_recursion_depth c + int k \<le> ci_recursion_limit c"
    and n: "message_ok p True n" "content n = blank p (c_type ?src)"
  have t: "msg_type n = msg_type m" using n(2) c_type_content [of n] by (simp add: blank_def)
  have sh: "c_shape p ?src" "c_shape p (content n)" using content_shape m n(1) by blast+
  note here = readable_here [OF r, unfolded readable_here_def]
  have none: "field_values fd (content n) = []" if "known_field p (msg_type m) fd" for fd
  proof (cases rule: known_field_cases [OF p that, case_names own ext])
    case (own d)
    with own_field(3) [OF p own(1,2)] show ?thesis by (simp add: n(2) blank_def descriptor_of_Some)
  next
    case (ext d)
    then show ?thesis by (simp add: n(2) blank_def)
  qed
  let ?fds = "c_fields p ?src"
  have fds: "set ?fds = {fd. known_field p (msg_type m) fd \<and> field_values fd ?src \<noteq> []}"
    using set_c_fields [OF p sh(1)] by simp
  have val: "reads_value p k fd v" if fd: "known_field p (msg_type m) fd" and v: "v \<in> set (field_values fd ?src)" for fd v
    unfolding reads_value_def
  proof (intro allI impI, elim conjE)
    fix c rest n
    assume 1: "ci_ok ok last c" "ci_unread avail c = value_bytes p fd v @ rest" "0 \<le> ci_recursion_depth c"
      "ci_recursion_depth c + int k \<le> ci_recursion_limit c" "message_ok p True n" "known_field p (msg_type n) fd"
      "is_repeated fd \<or> field_values fd (content n) = []"
    have old: "(if is_repeated fd then field_values fd (content n) else []) = field_values fd (content n)"
      using 1(7) by (cases "is_repeated fd") simp_all
    from values_ok [OF p m fd v]
    show "\<exists>c' m'. parse p c n = parse p c' m' \<and> at_rest rest c c' \<and>
        updated p True fd (field_values fd (content n) @ [v]) n m'"
    proof (elim disjE exE conjE)
      fix x assume x: "v = FScalar x" "scalar_ok p fd x"
      show ?thesis
        using parse_scalar [OF p 1(5,6) x(2) 1(1)] 1(2) x(1) unfolding old by blast
    next
      fix s assume s: "v = FMessage (content s)" "message_ok p str s" "msg_type s = fd_message_type fd"
        "cpp_type fd = CPPTYPE_MESSAGE"
      obtain j where j: "k = Suc j" "reads_content p j (content s)" using sub [OF fd _ s(2,3)] v s(1) by blast
      have "\<not> set_item p fd"
        using here known_field_facts(1) [OF p fd] by (simp add: set_item_def)
      then show ?thesis
        using parse_sub [OF p 1(5,6) s(4) _ 1(7) j(2) _ 1(1) _ 1(3)] 1(2,4) s(1,3) j(1) unfolding old by simp
    qed
  qed
  let ?items = "concat (map uv_items (c_unknown ?src))"
  have bytes: "c_bytes p ?src = concat (map (\<lambda>fd. concat (map (value_bytes p fd) (field_values fd ?src))) ?fds) @
      items_bytes ?items"
    using c_bytes_content [OF p m] here by (simp add: unknown_bytes_def)
  obtain c1 n1 where 1: "parse p c n = parse p c1 n1" "at_rest (items_bytes ?items @ rest) c c1"
    "gains p (set ?fds) (\<lambda>fd. field_values fd ?src) n n1"
  proof -
    have "\<forall>fd \<in> set ?fds. known_field p (msg_type n) fd \<and> (\<forall>v \<in> set (field_values fd ?src). reads_value p k fd v) \<and>
        (is_repeated fd \<or> length (field_values fd ?src) \<le> 1) \<and> field_values fd (content n) = []"
      using fds val none singular_values [OF p m] by (simp add: t)
    from parse_fields [OF p n(1) this distinct_c_fields [OF p sh(1)] c(1) _ depth] c(2) bytes that
    show thesis by auto
  qed
  then have n1: "message_ok p True n1" "msg_type n1 = msg_type m" "c_unknown (content n1) = []"
    using n(2) t by (simp_all add: gains_def blank_def)
  obtain c2 n2 where 2: "parse p c1 n1 = parse p c2 n2" "at_rest rest c1 c2" "message_ok p True n2"
    "msg_type n2 = msg_type m" "c_unknown (content n2) = fold add_item ?items []"
    "\<forall>fd. field_values fd (content n2) = field_values fd (content n1)"
  proof -
    have num: "\<forall>i \<in> set (uv_items v). item_number i = uv_number v" for v by (cases v) auto
    have "\<forall>i \<in> set ?items. item_ok k i \<and> unknown_number p (msg_type n1) (item_number i)"
      using here num n1(2) by (fastforce simp: list_all_iff)
    from parse_unknown [OF p n1(1) _ this at_restD(1,2) [OF 1(2)]] here n1 depth at_restD(3,4) [OF 1(2)] that
    show thesis by (auto simp del: c_unknown_content)
  qed
  have "content n2 = ?src"
  proof (rule mvalue_eqI [OF p content_shape [OF 2(3)] sh(1)])
    show "c_unknown (content n2) = c_unknown ?src"
      using 2(5) readd here by (auto simp: list_all_iff)
    fix fd assume "known_field p (c_type (content n2)) fd"
    then have fd: "known_field p (msg_type m) fd" using 2(4) by simp
    then have "field_values fd (content n2) = (if fd \<in> set ?fds then field_values fd ?src else field_values fd (content n))"
      using 2(6) 1(3) t by (simp add: gains_def)
    then show "field_values fd (content n2) = field_values fd ?src" using fds fd none by auto
  qed (use 2(4) in simp)
  with 1 2 show "\<exists>c' m'. parse p c n = parse p c' m' \<and> at_rest rest c c' \<and> message_ok p True m' \<and> content m' = ?src"
    using at_rest_trans by metis
qed

lemma parse_content:
  assumes p: "pool_ok p" and m: "message_ok p str m" and r: "readable p k (content m)"
  shows "reads_content p k (content m)"
  using m r
proof (induction k arbitrary: m)
  case 0
  have False if "known_field p (msg_type m) fd" "FMessage (content s) \<in> set (field_values fd (content m))" for fd s
    using field_message [OF p content_shape [OF 0(1)], of fd] that 0(2) by simp
  with 0 show ?case by (intro parse_content_step [OF p]) blast+
next
  case (Suc k)
  show ?case
  proof (rule parse_content_step [OF p Suc.prems])
    fix fd s assume "known_field p (msg_type m) fd" "FMessage (content s) \<in> set (field_values fd (content m))"
      and s: "message_ok p str s"
    then have "content s \<in> set (c_messages (content m))"
      using field_message [OF p content_shape [OF Suc.prems(1)], of fd] by simp
    then have "readable p k (content s)" using Suc.prems(2) by (simp add: list_all_iff)
    with Suc.IH [OF s] show "\<exists>j. Suc k = Suc j \<and> reads_content p j (content s)" by blast
  qed
qed


text \<open>A whole stream, into a new message.\<close>

lemma merge_content:
  assumes p: "pool_ok p" and m: "message_ok p str m" and r: "readable p 64 (content m)"
    and s: "ok s" "avail s = c_bytes p (content m)" "int (length (avail s)) < kDefaultTotalBytesLimit"
    and n: "message_ok p True n" "content n = blank p (msg_type m)"
  obtains n' c s' where "MergePartialFromCodedStream p vt (CodedInputStream s) n = Some ((True, n'), c)"
    "CodedInputStream_ConsumedEntireMessage c" "CodedInputStream_destroy vt c = Some s'"
    "message_ok p True n'" "content n' = content m"
proof -
  let ?c = "CodedInputStream s"
  have c: "ci_ok ok last ?c" "ci_unread avail ?c = c_bytes p (content m) @ []"
    using s ci_init(2) [of ok s avail] by (simp_all add: ci_init(1))
  have "0 \<le> ci_recursion_depth ?c" "ci_recursion_depth ?c + int 64 \<le> ci_recursion_limit ?c"
    by (simp_all add: CodedInputStream_def kDefaultRecursionLimit_def)
  from reads_contentD [OF parse_content [OF p m r] c this n(1)] n(2)
  obtain c1 n' where 1: "parse p ?c n = parse p c1 n'" "at_rest [] ?c c1" "message_ok p True n'" "content n' = content m"
    by auto
  obtain c2 where 2: "parse p c1 n' = Some ((True, n'), c2)" "at_rest [] c1 c2"
    "ci_legitimate_message_end c2 =
      (ci_position c1 < ci_total_bytes_limit c1 \<or> ci_current_limit c1 = ci_total_bytes_limit c1)"
    using parse_end [OF at_restD(1,2) [OF 1(2)]] by blast
  have a: "at_rest [] ?c c2" by (rule at_rest_trans [OF 1(2) 2(2)])
  have moved: "ci_position e \<le> int (length (avail s)) \<and> ci_total_bytes_limit e = kDefaultTotalBytesLimit"
    if "at_rest [] ?c e" for e
    using that c(2) s(2)
    by (auto simp: at_rest_def ci_moves_def ci_frame_def CodedInputStream_def ci_position_def)
  have "ci_legitimate_message_end c2" using moved [OF 1(2)] s(3) 2(3) by simp
  moreover have "ci_overflow_bytes c2 = 0"
  proof -
    have "ci_total_bytes_read c2 \<noteq> INT_MAX"
    proof
      assume t: "ci_total_bytes_read c2 = INT_MAX"
      have "ci_pending avail c2 = []"
      proof -
        obtain k where k: "ci_moves avail k ?c c2" "ci_unread avail c2 = []" using a by (auto simp: at_rest_def)
        have "ci_closest c2 = kDefaultTotalBytesLimit"
          using k(1) by (simp add: ci_moves_def ci_frame_def ci_closest_def CodedInputStream_def
              kDefaultTotalBytesLimit_def INT_MAX_def)
        then show ?thesis using k(2) moved [OF a] s(3) by (simp add: ci_unread_def)
      qed
      then have "ci_buffer c2 = []" by (simp add: ci_pending_def)
      then have "ci_buffer_size c2 + ci_buffer_size_after_limit c2 = 0"
        using at_restD(1) [OF a] by (simp add: ci_ok_def ci_pre_def)
      then have "ci_position c2 = INT_MAX" unfolding ci_position_def t by linarith
      then show False using moved [OF a] s(3) by (simp add: kDefaultTotalBytesLimit_def INT_MAX_def)
    qed
    then show ?thesis using at_restD(1) [OF a] unfolding ci_ok_def ci_pre_def by linarith
  qed
  from coded_destroy [OF at_restD(1) [OF a] this]
  obtain s' where "CodedInputStream_destroy vt c2 = Some s'" by blast
  ultimately show thesis using that 1 2(1)
    by (simp add: MergePartialFromCodedStream_def ParseAndMergePartial_def CodedInputStream_ConsumedEntireMessage_def)
qed

end

end
