(* ===== verification/MessageWrites.thy ===== *)
theory MessageWrites
  imports MessageBytes
begin

text \<open>
  Serialization and measuring of a whole message: \<open>SerializeWithCachedSizes\<close> writes the bytes of the
  content, where the cached sizes are right, and \<open>ByteSize\<close> makes them right and returns their number.
\<close>

lemma upto_int: "[0..int n - 1] = map int [0..<n]"
  by (induction n) (simp_all add: upto_rec2)

lemma is_set_item:
  assumes "pool_ok p" "known_field p t fd"
  shows "is_message_set_item p fd = Some (set_item p fd)"
proof (cases "fd_is_extension fd")
  case True
  then obtain d where "descriptor_of p (fd_containing_type fd) = Some d"
    using known_field_cases [OF assms] known_field_facts(1) [OF assms] by metis
  moreover from this have "pool_types p ! fd_containing_type fd = d" by (auto simp: descriptor_of_def rd_def split: if_splits)
  ultimately show ?thesis using True by (simp add: is_message_set_item_def set_item_def)
qed (simp add: is_message_set_item_def set_item_def)

lemma set_item_value:
  assumes p: "pool_ok p" and m: "message_ok p strict m" and fd: "known_field p (msg_type m) fd"
    and i: "set_item p fd" and v: "field_values fd (content m) \<noteq> []"
  obtains s where "subs fd m = [s]" "GetMessage p fd m = Some s" "field_values fd (content m) = [FMessage (content s)]"
proof -
  have ty: "cpp_type fd = CPPTYPE_MESSAGE" "\<not> is_repeated fd" using i by (auto simp: set_item_def)
  note so = subs_ok [OF p m fd ty(1) v]
  have l: "0 < length (subs fd m)" using v so(1) by auto
  have "0 < length (field_values fd (content m))" using v by simp
  from singular_index(2) [OF p m fd ty(2) this] have "length (field_values fd (content m)) = 1"
    by (metis length_Cons list.size(3) One_nat_def)
  then have "length (subs fd m) = 1" by (simp add: so(1))
  then obtain s where s: "subs fd m = [s]" by (auto simp: length_Suc_conv)
  moreover have "GetMessage p fd m = Some s" using so(3) [OF l] s ty(2) by (simp add: get_message_def)
  ultimately show thesis using that so(1) by simp
qed

context zero_copy_output
begin

lemma serialize_field_emits:
  assumes p: "pool_ok p" and m: "message_ok p strict m" and fd: "known_field p (msg_type m) fd"
    and v: "field_values fd (content m) \<noteq> []"
    and sub: "\<And>s. cpp_type fd = CPPTYPE_MESSAGE \<Longrightarrow> s \<in> set (subs fd m) \<Longrightarrow>
      msg_cached_size s = int (length (c_bytes p (content s))) \<and> emits (ser s) (c_bytes p (content s))"
  shows "emits (SerializeField_with p vt ser fd m) (concat (map (value_bytes p fd) (field_values fd (content m))))"
proof (cases "set_item p fd")
  case True
  obtain s where s: "subs fd m = [s]" "GetMessage p fd m = Some s" "field_values fd (content m) = [FMessage (content s)]"
    by (rule set_item_value [OF p m fd True v])
  have "emits (ser s) (c_bytes p (content s))" and c: "msg_cached_size s = int (length (c_bytes p (content s)))"
    using sub [of s] True s(1) by (simp_all add: set_item_def)
  from emits_set_item [OF this(1), of "of_int (msg_cached_size s)" "fd_number fd"]
  have "emits (SerializeMessageSetItem_with p vt ser fd m) (set_item_bytes (fd_number fd) (c_bytes p (content s)))"
    by (simp add: SerializeMessageSetItem_with_def s(2) c del: co_seq.simps)
  moreover have "SerializeField_with p vt ser fd m = SerializeMessageSetItem_with p vt ser fd m"
    by (rule ext) (simp add: SerializeField_with_def is_set_item [OF p fd] True)
  ultimately show ?thesis by (simp add: s(3) value_bytes.simps True)
next
  case False
  let ?n = "length (field_values fd (content m))"
  have "emits (co_seq (concat (map (\<lambda>j. [write_element p vt ser fd (int j) m]) [0..<?n])))
      (concat (map (\<lambda>j. value_bytes p fd (field_values fd (content m) ! j)) [0..<?n]))"
  proof (rule emits_concat)
    fix j assume "j \<in> set [0..<?n]"
    then have "emits (write_element p vt ser fd (int j) m) (value_bytes p fd (field_values fd (content m) ! j))"
      by (intro write_element_emits [OF p m fd False _ sub]) simp
    from emits_Cons [OF this emits_Nil]
    show "emits (co_seq [write_element p vt ser fd (int j) m]) (value_bytes p fd (field_values fd (content m) ! j))"
      by simp
  qed
  moreover have "map (\<lambda>j. value_bytes p fd (field_values fd (content m) ! j)) [0..<?n] =
      map (value_bytes p fd) (field_values fd (content m))"
    by (intro nth_equalityI) auto
  moreover have "SerializeField_with p vt ser fd m =
      co_seq (concat (map (\<lambda>j. [write_element p vt ser fd (int j) m]) [0..<?n]))"
    by (rule ext) (simp add: SerializeField_with_def is_set_item [OF p fd] False field_count_ok [OF p m fd]
        upto_int comp_def concat_map_singleton del: co_seq.simps)
  ultimately show ?thesis by (simp only:)
qed

lemma serialize_emits_content:
  assumes "sized p m" "pool_ok p" "message_ok p strict m"
  shows "emits (Message_SerializeWithCachedSizes p vt m) (c_bytes p (content m))"
  using assms(1,3)
proof (induction m rule: sized.induct)
  case (sized m)
  note p = assms(2) and m = sized.prems
  let ?fds = "c_fields p (content m)" and ?ser = "Message_SerializeWithCachedSizes p vt"
  obtain d where d: "descriptor_of p (msg_type m) = Some d" using message_ok_descriptor [OF m] by auto
  let ?u = "if d_message_set_wire_format d then SerializeUnknownMessageSetItems vt (msg_unknown_fields m)
    else SerializeUnknownFields vt (msg_unknown_fields m)"
  have "emits (co_seq (concat (map (\<lambda>fd. [SerializeField_with p vt ?ser fd m]) ?fds)))
      (concat (map (\<lambda>fd. concat (map (value_bytes p fd) (field_values fd (content m)))) ?fds))"
  proof (rule emits_concat)
    fix fd assume "fd \<in> set ?fds"
    then have fd: "known_field p (msg_type m) fd" "field_values fd (content m) \<noteq> []"
      using set_c_fields [OF p content_shape [OF m]] by simp_all
    have "msg_cached_size s = int (length (c_bytes p (content s))) \<and> emits (?ser s) (c_bytes p (content s))"
      if "cpp_type fd = CPPTYPE_MESSAGE" "s \<in> set (subs fd m)" for s
      using sized.IH [OF fd(1) that(1) fd(2) that(2)] sizedD(1) [OF sized.hyps(2)[OF fd(1) that(1) fd(2) that(2)]] subs_ok(2) [OF p m fd(1) that(1) fd(2) that(2)] by auto
    from serialize_field_emits [OF p m fd this]
    have "emits (SerializeField_with p vt ?ser fd m) (concat (map (value_bytes p fd) (field_values fd (content m))))" .
    from emits_Cons [OF this emits_Nil]
    show "emits (co_seq [SerializeField_with p vt ?ser fd m]) (concat (map (value_bytes p fd) (field_values fd (content m))))"
      by simp
  qed
  from emits_append [OF this emits_Cons [OF emits_unknown [OF d] emits_Nil]]
  have body: "emits (co_seq (map (\<lambda>fd. SerializeField_with p vt ?ser fd m) ?fds @ [?u])) (c_bytes p (content m))"
    by (simp add: concat_map_singleton c_bytes_content [OF p m] del: co_seq.simps)
  show ?case
    unfolding emits_def
  proof (intro allI impI)
    fix base c
    assume "co_ok vt ok lent base c" "co_fits c (length (c_bytes p (content m)))"
    then obtain r c' where r: "co_seq (map (\<lambda>fd. SerializeField_with p vt ?ser fd m) ?fds @ [?u]) c = Some (r, c')"
      "ok (co_output c')" "r \<Longrightarrow> co_wrote vt ok written lent base (c_bytes p (content m)) c c'"
      using body unfolding emits_def writes_def by blast
    then show "writes base (c_bytes p (content m)) c (?ser m c)"
      by (subst Message_SerializeWithCachedSizes.simps, cases r)
        (auto simp: SerializeWithCachedSizes_with_def ListFields_ok [OF p m] d writes_def co_wrote_def sized.hyps(1)
          simp del: co_seq.simps)
  qed
qed

end

text \<open>Over a stream whose \<open>Next\<close> never returns false the serialization does not either.\<close>

lemma never_false_bind: "(\<And>x. q = Some x \<Longrightarrow> never_false (w x)) \<Longrightarrow> never_false (\<lambda>c. Option.bind q (\<lambda>x. w x c))"
  by (cases q) (simp_all add: never_false_def)

lemma never_false_if: "never_false v \<Longrightarrow> never_false w \<Longrightarrow> never_false (\<lambda>c. if b then v c else w c)"
  by (simp add: never_false_def)

lemma write_element_never_false:
  assumes next_: "\<And>s s'. out_next vt s \<noteq> Some (None, s')" and ser: "\<And>m. never_false (ser m)"
  shows "never_false (write_element p vt ser fd j m)"
proof -
  note w = value_writers_never_false [OF next_] writers_never_false [OF next_]
  have g: "never_false (WriteGroup vt ser n s)" "never_false (WriteMessage vt ser sz n s)" for n s sz
    unfolding WriteGroup_def WriteMessage_def by (rule co_seq_never_false, use w ser in auto)+
  show ?thesis
    unfolding write_element_def
    by (cases "fd_type fd"; simp only: field_type.case; intro never_false_bind w g)
qed

lemma serialize_with_never_false:
  assumes next_: "\<And>s s'. out_next vt s \<noteq> Some (None, s')" and ser: "\<And>m. never_false (ser m)"
  shows "never_false (SerializeWithCachedSizes_with p vt ser sz m)"
proof -
  note w = writers_never_false [OF next_] write_element_never_false [OF next_ ser]
  have item: "never_false (SerializeMessageSetItem_with p vt ser fd m)" for fd
    unfolding SerializeMessageSetItem_with_def
    by (rule co_seq_never_false) (auto intro!: w never_false_bind ser)
  have field: "never_false (SerializeField_with p vt ser fd m)" for fd
    unfolding SerializeField_with_def
    by (intro never_false_bind never_false_if item co_seq_never_false) (auto intro: w)
  have unknown: "never_false (SerializeUnknownMessageSetItems vt u)" "never_false (SerializeUnknownFields vt u)" for u
    using serialize_never_false(2) [OF next_]
    by (auto simp: SerializeUnknownMessageSetItems_def intro!: co_seq_never_false w split: if_splits)
  have seq: "co_seq (map (\<lambda>fd. SerializeField_with p vt ser fd m) fields @ [w]) c \<noteq> Some (False, c')"
    if "never_false w" for fields w c c'
  proof -
    have "never_false (co_seq (map (\<lambda>fd. SerializeField_with p vt ser fd m) fields @ [w]))"
      by (rule co_seq_never_false) (use that field in auto)
    then show ?thesis by (simp add: never_false_def)
  qed
  show ?thesis
    unfolding SerializeWithCachedSizes_with_def never_false_def
    by (auto simp: seq [OF unknown(1)] seq [OF unknown(2)] split: if_splits bind_splits)
qed

lemma message_never_false:
  assumes "\<And>s s'. out_next vt s \<noteq> Some (None, s')"
  shows "never_false (Message_SerializeWithCachedSizes p vt m)"
proof -
  have "fst r" if "Message_SerializeWithCachedSizes p vt m c = Some r" for m c r
  proof (rule Message_SerializeWithCachedSizes.raw_induct
      [where P = "\<lambda>p vt' m c r. vt' = vt \<longrightarrow> fst r", OF _ that, THEN mp, OF _ refl])
    fix f p vt' m c r
    assume IH: "\<And>p vt' m c r. f p vt' m c = Some r \<Longrightarrow> vt' = vt \<longrightarrow> fst r"
      and body: "SerializeWithCachedSizes_with p vt' (f p vt') (msg_cached_size m) m c = Some (r :: bool \<times> _)"
    show "vt' = vt \<longrightarrow> fst r"
    proof
      assume "vt' = vt"
      moreover have "never_false (f p vt m)" for m using IH by (force simp: never_false_def)
      ultimately show "fst r"
        using serialize_with_never_false [OF assms, of "f p vt" p "msg_cached_size m" m] body
        by (cases r; cases "fst r") (auto simp: never_false_def)
    qed
  qed
  then show ?thesis by (auto simp: never_false_def)
qed

section \<open>Measuring\<close>

text \<open>A message with the same content whose cached sizes are right, and one of which this holds for a field.\<close>

definition remeasured :: "pool \<Rightarrow> bool \<Rightarrow> message \<Rightarrow> message \<Rightarrow> bool" where
  "remeasured p strict m m' \<longleftrightarrow> message_ok p strict m' \<and> msg_type m' = msg_type m \<and> content m' = content m"

definition field_measured :: "pool \<Rightarrow> bool \<Rightarrow> field_descriptor \<Rightarrow> message \<Rightarrow> message \<Rightarrow> bool" where
  "field_measured p strict fd m m' \<longleftrightarrow> remeasured p strict m m' \<and>
     (cpp_type fd = CPPTYPE_MESSAGE \<longrightarrow> (\<forall>s \<in> set (subs fd m'). sized p s)) \<and>
     (\<forall>fd'. known_field p (msg_type m) fd' \<longrightarrow> fd' \<noteq> fd \<longrightarrow> subs fd' m' = subs fd' m)"

definition measures :: "pool \<Rightarrow> bool \<Rightarrow> measure_message \<Rightarrow> (mvalue \<Rightarrow> int) \<Rightarrow> message \<Rightarrow> bool" where
  "measures p strict sz k m \<longleftrightarrow> (\<exists>m'. sz m = Some (k (content m), m') \<and> remeasured p strict m m' \<and> sized p m')"

lemma measure_repeated_ok:
  assumes p: "pool_ok p" and ty: "cpp_type fd = CPPTYPE_MESSAGE" and r: "is_repeated fd"
    and sz: "\<And>s. message_ok p strict s \<Longrightarrow> FMessage (content s) \<in> set vs \<Longrightarrow> measures p strict sz k s"
    and g: "\<And>c. FMessage c \<in> set vs \<Longrightarrow> g (FMessage c) = k c"
  shows "message_ok p strict m \<Longrightarrow> known_field p (msg_type m) fd \<Longrightarrow> field_values fd (content m) = vs \<Longrightarrow> vs \<noteq> [] \<Longrightarrow>
    length (subs fd m) = n \<Longrightarrow> i \<le> n \<Longrightarrow> (\<forall>j < i. sized p (subs fd m ! j)) \<Longrightarrow>
    \<exists>m'. measure_repeated sz fd (map int [i..<n]) m = Some (sum_list (map g (drop i vs)), m') \<and>
      field_measured p strict fd m m'"
proof (induction "n - i" arbitrary: i m)
  case 0
  then have "i = n" by simp
  moreover have "length vs = n" using subs_ok(1) [OF p "0.prems"(1,2) ty] 0 by (metis length_map)
  ultimately show ?case
    using 0 by (auto simp: field_measured_def remeasured_def in_set_conv_nth)
next
  case (Suc x)
  note m = Suc.prems(1,2) and vs = Suc.prems(3,4)
  have ne: "field_values fd (content m) \<noteq> []" using vs by simp
  note so = subs_ok [OF p m ty ne]
  have i: "i < length (subs fd m)" using Suc by simp
  let ?s = "subs fd m ! i"
  have s: "message_ok p strict ?s" "msg_type ?s = fd_message_type fd" "get_message p fd (int i) m = Some ?s"
    using so(2) [OF nth_mem [OF i]] so(3) [OF i] by auto
  have v: "vs ! i = FMessage (content ?s)" "i < length vs" using so(1) i vs by simp_all
  then have mem: "FMessage (content ?s) \<in> set vs" by (metis nth_mem)
  from sz [OF s(1) mem] obtain s' where s': "sz ?s = Some (k (content ?s), s')" "remeasured p strict ?s s'" "sized p s'"
    by (auto simp: measures_def)
  from store_sub_ok [OF p m ty ne i, of s'] s' s(2) obtain m2 where
    2: "store_sub fd i s' m = Some m2" "message_ok p strict m2" "msg_type m2 = msg_type m" "content m2 = content m"
      "subs fd m2 = (subs fd m)[i := s']"
      "\<And>fd'. known_field p (msg_type m) fd' \<Longrightarrow> fd' \<noteq> fd \<Longrightarrow> subs fd' m2 = subs fd' m"
    by (auto simp: remeasured_def)
  have "\<forall>j < Suc i. sized p (subs fd m2 ! j)"
    using Suc.prems(7) s'(3) i by (auto simp: 2(5) nth_list_update less_Suc_eq)
  moreover have "x = n - Suc i" "Suc i \<le> n" using Suc.hyps(2) by linarith+
  moreover have "known_field p (msg_type m2) fd" "field_values fd (content m2) = vs" "length (subs fd m2) = n"
    using m(2) vs(1) Suc.prems(5) by (simp_all add: 2(3-5))
  ultimately obtain m' where
    m': "measure_repeated sz fd (map int [Suc i..<n]) m2 = Some (sum_list (map g (drop (Suc i) vs)), m')"
      "field_measured p strict fd m2 m'"
    using Suc.hyps(1) 2(2) vs(2) by blast
  have "[i..<n] = i # [Suc i..<n]" using i Suc.prems by (simp add: upt_conv_Cons)
  moreover have "drop i vs = FMessage (content ?s) # drop (Suc i) vs" using v by (metis Cons_nth_drop_Suc)
  moreover have "GetRepeatedMessage fd (int i) m = Some ?s" "store_repeated_message fd (int i) s' m = Some m2"
    using s(3) 2(1) r by (simp_all add: get_message_def store_sub_def)
  moreover have "field_measured p strict fd m m'"
    using m'(2) 2(3,4,6) by (auto simp: field_measured_def remeasured_def)
  ultimately show ?case using s'(1) m'(1) g [OF mem] by (simp del: upt_Suc)
qed

text \<open>One field: its size is the number of its bytes.\<close>

lemma measure_values_ok:
  "(\<And>j. j < length vs \<Longrightarrow> sz (int j) = Some (g (vs ! j))) \<Longrightarrow>
    measure_values sz (map int [0..<length vs]) = Some (sum_list (map g vs))"
proof -
  assume sz: "\<And>j. j < length vs \<Longrightarrow> sz (int j) = Some (g (vs ! j))"
  have "i \<le> length vs \<Longrightarrow> measure_values sz (map int [i..<length vs]) = Some (sum_list (map g (drop i vs)))" for i
  proof (induction "length vs - i" arbitrary: i)
    case (Suc x)
    then have "[i..<length vs] = i # [Suc i..<length vs]" "drop i vs = vs ! i # drop (Suc i) vs" "i < length vs"
      "measure_values sz (map int [Suc i..<length vs]) = Some (sum_list (map g (drop (Suc i) vs)))"
      by (simp_all add: upt_conv_Cons Cons_nth_drop_Suc)
    with sz show ?case by (simp del: upt_Suc)
  qed simp
  from this [of 0] show ?thesis by simp
qed

lemma sum_with_tags:
  "int (length (concat (map f vs))) = int (length vs) * t + sum_list (map (\<lambda>v. int (length (f v)) - t) vs)"
  by (induction vs) (simp_all add: algebra_simps)

lemma TagSize_length:
  assumes "field_ok p fd"
  shows "TagSize (fd_number fd) (fd_type fd) =
    (if fd_type fd = TYPE_GROUP
     then int (length (tag_bytes (fd_number fd) WIRETYPE_START_GROUP)) + int (length (tag_bytes (fd_number fd) WIRETYPE_END_GROUP))
     else int (length (tag_bytes (fd_number fd) (kWireTypeForFieldType (fd_type fd)))))"
proof -
  have "valid_number (fd_number fd)" using assms by (simp add: field_ok_def)
  note t = tag_size [OF this]
  have "\<forall>m. kWireTypeForFieldType ty \<noteq> WIRETYPE_OTHER m" for ty by (cases ty) simp_all
  with t [of WIRETYPE_START_GROUP] t [of WIRETYPE_END_GROUP] t show ?thesis
    by (simp add: TagSize_def Let_def)
qed

lemma delimited_length: "int (length (delimited d)) = CodedOutputStream_VarintSize32 (of_nat (length d)) + int (length d)"
  by (simp add: delimited_def VarintSize32_length)

definition value_size_of :: "pool \<Rightarrow> field_descriptor \<Rightarrow> fvalue \<Rightarrow> int" where
  "value_size_of p fd v = int (length (value_bytes p fd v)) - TagSize (fd_number fd) (fd_type fd)"

lemma value_size_of_message:
  assumes "field_ok p fd" "\<not> set_item p fd"
  shows "fd_type fd = TYPE_GROUP \<Longrightarrow> value_size_of p fd (FMessage c) = int (length (c_bytes p c))"
    and "fd_type fd = TYPE_MESSAGE \<Longrightarrow> value_size_of p fd (FMessage c) = int (length (delimited (c_bytes p c)))"
  using assms(2) TagSize_length [OF assms(1)] by (simp_all add: value_size_of_def value_bytes.simps)

lemma value_size_of_scalar:
  assumes "field_ok p fd" "scalar_ok p fd v"
  shows "value_size_of p fd (FScalar v) = int (length (payload (fd_type fd) v))"
proof -
  have "fd_type fd \<noteq> TYPE_GROUP" using assms(2) by (cases v) (auto simp: cpp_type_def)
  then show ?thesis by (simp add: value_size_of_def value_bytes.simps TagSize_length [OF assms(1)])
qed

lemma measures_sub:
  assumes "measures p strict bs (\<lambda>c. int (length (c_bytes p c))) s"
  shows "measures p strict (GroupSize bs) (\<lambda>c. int (length (c_bytes p c))) s"
    "measures p strict (MessageSize bs) (\<lambda>c. int (length (delimited (c_bytes p c)))) s"
  using assms by (auto simp: measures_def GroupSize_def MessageSize_def delimited_length)

lemma measure_messages_ok:
  assumes p: "pool_ok p" and m: "message_ok p strict m" and fd: "known_field p (msg_type m) fd"
    and ty: "cpp_type fd = CPPTYPE_MESSAGE" and v: "field_values fd (content m) \<noteq> []"
    and sz: "\<And>s. message_ok p strict s \<Longrightarrow> FMessage (content s) \<in> set (field_values fd (content m)) \<Longrightarrow> measures p strict sz k s"
    and g: "\<And>c. g (FMessage c) = k c"
  shows "\<exists>m'. measure_messages p sz fd (int (length (field_values fd (content m)))) m =
    Some (sum_list (map g (field_values fd (content m))), m') \<and> field_measured p strict fd m m'"
proof -
  note so = subs_ok [OF p m fd ty v]
  let ?vs = "field_values fd (content m)"
  have n: "length ?vs = length (subs fd m)" by (simp add: so(1))
  show ?thesis
  proof (cases "is_repeated fd")
    case True
    from measure_repeated_ok [where i = 0 and n = "length ?vs", OF p ty True sz g m fd refl v n [symmetric]]
    show ?thesis by (simp add: measure_messages_def True upto_int)
  next
    case False
    have "0 < length ?vs" using v by simp
    from singular_index(2) [OF p m fd False this] n have "length (subs fd m) = 1"
      by (metis length_Cons list.size(3) One_nat_def)
    then obtain s where s: "subs fd m = [s]" by (auto simp: length_Suc_conv)
    then have vs: "?vs = [FMessage (content s)]" using so(1) by simp
    have so': "message_ok p strict s" "msg_type s = fd_message_type fd" "GetMessage p fd m = Some s"
      using so(2) [of s] so(3) [of 0] s False by (simp_all add: get_message_def)
    obtain s' where s': "sz s = Some (k (content s), s')" "remeasured p strict s s'" "sized p s'"
      using sz [OF so'(1)] vs by (auto simp: measures_def)
    from store_sub_ok [OF p m fd ty v, of 0 s'] s s' so'(2) obtain m2 where
      2: "store_sub fd 0 s' m = Some m2" "message_ok p strict m2" "msg_type m2 = msg_type m" "content m2 = content m"
        "subs fd m2 = [s']" "\<And>fd'. known_field p (msg_type m) fd' \<Longrightarrow> fd' \<noteq> fd \<Longrightarrow> subs fd' m2 = subs fd' m"
      by (auto simp: remeasured_def)
    then show ?thesis
      using s' so'(3) False by (auto simp: measure_messages_def vs g store_sub_def field_measured_def remeasured_def)
  qed
qed

lemma set_item_size:
  assumes "set_item p fd"
  shows "int (length (value_bytes p fd (FMessage c))) = kMessageSetItemTagsSize +
    CodedOutputStream_VarintSize32 (of_int (fd_number fd)) +
    CodedOutputStream_VarintSize32 (of_nat (length (c_bytes p c))) + int (length (c_bytes p c))"
  by (simp add: value_bytes.simps assms set_item_bytes_def kMessageSetItemTagsSize_def VarintSize32_length
      tag_constants delimited_length)

lemma field_size_ok:
  assumes p: "pool_ok p" and m: "message_ok p strict m" and fd: "known_field p (msg_type m) fd"
    and v: "field_values fd (content m) \<noteq> []"
    and bs: "\<And>s. message_ok p strict s \<Longrightarrow> FMessage (content s) \<in> set (field_values fd (content m)) \<Longrightarrow>
      measures p strict bs (\<lambda>c. int (length (c_bytes p c))) s"
  shows "\<exists>m'. FieldByteSize_with p bs fd m =
    Some (int (length (concat (map (value_bytes p fd) (field_values fd (content m))))), m') \<and> field_measured p strict fd m m'"
proof (cases "set_item p fd")
  case True
  then have ty: "cpp_type fd = CPPTYPE_MESSAGE" "\<not> is_repeated fd" by (simp_all add: set_item_def)
  obtain s where s: "subs fd m = [s]" "GetMessage p fd m = Some s" "field_values fd (content m) = [FMessage (content s)]"
    by (rule set_item_value [OF p m fd True v])
  let ?k = "\<lambda>c. int (length (c_bytes p c))"
  from measure_messages_ok [OF p m fd ty(1) v bs, of "\<lambda>v. case v of FMessage c \<Rightarrow> ?k c"]
  obtain m' where "measure_messages p bs fd 1 m = Some (?k (content s), m')" "field_measured p strict fd m m'"
    using s(3) by auto
  then show ?thesis
    by (auto simp: FieldByteSize_with_def is_set_item [OF p fd] True MessageSetItemByteSize_with_def
        measure_messages_def ty(2) s(2,3) set_item_size [OF True] split: bind_splits)
next
  case False
  note f = known_field_facts(2) [OF p fd]
  let ?vs = "field_values fd (content m)" and ?g = "value_size_of p fd"
  have total: "int (length (concat (map (value_bytes p fd) ?vs))) =
      int (length ?vs) * TagSize (fd_number fd) (fd_type fd) + sum_list (map ?g ?vs)"
    unfolding value_size_of_def by (rule sum_with_tags)
  note head = FieldByteSize_with_def is_set_item [OF p fd] False field_count_ok [OF p m fd] Let_def total
  show ?thesis
  proof (cases "cpp_type fd = CPPTYPE_MESSAGE")
    case True
    then consider "fd_type fd = TYPE_GROUP" | "fd_type fd = TYPE_MESSAGE"
      by (cases "fd_type fd") (simp_all add: cpp_type_def)
    then show ?thesis
      using measure_messages_ok [OF p m fd True v measures_sub(1) [OF bs], of ?g] value_size_of_message(1) [OF f False]
        measure_messages_ok [OF p m fd True v measures_sub(2) [OF bs], of ?g] value_size_of_message(2) [OF f False]
      by cases (auto simp: head)
  next
    case ty: False
    have sc: "\<exists>x. ?vs ! j = FScalar x \<and> scalar_ok p fd x" if "j < length ?vs" for j
      using values_ok [OF p m fd nth_mem [OF that]] ty by auto
    have js: "(if is_repeated fd then [0..int (length ?vs) - 1] else [0]) = map int [0..<length ?vs]"
    proof (cases "is_repeated fd")
      case False
      have "length ?vs = Suc 0" using singular_index(2) [OF p m fd False, of 0] v by (cases ?vs) auto
      then show ?thesis using False by simp
    qed (simp add: upto_int)
    have mm: "field_measured p strict fd m m" using m ty by (simp add: field_measured_def remeasured_def)
    show ?thesis
    proof (cases "fixed_size (fd_type fd)")
      case (Some k)
      have "?g v = k" if mem: "v \<in> set ?vs" for v
      proof -
        obtain x where x: "v = FScalar x" "scalar_ok p fd x" using values_ok [OF p m fd mem] ty by auto
        with value_size [OF x(2)] Some show ?thesis by (simp add: value_size_of_scalar [OF f])
      qed
      then have "map ?g ?vs = map (\<lambda>_. k) ?vs" by (intro map_cong) simp_all
      then have "sum_list (map ?g ?vs) = int (length ?vs) * k" by (simp only: sum_list_triv)
      then show ?thesis using Some mm by (cases "fd_type fd") (simp_all add: head)
    next
      case None
      have size: "size_value (fd_type fd) x = Some (?g (?vs ! j))" if "j < length ?vs" "?vs ! j = FScalar x" for j x
        using sc [OF that(1)] that(2) value_size [of p fd x] None by (auto simp: value_size_of_scalar [OF f])
      let ?sz = "\<lambda>j. if fd_type fd = TYPE_ENUM
        then do { value \<leftarrow> get_enum p fd j m; size_value TYPE_ENUM (VEnum (ev_number value)) }
        else if cpp_type fd = CPPTYPE_STRING then do { value \<leftarrow> get_string p fd j m; size_value (fd_type fd) value }
        else do { value \<leftarrow> get_value p fd j m; size_value (fd_type fd) value }"
      have "?sz (int j) = Some (?g (?vs ! j))" if j: "j < length ?vs" for j
      proof -
        obtain x where x: "?vs ! j = FScalar x" "scalar_ok p fd x" using sc [OF j] by blast
        show ?thesis
        proof (cases "fd_type fd = TYPE_ENUM")
          case True
          then obtain e where "x = VEnum e" using x(2) by (cases x) (auto simp: cpp_type_def)
          then show ?thesis using get_enum_ok [OF p m fd j] size [OF j x(1)] x(1) True by simp
        next
          case False
          then show ?thesis using get_scalar [OF p m fd j x(1)] size [OF j x(1)] by simp
        qed
      qed
      from measure_values_ok [where sz = ?sz, OF this]
      have mv: "measure_values ?sz (map int [0..<length ?vs]) = Some (sum_list (map ?g ?vs))" .
      show ?thesis
        using None mv mm ty js by (cases "fd_type fd") (simp_all add: head upto_int cpp_type_def)
    qed
  qed
qed

text \<open>The fields of a message, and the message.\<close>

lemma measure_fields_ok:
  assumes p: "pool_ok p"
    and bs: "\<forall>fd s. known_field p (c_type c) fd \<longrightarrow> message_ok p strict s \<longrightarrow>
      FMessage (content s) \<in> set (field_values fd c) \<longrightarrow> measures p strict bs (\<lambda>c. int (length (c_bytes p c))) s"
  shows "message_ok p strict m \<Longrightarrow> content m = c \<Longrightarrow> distinct fds \<Longrightarrow>
    set fds \<subseteq> {fd. known_field p (c_type c) fd \<and> field_values fd c \<noteq> []} \<Longrightarrow>
    \<exists>m'. measure_fields (FieldByteSize_with p bs) fds m =
        Some (int (length (concat (map (\<lambda>fd. concat (map (value_bytes p fd) (field_values fd c))) fds))), m') \<and>
      remeasured p strict m m' \<and>
      (\<forall>fd \<in> set fds. cpp_type fd = CPPTYPE_MESSAGE \<longrightarrow> (\<forall>s \<in> set (subs fd m'). sized p s)) \<and>
      (\<forall>fd'. known_field p (c_type c) fd' \<longrightarrow> fd' \<notin> set fds \<longrightarrow> subs fd' m' = subs fd' m)"
proof (induction fds arbitrary: m)
  case (Cons fd fds)
  then have fd: "known_field p (c_type c) fd" "field_values fd c \<noteq> []" by simp_all
  have t: "c_type c = msg_type m" using Cons.prems(2) by (metis c_type_content)
  have "known_field p (msg_type m) fd" "field_values fd (content m) \<noteq> []" using fd t Cons.prems(2) by simp_all
  from field_size_ok [OF p Cons.prems(1) this, of bs] bs fd(1) Cons.prems(2) obtain m1 where
    1: "FieldByteSize_with p bs fd m = Some (int (length (concat (map (value_bytes p fd) (field_values fd c)))), m1)"
      "field_measured p strict fd m m1" by auto
  then have m1: "message_ok p strict m1" "content m1 = c" "distinct fds" "fd \<notin> set fds"
    using Cons.prems by (simp_all add: field_measured_def remeasured_def)
  moreover have "set fds \<subseteq> {fd. known_field p (c_type c) fd \<and> field_values fd c \<noteq> []}" using Cons.prems by simp
  ultimately obtain m' where
    2: "measure_fields (FieldByteSize_with p bs) fds m1 =
        Some (int (length (concat (map (\<lambda>fd. concat (map (value_bytes p fd) (field_values fd c))) fds))), m')"
      "remeasured p strict m1 m'"
      "\<forall>fd \<in> set fds. cpp_type fd = CPPTYPE_MESSAGE \<longrightarrow> (\<forall>s \<in> set (subs fd m'). sized p s)"
      "\<forall>fd'. known_field p (c_type c) fd' \<longrightarrow> fd' \<notin> set fds \<longrightarrow> subs fd' m' = subs fd' m1"
    using Cons.IH [of m1] by blast
  have "subs fd m' = subs fd m1" using 2(4) fd(1) m1(4) by blast
  moreover have "subs fd' m1 = subs fd' m" if "known_field p (c_type c) fd'" "fd' \<noteq> fd" for fd'
    using 1(2) that by (simp add: field_measured_def t)
  ultimately show ?case
    using 1 2 by (auto simp: field_measured_def remeasured_def)
qed (simp add: remeasured_def)

lemma content_cached_size [simp]: "content (with_cached_size n m) = content m" "msg_cached_size (with_cached_size n m) = n"
  by (cases m; simp)+

lemma cached_size_ok [simp]: "message_ok p strict (with_cached_size n m) = message_ok p strict m"
  by (cases m) (auto elim!: message_okE intro!: message)

lemma subs_cached_size [simp]: "subs fd (with_cached_size n m) = subs fd m"
  by (cases m) (simp add: subs_def value_slot_of_def GetRaw_def)

lemma unknown_size:
  assumes "descriptor_of p t = Some d"
  shows "(if d_message_set_wire_format d then ComputeUnknownMessageSetItemsSize u else ComputeUnknownFieldsSize u) =
    int (length (unknown_bytes p t (ufs_value u)))"
proof (cases "d_message_set_wire_format d")
  case True
  have i: "int (length (set_item_bytes n e)) = kMessageSetItemTagsSize + CodedOutputStream_VarintSize32 (of_int n) +
      CodedOutputStream_VarintSize32 (of_nat (length e)) + int (length e)" for n e
    by (simp add: set_item_bytes_def kMessageSetItemTagsSize_def VarintSize32_length tag_constants delimited_length)
  have "pool_types p ! t = d" using assms by (auto simp: descriptor_of_def rd_def split: if_splits)
  then show ?thesis
    using True by (simp add: unknown_bytes_def ComputeUnknownMessageSetItemsSize_def ufs_value.simps uf_value.simps
        comp_def length_concat_int i)
next
  case False
  moreover have "pool_types p ! t = d" using assms by (auto simp: descriptor_of_def rd_def split: if_splits)
  ultimately show ?thesis by (simp add: unknown_bytes_def computed_size(2) items_of_value)
qed

lemma byte_size_ok:
  assumes p: "pool_ok p"
  shows "message_ok p strict m \<Longrightarrow> measures p strict (Message_ByteSize p) (\<lambda>c. int (length (c_bytes p c))) m"
proof (induction m rule: measure_induct_rule [of "\<lambda>m. size (content m)"])
  case (less m)
  note m = less.prems
  let ?c = "content m"
  note shape = content_shape [OF m]
  have bs: "\<forall>fd s. known_field p (c_type ?c) fd \<longrightarrow> message_ok p strict s \<longrightarrow>
    FMessage (content s) \<in> set (field_values fd ?c) \<longrightarrow>
    measures p strict (Message_ByteSize p) (\<lambda>c. int (length (c_bytes p c))) s"
  proof (intro allI impI, rule less.IH)
    fix fd s
    assume s: "known_field p (c_type ?c) fd" "FMessage (content s) \<in> set (field_values fd ?c)"
    have "size (FMessage (content s)) < size ?c"
      using s(2) c_values_known [OF p shape s(1)] by (intro size_c_values [where fd = fd]) simp
    then show "size (content s) < size ?c" by simp
  qed
  obtain m' where m': "measure_fields (FieldByteSize_with p (Message_ByteSize p)) (c_fields p ?c) m =
      Some (int (length (concat (map (\<lambda>fd. concat (map (value_bytes p fd) (field_values fd ?c))) (c_fields p ?c)))), m')"
    "remeasured p strict m m'"
    "\<forall>fd \<in> set (c_fields p ?c). cpp_type fd = CPPTYPE_MESSAGE \<longrightarrow> (\<forall>s \<in> set (subs fd m'). sized p s)"
    using measure_fields_ok [where bs = "Message_ByteSize p", OF p bs m refl distinct_c_fields [OF p shape]
      eq_refl [OF set_c_fields [OF p shape]]] by blast
  obtain d where d: "descriptor_of p (msg_type m) = Some d" using message_ok_descriptor [OF m] by auto
  have u: "ufs_value (msg_unknown_fields m') = ufs_value (msg_unknown_fields m)"
    using m'(2) by (metis c_unknown_content remeasured_def)
  have t: "msg_type m' = msg_type m" "content m' = ?c" "message_ok p strict m'" using m'(2) by (simp_all add: remeasured_def)
  let ?n = "int (length (c_bytes p ?c))"
  have "?n = int (length (concat (map (\<lambda>fd. concat (map (value_bytes p fd) (field_values fd ?c))) (c_fields p ?c)))) +
      int (length (unknown_bytes p (msg_type m) (ufs_value (msg_unknown_fields m))))"
    by (simp only: c_bytes_content [OF p m] length_append of_nat_add)
  then have "ByteSize_with p (Message_ByteSize p) m = Some (?n, m')"
    unfolding ByteSize_with_def ListFields_ok [OF p m] bind.simps m'(1) prod.case d unknown_size [OF d] by simp
  then have "Message_ByteSize p m = Some (?n, with_cached_size ?n m')"
    by (subst Message_ByteSize.simps) simp
  moreover have "sized p (with_cached_size ?n m')"
  proof (rule sized.intros)
    fix fd s
    assume fd: "known_field p (msg_type (with_cached_size ?n m')) fd" "cpp_type fd = CPPTYPE_MESSAGE"
      "field_values fd (content (with_cached_size ?n m')) \<noteq> []" "s \<in> set (subs fd (with_cached_size ?n m'))"
    then have "fd \<in> set (c_fields p ?c)" by (simp add: t set_c_fields [OF p shape])
    with m'(3) fd(2,4) show "sized p s" by simp
  qed (simp add: t)
  ultimately show ?case using t by (auto simp: measures_def remeasured_def)
qed

end
