(* ===== verification/ReflectionOps.thy ===== *)
theory ReflectionOps
  imports WireMessages StringOps NumberText
begin

text \<open>
  The operations on whole messages of \<open>reflection_ops.cc\<close> (\<open>Merge\<close>, \<open>Copy\<close>, \<open>Clear\<close>,
  \<open>IsInitialized\<close>, \<open>DiscardUnknownFields\<close>, \<open>FindInitializationErrors\<close>) and the virtual methods of
  \<open>Message\<close> that run them (\<open>message.cc\<close>), with the parts of the reflection and of
  \<open>ExtensionSet\<close> that clear a field. As in \<open>WireMessages\<close>, the method of an embedded message is
  an argument and a \<open>partial_function\<close> ties the knot.
\<close>

section \<open>Clearing a field\<close>

type_synonym clear_message = "message \<Rightarrow> message option"

text \<open>\<open>Clear\<close> of a repeated field: cleared messages are kept, before those cleared earlier.\<close>

fun GenericClear :: "clear_message \<Rightarrow> slot \<Rightarrow> slot option" where
  "GenericClear clear (Scalars vs) = Some (Scalars [])"
| "GenericClear clear (MessagePtrs ms cleared) = do {
     ms' \<leftarrow> option_map_list clear ms;
     Some (MessagePtrs [] (ms' @ cleared))
   }"
| "GenericClear clear _ = None"

text \<open>What is assigned to a string: the default value if there is one.\<close>

definition cleared_string :: "field_descriptor \<Rightarrow> bytes option" where
  "cleared_string fd =
     (if fd_has_default_value fd then Option.bind (default_value CPPTYPE_STRING fd) as_string else Some [])"

definition Extension_Clear :: "clear_message \<Rightarrow> extension \<Rightarrow> extension option" where
  "Extension_Clear clear e =
     (let fd = ext_descriptor e in
      if is_repeated fd then do {
        s \<leftarrow> GenericClear clear (ext_value e);
        Some (Extension fd s (ext_is_cleared e))
      }
      else if ext_is_cleared e then Some e
      else do {
        s \<leftarrow> (case cpp_type fd of
               CPPTYPE_STRING \<Rightarrow> do {
                 _ \<leftarrow> slot_string (ext_value e);
                 str \<leftarrow> cleared_string fd;
                 Some (StringPtr (Some str))
               }
             | CPPTYPE_MESSAGE \<Rightarrow> do {
                 child \<leftarrow> (case ext_value e of MessagePtr q \<Rightarrow> q | _ \<Rightarrow> None);
                 child' \<leftarrow> clear child;
                 Some (MessagePtr (Some child'))
               }
             | ty \<Rightarrow> map_option Scalar (default_value ty fd));
        Some (Extension fd s True)
      })"

definition ExtensionSet_ClearExtension :: "clear_message \<Rightarrow> int \<Rightarrow> extensions \<Rightarrow> extensions option" where
  "ExtensionSet_ClearExtension clear number exts =
     (case map_of exts number of
        None \<Rightarrow> Some exts
      | Some e \<Rightarrow> do { e' \<leftarrow> Extension_Clear clear e; Some (map_put number e' exts) })"

definition ClearField :: "clear_message \<Rightarrow> field_descriptor \<Rightarrow> message \<Rightarrow> message option" where
  "ClearField clear fd m = do {
     _ \<leftarrow> usage_check_message_type fd m;
     (if fd_is_extension fd then on_extensions (ExtensionSet_ClearExtension clear (fd_number fd)) m
      else if \<not> is_repeated fd then do {
        has \<leftarrow> HasBit fd m;
        (if \<not> has then Some m
         else do {
           m1 \<leftarrow> ClearBit fd m;
           s \<leftarrow> GetRaw fd m1;
           s' \<leftarrow> (case cpp_type fd of
                   CPPTYPE_STRING \<Rightarrow>
                     (case s of
                        StringPtr None \<Rightarrow> Some s
                      | StringPtr (Some _) \<Rightarrow> map_option (\<lambda>str. StringPtr (Some str)) (cleared_string fd)
                      | _ \<Rightarrow> None)
                 | CPPTYPE_MESSAGE \<Rightarrow>
                     (case s of
                        MessagePtr (Some child) \<Rightarrow> do { child' \<leftarrow> clear child; Some (MessagePtr (Some child')) }
                      | _ \<Rightarrow> None)
                 | ty \<Rightarrow> map_option Scalar (default_value ty fd));
           store_raw fd s' m1
         })
      }
      else do {
        s \<leftarrow> GetRaw fd m;
        s' \<leftarrow> GenericClear clear s;
        store_raw fd s' m
      })
   }"

section \<open>Clearing a message\<close>

fun clear_fields :: "clear_message \<Rightarrow> field_descriptor list \<Rightarrow> message \<Rightarrow> message option" where
  "clear_fields clear [] m = Some m"
| "clear_fields clear (fd # fds) m = do { m' \<leftarrow> ClearField clear fd m; clear_fields clear fds m' }"

definition ReflectionOps_Clear :: "pool \<Rightarrow> clear_message \<Rightarrow> message \<Rightarrow> message option" where
  "ReflectionOps_Clear p clear m = do {
     fields \<leftarrow> ListFields p m;
     m' \<leftarrow> clear_fields clear fields m;
     Some (with_unknown_fields (UnknownFieldSet_Clear (msg_unknown_fields m')) m')
   }"

lemma option_map_list_mono:
  "(\<And>m. mono_option (\<lambda>f. s f m)) \<Longrightarrow> mono_option (\<lambda>f. option_map_list (s f) ms)"
  by (induction ms) (auto intro!: monoIs)

lemma GenericClear_mono:
  "(\<And>m. mono_option (\<lambda>f. s f m)) \<Longrightarrow> mono_option (\<lambda>f. GenericClear (s f) sl)"
  by (cases sl) (auto intro!: monoIs option_map_list_mono)

lemma Extension_Clear_mono:
  assumes m: "\<And>m. mono_option (\<lambda>f. s f m)"
  shows "mono_option (\<lambda>f. Extension_Clear (s f) e)"
  unfolding Extension_Clear_def Let_def
  by (intro monoIs GenericClear_mono m; cases "cpp_type (ext_descriptor e)"; simp only: cpp_type.case)
    (intro monoIs m)+

lemma ClearField_mono:
  assumes m: "\<And>m. mono_option (\<lambda>f. s f m)"
  shows "mono_option (\<lambda>f. ClearField (s f) fd m)"
proof -
  have e: "mono_option (\<lambda>f. ExtensionSet_ClearExtension (s f) n es)" for n es
    unfolding ExtensionSet_ClearExtension_def by (intro monoIs Extension_Clear_mono m)
  have q: "mono_option (\<lambda>f. case sl of MessagePtr (Some child) \<Rightarrow> do { child' \<leftarrow> s f child; Some (MessagePtr (Some child')) }
      | _ \<Rightarrow> None)" for sl
    by (cases sl) (auto intro!: monoIs m split: option.split)
  show ?thesis
    unfolding ClearField_def on_extensions_def
    by (intro monoIs e GenericClear_mono m; cases "cpp_type fd"; simp only: cpp_type.case) (intro monoIs m q)+
qed

lemma ReflectionOps_Clear_mono [partial_function_mono]:
  assumes m: "\<And>m. mono_option (\<lambda>f. s f m)"
  shows "mono_option (\<lambda>f. ReflectionOps_Clear p (s f) m)"
proof -
  have "mono_option (\<lambda>f. clear_fields (s f) fds m)" for fds m
    by (induction fds arbitrary: m) (auto intro!: monoIs ClearField_mono m)
  then show ?thesis unfolding ReflectionOps_Clear_def by (intro monoIs)
qed

partial_function (option) Message_Clear :: "pool \<Rightarrow> message \<Rightarrow> message option" where
  "Message_Clear p m = ReflectionOps_Clear p (Message_Clear p) m"

text \<open>\<open>Clear\<close> of an extension set.\<close>

fun ExtensionSet_Clear :: "clear_message \<Rightarrow> extensions \<Rightarrow> extensions option" where
  "ExtensionSet_Clear clear [] = Some []"
| "ExtensionSet_Clear clear ((number, e) # exts) = do {
     e' \<leftarrow> Extension_Clear clear e;
     exts' \<leftarrow> ExtensionSet_Clear clear exts;
     Some ((number, e') # exts')
   }"

section \<open>Merging\<close>

text \<open>\<open>merge from to\<close> is \<open>to->MergeFrom(from)\<close> of an embedded message.\<close>

type_synonym merge_message = "message \<Rightarrow> message \<Rightarrow> message option"

definition merge_element ::
  "pool \<Rightarrow> merge_message \<Rightarrow> field_descriptor \<Rightarrow> int \<Rightarrow> merge_message" where
  "merge_element p merge fd j from to =
     (case cpp_type fd of
        CPPTYPE_STRING \<Rightarrow> do {
          value \<leftarrow> GetRepeatedString fd j from;
          str \<leftarrow> as_string value;
          AddString p fd str to
        }
      | CPPTYPE_ENUM \<Rightarrow> do { value \<leftarrow> GetRepeatedEnum p fd j from; AddEnum p fd value to }
      | CPPTYPE_MESSAGE \<Rightarrow> do {
          (child, to1) \<leftarrow> AddMessage p fd to;
          from_sub \<leftarrow> GetRepeatedMessage fd j from;
          child' \<leftarrow> merge from_sub child;
          store_added_message fd child' to1
        }
      | ty \<Rightarrow> do { value \<leftarrow> Reflection_GetRepeated ty fd j from; Reflection_Add ty p fd value to })"

fun merge_elements ::
  "pool \<Rightarrow> merge_message \<Rightarrow> field_descriptor \<Rightarrow> int list \<Rightarrow> merge_message" where
  "merge_elements p merge fd [] from to = Some to"
| "merge_elements p merge fd (j # js) from to = do {
     to' \<leftarrow> merge_element p merge fd j from to;
     merge_elements p merge fd js from to'
   }"

definition merge_singular :: "pool \<Rightarrow> merge_message \<Rightarrow> field_descriptor \<Rightarrow> merge_message" where
  "merge_singular p merge fd from to =
     (case cpp_type fd of
        CPPTYPE_STRING \<Rightarrow> do {
          value \<leftarrow> GetString p fd from;
          str \<leftarrow> as_string value;
          SetString p fd str to
        }
      | CPPTYPE_ENUM \<Rightarrow> do { value \<leftarrow> GetEnum p fd from; SetEnum p fd value to }
      | CPPTYPE_MESSAGE \<Rightarrow> do {
          (child, to1) \<leftarrow> MutableMessage p fd to;
          from_sub \<leftarrow> GetMessage p fd from;
          child' \<leftarrow> merge from_sub child;
          store_message fd child' to1
        }
      | ty \<Rightarrow> do { value \<leftarrow> Reflection_Get ty p fd from; Reflection_Set ty p fd value to })"

definition merge_field :: "pool \<Rightarrow> merge_message \<Rightarrow> field_descriptor \<Rightarrow> merge_message" where
  "merge_field p merge fd from to =
     (if is_repeated fd then do {
        count \<leftarrow> FieldSize fd from;
        merge_elements p merge fd [0..count - 1] from to
      }
      else do {
        has \<leftarrow> HasField fd from;
        (if has then merge_singular p merge fd from to else Some to)
      })"

fun merge_fields :: "pool \<Rightarrow> merge_message \<Rightarrow> field_descriptor list \<Rightarrow> merge_message" where
  "merge_fields p merge [] from to = Some to"
| "merge_fields p merge (fd # fds) from to = do {
     to' \<leftarrow> merge_field p merge fd from to;
     merge_fields p merge fds from to'
   }"

text \<open>
  \<open>from\<close> and \<open>to\<close> are different objects, which the \<open>GOOGLE_CHECK_NE\<close> at the start makes sure of.
\<close>

definition ReflectionOps_Merge :: "pool \<Rightarrow> merge_message \<Rightarrow> merge_message" where
  "ReflectionOps_Merge p merge from to = do {
     fields \<leftarrow> ListFields p from;
     to' \<leftarrow> merge_fields p merge fields from to;
     Some (with_unknown_fields
       (UnknownFieldSet_MergeFrom (msg_unknown_fields from) (msg_unknown_fields to')) to')
   }"

lemma merge_field_mono:
  assumes m: "\<And>m n. mono_option (\<lambda>f. s f m n)"
  shows "mono_option (\<lambda>f. merge_field p (s f) fd from to)"
proof -
  have e: "mono_option (\<lambda>f. merge_element p (s f) fd j from to)" for j to
    unfolding merge_element_def by (cases "cpp_type fd"; simp only: cpp_type.case) (intro monoIs m)+
  have es: "mono_option (\<lambda>f. merge_elements p (s f) fd js from to)" for js to
    by (induction js arbitrary: to) (auto intro!: monoIs e)
  have "mono_option (\<lambda>f. merge_singular p (s f) fd from to)"
    unfolding merge_singular_def by (cases "cpp_type fd"; simp only: cpp_type.case) (intro monoIs m)+
  with es show ?thesis unfolding merge_field_def by (intro monoIs)
qed

lemma ReflectionOps_Merge_mono [partial_function_mono]:
  assumes m: "\<And>m n. mono_option (\<lambda>f. s f m n)"
  shows "mono_option (\<lambda>f. ReflectionOps_Merge p (s f) from to)"
proof -
  have "mono_option (\<lambda>f. merge_fields p (s f) fds from to)" for fds to
    by (induction fds arbitrary: to) (auto intro!: monoIs merge_field_mono m)
  then show ?thesis unfolding ReflectionOps_Merge_def by (intro monoIs)
qed

partial_function (option) Message_MergeFrom :: "pool \<Rightarrow> message \<Rightarrow> message \<Rightarrow> message option" where
  "Message_MergeFrom p from to =
     (if msg_type from \<noteq> msg_type to then None
      else ReflectionOps_Merge p (Message_MergeFrom p) from to)"

text \<open>\<open>Copy\<close> between two different messages; of a message to itself it does nothing.\<close>

definition ReflectionOps_Copy :: "pool \<Rightarrow> message \<Rightarrow> message \<Rightarrow> message option" where
  "ReflectionOps_Copy p from to = do {
     to' \<leftarrow> ReflectionOps_Clear p (Message_Clear p) to;
     ReflectionOps_Merge p (Message_MergeFrom p) from to'
   }"

definition Message_CopyFrom :: "pool \<Rightarrow> message \<Rightarrow> message \<Rightarrow> message option" where
  "Message_CopyFrom p from to =
     (if msg_type from \<noteq> msg_type to then None else ReflectionOps_Copy p from to)"

section \<open>Required fields\<close>

fun has_required :: "field_descriptor list \<Rightarrow> message \<Rightarrow> bool option" where
  "has_required [] m = Some True"
| "has_required (fd # fds) m =
     (if is_required fd then do {
        has \<leftarrow> HasField fd m;
        (if \<not> has then Some False else has_required fds m)
      }
      else has_required fds m)"

fun all_initialized :: "(message \<Rightarrow> bool option) \<Rightarrow> (int \<Rightarrow> message option) \<Rightarrow> int list \<Rightarrow> bool option" where
  "all_initialized is_init get [] = Some True"
| "all_initialized is_init get (j # js) = do {
     child \<leftarrow> get j;
     b \<leftarrow> is_init child;
     (if \<not> b then Some False else all_initialized is_init get js)
   }"

text \<open>Whether the messages in the fields of a list are initialized.\<close>

fun subs_initialized :: "pool \<Rightarrow> (message \<Rightarrow> bool option) \<Rightarrow> field_descriptor list \<Rightarrow> message \<Rightarrow> bool option" where
  "subs_initialized p is_init [] m = Some True"
| "subs_initialized p is_init (fd # fds) m =
     (if cpp_type fd \<noteq> CPPTYPE_MESSAGE then subs_initialized p is_init fds m
      else do {
        b \<leftarrow> (if is_repeated fd then do {
                n \<leftarrow> FieldSize fd m;
                all_initialized is_init (\<lambda>j. GetRepeatedMessage fd j m) [0..n - 1]
              }
              else do {
                has \<leftarrow> HasField fd m;
                (if has then do { child \<leftarrow> GetMessage p fd m; is_init child } else Some True)
              });
        (if \<not> b then Some False else subs_initialized p is_init fds m)
      })"

definition ReflectionOps_IsInitialized :: "pool \<Rightarrow> (message \<Rightarrow> bool option) \<Rightarrow> message \<Rightarrow> bool option" where
  "ReflectionOps_IsInitialized p is_init m = do {
     d \<leftarrow> descriptor_of p (msg_type m);
     b \<leftarrow> has_required (d_field_list d) m;
     (if \<not> b then Some False
      else do { fields \<leftarrow> ListFields p m; subs_initialized p is_init fields m })
   }"

lemma IsInitialized_mono [partial_function_mono]:
  assumes m: "\<And>m. mono_option (\<lambda>f. s f m)"
  shows "mono_option (\<lambda>f. ReflectionOps_IsInitialized p (s f) m)"
proof -
  have a: "mono_option (\<lambda>f. all_initialized (s f) get js)" for get js
    by (induction js) (auto intro!: monoIs m)
  have "mono_option (\<lambda>f. subs_initialized p (s f) fds m)" for fds
  proof (induction fds)
    case (Cons fd fds)
    show ?case unfolding subs_initialized.simps by (intro monoIs a m Cons.IH)
  qed (simp add: option.const_mono)
  then show ?thesis unfolding ReflectionOps_IsInitialized_def by (intro monoIs)
qed

partial_function (option) Message_IsInitialized :: "pool \<Rightarrow> message \<Rightarrow> bool option" where
  "Message_IsInitialized p m = ReflectionOps_IsInitialized p (Message_IsInitialized p) m"

text \<open>The paths of the required fields that are missing.\<close>

definition SubMessagePrefix :: "bytes \<Rightarrow> bytes \<Rightarrow> field_descriptor \<Rightarrow> int \<Rightarrow> bytes option" where
  "SubMessagePrefix stack pre fd index = do {
     let result = pre @ (if fd_is_extension fd then [asc CHR ''(''] @ fd_full_name fd @ [asc CHR '')''] else fd_name fd);
     result1 \<leftarrow> (if index \<noteq> - 1 then do {
                   number \<leftarrow> SimpleItoa_int stack index;
                   Some (result @ [asc CHR ''[''] @ number @ [asc CHR '']''])
                 }
                 else Some result);
     Some (result1 @ [asc CHR ''.''])
   }"

fun required_errors :: "bytes \<Rightarrow> field_descriptor list \<Rightarrow> message \<Rightarrow> bytes list option" where
  "required_errors pre [] m = Some []"
| "required_errors pre (fd # fds) m =
     (if is_required fd then do {
        has \<leftarrow> HasField fd m;
        errors \<leftarrow> required_errors pre fds m;
        Some (if \<not> has then (pre @ fd_name fd) # errors else errors)
      }
      else required_errors pre fds m)"

type_synonym find_errors = "bytes \<Rightarrow> message \<Rightarrow> bytes list option"

fun element_errors :: "bytes \<Rightarrow> find_errors \<Rightarrow> bytes \<Rightarrow> field_descriptor \<Rightarrow> int list \<Rightarrow> message \<Rightarrow> bytes list option" where
  "element_errors stack errs pre fd [] m = Some []"
| "element_errors stack errs pre fd (j # js) m = do {
     child \<leftarrow> GetRepeatedMessage fd j m;
     sub_prefix \<leftarrow> SubMessagePrefix stack pre fd j;
     errors \<leftarrow> errs sub_prefix child;
     errors' \<leftarrow> element_errors stack errs pre fd js m;
     Some (errors @ errors')
   }"

fun sub_errors :: "pool \<Rightarrow> bytes \<Rightarrow> find_errors \<Rightarrow> bytes \<Rightarrow> field_descriptor list \<Rightarrow> message \<Rightarrow> bytes list option" where
  "sub_errors p stack errs pre [] m = Some []"
| "sub_errors p stack errs pre (fd # fds) m =
     (if cpp_type fd \<noteq> CPPTYPE_MESSAGE then sub_errors p stack errs pre fds m
      else do {
        errors \<leftarrow> (if is_repeated fd then do {
                     n \<leftarrow> FieldSize fd m;
                     element_errors stack errs pre fd [0..n - 1] m
                   }
                   else do {
                     has \<leftarrow> HasField fd m;
                     (if has then do {
                        child \<leftarrow> GetMessage p fd m;
                        sub_prefix \<leftarrow> SubMessagePrefix stack pre fd (- 1);
                        errs sub_prefix child
                      }
                      else Some [])
                   });
        errors' \<leftarrow> sub_errors p stack errs pre fds m;
        Some (errors @ errors')
      })"

text \<open>\<open>stack\<close> is what the local buffer of \<open>SimpleItoa\<close> holds before the call.\<close>

definition FindInitializationErrors_with :: "pool \<Rightarrow> bytes \<Rightarrow> find_errors \<Rightarrow> find_errors" where
  "FindInitializationErrors_with p stack errs pre m = do {
     d \<leftarrow> descriptor_of p (msg_type m);
     errors \<leftarrow> required_errors pre (d_field_list d) m;
     fields \<leftarrow> ListFields p m;
     errors' \<leftarrow> sub_errors p stack errs pre fields m;
     Some (errors @ errors')
   }"

lemma FindInitializationErrors_mono [partial_function_mono]:
  assumes m: "\<And>pre m. mono_option (\<lambda>f. s f pre m)"
  shows "mono_option (\<lambda>f. FindInitializationErrors_with p stack (s f) pre m)"
proof -
  have a: "mono_option (\<lambda>f. element_errors stack (s f) pre fd js m)" for fd js
    by (induction js) (auto intro!: monoIs m)
  have "mono_option (\<lambda>f. sub_errors p stack (s f) pre fds m)" for fds
  proof (induction fds)
    case (Cons fd fds)
    show ?case unfolding sub_errors.simps by (intro monoIs a m Cons.IH)
  qed (simp add: option.const_mono)
  then show ?thesis unfolding FindInitializationErrors_with_def by (intro monoIs)
qed

partial_function (option) FindInitializationErrors :: "pool \<Rightarrow> bytes \<Rightarrow> bytes \<Rightarrow> message \<Rightarrow> bytes list option" where
  "FindInitializationErrors p stack pre m =
     FindInitializationErrors_with p stack (FindInitializationErrors p stack) pre m"

definition Message_FindInitializationErrors :: "pool \<Rightarrow> bytes \<Rightarrow> message \<Rightarrow> bytes list option" where
  "Message_FindInitializationErrors p stack m = FindInitializationErrors p stack [] m"

definition InitializationErrorString :: "pool \<Rightarrow> bytes \<Rightarrow> message \<Rightarrow> bytes option" where
  "InitializationErrorString p stack m = do {
     errors \<leftarrow> Message_FindInitializationErrors p stack m;
     JoinStrings errors [asc CHR '','', asc CHR '' '']
   }"

text \<open>A failed check ends the process.\<close>

definition CheckInitialized :: "pool \<Rightarrow> message \<Rightarrow> unit option" where
  "CheckInitialized p m = do { b \<leftarrow> Message_IsInitialized p m; (if b then Some () else None) }"

section \<open>Unknown fields\<close>

text \<open>The pointers to an element of a repeated field of messages.\<close>

definition ExtensionSet_MutableRepeatedMessage :: "int \<Rightarrow> int \<Rightarrow> extensions \<Rightarrow> message option" where
  "ExtensionSet_MutableRepeatedMessage number index exts = do {
     e \<leftarrow> map_of exts number;
     _ \<leftarrow> dcheck_type LABEL_REPEATED CPPTYPE_MESSAGE (ext_descriptor e);
     (case ext_value e of MessagePtrs ms _ \<Rightarrow> element ms index | _ \<Rightarrow> None)
   }"

definition MutableRepeatedMessage :: "field_descriptor \<Rightarrow> int \<Rightarrow> message \<Rightarrow> message option" where
  "MutableRepeatedMessage fd index m = do {
     _ \<leftarrow> usage_check_all True CPPTYPE_MESSAGE fd m;
     (if fd_is_extension fd then do {
        exts \<leftarrow> msg_extensions m;
        ExtensionSet_MutableRepeatedMessage (fd_number fd) index exts
      }
      else do {
        s \<leftarrow> GetRaw fd m;
        (case s of MessagePtrs ms _ \<Rightarrow> element ms index | _ \<Rightarrow> None)
      })
   }"

fun discard_elements :: "clear_message \<Rightarrow> field_descriptor \<Rightarrow> int list \<Rightarrow> message \<Rightarrow> message option" where
  "discard_elements discard fd [] m = Some m"
| "discard_elements discard fd (j # js) m = do {
     child \<leftarrow> MutableRepeatedMessage fd j m;
     child' \<leftarrow> discard child;
     m' \<leftarrow> store_repeated_message fd j child' m;
     discard_elements discard fd js m'
   }"

fun discard_fields :: "pool \<Rightarrow> clear_message \<Rightarrow> field_descriptor list \<Rightarrow> message \<Rightarrow> message option" where
  "discard_fields p discard [] m = Some m"
| "discard_fields p discard (fd # fds) m =
     (if cpp_type fd \<noteq> CPPTYPE_MESSAGE then discard_fields p discard fds m
      else do {
        m' \<leftarrow> (if is_repeated fd then do {
                 n \<leftarrow> FieldSize fd m;
                 discard_elements discard fd [0..n - 1] m
               }
               else do {
                 has \<leftarrow> HasField fd m;
                 (if has then do {
                    (child, m1) \<leftarrow> MutableMessage p fd m;
                    child' \<leftarrow> discard child;
                    store_message fd child' m1
                  }
                  else Some m)
               });
        discard_fields p discard fds m'
      })"

definition ReflectionOps_DiscardUnknownFields :: "pool \<Rightarrow> clear_message \<Rightarrow> message \<Rightarrow> message option" where
  "ReflectionOps_DiscardUnknownFields p discard m = do {
     let m1 = with_unknown_fields (UnknownFieldSet_Clear (msg_unknown_fields m)) m;
     fields \<leftarrow> ListFields p m1;
     discard_fields p discard fields m1
   }"

lemma DiscardUnknownFields_mono [partial_function_mono]:
  assumes m: "\<And>m. mono_option (\<lambda>f. s f m)"
  shows "mono_option (\<lambda>f. ReflectionOps_DiscardUnknownFields p (s f) m)"
proof -
  have a: "mono_option (\<lambda>f. discard_elements (s f) fd js m)" for fd js m
    by (induction js arbitrary: m) (auto intro!: monoIs m)
  have "mono_option (\<lambda>f. discard_fields p (s f) fds m)" for fds m
  proof (induction fds arbitrary: m)
    case (Cons fd fds)
    show ?case unfolding discard_fields.simps by (intro monoIs a m Cons.IH)
  qed (simp add: option.const_mono)
  then show ?thesis unfolding ReflectionOps_DiscardUnknownFields_def Let_def by (intro monoIs)
qed

partial_function (option) Message_DiscardUnknownFields :: "pool \<Rightarrow> message \<Rightarrow> message option" where
  "Message_DiscardUnknownFields p m = ReflectionOps_DiscardUnknownFields p (Message_DiscardUnknownFields p) m"

end
