(* ===== verification/MessageMerge.thy ===== *)
theory MessageMerge
  imports MessageReads MessageWrites ReflectionOps
begin

text \<open>
  Merging, as a specification on contents: the singular fields that are set replace those of the other
  message, repeated fields are appended, embedded messages and unknown fields are merged. What
  \<open>MergeFrom\<close> of \<open>reflection_ops.cc\<close> does is this, and into a new message it is a copy.
\<close>

section \<open>Unknown fields\<close>

fun uv_append :: "unknown_value \<Rightarrow> unknown_value \<Rightarrow> unknown_value" where
  "uv_append (UnknownValue n v a b d g) (UnknownValue n' v' a' b' d' g') =
     UnknownValue n' (v' @ v) (a' @ a) (b' @ b) (d' @ d) (g' @ g)"

definition uv_merge :: "unknown_value list \<Rightarrow> unknown_value list \<Rightarrow> unknown_value list" where
  "uv_merge vs ws = fold (\<lambda>v. uv_update (uv_number v) (uv_append v)) vs ws"

lemma uv_merge_new: "distinct (map uv_number vs) \<Longrightarrow> uv_merge vs [] = vs"
proof (induction vs rule: rev_induct)
  case (snoc v vs)
  have "uv_append v (UnknownValue (uv_number v) [] [] [] [] []) = v" by (cases v) simp
  with snoc show ?case by (simp add: uv_merge_def uv_update_def)
qed (simp add: uv_merge_def)

lemma ufs_value_distinct: "ufs_ok s \<Longrightarrow> distinct (map uv_number (ufs_value s))"
  using ufs_field_list_numbers(1) [of s] by (simp add: ufs_value.simps comp_def)

lemma merge_groups_ok:
  assumes "\<forall>h \<in> set hs. \<forall>c. ufs_ok c \<and> ufs_clean c \<and> ufs_field_list c = [] \<longrightarrow>
      ufs_ok (F h c) \<and> ufs_clean (F h c) \<and> ufs_value (F h c) = ufs_value h"
    and "\<forall>c \<in> set gc. ufs_ok c \<and> ufs_clean c \<and> ufs_field_list c = []"
    and "uf_merge_groups gc (map F hs) = (xs, gc')"
  shows "map ufs_value xs = map ufs_value hs \<and> (\<forall>x \<in> set xs. ufs_ok x \<and> ufs_clean x) \<and> set gc' \<subseteq> set gc"
  using assms
proof (induction hs arbitrary: gc xs gc')
  case (Cons h hs)
  show ?case
  proof (cases gc)
    case Nil
    obtain ys g where "uf_merge_groups [] (map F hs) = (ys, g)" by fastforce
    with Cons.IH [OF _ _ this] Cons.prems show ?thesis by (auto simp: Nil)
  next
    case (Cons c cs)
    obtain ys g where "uf_merge_groups cs (map F hs) = (ys, g)" by fastforce
    with Cons.IH [OF _ _ this] Cons.prems show ?thesis by (auto simp: Cons)
  qed
qed simp

lemma merge_unknown:
  "uf_ok f \<Longrightarrow> uf_ok x \<Longrightarrow> uf_clean x \<Longrightarrow>
    uf_number (UnknownField_MergeFrom f x) = uf_number x \<and> uf_index (UnknownField_MergeFrom f x) = uf_index x \<and>
    uf_ok (UnknownField_MergeFrom f x) \<and> uf_clean (UnknownField_MergeFrom f x) \<and>
    uf_value (UnknownField_MergeFrom f x) = uv_append (uf_value f) (uf_value x)"
  "ufs_ok other \<Longrightarrow> ufs_ok s \<Longrightarrow> ufs_clean s \<Longrightarrow>
    ufs_ok (UnknownFieldSet_MergeFrom other s) \<and> ufs_clean (UnknownFieldSet_MergeFrom other s) \<and>
    ufs_value (UnknownFieldSet_MergeFrom other s) = uv_merge (ufs_value other) (ufs_value s)"
proof (induction f x and other s rule: UnknownField_MergeFrom_UnknownFieldSet_MergeFrom.induct)
  case (1 f n i v f32 f64 ld g gc)
  obtain xs gc' where m: "uf_merge_groups gc (map UnknownFieldSet_MergeFrom (uf_group f)) = (xs, gc')" by fastforce
  have g: "ufs_ok h" if "h \<in> set (uf_group f)" for h using 1(2) that by (simp add: uf_ok.simps)
  have c: "\<forall>c \<in> set gc. ufs_ok c \<and> ufs_clean c \<and> ufs_field_list c = []"
    using 1(3,4) by (simp add: uf_ok.simps uf_clean.simps)
  have each: "\<forall>h \<in> set (uf_group f). \<forall>c. ufs_ok c \<and> ufs_clean c \<and> ufs_field_list c = [] \<longrightarrow>
      ufs_ok (UnknownFieldSet_MergeFrom h c) \<and> ufs_clean (UnknownFieldSet_MergeFrom h c) \<and>
      ufs_value (UnknownFieldSet_MergeFrom h c) = ufs_value h"
    using 1(1) g uv_merge_new [OF ufs_value_distinct] by (auto simp: ufs_value.simps [of c for c])
  from merge_groups_ok [OF each c m] 1(3,4) c m show ?case
    by (auto simp: UnknownField_MergeFrom.simps uf_ok.simps uf_clean.simps uf_value.simps)
next
  case (2 other s)
  let ?step = "\<lambda>f s. ufs_modify (uf_number f) (UnknownField_MergeFrom f) (UnknownFieldSet_AddField (uf_number f) s)"
  have "set fs \<subseteq> set (ufs_field_list other) \<Longrightarrow> ufs_ok (fold ?step fs s) \<and> ufs_clean (fold ?step fs s) \<and>
      ufs_value (fold ?step fs s) = uv_merge (map uf_value fs) (ufs_value s)" for fs
  proof (induction fs rule: rev_induct)
    case Nil
    then show ?case using 2(3,4) by (simp add: uv_merge_def)
  next
    case (snoc f fs)
    let ?s = "fold ?step fs s"
    have IH: "ufs_ok ?s" "ufs_clean ?s" "ufs_value ?s = uv_merge (map uf_value fs) (ufs_value s)"
      using snoc by simp_all
    have f: "f \<in> set (ufs_field_list other)" "uf_ok f"
      using snoc.prems ufs_field_list_numbers(2) [OF 2(2)] by auto
    note m = AddField_modify [OF IH(1,2), of "uf_number f" "UnknownField_MergeFrom f" "uv_append (uf_value f)"]
    have "uf_number (UnknownField_MergeFrom f x) = uf_number x \<and> uf_index (UnknownField_MergeFrom f x) = uf_index x \<and>
        uf_ok (UnknownField_MergeFrom f x) \<and> uf_clean (UnknownField_MergeFrom f x) \<and>
        uf_value (UnknownField_MergeFrom f x) = uv_append (uf_value f) (uf_value x)" if "uf_ok x" "uf_clean x" for x
      using 2(1) [OF f that] by blast
    with m IH(3) show ?case by (simp add: uv_merge_def)
  qed
  from this [OF order_refl] show ?case
    by (simp add: UnknownFieldSet_MergeFrom.simps ufs_value.simps [of other])
qed

section \<open>Contents\<close>

definition merged_into :: "field_descriptor \<Rightarrow> mvalue \<Rightarrow> fvalue list" where
  "merged_into fd c = (if is_repeated fd then field_values fd c else [])"

text \<open>The message that one of the field is merged into: the one that is there, or a new one.\<close>

definition merge_base :: "pool \<Rightarrow> field_descriptor \<Rightarrow> mvalue \<Rightarrow> mvalue" where
  "merge_base p fd c =
     (case (if is_repeated fd then [] else field_values fd c) of
        FMessage b # vs \<Rightarrow> b
      | _ \<Rightarrow> blank p (fd_message_type fd))"

function merge_value :: "pool \<Rightarrow> mvalue \<Rightarrow> fvalue \<Rightarrow> fvalue" and c_merge :: "pool \<Rightarrow> mvalue \<Rightarrow> mvalue \<Rightarrow> mvalue" where
  "merge_value p b (FScalar x) = FScalar x"
| "merge_value p b (FMessage a) = FMessage (c_merge p a b)"
| "c_merge p a b =
     fold (\<lambda>fd. set_values fd (merged_into fd b @ map (merge_value p (merge_base p fd b)) (c_values fd a)))
       (c_fields p a) (Content (c_type b) (c_own b) (c_ext b) (uv_merge (c_unknown a) (c_unknown b)))"
  by pat_completeness auto
termination
  by (relation "measure (\<lambda>x. case x of Inl (p, b, v) \<Rightarrow> size v | Inr (p, a, b) \<Rightarrow> size a)")
    (auto dest: size_c_values)

declare c_merge.simps [simp del]

definition merged_values :: "pool \<Rightarrow> mvalue \<Rightarrow> mvalue \<Rightarrow> field_descriptor \<Rightarrow> fvalue list" where
  "merged_values p a b fd = merged_into fd b @ map (merge_value p (merge_base p fd b)) (field_values fd a)"

lemma fold_set_values:
  assumes p: "pool_ok p" and c: "c_shape p c" and fds: "\<forall>fd \<in> set fds. known_field p (c_type c) fd \<and> vs fd \<noteq> []"
  shows "c_shape p (fold (\<lambda>fd. set_values fd (vs fd)) fds c) \<and> c_type (fold (\<lambda>fd. set_values fd (vs fd)) fds c) = c_type c \<and>
    c_unknown (fold (\<lambda>fd. set_values fd (vs fd)) fds c) = c_unknown c \<and>
    (\<forall>fd. known_field p (c_type c) fd \<longrightarrow> field_values fd (fold (\<lambda>fd. set_values fd (vs fd)) fds c) =
      (if fd \<in> set fds then vs fd else field_values fd c))"
  using fds
proof (induction fds rule: rev_induct)
  case (snoc fd fds)
  let ?c = "fold (\<lambda>fd. set_values fd (vs fd)) fds c"
  have IH: "c_shape p ?c" "c_type ?c = c_type c" "c_unknown ?c = c_unknown c"
    "\<forall>fd. known_field p (c_type c) fd \<longrightarrow> field_values fd ?c = (if fd \<in> set fds then vs fd else field_values fd c)"
    using snoc by simp_all
  have fd: "known_field p (c_type ?c) fd" "vs fd \<noteq> []" using snoc.prems IH(2) by simp_all
  note sh = set_values_shape [OF IH(1) fd(1) p fd(2)]
  have "field_values fd' (set_values fd (vs fd) ?c) = (if fd' \<in> set (fds @ [fd]) then vs fd' else field_values fd' c)"
    if "known_field p (c_type c) fd'" for fd'
    using that IH(2,4) field_values_set_same [OF IH(1) fd(1) p] field_values_set_other [OF IH(1) fd(1) _ p, of fd']
    by (cases "fd' = fd") auto
  with sh IH(2,3) show ?case by simp
qed (use c in simp)

lemma c_merge_ok:
  assumes p: "pool_ok p" and a: "c_shape p a" and b: "c_shape p b" and t: "c_type a = c_type b"
  shows "c_shape p (c_merge p a b)" "c_type (c_merge p a b) = c_type b"
    "c_unknown (c_merge p a b) = uv_merge (c_unknown a) (c_unknown b)"
    "known_field p (c_type b) fd \<Longrightarrow> field_values fd (c_merge p a b) =
      (if field_values fd a = [] then field_values fd b else merged_values p a b fd)"
proof -
  let ?b = "Content (c_type b) (c_own b) (c_ext b) (uv_merge (c_unknown a) (c_unknown b))"
  note set = set_c_fields [OF p a]
  have sh: "c_shape p ?b" using b by (simp add: c_shape_def)
  have fv: "field_values fd ?b = field_values fd b" for fd by (cases b) simp
  have eq: "c_merge p a b = fold (\<lambda>fd. set_values fd (merged_values p a b fd)) (c_fields p a) ?b"
    unfolding c_merge.simps
    by (rule fold_cong) (use set c_values_known [OF p a] in \<open>auto simp: merged_values_def\<close>)
  have fds: "\<forall>fd \<in> set (c_fields p a). known_field p (c_type ?b) fd \<and> merged_values p a b fd \<noteq> []"
    using set t by (simp add: merged_values_def)
  note f = fold_set_values [OF p sh fds]
  show "c_shape p (c_merge p a b)" "c_type (c_merge p a b) = c_type b"
    "c_unknown (c_merge p a b) = uv_merge (c_unknown a) (c_unknown b)"
    "known_field p (c_type b) fd \<Longrightarrow> field_values fd (c_merge p a b) =
      (if field_values fd a = [] then field_values fd b else merged_values p a b fd)"
    unfolding eq using f set t fv by simp_all
qed

text \<open>Into a message that holds nothing: a copy.\<close>

lemma blank_values:
  assumes p: "pool_ok p" and fd: "known_field p t fd"
  shows "field_values fd (blank p t) = []"
proof (cases rule: known_field_cases [OF p fd, case_names own ext])
  case (own d)
  with own_field(3) [OF p own(1,2)] show ?thesis by (simp add: blank_def descriptor_of_Some)
qed (simp add: blank_def)

lemma blank_shape: "t < length (pool_types p) \<Longrightarrow> c_shape p (blank p t)"
  by (simp add: blank_def c_shape_def)

lemma c_merge_blank:
  assumes p: "pool_ok p"
  shows "message_ok p True m \<Longrightarrow> c_merge p (content m) (blank p (msg_type m)) = content m"
proof (induction m rule: measure_induct_rule [of "\<lambda>m. size (content m)"])
  case (less m)
  let ?a = "content m" and ?b = "blank p (msg_type m)"
  obtain t pr h slots exts u c where M: "m = Message t pr h slots exts u c" by (cases m)
  obtain d where d: "descriptor_of p t = Some d" using message_ok_descriptor [OF less.prems] by (auto simp: M)
  have u: "ufs_ok u" using message_okD(8) [OF less.prems [unfolded M] d] by simp
  have sh: "c_shape p ?a" "c_shape p ?b" using content_shape [OF less.prems] blank_shape d by (auto simp: M descriptor_of_Some)
  have t: "c_type ?a = c_type ?b" by (simp add: blank_def)
  note ok = c_merge_ok [OF p sh t]
  show ?case
  proof (rule mvalue_eqI [OF p ok(1) sh(1)])
    show "c_unknown (c_merge p ?a ?b) = c_unknown ?a"
      unfolding ok(3) using uv_merge_new [OF ufs_value_distinct [OF u]] by (simp add: blank_def M)
    fix fd assume "known_field p (c_type (c_merge p ?a ?b)) fd"
    then have fd: "known_field p (c_type ?b) fd" "known_field p (msg_type m) fd" unfolding ok(2) by (simp_all add: blank_def)
    note nil = blank_values [OF p fd(2)]
    have base: "merge_base p fd ?b = blank p (fd_message_type fd)" by (simp add: merge_base_def nil)
    have "merge_value p (blank p (fd_message_type fd)) v = v" if v: "v \<in> set (field_values fd ?a)" for v
      using values_ok [OF p less.prems fd(2) v]
    proof (elim disjE exE conjE)
      fix s assume s: "v = FMessage (content s)" "message_ok p True s" "msg_type s = fd_message_type fd"
      have "size (FMessage (content s)) < size ?a"
        using v s(1) c_values_known [OF p sh(1)] fd(2) by (intro size_c_values [where fd = fd]) simp
      then have "size (content s) < size ?a" by simp
      from less.IH [OF this s(2)] show ?thesis by (simp add: s(1,3))
    qed simp
    then have "map (merge_value p (blank p (fd_message_type fd))) (field_values fd ?a) = field_values fd ?a"
      by (intro map_idI)
    then show "field_values fd (c_merge p ?a ?b) = field_values fd ?a"
      using ok(4) [OF fd(1)] by (simp add: nil merged_values_def merged_into_def base)
  qed (simp only: ok(2) t)
qed

section \<open>The code against it\<close>

lemma GetString_is_Reference: "GetString p fd m = GetStringReference p fd m"
  by (simp add: GetString_def GetStringReference_def)

text \<open>What merging an embedded message is known to do.\<close>

definition merges_sub :: "pool \<Rightarrow> merge_message \<Rightarrow> field_descriptor \<Rightarrow> mvalue \<Rightarrow> bool" where
  "merges_sub p mg fd a \<longleftrightarrow>
     (\<forall>s t. message_ok p True s \<and> message_ok p True t \<and> msg_type s = fd_message_type fd \<and>
        msg_type t = fd_message_type fd \<and> FMessage (content s) \<in> set (field_values fd a) \<longrightarrow>
        (\<exists>t'. mg s t = Some t' \<and> message_ok p True t' \<and> content t' = c_merge p (content s) (content t)))"

text \<open>One value of a field, added or set.\<close>

lemma merge_one:
  assumes p: "pool_ok p" and m: "message_ok p True m" and fd: "known_field p (msg_type m) fd"
    and to: "message_ok p True to" "msg_type to = msg_type m"
    and j: "j < length (field_values fd (content m))" and sub: "merges_sub p mg fd (content m)"
  shows "\<exists>to'. (if is_repeated fd then merge_element p mg fd (int j) m to else merge_singular p mg fd m to) = Some to' \<and>
    updated p True fd (merged_into fd (content to) @
      [merge_value p (merge_base p fd (content to)) (field_values fd (content m) ! j)]) to to'"
proof -
  let ?v = "field_values fd (content m) ! j"
  have fd': "known_field p (msg_type to) fd" using fd to(2) by simp
  have v: "?v \<in> set (field_values fd (content m))" using j by simp
  from values_ok [OF p m fd v] show ?thesis
  proof (elim disjE exE conjE)
    fix s assume s: "?v = FMessage (content s)" "message_ok p True s" "msg_type s = fd_message_type fd"
      and ty: "cpp_type fd = CPPTYPE_MESSAGE"
    obtain from_sub where g: "get_message p fd (int j) m = Some from_sub" "content from_sub = content s"
      "message_ok p True from_sub" "msg_type from_sub = fd_message_type fd"
      by (rule get_message_ok [OF p m fd j s(1)])
    show ?thesis
    proof (rule sub_message_ok [OF p to(1) fd' ty])
      fix child to1
      assume c: "sub_message p fd to = Some (child, to1)" "message_ok p True child" "msg_type child = fd_message_type fd"
        "True \<Longrightarrow> is_repeated fd \<or> field_values fd (content to) = [] \<Longrightarrow> content child = blank p (fd_message_type fd)"
        "\<And>c. \<not> is_repeated fd \<Longrightarrow> field_values fd (content to) = [FMessage c] \<Longrightarrow> content child = c"
        and st: "\<And>sub'. message_ok p True sub' \<Longrightarrow> msg_type sub' = fd_message_type fd \<Longrightarrow>
          \<exists>m2. store_sub_message fd sub' to1 = Some m2 \<and> updated p True fd
            ((if is_repeated fd then field_values fd (content to) else []) @ [FMessage (content sub')]) to m2"
      have base: "content child = merge_base p fd (content to)"
      proof (cases "is_repeated fd \<or> field_values fd (content to) = []")
        case True
        with c(4) show ?thesis by (auto simp: merge_base_def)
      next
        case False
        then obtain w where w: "field_values fd (content to) = [w]"
          using singular_index(2) [OF p to(1) fd', of 0] by (metis length_greater_0_conv)
        with values_ok [OF p to(1) fd', of w] ty obtain c' where "w = FMessage c'"
          by (auto dest: scalar_ok_not_message)
        with c(5) [of c'] w False show ?thesis by (auto simp: merge_base_def)
      qed
      have "FMessage (content from_sub) \<in> set (field_values fd (content m))" using v s(1) g(2) by simp
      then obtain child' where child': "mg from_sub child = Some child'" "message_ok p True child'"
        "content child' = c_merge p (content s) (content child)"
        using sub g c(2,3) unfolding merges_sub_def by metis
      have sh: "c_shape p (content s)" "c_shape p (content child)" "c_type (content s) = c_type (content child)"
        using content_shape [OF s(2)] content_shape [OF c(2)] s(3) c(3) by simp_all
      have "msg_type child' = fd_message_type fd"
        using c_merge_ok(2) [OF p sh] child'(3) c(3) by (metis c_type_content)
      from st [OF child'(2) this] obtain m2 where m2: "store_sub_message fd child' to1 = Some m2"
        "updated p True fd (merged_into fd (content to) @ [FMessage (content child')]) to m2"
        by (auto simp: merged_into_def)
      have "(if is_repeated fd then merge_element p mg fd (int j) m to else merge_singular p mg fd m to) = Some m2"
        using c(1) g(1) child'(1) m2(1)
        by (simp add: merge_element_def merge_singular_def ty sub_message_def store_sub_message_def get_message_def split: if_splits)
      with m2(2) child'(3) s(1) base show ?thesis by simp
    qed
  next
    fix x assume x: "?v = FScalar x" "scalar_ok p fd x"
    have new: "merged_into fd (content to) @ [merge_value p (merge_base p fd (content to)) ?v] =
        (if is_repeated fd then field_values fd (content to) @ [FScalar x] else [FScalar x])"
      by (simp add: x(1) merged_into_def)
    have nm: "cpp_type fd \<noteq> CPPTYPE_MESSAGE" using x(2) scalar_ok_not_message by blast
    note get = get_scalar [OF p m fd j x(1)]
    show ?thesis unfolding new
    proof (cases "cpp_type fd = CPPTYPE_ENUM")
      case True
      then obtain e where e: "x = VEnum e" using x(2) by (cases x) auto
      let ?ev = "\<lparr>ev_type = fd_enum_type fd, ev_number = e\<rparr>"
      have ge: "get_enum p fd (int j) m = Some ?ev" by (rule get_enum_ok [OF p m fd j]) (simp add: x(1) e)
      have sv: "scalar_ok p fd (VEnum (ev_number ?ev))" using x(2) by (simp add: e)
      show "\<exists>to'. (if is_repeated fd then merge_element p mg fd (int j) m to else merge_singular p mg fd m to) = Some to' \<and>
          updated p True fd (if is_repeated fd then field_values fd (content to) @ [FScalar x] else [FScalar x]) to to'"
      proof (cases "is_repeated fd")
        case r: True
        from add_enum_ok [OF p to(1) fd' r sv] obtain to' where "AddEnum p fd ?ev to = Some to'"
          "updated p True fd (field_values fd (content to) @ [FScalar x]) to to'" by (auto simp: e)
        with ge r True show ?thesis by (simp add: merge_element_def get_enum_def)
      next
        case r: False
        from set_enum_ok [OF p to(1) fd' r sv] obtain to' where "SetEnum p fd ?ev to = Some to'"
          "updated p True fd [FScalar x] to to'" by (auto simp: e)
        with ge r True show ?thesis by (simp add: merge_singular_def get_enum_def)
      qed
    next
      case ne: False
      have ty: "scalar_type x = cpp_type fd" by (rule scalar_ok_type [OF x(2)])
      have run: "(if is_repeated fd then merge_element p mg fd (int j) m to else merge_singular p mg fd m to) =
          (if is_repeated fd then add_value p fd x to else set_value p fd x to)"
      proof (cases "cpp_type fd = CPPTYPE_STRING")
        case True
        then obtain d where "x = VString d" using ty by (cases x) auto
        with get(2) True show ?thesis
          by (simp add: merge_element_def merge_singular_def get_string_def GetString_is_Reference add_value_def
              set_value_def split: if_splits)
      next
        case False
        with get(1) nm ne ty show ?thesis
          by (cases x; cases "cpp_type fd")
            (simp_all add: merge_element_def merge_singular_def get_value_def add_value_def set_value_def split: if_splits)
      qed
      show "\<exists>to'. (if is_repeated fd then merge_element p mg fd (int j) m to else merge_singular p mg fd m to) = Some to' \<and>
          updated p True fd (if is_repeated fd then field_values fd (content to) @ [FScalar x] else [FScalar x]) to to'"
        unfolding run
      proof (cases "is_repeated fd")
        case True
        from add_value_ok [OF p to(1) fd' True x(2)] True
        show "\<exists>to'. (if is_repeated fd then add_value p fd x to else set_value p fd x to) = Some to' \<and>
            updated p True fd (if is_repeated fd then field_values fd (content to) @ [FScalar x] else [FScalar x]) to to'"
          by auto
      next
        case False
        from set_value_ok [OF p to(1) fd' False x(2)] False
        show "\<exists>to'. (if is_repeated fd then add_value p fd x to else set_value p fd x to) = Some to' \<and>
            updated p True fd (if is_repeated fd then field_values fd (content to) @ [FScalar x] else [FScalar x]) to to'"
          by auto
      qed
    qed
  qed
qed

text \<open>The values of a field, and then all fields.\<close>

lemma merge_field_ok:
  assumes p: "pool_ok p" and m: "message_ok p True m" and fd: "known_field p (msg_type m) fd"
    and ne: "field_values fd (content m) \<noteq> []" and sub: "merges_sub p mg fd (content m)"
    and to: "message_ok p True to" "msg_type to = msg_type m"
  shows "\<exists>to'. merge_field p mg fd m to = Some to' \<and> gains p {fd} (merged_values p (content m) (content to)) to to'"
proof -
  let ?vs = "field_values fd (content m)" and ?base = "merge_base p fd (content to)"
  have n: "field_count fd m = Some (int (length ?vs))" by (rule field_count_ok [OF p m fd])
  show ?thesis
  proof (cases "is_repeated fd")
    case False
    have one: "?vs = [?vs ! 0]" using singular_index(2) [OF p m fd False, of 0] ne by simp
    obtain to' where to': "merge_singular p mg fd m to = Some to'"
      "updated p True fd (merged_into fd (content to) @ [merge_value p ?base (?vs ! 0)]) to to'"
      using merge_one [OF p m fd to _ sub, of 0] ne False by auto
    have "merged_into fd (content to) @ [merge_value p ?base (?vs ! 0)] = merged_values p (content m) (content to) fd"
      by (subst merged_values_def, subst one) simp
    with updated_gains [OF p to(1) _ to'(2)] fd to(2)
    have "gains p {fd} (\<lambda>_. merged_values p (content m) (content to) fd) to to'" by simp
    then have "gains p {fd} (merged_values p (content m) (content to)) to to'" by (simp add: gains_def)
    moreover have "merge_field p mg fd m to = Some to'"
      using n to'(1) False ne by (auto simp: merge_field_def field_count_def split: if_splits)
    ultimately show ?thesis by blast
  next
    case True
    have base: "merge_base p fd c = blank p (fd_message_type fd)" "merged_into fd c = field_values fd c" for c
      using True by (simp_all add: merge_base_def merged_into_def)
    have elements: "\<forall>j \<in> set js. j < length ?vs \<Longrightarrow> message_ok p True t \<Longrightarrow> msg_type t = msg_type m \<Longrightarrow>
        \<exists>t'. merge_elements p mg fd (map int js) m t = Some t' \<and>
          gains p {fd} (\<lambda>_. field_values fd (content t) @ map (\<lambda>j. merge_value p (blank p (fd_message_type fd)) (?vs ! j)) js) t t'"
      for js t
    proof (induction js arbitrary: t)
      case Nil
      then show ?case by (simp add: gains_def)
    next
      case (Cons j js)
      obtain t1 where 1: "merge_element p mg fd (int j) m t = Some t1"
        "updated p True fd (field_values fd (content t) @ [merge_value p (blank p (fd_message_type fd)) (?vs ! j)]) t t1"
        using merge_one [OF p m fd Cons.prems(2,3) _ sub, of j] Cons.prems(1) True by (auto simp: base)
      have g: "gains p {fd} (\<lambda>_. field_values fd (content t) @ [merge_value p (blank p (fd_message_type fd)) (?vs ! j)]) t t1"
        using updated_gains [OF p Cons.prems(2) _ 1(2)] fd Cons.prems(3) by simp
      then have t1: "message_ok p True t1" "msg_type t1 = msg_type m"
        "field_values fd (content t1) = field_values fd (content t) @ [merge_value p (blank p (fd_message_type fd)) (?vs ! j)]"
        using fd Cons.prems(3) by (simp_all add: gains_def)
      obtain t' where 2: "merge_elements p mg fd (map int js) m t1 = Some t'"
        "gains p {fd} (\<lambda>_. field_values fd (content t1) @ map (\<lambda>j. merge_value p (blank p (fd_message_type fd)) (?vs ! j)) js) t1 t'"
        using Cons.IH [OF _ t1(1,2)] Cons.prems(1) by auto
      have "gains p {fd} (\<lambda>_. field_values fd (content t) @
          map (\<lambda>j. merge_value p (blank p (fd_message_type fd)) (?vs ! j)) (j # js)) t t'"
        using g 2(2) t1 by (simp add: gains_def)
      with 1(1) 2(1) show ?case by auto
    qed
    obtain to' where to': "merge_elements p mg fd (map int [0..<length ?vs]) m to = Some to'"
      "gains p {fd} (\<lambda>_. field_values fd (content to) @
        map (\<lambda>j. merge_value p (blank p (fd_message_type fd)) (?vs ! j)) [0..<length ?vs]) to to'"
      using elements [OF _ to, of "[0..<length ?vs]"] by auto
    have "map (\<lambda>j. merge_value p (blank p (fd_message_type fd)) (?vs ! j)) [0..<length ?vs] =
        map (merge_value p (blank p (fd_message_type fd))) ?vs"
      by (intro nth_equalityI) simp_all
    with to'(2) have "gains p {fd} (merged_values p (content m) (content to)) to to'"
      by (simp add: gains_def merged_values_def base)
    moreover have "merge_field p mg fd m to = Some to'"
      using n to'(1) True by (simp add: merge_field_def field_count_def upto_int)
    ultimately show ?thesis by blast
  qed
qed

lemma merge_fields_ok:
  assumes p: "pool_ok p" and m: "message_ok p True m"
    and fds: "\<forall>fd \<in> set fds. known_field p (msg_type m) fd \<and> field_values fd (content m) \<noteq> [] \<and> merges_sub p mg fd (content m)"
    and d: "distinct fds" and to: "message_ok p True to" "msg_type to = msg_type m"
  shows "\<exists>to'. merge_fields p mg fds m to = Some to' \<and> gains p (set fds) (merged_values p (content m) (content to)) to to'"
  using fds d to
proof (induction fds arbitrary: to)
  case Nil
  then show ?case by (simp add: gains_def)
next
  case (Cons fd fds)
  obtain t1 where 1: "merge_field p mg fd m to = Some t1" "gains p {fd} (merged_values p (content m) (content to)) to t1"
    using merge_field_ok [OF p m _ _ _ Cons.prems(3,4), of fd] Cons.prems(1) by auto
  then have t1: "message_ok p True t1" "msg_type t1 = msg_type m" using Cons.prems(4) by (simp_all add: gains_def)
  obtain t2 where 2: "merge_fields p mg fds m t1 = Some t2" "gains p (set fds) (merged_values p (content m) (content t1)) t1 t2"
    using Cons.IH [OF _ _ t1] Cons.prems(1,2) by auto
  have "merged_values p (content m) (content t1) fd' = merged_values p (content m) (content to) fd'" if "fd' \<in> set fds" for fd'
  proof -
    have "field_values fd' (content t1) = field_values fd' (content to)"
      using 1(2) that Cons.prems by (auto simp: gains_def)
    then show ?thesis by (simp add: merged_values_def merged_into_def merge_base_def)
  qed
  then have "gains p (set (fd # fds)) (merged_values p (content m) (content to)) to t2"
    using 1(2) 2(2) t1(2) Cons.prems(2,4) by (auto simp: gains_def)
  with 1(1) 2(1) show ?case by auto
qed

lemma merge_from_ok:
  assumes p: "pool_ok p"
  shows "message_ok p True m \<Longrightarrow> message_ok p True to \<Longrightarrow> msg_type to = msg_type m \<Longrightarrow>
    \<exists>to'. Message_MergeFrom p m to = Some to' \<and> message_ok p True to' \<and> content to' = c_merge p (content m) (content to)"
proof (induction m arbitrary: to rule: measure_induct_rule [of "\<lambda>m. size (content m)"])
  case (less m)
  note m = less.prems(1) and to = less.prems(2,3)
  let ?a = "content m" and ?b = "content to" and ?mg = "Message_MergeFrom p"
  have sh: "c_shape p ?a" "c_shape p ?b" using content_shape m to(1) by blast+
  have t: "c_type ?a = c_type ?b" using to(2) by simp
  have set: "set (c_fields p ?a) = {fd. known_field p (msg_type m) fd \<and> field_values fd ?a \<noteq> []}"
    using set_c_fields [OF p sh(1)] by simp
  have sub: "merges_sub p ?mg fd ?a" if fd: "known_field p (msg_type m) fd" for fd
    unfolding merges_sub_def
  proof (intro allI impI, elim conjE)
    fix s t
    assume s: "message_ok p True s" "message_ok p True t" "msg_type s = fd_message_type fd" "msg_type t = fd_message_type fd"
      and v: "FMessage (content s) \<in> set (field_values fd ?a)"
    have "size (FMessage (content s)) < size ?a"
      using v c_values_known [OF p sh(1)] fd by (intro size_c_values [where fd = fd]) simp
    then have "size (content s) < size ?a" by simp
    from less.IH [OF this s(1,2)] s(3,4)
    show "\<exists>t'. ?mg s t = Some t' \<and> message_ok p True t' \<and> content t' = c_merge p (content s) (content t)" by simp
  qed
  have fds: "\<forall>fd \<in> set (c_fields p ?a). known_field p (msg_type m) fd \<and> field_values fd ?a \<noteq> [] \<and> merges_sub p ?mg fd ?a"
    using set sub by blast
  obtain t1 where 1: "merge_fields p ?mg (c_fields p ?a) m to = Some t1"
    "gains p (set (c_fields p ?a)) (merged_values p ?a ?b) to t1"
    using merge_fields_ok [OF p m fds distinct_c_fields [OF p sh(1)] to] by blast
  then have t1: "message_ok p True t1" "msg_type t1 = msg_type m" "c_unknown (content t1) = c_unknown ?b"
    using to(2) by (simp_all add: gains_def)
  let ?u = "UnknownFieldSet_MergeFrom (msg_unknown_fields m) (msg_unknown_fields t1)"
  let ?t2 = "with_unknown_fields ?u t1"
  have um: "ufs_ok (msg_unknown_fields n)" "ufs_clean (msg_unknown_fields n)" if n: "message_ok p True n" for n
  proof -
    obtain d where d: "descriptor_of p (msg_type n) = Some d" using message_ok_descriptor [OF n] by auto
    obtain t pr h slots exts u c where N: "n = Message t pr h slots exts u c" by (cases n)
    from message_okD(8) [OF n [unfolded N], of d] d show "ufs_ok (msg_unknown_fields n)" "ufs_clean (msg_unknown_fields n)"
      by (simp_all add: N)
  qed
  note u = merge_unknown(2) [OF um(1) [OF m] um(1,2) [OF t1(1)]]
  have t2: "message_ok p True ?t2 \<and> content ?t2 = Content (c_type (content t1)) (c_own (content t1)) (c_ext (content t1)) (ufs_value ?u)"
  proof -
    obtain d where d: "descriptor_of p (msg_type t1) = Some d" using message_ok_descriptor [OF t1(1)] by auto
    obtain t pr h slots exts v c where N: "t1 = Message t pr h slots exts v c" by (cases t1)
    note E = message_okD [OF t1(1) [unfolded N], of d]
    have "message_ok p True (Message t pr h slots exts ?u c)"
      using E(1) d u by (auto intro!: message_ok_slot_ok.message [OF _ E(2-7)] simp: N)
    then show ?thesis by (simp add: N)
  qed
  have "content ?t2 = c_merge p ?a ?b"
  proof (rule mvalue_eqI [OF p _ c_merge_ok(1) [OF p sh t]])
    show "c_shape p (content ?t2)" using content_shape t2 by blast
    show "c_type (content ?t2) = c_type (c_merge p ?a ?b)" unfolding c_merge_ok(2) [OF p sh t] using t1(2) to(2) by simp
    show "c_unknown (content ?t2) = c_unknown (c_merge p ?a ?b)"
      unfolding c_merge_ok(3) [OF p sh t] using u t1(3) by (simp add: t2)
    fix fd assume "known_field p (c_type (content ?t2)) fd"
    then have fd: "known_field p (msg_type m) fd" using t1(2) by simp
    have "field_values fd (content ?t2) = field_values fd (content t1)" using t2 by (cases "content t1") simp
    then show "field_values fd (content ?t2) = field_values fd (c_merge p ?a ?b)"
      using c_merge_ok(4) [OF p sh t, of fd] fd 1(2) set to(2) by (auto simp: gains_def)
  qed
  moreover have "?mg m to = Some ?t2"
    using 1(1) ListFields_ok [OF p m] to(2) by (subst Message_MergeFrom.simps) (simp add: ReflectionOps_Merge_def)
  ultimately show ?case using t2 by blast
qed

end
