(* ===== verification/RequiredFields.thy ===== *)
theory RequiredFields
  imports ReflectionOps MessageWrites
begin

text \<open>
  The required fields a content lacks, as paths, and that \<open>FindInitializationErrors\<close> lists them and
  \<open>IsInitialized\<close> says whether there are any.
\<close>

section \<open>What is missing\<close>

definition sub_prefix :: "bytes \<Rightarrow> field_descriptor \<Rightarrow> nat \<Rightarrow> bytes" where
  "sub_prefix pre fd j =
     pre @ (if fd_is_extension fd then [asc CHR ''(''] @ fd_full_name fd @ [asc CHR '')''] else fd_name fd) @
     (if is_repeated fd then [asc CHR ''[''] @ signed_decimal (int j) @ [asc CHR '']''] else []) @ [asc CHR ''.'']"

function v_missing :: "pool \<Rightarrow> bytes \<Rightarrow> fvalue \<Rightarrow> bytes list" and c_missing :: "pool \<Rightarrow> bytes \<Rightarrow> mvalue \<Rightarrow> bytes list" where
  "v_missing p pre (FScalar x) = []"
| "v_missing p pre (FMessage c) = c_missing p pre c"
| "c_missing p pre c =
     map (\<lambda>fd. pre @ fd_name fd)
       (filter (\<lambda>fd. is_required fd \<and> field_values fd c = []) (d_field_list (pool_types p ! c_type c))) @
     concat (map (\<lambda>fd. concat (map (\<lambda>j. v_missing p (sub_prefix pre fd j) (c_values fd c ! j)) [0..<length (c_values fd c)]))
       (c_fields p c))"
  by pat_completeness auto
termination
  by (relation "measure (\<lambda>x. case x of Inl (p, pre, v) \<Rightarrow> size v | Inr (p, pre, c) \<Rightarrow> size c)")
    (auto dest: nth_mem size_c_values)

declare c_missing.simps [simp del]

definition field_missing :: "pool \<Rightarrow> bytes \<Rightarrow> field_descriptor \<Rightarrow> mvalue \<Rightarrow> bytes list" where
  "field_missing p pre fd c =
     concat (map (\<lambda>j. v_missing p (sub_prefix pre fd j) (field_values fd c ! j)) [0..<length (field_values fd c)])"

definition own_missing :: "pool \<Rightarrow> bytes \<Rightarrow> mvalue \<Rightarrow> bytes list" where
  "own_missing p pre c =
     map (\<lambda>fd. pre @ fd_name fd)
       (filter (\<lambda>fd. is_required fd \<and> field_values fd c = []) (d_field_list (pool_types p ! c_type c)))"

lemma c_missing_content:
  assumes p: "pool_ok p" and m: "message_ok p strict m"
  shows "c_missing p pre (content m) =
    own_missing p pre (content m) @ concat (map (\<lambda>fd. field_missing p pre fd (content m)) (c_fields p (content m)))"
proof -
  note c = content_shape [OF m]
  have "map (\<lambda>fd. concat (map (\<lambda>j. v_missing p (sub_prefix pre fd j) (c_values fd (content m) ! j))
      [0..<length (c_values fd (content m))])) (c_fields p (content m)) =
    map (\<lambda>fd. field_missing p pre fd (content m)) (c_fields p (content m))"
    using set_c_fields [OF p c] c_values_known [OF p c] by (intro map_cong) (auto simp: field_missing_def)
  then show ?thesis unfolding c_missing.simps own_missing_def by (simp only:)
qed

section \<open>The code against it\<close>

lemma has_field_ok:
  assumes "pool_ok p" "message_ok p strict m" "known_field p (msg_type m) fd" "\<not> is_repeated fd"
  shows "HasField fd m = Some (field_values fd (content m) \<noteq> [])"
proof -
  have "field_count fd m = Some (int (length (field_values fd (content m))))" by (rule field_count_ok [OF assms(1-3)])
  then show ?thesis using assms(4) by (auto simp: field_count_def split: if_splits)
qed

lemma required_ok:
  assumes p: "pool_ok p" and m: "message_ok p strict m" and d: "descriptor_of p (msg_type m) = Some d"
    and fds: "set fds \<subseteq> set (d_field_list d)"
  shows "has_required fds m = Some (filter (\<lambda>fd. is_required fd \<and> field_values fd (content m) = []) fds = [])"
    and "required_errors pre fds m =
      Some (map (\<lambda>fd. pre @ fd_name fd) (filter (\<lambda>fd. is_required fd \<and> field_values fd (content m) = []) fds))"
proof -
  have has: "HasField fd m = Some (field_values fd (content m) \<noteq> [])" if "fd \<in> set fds" "is_required fd" for fd
    using has_field_ok [OF p m, of fd] that fds d by (auto simp: known_field_def is_required_def is_repeated_def)
  then show "has_required fds m = Some (filter (\<lambda>fd. is_required fd \<and> field_values fd (content m) = []) fds = [])"
    by (induction fds) auto
  show "required_errors pre fds m =
      Some (map (\<lambda>fd. pre @ fd_name fd) (filter (\<lambda>fd. is_required fd \<and> field_values fd (content m) = []) fds))"
    using has by (induction fds) auto
qed

lemma element_errors_ok:
  assumes "\<forall>j \<in> set js. \<exists>s. GetRepeatedMessage fd (int j) m = Some s \<and>
    SubMessagePrefix stack pre fd (int j) = Some (sub_prefix pre fd j) \<and> errs (sub_prefix pre fd j) s = Some (E j)"
  shows "element_errors stack errs pre fd (map int js) m = Some (concat (map E js))"
  using assms by (induction js) auto

lemma all_initialized_ok:
  assumes "\<forall>j \<in> set js. \<exists>s. get (int j) = Some s \<and> is_init s = Some (b j)"
  shows "all_initialized is_init get (map int js) = Some (\<forall>j \<in> set js. b j)"
  using assms
proof (induction js)
  case (Cons j js)
  then obtain s where "get (int j) = Some s" "is_init s = Some (b j)" by auto
  with Cons show ?case by (cases "b j") auto
qed simp

lemma SubMessagePrefix_ok:
  assumes "length stack = kFastToBufferSize" "is_repeated fd \<Longrightarrow> is_int32 (int j)"
  shows "SubMessagePrefix stack pre fd (if is_repeated fd then int j else - 1) = Some (sub_prefix pre fd j)"
  using assms SimpleItoa_int_text [OF assms(1)] by (simp add: SubMessagePrefix_def sub_prefix_def)

text \<open>One field that is set, with what is known of its messages.\<close>

lemma sub_fields_ok:
  assumes p: "pool_ok p" and m: "message_ok p strict m" 
    and fds: "\<forall>fd \<in> set fds. known_field p (msg_type m) fd \<and> field_values fd (content m) \<noteq> []"
    and subs: "\<forall>fd s pre. fd \<in> set fds \<longrightarrow> FMessage (content s) \<in> set (field_values fd (content m)) \<longrightarrow>
      message_ok p strict s \<longrightarrow> is_init s = Some (c_missing p pre (content s) = []) \<and>
        (stack_ok \<longrightarrow> errs pre s = Some (c_missing p pre (content s)))"
    and stack: "stack_ok \<longrightarrow> length stack = kFastToBufferSize \<and> int (size (content m)) \<le> INT_MAX"
  shows "subs_initialized p is_init fds m = Some (\<forall>fd \<in> set fds. field_missing p pre fd (content m) = [])"
    and "stack_ok \<Longrightarrow> sub_errors p stack errs pre fds m =
      Some (concat (map (\<lambda>fd. field_missing p pre fd (content m)) fds))"
proof -
  let ?vs = "\<lambda>fd. field_values fd (content m)"
  have step: "(if is_repeated fd then do { n \<leftarrow> FieldSize fd m; all_initialized is_init (\<lambda>j. GetRepeatedMessage fd j m) [0..n - 1] }
       else do { has \<leftarrow> HasField fd m; (if has then do { child \<leftarrow> GetMessage p fd m; is_init child } else Some True) }) =
      Some (field_missing p pre fd (content m) = []) \<and>
    (stack_ok \<longrightarrow> (if is_repeated fd then do { n \<leftarrow> FieldSize fd m; element_errors stack errs pre fd [0..n - 1] m }
       else do { has \<leftarrow> HasField fd m;
         (if has then do { child \<leftarrow> GetMessage p fd m; sub_prefix \<leftarrow> SubMessagePrefix stack pre fd (- 1); errs sub_prefix child }
          else Some []) }) = Some (field_missing p pre fd (content m)))"
    if f: "fd \<in> set fds" and ty: "cpp_type fd = CPPTYPE_MESSAGE" for fd
  proof -
    have fd: "known_field p (msg_type m) fd" "?vs fd \<noteq> []" using fds f by blast+
    note so = subs_ok [OF p m fd(1) ty fd(2)]
    have n: "field_count fd m = Some (int (length (?vs fd)))" by (rule field_count_ok [OF p m fd(1)])
    have each: "\<exists>s. get_message p fd (int j) m = Some s \<and>
        is_init s = Some (v_missing p (sub_prefix pre fd j) (?vs fd ! j) = []) \<and>
        (stack_ok \<longrightarrow> SubMessagePrefix stack pre fd (if is_repeated fd then int j else - 1) = Some (sub_prefix pre fd j) \<and>
          errs (sub_prefix pre fd j) s = Some (v_missing p (sub_prefix pre fd j) (?vs fd ! j)))"
      if j: "j < length (?vs fd)" for j
    proof -
      have l: "j < length (subs fd m)" using j so(1) by simp
      let ?s = "subs fd m ! j"
      have v: "?vs fd ! j = FMessage (content ?s)" using so(1) l by simp
      have s: "message_ok p strict ?s" using so(2) l by simp
      have "is_int32 (int j)" if stack_ok
      proof -
        have "c_values fd (content m) = ?vs fd" using c_values_known [OF p content_shape [OF m]] fd(1) by simp
        then have "size_list size (?vs fd) < size (content m)" using size_list_c_values [of fd "content m"] fd(2) by simp
        then have "j \<le> size (content m)" using j by (simp add: size_list_conv_sum_list)
        then show ?thesis using stack that by (simp add: int_bounds)
      qed
      with SubMessagePrefix_ok [of stack fd j pre] so(3) [OF l] subs [rule_format, OF f _ s, of "sub_prefix pre fd j"] j v stack
      show ?thesis by (metis nth_mem v_missing.simps(2))
    qed
    show ?thesis
    proof (cases "is_repeated fd")
      case True
      then have c: "FieldSize fd m = Some (int (length (?vs fd)))" using n by (simp add: field_count_def)
      have e: "\<forall>j \<in> set [0..<length (?vs fd)]. \<exists>s. GetRepeatedMessage fd (int j) m = Some s \<and>
          is_init s = Some (v_missing p (sub_prefix pre fd j) (?vs fd ! j) = []) \<and>
          (stack_ok \<longrightarrow> SubMessagePrefix stack pre fd (int j) = Some (sub_prefix pre fd j) \<and>
            errs (sub_prefix pre fd j) s = Some (v_missing p (sub_prefix pre fd j) (?vs fd ! j)))"
        using each True by (auto simp: get_message_def)
      then have "all_initialized is_init (\<lambda>j. GetRepeatedMessage fd j m) (map int [0..<length (?vs fd)]) =
          Some (\<forall>j \<in> set [0..<length (?vs fd)]. v_missing p (sub_prefix pre fd j) (?vs fd ! j) = [])"
        by (intro all_initialized_ok) blast
      moreover have "element_errors stack errs pre fd (map int [0..<length (?vs fd)]) m =
          Some (concat (map (\<lambda>j. v_missing p (sub_prefix pre fd j) (?vs fd ! j)) [0..<length (?vs fd)]))" if stack_ok
        using e that by (intro element_errors_ok) blast
      ultimately show ?thesis using True c by (auto simp: upto_int field_missing_def concat_eq_Nil_conv)
    next
      case False
      have one: "length (?vs fd) = 1"
        using singular_index(2) [OF p m fd(1) False, of 0] fd(2) by (metis length_greater_0_conv length_0_conv length_Cons One_nat_def)
      then have "field_missing p pre fd (content m) = v_missing p (sub_prefix pre fd 0) (?vs fd ! 0)"
        by (simp add: field_missing_def)
      moreover have "HasField fd m = Some True" using has_field_ok [OF p m fd(1) False] fd(2) by simp
      ultimately show ?thesis using each [of 0] one False by (auto simp: get_message_def)
    qed
  qed
  have scalar: "field_missing p pre fd (content m) = []" if "fd \<in> set fds" "cpp_type fd \<noteq> CPPTYPE_MESSAGE" for fd
  proof -
    have "\<exists>x. v = FScalar x" if "v \<in> set (?vs fd)" for v
      using values_ok [OF p m _ that] fds \<open>fd \<in> set fds\<close> \<open>cpp_type fd \<noteq> CPPTYPE_MESSAGE\<close> by blast
    then have "v_missing p q v = []" if "v \<in> set (?vs fd)" for q v using that by (metis v_missing.simps(1))
    then show ?thesis by (simp add: field_missing_def concat_eq_Nil_conv)
  qed
  have "set gs \<subseteq> set fds \<Longrightarrow>
      subs_initialized p is_init gs m = Some (\<forall>fd \<in> set gs. field_missing p pre fd (content m) = []) \<and>
      (stack_ok \<longrightarrow> sub_errors p stack errs pre gs m = Some (concat (map (\<lambda>fd. field_missing p pre fd (content m)) gs)))"
    for gs
  proof (induction gs)
    case (Cons fd gs)
    then have fd: "fd \<in> set fds" and
      IH: "subs_initialized p is_init gs m = Some (\<forall>fd \<in> set gs. field_missing p pre fd (content m) = [])"
      "stack_ok \<Longrightarrow> sub_errors p stack errs pre gs m = Some (concat (map (\<lambda>fd. field_missing p pre fd (content m)) gs))"
      by auto
    show ?case
    proof (cases "cpp_type fd = CPPTYPE_MESSAGE")
      case True
      from step [OF fd True] IH True show ?thesis by (cases "field_missing p pre fd (content m) = []") auto
    qed (use IH scalar [OF fd] in simp)
  qed simp
  from this [OF order_refl]
  show "subs_initialized p is_init fds m = Some (\<forall>fd \<in> set fds. field_missing p pre fd (content m) = [])"
    "stack_ok \<Longrightarrow> sub_errors p stack errs pre fds m = Some (concat (map (\<lambda>fd. field_missing p pre fd (content m)) fds))"
    by blast+
qed

text \<open>Both functions against the specification.\<close>

lemma missing_ok:
  assumes p: "pool_ok p"
  shows "message_ok p strict m \<Longrightarrow> Message_IsInitialized p m = Some (c_missing p pre (content m) = []) \<and>
    (length stack = kFastToBufferSize \<longrightarrow> int (size (content m)) \<le> INT_MAX \<longrightarrow>
      FindInitializationErrors p stack pre m = Some (c_missing p pre (content m)))"
proof (induction m arbitrary: pre rule: measure_induct_rule [of "\<lambda>m. size (content m)"])
  case (less m)
  note m = less.prems
  let ?c = "content m" and ?st = "length stack = kFastToBufferSize \<and> int (size (content m)) \<le> INT_MAX"
  obtain d where d: "descriptor_of p (msg_type m) = Some d" using message_ok_descriptor [OF m] by auto
  have fds: "\<forall>fd \<in> set (c_fields p ?c). known_field p (msg_type m) fd \<and> field_values fd ?c \<noteq> []"
    using set_c_fields [OF p content_shape [OF m]] by simp
  have subs: "Message_IsInitialized p s = Some (c_missing p pre (content s) = []) \<and>
      (?st \<longrightarrow> FindInitializationErrors p stack pre s = Some (c_missing p pre (content s)))"
    if fd: "fd \<in> set (c_fields p ?c)" and v: "FMessage (content s) \<in> set (field_values fd ?c)" and s: "message_ok p strict s"
    for fd s pre
  proof -
    have "size (FMessage (content s)) < size ?c"
      using v c_values_known [OF p content_shape [OF m]] fds fd by (intro size_c_values [where fd = fd]) simp
    then have "size (content s) < size ?c" by simp
    with less.IH [OF this s, of pre] show ?thesis by auto
  qed
  note sub = sub_fields_ok [where is_init = "Message_IsInitialized p" and errs = "FindInitializationErrors p stack" and
      stack_ok = ?st and pre = pre and stack = stack, OF p m fds]
  have subs: "\<forall>fd s pre. fd \<in> set (c_fields p ?c) \<longrightarrow> FMessage (content s) \<in> set (field_values fd ?c) \<longrightarrow>
      message_ok p strict s \<longrightarrow> Message_IsInitialized p s = Some (c_missing p pre (content s) = []) \<and>
      (?st \<longrightarrow> FindInitializationErrors p stack pre s = Some (c_missing p pre (content s)))"
    using subs by blast
  have t: "pool_types p ! msg_type m = d" using d by (simp add: descriptor_of_Some)
  note req = required_ok [OF p m d order_refl]
  have "Message_IsInitialized p m = Some (c_missing p pre ?c = [])"
    using sub(1) [OF subs] d ListFields_ok [OF p m]
    by (subst Message_IsInitialized.simps)
      (auto simp: ReflectionOps_IsInitialized_def req(1) c_missing_content [OF p m] own_missing_def t concat_eq_Nil_conv)
  moreover have "FindInitializationErrors p stack pre m = Some (c_missing p pre ?c)" if ?st
    using sub(2) [OF subs] that d ListFields_ok [OF p m]
    by (subst FindInitializationErrors.simps)
      (simp add: FindInitializationErrors_with_def req(2) c_missing_content [OF p m] own_missing_def t)
  ultimately show ?case by blast
qed

end
