(* ===== verification/MessageStreams.thy ===== *)
theory MessageStreams
  imports ReflectionOps FileStreams
begin

text \<open>
  The entry points of \<open>Message\<close> (\<open>message.cc\<close>): parsing a message from a coded stream, a zero-copy
  stream, a string, an array, a file or an \<open>istream\<close>, and serializing it to one. A message that is
  serialized is returned with the sizes it caches. The messages that are logged on failure are not
  modelled; the \<open>GOOGLE_DCHECK\<close>s of a debug build are.
\<close>

section \<open>Parsing\<close>

definition MergeFromCodedStream :: "pool \<Rightarrow> 's input_vt \<Rightarrow> ('s, message) merge" where
  "MergeFromCodedStream p vt input m = do {
     ((ok, m'), c) \<leftarrow> MergePartialFromCodedStream p vt input m;
     (if \<not> ok then Some ((False, m'), c)
      else do {
        initialized \<leftarrow> Message_IsInitialized p m';
        Some ((initialized, m'), c)
      })
   }"

definition ParseFromCodedStream :: "pool \<Rightarrow> 's input_vt \<Rightarrow> ('s, message) merge" where
  "ParseFromCodedStream p vt input m = do {
     m' \<leftarrow> Message_Clear p m;
     MergeFromCodedStream p vt input m'
   }"

definition ParsePartialFromCodedStream :: "pool \<Rightarrow> 's input_vt \<Rightarrow> ('s, message) merge" where
  "ParsePartialFromCodedStream p vt input m = do {
     m' \<leftarrow> Message_Clear p m;
     MergePartialFromCodedStream p vt input m'
   }"

text \<open>With the destructor of \<open>decoder\<close>, which backs the stream up.\<close>

definition ParseFromZeroCopyStream :: "pool \<Rightarrow> 's input_vt \<Rightarrow> 's \<Rightarrow> message \<Rightarrow> ((bool \<times> message) \<times> 's) option" where
  "ParseFromZeroCopyStream p vt input m = do {
     ((ok, m'), decoder) \<leftarrow> ParseFromCodedStream p vt (CodedInputStream input) m;
     s \<leftarrow> CodedInputStream_destroy vt decoder;
     Some ((ok \<and> CodedInputStream_ConsumedEntireMessage decoder, m'), s)
   }"

definition ParsePartialFromZeroCopyStream ::
  "pool \<Rightarrow> 's input_vt \<Rightarrow> 's \<Rightarrow> message \<Rightarrow> ((bool \<times> message) \<times> 's) option" where
  "ParsePartialFromZeroCopyStream p vt input m = do {
     ((ok, m'), decoder) \<leftarrow> ParsePartialFromCodedStream p vt (CodedInputStream input) m;
     s \<leftarrow> CodedInputStream_destroy vt decoder;
     Some ((ok \<and> CodedInputStream_ConsumedEntireMessage decoder, m'), s)
   }"

definition ParseFromString :: "pool \<Rightarrow> bytes \<Rightarrow> message \<Rightarrow> (bool \<times> message) option" where
  "ParseFromString p data m =
     map_option fst (ParseFromZeroCopyStream p ArrayInput_vt (ArrayInputStream data (int (length data)) (- 1)) m)"

definition ParsePartialFromString :: "pool \<Rightarrow> bytes \<Rightarrow> message \<Rightarrow> (bool \<times> message) option" where
  "ParsePartialFromString p data m =
     map_option fst (ParsePartialFromZeroCopyStream p ArrayInput_vt (ArrayInputStream data (int (length data)) (- 1)) m)"

definition ParseFromArray :: "pool \<Rightarrow> bytes \<Rightarrow> int \<Rightarrow> message \<Rightarrow> (bool \<times> message) option" where
  "ParseFromArray p data sz m =
     map_option fst (ParseFromZeroCopyStream p ArrayInput_vt (ArrayInputStream data sz (- 1)) m)"

definition ParsePartialFromArray :: "pool \<Rightarrow> bytes \<Rightarrow> int \<Rightarrow> message \<Rightarrow> (bool \<times> message) option" where
  "ParsePartialFromArray p data sz m =
     map_option fst (ParsePartialFromZeroCopyStream p ArrayInput_vt (ArrayInputStream data sz (- 1)) m)"

text \<open>A file: the result, the message, and the operating system after the reads.\<close>

definition ParseFromFileDescriptor ::
  "pool \<Rightarrow> 'k posix \<Rightarrow> int \<Rightarrow> 'k \<Rightarrow> message \<Rightarrow> ((bool \<times> message) \<times> 'k) option" where
  "ParseFromFileDescriptor p px file_descriptor k m = do {
     ((ok, m'), s) \<leftarrow> ParseFromZeroCopyStream p (CopyingInputAdaptor_vt (File_vt px)) (FileInputStream file_descriptor (- 1) k) m;
     Some ((ok \<and> cf_errno (ca_stream s) = 0, m'), cf_os (ca_stream s))
   }"

definition ParsePartialFromFileDescriptor ::
  "pool \<Rightarrow> 'k posix \<Rightarrow> int \<Rightarrow> 'k \<Rightarrow> message \<Rightarrow> ((bool \<times> message) \<times> 'k) option" where
  "ParsePartialFromFileDescriptor p px file_descriptor k m = do {
     ((ok, m'), s) \<leftarrow> ParsePartialFromZeroCopyStream p (CopyingInputAdaptor_vt (File_vt px)) (FileInputStream file_descriptor (- 1) k) m;
     Some ((ok \<and> cf_errno (ca_stream s) = 0, m'), cf_os (ca_stream s))
   }"

definition ParseFromIstream :: "pool \<Rightarrow> istream \<Rightarrow> message \<Rightarrow> ((bool \<times> message) \<times> istream) option" where
  "ParseFromIstream p input m = do {
     ((ok, m'), s) \<leftarrow> ParseFromZeroCopyStream p IstreamInput_vt (IstreamInputStream input (- 1)) m;
     Some ((ok \<and> is_eofbit (ca_stream s), m'), ca_stream s)
   }"

definition ParsePartialFromIstream :: "pool \<Rightarrow> istream \<Rightarrow> message \<Rightarrow> ((bool \<times> message) \<times> istream) option" where
  "ParsePartialFromIstream p input m = do {
     ((ok, m'), s) \<leftarrow> ParsePartialFromZeroCopyStream p IstreamInput_vt (IstreamInputStream input (- 1)) m;
     Some ((ok \<and> is_eofbit (ca_stream s), m'), ca_stream s)
   }"

section \<open>Serializing\<close>

definition dcheck_initialized :: "pool \<Rightarrow> message \<Rightarrow> unit option" where
  "dcheck_initialized p m = do { b \<leftarrow> Message_IsInitialized p m; (if b then Some () else None) }"

definition SerializeToCodedStream ::
  "pool \<Rightarrow> 's output_vt \<Rightarrow> 's coded_output \<Rightarrow> message \<Rightarrow> ((bool \<times> message) \<times> 's coded_output) option" where
  "SerializeToCodedStream p vt output m = do {
     _ \<leftarrow> dcheck_initialized p m;
     SerializePartialToCodedStream p vt output m
   }"

definition SerializeToZeroCopyStream ::
  "pool \<Rightarrow> 's output_vt \<Rightarrow> 's \<Rightarrow> message \<Rightarrow> ((bool \<times> message) \<times> 's) option" where
  "SerializeToZeroCopyStream p vt output m = do {
     (r, encoder) \<leftarrow> SerializeToCodedStream p vt (CodedOutputStream output) m;
     s \<leftarrow> CodedOutputStream_destroy vt encoder;
     Some (r, s)
   }"

definition SerializePartialToZeroCopyStream ::
  "pool \<Rightarrow> 's output_vt \<Rightarrow> 's \<Rightarrow> message \<Rightarrow> ((bool \<times> message) \<times> 's) option" where
  "SerializePartialToZeroCopyStream p vt output m = do {
     (r, encoder) \<leftarrow> SerializePartialToCodedStream p vt (CodedOutputStream output) m;
     s \<leftarrow> CodedOutputStream_destroy vt encoder;
     Some (r, s)
   }"

text \<open>
  A string is its characters and its capacity; \<open>reserve\<close> grows it as an assignment does. The result
  holds the string after the call. A size over the largest \<open>int\<close> becomes negative, and \<open>reserve\<close>
  throws an exception for it.
\<close>

definition string_reserve :: "int \<Rightarrow> int \<Rightarrow> int" where
  "string_reserve n capacity = (if n \<le> capacity then capacity else max n (2 * capacity))"

definition AppendPartialToString ::
  "pool \<Rightarrow> bytes \<Rightarrow> int \<Rightarrow> message \<Rightarrow> ((bool \<times> message) \<times> string_output) option" where
  "AppendPartialToString p output capacity m = do {
     (sz, m') \<leftarrow> Message_ByteSize p m;
     let total_size = int (length output) + sz;
     _ \<leftarrow> (if total_size \<le> INT_MAX then Some () else None);
     (ok, encoder) \<leftarrow> Message_SerializeWithCachedSizes p StringOutput_vt m'
       (CodedOutputStream (StringOutputStream output (string_reserve total_size capacity)));
     s \<leftarrow> CodedOutputStream_destroy StringOutput_vt encoder;
     (if \<not> ok then Some ((False, m'), s)
      else if StringOutputStream_ByteCount s = total_size then Some ((True, m'), s) else None)
   }"

definition AppendToString ::
  "pool \<Rightarrow> bytes \<Rightarrow> int \<Rightarrow> message \<Rightarrow> ((bool \<times> message) \<times> string_output) option" where
  "AppendToString p output capacity m = do {
     _ \<leftarrow> dcheck_initialized p m;
     AppendPartialToString p output capacity m
   }"

definition SerializeToString :: "pool \<Rightarrow> int \<Rightarrow> message \<Rightarrow> ((bool \<times> message) \<times> string_output) option" where
  "SerializeToString p capacity m = AppendToString p [] capacity m"

definition SerializePartialToString :: "pool \<Rightarrow> int \<Rightarrow> message \<Rightarrow> ((bool \<times> message) \<times> string_output) option" where
  "SerializePartialToString p capacity m = AppendPartialToString p [] capacity m"

definition SerializeToArray :: "pool \<Rightarrow> bytes \<Rightarrow> int \<Rightarrow> message \<Rightarrow> ((bool \<times> message) \<times> array_output) option" where
  "SerializeToArray p data sz m =
     SerializeToZeroCopyStream p ArrayOutput_vt (ArrayOutputStream data sz (- 1)) m"

definition SerializePartialToArray ::
  "pool \<Rightarrow> bytes \<Rightarrow> int \<Rightarrow> message \<Rightarrow> ((bool \<times> message) \<times> array_output) option" where
  "SerializePartialToArray p data sz m =
     SerializePartialToZeroCopyStream p ArrayOutput_vt (ArrayOutputStream data sz (- 1)) m"

text \<open>The destructor of the stream flushes it; what that returns is ignored.\<close>

definition FileOutputStream_destroy ::
  "'k posix \<Rightarrow> 'k copying_file copying_out_adaptor \<Rightarrow> 'k copying_file copying_out_adaptor option" where
  "FileOutputStream_destroy px s = map_option snd (CopyingOutputStreamAdaptor_Flush (FileOut_vt px) s)"

definition SerializeToFileDescriptor ::
  "pool \<Rightarrow> 'k posix \<Rightarrow> int \<Rightarrow> 'k \<Rightarrow> message \<Rightarrow> ((bool \<times> message) \<times> 'k) option" where
  "SerializeToFileDescriptor p px file_descriptor k m = do {
     (r, s) \<leftarrow> SerializeToZeroCopyStream p (CopyingOutputAdaptor_vt (FileOut_vt px)) (FileOutputStream file_descriptor (- 1) k) m;
     s' \<leftarrow> FileOutputStream_destroy px s;
     Some (r, cf_os (cd_stream s'))
   }"

definition SerializePartialToFileDescriptor ::
  "pool \<Rightarrow> 'k posix \<Rightarrow> int \<Rightarrow> 'k \<Rightarrow> message \<Rightarrow> ((bool \<times> message) \<times> 'k) option" where
  "SerializePartialToFileDescriptor p px file_descriptor k m = do {
     (r, s) \<leftarrow> SerializePartialToZeroCopyStream p (CopyingOutputAdaptor_vt (FileOut_vt px)) (FileOutputStream file_descriptor (- 1) k) m;
     s' \<leftarrow> FileOutputStream_destroy px s;
     Some (r, cf_os (cd_stream s'))
   }"

definition SerializeToOstream :: "pool \<Rightarrow> ostream \<Rightarrow> message \<Rightarrow> ((bool \<times> message) \<times> ostream) option" where
  "SerializeToOstream p output m = do {
     (r, s) \<leftarrow> SerializeToZeroCopyStream p OstreamOutput_vt (CopyingOutputStreamAdaptor output (- 1)) m;
     s' \<leftarrow> OstreamOutputStream_destroy s;
     Some (r, cd_stream s')
   }"

definition SerializePartialToOstream :: "pool \<Rightarrow> ostream \<Rightarrow> message \<Rightarrow> ((bool \<times> message) \<times> ostream) option" where
  "SerializePartialToOstream p output m = do {
     (r, s) \<leftarrow> SerializePartialToZeroCopyStream p OstreamOutput_vt (CopyingOutputStreamAdaptor output (- 1)) m;
     s' \<leftarrow> OstreamOutputStream_destroy s;
     Some (r, cd_stream s')
   }"

end
