(* ===== verification/MessageProperties.thy ===== *)
theory MessageProperties
  imports MessageReads MessageMerge RequiredFields MessageStreams
begin

text \<open>
  Messages as a whole: what reflection keeps of a message's types, and what is written, measured and
  read back.
\<close>

section \<open>A sample pool\<close>

text \<open>
  One message type with an \<open>int32\<close>, a repeated string, a field of its own type and an extension
  range, and a repeated \<open>sint64\<close> extension of it.
\<close>

definition sample_field :: "int \<Rightarrow> nat \<Rightarrow> field_type \<Rightarrow> field_label \<Rightarrow> bool \<Rightarrow> scalar option \<Rightarrow> field_descriptor" where
  "sample_field number index ty label extension dflt =
     \<lparr>fd_name = [], fd_full_name = [], fd_number = number, fd_index = index, fd_type = ty, fd_label = label,
      fd_is_extension = extension, fd_containing_type = 0, fd_message_type = 0, fd_enum_type = 0,
      fd_has_default_value = False, fd_default = dflt\<rparr>"

definition sample_int :: field_descriptor where
  "sample_int = sample_field 1 0 TYPE_INT32 LABEL_OPTIONAL False (Some (VInt32 0))"

definition sample_strings :: field_descriptor where
  "sample_strings = sample_field 2 1 TYPE_STRING LABEL_REPEATED False (Some (VString []))"

definition sample_child :: field_descriptor where
  "sample_child = sample_field 3 2 TYPE_MESSAGE LABEL_OPTIONAL False None"

definition sample_ext :: field_descriptor where
  "sample_ext = sample_field 100 0 TYPE_SINT64 LABEL_REPEATED True (Some (VInt64 0))"

definition sample_pool :: pool where
  "sample_pool =
     \<lparr>pool_types = [\<lparr>d_full_name = [], d_field_list = [sample_int, sample_strings, sample_child],
        d_extension_ranges = [(100, 200)], d_message_set_wire_format = False\<rparr>],
      pool_enums = [], pool_extensions = [sample_ext]\<rparr>"

lemmas sample_defs = sample_field_def sample_int_def sample_strings_def sample_child_def sample_ext_def

lemma sample_pool_ok: "pool_ok sample_pool"
  by (simp add: pool_ok_def sample_pool_def descriptor_ok_def extension_ok_def field_ok_def cpp_type_def
      sample_defs d_field_count_def valid_number_def int_bounds is_required_def descriptor_of_def rd_def
      IsExtensionNumber_def All_less_Suc numeral_3_eq_3)

lemma sample_known:
  "known_field sample_pool 0 sample_int" "known_field sample_pool 0 sample_strings"
  "known_field sample_pool 0 sample_child" "known_field sample_pool 0 sample_ext"
  by (simp_all add: known_field_def sample_pool_def descriptor_of_def rd_def) (simp add: sample_ext_def sample_field_def)

lemma sample_message:
  obtains m where "DynamicMessage sample_pool False 0 = Some m" "message_ok sample_pool True m" "msg_type m = 0"
    "content m = Content 0 [[], [], []] [] []"
proof -
  have "(0::nat) < length (pool_types sample_pool)" by (simp add: sample_pool_def)
  from new_message [OF sample_pool_ok this, of True] that show thesis
    by (auto simp: blank_def sample_pool_def d_field_count_def numeral_3_eq_3)
qed

section \<open>Values and their types\<close>

text \<open>C4: Reflection keeps the types of a message. Storing a value of a field's type in a well-formed
  message, by \<open>Add\<dots>\<close> for a repeated field and by \<open>Set\<dots>\<close> for another, in a slot or in the
  extension set, succeeds and gives a well-formed message, which differs from the old one in the
  values of this field only.\<close>

theorem stored_value_typed:
  assumes p: "pool_ok p" and m: "message_ok p strict m" and fd: "known_field p (msg_type m) fd"
    and v: "scalar_ok p fd v"
  shows "\<exists>m'. (if is_repeated fd then add_value p fd v m else set_value p fd v m) = Some m' \<and>
    message_ok p strict m' \<and> msg_type m' = msg_type m \<and>
    field_values fd (content m') = (if is_repeated fd then field_values fd (content m) else []) @ [FScalar v] \<and>
    (\<forall>fd'. known_field p (msg_type m) fd' \<and> fd' \<noteq> fd \<longrightarrow>
      field_values fd' (content m') = field_values fd' (content m)) \<and>
    c_unknown (content m') = c_unknown (content m)"
proof -
  let ?vs = "(if is_repeated fd then field_values fd (content m) else []) @ [FScalar v]"
  obtain m' where m': "(if is_repeated fd then add_value p fd v m else set_value p fd v m) = Some m'"
    "updated p strict fd ?vs m m'"
  proof (cases "is_repeated fd")
    case True
    with that add_value_ok [OF p m fd True v] show thesis by auto
  next
    case False
    with that set_value_ok [OF p m fd False v] show thesis by auto
  qed
  have s: "c_shape p (content m)" by (rule content_shape [OF m])
  have k: "known_field p (c_type (content m)) fd" using fd by simp
  from m'(2) have "message_ok p strict m'" "msg_type m' = msg_type m" "content m' = set_values fd ?vs (content m)"
    by (simp_all add: updated_def)
  with m'(1) field_values_set_same [OF s k p] field_values_set_other [OF s k _ p] set_values_shape(3) [OF s k p]
  show ?thesis by (auto simp del: c_unknown_content)
qed

theorem stored_value_typed_witness:
  "\<exists>m m'. DynamicMessage sample_pool False 0 = Some m \<and> add_value sample_pool sample_ext (VInt64 7) m = Some m' \<and>
    message_ok sample_pool True m' \<and> field_values sample_ext (content m') = [FScalar (VInt64 7)]"
proof -
  obtain m where m: "DynamicMessage sample_pool False 0 = Some m" "message_ok sample_pool True m" "msg_type m = 0"
    "content m = Content 0 [[], [], []] [] []" by (rule sample_message)
  have "scalar_ok sample_pool sample_ext (VInt64 7)" by (simp add: cpp_type_def sample_defs)
  from stored_value_typed [OF sample_pool_ok m(2) _ this] m sample_known(4) show ?thesis
    by (auto simp: sample_ext_def sample_field_def is_repeated_def)
qed

section \<open>Writing a message to a string\<close>

text \<open>A message with one value, of the extension.\<close>

lemma sample_stored:
  obtains m where "message_ok sample_pool True m" "msg_type m = 0"
    "content m = Content 0 [[], [], []] [(100, [FScalar (VInt64 7)])] []"
proof -
  obtain m where m: "message_ok sample_pool True m" "msg_type m = 0" "content m = Content 0 [[], [], []] [] []"
    by (rule sample_message)
  have "known_field sample_pool (msg_type m) sample_ext" "is_repeated sample_ext" "scalar_ok sample_pool sample_ext (VInt64 7)"
    using sample_known(4) m(2) by (simp_all add: cpp_type_def is_repeated_def sample_defs)
  from add_value_ok [OF sample_pool_ok m(1) this] that show thesis
    by (auto simp: updated_def m(2,3) sample_ext_def sample_field_def)
qed

lemma sample_bytes:
  "c_bytes sample_pool (Content 0 [[], [], []] [(100, [FScalar (VInt64 7)])] []) = [0xA0, 0x06, 0x0E]"
proof -
  have f: "c_fields sample_pool (Content 0 [[], [], []] [(100, [FScalar (VInt64 7)])] []) = [sample_ext]"
    by (simp add: c_fields_def sample_pool_def sample_defs FindExtensionByNumber_def)
  show ?thesis
    unfolding c_bytes.simps f
    by (simp add: c_values_def unknown_bytes_def sample_pool_def value_bytes.simps sample_ext_def sample_field_def tag_bytes_def)
      code_simp
qed

lemma writes_content:
  assumes p: "pool_ok p" and m: "message_ok p strict m"
    and t: "int (length output) \<le> cap" "cap \<le> INT_MAX"
    and small: "int (length output) + int (length (c_bytes p (content m))) \<le> INT_MAX div 2"
  shows "\<exists>m' s. AppendPartialToString p output cap m = Some ((True, m'), s) \<and>
    so_target s = output @ c_bytes p (content m) \<and>
    Message_ByteSize p m = Some (int (length (c_bytes p (content m))), m') \<and>
    message_ok p strict m' \<and> content m' = content m"
proof -
  let ?d = "c_bytes p (content m)"
  obtain m' where m': "Message_ByteSize p m = Some (int (length ?d), m')" "message_ok p strict m'" "content m' = content m"
    "sized p m'"
    using byte_size_ok [OF p m] by (auto simp: measures_def remeasured_def)
  let ?total = "int (length output) + int (length ?d)" and ?w = "Message_SerializeWithCachedSizes p StringOutput_vt m'"
  let ?cap = "string_reserve ?total cap"
  have w: "so.emits ?w ?d" "never_false ?w"
    using so.serialize_emits_content [OF m'(4) p m'(2)] message_never_false [OF string_next_never_false] m'(3) by simp_all
  have c: "int (length output) \<le> ?cap" "?cap \<le> INT_MAX" "?total \<le> INT_MAX"
    using t small by (auto simp: string_reserve_def INT_MAX_def)
  obtain out s where o: "?w (string_writer output ?cap) = Some (True, out)"
    "CodedOutputStream_destroy StringOutput_vt out = Some s" "so_target s = output @ ?d"
    by (rule string_write [OF w c(1,2) small])
  then have "AppendPartialToString p output cap m = Some ((True, m'), s)"
    using c(3) by (simp add: AppendPartialToString_def m'(1) string_writer_def StringOutputStream_ByteCount_def)
  with o(3) m' show ?thesis by blast
qed

text \<open>C2: A message is written as it is measured. \<open>AppendPartialToString\<close> appends to any string
  exactly the bytes of the message's content: the fields that are set, in the order of their numbers,
  each value behind its tag, embedded messages with their length before them or between group tags,
  and then the unknown fields. \<open>ByteSize\<close> is their number, so that neither the check of the size
  nor the sizes cached for embedded messages are ever wrong, and the content stays as it was.\<close>

theorem AppendPartialToString_appends:
  assumes p: "pool_ok p" and m: "message_ok p strict m"
    and t: "int (length output) \<le> cap" "cap \<le> INT_MAX"
    and small: "int (length output) + int (length (c_bytes p (content m))) \<le> INT_MAX div 2"
  shows "\<exists>m' s. AppendPartialToString p output cap m = Some ((True, m'), s) \<and>
    so_target s = output @ c_bytes p (content m) \<and>
    Message_ByteSize p m = Some (int (length (c_bytes p (content m))), m') \<and>
    message_ok p strict m' \<and> content m' = content m"
  by (rule writes_content [OF assms])

theorem AppendPartialToString_appends_witness:
  "\<exists>m m' s. AppendPartialToString sample_pool [1] 1 m = Some ((True, m'), s) \<and> so_target s = [1, 0xA0, 0x06, 0x0E] \<and>
    content m = Content 0 [[], [], []] [(100, [FScalar (VInt64 7)])] []"
proof -
  obtain m where m: "message_ok sample_pool True m"
    "content m = Content 0 [[], [], []] [(100, [FScalar (VInt64 7)])] []" by (rule sample_stored)
  have "\<exists>m' s. AppendPartialToString sample_pool [1] 1 m = Some ((True, m'), s) \<and> so_target s = [1, 0xA0, 0x06, 0x0E]"
    using AppendPartialToString_appends [OF sample_pool_ok m(1), of "[1]" 1] sample_bytes
    by (auto simp: m(2) INT_MAX_def)
  with m(2) show ?thesis by blast
qed

section \<open>Reading it back\<close>

lemma clear_new:
  assumes p: "pool_ok p" and n: "DynamicMessage p False t = Some n" "message_ok p True n" "content n = blank p t"
  shows "Message_Clear p n = Some n"
proof -
  have "c_fields p (blank p t) = []"
  proof (rule ccontr)
    assume "c_fields p (blank p t) \<noteq> []"
    then have "c_fields p (blank p t) ! 0 \<in> set (c_fields p (blank p t))" by simp
    then obtain fd where "known_field p t fd" "field_values fd (blank p t) \<noteq> []"
      using set_c_fields [OF p content_shape [OF n(2)]] by (auto simp: n(3) blank_def)
    then show False
      using own_field(3) [OF p]
      by (cases rule: known_field_cases [OF p \<open>known_field p t fd\<close>, case_names own ext])
        (fastforce simp: blank_def descriptor_of_Some)+
  qed
  then have "ListFields p n = Some []" using ListFields_ok [OF p n(2)] by (simp add: n(3))
  moreover have "with_unknown_fields (UnknownFieldSet_Clear (msg_unknown_fields n)) n = n"
    using n(1) by (auto simp: DynamicMessage_def UnknownFieldSet_Clear.simps split: bind_splits)
  ultimately show ?thesis
    by (subst Message_Clear.simps) (simp add: ReflectionOps_Clear_def)
qed

text \<open>C1: What is written is read back. \<open>SerializePartialToString\<close> of any well-formed message
  succeeds, and \<open>ParsePartialFromString\<close> of the string it gives, into a new message of the same type,
  succeeds and gives a message with the same content: the same values of the same fields and
  extensions, embedded messages and groups included, and the same unknown fields in the same order.
  The message must hold no message set, nest its messages and groups no deeper than the recursion
  limit of 64, keep no unknown field under the number of a field it knows and none without a value, and
  take less than the reader's total limit of 64 megabytes.\<close>

theorem message_round_trip:
  assumes p: "pool_ok p" and m: "message_ok p strict m" and readable: "readable p 64 (content m)"
    and cap: "0 \<le> cap" "cap \<le> INT_MAX" and n: "DynamicMessage p False (msg_type m) = Some n"
    and small: "Message_ByteSize p m = Some (sz, m1)" "sz < kDefaultTotalBytesLimit"
  shows "\<exists>m' s n'. SerializePartialToString p cap m = Some ((True, m'), s) \<and> content m' = content m \<and>
    ParsePartialFromString p (so_target s) n = Some (True, n') \<and>
    message_ok p True n' \<and> content n' = content m"
proof -
  have sz: "sz = int (length (c_bytes p (content m)))"
    using byte_size_ok [OF p m] small(1) by (auto simp: measures_def remeasured_def)
  then have "int (length []) + int (length (c_bytes p (content m))) \<le> INT_MAX div 2"
    using small(2) by (simp add: kDefaultTotalBytesLimit_def INT_MAX_def)
  then obtain m' s where s: "SerializePartialToString p cap m = Some ((True, m'), s)"
    "so_target s = c_bytes p (content m)" "content m' = content m"
    using writes_content [OF p m, of "[]" cap] cap by (auto simp: SerializePartialToString_def)
  have "msg_type m < length (pool_types p)"
    using message_ok_descriptor [OF m] by (auto simp: descriptor_of_Some)
  from new_message [OF p this, of True] n
  have new: "message_ok p True n" "content n = blank p (msg_type m)" by auto
  let ?in = "ArrayInputStream (so_target s) (int (length (so_target s))) (- 1)"
  have a: "array_input_ok ?in" "array_input_avail ?in = so_target s"
    using small(2) sz s(2) by (auto intro!: array_input_ok_init simp: kDefaultTotalBytesLimit_def INT_MAX_def)
  obtain n' c s' where "MergePartialFromCodedStream p ArrayInput_vt (CodedInputStream ?in) n = Some ((True, n'), c)"
    "CodedInputStream_ConsumedEntireMessage c" "CodedInputStream_destroy ArrayInput_vt c = Some s'"
    "message_ok p True n'" "content n' = content m"
    using ai.merge_content [OF p m readable a(1) _ _ new] a(2) s(2) small(2) sz by auto
  then have "ParsePartialFromString p (so_target s) n = Some (True, n')"
    using clear_new [OF p n new]
    by (simp add: ParsePartialFromString_def ParsePartialFromZeroCopyStream_def ParsePartialFromCodedStream_def)
  with s \<open>message_ok p True n'\<close> \<open>content n' = content m\<close> show ?thesis by blast
qed

text \<open>A message with an embedded one, which has a value of the extension.\<close>

definition sample_inner :: mvalue where
  "sample_inner = Content 0 [[], [], []] [(100, [FScalar (VInt64 7)])] []"

definition sample_outer :: mvalue where
  "sample_outer = Content 0 [[], [], [FMessage sample_inner]] [] []"

lemma sample_nested:
  obtains m where "message_ok sample_pool True m" "msg_type m = 0" "content m = sample_outer"
proof -
  obtain m where m: "message_ok sample_pool True m" "msg_type m = 0" "content m = Content 0 [[], [], []] [] []"
    by (rule sample_message)
  obtain c where c: "message_ok sample_pool True c" "msg_type c = 0" "content c = sample_inner"
    unfolding sample_inner_def by (rule sample_stored)
  have child: "known_field sample_pool (msg_type m) sample_child" "cpp_type sample_child = CPPTYPE_MESSAGE"
    "fd_message_type sample_child = 0" "\<not> is_repeated sample_child"
    using sample_known(3) m(2) by (simp_all add: cpp_type_def is_repeated_def sample_defs)
  obtain m2 where "updated sample_pool True sample_child [FMessage sample_inner] m m2"
    using stored_message [OF sample_pool_ok m(1) child(1,2) c(1)] c(2,3) child(3,4) by auto
  with that m(2,3) show thesis
    by (auto simp: updated_def sample_outer_def sample_child_def sample_field_def)
qed

lemma sample_outer_bytes: "c_bytes sample_pool sample_outer = [0x1A, 3, 0xA0, 0x06, 0x0E]"
proof -
  have f: "c_fields sample_pool sample_outer = [sample_child]"
    by (simp add: c_fields_def sample_outer_def sample_pool_def sample_defs)
  have v: "c_values sample_child sample_outer = [FMessage sample_inner]"
    by (simp add: c_values_def sample_outer_def sample_child_def sample_field_def)
  show ?thesis
    unfolding c_bytes.simps [of sample_pool sample_outer] f
    by (simp add: v value_bytes.simps sample_bytes [folded sample_inner_def])
      (simp add: set_item_def delimited_def unknown_bytes_def sample_outer_def sample_pool_def sample_child_def sample_field_def tag_bytes_def, code_simp)
qed

lemma sample_readable: "readable sample_pool 64 sample_outer"
proof -
  have "readable_here sample_pool k sample_outer" "readable_here sample_pool k sample_inner" for k
    by (simp_all add: readable_here_def sample_outer_def sample_inner_def sample_pool_def)
  moreover have "c_messages sample_outer = [sample_inner]" "c_messages sample_inner = []"
    by (simp_all add: c_messages_def sample_outer_def sample_inner_def)
  moreover have "(64::nat) = Suc (Suc 62)" by simp
  ultimately show ?thesis by (simp only: readable.simps list.pred_inject simp_thms)
qed

theorem message_round_trip_witness:
  "\<exists>m n m' s n'. content m = sample_outer \<and> DynamicMessage sample_pool False 0 = Some n \<and>
    SerializePartialToString sample_pool 0 m = Some ((True, m'), s) \<and>
    ParsePartialFromString sample_pool (so_target s) n = Some (True, n') \<and> content n' = sample_outer"
proof -
  obtain m where m: "message_ok sample_pool True m" "msg_type m = 0" "content m = sample_outer" by (rule sample_nested)
  obtain n where n: "DynamicMessage sample_pool False 0 = Some n" by (rule sample_message)
  obtain m1 where "Message_ByteSize sample_pool m = Some (5, m1)"
    using byte_size_ok [OF sample_pool_ok m(1)] sample_outer_bytes
    by (auto simp: measures_def remeasured_def m(3))
  then show ?thesis
    using message_round_trip [OF sample_pool_ok m(1), of 0 n 5 m1] sample_readable m n
    by (auto simp: INT_MAX_def kDefaultTotalBytesLimit_def)
qed

section \<open>Merging and copying\<close>

text \<open>C3: \<open>MergeFrom\<close> merges and \<open>CopyFrom\<close> copies, for messages that were never cleared
  (\<open>message_ok p True\<close>: neither keeps a cleared message for reuse or one in a field that is not set,
  and the unknown fields of neither keep values that \<open>Clear\<close> should have removed; into a message that
  was cleared, merging an unknown field can bring its old fixed32 and fixed64 values back). Merging such
  a message into another of its type, a different object, succeeds: a field that is not set in the first keeps its values, a
  repeated one gets the values of the first appended, a singular one its value, where an embedded
  message is merged in the same way into the one that is there or into a new one; unknown fields are
  merged number by number. The result is again a message that was never cleared. Copying into a new
  message gives a message with the same content.\<close>

theorem MergeFrom_merges:
  assumes p: "pool_ok p" and m: "message_ok p True m" and to: "message_ok p True to" "msg_type to = msg_type m"
    and n: "DynamicMessage p False (msg_type m) = Some n"
  shows "\<exists>to' n'. Message_MergeFrom p m to = Some to' \<and> message_ok p True to' \<and> msg_type to' = msg_type m \<and>
    c_unknown (content to') = uv_merge (c_unknown (content m)) (c_unknown (content to)) \<and>
    (\<forall>fd. known_field p (msg_type m) fd \<longrightarrow> field_values fd (content to') =
      (if field_values fd (content m) = [] then field_values fd (content to)
       else merged_values p (content m) (content to) fd)) \<and>
    Message_CopyFrom p m n = Some n' \<and> message_ok p True n' \<and> content n' = content m"
proof -
  obtain to' where to': "Message_MergeFrom p m to = Some to'" "message_ok p True to'"
    "content to' = c_merge p (content m) (content to)"
    using merge_from_ok [OF p m to] by blast
  have t: "c_type (content m) = c_type (content to)" using to(2) by simp
  note ok = c_merge_ok [OF p content_shape [OF m] content_shape [OF to(1)] t]
  have t': "msg_type to' = msg_type m" using ok(2) to'(3) to(2) by (metis c_type_content)
  have l: "msg_type m < length (pool_types p)"
    using message_ok_descriptor [OF m] by (auto simp: descriptor_of_Some)
  from new_message [OF p l, of True] n
  have new: "message_ok p True n" "msg_type n = msg_type m" "content n = blank p (msg_type m)" by auto
  obtain n' where n': "Message_MergeFrom p m n = Some n'" "message_ok p True n'" "content n' = content m"
    using merge_from_ok [OF p m new(1,2)] c_merge_blank [OF p m] by (auto simp: new(3))
  have "ReflectionOps_Clear p (Message_Clear p) n = Some n"
    using clear_new [OF p n new(1,3)] by (simp add: Message_Clear.simps [of p n])
  moreover have "ReflectionOps_Merge p (Message_MergeFrom p) m n = Some n'"
    using n'(1) new(2) by (simp add: Message_MergeFrom.simps [of p m n])
  ultimately have copy: "Message_CopyFrom p m n = Some n'"
    using new(2) by (simp add: Message_CopyFrom_def ReflectionOps_Copy_def)
  show ?thesis
  proof (intro exI conjI)
    show "c_unknown (content to') = uv_merge (c_unknown (content m)) (c_unknown (content to))"
      by (simp only: to'(3) ok(3))
    show "\<forall>fd. known_field p (msg_type m) fd \<longrightarrow> field_values fd (content to') =
        (if field_values fd (content m) = [] then field_values fd (content to)
         else merged_values p (content m) (content to) fd)"
      using ok(4) to(2) by (simp add: to'(3))
  qed (rule to' t' copy n')+
qed

lemma sample_inner_fields: "c_fields sample_pool sample_inner = [sample_ext]"
  by (simp add: c_fields_def sample_inner_def sample_pool_def sample_defs FindExtensionByNumber_def)

lemma sample_merged:
  "merged_values sample_pool sample_outer sample_outer sample_child =
    [FMessage (Content 0 [[], [], []] [(100, [FScalar (VInt64 7), FScalar (VInt64 7)])] [])]"
proof -
  have child: "field_values sample_child sample_outer = [FMessage sample_inner]" "\<not> is_repeated sample_child"
    by (simp_all add: sample_outer_def sample_child_def sample_field_def is_repeated_def)
  have ext: "c_values sample_ext sample_inner = [FScalar (VInt64 7)]" "is_repeated sample_ext"
    "merged_into sample_ext sample_inner = [FScalar (VInt64 7)]"
    by (simp_all add: c_values_def merged_into_def sample_inner_def sample_ext_def sample_field_def is_repeated_def)
  have "c_merge sample_pool sample_inner sample_inner =
      Content 0 [[], [], []] [(100, [FScalar (VInt64 7), FScalar (VInt64 7)])] []"
    unfolding c_merge.simps sample_inner_fields
    by (simp add: ext) (simp add: sample_inner_def sample_ext_def sample_field_def uv_merge_def)
  then show ?thesis by (simp add: merged_values_def merged_into_def merge_base_def child)
qed

theorem MergeFrom_merges_witness:
  "\<exists>m to to' n n'. content m = sample_outer \<and> content to = sample_outer \<and> Message_MergeFrom sample_pool m to = Some to' \<and>
    field_values sample_child (content to') =
      [FMessage (Content 0 [[], [], []] [(100, [FScalar (VInt64 7), FScalar (VInt64 7)])] [])] \<and>
    Message_CopyFrom sample_pool m n = Some n' \<and> content n' = sample_outer"
proof -
  obtain m where m: "message_ok sample_pool True m" "msg_type m = 0" "content m = sample_outer" by (rule sample_nested)
  obtain n where n: "DynamicMessage sample_pool False (msg_type m) = Some n" using sample_message m(2) by metis
  have v: "field_values sample_child sample_outer \<noteq> []" by (simp add: sample_outer_def sample_child_def sample_field_def)
  obtain to' n' where "Message_MergeFrom sample_pool m m = Some to'"
    "field_values sample_child (content to') = merged_values sample_pool sample_outer sample_outer sample_child"
    "Message_CopyFrom sample_pool m n = Some n'" "content n' = sample_outer"
    using MergeFrom_merges [OF sample_pool_ok m(1) m(1) refl n] sample_known(3) v m(2,3) by auto
  with m(3) sample_merged show ?thesis by metis
qed

section \<open>Required fields\<close>

text \<open>C5: The checks of required fields agree. \<open>FindInitializationErrors\<close> returns the paths of all
  required fields that are missing in the message and, through the fields that are set and the elements
  of repeated ones, in the messages it holds; \<open>IsInitialized\<close> is true exactly when there are none,
  \<open>InitializationErrorString\<close> joins them by \<open>JoinStrings\<close>, which gives the paths with a comma and a
  blank between them as long as that is no longer than \<open>INT_MAX\<close> bytes, and \<open>CheckInitialized\<close> ends
  the process exactly when there are some. The buffer of \<open>SimpleItoa\<close> may hold anything; the size bounds the indices of repeated
  fields.\<close>

theorem initialization_errors:
  assumes p: "pool_ok p" and m: "message_ok p strict m" and stack: "length stack = kFastToBufferSize"
    and small: "int (size (content m)) \<le> INT_MAX"
  shows "\<exists>errors. errors = c_missing p [] (content m) \<and> Message_FindInitializationErrors p stack m = Some errors \<and>
    Message_IsInitialized p m = Some (errors = []) \<and>
    InitializationErrorString p stack m = JoinStrings errors [asc CHR '','', asc CHR '' ''] \<and>
    (int (length (joined [asc CHR '','', asc CHR '' ''] True errors)) \<le> INT_MAX \<longrightarrow>
      InitializationErrorString p stack m = Some (joined [asc CHR '','', asc CHR '' ''] True errors)) \<and>
    CheckInitialized p m = (if errors = [] then Some () else None)"
  using missing_ok [OF p m, of "[]" stack] stack small JoinStrings_joined [of "[asc CHR '','', asc CHR '' '']"]
  by (simp add: Message_FindInitializationErrors_def InitializationErrorString_def CheckInitialized_def
      c_str_def INT_MAX_def)

text \<open>A message type with a required field \<open>id\<close> and a repeated field \<open>kid\<close> of its own type.\<close>

definition req_id :: field_descriptor where
  "req_id = (sample_field 1 0 TYPE_INT32 LABEL_REQUIRED False (Some (VInt32 0)))\<lparr>fd_name := map asc ''id''\<rparr>"

definition req_kid :: field_descriptor where
  "req_kid = (sample_field 2 1 TYPE_MESSAGE LABEL_REPEATED False None)\<lparr>fd_name := map asc ''kid''\<rparr>"

definition req_pool :: pool where
  "req_pool =
     \<lparr>pool_types = [\<lparr>d_full_name = [], d_field_list = [req_id, req_kid], d_extension_ranges = [],
        d_message_set_wire_format = False\<rparr>], pool_enums = [], pool_extensions = []\<rparr>"

definition req_inner :: mvalue where "req_inner = Content 0 [[], []] [] []"
definition req_outer :: mvalue where "req_outer = Content 0 [[], [FMessage req_inner]] [] []"

lemmas req_defs = req_id_def req_kid_def sample_field_def

lemma req_pool_ok: "pool_ok req_pool"
  by (simp add: pool_ok_def req_pool_def descriptor_ok_def field_ok_def cpp_type_def
      req_defs d_field_count_def valid_number_def int_bounds is_required_def IsExtensionNumber_def All_less_Suc numeral_2_eq_2)

lemma req_nested:
  obtains m where "message_ok req_pool True m" "content m = req_outer"
proof -
  have "(0::nat) < length (pool_types req_pool)" by (simp add: req_pool_def)
  from new_message [OF req_pool_ok this, of True]
  obtain m where m: "message_ok req_pool True m" "msg_type m = 0" "content m = req_inner"
    by (auto simp: blank_def req_pool_def d_field_count_def req_inner_def numeral_2_eq_2)
  have kid: "known_field req_pool (msg_type m) req_kid" "cpp_type req_kid = CPPTYPE_MESSAGE"
    "fd_message_type req_kid = 0" "is_repeated req_kid" "field_values req_kid req_inner = []"
    by (simp_all add: m(2) known_field_def req_pool_def descriptor_of_def rd_def cpp_type_def is_repeated_def
        req_defs req_inner_def)
  obtain m2 where "updated req_pool True req_kid [FMessage req_inner] m m2"
    using stored_message [OF req_pool_ok m(1) kid(1,2) m(1)] m(2,3) kid(3-5) by auto
  with that m(3) show thesis
    by (auto simp: updated_def req_outer_def req_inner_def req_kid_def sample_field_def)
qed

lemma req_missing: "c_missing req_pool [] req_outer = [map asc ''id'', map asc ''kid[0].id'']"
proof -
  have f: "c_fields req_pool req_inner = []" "c_fields req_pool req_outer = [req_kid]"
    by (simp_all add: c_fields_def req_inner_def req_outer_def req_pool_def req_defs)
  have own: "filter (\<lambda>fd. is_required fd \<and> field_values fd c = []) (d_field_list (pool_types req_pool ! c_type c)) = [req_id]"
    if "c = req_inner \<or> c = req_outer" for c
    using that by (auto simp: req_inner_def req_outer_def req_pool_def req_defs is_required_def)
  have v: "c_values req_kid req_outer = [FMessage req_inner]"
    by (simp add: c_values_def req_outer_def req_kid_def sample_field_def)
  have pre: "sub_prefix [] req_kid 0 = map asc ''kid[0].''"
    by (simp add: sub_prefix_def is_repeated_def req_kid_def sample_field_def signed_decimal_def text_in.simps [of 10 0] digit_def hex_digit_def)
  show ?thesis
    unfolding c_missing.simps [of req_pool pre req_outer for pre] f own [OF disjI2 [OF refl]]
    by (simp add: v pre c_missing.simps [of req_pool pre req_inner for pre] f own [OF disjI1 [OF refl]])
      (simp add: req_id_def)
qed

theorem initialization_errors_witness:
  "\<exists>m. message_ok req_pool True m \<and> content m = req_outer \<and>
    Message_FindInitializationErrors req_pool (replicate 32 0) m = Some [map asc ''id'', map asc ''kid[0].id''] \<and>
    Message_IsInitialized req_pool m = Some False"
proof -
  obtain m where m: "message_ok req_pool True m" "content m = req_outer" by (rule req_nested)
  have "int (size (content m)) \<le> INT_MAX" by (simp add: m(2) req_outer_def req_inner_def INT_MAX_def)
  with initialization_errors [OF req_pool_ok m(1), of "replicate 32 0"] m req_missing show ?thesis
    by (auto simp: kFastToBufferSize_def)
qed

end
