(* ===== verification/Spec2Isabelle.thy ===== *)
theory Spec2Isabelle
  imports StreamProperties FieldProperties WireProperties TextProperties PrinterProperties TokenizerProperties
    MessageProperties
begin

text \<open>
  The C++ core of the notebook is its copy of Google's Protocol Buffers (version 2.0.x) under
  \<open>src/protobuf/trunk/protobuf/src/google/protobuf\<close>; file names below are relative to that
  directory. This development models the runtime from the byte streams up to whole messages, and the
  text library the compiler front end is built on: the definitions are the functions of the source,
  in its order and under its names, and the theorems show what each part promises its callers.

  \<^bold>\<open>How the parts fit together.\<close> A message is serialized and parsed through its reflection
  (\<open>wire_format.cc\<close> over \<open>generated_message_reflection.cc\<close>, \<open>dynamic_message.cc\<close> and
  \<open>extension_set.cc\<close>). The wire format reads and writes tags and values through
  \<open>CodedInputStream\<close> and \<open>CodedOutputStream\<close> (\<open>io/coded_stream.cc\<close>), which buffer a
  zero-copy stream: an array, a string, a file, a C++ stream, or streams made of other streams
  (\<open>io/zero_copy_stream_impl.cc\<close>). What the wire format does not know goes to an
  \<open>UnknownFieldSet\<close>. The tokenizer (\<open>io/tokenizer.cc\<close>) and the printer
  (\<open>io/printer.cc\<close>) use the same zero-copy streams, and \<open>stubs/strutil.cc\<close> and
  \<open>stubs/substitute.cc\<close> for text.

  \<^bold>\<open>Streams.\<close>
  \<^item> \<open>ProtoPrelude\<close>: machine types, the bounds of \<open>int\<close>, memory slices, computations that may
    not return.
  \<^item> \<open>ZeroCopyStream\<close>: the virtual methods of the two stream interfaces as records of functions, what
    they promise as the locales \<open>zero_copy_input\<close>, \<open>zero_copy_input_skip\<close> and
    \<open>zero_copy_output\<close>, and the array and string streams with the interpretations that show they keep
    the promises. \<open>CopyingStreams\<close>, \<open>FileStreams\<close> and \<open>CompositeStreams\<close>: the adaptors
    around copying streams, files, \<open>istream\<close> and \<open>ostream\<close>, concatenation and limits. Each is
    shown to keep the contract given that the stream below does, by a sublocale or an interpretation.
    \<open>StreamProperties\<close> states what a client that drains a stream gets.
  \<^item> \<open>CodedInput\<close> and \<open>CodedOutput\<close>: the coded streams, buffers, limits, byte counts and the
    recursion counter included. \<open>Varint\<close> is the format as a specification; \<open>CodedReads\<close>,
    \<open>CodedVarints\<close> and \<open>CodedWrites\<close> prove, inside the stream locales and hence for every
    stream, the invariant \<open>ci_ok\<close> and what each operation reads or writes, the unrolled fast paths
    against the format. \<open>CodedProperties\<close> states the results over an array.

  \<^bold>\<open>Wire format and messages.\<close>
  \<^item> \<open>RepeatedFields\<close> (\<open>repeated_field.h\<close>), \<open>UnknownFieldSets\<close>
    (\<open>unknown_field_set.cc\<close>) and \<open>WireTags\<close> (\<open>wire_format.h\<close>): containers with their
    invariants and abstractions to lists, tags and ZigZag. \<open>FieldProperties\<close> states their
    properties.
  \<^item> \<open>WireFormat\<close>: skipping, writing and measuring unknown fields. \<open>WireItems\<close> is the grammar of
    the format; \<open>WireSkip\<close> shows that skipping ends on every input and adds to the set just the items
    on the wire. \<open>WireProperties\<close> states this with the round trip.
  \<^item> \<open>Descriptors\<close> (\<open>descriptor.h\<close>), \<open>Messages\<close> (\<open>dynamic_message.cc\<close>),
    \<open>ExtensionSets\<close> (\<open>extension_set.cc\<close>) and \<open>MessageReflection\<close>
    (\<open>generated_message_reflection.cc\<close>): types, the memory of a message as has bits, typed slots
    and an extension map, and every accessor of the reflection with its usage checks.
  \<^item> \<open>WirePrimitives\<close> (\<open>wire_format_inl.h\<close>), \<open>WireMessages\<close> (\<open>wire_format.cc\<close>),
    \<open>ReflectionOps\<close> (\<open>reflection_ops.cc\<close>) and \<open>MessageStreams\<close> (\<open>message.cc\<close>):
    reading, writing and measuring one value of each type, whole messages, message sets; clearing,
    merging and copying; the entry points to strings, arrays, files and streams.
  \<^item> The specification of a message is its \<open>content\<close> (\<open>MessageContent\<close>, \<open>MessageFields\<close>):
    the values of each field that is set, of each extension, and the unknown fields. \<open>message_ok\<close> is
    the type of a message. \<open>MessageAccess\<close> and \<open>MessageSubs\<close> show that the reflection reads and
    changes just the values of one field. \<open>FieldCodec\<close> and \<open>MessageBytes\<close> give the bytes of a
    value and of a content; \<open>MessageWrites\<close> shows that \<open>SerializeWithCachedSizes\<close> writes them and
    \<open>ByteSize\<close> counts them, \<open>MessageReads\<close> that parsing them into a new message restores the
    content. \<open>MessageMerge\<close> is merging and copying on contents,
    \<open>RequiredFields\<close> the list of required fields a content lacks.
    \<open>MessageProperties\<close> states the results.

  \<^bold>\<open>Text.\<close>
  \<^item> \<open>ByteChars\<close>, \<open>StringOps\<close>, \<open>EscapeText\<close>, \<open>NumberText\<close>, \<open>SubstituteText\<close>,
    \<open>LibcText\<close> (\<open>stubs/strutil.cc\<close>, \<open>stubs/substitute.cc\<close>): replacing, splitting,
    joining, escaping, numbers as text down to the stores through character pointers.
    \<open>TextProperties\<close> states their properties.
  \<^item> \<open>Printer\<close> and \<open>PrinterProperties\<close> (\<open>io/printer.cc\<close>): templates expanded into a stream,
    against the rendering of a template as a function.
  \<^item> \<open>TokenText\<close>, \<open>Tokenizer\<close> (\<open>io/tokenizer.cc\<close>). \<open>TokenizerView\<close> is what a client
    can see of a tokenizer, \<open>TokenizerPairs\<close> (the locale \<open>tokenizer_pair\<close>) runs two in step over
    any two streams, \<open>TokenizerLiterals\<close> and \<open>TokenizerProperties\<close> show that tokenizing ends,
    does not depend on the blocks of the stream, and reads back what escaping and number formatting
    print.

  \<^bold>\<open>Conventions.\<close> A C++ \<open>int\<close> is an \<open>int\<close> with the bounds of \<open>INT_MAX\<close> stated where they
  matter; unsigned types and varints are words, which wrap around. A \<open>char\<close> is signed where the code
  compares it. State is passed explicitly; a pointer to an object another part owns is the object,
  returned updated. The value \<open>None\<close> of a computation is one that does not return normally: a failed
  \<open>GOOGLE_CHECK\<close>, \<open>GOOGLE_DCHECK\<close> or \<open>LOG(FATAL)\<close> (the model is the debug build), an access
  outside an array, a thrown exception, or a loop without end; so every theorem that ends in
  \<open>Some\<close> also says that none of these happens. Errors the code reports are values. Loops that
  might not end are least fixed points (\<open>partial_function\<close>), with no fuel anywhere, and proved to
  return where the code relies on it. Logged text is not modelled. Code that is not in the repository is
  a parameter: the POSIX calls of the file streams, \<open>strtol\<close>, \<open>strtod\<close> and \<open>snprintf\<close>, and
  the bytes of a fresh buffer. A \<open>float\<close> or \<open>double\<close> of a message is its object representation.
  The virtual methods of an embedded message are arguments of the operations that call them, and the
  recursion is tied over \<open>Message\<close>'s own, so that all messages are reflective ones.

  \<^bold>\<open>Bounds.\<close> Readers are bounded by the source's own limits: 64 megabytes in all
  (\<open>kDefaultTotalBytesLimit\<close>) and 64 nested messages or groups (\<open>kDefaultRecursionLimit\<close>).
  Writers into a string assume that the result takes at most half of \<open>INT_MAX\<close> bytes, because
  \<open>StringOutputStream::Next\<close> doubles the string and keeps its size in an \<open>int\<close>. The sizes of a
  repeated field are \<open>int\<close>s whose overflow has no value (\<open>c_int\<close>); up to \<open>2 ^ 30\<close> elements there
  is none, and there unknown fields and messages hold such a field as a list. \<open>CEscape\<close>,
  \<open>JoinStrings\<close> and \<open>SubstituteAndAppend\<close> compute sizes in \<open>int\<close>, by conversion from
  \<open>size_t\<close> (\<open>to_int\<close>) or by sums that may overflow (\<open>c_int\<close>); their properties state how long
  the text may be. Three positions are left unbounded, which is the program for texts below two
  gigabytes: those of \<open>GlobalReplaceSubstring\<close>, the length of a template in \<open>Printer::Print\<close>, and,
  for an eighth of that, the line and column of the tokenizer.

  \<^bold>\<open>Messages that were cleared.\<close> \<open>Clear\<close> keeps objects for reuse, and leaves fixed32 and fixed64
  values in those of unknown fields (a defect of the code that is proved). \<open>message_ok p strict\<close> is the
  type of a message; with \<open>strict\<close> it moreover was never cleared, so that nothing stale can come back.
  The properties of serializing, sizes, stored values and required fields hold for both; what is merged
  into must be strict. Unknown field sets have \<open>ufs_ok\<close> and, for the same reason, \<open>ufs_clean\<close>.

  \<^bold>\<open>What the code does not do.\<close> The properties include behaviours that contradict a comment or the
  evident intent: \<open>CopyingInputStream::Skip\<close> overshoots, \<open>clear_fixed32\<close> and
  \<open>clear_fixed64\<close> clear the varints, \<open>SkipField\<close> accepts a truncated string,
  \<open>CEscapeString\<close> writes past its buffer, \<open>SimpleItoa\<close> of large unsigned numbers overflows,
  \<open>GlobalReplaceSubstring\<close> of an empty pattern does not return, the printer's destructor ends the
  process after a failed write, and the tokenizer accepts numbers and strings that \<open>ParseInteger\<close>
  and \<open>ParseString\<close> reject or misread. Each is proved of the model of the function concerned.

  \<^bold>\<open>Not modelled.\<close>
  \<^item> Building, validating and printing descriptors, descriptor pools by name, and descriptor databases
    (\<open>descriptor.cc\<close>, \<open>descriptor_database.cc\<close>): they work on the generated classes of
    \<open>descriptor.proto\<close>; what the runtime asks of a finished pool is \<open>pool_ok\<close>.
  \<^item> The schema parser and importer (\<open>compiler/parser.cc\<close>, \<open>compiler/importer.cc\<close>) and
    \<open>text_format.cc\<close>, which build on those classes, and the code generators under
    \<open>compiler\<close>, which print program text.
  \<^item> The layout of a message as bytes at offsets, the caches of \<open>DynamicMessageFactory\<close>, and the methods
    of \<open>ExtensionSet\<close> that only generated classes call.
  \<^item> Generated code, tests, the vendored gtest, and the other programs of the notebook, which are
    exercises without a common core.
\<close>

end
